(* ===== verification/Prelude.thy ===== *)
theory Prelude
  imports Main "HOL-Library.Word" "HOL-Library.Multiset"
begin

text \<open>
  What every component of the development shares: the result type the Rust code returns, the
  arithmetic of its unsigned integers, big-endian bytes, and the two interfaces (a codec, and a
  collection kept in a strict order) whose lemmas the components reuse.

  A Rust \<open>Result<T, E>\<close> is \<open>'e + 'a\<close>, with \<open>Err\<close> and \<open>Ok\<close> for the two injections. A \<open>u64\<close> is a
  \<open>nat\<close>; an addition or multiplication the code does not check is \<open>wadd64\<close> or \<open>wmul64\<close>, which wrap
  as a release build does, so that the absence of an overflow is something to prove. A byte is an
  \<open>8 word\<close>. A Rust \<open>String\<close> is the list of its UTF-8 bytes, each a HOL \<open>char\<close>.
\<close>

section \<open>Results\<close>

type_synonym byte = "8 word"

abbreviation Err :: "'e \<Rightarrow> 'e + 'a" where
  "Err \<equiv> Inl"

abbreviation Ok :: "'a \<Rightarrow> 'e + 'a" where
  "Ok \<equiv> Inr"

named_theorems res_simps \<open>equations that resolve a chain of fallible calls\<close>
named_theorems u64_simps \<open>wrapping and checked arithmetic inside the range\<close>

fun and_then :: "'e + 'a \<Rightarrow> ('a \<Rightarrow> 'e + 'b) \<Rightarrow> 'e + 'b" where
  "and_then (Inl e) f = Inl e"
| "and_then (Inr x) f = f x"

fun map_err :: "('e \<Rightarrow> 'f) \<Rightarrow> 'e + 'a \<Rightarrow> 'f + 'a" where
  "map_err g (Inl e) = Inl (g e)"
| "map_err g (Inr x) = Inr x"

fun ok_or :: "'e \<Rightarrow> 'a option \<Rightarrow> 'e + 'a" where
  "ok_or e None = Inl e"
| "ok_or e (Some x) = Inr x"

text \<open>\<open>Result::ok\<close>.\<close>

fun ok_of :: "'e + 'a \<Rightarrow> 'a option" where
  "ok_of (Inl e) = None"
| "ok_of (Inr x) = Some x"

text \<open>\<open>iter().map(f).collect::<Result<Vec<_>>>()\<close>: the first refusal wins.\<close>

fun collect_res :: "('a \<Rightarrow> 'e + 'b) \<Rightarrow> 'a list \<Rightarrow> 'e + 'b list" where
  "collect_res f [] = Inr []"
| "collect_res f (x # xs) = and_then (f x) (\<lambda>y. and_then (collect_res f xs) (\<lambda>ys. Inr (y # ys)))"

text \<open>\<open>iter().try_fold(acc, f)\<close>, and a \<open>for\<close> loop whose body may return early.\<close>

fun try_fold :: "('s \<Rightarrow> 'a \<Rightarrow> 'e + 's) \<Rightarrow> 's \<Rightarrow> 'a list \<Rightarrow> 'e + 's" where
  "try_fold f s [] = Inr s"
| "try_fold f s (x # xs) = and_then (f s x) (\<lambda>s'. try_fold f s' xs)"

lemma and_then_cong [fundef_cong]:
  "r = r' \<Longrightarrow> (\<And>x. r' = Inr x \<Longrightarrow> f x = g x) \<Longrightarrow> and_then r f = and_then r' g"
  by (cases r') auto

lemma and_then_Inr_iff [res_simps]: "and_then r f = Inr y \<longleftrightarrow> (\<exists>x. r = Inr x \<and> f x = Inr y)"
  by (cases r) auto

lemma and_then_Inl_iff [res_simps]:
  "and_then r f = Inl e \<longleftrightarrow> r = Inl e \<or> (\<exists>x. r = Inr x \<and> f x = Inl e)"
  by (cases r) auto

lemma map_err_Inr_iff [res_simps]: "map_err g r = Inr x \<longleftrightarrow> r = Inr x"
  by (cases r) auto

lemma map_err_Inl_iff [res_simps]: "map_err g r = Inl f \<longleftrightarrow> (\<exists>e. r = Inl e \<and> f = g e)"
  by (cases r) auto

lemma ok_or_Inr_iff [res_simps]: "ok_or e r = Inr x \<longleftrightarrow> r = Some x"
  by (cases r) auto

lemma ok_of_Some_iff [res_simps]: "ok_of r = Some x \<longleftrightarrow> r = Inr x"
  by (cases r) auto

lemma ok_or_Inl_iff [res_simps]: "ok_or e r = Inl f \<longleftrightarrow> r = None \<and> f = e"
  by (cases r) auto

lemma and_then_assoc: "and_then (and_then r f) g = and_then r (\<lambda>x. and_then (f x) g)"
  by (cases r) auto

lemma collect_res_Inr_iff:
  "collect_res f xs = Inr ys \<longleftrightarrow> list_all2 (\<lambda>x y. f x = Inr y) xs ys"
  by (induction xs arbitrary: ys) (auto simp: res_simps list_all2_Cons1)

lemma collect_res_map_Inr: "(\<And>x. x \<in> set xs \<Longrightarrow> f x = Inr (g x)) \<Longrightarrow> collect_res f xs = Inr (map g xs)"
  by (induction xs) auto

lemma collect_res_length: "collect_res f xs = Inr ys \<Longrightarrow> length ys = length xs"
  by (auto simp: collect_res_Inr_iff dest: list_all2_lengthD)

lemma collect_res_append:
  "collect_res f (xs @ ys) = and_then (collect_res f xs) (\<lambda>as. and_then (collect_res f ys) (\<lambda>bs. Ok (as @ bs)))"
  by (induction xs) (simp_all add: and_then_assoc, cases "collect_res f ys", simp_all)

lemma collect_res_mem: "collect_res f xs = Inr ys \<Longrightarrow> y \<in> set ys \<Longrightarrow> \<exists>x \<in> set xs. f x = Inr y"
  by (induction xs arbitrary: ys) (auto simp: res_simps)

lemma collect_res_total: "(\<And>x. x \<in> set xs \<Longrightarrow> \<exists>y. f x = Inr y) \<Longrightarrow> \<exists>ys. collect_res f xs = Inr ys"
  by (induction xs) (auto, metis and_then.simps(2))

lemma try_fold_append: "try_fold f s (xs @ ys) = and_then (try_fold f s xs) (\<lambda>s'. try_fold f s' ys)"
  by (induction xs arbitrary: s) (auto simp: and_then_assoc)

text \<open>An invariant the body keeps holds of the state a completed loop leaves.\<close>

lemma try_fold_invariant:
  assumes "try_fold f s xs = Inr t" and "I s"
    and step: "\<And>s x s'. I s \<Longrightarrow> x \<in> set xs \<Longrightarrow> f s x = Inr s' \<Longrightarrow> I s'"
  shows "I t"
  using assms(1,2) step
proof (induction xs arbitrary: s)
  case Nil
  then show ?case by simp
next
  case (Cons x xs)
  from Cons.prems(1) obtain s' where s': "f s x = Inr s'" and rest: "try_fold f s' xs = Inr t"
    by (auto simp: res_simps)
  have "I s'" by (rule Cons.prems(3) [OF Cons.prems(2) _ s']) simp
  moreover have "\<And>s x s'. I s \<Longrightarrow> x \<in> set xs \<Longrightarrow> f s x = Inr s' \<Longrightarrow> I s'"
    by (rule Cons.prems(3)) auto
  ultimately show ?case using rest by (rule Cons.IH [rotated])
qed

section \<open>Unsigned 64-bit arithmetic\<close>

definition u64_bound :: nat where
  "u64_bound = 2 ^ 64"

definition wadd64 :: "nat \<Rightarrow> nat \<Rightarrow> nat" where
  "wadd64 a b = (a + b) mod 2 ^ 64"

definition wmul64 :: "nat \<Rightarrow> nat \<Rightarrow> nat" where
  "wmul64 a b = (a * b) mod 2 ^ 64"

text \<open>A subtraction below zero wraps in a release build.\<close>

definition wsub64 :: "nat \<Rightarrow> nat \<Rightarrow> nat" where
  "wsub64 a b = nat ((int a - int b) mod 2 ^ 64)"

definition checked_add64 :: "nat \<Rightarrow> nat \<Rightarrow> nat option" where
  "checked_add64 a b = (if a + b < 2 ^ 64 then Some (a + b) else None)"

definition checked_mul64 :: "nat \<Rightarrow> nat \<Rightarrow> nat option" where
  "checked_mul64 a b = (if a * b < 2 ^ 64 then Some (a * b) else None)"

definition checked_sub64 :: "nat \<Rightarrow> nat \<Rightarrow> nat option" where
  "checked_sub64 a b = (if b \<le> a then Some (a - b) else None)"

definition saturating_add64 :: "nat \<Rightarrow> nat \<Rightarrow> nat" where
  "saturating_add64 a b = min (a + b) (2 ^ 64 - 1)"

definition saturating_mul64 :: "nat \<Rightarrow> nat \<Rightarrow> nat" where
  "saturating_mul64 a b = min (a * b) (2 ^ 64 - 1)"

text \<open>\<open>a.div_ceil(b)\<close>, for a divisor the code's types keep above zero.\<close>

definition div_ceil :: "nat \<Rightarrow> nat \<Rightarrow> nat" where
  "div_ceil a b = (if a mod b = 0 then a div b else a div b + 1)"

text \<open>\<open>usize::try_from(u64)\<close> on the 64-bit targets the repository builds for.\<close>

definition usize_bits :: nat where
  "usize_bits = 64"

definition to_usize :: "nat \<Rightarrow> nat option" where
  "to_usize n = (if n < 2 ^ usize_bits then Some n else None)"

lemma wadd64_small [u64_simps]: "a + b < 2 ^ 64 \<Longrightarrow> wadd64 a b = a + b"
  by (simp add: wadd64_def)

lemma wmul64_small [u64_simps]: "a * b < 2 ^ 64 \<Longrightarrow> wmul64 a b = a * b"
  by (simp add: wmul64_def)

lemma wsub64_small [u64_simps]: "b \<le> a \<Longrightarrow> a < 2 ^ 64 \<Longrightarrow> wsub64 a b = a - b"
  by (simp add: wsub64_def flip: of_nat_diff)

lemma wadd64_bound: "wadd64 a b < 2 ^ 64"
  by (simp add: wadd64_def)

lemma checked_add64_Some_iff [u64_simps]: "checked_add64 a b = Some c \<longleftrightarrow> c = a + b \<and> a + b < 2 ^ 64"
  by (auto simp: checked_add64_def)

lemma checked_mul64_Some_iff [u64_simps]: "checked_mul64 a b = Some c \<longleftrightarrow> c = a * b \<and> a * b < 2 ^ 64"
  by (auto simp: checked_mul64_def)

lemma checked_sub64_Some_iff [u64_simps]: "checked_sub64 a b = Some c \<longleftrightarrow> b \<le> a \<and> c = a - b"
  by (auto simp: checked_sub64_def)

lemma to_usize_Some_iff [u64_simps]: "to_usize n = Some m \<longleftrightarrow> m = n \<and> n < 2 ^ 64"
  by (auto simp: to_usize_def usize_bits_def)

lemma div_ceil_bounds:
  assumes "0 < b"
  shows "a \<le> div_ceil a b * b" and "div_ceil a b * b < a + b"
proof -
  define q r where "q = a div b" and "r = a mod b"
  have a: "a = q * b + r" by (simp add: q_def r_def)
  have r: "r < b" using assms by (simp add: r_def)
  have "div_ceil a b = (if r = 0 then q else q + 1)"
    by (simp add: div_ceil_def q_def r_def)
  then show "a \<le> div_ceil a b * b" and "div_ceil a b * b < a + b"
    unfolding a using r by auto
qed

lemma div_ceil_alt: "0 < b \<Longrightarrow> (a + (b - 1)) div b = div_ceil a b"
proof -
  assume "0 < b"
  define q r where "q = a div b" and "r = a mod b"
  have a: "a = q * b + r" by (simp add: q_def r_def)
  have r: "r < b" using \<open>0 < b\<close> by (simp add: r_def)
  have "a + (b - 1) = (r + (b - 1)) + q * b" unfolding a by linarith
  then have "(a + (b - 1)) div b = q + (r + (b - 1)) div b"
    using \<open>0 < b\<close> by (simp only: div_mult_self1 neq0_conv)
  also have "(r + (b - 1)) div b = (if r = 0 then 0 else 1)"
    using r \<open>0 < b\<close> by (auto intro: div_nat_eqI)
  finally show ?thesis by (simp add: div_ceil_def q_def r_def)
qed

lemma div_ceil_le: "0 < b \<Longrightarrow> div_ceil a b \<le> a"
proof (cases "a mod b = 0")
  case False
  assume "0 < b"
  have "b \<noteq> 1" using False by auto
  with \<open>0 < b\<close> have "1 < b" by simp
  moreover have "0 < a" using False by (metis gr0I mod_0)
  ultimately have "a div b < a" by (rule div_less_dividend)
  with False show ?thesis by (simp add: div_ceil_def)
qed (simp add: div_ceil_def)

lemma div_ceil_eq_0 [simp]: "0 < b \<Longrightarrow> div_ceil a b = 0 \<longleftrightarrow> a = 0"
  by (auto simp: div_ceil_def intro!: gr0I)

lemma div_ceil_zero [simp]: "div_ceil 0 b = 0"
  by (simp add: div_ceil_def)

section \<open>Big-endian bytes\<close>

text \<open>\<open>to_be_bytes\<close> of a \<open>k\<close>-byte integer, and \<open>from_be_bytes\<close>.\<close>

fun be_bytes :: "nat \<Rightarrow> nat \<Rightarrow> byte list" where
  "be_bytes 0 n = []"
| "be_bytes (Suc k) n = be_bytes k (n div 256) @ [word_of_nat n]"

definition from_be :: "byte list \<Rightarrow> nat" where
  "from_be bs = foldl (\<lambda>n b. n * 256 + unat b) 0 bs"

lemma length_be_bytes [simp]: "length (be_bytes k n) = k"
  by (induction k arbitrary: n) auto

lemma from_be_snoc [simp]: "from_be (bs @ [b]) = from_be bs * 256 + unat b"
  by (simp add: from_be_def)

lemma from_be_Nil [simp]: "from_be [] = 0"
  by (simp add: from_be_def)

lemma from_be_be_bytes: "from_be (be_bytes k n) = n mod 256 ^ k"
proof (induction k arbitrary: n)
  case 0
  then show ?case by simp
next
  case (Suc k)
  have "unat (word_of_nat n :: byte) = n mod 256"
    by (simp add: unat_of_nat)
  then have "from_be (be_bytes (Suc k) n) = (n div 256) mod 256 ^ k * 256 + n mod 256"
    by (simp add: Suc.IH)
  also have "\<dots> = n mod (256 * 256 ^ k)"
    by (simp add: mod_mult2_eq)
  finally show ?case by simp
qed

lemma from_be_be_bytes_small [simp]: "n < 256 ^ k \<Longrightarrow> from_be (be_bytes k n) = n"
  by (simp add: from_be_be_bytes)

lemma bit_word_unat: "bit (w :: 'a::len word) i \<longleftrightarrow> i < LENGTH('a) \<and> odd (unat w div 2 ^ i)"
  using bit_imp_le_length [of w i] by (auto simp: bit_unsigned_iff simp flip: bit_iff_odd)

lemma unat_byte_less [simp]: "unat (b :: byte) < 256"
  using unsigned_less [of b] by simp

lemma from_be_bound: "from_be bs < 256 ^ length bs"
proof (induction bs rule: rev_induct)
  case Nil
  then show ?case by simp
next
  case (snoc b bs)
  have "(from_be bs + 1) * 256 \<le> 256 ^ length bs * 256"
    using snoc by (intro mult_right_mono) auto
  then have "from_be bs * 256 + 256 \<le> 256 ^ length bs * 256"
    by (simp add: add_mult_distrib)
  moreover have "unat b < 256" by simp
  ultimately have "from_be bs * 256 + unat b < 256 ^ length bs * 256" by linarith
  then show ?case by simp
qed

lemma be_bytes_from_be: "be_bytes (length bs) (from_be bs) = bs"
proof (induction bs rule: rev_induct)
  case Nil
  then show ?case by simp
next
  case (snoc b bs)
  have "unat b < 256" by simp
  then have "(from_be bs * 256 + unat b) div 256 = from_be bs" by simp
  moreover have "(word_of_nat (from_be bs * 256 + unat b) :: byte) = b"
  proof -
    have "unat (word_of_nat (from_be bs * 256 + unat b) :: byte) = (from_be bs * 256 + unat b) mod 256"
      by (simp only: unat_of_nat) simp
    then show ?thesis by (simp only: word_unat_eq_iff) simp
  qed
  ultimately show ?case using snoc by simp
qed

section \<open>Lists in strict key order\<close>

lemma sorted_wrt_key_inj_on:
  fixes f :: "'a \<Rightarrow> 'k::linorder"
  shows "sorted_wrt (<) (map f xs) \<Longrightarrow> inj_on f (set xs)"
  by (simp add: strict_sorted_iff distinct_map)

lemma sorted_wrt_key_distinct:
  fixes f :: "'a \<Rightarrow> 'k::linorder"
  shows "sorted_wrt (<) (map f xs) \<Longrightarrow> distinct xs"
  by (simp add: strict_sorted_iff distinct_map)

text \<open>A list in strict key order is determined by the elements it holds.\<close>

lemma sorted_wrt_key_equal:
  fixes f :: "'a \<Rightarrow> 'k::linorder"
  assumes "sorted_wrt (<) (map f xs)" and "sorted_wrt (<) (map f ys)" and "set xs = set ys"
  shows "xs = ys"
proof -
  have "map f xs = map f ys"
    using assms by (intro strict_sorted_equal) auto
  moreover have "inj_on f (set xs \<union> set ys)"
    using sorted_wrt_key_inj_on [OF assms(1)] assms(3) by simp
  ultimately show ?thesis by (rule map_inj_on)
qed

lemma insort_key_strict:
  fixes f :: "'a \<Rightarrow> 'k::linorder"
  shows "distinct (map f xs) \<Longrightarrow> sorted_wrt (<) (map f (sort_key f xs))"
  by (simp add: strict_sorted_iff distinct_map)

section \<open>Codecs\<close>

text \<open>
  What an encoder and the decoder beside it promise each other. A \<open>codec\<close> reads back every value it
  writes; a \<open>canonical_codec\<close> also accepts nothing but what it writes, so that one value has exactly
  one spelling.
\<close>

locale codec =
  fixes enc :: "'a \<Rightarrow> 'w"
    and dec :: "'w \<Rightarrow> 'e + 'a"
    and valid :: "'a \<Rightarrow> bool"
  assumes dec_enc: "valid x \<Longrightarrow> dec (enc x) = Inr x"
begin

lemma enc_injective: "valid x \<Longrightarrow> valid y \<Longrightarrow> enc x = enc y \<Longrightarrow> x = y"
  by (metis dec_enc sum.inject(2))

lemma enc_inj_on: "inj_on enc {x. valid x}"
  by (auto intro!: inj_onI enc_injective)

lemma refused_is_never_written: "dec w = Inl e \<Longrightarrow> valid x \<Longrightarrow> enc x \<noteq> w"
  using dec_enc by force

end

locale canonical_codec = codec +
  assumes enc_dec: "dec w = Inr x \<Longrightarrow> enc x = w"
    and dec_valid: "dec w = Inr x \<Longrightarrow> valid x"
begin

lemma dec_Inr_iff: "dec w = Inr x \<longleftrightarrow> valid x \<and> w = enc x"
  using dec_enc enc_dec dec_valid by blast

lemma one_spelling: "dec w = Inr x \<Longrightarrow> dec w' = Inr x \<Longrightarrow> w = w'"
  using enc_dec by blast

end

end
