(* ===== verification/Effects.thy ===== *)
theory Effects
  imports Prelude
begin

text \<open>
  What the flows of \<open>coffret-usecase\<close> do besides computing. A call that reaches a port is an action on the
  world \<open>'w\<close>, everything outside the process: it answers with the world it leaves and a \<open>Result\<close>, or with
  \<open>None\<close> where the code would panic. The triple \<open>ensures\<close> says of an action that it does not panic from
  the worlds of its precondition and what it may answer with; its rules carry the proofs of the flows.
\<close>

section \<open>Actions\<close>

type_synonym ('w, 'e, 'a) action = "'w \<Rightarrow> ('w \<times> ('e + 'a)) option"

named_theorems run_simps \<open>what an action answers\<close>
named_theorems ensures_rules \<open>rules of the triple\<close>

definition yields :: "'e + 'a \<Rightarrow> ('w, 'e, 'a) action" where
  "yields r = (\<lambda>w. Some (w, r))"

abbreviation gives :: "'a \<Rightarrow> ('w, 'e, 'a) action" where
  "gives x \<equiv> yields (Ok x)"

abbreviation fails :: "'e \<Rightarrow> ('w, 'e, 'a) action" where
  "fails e \<equiv> yields (Err e)"

definition panics :: "('w, 'e, 'a) action" where
  "panics = (\<lambda>w. None)"

text \<open>\<open>let x = m.await?; f(x)\<close>.\<close>

definition act :: "('w, 'e, 'a) action \<Rightarrow> ('a \<Rightarrow> ('w, 'e, 'b) action) \<Rightarrow> ('w, 'e, 'b) action" where
  "act m f = (\<lambda>w. case m w of
       None \<Rightarrow> None
     | Some (v, Inl e) \<Rightarrow> Some (v, Inl e)
     | Some (v, Inr x) \<Rightarrow> f x v)"

text \<open>\<open>match m.await\<close>: both outcomes are looked at.\<close>

definition matched :: "('w, 'e, 'a) action \<Rightarrow> ('e + 'a \<Rightarrow> ('w, 'f, 'b) action) \<Rightarrow> ('w, 'f, 'b) action" where
  "matched m f = (\<lambda>w. case m w of None \<Rightarrow> None | Some (v, r) \<Rightarrow> f r v)"

text \<open>\<open>map_err\<close>, and the \<open>From\<close> that \<open>?\<close> applies.\<close>

definition erring :: "('e \<Rightarrow> 'f) \<Rightarrow> ('w, 'e, 'a) action \<Rightarrow> ('w, 'f, 'a) action" where
  "erring g m = matched m (\<lambda>r. yields (map_err g r))"

text \<open>A value the code takes with \<open>expect\<close>.\<close>

definition expects :: "'e + 'a \<Rightarrow> ('a \<Rightarrow> ('w, 'f, 'b) action) \<Rightarrow> ('w, 'f, 'b) action" where
  "expects r f = (case r of Inl _ \<Rightarrow> panics | Inr x \<Rightarrow> f x)"

text \<open>A \<open>for\<close> loop over \<open>xs\<close> whose body acts and may return early.\<close>

fun act_fold :: "('s \<Rightarrow> 'a \<Rightarrow> ('w, 'e, 's) action) \<Rightarrow> 's \<Rightarrow> 'a list \<Rightarrow> ('w, 'e, 's) action" where
  "act_fold f s [] = gives s"
| "act_fold f s (x # xs) = act (f s x) (\<lambda>s. act_fold f s xs)"

text \<open>\<open>join_all\<close> of one future each, run in order: every one is made, and every answer kept.\<close>

fun join_each :: "('a \<Rightarrow> ('w, 'e, 'b) action) \<Rightarrow> 'a list \<Rightarrow> ('w, 'f, ('e + 'b) list) action" where
  "join_each f [] = gives []"
| "join_each f (x # xs) = matched (f x) (\<lambda>r. act (join_each f xs) (\<lambda>rs. gives (r # rs)))"

section \<open>What they answer\<close>

lemma yields_run [run_simps]: "yields r w = Some (v, s) \<longleftrightarrow> v = w \<and> s = r" "yields r w \<noteq> None"
  by (auto simp: yields_def)

lemma yields_runs: "yields r w = Some (w, r)"
  by (simp add: yields_def)

lemma panics_run [run_simps]: "panics w = None"
  by (simp add: panics_def)

lemma act_Ok [run_simps]: "act m f w = Some (v, Inr y) \<longleftrightarrow> (\<exists>u x. m w = Some (u, Inr x) \<and> f x u = Some (v, Inr y))"
  by (auto simp: act_def split: option.splits sum.splits)

lemma act_Err [run_simps]:
  "act m f w = Some (v, Inl e) \<longleftrightarrow> m w = Some (v, Inl e) \<or> (\<exists>u x. m w = Some (u, Inr x) \<and> f x u = Some (v, Inl e))"
  by (auto simp: act_def split: option.splits sum.splits)

lemma act_None [run_simps]: "act m f w = None \<longleftrightarrow> m w = None \<or> (\<exists>u x. m w = Some (u, Inr x) \<and> f x u = None)"
  by (auto simp: act_def split: option.splits sum.splits)

lemma act_run: "m w = Some (u, Inr x) \<Longrightarrow> act m f w = f x u"
  by (simp add: act_def)

lemma act_run_Err: "m w = Some (u, Inl e) \<Longrightarrow> act m f w = Some (u, Inl e)"
  by (simp add: act_def)

lemma act_yields [simp]: "act (gives x) f = f x" "act (fails e) f = fails e"
  by (rule ext, simp add: act_def yields_runs)+

lemma matched_run [run_simps]: "matched m f w = Some (v, s) \<longleftrightarrow> (\<exists>u r. m w = Some (u, r) \<and> f r u = Some (v, s))"
  by (auto simp: matched_def split: option.splits)

lemma matched_None [run_simps]: "matched m f w = None \<longleftrightarrow> m w = None \<or> (\<exists>u r. m w = Some (u, r) \<and> f r u = None)"
  by (auto simp: matched_def split: option.splits)

lemma matched_runs: "m w = Some (u, r) \<Longrightarrow> matched m f w = f r u"
  by (simp add: matched_def)

lemma matched_yields [simp]: "matched (yields r) f = f r"
  by (rule ext) (simp add: matched_def yields_runs)

lemma erring_yields [simp]: "erring g (yields r) = yields (map_err g r)"
  by (simp add: erring_def)

lemma map_err_eq_Ok: "map_err g r = Inr x \<longleftrightarrow> r = Inr x" "Inr x = map_err g r \<longleftrightarrow> r = Inr x"
  by (cases r; auto)+

lemma map_err_eq_Err: "map_err g r = Inl e \<longleftrightarrow> (\<exists>d. r = Inl d \<and> e = g d)" "Inl e = map_err g r \<longleftrightarrow> (\<exists>d. r = Inl d \<and> e = g d)"
  by (cases r; auto)+

lemma erring_Ok [run_simps]: "erring g m w = Some (v, Inr x) \<longleftrightarrow> m w = Some (v, Inr x)"
  by (auto simp: erring_def run_simps map_err_eq_Ok)

lemma erring_Err [run_simps]: "erring g m w = Some (v, Inl e) \<longleftrightarrow> (\<exists>d. m w = Some (v, Inl d) \<and> e = g d)"
  by (auto simp: erring_def run_simps map_err_eq_Err)

lemma erring_None [run_simps]: "erring g m w = None \<longleftrightarrow> m w = None"
  by (auto simp: erring_def run_simps yields_runs)

lemma erring_runs: "m w = Some (u, r) \<Longrightarrow> erring g m w = Some (u, map_err g r)"
  by (simp add: erring_def matched_def yields_runs)

lemma expects_run [simp]: "expects (Inr x) f = f x" "expects (Inl e) f = panics"
  by (simp_all add: expects_def)

lemma act_fold_append: "act_fold f s (xs @ ys) w = act (act_fold f s xs) (\<lambda>t. act_fold f t ys) w"
proof (induction xs arbitrary: s w)
  case (Cons x xs)
  show ?case
  proof (cases "f s x w")
    case (Some p)
    then show ?thesis by (cases p; cases "snd p") (auto simp: act_def Cons.IH)
  qed (simp add: act_def)
qed simp

lemma act_assoc: "act (act m f) g = act m (\<lambda>x. act (f x) g)"
  by (rule ext) (auto simp: act_def split: option.splits sum.splits)

text \<open>The steps of a recursion are under the actions before them.\<close>

lemma act_cong [fundef_cong]: "m = m' \<Longrightarrow> (\<And>x. f x = f' x) \<Longrightarrow> act m f = act m' f'"
  by (simp add: ext [of f f'])

lemma matched_cong [fundef_cong]: "m = m' \<Longrightarrow> (\<And>r. f r = f' r) \<Longrightarrow> matched m f = matched m' f'"
  by (simp add: ext [of f f'])

section \<open>The triple\<close>

definition ensures :: "('w \<Rightarrow> bool) \<Rightarrow> ('w, 'e, 'a) action \<Rightarrow> ('e + 'a \<Rightarrow> 'w \<Rightarrow> bool) \<Rightarrow> bool" where
  "ensures P m Q \<longleftrightarrow> (\<forall>w. P w \<longrightarrow> (\<exists>v r. m w = Some (v, r) \<and> Q r v))"

lemma ensuresI: "(\<And>w. P w \<Longrightarrow> \<exists>v r. m w = Some (v, r) \<and> Q r v) \<Longrightarrow> ensures P m Q"
  by (simp add: ensures_def)

lemma ensuresD: "ensures P m Q \<Longrightarrow> P w \<Longrightarrow> \<exists>v r. m w = Some (v, r) \<and> Q r v"
  by (simp add: ensures_def)

lemma ensures_runD: "ensures P m Q \<Longrightarrow> P w \<Longrightarrow> m w = Some (v, r) \<Longrightarrow> Q r v"
  by (auto simp: ensures_def)

lemma ensures_no_panic: "ensures P m Q \<Longrightarrow> P w \<Longrightarrow> m w \<noteq> None"
  by (auto simp: ensures_def)

lemma ensures_weaken: "ensures P m Q \<Longrightarrow> (\<And>w. P' w \<Longrightarrow> P w) \<Longrightarrow> (\<And>r w. Q r w \<Longrightarrow> Q' r w) \<Longrightarrow> ensures P' m Q'"
  unfolding ensures_def by blast

lemma ensures_yields [ensures_rules]: "(\<And>w. P w \<Longrightarrow> Q r w) \<Longrightarrow> ensures P (yields r) Q"
  by (simp add: ensures_def yields_def)

lemma ensures_act [ensures_rules]:
  assumes "ensures P m R" and "\<And>x. ensures (R (Inr x)) (f x) Q" and "\<And>e w. R (Inl e) w \<Longrightarrow> Q (Inl e) w"
  shows "ensures P (act m f) Q"
proof (rule ensuresI)
  fix w assume "P w"
  then obtain v r where m: "m w = Some (v, r)" "R r v" using ensuresD [OF assms(1)] by blast
  show "\<exists>v r. act m f w = Some (v, r) \<and> Q r v"
  proof (cases r)
    case (Inl e)
    then show ?thesis using m assms(3) by (simp add: act_def)
  next
    case (Inr x)
    then show ?thesis using m ensuresD [OF assms(2)] by (simp add: act_def)
  qed
qed

lemma ensures_matched [ensures_rules]:
  assumes "ensures P m R" and "\<And>r. ensures (R r) (f r) Q"
  shows "ensures P (matched m f) Q"
proof (rule ensuresI)
  fix w assume "P w"
  then obtain v r where "m w = Some (v, r)" "R r v" using ensuresD [OF assms(1)] by blast
  then show "\<exists>v r. matched m f w = Some (v, r) \<and> Q r v" using ensuresD [OF assms(2)] by (simp add: matched_def)
qed

lemma ensures_erring: "ensures P m R \<Longrightarrow> (\<And>r w. R r w \<Longrightarrow> Q (map_err g r) w) \<Longrightarrow> ensures P (erring g m) Q"
  unfolding erring_def by (erule ensures_matched) (simp add: ensures_yields)

text \<open>An invariant every pass keeps holds after the loop, whichever way it ends.\<close>

lemma ensures_act_fold:
  assumes "\<And>s x. x \<in> set xs \<Longrightarrow> ensures (\<lambda>w. I s w) (f s x) (\<lambda>r w. case r of Inl e \<Rightarrow> E e w | Inr s \<Rightarrow> I s w)"
  shows "ensures (I s) (act_fold f s xs) (\<lambda>r w. case r of Inl e \<Rightarrow> E e w | Inr s \<Rightarrow> I s w)"
  using assms
proof (induction xs arbitrary: s)
  case Nil
  then show ?case by (simp add: ensures_yields)
next
  case (Cons x xs)
  let ?Q = "\<lambda>r w. case r of Inl e \<Rightarrow> E e w | Inr s \<Rightarrow> I s w"
  have "ensures (I s) (f s x) ?Q" by (rule Cons.prems) simp
  moreover have "ensures (?Q (Inr t)) (act_fold f t xs) ?Q" for t
    unfolding sum.case by (rule Cons.IH) (rule Cons.prems, simp)
  ultimately show ?case unfolding act_fold.simps by (rule ensures_act)
qed

lemma join_each_length: "join_each f xs w = Some (v, Inr rs) \<Longrightarrow> length rs = length xs"
  by (induction xs arbitrary: w v rs) (auto simp: run_simps)

lemma join_each_Err: "join_each f xs w \<noteq> Some (v, Inl e)"
  by (induction xs arbitrary: w v) (auto simp: run_simps)

text \<open>An action that reads: it leaves the world as it found it.\<close>

definition reads :: "('w, 'e, 'a) action \<Rightarrow> ('w \<Rightarrow> ('e + 'a)) \<Rightarrow> bool" where
  "reads m f \<longleftrightarrow> (\<forall>w. m w = Some (w, f w))"

lemma reads_run: "reads m f \<Longrightarrow> m w = Some (v, r) \<longleftrightarrow> v = w \<and> r = f w"
  by (auto simp: reads_def)

end
