(* ===== verification/Ordered_Map.thy ===== *)
theory Ordered_Map
  imports Prelude
begin

text \<open>
  The two ordered containers of the Rust standard library the code keeps its state in. A
  \<open>BTreeMap<K, V>\<close> is the list of its entries in key order, so that iterating it is reading the
  list; a \<open>BTreeSet<T>\<close> is a \<open>BTreeMap<T, ()>\<close>, as it is in the library. The locale \<open>ordered_map\<close>
  says what its clients rely on, and the lists are shown to provide it.
\<close>

type_synonym ('k, 'v) btree = "('k \<times> 'v) list"
type_synonym 'k bset = "('k, unit) btree"

section \<open>The operations\<close>

definition bt_inv :: "('k::linorder, 'v) btree \<Rightarrow> bool" where
  "bt_inv m \<longleftrightarrow> sorted_wrt (<) (map fst m)"

fun bt_insert :: "'k::linorder \<Rightarrow> 'v \<Rightarrow> ('k, 'v) btree \<Rightarrow> ('k, 'v) btree" where
  "bt_insert k v [] = [(k, v)]"
| "bt_insert k v ((k', v') # m) =
     (if k < k' then (k, v) # (k', v') # m
      else if k = k' then (k, v) # m
      else (k', v') # bt_insert k v m)"

definition bt_get :: "('k, 'v) btree \<Rightarrow> 'k \<Rightarrow> 'v option" where
  "bt_get m k = map_of m k"

definition bt_contains :: "('k, 'v) btree \<Rightarrow> 'k \<Rightarrow> bool" where
  "bt_contains m k \<longleftrightarrow> bt_get m k \<noteq> None"

definition bt_remove :: "'k \<Rightarrow> ('k, 'v) btree \<Rightarrow> ('k, 'v) btree" where
  "bt_remove k m = filter (\<lambda>(k', _). k' \<noteq> k) m"

definition bt_retain :: "('k \<Rightarrow> 'v \<Rightarrow> bool) \<Rightarrow> ('k, 'v) btree \<Rightarrow> ('k, 'v) btree" where
  "bt_retain P m = filter (\<lambda>(k, v). P k v) m"

definition bt_keys :: "('k, 'v) btree \<Rightarrow> 'k list" where
  "bt_keys m = map fst m"

definition bt_values :: "('k, 'v) btree \<Rightarrow> 'v list" where
  "bt_values m = map snd m"

text \<open>\<open>get_mut\<close> followed by a change in place.\<close>

definition bt_update :: "'k \<Rightarrow> ('v \<Rightarrow> 'v) \<Rightarrow> ('k, 'v) btree \<Rightarrow> ('k, 'v) btree" where
  "bt_update k f m = map (\<lambda>(k', v). (k', if k' = k then f v else v)) m"

text \<open>\<open>iter().map(..).collect::<BTreeMap<_, _>>()\<close>: a later pair replaces an earlier one.\<close>

definition bt_collect :: "('k::linorder \<times> 'v) list \<Rightarrow> ('k, 'v) btree" where
  "bt_collect kvs = fold (\<lambda>(k, v). bt_insert k v) kvs []"

definition bs_insert :: "'k::linorder \<Rightarrow> 'k bset \<Rightarrow> 'k bset" where
  "bs_insert k = bt_insert k ()"

definition bs_collect :: "'k::linorder list \<Rightarrow> 'k bset" where
  "bs_collect ks = bt_collect (map (\<lambda>k. (k, ())) ks)"

section \<open>What a client relies on\<close>

locale ordered_map =
  fixes empty :: "'m"
    and insert :: "'k::linorder \<Rightarrow> 'v \<Rightarrow> 'm \<Rightarrow> 'm"
    and remove :: "'k \<Rightarrow> 'm \<Rightarrow> 'm"
    and get :: "'m \<Rightarrow> 'k \<Rightarrow> 'v option"
    and entries :: "'m \<Rightarrow> ('k \<times> 'v) list"
    and invar :: "'m \<Rightarrow> bool"
  assumes get_empty: "get empty k = None"
    and get_insert: "invar m \<Longrightarrow> get (insert k v m) = (get m)(k \<mapsto> v)"
    and get_remove: "invar m \<Longrightarrow> get (remove k m) = (get m)(k := None)"
    and invar_empty: "invar empty"
    and invar_insert: "invar m \<Longrightarrow> invar (insert k v m)"
    and invar_remove: "invar m \<Longrightarrow> invar (remove k m)"
    and entries_sorted: "invar m \<Longrightarrow> sorted_wrt (<) (map fst (entries m))"
    and entries_get: "invar m \<Longrightarrow> (k, v) \<in> set (entries m) \<longleftrightarrow> get m k = Some v"
begin

lemma invar_fold_insert: "invar m \<Longrightarrow> invar (fold (\<lambda>(k, v). insert k v) kvs m)"
  by (induction kvs arbitrary: m) (auto simp: invar_insert split: prod.split)

lemma get_fold_insert: "invar m \<Longrightarrow> get (fold (\<lambda>(k, v). insert k v) kvs m) = get m ++ map_of (rev kvs)"
proof (induction kvs arbitrary: m)
  case Nil
  then show ?case by simp
next
  case (Cons kv kvs)
  obtain k v where kv: "kv = (k, v)" by (cases kv)
  have "get (fold (\<lambda>(k, v). insert k v) kvs (insert k v m)) = get (insert k v m) ++ map_of (rev kvs)"
    using Cons by (simp add: invar_insert)
  also have "\<dots> = get m ++ map_of (rev (kv # kvs))"
    using Cons.prems by (auto simp: get_insert kv map_add_def fun_eq_iff split: option.splits)
  finally show ?case by (simp add: kv)
qed

lemma entries_eqI:
  assumes "invar m" and "invar m'" and "get m = get m'"
  shows "entries m = entries m'"
  using entries_sorted [OF assms(1)] entries_sorted [OF assms(2)]
  by (rule sorted_wrt_key_equal) (use assms in \<open>auto simp: entries_get\<close>)

lemma entries_distinct_keys: "invar m \<Longrightarrow> distinct (map fst (entries m))"
  using entries_sorted by (simp add: strict_sorted_iff)

end

section \<open>The lists provide it\<close>

lemma bt_inv_Nil [simp]: "bt_inv []"
  by (simp add: bt_inv_def)

lemma bt_inv_Cons [simp]: "bt_inv ((k, v) # m) \<longleftrightarrow> (\<forall>k' \<in> fst ` set m. k < k') \<and> bt_inv m"
  by (auto simp: bt_inv_def)

lemma bt_inv_distinct: "bt_inv m \<Longrightarrow> distinct (map fst m)"
  by (simp add: bt_inv_def strict_sorted_iff)

lemma bt_inv_filter: "bt_inv m \<Longrightarrow> bt_inv (filter P m)"
  by (simp add: bt_inv_def sorted_wrt_map sorted_wrt_filter)

lemma fst_set_bt_insert: "fst ` set (bt_insert k v m) = insert k (fst ` set m)"
  by (induction k v m rule: bt_insert.induct) auto

lemma bt_inv_insert: "bt_inv m \<Longrightarrow> bt_inv (bt_insert k v m)"
  by (induction k v m rule: bt_insert.induct) (auto simp: fst_set_bt_insert)

lemma bt_get_insert: "bt_inv m \<Longrightarrow> bt_get (bt_insert k v m) = (bt_get m)(k \<mapsto> v)"
  by (induction k v m rule: bt_insert.induct) (auto simp: bt_get_def fun_eq_iff map_of_eq_None_iff)

lemma bt_get_filter:
  "bt_inv m \<Longrightarrow> bt_get (filter (\<lambda>(k, v). P k v) m) k =
     (case bt_get m k of None \<Rightarrow> None | Some v \<Rightarrow> if P k v then Some v else None)"
proof (induction m)
  case Nil
  then show ?case by (simp add: bt_get_def)
next
  case (Cons kv m)
  obtain k' v' where kv: "kv = (k', v')" by (cases kv)
  have "map_of m k' = None"
    using Cons.prems by (auto simp: kv map_of_eq_None_iff)
  with Cons show ?case by (auto simp: kv bt_get_def)
qed

lemma bt_get_remove: "bt_inv m \<Longrightarrow> bt_get (bt_remove k m) = (bt_get m)(k := None)"
  unfolding bt_remove_def by (auto simp: fun_eq_iff bt_get_filter split: option.splits)

lemma bt_get_iff: "bt_inv m \<Longrightarrow> (k, v) \<in> set m \<longleftrightarrow> bt_get m k = Some v"
  by (simp add: bt_get_def bt_inv_distinct)

lemma bt_inv_remove: "bt_inv m \<Longrightarrow> bt_inv (bt_remove k m)"
  by (simp add: bt_remove_def bt_inv_filter)

lemma bt_inv_retain: "bt_inv m \<Longrightarrow> bt_inv (bt_retain P m)"
  by (simp add: bt_retain_def bt_inv_filter)

lemma bt_get_Nil [simp]: "bt_get [] k = None"
  by (simp add: bt_get_def)

interpretation btree: ordered_map "[]" bt_insert bt_remove bt_get "\<lambda>m. m" bt_inv
  by unfold_locales
    (simp_all add: bt_get_insert bt_get_remove bt_inv_insert bt_inv_remove bt_get_iff,
      simp add: bt_inv_def)

lemma bt_get_retain:
  "bt_inv m \<Longrightarrow> bt_get (bt_retain P m) k =
     (case bt_get m k of None \<Rightarrow> None | Some v \<Rightarrow> if P k v then Some v else None)"
  by (simp add: bt_retain_def bt_get_filter)

lemma bt_contains_iff: "bt_contains m k \<longleftrightarrow> k \<in> fst ` set m"
  by (simp add: bt_contains_def bt_get_def map_of_eq_None_iff)

lemma set_bt_values: "bt_inv m \<Longrightarrow> v \<in> set (bt_values m) \<longleftrightarrow> (\<exists>k. bt_get m k = Some v)"
  by (force simp: bt_values_def bt_get_iff [symmetric])

lemma bt_inv_update: "bt_inv m \<Longrightarrow> bt_inv (bt_update k f m)"
  by (simp add: bt_inv_def bt_update_def case_prod_beta comp_def)

lemma bt_get_update: "bt_get (bt_update k f m) k' = (if k' = k then map_option f (bt_get m k) else bt_get m k')"
  by (induction m) (auto simp: bt_get_def bt_update_def)

lemma bt_inv_collect: "bt_inv (bt_collect kvs)"
  by (simp add: bt_collect_def btree.invar_fold_insert)

lemma bt_get_collect: "bt_get (bt_collect kvs) = map_of (rev kvs)"
proof -
  have "bt_get ([] :: ('a, 'b) btree) = Map.empty" by (simp add: fun_eq_iff)
  then show ?thesis by (simp add: bt_collect_def btree.get_fold_insert)
qed

lemma bt_insert_fresh_length: "bt_get m k = None \<Longrightarrow> bt_inv m \<Longrightarrow> length (bt_insert k v m) = Suc (length m)"
  by (induction k v m rule: bt_insert.induct) (auto simp: bt_get_def split: if_splits)

lemma bs_contains_insert [simp]: "bt_inv m \<Longrightarrow> bt_contains (bs_insert k m) k' \<longleftrightarrow> k' = k \<or> bt_contains m k'"
  by (simp add: bt_contains_def bs_insert_def bt_get_insert)

lemma bs_inv_insert: "bt_inv m \<Longrightarrow> bt_inv (bs_insert k m)"
  by (simp add: bs_insert_def bt_inv_insert)

lemma bs_contains_collect [simp]: "bt_contains (bs_collect ks) k \<longleftrightarrow> k \<in> set ks"
proof -
  have "map_of (rev (map (\<lambda>k. (k, ())) ks)) k = (if k \<in> set ks then Some () else None)"
    by (induction ks rule: rev_induct) auto
  then show ?thesis by (simp add: bt_contains_def bs_collect_def bt_get_collect)
qed

end
