(* ===== verification/Identifiers.thy ===== *)
theory Identifiers
  imports Text Ordered_Map
begin

text \<open>
  The leaf values of \<open>coffret-model\<close>: the identifiers a Library's objects carry, the numbers the
  format bounds, the extent of an Entry in its Container's stream, and the error type every
  constructor of the crate answers with. A private field built only through a constructor is a
  datatype with one constructor; the predicate ending in \<open>_ok\<close> is what that constructor leaves
  true of it. The lemmas show each constructor's bounds and refusals, that no unchecked arithmetic
  on an accepted value overflows, and that the hex spelling of an identifier is its only one.
\<close>

unbundle bit_operations_syntax

section \<open>The types\<close>

datatype container_id = ContainerId (as_bytes: "byte list")
datatype library_id = LibraryId (lib_bytes: "byte list")
datatype content_hash = ContentHash (hash_bytes: "byte list")
datatype generation = Generation (gen: nat)
datatype master_key_epoch = MasterKeyEpoch (epoch: nat)
datatype entry_number = EntryNumber (number: nat)
datatype ciphertext_len_claim = CiphertextLenClaim (claimed: nat)
datatype deposited_at = DepositedAt (deposited_secs: int)
datatype mtime = Mtime (mtime_secs: int)
datatype btime = Btime (btime_secs: int)

record replica_position =
  rp_index :: nat
  rp_count :: nat

record entry_extent =
  offset :: nat
  extent_size :: nat

datatype path_defect =
    Empty | Nul | LeadingSeparator | TrailingSeparator | EmptyComponent | RelativeComponent

datatype library_name_defect = NameEmpty | NameControl

text \<open>\<open>error.rs\<close>: the refusals of the crate, each with what it names.\<close>

datatype (plugins only: code) model_error =
    InvalidHexLength nat nat
  | InvalidHexDigit char
  | InvalidByteLength nat nat
  | EpochOutOfRange nat
  | GenerationOutOfRange nat
  | CiphertextLenOutOfRange nat
  | InvalidReplicaPosition nat nat
  | MalformedObjectName string
  | InvalidSetDigest string
  | MalformedPrefixBase string
  | InvalidReplicaCount
  | ExtentPastTheAddressSpace nat nat
  | UnnormalizedEntryPath string
  | MalformedEntryPath string path_defect
  | CollectionOutOfCanonicalOrder string nat
  | JournalRecordPredecessorMismatch generation "generation option"
  | CheckpointJournalAheadOfHead generation generation
  | AdditionWithoutEntries
  | AdditionEntriesDoNotTile nat nat nat
  | AdditionNamesOnePathTwice nat
  | AdditionDepositTimesDoNotMatchEntries nat nat
  | SnapshotEntryWithoutContainer nat container_id
  | SnapshotNamesOneEntryTwice nat container_id entry_number
  | EntryNumberOutOfRange nat
  | RenameIntoReservedNamespace
  | InvalidLibraryName string library_name_defect

section \<open>Their orders\<close>

text \<open>The derived \<open>Ord\<close> of each newtype is the order of what it holds.\<close>

instantiation container_id :: linorder
begin

definition less_eq_container_id :: "container_id \<Rightarrow> container_id \<Rightarrow> bool" where
  "less_eq_container_id a b \<longleftrightarrow> as_bytes a \<le> as_bytes b"

definition less_container_id :: "container_id \<Rightarrow> container_id \<Rightarrow> bool" where
  "less_container_id a b \<longleftrightarrow> as_bytes a < as_bytes b"

instance
  by standard (auto simp: less_eq_container_id_def less_container_id_def container_id.expand)

end

instantiation generation :: linorder
begin

definition less_eq_generation :: "generation \<Rightarrow> generation \<Rightarrow> bool" where
  "less_eq_generation a b \<longleftrightarrow> gen a \<le> gen b"

definition less_generation :: "generation \<Rightarrow> generation \<Rightarrow> bool" where
  "less_generation a b \<longleftrightarrow> gen a < gen b"

instance
  by standard (auto simp: less_eq_generation_def less_generation_def generation.expand)

end

instantiation entry_number :: linorder
begin

definition less_eq_entry_number :: "entry_number \<Rightarrow> entry_number \<Rightarrow> bool" where
  "less_eq_entry_number a b \<longleftrightarrow> number a \<le> number b"

definition less_entry_number :: "entry_number \<Rightarrow> entry_number \<Rightarrow> bool" where
  "less_entry_number a b \<longleftrightarrow> number a < number b"

instance
  by standard (auto simp: less_eq_entry_number_def less_entry_number_def entry_number.expand)

end

section \<open>Numbers the format bounds\<close>

definition max_format_integer :: nat where
  "max_format_integer = 2 ^ 63 - 1"

definition generation_first :: generation where
  "generation_first = Generation 0"

definition generation_new :: "nat \<Rightarrow> model_error + generation" where
  "generation_new n = (if n > max_format_integer then Err (GenerationOutOfRange n) else Ok (Generation n))"

definition generation_next :: "generation \<Rightarrow> model_error + generation" where
  "generation_next g = generation_new (wadd64 (gen g) 1)"

definition epoch_first :: master_key_epoch where
  "epoch_first = MasterKeyEpoch 1"

definition epoch_new :: "nat \<Rightarrow> model_error + master_key_epoch" where
  "epoch_new n =
     (if n = 0 \<or> n > max_format_integer then Err (EpochOutOfRange n) else Ok (MasterKeyEpoch n))"

definition epoch_next :: "master_key_epoch \<Rightarrow> model_error + master_key_epoch" where
  "epoch_next e = epoch_new (wadd64 (epoch e) 1)"

definition ciphertext_len_new :: "nat \<Rightarrow> model_error + ciphertext_len_claim" where
  "ciphertext_len_new len =
     (if len > max_format_integer then Err (CiphertextLenOutOfRange len) else Ok (CiphertextLenClaim len))"

definition entry_number_first :: entry_number where
  "entry_number_first = EntryNumber 0"

definition entry_number_new :: "nat \<Rightarrow> model_error + entry_number" where
  "entry_number_new n = (if n < 2 ^ 32 then Ok (EntryNumber n) else Err (EntryNumberOutOfRange n))"

definition at_position :: "nat \<Rightarrow> model_error + entry_number" where
  "at_position position = entry_number_new position"

definition replica_single :: replica_position where
  "replica_single = \<lparr>rp_index = 0, rp_count = 1\<rparr>"

definition replica_new :: "nat \<Rightarrow> nat \<Rightarrow> model_error + replica_position" where
  "replica_new i c =
     (if c = 0 \<or> i \<ge> c then Err (InvalidReplicaPosition i c) else Ok \<lparr>rp_index = i, rp_count = c\<rparr>)"

text \<open>\<open>Mtime::from_unix_millis\<close>: \<open>i64::div_euclid\<close> by 1000 rounds towards minus infinity.\<close>

definition from_unix_millis :: "int \<Rightarrow> mtime" where
  "from_unix_millis millis = Mtime (millis div 1000)"

definition generation_ok :: "generation \<Rightarrow> bool" where
  "generation_ok g \<longleftrightarrow> gen g \<le> max_format_integer"

definition epoch_ok :: "master_key_epoch \<Rightarrow> bool" where
  "epoch_ok e \<longleftrightarrow> 1 \<le> epoch e \<and> epoch e \<le> max_format_integer"

definition entry_number_ok :: "entry_number \<Rightarrow> bool" where
  "entry_number_ok n \<longleftrightarrow> number n < 2 ^ 32"

definition replica_ok :: "replica_position \<Rightarrow> bool" where
  "replica_ok r \<longleftrightarrow> rp_index r < rp_count r \<and> rp_count r < 2 ^ 16"

lemma generation_new_Ok_iff [res_simps]: "generation_new n = Inr g \<longleftrightarrow> g = Generation n \<and> generation_ok g"
  by (auto simp: generation_new_def generation_ok_def)

lemma epoch_new_Ok_iff [res_simps]: "epoch_new n = Inr e \<longleftrightarrow> e = MasterKeyEpoch n \<and> epoch_ok e"
  by (auto simp: epoch_new_def epoch_ok_def)

lemma entry_number_new_Ok_iff [res_simps]:
  "entry_number_new n = Inr k \<longleftrightarrow> k = EntryNumber n \<and> n < 2 ^ 32"
  by (auto simp: entry_number_new_def)

lemma at_position_Ok_iff [res_simps]: "at_position n = Inr k \<longleftrightarrow> k = EntryNumber n \<and> n < 2 ^ 32"
  by (auto simp: at_position_def res_simps)

lemma at_position_Err_iff [res_simps]:
  "at_position n = Inl e \<longleftrightarrow> 2 ^ 32 \<le> n \<and> e = EntryNumberOutOfRange n"
  by (auto simp: at_position_def entry_number_new_def)

lemma replica_new_Ok_iff [res_simps]:
  "replica_new i c = Inr r \<longleftrightarrow> r = \<lparr>rp_index = i, rp_count = c\<rparr> \<and> i < c"
  by (auto simp: replica_new_def)

text \<open>Counting up never wraps: the largest generation's successor is refused, not reused.\<close>

lemma generation_next_eq:
  "generation_ok g \<Longrightarrow> generation_next g =
     (if gen g = max_format_integer then Inl (GenerationOutOfRange (2 ^ 63)) else Inr (Generation (gen g + 1)))"
  by (auto simp: generation_next_def generation_new_def generation_ok_def max_format_integer_def wadd64_def)

lemma generation_next_greater: "generation_ok g \<Longrightarrow> generation_next g = Inr h \<Longrightarrow> g < h \<and> generation_ok h"
  by (auto simp: generation_next_eq less_generation_def generation_ok_def split: if_splits)

lemma epoch_next_eq:
  "epoch_ok e \<Longrightarrow> epoch_next e =
     (if epoch e = max_format_integer then Inl (EpochOutOfRange (2 ^ 63)) else Inr (MasterKeyEpoch (epoch e + 1)))"
  by (auto simp: epoch_next_def epoch_new_def epoch_ok_def max_format_integer_def wadd64_def)

section \<open>The extent of an Entry\<close>

definition extent_new :: "nat \<Rightarrow> nat \<Rightarrow> model_error + entry_extent" where
  "extent_new off sz =
     (case checked_add64 off sz of
        Some e \<Rightarrow> if e \<le> max_format_integer then Ok \<lparr>offset = off, extent_size = sz\<rparr>
                  else Err (ExtentPastTheAddressSpace off sz)
      | None \<Rightarrow> Err (ExtentPastTheAddressSpace off sz))"

definition extent_from_start :: "nat \<Rightarrow> model_error + entry_extent" where
  "extent_from_start sz = extent_new 0 sz"

definition extent_end :: "entry_extent \<Rightarrow> nat" where
  "extent_end x = wadd64 (offset x) (extent_size x)"

definition extent_following :: "entry_extent \<Rightarrow> nat \<Rightarrow> model_error + entry_extent" where
  "extent_following x sz = extent_new (extent_end x) sz"

definition extent_range :: "entry_extent \<Rightarrow> nat \<times> nat" where
  "extent_range x = (offset x, extent_end x)"

definition extent_contains :: "entry_extent \<Rightarrow> nat \<Rightarrow> bool" where
  "extent_contains x position \<longleftrightarrow> offset x \<le> position \<and> position < extent_end x"

definition extent_ok :: "entry_extent \<Rightarrow> bool" where
  "extent_ok x \<longleftrightarrow> offset x + extent_size x \<le> max_format_integer"

lemma extent_new_Ok_iff [res_simps]:
  "extent_new off sz = Inr x \<longleftrightarrow> x = \<lparr>offset = off, extent_size = sz\<rparr> \<and> extent_ok x"
  by (auto simp: extent_new_def extent_ok_def checked_add64_def max_format_integer_def)

lemma extent_new_Err_iff [res_simps]:
  "extent_new off sz = Inl e \<longleftrightarrow> max_format_integer < off + sz \<and> e = ExtentPastTheAddressSpace off sz"
  by (auto simp: extent_new_def checked_add64_def max_format_integer_def)

lemma extent_end_eq: "extent_ok x \<Longrightarrow> extent_end x = offset x + extent_size x"
  by (simp add: extent_end_def extent_ok_def max_format_integer_def u64_simps)

lemma extent_following_Ok_iff [res_simps]:
  "extent_ok x \<Longrightarrow> extent_following x sz = Inr y \<longleftrightarrow>
     y = \<lparr>offset = offset x + extent_size x, extent_size = sz\<rparr> \<and> extent_ok y"
  by (simp add: extent_following_def res_simps extent_end_eq)

lemma extent_contains_iff:
  "extent_ok x \<Longrightarrow> extent_contains x p \<longleftrightarrow> p \<in> {offset x ..< offset x + extent_size x}"
  by (simp add: extent_contains_def extent_end_eq)

section \<open>Hexadecimal spelling\<close>

definition is_hex_char :: "char \<Rightarrow> bool" where
  "is_hex_char c \<longleftrightarrow>
     48 \<le> (of_char c :: nat) \<and> (of_char c :: nat) \<le> 57 \<or> 97 \<le> (of_char c :: nat) \<and> (of_char c :: nat) \<le> 102"

definition is_nonempty_lowercase_hex :: "string \<Rightarrow> bool" where
  "is_nonempty_lowercase_hex value \<longleftrightarrow> value \<noteq> [] \<and> (\<forall>c \<in> set value. is_hex_char c)"

definition hex_char :: "byte \<Rightarrow> char" where
  "hex_char nibble = ''0123456789abcdef'' ! unat nibble"

definition hex_digit :: "char \<Rightarrow> model_error + byte" where
  "hex_digit c =
     (let b = (of_char c :: nat)
      in if 48 \<le> b \<and> b \<le> 57 then Ok (word_of_nat (b - 48))
         else if 97 \<le> b \<and> b \<le> 102 then Ok (word_of_nat (b - 97 + 10))
         else Err (InvalidHexDigit c))"

fun hex_encode :: "byte list \<Rightarrow> string" where
  "hex_encode [] = []"
| "hex_encode (b # bs) = hex_char (drop_bit 4 b) # hex_char (b AND 0x0F) # hex_encode bs"

fun hex_pairs :: "string \<Rightarrow> model_error + byte list" where
  "hex_pairs (h # l # rest) =
     and_then (hex_digit h) (\<lambda>hi. and_then (hex_digit l) (\<lambda>lo.
       and_then (hex_pairs rest) (\<lambda>bs. Ok ((push_bit 4 hi OR lo) # bs))))"
| "hex_pairs _ = Ok []"

definition hex_decode :: "nat \<Rightarrow> string \<Rightarrow> model_error + byte list" where
  "hex_decode n hex =
     (if length hex \<noteq> n * 2 then Err (InvalidHexLength (n * 2) (chars_count hex))
      else hex_pairs hex)"

text \<open>The tables, settled once by evaluating all sixteen digits.\<close>

lemma nibble_cases:
  fixes P :: "byte \<Rightarrow> bool"
  assumes "unat b < 16" and "\<And>n. n < 16 \<Longrightarrow> P (word_of_nat n)"
  shows "P b"
  using assms(2) [OF assms(1)] by simp

lemma hex_digit_char: "unat b < 16 \<Longrightarrow> hex_digit (hex_char b) = Inr b"
proof (rule nibble_cases)
  have "list_all (\<lambda>n. hex_digit (hex_char (word_of_nat n)) = Inr (word_of_nat n)) [0..<16]"
    by (simp add: upt_rec hex_digit_def hex_char_def of_char_def)
  then show "n < 16 \<Longrightarrow> hex_digit (hex_char (word_of_nat n)) = Inr (word_of_nat n)" for n
    by (auto simp: list_all_iff)
qed

lemma hex_digit_inverse:
  assumes "hex_digit c = Inr b"
  shows "hex_char b = c \<and> unat b < 16"
proof -
  define n where "n = (of_char c :: nat)"
  have c: "c = char_of n" by (simp add: n_def)
  have "list_all (\<lambda>n. \<forall>b. hex_digit (char_of n) = Inr b \<longrightarrow> hex_char b = char_of n \<and> unat b < 16)
          ([48..<58] @ [97..<103])"
    by (simp add: upt_rec hex_digit_def hex_char_def char_of_def)
  moreover have "n \<in> set ([48..<58] @ [97..<103])"
    using assms unfolding set_append set_upt hex_digit_def n_def Let_def
    by (auto split: if_splits)
  ultimately show ?thesis
    using assms unfolding c list_all_iff by blast
qed

lemma is_hex_char_iff: "is_hex_char c \<longleftrightarrow> (\<exists>b. hex_digit c = Inr b)"
  by (auto simp: is_hex_char_def hex_digit_def Let_def)

lemma nibbles_byte:
  fixes b :: byte
  shows "push_bit 4 (drop_bit 4 b) OR (b AND 0x0F) = b"
    and "unat (drop_bit 4 b) < 16" and "unat (b AND 0x0F) < 16"
proof -
  have mask: "b AND 0x0F = take_bit 4 b" by (simp add: take_bit_eq_mask mask_eq_exp_minus_1)
  show "push_bit 4 (drop_bit 4 b) OR (b AND 0x0F) = b"
    unfolding mask by (rule bit_word_eqI) (auto simp: bit_simps)
  show "unat (drop_bit 4 b) < 16"
    using unat_byte_less [of b]
    by (subst unsigned_drop_bit_eq) (simp add: drop_bit_eq_div take_bit_eq_mod less_mult_imp_div_less)
  show "unat (b AND 0x0F) < 16"
    unfolding mask by (subst unsigned_take_bit_eq) (simp add: take_bit_eq_mod)
qed

lemma byte_of_nibbles:
  fixes h l :: byte
  assumes "unat h < 16" and "unat l < 16"
  shows "drop_bit 4 (push_bit 4 h OR l) = h" and "(push_bit 4 h OR l) AND 0x0F = l"
proof -
  have high: "4 \<le> i \<Longrightarrow> \<not> bit x i" if "unat x < 16" for x :: byte and i
  proof -
    assume "4 \<le> i"
    then have "(16::nat) \<le> 2 ^ i" using power_increasing [of 4 i "2::nat"] by simp
    with that have "unat x div 2 ^ i = 0" by simp
    then show "\<not> bit x i" by (simp add: bit_word_unat)
  qed
  show "drop_bit 4 (push_bit 4 h OR l) = h"
    using high [OF assms(1)] high [OF assms(2)]
    by (intro bit_word_eqI) (auto simp: bit_simps not_le [symmetric])
  have "(push_bit 4 h OR l) AND 0x0F = take_bit 4 (push_bit 4 h OR l)"
    by (simp add: take_bit_eq_mask mask_eq_exp_minus_1)
  also have "\<dots> = l"
    using high [OF assms(2)] by (intro bit_word_eqI) (auto simp: bit_simps not_le [symmetric])
  finally show "(push_bit 4 h OR l) AND 0x0F = l" .
qed

lemma length_hex_encode [simp]: "length (hex_encode bs) = 2 * length bs"
  by (induction bs) auto

lemma hex_pairs_encode [simp]: "hex_pairs (hex_encode bs) = Inr bs"
  by (induction bs) (simp_all add: hex_digit_char nibbles_byte)

lemma hex_encode_pairs: "even (length s) \<Longrightarrow> hex_pairs s = Inr bs \<Longrightarrow> hex_encode bs = s"
proof (induction s arbitrary: bs rule: hex_pairs.induct)
  case (1 h l rest)
  then obtain hi lo cs where "hex_digit h = Inr hi" "hex_digit l = Inr lo" "hex_pairs rest = Inr cs"
    and bs: "bs = (push_bit 4 hi OR lo) # cs"
    by (auto simp: res_simps)
  moreover have "hex_encode cs = rest" using 1 calculation by simp
  ultimately show ?case
    using hex_digit_inverse [of h hi] hex_digit_inverse [of l lo]
    by (simp only: bs hex_encode.simps byte_of_nibbles)
qed auto

lemma length_hex_pairs: "hex_pairs s = Inr bs \<Longrightarrow> length bs = length s div 2"
  by (induction s arbitrary: bs rule: hex_pairs.induct) (auto simp: res_simps)

interpretation hex: canonical_codec hex_encode "hex_decode n" "\<lambda>bs. length bs = n"
  by unfold_locales
    (auto simp: hex_decode_def length_hex_pairs intro: hex_encode_pairs split: if_splits)

lemma hex_encode_is_hex: "bs \<noteq> [] \<Longrightarrow> is_nonempty_lowercase_hex (hex_encode bs)"
proof -
  have "is_hex_char c" if "c \<in> set (hex_encode bs)" for c
    using that by (induction bs) (auto simp: is_hex_char_iff hex_digit_char nibbles_byte)
  then show "bs \<noteq> [] \<Longrightarrow> is_nonempty_lowercase_hex (hex_encode bs)"
    by (cases bs) (auto simp: is_nonempty_lowercase_hex_def)
qed

section \<open>Identifiers and their names\<close>

definition container_id_byte_len :: nat where
  "container_id_byte_len = 16"

definition storage_extension :: string where
  "storage_extension = ''.cfrt''"

definition container_id_ok :: "container_id \<Rightarrow> bool" where
  "container_id_ok c \<longleftrightarrow> length (as_bytes c) = container_id_byte_len"

definition container_id_from_slice :: "byte list \<Rightarrow> model_error + container_id" where
  "container_id_from_slice bytes =
     (if length bytes = container_id_byte_len then Ok (ContainerId bytes)
      else Err (InvalidByteLength container_id_byte_len (length bytes)))"

definition container_id_from_hex :: "string \<Rightarrow> model_error + container_id" where
  "container_id_from_hex hex =
     and_then (hex_decode container_id_byte_len hex) (\<lambda>bs. Ok (ContainerId bs))"

definition container_id_to_hex :: "container_id \<Rightarrow> string" where
  "container_id_to_hex c = hex_encode (as_bytes c)"

definition container_object_name :: "container_id \<Rightarrow> string" where
  "container_object_name c = container_id_to_hex c @ storage_extension"

definition library_id_byte_len :: nat where
  "library_id_byte_len = 8"

definition app_folder_prefix :: string where
  "app_folder_prefix = ''coffret-''"

definition library_id_ok :: "library_id \<Rightarrow> bool" where
  "library_id_ok l \<longleftrightarrow> length (lib_bytes l) = library_id_byte_len"

definition library_id_from_hex :: "string \<Rightarrow> model_error + library_id" where
  "library_id_from_hex hex = and_then (hex_decode library_id_byte_len hex) (\<lambda>bs. Ok (LibraryId bs))"

definition library_id_to_hex :: "library_id \<Rightarrow> string" where
  "library_id_to_hex l = hex_encode (lib_bytes l)"

definition app_folder_name :: "library_id \<Rightarrow> string" where
  "app_folder_name l = app_folder_prefix @ library_id_to_hex l"

definition app_prefix :: "library_id \<Rightarrow> string \<Rightarrow> model_error + string" where
  "app_prefix l base =
     (if base \<noteq> [] \<and> \<not> ends_with ''/'' base then Err (MalformedPrefixBase base)
      else Ok (base @ app_folder_name l @ ''/''))"

definition content_hash_from_slice :: "byte list \<Rightarrow> model_error + content_hash" where
  "content_hash_from_slice bytes =
     (if length bytes = 32 then Ok (ContentHash bytes) else Err (InvalidByteLength 32 (length bytes)))"

interpretation container_id_hex:
  canonical_codec container_id_to_hex container_id_from_hex container_id_ok
proof unfold_locales
  show "container_id_ok c \<Longrightarrow> container_id_from_hex (container_id_to_hex c) = Inr c" for c
    by (simp add: container_id_ok_def container_id_from_hex_def container_id_to_hex_def
        hex.dec_enc [of "as_bytes c"])
  show "container_id_from_hex w = Inr c \<Longrightarrow> container_id_to_hex c = w"
    and "container_id_from_hex w = Inr c \<Longrightarrow> container_id_ok c" for w c
    by (auto simp: container_id_from_hex_def res_simps hex.dec_Inr_iff container_id_to_hex_def
        container_id_ok_def)
qed

interpretation library_id_hex: canonical_codec library_id_to_hex library_id_from_hex library_id_ok
proof unfold_locales
  show "library_id_ok c \<Longrightarrow> library_id_from_hex (library_id_to_hex c) = Inr c" for c
    by (simp add: library_id_ok_def library_id_from_hex_def library_id_to_hex_def
        hex.dec_enc [of "lib_bytes c"])
  show "library_id_from_hex w = Inr c \<Longrightarrow> library_id_to_hex c = w"
    and "library_id_from_hex w = Inr c \<Longrightarrow> library_id_ok c" for w c
    by (auto simp: library_id_from_hex_def res_simps hex.dec_Inr_iff library_id_to_hex_def
        library_id_ok_def)
qed

section \<open>Library names\<close>

text \<open>
  \<open>char::is_control\<close> on UTF-8: the C0 controls and DEL are one byte, and the C1 controls are
  \<open>0xC2\<close> followed by \<open>0x80\<close> to \<open>0x9F\<close>.
\<close>

fun has_control :: "string \<Rightarrow> bool" where
  "has_control [] = False"
| "has_control (c # cs) =
     ((of_char c :: nat) < 32 \<or> (of_char c :: nat) = 127 \<or>
      (of_char c :: nat) = 194 \<and> cs \<noteq> [] \<and> 128 \<le> (of_char (hd cs) :: nat) \<and> (of_char (hd cs) :: nat) < 160 \<or>
      has_control cs)"

definition library_name_defect_in :: "string \<Rightarrow> library_name_defect option" where
  "library_name_defect_in name =
     (if name = [] then Some NameEmpty else if has_control name then Some NameControl else None)"

datatype library_name = LibraryName (name_str: string)

definition library_name_parse :: "string \<Rightarrow> model_error + library_name" where
  "library_name_parse name =
     (case library_name_defect_in name of
        Some defect \<Rightarrow> Err (InvalidLibraryName name defect)
      | None \<Rightarrow> Ok (LibraryName name))"

end
