(* ===== verification/Object_Names.thy ===== *)
theory Object_Names
  imports Identifiers
begin

text \<open>
  \<open>coffret-model/src/control_object_kind.rs\<close> and \<open>control_object_name/\<close>: the names a control object
  is stored under. A name is displayed and read back; the lemmas show that reading is the inverse of
  displaying and that no second spelling of a name is read (\<open>control_name\<close>, an interpretation of
  \<open>canonical_codec\<close>), so one object has exactly one storage key and two objects never share one.
\<close>

datatype control_object_kind = Journal | Keyring | IndexSnapshot | ActivationSnapshot

datatype control_object_name =
    HeadName generation
  | IndexSnapshotName generation
  | KeyringReplicaName generation string replica_position

definition head_prefix :: string where
  "head_prefix = ''head-''"

definition index_snapshot_prefix :: string where
  "index_snapshot_prefix = ''idx-''"

definition keyring_prefix :: string where
  "keyring_prefix = ''key-''"

definition keyring_replica :: "generation \<Rightarrow> string \<Rightarrow> replica_position \<Rightarrow> model_error + control_object_name" where
  "keyring_replica g set_digest replica =
     (if \<not> is_nonempty_lowercase_hex set_digest then Err (InvalidSetDigest set_digest)
      else Ok (KeyringReplicaName g set_digest replica))"

definition successor_of :: "generation \<Rightarrow> model_error + control_object_name" where
  "successor_of g = and_then (generation_next g) (\<lambda>h. Ok (HeadName h))"

fun admits :: "control_object_name \<Rightarrow> control_object_kind \<Rightarrow> bool" where
  "admits (HeadName _) kind \<longleftrightarrow> kind = Journal \<or> kind = ActivationSnapshot"
| "admits (IndexSnapshotName _) kind \<longleftrightarrow> kind = IndexSnapshot"
| "admits (KeyringReplicaName _ _ _) kind \<longleftrightarrow> kind = Keyring"

fun name_generation :: "control_object_name \<Rightarrow> generation" where
  "name_generation (HeadName g) = g"
| "name_generation (IndexSnapshotName g) = g"
| "name_generation (KeyringReplicaName g _ _) = g"

fun name_replica :: "control_object_name \<Rightarrow> replica_position" where
  "name_replica (HeadName _) = replica_single"
| "name_replica (IndexSnapshotName _) = replica_single"
| "name_replica (KeyringReplicaName _ _ r) = r"

fun name_set_digest :: "control_object_name \<Rightarrow> string option" where
  "name_set_digest (KeyringReplicaName _ d _) = Some d"
| "name_set_digest _ = None"

fun show_name :: "control_object_name \<Rightarrow> string" where
  "show_name (HeadName g) = head_prefix @ show_nat (gen g) @ storage_extension"
| "show_name (IndexSnapshotName g) = index_snapshot_prefix @ show_nat (gen g) @ storage_extension"
| "show_name (KeyringReplicaName g d r) =
     keyring_prefix @ show_nat (gen g) @ ''-'' @ d @ ''-r'' @ show_nat (rp_index r) @ ''-of-'' @
       show_nat (rp_count r) @ storage_extension"

definition parse_digits :: "string \<Rightarrow> string option" where
  "parse_digits digits =
     (if digits = [] \<or> \<not> (\<forall>c \<in> set digits. is_ascii_digit c) then None
      else if length digits > 1 \<and> starts_with ''0'' digits then None
      else Some digits)"

definition parse_generation :: "string \<Rightarrow> generation option" where
  "parse_generation digits =
     Option.bind (Option.bind (parse_digits digits) (parse_below (2 ^ 64))) (\<lambda>n. ok_of (generation_new n))"

definition parse_u16 :: "string \<Rightarrow> nat option" where
  "parse_u16 digits = Option.bind (parse_digits digits) (parse_below (2 ^ 16))"

definition parse_keyring_fields :: "string \<Rightarrow> string \<Rightarrow> model_error + control_object_name" where
  "parse_keyring_fields name rest =
     (case split_on CHR ''-'' rest of
        [generation, set_digest, i, of_word, c] \<Rightarrow>
          if of_word \<noteq> ''of'' then Err (MalformedObjectName name)
          else and_then (ok_or (MalformedObjectName name) (parse_generation generation)) (\<lambda>g.
               and_then (ok_or (MalformedObjectName name) (strip_prefix ''r'' i)) (\<lambda>i.
               and_then (ok_or (MalformedObjectName name) (parse_u16 i)) (\<lambda>i.
               and_then (ok_or (MalformedObjectName name) (parse_u16 c)) (\<lambda>c.
               and_then (replica_new i c) (\<lambda>replica. keyring_replica g set_digest replica)))))
      | _ \<Rightarrow> Err (MalformedObjectName name))"

definition parse_name :: "string \<Rightarrow> model_error + control_object_name" where
  "parse_name name =
     and_then (ok_or (MalformedObjectName name) (strip_suffix storage_extension name)) (\<lambda>body.
       case strip_prefix head_prefix body of
         Some rest \<Rightarrow>
           and_then (ok_or (MalformedObjectName name) (parse_generation rest)) (\<lambda>g. Ok (HeadName g))
       | None \<Rightarrow>
           (case strip_prefix index_snapshot_prefix body of
              Some rest \<Rightarrow>
                and_then (ok_or (MalformedObjectName name) (parse_generation rest))
                  (\<lambda>g. Ok (IndexSnapshotName g))
            | None \<Rightarrow>
                and_then (ok_or (MalformedObjectName name) (strip_prefix keyring_prefix body))
                  (\<lambda>rest. parse_keyring_fields name rest)))"

definition names_a_head_or_index_snapshot :: "string \<Rightarrow> bool" where
  "names_a_head_or_index_snapshot name =
     (case parse_name name of Inr (HeadName _) \<Rightarrow> True | Inr (IndexSnapshotName _) \<Rightarrow> True | _ \<Rightarrow> False)"

section \<open>One object, one name\<close>

fun name_ok :: "control_object_name \<Rightarrow> bool" where
  "name_ok (HeadName g) \<longleftrightarrow> generation_ok g"
| "name_ok (IndexSnapshotName g) \<longleftrightarrow> generation_ok g"
| "name_ok (KeyringReplicaName g d r) \<longleftrightarrow> generation_ok g \<and> is_nonempty_lowercase_hex d \<and> replica_ok r"

lemma parse_digits_Some_iff:
  "parse_digits s = Some t \<longleftrightarrow>
     t = s \<and> s \<noteq> [] \<and> (\<forall>c \<in> set s. is_ascii_digit c) \<and> (length s = 1 \<or> hd s \<noteq> CHR ''0'')"
  by (cases s) (auto simp: parse_digits_def)

lemma parse_digits_show [simp]: "parse_digits (show_nat n) = Some (show_nat n)"
proof -
  have "length (show_nat n) = 1 \<or> hd (show_nat n) \<noteq> CHR ''0''"
    by (cases "n = 0") (simp_all add: hd_show_nat show_nat.simps [of 0])
  then show ?thesis by (auto simp: parse_digits_Some_iff dest: show_nat_digits)
qed

lemma parse_number_iff:
  "Option.bind (parse_digits s) (parse_below b) = Some n \<longleftrightarrow> s = show_nat n \<and> n < b"
proof
  assume "Option.bind (parse_digits s) (parse_below b) = Some n"
  then show "s = show_nat n \<and> n < b"
    by (auto simp: bind_eq_Some_conv parse_digits_Some_iff parse_below_def show_read_nat split: if_splits)
qed simp

lemma parse_u16_iff: "parse_u16 s = Some n \<longleftrightarrow> s = show_nat n \<and> n < 2 ^ 16"
  unfolding parse_u16_def by (rule parse_number_iff)

lemma parse_generation_iff: "parse_generation s = Some g \<longleftrightarrow> s = show_nat (gen g) \<and> generation_ok g"
proof
  assume "parse_generation s = Some g"
  then obtain n where "Option.bind (parse_digits s) (parse_below (2 ^ 64)) = Some n" "ok_of (generation_new n) = Some g"
    unfolding parse_generation_def by (subst (asm) bind_eq_Some_conv) blast
  then show "s = show_nat (gen g) \<and> generation_ok g"
    unfolding parse_number_iff by (auto simp: res_simps)
next
  assume "s = show_nat (gen g) \<and> generation_ok g"
  then show "parse_generation s = Some g"
    by (cases g) (simp add: parse_generation_def generation_new_def generation_ok_def max_format_integer_def)
qed

lemma show_nat_no_dash [simp]: "CHR ''-'' \<notin> set (show_nat n)"
  using show_nat_digits [of "CHR ''-''" n] by (auto simp: is_ascii_digit_def)

lemma hex_no_dash: "is_nonempty_lowercase_hex d \<Longrightarrow> CHR ''-'' \<notin> set d"
  by (auto simp: is_nonempty_lowercase_hex_def is_hex_char_def)

lemma keyring_replica_Ok_iff [res_simps]:
  "keyring_replica g d r = Inr n \<longleftrightarrow> is_nonempty_lowercase_hex d \<and> n = KeyringReplicaName g d r"
  by (auto simp: keyring_replica_def)

lemma keyring_body_fields:
  assumes "is_nonempty_lowercase_hex d"
  shows "split_on CHR ''-'' (show_nat g @ ''-'' @ d @ ''-r'' @ show_nat i @ ''-of-'' @ show_nat c)
    = [show_nat g, d, CHR ''r'' # show_nat i, ''of'', show_nat c]"
proof -
  let ?fs = "[show_nat g, d, CHR ''r'' # show_nat i, ''of'', show_nat c]"
  have "split_on CHR ''-'' (join_with CHR ''-'' ?fs) = ?fs"
    using assms by (intro split_join) (auto simp: hex_no_dash)
  then show ?thesis by simp
qed

lemma list5_cases:
  "(case xs of [a, b, c, d, e] \<Rightarrow> f a b c d e | _ \<Rightarrow> z) = Inr r \<Longrightarrow> z = Inl er \<Longrightarrow>
   (\<exists>a b c d e. xs = [a, b, c, d, e] \<and> f a b c d e = Inr r)"
  by (auto split: list.splits)

lemma parse_keyring_fields_iff:
  "parse_keyring_fields name rest = Inr n \<longleftrightarrow>
     (\<exists>g d r. n = KeyringReplicaName g d r \<and> name_ok n \<and>
        rest = show_nat (gen g) @ ''-'' @ d @ ''-r'' @ show_nat (rp_index r) @ ''-of-'' @ show_nat (rp_count r))"
proof
  assume ok: "parse_keyring_fields name rest = Inr n"
  from list5_cases [OF ok [unfolded parse_keyring_fields_def] refl]
  obtain a b c e f where fs: "split_on CHR ''-'' rest = [a, b, c, e, f]"
    and body: "(if e \<noteq> ''of'' then Err (MalformedObjectName name)
      else and_then (ok_or (MalformedObjectName name) (parse_generation a)) (\<lambda>g.
           and_then (ok_or (MalformedObjectName name) (strip_prefix ''r'' c)) (\<lambda>i.
           and_then (ok_or (MalformedObjectName name) (parse_u16 i)) (\<lambda>i.
           and_then (ok_or (MalformedObjectName name) (parse_u16 f)) (\<lambda>c.
           and_then (replica_new i c) (\<lambda>replica. keyring_replica g b replica)))))) = Inr n"
    by blast
  have "rest = join_with CHR ''-'' [a, b, c, e, f]" using fs by (metis join_split)
  then show "\<exists>g d r. n = KeyringReplicaName g d r \<and> name_ok n \<and>
        rest = show_nat (gen g) @ ''-'' @ d @ ''-r'' @ show_nat (rp_index r) @ ''-of-'' @ show_nat (rp_count r)"
    using body
    by (auto simp: res_simps parse_generation_iff parse_u16_iff strip_prefix_Some_iff replica_ok_def
        split: if_splits)
next
  assume "\<exists>g d r. n = KeyringReplicaName g d r \<and> name_ok n \<and>
        rest = show_nat (gen g) @ ''-'' @ d @ ''-r'' @ show_nat (rp_index r) @ ''-of-'' @ show_nat (rp_count r)"
  then obtain g d r where n: "n = KeyringReplicaName g d r" "name_ok n" and rest:
      "rest = show_nat (gen g) @ ''-'' @ d @ ''-r'' @ show_nat (rp_index r) @ ''-of-'' @ show_nat (rp_count r)"
    by blast
  then have "split_on CHR ''-'' rest = [show_nat (gen g), d, CHR ''r'' # show_nat (rp_index r), ''of'', show_nat (rp_count r)]"
    using keyring_body_fields by simp
  moreover have "parse_generation (show_nat (gen g)) = Some g"
    using n by (simp add: parse_generation_iff)
  moreover have "parse_u16 (show_nat (rp_index r)) = Some (rp_index r)" "parse_u16 (show_nat (rp_count r)) = Some (rp_count r)"
    using n by (auto simp: parse_u16_iff replica_ok_def)
  moreover have "replica_new (rp_index r) (rp_count r) = Inr r"
    using n by (auto simp: res_simps replica_ok_def)
  ultimately show "parse_keyring_fields name rest = Inr n"
    using n by (simp add: parse_keyring_fields_def strip_prefix_Some_iff keyring_replica_def strip_prefix_def)
qed

lemma strip_prefix_clash:
  "hd p \<noteq> hd q \<Longrightarrow> p \<noteq> [] \<Longrightarrow> q \<noteq> [] \<Longrightarrow> strip_prefix p (q @ r) = None"
  by (auto simp: strip_prefix_None_iff neq_Nil_conv)

lemma show_name_body:
  "\<exists>p \<in> {head_prefix, index_snapshot_prefix, keyring_prefix}. \<exists>b. show_name n = p @ b @ storage_extension"
proof (cases n)
  case (KeyringReplicaName g d r)
  then have "show_name n = keyring_prefix @ (show_nat (gen g) @ ''-'' @ d @ ''-r'' @ show_nat (rp_index r) @
      ''-of-'' @ show_nat (rp_count r)) @ storage_extension" by simp
  then show ?thesis by blast
qed auto

lemma parse_show_name: "name_ok n \<Longrightarrow> parse_name (show_name n) = Inr n"
proof (cases n)
  case (HeadName g)
  moreover assume "name_ok n"
  moreover have "strip_suffix storage_extension (show_name n) = Some (head_prefix @ show_nat (gen g))"
    using HeadName by (simp add: strip_suffix_Some_iff)
  ultimately show ?thesis by (simp add: parse_name_def parse_generation_iff [THEN iffD2])
next
  case (IndexSnapshotName g)
  moreover assume "name_ok n"
  moreover have "strip_suffix storage_extension (show_name n) = Some (index_snapshot_prefix @ show_nat (gen g))"
    using IndexSnapshotName by (simp add: strip_suffix_Some_iff)
  moreover have "strip_prefix head_prefix (index_snapshot_prefix @ r) = None" for r
    by (rule strip_prefix_clash) (simp_all add: head_prefix_def index_snapshot_prefix_def)
  ultimately show ?thesis by (simp add: parse_name_def parse_generation_iff [THEN iffD2])
next
  case (KeyringReplicaName g d r)
  moreover assume ok: "name_ok n"
  let ?rest = "show_nat (gen g) @ ''-'' @ d @ ''-r'' @ show_nat (rp_index r) @ ''-of-'' @ show_nat (rp_count r)"
  have "strip_suffix storage_extension (show_name n) = Some (keyring_prefix @ ?rest)"
    using KeyringReplicaName by (simp add: strip_suffix_Some_iff)
  moreover have "strip_prefix head_prefix (keyring_prefix @ s) = None"
    "strip_prefix index_snapshot_prefix (keyring_prefix @ s) = None" for s
    by (rule strip_prefix_clash; simp add: head_prefix_def index_snapshot_prefix_def keyring_prefix_def)+
  moreover have "parse_keyring_fields (show_name n) ?rest = Inr n"
    using KeyringReplicaName ok by (subst parse_keyring_fields_iff) blast
  ultimately show ?thesis by (simp add: parse_name_def)
qed

lemma parse_name_shows: "parse_name w = Inr n \<Longrightarrow> show_name n = w \<and> name_ok n"
  by (auto simp: parse_name_def res_simps parse_generation_iff strip_prefix_Some_iff strip_suffix_Some_iff
      parse_keyring_fields_iff split: option.splits)

interpretation control_name: canonical_codec show_name parse_name name_ok
  by unfold_locales (simp_all add: parse_show_name parse_name_shows)

text \<open>The names of an Index's own objects are told apart from every other key of the store.\<close>

lemma names_a_head_or_index_snapshot_iff:
  "names_a_head_or_index_snapshot w \<longleftrightarrow>
     (\<exists>g. generation_ok g \<and> (w = show_name (HeadName g) \<or> w = show_name (IndexSnapshotName g)))"
proof -
  have "names_a_head_or_index_snapshot w \<longleftrightarrow>
      (\<exists>g. parse_name w = Inr (HeadName g) \<or> parse_name w = Inr (IndexSnapshotName g))"
    by (auto simp: names_a_head_or_index_snapshot_def split: sum.splits control_object_name.splits)
  then show ?thesis by (auto simp: control_name.dec_Inr_iff)
qed

lemma successor_of_distinct:
  "generation_ok g \<Longrightarrow> successor_of g = Inr n \<Longrightarrow> name_ok n \<and> g < name_generation n \<and> admits n Journal"
  by (auto simp: successor_of_def res_simps dest: generation_next_greater)

text \<open>No Container object is read as a control object, and no control object as a Container.\<close>

lemma container_object_name_not_control:
  assumes "container_id_ok c"
  shows "parse_name (container_object_name c) \<noteq> Inr n"
proof
  assume "parse_name (container_object_name c) = Inr n"
  then have eq: "show_name n = container_object_name c" by (simp add: parse_name_shows)
  have hex: "is_hex_char ch" if "ch \<in> set (container_id_to_hex c)" for ch
    using that hex_encode_is_hex [of "as_bytes c"]
    by (cases "as_bytes c = []") (auto simp: container_id_to_hex_def is_nonempty_lowercase_hex_def)
  obtain p b where p: "show_name n = p @ b @ storage_extension" "p \<in> {head_prefix, index_snapshot_prefix, keyring_prefix}"
    using show_name_body by blast
  with eq have "container_id_to_hex c = p @ b" by (simp add: container_object_name_def)
  with hex have "\<forall>ch \<in> set p. is_hex_char ch" by simp
  with p(2) show False
    by (auto simp: is_hex_char_def head_prefix_def index_snapshot_prefix_def keyring_prefix_def)
qed

end
