(* ===== verification/Entry_Paths.thy ===== *)
theory Entry_Paths
  imports Identifiers
begin

text \<open>
  \<open>coffret-model/src/entry_path\<close>: the position of an Entry in a Library, and the rule a text is held
  to before it is one. Unicode composition is the \<open>unicode-normalization\<close> crate's: \<open>nfc\<close> and
  \<open>is_nfc\<close> are parameters, and \<open>nfc_laws\<close> says what its documentation promises of them. The lemmas
  show which texts are paths, that the two constructors agree, that lying under a folder is a
  partial order, and that renaming a folder moves what lies under it and nothing else.
\<close>

datatype entry_path = EntryPath (path_str: string)

instantiation entry_path :: linorder
begin

definition less_eq_entry_path :: "entry_path \<Rightarrow> entry_path \<Rightarrow> bool" where
  "less_eq_entry_path a b \<longleftrightarrow> path_str a \<le> path_str b"

definition less_entry_path :: "entry_path \<Rightarrow> entry_path \<Rightarrow> bool" where
  "less_entry_path a b \<longleftrightarrow> path_str a < path_str b"

instance
  by standard (auto simp: less_eq_entry_path_def less_entry_path_def entry_path.expand)

end

section \<open>The code\<close>

text \<open>The loop over the components, first defect first.\<close>

fun component_defect :: "string list \<Rightarrow> path_defect option" where
  "component_defect [] = None"
| "component_defect (c # cs) =
     (if c = [] then Some EmptyComponent
      else if c = ''.'' \<or> c = ''..'' then Some RelativeComponent
      else component_defect cs)"

definition defect_in :: "string \<Rightarrow> path_defect option" where
  "defect_in text =
     (if text = [] then Some Empty
      else if CHR 0x00 \<in> set text then Some Nul
      else if starts_with ''/'' text then Some LeadingSeparator
      else if ends_with ''/'' text then Some TrailingSeparator
      else component_defect (split_on CHR ''/'' text))"

definition entry_path_parse :: "(string \<Rightarrow> bool) \<Rightarrow> (string \<Rightarrow> string) \<Rightarrow> string \<Rightarrow> model_error + entry_path" where
  "entry_path_parse is_nfc nfc text =
     (let composed = (if \<not> is_nfc text then Some (nfc text) else None)
      in case defect_in (case composed of Some c \<Rightarrow> c | None \<Rightarrow> text) of
           Some defect \<Rightarrow> Err (MalformedEntryPath text defect)
         | None \<Rightarrow> Ok (EntryPath (case composed of Some c \<Rightarrow> c | None \<Rightarrow> text)))"

definition entry_path_stored :: "(string \<Rightarrow> bool) \<Rightarrow> string \<Rightarrow> model_error + entry_path" where
  "entry_path_stored is_nfc text =
     (if \<not> is_nfc text then Err (UnnormalizedEntryPath text)
      else case defect_in text of
             Some defect \<Rightarrow> Err (MalformedEntryPath text defect)
           | None \<Rightarrow> Ok (EntryPath text))"

definition path_below :: "entry_path \<Rightarrow> entry_path \<Rightarrow> entry_path" where
  "path_below p relative = EntryPath (path_str p @ ''/'' @ path_str relative)"

definition path_parent :: "entry_path \<Rightarrow> entry_path option" where
  "path_parent p = map_option (\<lambda>(folder, _). EntryPath folder) (rsplit_once CHR ''/'' (path_str p))"

definition path_name :: "entry_path \<Rightarrow> string" where
  "path_name p = (case rsplit_once CHR ''/'' (path_str p) of Some (_, name) \<Rightarrow> name | None \<Rightarrow> path_str p)"

definition path_top_level :: "entry_path \<Rightarrow> string" where
  "path_top_level p = (case split_on CHR ''/'' (path_str p) of [] \<Rightarrow> path_str p | c # _ \<Rightarrow> c)"

definition derived_component :: string where
  "derived_component = ''.coffret-derived''"

definition path_is_derived :: "entry_path \<Rightarrow> bool" where
  "path_is_derived p \<longleftrightarrow> path_top_level p = derived_component"

definition path_is_under :: "entry_path \<Rightarrow> entry_path \<Rightarrow> bool" where
  "path_is_under p prefix \<longleftrightarrow>
     path_str p = path_str prefix \<or>
     (case strip_prefix (path_str prefix) (path_str p) of
        Some rest \<Rightarrow> starts_with ''/'' rest | None \<Rightarrow> False)"

definition path_renamed_from :: "entry_path \<Rightarrow> entry_path \<Rightarrow> entry_path \<Rightarrow> entry_path option" where
  "path_renamed_from p from dest =
     (if p = from then Some dest
      else Option.bind (strip_prefix (path_str from) (path_str p))
             (\<lambda>rest. map_option (\<lambda>rest. EntryPath (path_str dest @ ''/'' @ rest)) (strip_prefix ''/'' rest)))"

section \<open>Which texts are paths\<close>

definition path_shape :: "string \<Rightarrow> bool" where
  "path_shape s \<longleftrightarrow>
     CHR 0x00 \<notin> set s \<and>
     (\<forall>c \<in> set (split_on CHR ''/'' s). c \<noteq> [] \<and> c \<noteq> ''.'' \<and> c \<noteq> ''..'')"

definition path_ok :: "entry_path \<Rightarrow> bool" where
  "path_ok p \<longleftrightarrow> path_shape (path_str p)"

lemma component_defect_None_iff:
  "component_defect cs = None \<longleftrightarrow> (\<forall>c \<in> set cs. c \<noteq> [] \<and> c \<noteq> ''.'' \<and> c \<noteq> ''..'')"
  by (induction cs) auto

lemma path_shape_ends:
  assumes "path_shape s"
  shows "s \<noteq> []" and "hd s \<noteq> CHR ''/''" and "last s \<noteq> CHR ''/''"
proof -
  show "s \<noteq> []" using assms by (cases s) (simp_all add: path_shape_def)
  show "hd s \<noteq> CHR ''/''"
  proof
    assume "hd s = CHR ''/''"
    then have "s = [] @ CHR ''/'' # tl s" using \<open>s \<noteq> []\<close> by (metis append_Nil list.collapse)
    then have "[] \<in> set (split_on CHR ''/'' s)" by (metis list.set_intros(1) split_on.simps(1) split_on_sep append_Cons)
    with assms show False unfolding path_shape_def by blast
  qed
  show "last s \<noteq> CHR ''/''"
  proof
    assume "last s = CHR ''/''"
    then have "s = butlast s @ CHR ''/'' # []"
      using \<open>s \<noteq> []\<close> by (metis append_butlast_last_id)
    then have "split_on CHR ''/'' s = split_on CHR ''/'' (butlast s) @ [[]]"
      by (metis split_on.simps(1) split_on_sep)
    then have "[] \<in> set (split_on CHR ''/'' s)" by (metis in_set_conv_decomp)
    with assms show False unfolding path_shape_def by blast
  qed
qed

lemma defect_in_None_iff: "defect_in s = None \<longleftrightarrow> path_shape s"
proof
  assume "defect_in s = None"
  then show "path_shape s"
    by (auto simp: defect_in_def component_defect_None_iff path_shape_def split: if_splits)
next
  assume s: "path_shape s"
  then show "defect_in s = None"
    using path_shape_ends [OF s] by (auto simp: defect_in_def component_defect_None_iff path_shape_def)
qed

lemma path_shape_join:
  "path_shape (s @ CHR ''/'' # t) \<longleftrightarrow> path_shape s \<and> path_shape t"
  by (auto simp: path_shape_def split_on_sep)

definition nfc_laws :: "(string \<Rightarrow> bool) \<Rightarrow> (string \<Rightarrow> string) \<Rightarrow> bool" where
  "nfc_laws is_nfc nfc \<longleftrightarrow> (\<forall>s. is_nfc (nfc s)) \<and> (\<forall>s. is_nfc s \<longrightarrow> nfc s = s)"

lemma entry_path_parse_eq:
  assumes "nfc_laws is_nfc nfc"
  shows "entry_path_parse is_nfc nfc s =
    (case defect_in (nfc s) of
       Some d \<Rightarrow> Inl (MalformedEntryPath s d) | None \<Rightarrow> Inr (EntryPath (nfc s)))"
  using assms by (simp add: entry_path_parse_def nfc_laws_def split: option.split)

lemma entry_path_stored_Ok_iff [res_simps]:
  "entry_path_stored is_nfc s = Inr p \<longleftrightarrow> p = EntryPath s \<and> is_nfc s \<and> path_ok p"
  by (auto simp: entry_path_stored_def path_ok_def defect_in_None_iff [symmetric] split: option.splits)

text \<open>Whatever a person's text is read as, storage reads back as the same path.\<close>

lemma parse_then_stored:
  assumes "nfc_laws is_nfc nfc" and "entry_path_parse is_nfc nfc s = Inr p"
  shows "entry_path_stored is_nfc (path_str p) = Inr p"
  using assms
  by (auto simp: entry_path_parse_eq res_simps path_ok_def defect_in_None_iff nfc_laws_def
      split: option.splits)

lemma parse_stored:
  assumes "nfc_laws is_nfc nfc" and "entry_path_stored is_nfc s = Inr p"
  shows "entry_path_parse is_nfc nfc s = Inr p"
proof -
  have "defect_in s = None" using assms(2) by (auto simp: res_simps path_ok_def defect_in_None_iff)
  then show ?thesis
    using assms by (auto simp: entry_path_parse_eq res_simps nfc_laws_def)
qed

section \<open>Folders\<close>

lemma path_is_under_iff:
  "path_is_under p q \<longleftrightarrow> p = q \<or> (\<exists>r. path_str p = path_str q @ CHR ''/'' # r)"
proof -
  have "(case strip_prefix (path_str q) (path_str p) of
          Some rest \<Rightarrow> starts_with ''/'' rest | None \<Rightarrow> False)
        \<longleftrightarrow> (\<exists>r. path_str p = path_str q @ CHR ''/'' # r)"
    by (auto simp: strip_prefix_Some_iff strip_prefix_None_iff neq_Nil_conv split: option.splits)
  then show ?thesis
    by (auto simp: path_is_under_def entry_path.expand)
qed

lemma path_below_under [simp]: "path_is_under (path_below p r) p"
  by (auto simp: path_is_under_iff path_below_def)

lemma path_below_ok [simp]: "path_ok (path_below p r) \<longleftrightarrow> path_ok p \<and> path_ok r"
  by (simp add: path_ok_def path_below_def path_shape_join)

lemma path_under_below: "path_ok p \<Longrightarrow> path_is_under p q \<Longrightarrow> p = q \<or> (\<exists>r. path_ok r \<and> p = path_below q r)"
proof -
  assume p: "path_ok p" and "path_is_under p q"
  then consider "p = q" | r where "path_str p = path_str q @ CHR ''/'' # r"
    by (auto simp: path_is_under_iff)
  then show ?thesis
  proof cases
    case 2
    then have "p = path_below q (EntryPath r)" by (simp add: path_below_def entry_path.expand)
    with p show ?thesis by (metis path_below_ok)
  qed simp
qed

lemma path_is_under_refl [simp]: "path_is_under p p"
  by (simp add: path_is_under_iff)

lemma path_is_under_trans: "path_is_under p q \<Longrightarrow> path_is_under q r \<Longrightarrow> path_is_under p r"
  by (auto simp: path_is_under_iff)

lemma path_is_under_antisym: "path_is_under p q \<Longrightarrow> path_is_under q p \<Longrightarrow> p = q"
  by (auto simp: path_is_under_iff)

text \<open>Two folders over one path are nested: the folders over a path form a chain.\<close>

lemma path_is_under_chain:
  assumes "path_ok p" and "path_is_under p q" and "path_is_under p r"
  shows "path_is_under q r \<or> path_is_under r q"
proof -
  consider "p = q \<or> p = r" | u v where
    "path_str p = path_str q @ CHR ''/'' # u" "path_str p = path_str r @ CHR ''/'' # v"
    using assms by (auto simp: path_is_under_iff)
  then show ?thesis
  proof cases
    case 1
    with assms show ?thesis by auto
  next
    case 2
    then have "path_str q @ CHR ''/'' # u = path_str r @ CHR ''/'' # v" by simp
    then consider w where "path_str q = path_str r @ w" "w @ CHR ''/'' # u = CHR ''/'' # v"
      | w where "path_str r = path_str q @ w" "CHR ''/'' # u = w @ CHR ''/'' # v"
      unfolding append_eq_append_conv2 by metis
    then show ?thesis
    proof cases
      case (1 w)
      then have "path_str q = path_str r \<or> (\<exists>t. path_str q = path_str r @ CHR ''/'' # t)" by (cases w) auto
      then show ?thesis by (auto simp: path_is_under_iff entry_path.expand)
    next
      case (2 w)
      then have "path_str r = path_str q \<or> (\<exists>t. path_str r = path_str q @ CHR ''/'' # t)" by (cases w) auto
      then show ?thesis by (auto simp: path_is_under_iff entry_path.expand)
    qed
  qed
qed

lemma path_parent_Some_iff:
  "path_parent p = Some q \<longleftrightarrow> path_str p = path_str q @ CHR ''/'' # path_name p \<and> CHR ''/'' \<notin> set (path_name p)"
  by (cases q; cases "rsplit_once CHR ''/'' (path_str p)")
    (auto simp: path_parent_def path_name_def rsplit_once_Some_iff rsplit_once_None_iff)

lemma path_parent_ok: "path_ok p \<Longrightarrow> path_parent p = Some q \<Longrightarrow> path_ok q \<and> path_is_under p q \<and> p \<noteq> q"
  by (auto simp: path_parent_Some_iff path_ok_def path_is_under_iff path_shape_join)

section \<open>Renaming a folder\<close>

lemma path_renamed_from_cases:
  "path_renamed_from p from dest = Some q \<longleftrightarrow>
     p = from \<and> q = dest \<or>
     (\<exists>r. path_str p = path_str from @ CHR ''/'' # r \<and> q = EntryPath (path_str dest @ CHR ''/'' # r))"
  by (auto simp: path_renamed_from_def strip_prefix_Some_iff bind_eq_Some_conv)

lemma path_renamed_from_defined: "path_renamed_from p from dest \<noteq> None \<longleftrightarrow> path_is_under p from"
  by (auto simp: path_renamed_from_cases path_is_under_iff)

lemma path_renamed_from_under: "path_renamed_from p from dest = Some q \<Longrightarrow> path_is_under q dest"
  by (auto simp: path_renamed_from_cases path_is_under_iff)

lemma path_renamed_from_ok:
  "path_ok p \<Longrightarrow> path_ok dest \<Longrightarrow> path_renamed_from p from dest = Some q \<Longrightarrow> path_ok q"
  by (auto simp: path_renamed_from_cases path_ok_def path_shape_join)

lemma path_renamed_back: "path_renamed_from p from dest = Some q \<Longrightarrow> path_renamed_from q dest from = Some p"
  by (cases p) (auto simp: path_renamed_from_cases)

lemma path_renamed_from_inj:
  "path_renamed_from p from dest = Some q \<Longrightarrow> path_renamed_from p' from dest = Some q \<Longrightarrow> p = p'"
  by (metis option.inject path_renamed_back)

lemma first_component_unique:
  "x \<notin> set a \<Longrightarrow> x \<notin> set c \<Longrightarrow> a @ x # b = c @ x # d \<longleftrightarrow> a = c \<and> b = d"
proof (induction a arbitrary: c)
  case Nil
  then show ?case by (cases c) auto
next
  case (Cons y ys)
  then show ?case by (cases c) auto
qed

lemma path_is_derived_iff:
  "path_is_derived p \<longleftrightarrow> path_is_under p (EntryPath derived_component)"
proof -
  have free: "CHR ''/'' \<notin> set derived_component" by (simp add: derived_component_def)
  show ?thesis
  proof (cases "CHR ''/'' \<in> set (path_str p)")
    case True
    then obtain a b where p: "path_str p = a @ CHR ''/'' # b" "CHR ''/'' \<notin> set a"
      by (meson split_list_first)
    then have "path_is_derived p \<longleftrightarrow> a = derived_component"
      by (simp add: path_is_derived_def path_top_level_def split_on_append)
    also have "\<dots> \<longleftrightarrow> path_is_under p (EntryPath derived_component)"
      using p free by (auto simp: path_is_under_iff first_component_unique dest!: arg_cong [where f = set])
    finally show ?thesis .
  next
    case False
    then show ?thesis
      by (auto simp: path_is_derived_def path_top_level_def path_is_under_iff split_on_free
          entry_path.expand)
  qed
qed

text \<open>Renaming a path from one prefix to another is defined exactly for the paths under the prefix, keeps a
  path well-formed, puts it under the new prefix and is undone by the rename back.\<close>

lemma rename_is_undone:
  assumes "path_ok p" and "path_ok dest"
  shows "(path_renamed_from p from dest = None \<longleftrightarrow> \<not> path_is_under p from) \<and>
    (\<forall>q. path_renamed_from p from dest = Some q \<longrightarrow>
       path_ok q \<and> path_is_under q dest \<and> path_renamed_from q dest from = Some p)"
  using path_renamed_from_defined path_renamed_from_ok [OF assms] path_renamed_from_under path_renamed_back by blast

end
