(* ===== verification/Canonical_Order.thy ===== *)
theory Canonical_Order
  imports Object_Names Entry_Paths Ordered_Map "HOL-Library.Product_Lexorder"
begin

text \<open>
  \<open>coffret-model/src/canonical_order.rs\<close>: the strict order every collection of a control aggregate is
  held in. The locale \<open>canonical_collection\<close> is the contract between an aggregate and the collections
  it carries: a comparison that is the order of a key. Inside it, checking a collection is shown to be
  the strict order of its keys, and sorting before the check is shown to accept a collection exactly
  when no key repeats and to forget the order it came in.
\<close>

text \<open>The walk from index 1: \<open>lt\<close> is \<open>compare(..) == Ordering::Less\<close>.\<close>

fun strictly_increasing_from :: "string \<Rightarrow> ('a \<Rightarrow> 'a \<Rightarrow> bool) \<Rightarrow> nat \<Rightarrow> 'a list \<Rightarrow> model_error + unit" where
  "strictly_increasing_from collection lt i (x # y # ys) =
     (if \<not> lt x y then Err (CollectionOutOfCanonicalOrder collection i)
      else strictly_increasing_from collection lt (i + 1) (y # ys))"
| "strictly_increasing_from collection lt i _ = Ok ()"

definition require_strictly_increasing :: "string \<Rightarrow> ('a \<Rightarrow> 'a \<Rightarrow> bool) \<Rightarrow> 'a list \<Rightarrow> model_error + unit" where
  "require_strictly_increasing collection lt items = strictly_increasing_from collection lt 1 items"

definition additions_name :: string where "additions_name = ''additions''"
definition removals_name :: string where "removals_name = ''removals''"
definition renames_name :: string where "renames_name = ''renames''"
definition containers_name :: string where "containers_name = ''containers''"
definition entries_name :: string where "entries_name = ''entries''"
definition mapping_name :: string where "mapping_name = ''mapping''"

text \<open>\<open>slice::binary_search_by_key\<close>.\<close>

function search_between :: "('a \<Rightarrow> 'k::linorder) \<Rightarrow> 'a list \<Rightarrow> 'k \<Rightarrow> nat \<Rightarrow> nat \<Rightarrow> nat option" where
  "search_between key xs k lo hi =
     (if lo \<ge> hi then None
      else let mid = (lo + hi) div 2
           in if key (xs ! mid) = k then Some mid
              else if key (xs ! mid) < k then search_between key xs k (mid + 1) hi
              else search_between key xs k lo mid)"
  by pat_completeness auto
termination by (relation "measure (\<lambda>(key, xs, k, lo, hi). hi - lo)") auto

declare search_between.simps [simp del]

definition binary_search_by_key :: "('a \<Rightarrow> 'k::linorder) \<Rightarrow> 'a list \<Rightarrow> 'k \<Rightarrow> nat option" where
  "binary_search_by_key key xs k = search_between key xs k 0 (length xs)"

lemma search_between_None:
  assumes "sorted_wrt (\<lambda>x y. key x < key y) xs" and "hi \<le> length xs"
    and "search_between key xs k lo hi = None" and "lo \<le> i" and "i < hi"
  shows "key (xs ! i) \<noteq> k"
  using assms
proof (induction key xs k lo hi arbitrary: i rule: search_between.induct)
  case (1 key xs k lo hi)
  define mid where "mid = (lo + hi) div 2"
  have mid: "lo \<le> mid" "mid < hi" using 1(6,7) by (auto simp: mid_def)
  have less: "i < j \<Longrightarrow> j < length xs \<Longrightarrow> key (xs ! i) < key (xs ! j)" for i j
    using sorted_wrt_nth_less [OF 1(3), of i j] by simp
  have unf: "search_between key xs k lo hi =
      (if key (xs ! mid) = k then Some mid
       else if key (xs ! mid) < k then search_between key xs k (mid + 1) hi
       else search_between key xs k lo mid)"
    using mid by (subst search_between.simps) (simp add: mid_def Let_def)
  with 1(5) have ne: "key (xs ! mid) \<noteq> k" by auto
  show ?case
  proof (cases "key (xs ! mid) < k")
    case True
    with unf ne 1(5) have rec: "search_between key xs k (mid + 1) hi = None" by simp
    show ?thesis
    proof (cases "i \<le> mid")
      case le: True
      then have "key (xs ! i) \<le> key (xs ! mid)"
        using less [of i mid] mid 1(4) by (cases "i = mid") auto
      with True show ?thesis by auto
    next
      case False
      then show ?thesis using 1(1) [OF _ mid_def ne True 1(3,4) rec] mid 1(7) by auto
    qed
  next
    case False
    with unf ne 1(5) have rec: "search_between key xs k lo mid = None" by simp
    show ?thesis
    proof (cases "i < mid")
      case lt: True
      then show ?thesis using 1(2) [OF _ mid_def ne False 1(3) _ rec 1(6)] mid 1(4) by auto
    next
      case ge: False
      then have "key (xs ! mid) \<le> key (xs ! i)"
        using less [of mid i] 1(4,7) by (cases "i = mid") auto
      with False ne show ?thesis by auto
    qed
  qed
qed

lemma search_between_Some:
  "search_between key xs k lo hi = Some i \<Longrightarrow> lo \<le> i \<and> i < hi \<and> key (xs ! i) = k"
proof (induction key xs k lo hi rule: search_between.induct)
  case (1 key xs k lo hi)
  show ?case
    using 1(3) 1(1,2) [OF _ refl]
    by (subst (asm) search_between.simps) (auto simp: Let_def not_le split: if_splits)
qed

lemma binary_search_by_key_None_iff:
  assumes "sorted_wrt (\<lambda>x y. key x < key y) xs"
  shows "binary_search_by_key key xs k = None \<longleftrightarrow> (\<forall>x \<in> set xs. key x \<noteq> k)"
proof
  assume "binary_search_by_key key xs k = None"
  then show "\<forall>x \<in> set xs. key x \<noteq> k"
    using search_between_None [OF assms order_refl _ le0] by (metis binary_search_by_key_def in_set_conv_nth)
next
  assume none: "\<forall>x \<in> set xs. key x \<noteq> k"
  show "binary_search_by_key key xs k = None"
  proof (rule ccontr)
    assume "binary_search_by_key key xs k \<noteq> None"
    then obtain i where "search_between key xs k 0 (length xs) = Some i"
      by (auto simp: binary_search_by_key_def)
    from search_between_Some [OF this] none show False by auto
  qed
qed

section \<open>The contract of a keyed collection\<close>

lemma strictly_increasing_from_cases:
  "strictly_increasing_from c lt i xs = Inr () \<and> successively lt xs \<or>
   (\<exists>j. Suc j < length xs \<and> strictly_increasing_from c lt i xs = Inl (CollectionOutOfCanonicalOrder c (i + j)) \<and>
      successively lt (take (Suc j) xs) \<and> \<not> lt (xs ! j) (xs ! Suc j))"
proof (induction c lt i xs rule: strictly_increasing_from.induct)
  case (1 c lt i x y ys)
  show ?case
  proof (cases "lt x y")
    case True
    show ?thesis
      using 1 [OF not_not [THEN iffD2, OF True]]
    proof (elim disjE exE conjE)
      fix j
      assume "Suc j < length (y # ys)"
        and "strictly_increasing_from c lt (i + 1) (y # ys) = Inl (CollectionOutOfCanonicalOrder c (i + 1 + j))"
        and "successively lt (take (Suc j) (y # ys))" and "\<not> lt ((y # ys) ! j) ((y # ys) ! Suc j)"
      with True show ?thesis by (intro disjI2 exI [of _ "Suc j"]) simp
    qed (simp add: True)
  qed (auto intro!: exI [of _ 0])
qed auto

locale canonical_collection =
  fixes key :: "'a \<Rightarrow> 'k::linorder"
    and lt :: "'a \<Rightarrow> 'a \<Rightarrow> bool"
    and collection :: string
  assumes lt_key: "lt x y \<longleftrightarrow> key x < key y"
begin

lemma successively_key: "successively lt xs \<longleftrightarrow> sorted_wrt (<) (map key xs)"
proof -
  have "successively lt xs \<longleftrightarrow> successively (<) (map key xs)"
    by (induction xs rule: induct_list012) (auto simp: lt_key)
  then show ?thesis by (simp add: successively_conv_sorted_wrt)
qed

lemma require_Ok_iff:
  "require_strictly_increasing collection lt xs = Inr u \<longleftrightarrow> sorted_wrt (<) (map key xs)"
proof -
  have "key (xs ! j) < key (xs ! Suc j)" if "sorted_wrt (<) (map key xs)" "Suc j < length xs" for j
    using sorted_wrt_nth_less [OF that(1), of j "Suc j"] that(2) by simp
  then show ?thesis
    using strictly_increasing_from_cases [of collection lt 1 xs]
    unfolding require_strictly_increasing_def successively_key lt_key by fastforce
qed

text \<open>A refusal names the first element that does not follow its predecessor.\<close>

lemma require_Err:
  assumes "require_strictly_increasing collection lt xs = Inl e"
  obtains j where "Suc j < length xs" and "e = CollectionOutOfCanonicalOrder collection (Suc j)"
    and "sorted_wrt (<) (map key (take (Suc j) xs))" and "key (xs ! Suc j) \<le> key (xs ! j)"
  using assms strictly_increasing_from_cases [of collection lt 1 xs]
  unfolding require_strictly_increasing_def successively_key by (auto simp: lt_key not_less)

lemma sorted_require: "require_strictly_increasing collection lt (sort_key key xs) = Inr u \<longleftrightarrow> distinct (map key xs)"
proof -
  have "distinct (map key (sort_key key xs)) \<longleftrightarrow> distinct (map key xs)"
    by (intro mset_eq_imp_distinct_iff) simp
  then show ?thesis by (simp add: require_Ok_iff strict_sorted_iff)
qed

lemma sort_forgets_order:
  assumes "mset xs = mset ys" and "distinct (map key xs)"
  shows "sort_key key xs = sort_key key ys"
proof (rule sorted_wrt_key_equal)
  show "sorted_wrt (<) (map key (sort_key key xs))" using assms(2) by (rule insort_key_strict)
  have "mset (map key xs) = mset (map key ys)" using assms(1) by simp
  then have "distinct (map key ys)" using assms(2) mset_eq_imp_distinct_iff by blast
  then show "sorted_wrt (<) (map key (sort_key key ys))" by (rule insort_key_strict)
  show "set (sort_key key xs) = set (sort_key key ys)" using mset_eq_setD [OF assms(1)] by simp
qed

lemma sort_fixed: "sorted_wrt (<) (map key xs) \<Longrightarrow> sort_key key xs = xs"
  by (simp add: strict_sorted_iff sort_key_id_if_sorted)

lemma search_None_iff:
  "sorted_wrt (<) (map key xs) \<Longrightarrow> binary_search_by_key key xs k = None \<longleftrightarrow> k \<notin> key ` set xs"
  by (subst binary_search_by_key_None_iff) (auto simp: sorted_wrt_map)

lemma key_determines: "sorted_wrt (<) (map key xs) \<Longrightarrow> x \<in> set xs \<Longrightarrow> y \<in> set xs \<Longrightarrow> key x = key y \<Longrightarrow> x = y"
  by (meson inj_onD sorted_wrt_key_inj_on)

end

end
