(* ===== verification/Catalog_Values.thy ===== *)
theory Catalog_Values
  imports Canonical_Order
begin

text \<open>
  The values a catalog is told in: \<open>coffret-model/src\<close> \<open>container_summary.rs\<close>, \<open>entry_metadata.rs\<close>,
  \<open>entry_location.rs\<close>, \<open>container_addition.rs\<close>, \<open>entry_rename.rs\<close>, \<open>key_table.rs\<close>,
  \<open>keyring_commitment.rs\<close>, \<open>index_checkpoint.rs\<close>, \<open>journal_record/\<close> and \<open>snapshot_content/\<close>. Each
  constructor is the code's, with its refusals; the lemmas say exactly what each one admits, that the
  Entries of an admitted addition divide the Container's content between them with no gap and no
  overlap, and that the \<open>canonical\<close> constructors forget the order their collections came in.
\<close>

section \<open>Plain values\<close>

datatype object_ref = ObjectRef string

datatype key_envelope = KeyEnvelope (envelope_bytes: "byte list")

datatype container_kind = OneFile | Pack

datatype container_key_status = Envelope key_envelope | KeyLost

record container_summary =
  cid :: container_id
  kind :: container_kind
  ciphertext_hash :: content_hash
  ciphertext_len :: ciphertext_len_claim
  object_ref :: "object_ref option"

record derived_from =
  from_container :: container_id
  from_path :: entry_path

record entry_metadata =
  path :: entry_path
  captured_path :: entry_path
  extent :: entry_extent
  modified :: mtime
  born :: "btime option"
  content :: content_hash
  derivation :: "derived_from option"
  mime :: "string option"

record entry_location =
  loc_container :: container_id
  loc_number :: entry_number
  loc_entry :: entry_metadata
  loc_deposited :: deposited_at

definition key_envelope_byte_len :: nat where
  "key_envelope_byte_len = 72"

definition key_envelope_from_slice :: "byte list \<Rightarrow> model_error + key_envelope" where
  "key_envelope_from_slice bytes =
     (if length bytes = key_envelope_byte_len then Ok (KeyEnvelope bytes)
      else Err (InvalidByteLength key_envelope_byte_len (length bytes)))"

definition is_recorded_as :: "entry_metadata \<Rightarrow> entry_metadata \<Rightarrow> bool" where
  "is_recorded_as self recorded \<longleftrightarrow>
     captured_path self = captured_path recorded \<and> extent self = extent recorded \<and> content self = content recorded"

definition loc_path :: "entry_location \<Rightarrow> entry_path" where
  "loc_path l = path (loc_entry l)"

definition loc_extent :: "entry_location \<Rightarrow> entry_extent" where
  "loc_extent l = extent (loc_entry l)"

section \<open>What a commit adds\<close>

record container_addition =
  add_container :: container_summary
  add_entries :: "entry_metadata list"
  add_deposits :: "deposited_at list"

text \<open>The body of the loop of \<open>ContainerAddition::new\<close>; its state is \<open>expected\<close> and \<open>named\<close>.\<close>

definition addition_step ::
  "nat \<times> entry_path bset \<Rightarrow> nat \<times> entry_metadata \<Rightarrow> model_error + (nat \<times> entry_path bset)" where
  "addition_step = (\<lambda>(expected, named) (entry, metadata).
     let found = offset (extent metadata)
     in if found \<noteq> expected then Err (AdditionEntriesDoNotTile entry expected found)
        else let expected = extent_end (extent metadata)
             in if bt_contains named (path metadata) then Err (AdditionNamesOnePathTwice entry)
                else Ok (expected, bs_insert (path metadata) named))"

definition addition_new ::
  "container_summary \<Rightarrow> entry_metadata list \<Rightarrow> deposited_at list \<Rightarrow> model_error + container_addition" where
  "addition_new container entries deposit_times =
     (if entries = [] then Err AdditionWithoutEntries
      else if length deposit_times \<noteq> length entries
        then Err (AdditionDepositTimesDoNotMatchEntries (length entries) (length deposit_times))
      else and_then (at_position (length entries - 1)) (\<lambda>_.
           and_then (try_fold addition_step (0, []) (enumerate 0 entries)) (\<lambda>_.
             Ok \<lparr>add_container = container, add_entries = entries, add_deposits = deposit_times\<rparr>)))"

text \<open>The \<open>expect\<close> of \<open>into_locations\<close> is never reached (\<open>into_locations_total\<close>): where the code would
  stop, the model has no value.\<close>

definition into_locations :: "container_addition \<Rightarrow> (container_summary \<times> entry_location list) option" where
  "into_locations a =
     map_option (\<lambda>locations. (add_container a, locations))
       (ok_of (collect_res
          (\<lambda>(position, entry, deposited).
             and_then (at_position position) (\<lambda>n.
               Ok \<lparr>loc_container = cid (add_container a), loc_number = n, loc_entry = entry,
                   loc_deposited = deposited\<rparr>))
          (enumerate 0 (zip (add_entries a) (add_deposits a)))))"

definition addition_ok :: "container_addition \<Rightarrow> bool" where
  "addition_ok a \<longleftrightarrow> addition_new (add_container a) (add_entries a) (add_deposits a) = Inr a"

text \<open>The extents stand one after another from \<open>n\<close> on.\<close>

fun tiled_from :: "nat \<Rightarrow> entry_metadata list \<Rightarrow> bool" where
  "tiled_from n [] \<longleftrightarrow> True"
| "tiled_from n (e # es) \<longleftrightarrow> offset (extent e) = n \<and> tiled_from (extent_end (extent e)) es"

lemma addition_step_Ok_iff [res_simps]:
  "addition_step (n, named) (i, e) = Inr s \<longleftrightarrow>
     offset (extent e) = n \<and> \<not> bt_contains named (path e) \<and>
     s = (extent_end (extent e), bs_insert (path e) named)"
  by (auto simp: addition_step_def Let_def)

lemma addition_steps_Ok_iff:
  assumes "bt_inv named"
  shows "(\<exists>s. try_fold addition_step (n, named) (enumerate i es) = Inr s) \<longleftrightarrow>
     tiled_from n es \<and> distinct (map path es) \<and> (\<forall>e \<in> set es. \<not> bt_contains named (path e))"
  using assms
proof (induction es arbitrary: n named i)
  case (Cons e es)
  have "bt_inv (bs_insert (path e) named)" using Cons.prems by (rule bs_inv_insert)
  note IH = Cons.IH [OF this, of "extent_end (extent e)" "Suc i"]
  have "(\<exists>s. try_fold addition_step (n, named) (enumerate i (e # es)) = Inr s) \<longleftrightarrow>
      offset (extent e) = n \<and> \<not> bt_contains named (path e) \<and>
      (\<exists>s. try_fold addition_step (extent_end (extent e), bs_insert (path e) named) (enumerate (Suc i) es) = Inr s)"
    by (auto simp: res_simps)
  with Cons.prems show ?case unfolding IH by (auto simp: image_iff)
qed simp

lemma addition_new_Ok_iff:
  "addition_new c es ds = Inr a \<longleftrightarrow>
     a = \<lparr>add_container = c, add_entries = es, add_deposits = ds\<rparr> \<and>
     es \<noteq> [] \<and> length ds = length es \<and> length es \<le> 2 ^ 32 \<and> tiled_from 0 es \<and> distinct (map path es)"
proof -
  have "(\<exists>s. try_fold addition_step (0, []) (enumerate 0 es) = Inr s) \<longleftrightarrow> tiled_from 0 es \<and> distinct (map path es)"
    using addition_steps_Ok_iff [of "[]" 0 0 es] by (simp add: bt_contains_iff)
  moreover have "es \<noteq> [] \<Longrightarrow> length es - 1 < 2 ^ 32 \<longleftrightarrow> length es \<le> 2 ^ 32"
    by (cases es) auto
  ultimately show ?thesis
    by (auto simp: addition_new_def res_simps split: if_splits)
qed

lemma addition_ok_iff:
  "addition_ok a \<longleftrightarrow>
     add_entries a \<noteq> [] \<and> length (add_deposits a) = length (add_entries a) \<and> length (add_entries a) \<le> 2 ^ 32 \<and>
     tiled_from 0 (add_entries a) \<and> distinct (map path (add_entries a))"
  by (auto simp: addition_ok_def addition_new_Ok_iff)

lemma addition_new_ok: "addition_new c es ds = Inr a \<Longrightarrow> addition_ok a"
  by (auto simp: addition_new_Ok_iff addition_ok_iff)

text \<open>Every byte of an admitted addition's content belongs to exactly one Entry.\<close>

definition extents_ok :: "entry_metadata list \<Rightarrow> bool" where
  "extents_ok es \<longleftrightarrow> (\<forall>e \<in> set es. extent_ok (extent e))"

fun tiled_end :: "nat \<Rightarrow> entry_metadata list \<Rightarrow> nat" where
  "tiled_end n [] = n"
| "tiled_end n (e # es) = tiled_end (offset (extent e) + extent_size (extent e)) es"

lemma tiled_from_later:
  "tiled_from n es \<Longrightarrow> extents_ok es \<Longrightarrow> e \<in> set es \<Longrightarrow> n \<le> offset (extent e)"
proof (induction es arbitrary: n)
  case (Cons x es)
  show ?case
  proof (cases "e = x")
    case False
    have "tiled_from (n + extent_size (extent x)) es" "extents_ok es"
      using Cons.prems by (auto simp: extents_ok_def extent_end_eq)
    from Cons.IH [OF this] show ?thesis using Cons.prems(3) False by simp
  qed (use Cons.prems in simp)
qed simp

lemma tiled_end_ge: "tiled_from n es \<Longrightarrow> extents_ok es \<Longrightarrow> n \<le> tiled_end n es"
proof (induction es arbitrary: n)
  case (Cons x es)
  then have "tiled_from (n + extent_size (extent x)) es" "extents_ok es"
    by (auto simp: extents_ok_def extent_end_eq)
  from Cons.IH [OF this] show ?case using Cons.prems(1) by simp
qed simp

lemma tiled_position:
  assumes "tiled_from n es" and "extents_ok es" and "n \<le> p" and "p < tiled_end n es"
  shows "\<exists>!i. i < length es \<and> extent_contains (extent (es ! i)) p"
  using assms
proof (induction es arbitrary: n)
  case (Cons x es)
  let ?m = "offset (extent x) + extent_size (extent x)"
  have x: "extent_ok (extent x)" "offset (extent x) = n" and es: "tiled_from ?m es" "extents_ok es"
    using Cons.prems by (auto simp: extents_ok_def extent_end_eq)
  show ?case
  proof (cases "p < ?m")
    case True
    have "\<not> extent_contains (extent e) p" if "e \<in> set es" for e
      using tiled_from_later [OF es that] True by (simp add: extent_contains_def)
    then have "i = 0" if "i < length (x # es) \<and> extent_contains (extent ((x # es) ! i)) p" for i
      using that by (cases i) auto
    moreover have "extent_contains (extent x) p"
      using True x Cons.prems(3) by (simp add: extent_contains_iff)
    ultimately show ?thesis by (intro ex1I [of _ 0]) auto
  next
    case False
    then have "\<exists>!i. i < length es \<and> extent_contains (extent (es ! i)) p"
      using Cons.IH [OF es] Cons.prems(4) by simp
    then obtain i where i: "i < length es" "extent_contains (extent (es ! i)) p"
      and uniq: "\<And>j. j < length es \<Longrightarrow> extent_contains (extent (es ! j)) p \<Longrightarrow> j = i" by blast
    have "\<not> extent_contains (extent x) p" using False x by (simp add: extent_contains_iff)
    then have "j = Suc i" if "j < length (x # es) \<and> extent_contains (extent ((x # es) ! j)) p" for j
      using that uniq by (cases j) auto
    with i show ?thesis by (intro ex1I [of _ "Suc i"]) auto
  qed
qed simp

lemma into_locations_eq:
  assumes "length (add_entries a) \<le> 2 ^ 32"
  shows "into_locations a = Some (add_container a,
    map (\<lambda>(i, e, d). \<lparr>loc_container = cid (add_container a), loc_number = EntryNumber i, loc_entry = e,
                       loc_deposited = d\<rparr>)
      (enumerate 0 (zip (add_entries a) (add_deposits a))))"
proof -
  have "i < 2 ^ 32" if "(i, e, d) \<in> set (enumerate 0 (zip (add_entries a) (add_deposits a)))" for i e d
    using that assms by (auto simp: in_set_enumerate_eq)
  then show ?thesis
    unfolding into_locations_def
    by (subst collect_res_map_Inr [where g = "\<lambda>(i, e, d). \<lparr>loc_container = cid (add_container a),
          loc_number = EntryNumber i, loc_entry = e, loc_deposited = d\<rparr>"])
      (auto simp: at_position_def entry_number_new_def)
qed

lemma into_locations_total:
  assumes "addition_ok a"
  obtains ls where "into_locations a = Some (add_container a, ls)"
    and "map loc_entry ls = add_entries a" and "map loc_deposited ls = add_deposits a"
    and "\<forall>i < length ls. loc_number (ls ! i) = EntryNumber i \<and> loc_container (ls ! i) = cid (add_container a)"
proof -
  let ?es = "add_entries a" and ?ds = "add_deposits a"
  let ?f = "\<lambda>(i, e, d). \<lparr>loc_container = cid (add_container a), loc_number = EntryNumber i, loc_entry = e,
                       loc_deposited = d\<rparr>"
  have len: "length ?ds = length ?es" "length ?es \<le> 2 ^ 32" using assms by (auto simp: addition_ok_iff)
  let ?ls = "map ?f (enumerate 0 (zip ?es ?ds))"
  have "map loc_entry ?ls = ?es"
    by (rule nth_equalityI) (use len in \<open>simp_all add: nth_enumerate_eq\<close>)
  moreover have "map loc_deposited ?ls = ?ds"
    by (rule nth_equalityI) (use len in \<open>simp_all add: nth_enumerate_eq\<close>)
  moreover have "\<forall>i < length ?ls. loc_number (?ls ! i) = EntryNumber i \<and> loc_container (?ls ! i) = cid (add_container a)"
    using len by (auto simp: nth_enumerate_eq)
  moreover have "into_locations a = Some (add_container a, ?ls)"
    using len by (simp add: into_locations_eq)
  ultimately show thesis using that by blast
qed

end
