(* ===== verification/Aggregates.thy ===== *)
theory Aggregates
  imports Catalog_Values
begin

text \<open>
  The control aggregates of \<open>coffret-model\<close>: \<open>entry_rename.rs\<close>, \<open>keyring_element.rs\<close>,
  \<open>key_table.rs\<close>, \<open>keyring_commitment.rs\<close>, \<open>index_checkpoint.rs\<close>, \<open>journal_record/\<close> and
  \<open>snapshot_content/\<close>. Each collection an aggregate carries is an interpretation of
  \<open>canonical_collection\<close>; the lemmas say exactly which parts each constructor admits and that the
  \<open>canonical\<close> constructors give one aggregate for every order the parts come in.
\<close>

section \<open>Renames and key tables\<close>

record entry_rename =
  ren_container :: container_id
  ren_number :: entry_number
  ren_path :: entry_path

definition rename_new :: "container_id \<Rightarrow> entry_number \<Rightarrow> entry_path \<Rightarrow> model_error + entry_rename" where
  "rename_new container_id entry_number p =
     (if path_is_derived p then Err RenameIntoReservedNamespace
      else Ok \<lparr>ren_container = container_id, ren_number = entry_number, ren_path = p\<rparr>)"

definition order_key :: "entry_rename \<Rightarrow> container_id \<times> entry_number" where
  "order_key r = (ren_container r, ren_number r)"

definition rename_ok :: "entry_rename \<Rightarrow> bool" where
  "rename_ok r \<longleftrightarrow> \<not> path_is_derived (ren_path r)"

record keyring_element =
  el_container :: container_id
  el_key :: container_key_status

datatype key_table = KeyTable (elements: "keyring_element list")

definition key_table_new :: "keyring_element list \<Rightarrow> model_error + key_table" where
  "key_table_new els =
     and_then (require_strictly_increasing mapping_name (\<lambda>l r. el_container l < el_container r) els)
       (\<lambda>_. Ok (KeyTable els))"

definition key_table_canonical :: "keyring_element list \<Rightarrow> model_error + key_table" where
  "key_table_canonical els = key_table_new (sort_key el_container els)"

record keyring_commitment =
  kc_generation :: generation
  kc_replica_count :: nat
  kc_set_digest :: string

definition keyring_commitment_new :: "generation \<Rightarrow> nat \<Rightarrow> string \<Rightarrow> model_error + keyring_commitment" where
  "keyring_commitment_new g replica_count set_digest =
     (if replica_count = 0 then Err InvalidReplicaCount
      else if \<not> is_nonempty_lowercase_hex set_digest then Err (InvalidSetDigest set_digest)
      else Ok \<lparr>kc_generation = g, kc_replica_count = replica_count, kc_set_digest = set_digest\<rparr>)"

section \<open>A checkpoint\<close>

record index_checkpoint =
  cp_epoch :: master_key_epoch
  cp_head :: generation
  cp_journal :: generation
  cp_slot :: "string option"
  cp_keyring :: keyring_commitment

definition checkpoint_new ::
  "master_key_epoch \<Rightarrow> generation \<Rightarrow> generation \<Rightarrow> string option \<Rightarrow> keyring_commitment \<Rightarrow> model_error + index_checkpoint" where
  "checkpoint_new e head_generation journal_generation slot keyring =
     (if journal_generation > head_generation
      then Err (CheckpointJournalAheadOfHead head_generation journal_generation)
      else Ok \<lparr>cp_epoch = e, cp_head = head_generation, cp_journal = journal_generation,
               cp_slot = slot, cp_keyring = keyring\<rparr>)"

definition at_head :: "master_key_epoch \<Rightarrow> generation \<Rightarrow> string option \<Rightarrow> keyring_commitment \<Rightarrow> index_checkpoint" where
  "at_head e head_generation slot keyring =
     \<lparr>cp_epoch = e, cp_head = head_generation, cp_journal = head_generation, cp_slot = slot, cp_keyring = keyring\<rparr>"

definition checkpoint_ok :: "index_checkpoint \<Rightarrow> bool" where
  "checkpoint_ok c \<longleftrightarrow> cp_journal c \<le> cp_head c"

section \<open>A Journal record\<close>

record journal_record =
  jr_generation :: generation
  jr_prev :: "generation option"
  jr_epoch :: master_key_epoch
  jr_keyring :: keyring_commitment
  jr_next_slot :: "string option"
  jr_snapshot_slot :: "string option"
  jr_additions :: "container_addition list"
  jr_removals :: "container_id list"
  jr_renames :: "entry_rename list"
  jr_library_name :: "library_name option"

text \<open>\<open>predecessor_of\<close>; its \<open>expect\<close> is never reached (\<open>predecessor_of_eq\<close>).\<close>

definition predecessor_of :: "generation \<Rightarrow> generation option" where
  "predecessor_of g = Option.bind (checked_sub64 (gen g) 1) (\<lambda>previous. ok_of (generation_new previous))"

definition addition_id :: "container_addition \<Rightarrow> container_id" where
  "addition_id a = cid (add_container a)"

definition journal_record_new ::
  "generation \<Rightarrow> generation option \<Rightarrow> master_key_epoch \<Rightarrow> keyring_commitment \<Rightarrow> string option \<Rightarrow> string option \<Rightarrow>
   container_addition list \<Rightarrow> container_id list \<Rightarrow> model_error + journal_record" where
  "journal_record_new g prev e keyring next_slot snapshot_slot additions removals =
     (if prev \<noteq> predecessor_of g then Err (JournalRecordPredecessorMismatch g prev)
      else and_then (require_strictly_increasing additions_name (\<lambda>l r. addition_id l < addition_id r) additions) (\<lambda>_.
           and_then (require_strictly_increasing removals_name (<) removals) (\<lambda>_.
             Ok \<lparr>jr_generation = g, jr_prev = prev, jr_epoch = e, jr_keyring = keyring, jr_next_slot = next_slot,
                 jr_snapshot_slot = snapshot_slot, jr_additions = additions, jr_removals = removals,
                 jr_renames = [], jr_library_name = None\<rparr>)))"

definition journal_record_canonical ::
  "generation \<Rightarrow> generation option \<Rightarrow> master_key_epoch \<Rightarrow> keyring_commitment \<Rightarrow> string option \<Rightarrow> string option \<Rightarrow>
   container_addition list \<Rightarrow> container_id list \<Rightarrow> model_error + journal_record" where
  "journal_record_canonical g prev e keyring next_slot snapshot_slot additions removals =
     journal_record_new g prev e keyring next_slot snapshot_slot (sort_key addition_id additions) (sort removals)"

definition with_library_name :: "library_name option \<Rightarrow> journal_record \<Rightarrow> journal_record" where
  "with_library_name n r = r\<lparr>jr_library_name := n\<rparr>"

definition with_renames :: "entry_rename list \<Rightarrow> journal_record \<Rightarrow> model_error + journal_record" where
  "with_renames renames r =
     and_then (require_strictly_increasing renames_name (\<lambda>l r. order_key l < order_key r) renames)
       (\<lambda>_. Ok (r\<lparr>jr_renames := renames\<rparr>))"

definition record_checkpoint :: "journal_record \<Rightarrow> index_checkpoint" where
  "record_checkpoint r = at_head (jr_epoch r) (jr_generation r) (jr_next_slot r) (jr_keyring r)"

section \<open>An Index Snapshot's content\<close>

record snapshot_content =
  sn_checkpoint :: index_checkpoint
  sn_adopted :: "control_object_name option"
  sn_containers :: "container_summary list"
  sn_entries :: "entry_location list"
  sn_library_name :: "library_name option"

definition loc_path_str :: "entry_location \<Rightarrow> string" where
  "loc_path_str l = path_str (loc_path l)"

definition loc_key :: "entry_location \<Rightarrow> container_id \<times> entry_number" where
  "loc_key l = (loc_container l, loc_number l)"

text \<open>The body of the loop of \<open>SnapshotContent::new\<close>; its state is \<open>named\<close>.\<close>

definition snapshot_step ::
  "container_summary list \<Rightarrow> (container_id \<times> entry_number) bset \<Rightarrow> nat \<times> entry_location \<Rightarrow>
   model_error + (container_id \<times> entry_number) bset" where
  "snapshot_step containers = (\<lambda>named (entry, location).
     if binary_search_by_key cid containers (loc_container location) = None
     then Err (SnapshotEntryWithoutContainer entry (loc_container location))
     else if bt_contains named (loc_key location)
     then Err (SnapshotNamesOneEntryTwice entry (loc_container location) (loc_number location))
     else Ok (bs_insert (loc_key location) named))"

definition snapshot_new ::
  "index_checkpoint \<Rightarrow> control_object_name option \<Rightarrow> container_summary list \<Rightarrow> entry_location list \<Rightarrow>
   model_error + snapshot_content" where
  "snapshot_new cp adopted containers entries =
     and_then (require_strictly_increasing containers_name (\<lambda>l r. cid l < cid r) containers) (\<lambda>_.
     and_then (require_strictly_increasing entries_name (\<lambda>l r. loc_path_str l < loc_path_str r) entries) (\<lambda>_.
     and_then (try_fold (snapshot_step containers) [] (enumerate 0 entries)) (\<lambda>_.
       Ok \<lparr>sn_checkpoint = cp, sn_adopted = adopted, sn_containers = containers, sn_entries = entries,
           sn_library_name = None\<rparr>)))"

definition snapshot_canonical ::
  "index_checkpoint \<Rightarrow> control_object_name option \<Rightarrow> container_summary list \<Rightarrow> entry_location list \<Rightarrow>
   model_error + snapshot_content" where
  "snapshot_canonical cp adopted containers entries =
     snapshot_new cp adopted (sort_key cid containers) (sort_key loc_path_str entries)"

definition snapshot_with_library_name :: "library_name option \<Rightarrow> snapshot_content \<Rightarrow> snapshot_content" where
  "snapshot_with_library_name n s = s\<lparr>sn_library_name := n\<rparr>"

definition adopted_from_object :: "control_object_name \<Rightarrow> snapshot_content \<Rightarrow> snapshot_content" where
  "adopted_from_object object s = s\<lparr>sn_adopted := Some object\<rparr>"

section \<open>The collections are keyed\<close>

interpretation additions: canonical_collection addition_id "\<lambda>l r. addition_id l < addition_id r" additions_name
  by unfold_locales simp

interpretation removals: canonical_collection "\<lambda>c. c" "(<) :: container_id \<Rightarrow> container_id \<Rightarrow> bool" removals_name
  by unfold_locales simp

interpretation renames: canonical_collection order_key "\<lambda>l r. order_key l < order_key r" renames_name
  by unfold_locales simp

interpretation containers: canonical_collection cid "\<lambda>l r. cid l < cid r" containers_name
  by unfold_locales simp

interpretation entries: canonical_collection loc_path_str "\<lambda>l r. loc_path_str l < loc_path_str r" entries_name
  by unfold_locales simp

interpretation mapping: canonical_collection el_container "\<lambda>l r. el_container l < el_container r" mapping_name
  by unfold_locales simp

section \<open>What the constructors admit\<close>

lemma rename_new_Ok_iff [res_simps]:
  "rename_new c n p = Inr r \<longleftrightarrow> r = \<lparr>ren_container = c, ren_number = n, ren_path = p\<rparr> \<and> rename_ok r"
  by (auto simp: rename_new_def rename_ok_def)

lemma checkpoint_new_Ok_iff [res_simps]:
  "checkpoint_new e h j s k = Inr c \<longleftrightarrow>
     c = \<lparr>cp_epoch = e, cp_head = h, cp_journal = j, cp_slot = s, cp_keyring = k\<rparr> \<and> checkpoint_ok c"
  by (auto simp: checkpoint_new_def checkpoint_ok_def)

lemma at_head_ok [simp]: "checkpoint_ok (at_head e h s k)"
  by (simp add: checkpoint_ok_def at_head_def)

lemma key_table_new_Ok_iff [res_simps]:
  "key_table_new els = Inr t \<longleftrightarrow> t = KeyTable els \<and> sorted_wrt (<) (map el_container els)"
  by (auto simp: key_table_new_def res_simps mapping.require_Ok_iff)

lemma key_table_canonical_Ok_iff:
  "key_table_canonical els = Inr t \<longleftrightarrow> t = KeyTable (sort_key el_container els) \<and> distinct (map el_container els)"
  by (auto simp: key_table_canonical_def key_table_new_def res_simps mapping.sorted_require)

text \<open>Every generation but the first follows exactly the one below it.\<close>

lemma predecessor_of_eq:
  "generation_ok g \<Longrightarrow> predecessor_of g = (if gen g = 0 then None else Some (Generation (gen g - 1)))"
  by (auto simp: predecessor_of_def checked_sub64_def generation_new_def generation_ok_def)

lemma predecessor_of_iff:
  "generation_ok g \<Longrightarrow> generation_ok p \<Longrightarrow> predecessor_of g = Some p \<longleftrightarrow> generation_next p = Inr g"
  by (cases g; cases p) (auto simp: predecessor_of_eq generation_next_eq generation_ok_def)

definition collections_ok :: "container_addition list \<Rightarrow> container_id list \<Rightarrow> bool" where
  "collections_ok additions removals \<longleftrightarrow>
     sorted_wrt (<) (map addition_id additions) \<and> sorted_wrt (<) removals"

lemma journal_record_new_Ok_iff:
  "journal_record_new g prev e k ns ss as rs = Inr r \<longleftrightarrow>
     prev = predecessor_of g \<and> collections_ok as rs \<and>
     r = \<lparr>jr_generation = g, jr_prev = prev, jr_epoch = e, jr_keyring = k, jr_next_slot = ns,
          jr_snapshot_slot = ss, jr_additions = as, jr_removals = rs, jr_renames = [], jr_library_name = None\<rparr>"
  by (auto simp: journal_record_new_def collections_ok_def res_simps additions.require_Ok_iff
      removals.require_Ok_iff)

lemma journal_record_canonical_Ok_iff:
  "(\<exists>r. journal_record_canonical g prev e k ns ss as rs = Inr r) \<longleftrightarrow>
     prev = predecessor_of g \<and> distinct (map addition_id as) \<and> distinct rs"
  using additions.sorted_require [of as] removals.sorted_require [of rs]
  by (auto simp: journal_record_canonical_def journal_record_new_Ok_iff collections_ok_def
      additions.require_Ok_iff removals.require_Ok_iff)

lemma journal_record_canonical_forgets_order:
  assumes "mset as = mset as'" and "mset rs = mset rs'"
    and "journal_record_canonical g prev e k ns ss as rs = Inr r"
  shows "journal_record_canonical g prev e k ns ss as' rs' = Inr r"
proof -
  have "distinct (map addition_id as)" "distinct rs"
    using assms(3) journal_record_canonical_Ok_iff by blast+
  then have "sort_key addition_id as = sort_key addition_id as'" "sort rs = sort rs'"
    using assms(1,2) additions.sort_forgets_order by (blast, metis properties_for_sort mset_sort sorted_sort)
  with assms(3) show ?thesis by (simp add: journal_record_canonical_def)
qed

lemma with_renames_Ok_iff [res_simps]:
  "with_renames rns r = Inr r' \<longleftrightarrow> sorted_wrt (<) (map order_key rns) \<and> r' = r\<lparr>jr_renames := rns\<rparr>"
  by (auto simp: with_renames_def res_simps renames.require_Ok_iff)

lemma snapshot_steps_Ok_iff:
  assumes "bt_inv named" and "sorted_wrt (<) (map cid cs)"
  shows "(\<exists>s. try_fold (snapshot_step cs) named (enumerate i ls) = Inr s) \<longleftrightarrow>
     (\<forall>l \<in> set ls. loc_container l \<in> cid ` set cs) \<and> distinct (map loc_key ls) \<and>
     (\<forall>l \<in> set ls. \<not> bt_contains named (loc_key l))"
  using assms(1)
proof (induction ls arbitrary: named i)
  case (Cons l ls)
  have "bt_inv (bs_insert (loc_key l) named)" using Cons.prems by (rule bs_inv_insert)
  note IH = Cons.IH [OF this, of "Suc i"]
  have "(\<exists>s. try_fold (snapshot_step cs) named (enumerate i (l # ls)) = Inr s) \<longleftrightarrow>
      loc_container l \<in> cid ` set cs \<and> \<not> bt_contains named (loc_key l) \<and>
      (\<exists>s. try_fold (snapshot_step cs) (bs_insert (loc_key l) named) (enumerate (Suc i) ls) = Inr s)"
    using containers.search_None_iff [OF assms(2)] by (auto simp: res_simps snapshot_step_def split: if_splits)
  with Cons.prems show ?case unfolding IH by (auto simp: image_iff)
qed simp

definition snapshot_parts_ok :: "container_summary list \<Rightarrow> entry_location list \<Rightarrow> bool" where
  "snapshot_parts_ok cs ls \<longleftrightarrow>
     distinct (map cid cs) \<and> distinct (map loc_path_str ls) \<and> distinct (map loc_key ls) \<and>
     loc_container ` set ls \<subseteq> cid ` set cs"

lemma snapshot_new_Ok_iff:
  "snapshot_new cp ad cs ls = Inr s \<longleftrightarrow>
     sorted (map cid cs) \<and> sorted (map loc_path_str ls) \<and> snapshot_parts_ok cs ls \<and>
     s = \<lparr>sn_checkpoint = cp, sn_adopted = ad, sn_containers = cs, sn_entries = ls, sn_library_name = None\<rparr>"
proof -
  let ?s = "\<lparr>sn_checkpoint = cp, sn_adopted = ad, sn_containers = cs, sn_entries = ls, sn_library_name = None\<rparr>"
  have "snapshot_new cp ad cs ls = Inr s \<longleftrightarrow>
      sorted_wrt (<) (map cid cs) \<and> sorted_wrt (<) (map loc_path_str ls) \<and>
      (\<exists>t. try_fold (snapshot_step cs) [] (enumerate 0 ls) = Inr t) \<and> s = ?s"
    by (auto simp: snapshot_new_def res_simps containers.require_Ok_iff entries.require_Ok_iff)
  also have "\<dots> \<longleftrightarrow> sorted (map cid cs) \<and> sorted (map loc_path_str ls) \<and> snapshot_parts_ok cs ls \<and> s = ?s"
  proof (cases "sorted_wrt (<) (map cid cs)")
    case True
    then have "(\<exists>t. try_fold (snapshot_step cs) [] (enumerate 0 ls) = Inr t) \<longleftrightarrow>
        loc_container ` set ls \<subseteq> cid ` set cs \<and> distinct (map loc_key ls)"
      unfolding snapshot_steps_Ok_iff [OF bt_inv_Nil True] by (auto simp: bt_contains_iff)
    then show ?thesis unfolding snapshot_parts_ok_def strict_sorted_iff by blast
  next
    case False
    then show ?thesis unfolding snapshot_parts_ok_def strict_sorted_iff by blast
  qed
  finally show ?thesis .
qed

lemma snapshot_parts_ok_mset:
  assumes "mset cs = mset cs'" and "mset ls = mset ls'"
  shows "snapshot_parts_ok cs ls \<longleftrightarrow> snapshot_parts_ok cs' ls'"
proof -
  show ?thesis
    unfolding snapshot_parts_ok_def mset_eq_setD [OF assms(1)] mset_eq_setD [OF assms(2)]
    by (metis assms mset_eq_imp_distinct_iff mset_map)
qed

lemma snapshot_canonical_Ok_iff:
  "snapshot_canonical cp ad cs ls = Inr s \<longleftrightarrow>
     snapshot_parts_ok cs ls \<and>
     s = \<lparr>sn_checkpoint = cp, sn_adopted = ad, sn_containers = sort_key cid cs,
          sn_entries = sort_key loc_path_str ls, sn_library_name = None\<rparr>"
  using snapshot_parts_ok_mset [of cs "sort_key cid cs" ls "sort_key loc_path_str ls"]
  by (simp add: snapshot_canonical_def snapshot_new_Ok_iff)

lemma snapshot_canonical_forgets_order:
  assumes "mset cs = mset cs'" and "mset ls = mset ls'" and "snapshot_canonical cp ad cs ls = Inr s"
  shows "snapshot_canonical cp ad cs' ls' = Inr s"
proof -
  have ok: "snapshot_parts_ok cs ls" using assms(3) by (simp add: snapshot_canonical_Ok_iff)
  then have "sort_key cid cs = sort_key cid cs'" "sort_key loc_path_str ls = sort_key loc_path_str ls'"
    using assms(1,2) by (auto simp: snapshot_parts_ok_def intro: containers.sort_forgets_order entries.sort_forgets_order)
  with assms(3) ok snapshot_parts_ok_mset [OF assms(1,2)] show ?thesis by (simp add: snapshot_canonical_Ok_iff)
qed

text \<open>A snapshot read back is rebuilt as itself: its collections are already in their order.\<close>

definition snapshot_ok :: "snapshot_content \<Rightarrow> bool" where
  "snapshot_ok s \<longleftrightarrow>
     sorted (map cid (sn_containers s)) \<and> sorted (map loc_path_str (sn_entries s)) \<and>
     snapshot_parts_ok (sn_containers s) (sn_entries s)"

lemma snapshot_canonical_ok: "snapshot_canonical cp ad cs ls = Inr s \<Longrightarrow> snapshot_ok s"
  by (auto simp: snapshot_canonical_def snapshot_new_Ok_iff snapshot_ok_def)

lemma snapshot_new_ok: "snapshot_new cp ad cs ls = Inr s \<Longrightarrow> snapshot_ok s"
  by (auto simp: snapshot_new_Ok_iff snapshot_ok_def)

end
