(* ===== verification/Format_Errors.thy ===== *)
theory Format_Errors
  imports Aggregates
begin

text \<open>
  \<open>coffret-format/src/error\<close>: the refusals of the format layer, with the constructors of the source.
  A constructor whose name the model's errors already use carries the prefix \<open>Fmt\<close>. What a CBOR
  library reports of itself is opaque here (\<open>cbor_failure\<close>). The byte arrays the headers are written
  into and read from are here too: writing a field at its offset, and reading a range.
\<close>

datatype cbor_failure = CborFailure string

datatype malformed_detail = Written string | Undecodable cbor_failure

datatype encode_detail = EncodeWritten string | Unencodable cbor_failure

datatype purpose =
    ContainerWrap
  | ControlJournal
  | ControlKeyring
  | ControlIndexSnapshot
  | ControlActivationSnapshot
  | TokenCache
  | AccountCacheWrap

text \<open>What \<open>argon2\<close> reports: the three refusals the code gives itself, and any other.\<close>

datatype argon2_error = MemoryTooLittle | TimeTooSmall | ThreadsTooFew | OtherArgon2 string

text \<open>The one enumeration of the source is four here, joined by \<open>Catalog\<close>, \<open>Device\<close> and \<open>Recovery\<close>:
  what a journal record or Index Snapshot payload is refused for, what a device's own files are, and what a
  recovery code is. A character a recovery code is refused for is the string of its UTF-8 bytes.\<close>

datatype (plugins only: code) catalog_error =
    MalformedJournalRecord malformed_detail
  | UnsupportedJournalRecordSchema nat
  | JournalRecordNeedsNewerBuild generation nat nat
  | JournalRecordPrevMismatch generation "generation option"
  | MalformedIndexSnapshot malformed_detail
  | UnsupportedIndexSnapshotSchema nat
  | FmtSnapshotEntryWithoutContainer nat container_id
  | FmtAdditionWithoutEntries nat
  | FmtAdditionEntriesDoNotTile nat nat nat nat
  | FmtAdditionNamesOnePathTwice nat nat
  | FmtRenameIntoReservedNamespace nat
  | FmtSnapshotNamesOneEntryTwice nat container_id entry_number
  | FmtCheckpointJournalAheadOfHead generation generation
  | SnapshotCheckpointsAnotherHead generation generation
  | ActivationBaseHeadNotEarlier generation generation
  | DanglingContainerIndex nat nat nat
  | ActivationFieldOnOrdinarySnapshot string
  | ActivationSnapshotFieldMissing string
  | NotAnIndexSnapshotKind control_object_kind

datatype (plugins only: code) device_error =
    UnknownStoredMasterKeyMagic "byte list"
  | UnsupportedStoredMasterKeyVersion byte
  | StoredMasterKeyLengthMismatch
  | StoredMasterKeyEpochOutOfRange nat
  | Argon2CostAboveCeiling string nat nat
  | UnknownTokenCacheMagic "byte list"
  | UnsupportedTokenCacheVersion byte
  | TokenCacheTooShort nat
  | UnknownAccountCacheKeyEnvelopeMagic "byte list"
  | UnsupportedAccountCacheKeyEnvelopeVersion byte
  | AccountCacheKeyEnvelopeLength nat
  | InvalidArgon2Params argon2_error
  | PassphraseDerivationFailed argon2_error

datatype (plugins only: code) recovery_error =
    RecoveryCodeMissingSeparator
  | RecoveryCodeEmptyPrefix
  | RecoveryCodeInvalidPrefixCharacter string
  | RecoveryCodeInvalidCharacter string
  | RecoveryCodeMixedCase
  | RecoveryCodeChecksumFailed
  | UnknownRecoveryCodePrefix string
  | RecoveryCodeLengthMismatch nat
  | NonZeroRecoveryCodePadding
  | UnsupportedRecoveryCodeVersion byte
  | RecoveryCodeEpochOutOfRange nat

datatype (plugins only: code) format_error =
    HeaderTooShort nat
  | UnknownMagic "byte list"
  | UnsupportedVersion byte
  | ReservedNotZero
  | InvalidChunkSize
  | Truncated
  | UnaddressableOnThisBuild string nat
  | MissingChunks
  | AuthenticationFailed
  | MalformedMeta malformed_detail
  | MetaEncodeFailed encode_detail
  | UnsupportedMetaSchema nat
  | MetaSectionTooLong nat nat
  | EmptyEntryTable
  | EntryTableNotContiguous nat
  | FmtUnnormalizedEntryPath string
  | FmtMalformedEntryPath string
  | StreamTooLong
  | PlaintextLengthMismatch nat nat
  | NonZeroPadding
  | NonZeroMetaPadding
  | MetaPaddingLengthMismatch nat nat
  | ContentHashMismatch nat
  | EntryLengthMismatch nat nat nat
  | EntryHashMismatch nat
  | StreamOverrun nat
  | PlaintextRangeOutOfBounds nat nat nat
  | ChunkRunTruncated nat nat
  | ChunkRunOverrun nat nat
  | ControlHeaderTooShort nat
  | UnknownControlMagic "byte list"
  | UnsupportedControlVersion byte
  | ControlHeaderGenerationOutOfRange nat
  | UnknownControlObjectKind byte
  | MissingControlPayload
  | ControlObjectTooLong control_object_kind nat nat
  | WrongPurposeKey purpose purpose
  | ControlObjectKindNotAdmitted control_object_name control_object_kind
  | ObjectNameMismatch string
  | MalformedControlPayload malformed_detail
  | ControlPayloadNotAMap
  | NonZeroControlPadding
  | ControlPaddingLengthMismatch nat nat
  | MissingMasterKeyEpoch
  | ControlPayloadEncodeFailed cbor_failure
  | UnregisteredField string "string option"
  | ControlPayloadTooLong nat
  | MalformedKeyringReplica malformed_detail
  | UnsupportedKeyringReplicaSchema nat
  | KeyringElementMarkerNotTrue nat
  | KeyringElementWithoutEnvelopeOrMarker nat
  | KeyringElementWithEnvelopeAndMarker nat
  | ControlPayloadOutOfOrder string nat
  | Catalog catalog_error
  | Device device_error
  | Recovery recovery_error
  | EntropyUnavailable
  | Model model_error

text \<open>\<open>bounded_uint\<close>: the bound every integer of the format is held to.\<close>

definition bounded_uint :: "string \<Rightarrow> nat \<Rightarrow> (string \<Rightarrow> format_error) \<Rightarrow> format_error + nat" where
  "bounded_uint key value malformed =
     (if value > max_format_integer
      then Err (malformed (key @ '' is an unsigned integer below 2^63, found '' @ show_nat value))
      else Ok value)"

lemma bounded_uint_Ok_iff [res_simps]: "bounded_uint k v m = Inr w \<longleftrightarrow> w = v \<and> v \<le> max_format_integer"
  by (auto simp: bounded_uint_def)

section \<open>Byte arrays\<close>

text \<open>\<open>bytes[a..b]\<close>, and \<open>bytes[off..off + src.len()].copy_from_slice(src)\<close>.\<close>

definition slice :: "nat \<Rightarrow> nat \<Rightarrow> 'a list \<Rightarrow> 'a list" where
  "slice a b xs = take (b - a) (drop a xs)"

definition blit :: "nat \<Rightarrow> 'a list \<Rightarrow> 'a list \<Rightarrow> 'a list" where
  "blit off src arr = take off arr @ src @ drop (off + length src) arr"

lemma length_slice [simp]: "b \<le> length xs \<Longrightarrow> length (slice a b xs) = b - a"
  by (simp add: slice_def)

lemma slice_split: "a \<le> b \<Longrightarrow> b \<le> c \<Longrightarrow> slice a c xs = slice a b xs @ slice b c xs"
  using take_add [of "b - a" "c - b" "drop a xs"] by (simp add: slice_def)

lemma slice_single: "i < length xs \<Longrightarrow> slice i (Suc i) xs = [xs ! i]"
  by (simp add: slice_def take_Suc_conv_app_nth)

lemma slice_take: "slice 0 b xs = take b xs"
  by (simp add: slice_def)

text \<open>A zeroed array filled from the front: what is written so far, and the zeros still there.\<close>

definition filled :: "byte list \<Rightarrow> nat \<Rightarrow> byte list" where
  "filled xs n = xs @ replicate n 0"

lemma filled_Nil: "replicate n 0 = filled [] n"
  by (simp add: filled_def)

lemma filled_0: "filled xs 0 = xs"
  by (simp add: filled_def)

lemma blit_filled:
  assumes "length xs \<le> off" and "off + length src \<le> length xs + n"
  shows "blit off src (filled xs n) =
    filled (xs @ replicate (off - length xs) 0 @ src) (length xs + n - (off + length src))"
proof -
  have "drop (off + length src) (xs @ replicate n 0) = replicate (length xs + n - (off + length src)) 0"
    using assms by simp
  moreover have "take off (xs @ replicate n 0) = xs @ replicate (off - length xs) 0"
    using assms by (simp add: min_absorb1)
  ultimately show ?thesis by (simp add: blit_def filled_def)
qed

lemma update_filled:
  assumes "length xs \<le> off" and "off < length xs + n"
  shows "(filled xs n)[off := v] = filled (xs @ replicate (off - length xs) 0 @ [v]) (length xs + n - Suc off)"
proof -
  have "(filled xs n)[off := v] = blit off [v] (filled xs n)"
    using assms by (simp add: blit_def filled_def upd_conv_take_nth_drop)
  then show ?thesis using blit_filled [of xs off "[v]" n] assms by simp
qed

text \<open>\<open>Vec::resize(len, 0)\<close>.\<close>

definition resize :: "nat \<Rightarrow> byte list \<Rightarrow> byte list" where
  "resize n bs = take n bs @ replicate (n - length bs) 0"

lemma resize_grow: "length bs \<le> n \<Longrightarrow> resize n bs = bs @ replicate (n - length bs) 0"
  by (simp add: resize_def)

end
