(* ===== verification/Cbor.thy ===== *)
theory Cbor
  imports Format_Errors
begin

text \<open>
  \<open>coffret-format/src/field_numbers\<close> and \<open>control/cbor\<close>: the maps of the format, written with field
  numbers for names. A CBOR item is the \<open>ciborium::Value\<close> the code builds and reads; turning an item
  into bytes and back is the library's, and a parameter of the theories that use it. The registry is
  the code's table; the lemmas show that it never gives two live fields of a map one number or one
  name, and that what \<open>to_wire\<close> wrote \<open>from_wire\<close> reads back.
\<close>

datatype cbor =
    Integer int
  | Bytes "byte list"
  | Float "64 word"
  | Txt string
  | Boolean bool
  | Null
  | Tag nat cbor
  | Array "cbor list"
  | Map "(cbor \<times> cbor) list"

datatype map_fields = MapFields (map_name: string) (map_list: "registered_field list")
  and registered_field = Field (field_name: string) (number_of: nat) (retired: bool) (holds: "map_fields option")

section \<open>The registry\<close>

definition field :: "string \<Rightarrow> nat \<Rightarrow> registered_field" where
  "field n k = Field n k False None"

definition holding :: "string \<Rightarrow> nat \<Rightarrow> map_fields \<Rightarrow> registered_field" where
  "holding n k m = Field n k False (Some m)"

definition master_key_epoch_field :: nat where
  "master_key_epoch_field = 0"

definition DERIVED_FROM :: map_fields where
  "DERIVED_FROM = MapFields ''derived_from'' [field ''container_id'' 0, field ''captured_path'' 1]"

definition META_ENTRY :: map_fields where
  "META_ENTRY = MapFields ''meta_entry''
     [field ''captured_path'' 0, field ''offset'' 1, field ''size'' 2, field ''captured_mtime'' 3,
      field ''hash'' 4, field ''captured_btime'' 5, field ''mime'' 6, holding ''derived_from'' 7 DERIVED_FROM]"

definition META :: map_fields where
  "META = MapFields ''meta''
     [field ''schema'' 1, field ''kind'' 2, field ''pad_len'' 3, holding ''entries'' 4 META_ENTRY]"

definition RENAME :: map_fields where
  "RENAME = MapFields ''rename'' [field ''container'' 0, field ''entry'' 1, field ''path'' 2]"

definition ADDITION_ENTRY :: map_fields where
  "ADDITION_ENTRY = MapFields ''addition_entry''
     [field ''path'' 0, field ''offset'' 1, field ''size'' 2, field ''mtime'' 3, field ''hash'' 4,
      field ''btime'' 5, field ''mime'' 6, holding ''derived_from'' 7 DERIVED_FROM,
      field ''captured_path'' 8, field ''deposited_at'' 9]"

definition ADDITION :: map_fields where
  "ADDITION = MapFields ''addition''
     [field ''id'' 0, field ''kind'' 1, field ''ciphertext_hash'' 2, field ''ciphertext_len'' 3,
      field ''object_ref'' 4, holding ''entries'' 5 ADDITION_ENTRY]"

definition JOURNAL_RECORD :: map_fields where
  "JOURNAL_RECORD = MapFields ''journal_record''
     [field ''master_key_epoch'' master_key_epoch_field, field ''schema'' 1, field ''prev'' 2,
      field ''next_commit_slot'' 3, field ''snapshot_slot'' 4, field ''keyring_generation'' 5,
      field ''keyring_replica_count'' 6, field ''keyring_set_digest'' 7, holding ''additions'' 8 ADDITION,
      field ''removals'' 9, holding ''renames'' 10 RENAME, field ''required_schema'' 11,
      field ''library_name'' 12]"

definition SNAPSHOT_CONTAINER :: map_fields where
  "SNAPSHOT_CONTAINER = MapFields ''snapshot_container''
     [field ''id'' 0, field ''kind'' 1, field ''ciphertext_hash'' 2, field ''ciphertext_len'' 3,
      field ''object_ref'' 4]"

definition SNAPSHOT_ENTRY :: map_fields where
  "SNAPSHOT_ENTRY = MapFields ''snapshot_entry''
     [field ''path'' 0, field ''offset'' 1, field ''size'' 2, field ''mtime'' 3, field ''hash'' 4,
      field ''btime'' 5, field ''mime'' 6, holding ''derived_from'' 7 DERIVED_FROM,
      field ''captured_path'' 8, field ''container'' 9, field ''entry'' 10, field ''deposited_at'' 11]"

definition INDEX_SNAPSHOT :: map_fields where
  "INDEX_SNAPSHOT = MapFields ''index_snapshot''
     [field ''master_key_epoch'' master_key_epoch_field, field ''schema'' 1, field ''head_generation'' 2,
      field ''next_commit_slot'' 3, field ''journal_generation'' 4, field ''keyring_generation'' 5,
      field ''keyring_replica_count'' 6, field ''keyring_set_digest'' 7,
      holding ''containers'' 8 SNAPSHOT_CONTAINER, holding ''entries'' 9 SNAPSHOT_ENTRY,
      field ''base_head_generation'' 10, field ''activation_slot'' 11, field ''library_name'' 12]"

definition KEYRING_ELEMENT :: map_fields where
  "KEYRING_ELEMENT = MapFields ''keyring_element'' [field ''id'' 0, field ''envelope'' 1, field ''key_lost'' 2]"

definition KEYRING :: map_fields where
  "KEYRING = MapFields ''keyring''
     [field ''master_key_epoch'' master_key_epoch_field, field ''schema'' 1, holding ''mapping'' 2 KEYRING_ELEMENT]"

fun payload_map :: "control_object_kind \<Rightarrow> map_fields" where
  "payload_map Journal = JOURNAL_RECORD"
| "payload_map IndexSnapshot = INDEX_SNAPSHOT"
| "payload_map ActivationSnapshot = INDEX_SNAPSHOT"
| "payload_map Keyring = KEYRING"

definition live_by_name :: "map_fields \<Rightarrow> string \<Rightarrow> registered_field option" where
  "live_by_name mf name = find (\<lambda>f. \<not> retired f \<and> field_name f = name) (map_list mf)"

definition live_by_number :: "map_fields \<Rightarrow> nat \<Rightarrow> registered_field option" where
  "live_by_number mf n = find (\<lambda>f. \<not> retired f \<and> number_of f = n) (map_list mf)"

section \<open>Field numbers for names, and back\<close>

fun as_text :: "cbor \<Rightarrow> string option" where
  "as_text (Txt s) = Some s"
| "as_text _ = None"

fun field_number :: "cbor \<Rightarrow> nat option" where
  "field_number (Integer n) = (if 0 \<le> n \<and> n < 2 ^ 64 then Some (nat n) else None)"
| "field_number _ = None"

text \<open>The refused field is named by its text, or by nothing where the code writes the key's debug form.\<close>

lemma collect_res_cong [fundef_cong]:
  "xs = ys \<Longrightarrow> (\<And>x. x \<in> set ys \<Longrightarrow> f x = g x) \<Longrightarrow> collect_res f xs = collect_res g ys"
  by (induction ys arbitrary: xs) auto

lemma pair_size_less: "(k, v) \<in> set es \<Longrightarrow> size v < size (Map es)"
proof -
  assume "(k, v) \<in> set es"
  then have "size_prod size size (k, v) \<le> size_list (size_prod size size) es"
    by (rule size_list_estimation') simp
  then show ?thesis by simp
qed

function to_wire :: "cbor \<Rightarrow> map_fields \<Rightarrow> format_error + cbor" where
  "to_wire (Map entries) mf =
     and_then (collect_res
        (\<lambda>(name, value).
           case Option.bind (as_text name) (live_by_name mf) of
             None \<Rightarrow> Err (UnregisteredField (map_name mf) (as_text name))
           | Some f \<Rightarrow>
               and_then (case holds f of Some nested \<Rightarrow> to_wire value nested | None \<Rightarrow> Ok value)
                 (\<lambda>value. Ok (Integer (int (number_of f)), value))) entries)
       (\<lambda>entries. Ok (Map entries))"
| "to_wire (Array items) mf =
     and_then (collect_res (\<lambda>item. to_wire item mf) items) (\<lambda>items. Ok (Array items))"
| "to_wire (Integer i) mf = Ok (Integer i)"
| "to_wire (Bytes b) mf = Ok (Bytes b)"
| "to_wire (Float w) mf = Ok (Float w)"
| "to_wire (Txt s) mf = Ok (Txt s)"
| "to_wire (Boolean b) mf = Ok (Boolean b)"
| "to_wire Null mf = Ok Null"
| "to_wire (Tag t v) mf = Ok (Tag t v)"
  by pat_completeness auto
termination
  by (relation "measure (\<lambda>(v, mf). size v)")
    (auto simp: pair_size_less less_Suc_eq_le intro: size_list_estimation')

fun list_filter_map :: "('a \<Rightarrow> 'b option) \<Rightarrow> 'a list \<Rightarrow> 'b list" where
  "list_filter_map f [] = []"
| "list_filter_map f (x # xs) = (case f x of Some y \<Rightarrow> y # list_filter_map f xs | None \<Rightarrow> list_filter_map f xs)"

lemma list_filter_map_cong [fundef_cong]:
  "xs = ys \<Longrightarrow> (\<And>x. x \<in> set ys \<Longrightarrow> f x = g x) \<Longrightarrow> list_filter_map f xs = list_filter_map g ys"
  by (induction ys arbitrary: xs) (auto split: option.split)

function from_wire :: "cbor \<Rightarrow> map_fields \<Rightarrow> cbor" where
  "from_wire (Map entries) mf =
     Map (list_filter_map
        (\<lambda>(key, value).
           Option.bind (Option.bind (field_number key) (live_by_number mf)) (\<lambda>f.
             Some (Txt (field_name f),
                   case holds f of Some nested \<Rightarrow> from_wire value nested | None \<Rightarrow> value))) entries)"
| "from_wire (Array items) mf = Array (map (\<lambda>item. from_wire item mf) items)"
| "from_wire (Integer i) mf = Integer i"
| "from_wire (Bytes b) mf = Bytes b"
| "from_wire (Float w) mf = Float w"
| "from_wire (Txt s) mf = Txt s"
| "from_wire (Boolean b) mf = Boolean b"
| "from_wire Null mf = Null"
| "from_wire (Tag t v) mf = Tag t v"
  by pat_completeness auto
termination
  by (relation "measure (\<lambda>(v, mf). size v)")
    (auto simp: pair_size_less less_Suc_eq_le intro: size_list_estimation')

section \<open>The registry is sound\<close>

fun kind_ok :: "map_fields \<Rightarrow> bool" and field_ok :: "registered_field \<Rightarrow> bool" where
  "kind_ok (MapFields n fs) \<longleftrightarrow>
     distinct (map number_of (filter (\<lambda>f. \<not> retired f) fs)) \<and>
     distinct (map field_name (filter (\<lambda>f. \<not> retired f) fs)) \<and>
     (\<forall>f \<in> set fs. field_ok f)"
| "field_ok (Field n k r h) \<longleftrightarrow> k < 2 ^ 64 \<and> (\<forall>m \<in> set_option h. kind_ok m)"

lemma find_unique:
  assumes "f \<in> set fs" and "P f" and "\<And>g. g \<in> set fs \<Longrightarrow> P g \<Longrightarrow> g = f"
  shows "find P fs = Some f"
proof (cases "find P fs")
  case None
  then show ?thesis using assms(1,2) by (auto simp: find_None_iff)
next
  case (Some g)
  then have "g \<in> set fs" "P g" by (auto simp: find_Some_iff)
  with assms(3) Some show ?thesis by simp
qed

lemma kind_ok_simp:
  "kind_ok mf \<longleftrightarrow> distinct (map number_of (filter (\<lambda>f. \<not> retired f) (map_list mf))) \<and>
     distinct (map field_name (filter (\<lambda>f. \<not> retired f) (map_list mf))) \<and> (\<forall>f \<in> set (map_list mf). field_ok f)"
  by (cases mf) simp

lemma live_by_name_sound:
  assumes "kind_ok mf" and "live_by_name mf n = Some f"
  shows "field_name f = n" and "live_by_number mf (number_of f) = Some f" and "number_of f < 2 ^ 64"
    and "holds f = Some m \<Longrightarrow> kind_ok m"
proof -
  have f: "f \<in> set (map_list mf)" "\<not> retired f" "field_name f = n"
    using assms(2) by (auto simp: live_by_name_def find_Some_iff)
  then show "field_name f = n" by simp
  have inj: "inj_on number_of (set (filter (\<lambda>f. \<not> retired f) (map_list mf)))"
    using assms(1) by (simp add: kind_ok_simp distinct_map)
  show "live_by_number mf (number_of f) = Some f"
    unfolding live_by_number_def
    by (rule find_unique) (use f inj in \<open>auto dest: inj_onD\<close>)
  have "field_ok f" using f assms(1) by (simp add: kind_ok_simp)
  then show "number_of f < 2 ^ 64" and "holds f = Some m \<Longrightarrow> kind_ok m" by (cases f; simp)+
qed

lemma list_filter_map_all: "list_all2 (\<lambda>x y. f x = Some y) xs ys \<Longrightarrow> list_filter_map f xs = ys"
  by (induction xs ys rule: list_all2_induct) auto

text \<open>What \<open>to_wire\<close> wrote \<open>from_wire\<close> reads back as the item it was given.\<close>

lemma from_to_wire:
  assumes "kind_ok mf" and "to_wire v mf = Inr w"
  shows "from_wire w mf = v"
  using assms
proof (induction v mf arbitrary: w rule: to_wire.induct)
  case (1 es mf)
  let ?h = "\<lambda>(name, value).
           case Option.bind (as_text name) (live_by_name mf) of
             None \<Rightarrow> Err (UnregisteredField (map_name mf) (as_text name))
           | Some f \<Rightarrow>
               and_then (case holds f of Some nested \<Rightarrow> to_wire value nested | None \<Rightarrow> Ok value)
                 (\<lambda>value. Ok (Integer (int (number_of f)), value))"
  from 1(3) obtain ws where w: "w = Map ws" and all: "list_all2 (\<lambda>x y. ?h x = Inr y) es ws"
    unfolding to_wire.simps and_then_Inr_iff collect_res_Inr_iff by auto
  let ?g = "\<lambda>(key, value). Option.bind (Option.bind (field_number key) (live_by_number mf)) (\<lambda>f.
      Some (Txt (field_name f), case holds f of Some nested \<Rightarrow> from_wire value nested | None \<Rightarrow> value))"
  have "list_all2 (\<lambda>kw kv. ?g kw = Some kv) ws es"
  proof (rule list_all2_all_nthI)
    show "length ws = length es" using all by (simp add: list_all2_lengthD)
    fix i assume "i < length ws"
    then have i: "i < length es" using all by (simp add: list_all2_lengthD)
    obtain k v where kv: "es ! i = (k, v)" by (cases "es ! i")
    then have mem: "(k, v) \<in> set es" using i by (metis nth_mem)
    obtain f x where f: "Option.bind (as_text k) (live_by_name mf) = Some f"
      and x: "(case holds f of Some nested \<Rightarrow> to_wire v nested | None \<Rightarrow> Inr v) = Inr x"
      and ws: "ws ! i = (Integer (int (number_of f)), x)"
      using list_all2_nthD [OF all i] unfolding kv by (auto simp: res_simps split: option.splits)
    obtain n where n: "as_text k = Some n" "live_by_name mf n = Some f" using f by (auto simp: bind_eq_Some_conv)
    have k: "k = Txt n" using n(1) by (cases k) auto
    note sound = live_by_name_sound [OF 1(2) n(2)]
    have "(case holds f of Some nested \<Rightarrow> from_wire x nested | None \<Rightarrow> x) = v"
    proof (cases "holds f")
      case (Some nested)
      with x have "to_wire v nested = Inr x" by simp
      with 1(1) [OF mem refl f Some] sound(4) [OF Some] Some show ?thesis by simp
    qed (use x in simp)
    then show "?g (ws ! i) = Some (es ! i)"
      using sound(1-3) by (simp add: ws kv k)
  qed
  then show ?case by (simp add: w list_filter_map_all)
next
  case (2 items mf)
  then obtain ys where w: "w = Array ys" and all: "list_all2 (\<lambda>x y. to_wire x mf = Inr y) items ys"
    by (auto simp: res_simps collect_res_Inr_iff)
  have "map (\<lambda>y. from_wire y mf) ys = items"
  proof (rule nth_equalityI)
    fix i assume "i < length (map (\<lambda>y. from_wire y mf) ys)"
    then have i: "i < length items" using all by (simp add: list_all2_lengthD)
    then show "map (\<lambda>y. from_wire y mf) ys ! i = items ! i"
      using 2(1) [of "items ! i"] 2(2) list_all2_nthD [OF all i] list_all2_lengthD [OF all] by simp
  qed (use all in \<open>simp add: list_all2_lengthD\<close>)
  then show ?case by (simp add: w)
qed auto

lemmas registry_defs = META_def META_ENTRY_def DERIVED_FROM_def JOURNAL_RECORD_def RENAME_def ADDITION_def
  ADDITION_ENTRY_def INDEX_SNAPSHOT_def SNAPSHOT_CONTAINER_def SNAPSHOT_ENTRY_def KEYRING_def
  KEYRING_ELEMENT_def field_def holding_def master_key_epoch_field_def

lemma registry_ok:
  "kind_ok META" "kind_ok JOURNAL_RECORD" "kind_ok INDEX_SNAPSHOT" "kind_ok KEYRING"
  by (simp_all add: registry_defs)

lemma payload_map_ok: "kind_ok (payload_map k)"
  by (cases k) (simp_all add: registry_ok)

end
