(* ===== verification/Cbor_Fields.thy ===== *)
theory Cbor_Fields
  imports Cbor
begin

text \<open>
  \<open>coffret-format/src/control/cbor\<close>: building a payload's map and reading its fields, with the refusal
  each reading names. The CBOR library itself is the parameter \<open>cbor_lib\<close>; \<open>cbor_laws\<close> says what its
  documentation promises: an item is self-delimiting, so that reading stops where writing did (what is
  written fits in a \<open>Vec\<close>, which holds fewer than \<open>2^63\<close> bytes). The lemmas say what each reading accepts, and that a written body is read back as the map it was.
\<close>

record cbor_lib =
  into_writer :: "cbor \<Rightarrow> cbor_failure + byte list"
  from_reader :: "byte list \<Rightarrow> cbor_failure + (cbor \<times> byte list)"

text \<open>The items the code writes: no floats, no tags, integers of the CBOR range.\<close>

fun plain :: "cbor \<Rightarrow> bool" where
  "plain (Integer n) \<longleftrightarrow> - (2 ^ 64) \<le> n \<and> n < 2 ^ 64"
| "plain (Float _) \<longleftrightarrow> False"
| "plain (Tag _ _) \<longleftrightarrow> False"
| "plain (Array vs) \<longleftrightarrow> (\<forall>v \<in> set vs. plain v)"
| "plain (Map kvs) \<longleftrightarrow> (\<forall>(k, v) \<in> set kvs. plain k \<and> plain v)"
| "plain (Bytes _) \<longleftrightarrow> True"
| "plain (Txt _) \<longleftrightarrow> True"
| "plain (Boolean _) \<longleftrightarrow> True"
| "plain Null \<longleftrightarrow> True"

definition cbor_laws :: "cbor_lib \<Rightarrow> bool" where
  "cbor_laws L \<longleftrightarrow>
     (\<forall>v b. into_writer L v = Inr b \<longrightarrow> b \<noteq> [] \<and> length b < 2 ^ 63) \<and>
     (\<forall>v b rest. plain v \<longrightarrow> into_writer L v = Inr b \<longrightarrow> from_reader L (b @ rest) = Inr (v, rest)) \<and>
     (\<forall>bs v rest. from_reader L bs = Inr (v, rest) \<longrightarrow> (\<exists>b. bs = b @ rest))"

section \<open>Building a map\<close>

type_synonym map_builder = "(cbor \<times> cbor) list"

definition mb_value :: "string \<Rightarrow> cbor \<Rightarrow> map_builder \<Rightarrow> map_builder" where
  "mb_value key v m = m @ [(Txt key, v)]"

definition mb_uint :: "string \<Rightarrow> nat \<Rightarrow> map_builder \<Rightarrow> map_builder" where
  "mb_uint key n = mb_value key (Integer (int n))"

definition mb_optional_uint :: "string \<Rightarrow> nat option \<Rightarrow> map_builder \<Rightarrow> map_builder" where
  "mb_optional_uint key v m = (case v of Some n \<Rightarrow> mb_uint key n m | None \<Rightarrow> m)"

definition mb_text :: "string \<Rightarrow> string \<Rightarrow> map_builder \<Rightarrow> map_builder" where
  "mb_text key s = mb_value key (Txt s)"

definition mb_optional_text :: "string \<Rightarrow> string option \<Rightarrow> map_builder \<Rightarrow> map_builder" where
  "mb_optional_text key v m = (case v of Some s \<Rightarrow> mb_text key s m | None \<Rightarrow> m)"

definition mb_bytes :: "string \<Rightarrow> byte list \<Rightarrow> map_builder \<Rightarrow> map_builder" where
  "mb_bytes key bs = mb_value key (Bytes bs)"

definition mb_build :: "map_builder \<Rightarrow> cbor" where
  "mb_build m = Map m"

lemmas map_builder_defs = mb_value_def mb_uint_def mb_text_def mb_bytes_def mb_build_def
  mb_optional_uint_def mb_optional_text_def

section \<open>Reading fields\<close>

fun describe :: "cbor \<Rightarrow> string" where
  "describe (Integer _) = ''an integer''"
| "describe (Bytes _) = ''a byte string''"
| "describe (Float _) = ''a float''"
| "describe (Txt _) = ''text''"
| "describe (Boolean _) = ''a boolean''"
| "describe Null = ''null''"
| "describe (Tag _ _) = ''a tagged item''"
| "describe (Array _) = ''an array''"
| "describe (Map _) = ''a map''"

definition as_bounded_uint :: "cbor \<Rightarrow> nat option" where
  "as_bounded_uint v =
     (case field_number v of Some n \<Rightarrow> if n \<le> max_format_integer then Some n else None | None \<Rightarrow> None)"

record fields =
  f_entries :: "(cbor \<times> cbor) list"
  f_malformed :: "string \<Rightarrow> format_error"

fun fields_of :: "cbor \<Rightarrow> (string \<Rightarrow> format_error) \<Rightarrow> format_error + fields" where
  "fields_of (Map entries) malformed = Ok \<lparr>f_entries = entries, f_malformed = malformed\<rparr>"
| "fields_of v malformed = Err (malformed (describe v @ '' is not a map''))"

definition get_field :: "fields \<Rightarrow> string \<Rightarrow> cbor option" where
  "get_field fs key = map_option snd (find (\<lambda>(name, _). as_text name = Some key) (f_entries fs))"

definition require_field :: "fields \<Rightarrow> string \<Rightarrow> format_error + cbor" where
  "require_field fs key = ok_or (f_malformed fs (key @ '' is missing'')) (get_field fs key)"

definition as_uint :: "fields \<Rightarrow> string \<Rightarrow> cbor \<Rightarrow> format_error + nat" where
  "as_uint fs key v =
     ok_or (let found = (case field_number v of Some n \<Rightarrow> show_nat n | None \<Rightarrow> describe v)
            in f_malformed fs (key @ '' is an unsigned integer below 2^63, found '' @ found))
       (as_bounded_uint v)"

definition uint_field :: "fields \<Rightarrow> string \<Rightarrow> format_error + nat" where
  "uint_field fs key = and_then (require_field fs key) (as_uint fs key)"

definition transpose_opt :: "('e + 'a) option \<Rightarrow> 'e + 'a option" where
  "transpose_opt x = (case x of None \<Rightarrow> Ok None | Some r \<Rightarrow> and_then r (\<lambda>v. Ok (Some v)))"

definition optional_uint_field :: "fields \<Rightarrow> string \<Rightarrow> format_error + nat option" where
  "optional_uint_field fs key = transpose_opt (map_option (as_uint fs key) (get_field fs key))"

text \<open>The two model refusals a bounded number can meet, as they display.\<close>

fun show_out_of_range :: "model_error \<Rightarrow> string" where
  "show_out_of_range (GenerationOutOfRange n) =
     show_nat n @ '' is past the largest generation the format admits''"
| "show_out_of_range (CiphertextLenOutOfRange n) =
     ''a ciphertext length of '' @ show_nat n @ '' is past the largest integer the format admits''"
| "show_out_of_range _ = []"

definition bounded_field :: "fields \<Rightarrow> string \<Rightarrow> model_error + 'a \<Rightarrow> format_error + 'a" where
  "bounded_field fs key v =
     map_err (\<lambda>e. f_malformed fs (key @ '' is no number this schema carries: '' @ show_out_of_range e)) v"

definition generation_field :: "fields \<Rightarrow> string \<Rightarrow> format_error + generation" where
  "generation_field fs key = and_then (uint_field fs key) (\<lambda>n. bounded_field fs key (generation_new n))"

definition optional_generation_field :: "fields \<Rightarrow> string \<Rightarrow> format_error + generation option" where
  "optional_generation_field fs key =
     and_then (optional_uint_field fs key) (\<lambda>v.
       transpose_opt (map_option (\<lambda>n. bounded_field fs key (generation_new n)) v))"

definition ciphertext_len_field :: "fields \<Rightarrow> string \<Rightarrow> format_error + ciphertext_len_claim" where
  "ciphertext_len_field fs key = and_then (uint_field fs key) (\<lambda>n. bounded_field fs key (ciphertext_len_new n))"

definition u16_field :: "fields \<Rightarrow> string \<Rightarrow> format_error + nat" where
  "u16_field fs key =
     and_then (uint_field fs key) (\<lambda>v.
       if v < 2 ^ 16 then Ok v else Err (f_malformed fs (key @ '' is '' @ show_nat v @ '', past 65535'')))"

definition optional_bool_field :: "fields \<Rightarrow> string \<Rightarrow> format_error + bool option" where
  "optional_bool_field fs key =
     transpose_opt (map_option
       (\<lambda>v. case v of Boolean b \<Rightarrow> Ok b
            | _ \<Rightarrow> Err (f_malformed fs (key @ '' is a boolean, found '' @ describe v))) (get_field fs key))"

definition as_text_field :: "fields \<Rightarrow> string \<Rightarrow> cbor \<Rightarrow> format_error + string" where
  "as_text_field fs key v =
     ok_or (f_malformed fs (key @ '' is text, found '' @ describe v)) (as_text v)"

definition text_field :: "fields \<Rightarrow> string \<Rightarrow> format_error + string" where
  "text_field fs key = and_then (require_field fs key) (as_text_field fs key)"

definition optional_text_field :: "fields \<Rightarrow> string \<Rightarrow> format_error + string option" where
  "optional_text_field fs key = transpose_opt (map_option (as_text_field fs key) (get_field fs key))"

definition byte_array_field :: "nat \<Rightarrow> fields \<Rightarrow> string \<Rightarrow> format_error + byte list" where
  "byte_array_field len fs key =
     and_then (require_field fs key) (\<lambda>v.
       case v of
         Bytes bytes \<Rightarrow> if length bytes = len then Ok bytes else Err (Model (InvalidByteLength len (length bytes)))
       | _ \<Rightarrow> Err (f_malformed fs (key @ '' is a byte string, found '' @ describe v)))"

definition array_field :: "fields \<Rightarrow> string \<Rightarrow> format_error + cbor list" where
  "array_field fs key =
     and_then (require_field fs key) (\<lambda>v.
       case v of
         Array items \<Rightarrow> Ok items
       | _ \<Rightarrow> Err (f_malformed fs (key @ '' is an array, found '' @ describe v)))"

definition map_field :: "fields \<Rightarrow> cbor \<Rightarrow> format_error + fields" where
  "map_field fs v = fields_of v (f_malformed fs)"

section \<open>A payload's body\<close>

definition write_body :: "cbor_lib \<Rightarrow> cbor \<Rightarrow> map_fields \<Rightarrow> format_error + byte list" where
  "write_body L v mf =
     and_then (to_wire v mf) (\<lambda>wire. map_err ControlPayloadEncodeFailed (into_writer L wire))"

definition read_body :: "cbor_lib \<Rightarrow> byte list \<Rightarrow> (malformed_detail \<Rightarrow> format_error) \<Rightarrow> map_fields \<Rightarrow> format_error + cbor" where
  "read_body L bytes malformed mf =
     and_then (map_err (\<lambda>e. malformed (Undecodable e)) (from_reader L bytes)) (\<lambda>(v, remaining).
       if remaining \<noteq> []
       then Err (malformed (Written (show_nat (length remaining) @ '' bytes follow the payload map'')))
       else Ok (from_wire v mf))"

lemma to_wire_plain: "plain v \<Longrightarrow> kind_ok mf \<Longrightarrow> to_wire v mf = Inr w \<Longrightarrow> plain w"
proof (induction v mf arbitrary: w rule: to_wire.induct)
  case (1 es mf)
  let ?h = "\<lambda>(name, value).
           case Option.bind (as_text name) (live_by_name mf) of
             None \<Rightarrow> Err (UnregisteredField (map_name mf) (as_text name))
           | Some f \<Rightarrow>
               and_then (case holds f of Some nested \<Rightarrow> to_wire value nested | None \<Rightarrow> Ok value)
                 (\<lambda>value. Ok (Integer (int (number_of f)), value))"
  from 1(4) obtain ws where w: "w = Map ws" and all: "list_all2 (\<lambda>x y. ?h x = Inr y) es ws"
    unfolding to_wire.simps and_then_Inr_iff collect_res_Inr_iff by auto
  have "plain a \<and> plain b" if ab: "(a, b) \<in> set ws" for a b
  proof -
    from ab obtain i where "i < length ws" "ws ! i = (a, b)" by (auto simp: in_set_conv_nth)
    then have i: "i < length es" "ws ! i = (a, b)" using all by (simp_all add: list_all2_lengthD)
    obtain k v where kv: "es ! i = (k, v)" by (cases "es ! i")
    then have mem: "(k, v) \<in> set es" using i by (metis nth_mem)
    then have v: "plain v" using 1(2) by auto
    obtain f n where f: "as_text k = Some n" "live_by_name mf n = Some f" "a = Integer (int (number_of f))"
      and x: "(case holds f of Some nested \<Rightarrow> to_wire v nested | None \<Rightarrow> Inr v) = Inr b"
      using list_all2_nthD [OF all i(1)] i(2) unfolding kv by (auto simp: res_simps bind_eq_Some_conv split: option.splits)
    note sound = live_by_name_sound [OF 1(3) f(2)]
    have "Option.bind (as_text k) (live_by_name mf) = Some f" using f by simp
    then have "plain b"
      using 1(1) [OF mem refl] x v sound(4) by (cases "holds f") auto
    moreover have "plain a" using f(3) sound(3) by simp
    ultimately show ?thesis by simp
  qed
  then show ?case by (auto simp: w)
next
  case (2 items mf)
  then obtain ys where w: "w = Array ys" and all: "list_all2 (\<lambda>x y. to_wire x mf = Inr y) items ys"
    by (auto simp: res_simps collect_res_Inr_iff)
  have "plain y" if "y \<in> set ys" for y
  proof -
    from that obtain i where i: "i < length ys" "ys ! i = y" by (auto simp: in_set_conv_nth)
    then have mem: "items ! i \<in> set items" and wi: "to_wire (items ! i) mf = Inr y"
      using list_all2_nthD2 [OF all i(1)] list_all2_lengthD [OF all] by auto
    have "plain (items ! i)" using 2(2) mem by simp
    then show ?thesis by (rule 2(1) [OF mem _ 2(3) wi])
  qed
  then show ?case by (simp add: w)
qed auto

lemma write_then_read:
  assumes "cbor_laws L" and "kind_ok mf" and "plain v" and "write_body L v mf = Inr b"
  shows "read_body L b malformed mf = Inr v"
proof -
  obtain w where w: "to_wire v mf = Inr w" "into_writer L w = Inr b"
    using assms(4) by (auto simp: write_body_def res_simps)
  have "plain w" using to_wire_plain assms(2,3) w(1) by blast
  then have "from_reader L (b @ []) = Inr (w, [])" using assms(1) w(2) unfolding cbor_laws_def by blast
  then show ?thesis using from_to_wire [OF assms(2) w(1)] by (simp add: read_body_def)
qed

end
