(* ===== verification/Field_Laws.thy ===== *)
theory Field_Laws
  imports Cbor_Fields
begin

text \<open>
  What reading a field of a map that \<open>MapBuilder\<close> built gives: the value the builder was given under that
  name, whichever of the optional fields around it are there. The lemmas are shared by the payloads of
  \<open>coffret-format/src/control\<close>.
\<close>

section \<open>Looking a field up\<close>

definition lookup :: "map_builder \<Rightarrow> string \<Rightarrow> cbor option" where
  "lookup m key = map_option snd (find (\<lambda>(name, _). as_text name = Some key) m)"

lemma get_field_lookup: "get_field fs key = lookup (f_entries fs) key"
  by (simp add: get_field_def lookup_def)

lemma lookup_append: "lookup (a @ b) key = (if lookup a key = None then lookup b key else lookup a key)"
  by (induction a) (auto simp: lookup_def)

lemma lookup_Cons: "lookup ((Txt k, v) # m) key = (if k = key then Some v else lookup m key)"
  by (simp add: lookup_def)

lemma lookup_Nil: "lookup [] key = None"
  by (simp add: lookup_def)

lemma lookup_mb_value:
  "lookup m key = None \<Longrightarrow> lookup (mb_value key v m) key = Some v"
  "k \<noteq> key \<Longrightarrow> lookup (mb_value k v m) key = lookup m key"
  by (simp_all add: mb_value_def lookup_append lookup_Cons lookup_Nil)

lemma lookup_mb_optional_text:
  "lookup m key = None \<Longrightarrow> lookup (mb_optional_text key t m) key = map_option Txt t"
  "k \<noteq> key \<Longrightarrow> lookup (mb_optional_text k t m) key = lookup m key"
  by (cases t; simp add: mb_optional_text_def mb_text_def lookup_mb_value)+

lemma lookup_mb_optional_uint:
  "lookup m key = None \<Longrightarrow> lookup (mb_optional_uint key n m) key = map_option (\<lambda>n. Integer (int n)) n"
  "k \<noteq> key \<Longrightarrow> lookup (mb_optional_uint k n m) key = lookup m key"
  by (cases n; simp add: mb_optional_uint_def mb_uint_def lookup_mb_value)+

lemmas lookup_built = lookup_mb_value lookup_mb_optional_text lookup_mb_optional_uint lookup_Cons lookup_Nil
  mb_uint_def mb_text_def mb_bytes_def

section \<open>Plain maps\<close>

definition plain_map :: "map_builder \<Rightarrow> bool" where
  "plain_map m \<longleftrightarrow> (\<forall>(k, v) \<in> set m. plain k \<and> plain v)"

lemma plain_mb_build: "plain (mb_build m) = plain_map m"
  by (simp add: mb_build_def plain_map_def)

lemma plain_mb_value: "plain_map (mb_value k v m) \<longleftrightarrow> plain_map m \<and> plain v"
  by (auto simp: plain_map_def mb_value_def)

lemma plain_mb_optional:
  "plain_map (mb_optional_text k t m) \<longleftrightarrow> plain_map m"
  "plain_map (mb_optional_uint k n m) \<longleftrightarrow> plain_map m \<and> (\<forall>x. n = Some x \<longrightarrow> x < 2 ^ 64)"
  by (cases t; cases n;
      simp add: mb_optional_text_def mb_text_def mb_optional_uint_def mb_uint_def plain_mb_value)+

lemma plain_map_Nil: "plain_map []"
  by (simp add: plain_map_def)

lemmas plain_built = plain_mb_build plain_mb_value plain_mb_optional plain_map_Nil mb_uint_def mb_text_def mb_bytes_def

section \<open>Reading a field\<close>

lemma as_uint_read: "n \<le> max_format_integer \<Longrightarrow> as_uint fs key (Integer (int n)) = Inr n"
  by (simp add: as_uint_def as_bounded_uint_def max_format_integer_def)

lemma uint_read:
  assumes "get_field fs key = Some (Integer (int n))" and "n \<le> max_format_integer"
  shows "uint_field fs key = Inr n"
  using assms by (simp add: uint_field_def require_field_def as_uint_read)

lemma optional_uint_read:
  assumes "get_field fs key = map_option (\<lambda>n. Integer (int n)) v" and "\<forall>n. v = Some n \<longrightarrow> n \<le> max_format_integer"
  shows "optional_uint_field fs key = Inr v"
  using assms by (cases v) (simp_all add: optional_uint_field_def transpose_opt_def as_uint_read)

lemma generation_read:
  assumes "get_field fs key = Some (Integer (int (gen g)))" and "generation_ok g"
  shows "generation_field fs key = Inr g"
  using assms uint_read [OF assms(1)]
  by (cases g) (simp add: generation_field_def bounded_field_def generation_new_def generation_ok_def)

lemma optional_generation_read:
  assumes "get_field fs key = map_option (\<lambda>n. Integer (int n)) (map_option gen v)"
    and "\<forall>g. v = Some g \<longrightarrow> generation_ok g"
  shows "optional_generation_field fs key = Inr v"
proof -
  have "optional_uint_field fs key = Inr (map_option gen v)"
    by (rule optional_uint_read [OF assms(1)]) (use assms(2) in \<open>auto simp: generation_ok_def\<close>)
  then show ?thesis
    using assms(2)
    by (cases v)
      (auto simp: optional_generation_field_def transpose_opt_def bounded_field_def generation_new_def generation_ok_def)
qed

lemma ciphertext_len_read:
  assumes "get_field fs key = Some (Integer (int (claimed c)))" and "claimed c \<le> max_format_integer"
  shows "ciphertext_len_field fs key = Inr c"
  using assms uint_read [OF assms]
  by (cases c) (simp add: ciphertext_len_field_def bounded_field_def ciphertext_len_new_def)

lemma u16_read:
  assumes "get_field fs key = Some (Integer (int n))" and "n < 2 ^ 16"
  shows "u16_field fs key = Inr n"
  using uint_read [OF assms(1)] assms(2) by (simp add: u16_field_def max_format_integer_def)

lemma text_read: "get_field fs key = Some (Txt s) \<Longrightarrow> text_field fs key = Inr s"
  by (simp add: text_field_def require_field_def as_text_field_def)

lemma optional_text_read: "get_field fs key = map_option Txt v \<Longrightarrow> optional_text_field fs key = Inr v"
  by (cases v) (simp_all add: optional_text_field_def transpose_opt_def as_text_field_def)

lemma byte_array_read:
  "get_field fs key = Some (Bytes b) \<Longrightarrow> length b = n \<Longrightarrow> byte_array_field n fs key = Inr b"
  by (simp add: byte_array_field_def require_field_def)

lemma array_read: "get_field fs key = Some (Array items) \<Longrightarrow> array_field fs key = Inr items"
  by (simp add: array_field_def require_field_def)

section \<open>What a read value satisfies\<close>

lemma generation_field_ok: "generation_field fs key = Inr g \<Longrightarrow> generation_ok g"
  by (auto simp: generation_field_def bounded_field_def and_then_Inr_iff map_err_Inr_iff generation_new_def
      generation_ok_def split: if_splits)

lemma u16_field_ok: "u16_field fs key = Inr n \<Longrightarrow> n < 2 ^ 16"
  by (auto simp: u16_field_def and_then_Inr_iff split: if_splits)

section \<open>A registered map has a wire form\<close>

lemma to_wire_Map_total:
  assumes "\<And>k v. (k, v) \<in> set m \<Longrightarrow> \<exists>name f. k = Txt name \<and> live_by_name mf name = Some f \<and>
    (\<forall>nested. holds f = Some nested \<longrightarrow> (\<exists>w. to_wire v nested = Inr w))"
  shows "\<exists>w. to_wire (Map m) mf = Inr w"
proof -
  let ?h = "\<lambda>(name, value).
           case Option.bind (as_text name) (live_by_name mf) of
             None \<Rightarrow> Err (UnregisteredField (map_name mf) (as_text name))
           | Some f \<Rightarrow>
               and_then (case holds f of Some nested \<Rightarrow> to_wire value nested | None \<Rightarrow> Ok value)
                 (\<lambda>value. Ok (Integer (int (number_of f)), value))"
  have "\<exists>ys. collect_res ?h m = Inr ys"
  proof (rule collect_res_total)
    fix x assume x: "x \<in> set m"
    obtain k v where kv: "x = (k, v)" by (cases x)
    from assms x kv obtain name f where f: "k = Txt name" "live_by_name mf name = Some f"
      "\<forall>nested. holds f = Some nested \<longrightarrow> (\<exists>w. to_wire v nested = Inr w)" by blast
    then show "\<exists>y. ?h x = Inr y" by (cases "holds f") (auto simp: kv)
  qed
  then show ?thesis by auto
qed

lemma to_wire_Array_total:
  "(\<And>v. v \<in> set vs \<Longrightarrow> \<exists>w. to_wire v mf = Inr w) \<Longrightarrow> \<exists>w. to_wire (Array vs) mf = Inr w"
  using collect_res_total [of vs "\<lambda>item. to_wire item mf"] by auto

text \<open>A map whose every entry is registered, entry by entry.\<close>

definition registered :: "map_fields \<Rightarrow> map_builder \<Rightarrow> bool" where
  "registered mf m \<longleftrightarrow> (\<forall>(k, v) \<in> set m. \<exists>name f. k = Txt name \<and> live_by_name mf name = Some f \<and>
     (\<forall>nested. holds f = Some nested \<longrightarrow> (\<exists>w. to_wire v nested = Inr w)))"

lemma registered_to_wire: "registered mf m \<Longrightarrow> \<exists>w. to_wire (mb_build m) mf = Inr w"
  unfolding mb_build_def by (rule to_wire_Map_total) (fastforce simp: registered_def)

lemma registered_Nil: "registered mf []"
  by (simp add: registered_def)

lemma registered_Cons: "registered mf ((Txt k, v) # m) \<longleftrightarrow>
    (\<exists>f. live_by_name mf k = Some f \<and> (\<forall>nested. holds f = Some nested \<longrightarrow> (\<exists>w. to_wire v nested = Inr w))) \<and> registered mf m"
  by (auto simp: registered_def)

lemma registered_append: "registered mf (a @ b) \<longleftrightarrow> registered mf a \<and> registered mf b"
  by (simp add: registered_def ball_Un)

lemma registered_mb_value: "registered mf (mb_value k v m) \<longleftrightarrow>
    (\<exists>f. live_by_name mf k = Some f \<and> (\<forall>nested. holds f = Some nested \<longrightarrow> (\<exists>w. to_wire v nested = Inr w))) \<and> registered mf m"
  by (auto simp: registered_def mb_value_def)

lemma registered_mb_optional:
  "registered mf m \<Longrightarrow> (t \<noteq> None \<Longrightarrow> \<exists>f. live_by_name mf k = Some f \<and> holds f = None) \<Longrightarrow> registered mf (mb_optional_text k t m)"
  "registered mf m \<Longrightarrow> (n \<noteq> None \<Longrightarrow> \<exists>f. live_by_name mf k = Some f \<and> holds f = None) \<Longrightarrow> registered mf (mb_optional_uint k n m)"
  by (cases t; cases n;
      fastforce simp: mb_optional_text_def mb_text_def mb_optional_uint_def mb_uint_def registered_mb_value)+

text \<open>A payload translated to its field numbers and back is the payload, for every control object's map and
  the meta section's.\<close>

lemma field_numbers_roundtrip:
  assumes "mf = META \<or> mf = payload_map k" and "to_wire v mf = Inr w"
  shows "from_wire w mf = v"
  using assms registry_ok payload_map_ok by (auto intro: from_to_wire)

end
