(* ===== verification/Keyring_Payload.thy ===== *)
theory Keyring_Payload
  imports Cbor_Fields
begin

text \<open>
  \<open>coffret-format/src/control/keyring\<close>: a key table as the body of a Keyring replica's payload, and the
  digest its set is named by. A table written is the table read back; what is read is always in its
  canonical order, so no reordered or repeated mapping is accepted.
\<close>

record control_payload =
  pl_epoch :: master_key_epoch
  pl_body :: "byte list"

definition keyring_schema :: nat where
  "keyring_schema = 1"

definition malformed_keyring :: "string \<Rightarrow> format_error" where
  "malformed_keyring detail = MalformedKeyringReplica (Written detail)"

definition element_value :: "keyring_element \<Rightarrow> cbor" where
  "element_value e =
     (let m = mb_bytes ''id'' (as_bytes (el_container e)) [];
          m = (case el_key e of
                 Envelope envelope \<Rightarrow> mb_bytes ''envelope'' (envelope_bytes envelope) m
               | KeyLost \<Rightarrow> mb_value ''key_lost'' (Boolean True) m)
      in mb_build m)"

definition mapping_value :: "key_table \<Rightarrow> cbor" where
  "mapping_value t = Array (map element_value (elements t))"

definition keyring_encode :: "cbor_lib \<Rightarrow> key_table \<Rightarrow> master_key_epoch \<Rightarrow> format_error + control_payload" where
  "keyring_encode L t e =
     (let m = mb_value ''mapping'' (mapping_value t) (mb_uint ''schema'' keyring_schema [])
      in and_then (write_body L (mb_build m) KEYRING) (\<lambda>body. Ok \<lparr>pl_epoch = e, pl_body = body\<rparr>))"

definition keyring_element_of :: "nat \<Rightarrow> fields \<Rightarrow> format_error + keyring_element" where
  "keyring_element_of i fs =
     and_then (byte_array_field container_id_byte_len fs ''id'') (\<lambda>id_bytes.
     and_then (case get_field fs ''envelope'' of
                 Some _ \<Rightarrow> and_then (byte_array_field key_envelope_byte_len fs ''envelope'')
                             (\<lambda>b. Ok (Some (KeyEnvelope b)))
               | None \<Rightarrow> Ok None) (\<lambda>envelope.
     and_then (optional_bool_field fs ''key_lost'') (\<lambda>marker.
       if marker = Some False then Err (KeyringElementMarkerNotTrue i)
       else (case (envelope, marker \<noteq> None) of
               (Some envelope, False) \<Rightarrow>
                 Ok \<lparr>el_container = ContainerId id_bytes, el_key = Envelope envelope\<rparr>
             | (None, True) \<Rightarrow> Ok \<lparr>el_container = ContainerId id_bytes, el_key = KeyLost\<rparr>
             | (Some _, True) \<Rightarrow> Err (KeyringElementWithEnvelopeAndMarker i)
             | (None, False) \<Rightarrow> Err (KeyringElementWithoutEnvelopeOrMarker i)))))"

definition keyring_refused :: "model_error \<Rightarrow> format_error" where
  "keyring_refused e =
     (case e of CollectionOutOfCanonicalOrder collection i \<Rightarrow> ControlPayloadOutOfOrder collection i
      | other \<Rightarrow> Model other)"

definition keyring_decode :: "cbor_lib \<Rightarrow> control_payload \<Rightarrow> format_error + key_table" where
  "keyring_decode L payload =
     and_then (read_body L (pl_body payload) MalformedKeyringReplica KEYRING) (\<lambda>v.
     and_then (fields_of v malformed_keyring) (\<lambda>fs.
     and_then (uint_field fs ''schema'') (\<lambda>schema.
       if schema < keyring_schema then Err (UnsupportedKeyringReplicaSchema schema)
       else and_then (array_field fs ''mapping'') (\<lambda>items.
            and_then (collect_res (\<lambda>(i, item). and_then (map_field fs item) (keyring_element_of i))
                        (enumerate 0 items)) (\<lambda>els.
              map_err keyring_refused (key_table_new els))))))"

text \<open>\<open>set_digest\<close>; \<open>blake3\<close> is the hash library's.\<close>

definition digest_input :: "cbor_lib \<Rightarrow> key_table \<Rightarrow> format_error + byte list" where
  "digest_input L t = write_body L (mapping_value t) KEYRING_ELEMENT"

definition set_digest :: "cbor_lib \<Rightarrow> (byte list \<Rightarrow> byte list) \<Rightarrow> key_table \<Rightarrow> format_error + string" where
  "set_digest L blake3 t = and_then (digest_input L t) (\<lambda>b. Ok (hex_encode (blake3 b)))"

section \<open>A table written is read back\<close>

definition element_ok :: "keyring_element \<Rightarrow> bool" where
  "element_ok e \<longleftrightarrow> container_id_ok (el_container e) \<and>
     (\<forall>k. el_key e = Envelope k \<longrightarrow> length (envelope_bytes k) = key_envelope_byte_len)"

definition key_table_ok :: "key_table \<Rightarrow> bool" where
  "key_table_ok t \<longleftrightarrow> sorted_wrt (<) (map el_container (elements t)) \<and> (\<forall>e \<in> set (elements t). element_ok e)"

lemma element_plain: "plain (element_value e)"
  by (cases "el_key e") (simp_all add: element_value_def Let_def map_builder_defs)

lemma element_read:
  assumes "element_ok e" and "f_malformed fs = malformed_keyring"
  shows "and_then (map_field fs (element_value e)) (keyring_element_of i) = Inr e"
proof (cases "el_key e")
  case (Envelope k)
  with assms show ?thesis
    by (cases e; cases k)
      (simp add: element_value_def Let_def map_builder_defs map_field_def keyring_element_of_def byte_array_field_def
        require_field_def get_field_def element_ok_def container_id_ok_def optional_bool_field_def transpose_opt_def)
next
  case KeyLost
  with assms show ?thesis
    by (cases e)
      (simp add: element_value_def Let_def map_builder_defs map_field_def keyring_element_of_def byte_array_field_def
        require_field_def get_field_def element_ok_def container_id_ok_def optional_bool_field_def transpose_opt_def)
qed

lemma element_to_wire: "\<exists>w. to_wire (element_value e) KEYRING_ELEMENT = Inr w"
  by (cases "el_key e")
    (simp_all add: element_value_def Let_def map_builder_defs registry_defs live_by_name_def)

lemma mapping_to_wire: "\<exists>w. to_wire (mapping_value t) KEYRING_ELEMENT = Inr w"
proof -
  have "\<exists>ws. collect_res (\<lambda>item. to_wire item KEYRING_ELEMENT) (map element_value (elements t)) = Inr ws"
    by (rule collect_res_total) (use element_to_wire in auto)
  then show ?thesis by (auto simp: mapping_value_def)
qed

lemma keyring_map_plain: "plain (mb_build (mb_value ''mapping'' (mapping_value t) (mb_uint ''schema'' keyring_schema [])))"
  by (auto simp: map_builder_defs mapping_value_def element_plain keyring_schema_def)

text \<open>The registry has every field of a table, so writing one can only fail in the CBOR library.\<close>

lemma keyring_encode_refused:
  assumes "keyring_encode L t e = Inl err"
  shows "\<exists>c. err = ControlPayloadEncodeFailed c"
proof -
  let ?v = "mb_build (mb_value ''mapping'' (mapping_value t) (mb_uint ''schema'' keyring_schema []))"
  obtain w where "to_wire (mapping_value t) KEYRING_ELEMENT = Inr w" using mapping_to_wire by blast
  then have "to_wire ?v KEYRING = Inr (Map [(Integer 1, Integer 1), (Integer 2, w)])"
    by (simp add: map_builder_defs keyring_schema_def KEYRING_def live_by_name_def field_def holding_def)
  then show ?thesis
    using assms by (auto simp: keyring_encode_def Let_def write_body_def and_then_Inl_iff map_err_Inl_iff)
qed

lemma keyring_decode_encode:
  assumes "cbor_laws L" and "key_table_ok t" and "keyring_encode L t e = Inr p"
  shows "keyring_decode L p = Inr t"
proof -
  let ?v = "mb_build (mb_value ''mapping'' (mapping_value t) (mb_uint ''schema'' keyring_schema []))"
  let ?fs = "\<lparr>f_entries = [(Txt ''schema'', Integer 1), (Txt ''mapping'', mapping_value t)], f_malformed = malformed_keyring\<rparr>"
  have "write_body L ?v KEYRING = Inr (pl_body p)"
    using assms(3) by (auto simp: keyring_encode_def Let_def res_simps)
  then have "read_body L (pl_body p) MalformedKeyringReplica KEYRING = Inr ?v"
    using write_then_read [OF assms(1) registry_ok(4) keyring_map_plain] by blast
  moreover have "collect_res (\<lambda>(i, item). and_then (map_field ?fs item) (keyring_element_of i))
      (enumerate 0 (map element_value (elements t))) = Inr (elements t)"
    unfolding collect_res_Inr_iff
    by (rule list_all2_all_nthI)
      (use assms(2) in \<open>auto simp: nth_enumerate_eq key_table_ok_def element_read\<close>)
  moreover have "key_table_new (elements t) = Inr t"
    using assms(2) by (cases t) (simp add: key_table_new_Ok_iff key_table_ok_def)
  ultimately show ?thesis
    by (simp add: keyring_decode_def map_builder_defs keyring_schema_def uint_field_def require_field_def get_field_def
        as_uint_def as_bounded_uint_def max_format_integer_def array_field_def mapping_value_def)
qed

text \<open>Nothing but a canonical table is ever read.\<close>

lemma byte_array_field_length: "byte_array_field n fs key = Inr b \<Longrightarrow> length b = n"
proof -
  assume "byte_array_field n fs key = Inr b"
  then obtain v where "(case v of Bytes bytes \<Rightarrow> if length bytes = n then Ok bytes else Err (Model (InvalidByteLength n (length bytes)))
       | _ \<Rightarrow> Err (f_malformed fs (key @ '' is a byte string, found '' @ describe v))) = Inr b"
    unfolding byte_array_field_def and_then_Inr_iff by blast
  then show ?thesis by (cases v) (auto split: if_splits)
qed

lemma keyring_element_of_ok:
  assumes "keyring_element_of i fs = Inr e"
  shows "element_ok e"
proof -
  obtain b env marker where "byte_array_field container_id_byte_len fs ''id'' = Inr b"
    and env: "(case get_field fs ''envelope'' of
                 Some _ \<Rightarrow> and_then (byte_array_field key_envelope_byte_len fs ''envelope'')
                             (\<lambda>b. Ok (Some (KeyEnvelope b)))
               | None \<Rightarrow> Ok None) = Inr env"
    and e: "(if marker = Some False then Err (KeyringElementMarkerNotTrue i)
       else (case (env, marker \<noteq> None) of
               (Some envelope, False) \<Rightarrow>
                 Ok \<lparr>el_container = ContainerId b, el_key = Envelope envelope\<rparr>
             | (None, True) \<Rightarrow> Ok \<lparr>el_container = ContainerId b, el_key = KeyLost\<rparr>
             | (Some _, True) \<Rightarrow> Err (KeyringElementWithEnvelopeAndMarker i)
             | (None, False) \<Rightarrow> Err (KeyringElementWithoutEnvelopeOrMarker i))) = Inr e"
    using assms unfolding keyring_element_of_def and_then_Inr_iff by blast
  then have "length b = container_id_byte_len" using byte_array_field_length by blast
  moreover have "length (envelope_bytes k) = key_envelope_byte_len" if "env = Some k" for k
    using env that by (auto simp: res_simps byte_array_field_length split: option.splits)
  ultimately show ?thesis
    using e by (cases env; cases marker; cases "marker = Some False") (auto simp: element_ok_def container_id_ok_def)
qed

lemma keyring_decode_ok: "keyring_decode L p = Inr t \<Longrightarrow> key_table_ok t"
proof -
  assume "keyring_decode L p = Inr t"
  then obtain v fs schema where body: "(if schema < keyring_schema then Err (UnsupportedKeyringReplicaSchema schema)
       else and_then (array_field fs ''mapping'') (\<lambda>items.
            and_then (collect_res (\<lambda>(i, item). and_then (map_field fs item) (keyring_element_of i))
                        (enumerate 0 items)) (\<lambda>els.
              map_err keyring_refused (key_table_new els)))) = Inr t"
    unfolding keyring_decode_def and_then_Inr_iff by blast
  have "\<not> schema < keyring_schema"
  proof
    assume "schema < keyring_schema"
    with body show False by (simp only: if_True sum.distinct)
  qed
  then obtain items els where
    els: "collect_res (\<lambda>(i, item). and_then (map_field fs item) (keyring_element_of i)) (enumerate 0 items) = Inr els"
    and t: "key_table_new els = Inr t"
    using body by (simp only: if_False and_then_Inr_iff map_err_Inr_iff) blast
  have "element_ok e" if "e \<in> set els" for e
  proof -
    from collect_res_mem [OF els that]
    obtain x where "(case x of (i, item) \<Rightarrow> and_then (map_field fs item) (keyring_element_of i)) = Inr e"
      by blast
    then show ?thesis by (cases x) (auto simp: res_simps keyring_element_of_ok)
  qed
  with t show ?thesis by (simp add: key_table_new_Ok_iff key_table_ok_def)
qed

end
