(* ===== verification/Container_Header.thy ===== *)
theory Container_Header
  imports Format_Errors
begin

text \<open>
  \<open>coffret-format/src\<close> \<open>header.rs\<close>, \<open>chunk_size.rs\<close>, \<open>nonce.rs\<close> and \<open>purpose.rs\<close>: the fixed front of a
  Container object, the nonces its sections are sealed under, and the purposes keys are derived for.
  A header that parses is the encoding of what was parsed; no two messages of one Container share a
  nonce, and a final chunk's nonce is no other chunk's.
\<close>

datatype chunk_size = ChunkSize (chunk_bytes: nat)

definition chunk_size_default :: chunk_size where
  "chunk_size_default = ChunkSize (1024 * 1024)"

definition chunk_size_new :: "nat \<Rightarrow> format_error + chunk_size" where
  "chunk_size_new bytes = (if bytes = 0 then Err InvalidChunkSize else Ok (ChunkSize bytes))"

definition chunk_size_ok :: "chunk_size \<Rightarrow> bool" where
  "chunk_size_ok s \<longleftrightarrow> 0 < chunk_bytes s \<and> chunk_bytes s < 2 ^ 32"

record header =
  h_container :: container_id
  h_chunk_size :: chunk_size
  h_meta_len :: nat

definition header_len :: nat where
  "header_len = 32"

definition header_magic :: "byte list" where
  "header_magic = [0x43, 0x46, 0x52, 0x54, 0x31]"

definition header_version :: byte where
  "header_version = 0x01"

definition max_meta_len :: nat where
  "max_meta_len = 64 * 1024 * 1024"

definition header_to_bytes :: "header \<Rightarrow> byte list" where
  "header_to_bytes h =
     (let bytes = replicate header_len 0;
          bytes = blit 0 header_magic bytes;
          bytes = bytes[5 := header_version];
          bytes = blit 8 (as_bytes (h_container h)) bytes;
          bytes = blit 24 (be_bytes 4 (chunk_bytes (h_chunk_size h))) bytes;
          bytes = blit 28 (be_bytes 4 (h_meta_len h)) bytes
      in bytes)"

definition header_parse :: "byte list \<Rightarrow> format_error + header" where
  "header_parse object =
     (if length object < header_len then Err (HeaderTooShort (length object))
      else let bytes = take header_len object;
               magic = slice 0 5 bytes;
               version = bytes ! 5
           in if magic \<noteq> header_magic then Err (UnknownMagic magic)
              else if version \<noteq> header_version then Err (UnsupportedVersion version)
              else if (\<exists>b \<in> set (slice 6 8 bytes). b \<noteq> 0) then Err ReservedNotZero
              else and_then (chunk_size_new (from_be (slice 24 28 bytes))) (\<lambda>chunk_size.
                   let meta_len = from_be (slice 28 32 bytes)
                   in if meta_len > max_meta_len then Err (MetaSectionTooLong meta_len max_meta_len)
                      else Ok \<lparr>h_container = ContainerId (slice 8 24 bytes), h_chunk_size = chunk_size,
                               h_meta_len = meta_len\<rparr>))"

definition header_ok :: "header \<Rightarrow> bool" where
  "header_ok h \<longleftrightarrow> container_id_ok (h_container h) \<and> chunk_size_ok (h_chunk_size h) \<and> h_meta_len h \<le> max_meta_len"

lemma chunk_size_new_Ok_iff [res_simps]: "chunk_size_new n = Inr s \<longleftrightarrow> 0 < n \<and> s = ChunkSize n"
  by (auto simp: chunk_size_new_def)

lemma header_to_bytes_eq:
  assumes "container_id_ok (h_container h)"
  shows "header_to_bytes h = header_magic @ [header_version] @ [0, 0] @ as_bytes (h_container h) @
    be_bytes 4 (chunk_bytes (h_chunk_size h)) @ be_bytes 4 (h_meta_len h)"
  using assms unfolding header_to_bytes_def Let_def header_len_def filled_Nil [of 32]
  by (simp add: header_magic_def blit_filled update_filled filled_0 container_id_ok_def
      container_id_byte_len_def numeral_2_eq_2)

lemma length_header_to_bytes [simp]: "container_id_ok (h_container h) \<Longrightarrow> length (header_to_bytes h) = header_len"
  by (simp add: header_to_bytes_eq header_magic_def header_len_def container_id_ok_def container_id_byte_len_def)

lemma header_fields:
  assumes "length bytes = 32"
  shows "bytes = slice 0 5 bytes @ [bytes ! 5] @ slice 6 8 bytes @ slice 8 24 bytes @ slice 24 28 bytes @ slice 28 32 bytes"
proof -
  have "bytes = slice 0 32 bytes" using assms by (simp add: slice_take)
  also have "\<dots> = slice 0 5 bytes @ slice 5 6 bytes @ slice 6 8 bytes @ slice 8 24 bytes @ slice 24 28 bytes @ slice 28 32 bytes"
    by (simp add: slice_split [of 0 5 32] slice_split [of 5 6 32] slice_split [of 6 8 32]
        slice_split [of 8 24 32] slice_split [of 24 28 32])
  also have "slice 5 6 bytes = [bytes ! 5]"
    using slice_single [of 5 bytes] assms by simp
  finally show ?thesis .
qed

lemma from_be_32: "length bs = 4 \<Longrightarrow> from_be bs < 2 ^ 32 \<and> be_bytes 4 (from_be bs) = bs"
  using from_be_bound [of bs] be_bytes_from_be [of bs] by simp

lemma be_bytes_32: "n < 2 ^ 32 \<Longrightarrow> from_be (be_bytes 4 n) = n"
  by simp

text \<open>What parses is exactly an object whose front is a header's encoding.\<close>

lemma header_parse_sound:
  assumes "header_parse object = Inr h"
  shows "header_len \<le> length object \<and> take header_len object = header_to_bytes h \<and> header_ok h"
proof -
  define bytes where "bytes = take header_len object"
  have long: "\<not> length object < header_len" using assms by (auto simp: header_parse_def)
  then have len: "length bytes = 32" by (simp add: bytes_def header_len_def)
  have p: "slice 0 5 bytes = header_magic" "bytes ! 5 = header_version" "\<forall>b \<in> set (slice 6 8 bytes). b = 0"
    "0 < from_be (slice 24 28 bytes)" "from_be (slice 28 32 bytes) \<le> max_meta_len"
    and h: "h = \<lparr>h_container = ContainerId (slice 8 24 bytes), h_chunk_size = ChunkSize (from_be (slice 24 28 bytes)),
               h_meta_len = from_be (slice 28 32 bytes)\<rparr>"
    using assms long
    by (auto simp: header_parse_def Let_def bytes_def [symmetric] res_simps split: if_splits)
  have r: "slice 6 8 bytes = [0, 0]"
    using p(3) len replicate_eqI [of "slice 6 8 bytes" 2 0] by (simp add: numeral_2_eq_2)
  have be: "be_bytes 4 (from_be (slice 24 28 bytes)) = slice 24 28 bytes"
    "be_bytes 4 (from_be (slice 28 32 bytes)) = slice 28 32 bytes" "from_be (slice 24 28 bytes) < 2 ^ 32"
    using from_be_32 len by simp_all
  have id: "container_id_ok (h_container h)"
    using len by (simp add: h container_id_ok_def container_id_byte_len_def)
  have "header_to_bytes h = bytes"
    using header_fields [OF len] unfolding header_to_bytes_eq [OF id] by (simp add: h be p r)
  moreover have "header_ok h"
    using id be p by (simp add: header_ok_def h chunk_size_ok_def)
  ultimately show ?thesis using long by (simp add: bytes_def)
qed

lemma header_slices:
  assumes "container_id_ok (h_container h)"
  shows "slice 0 5 (header_to_bytes h) = header_magic" and "header_to_bytes h ! 5 = header_version"
    and "slice 6 8 (header_to_bytes h) = [0, 0]" and "slice 8 24 (header_to_bytes h) = as_bytes (h_container h)"
    and "slice 24 28 (header_to_bytes h) = be_bytes 4 (chunk_bytes (h_chunk_size h))"
    and "slice 28 32 (header_to_bytes h) = be_bytes 4 (h_meta_len h)"
  using assms
  by (simp_all add: header_to_bytes_eq slice_def header_magic_def container_id_ok_def container_id_byte_len_def
      nth_append)

lemma header_parse_complete:
  assumes "header_ok h"
  shows "header_parse (header_to_bytes h @ rest) = Inr h"
proof -
  have ok: "container_id_ok (h_container h)" "0 < chunk_bytes (h_chunk_size h)" "chunk_bytes (h_chunk_size h) < 2 ^ 32"
      "h_meta_len h \<le> max_meta_len" "h_meta_len h < 2 ^ 32"
    using assms by (auto simp: header_ok_def chunk_size_ok_def max_meta_len_def)
  then have "take header_len (header_to_bytes h @ rest) = header_to_bytes h" by simp
  then show ?thesis
    using ok by (simp add: header_parse_def Let_def header_slices be_bytes_32 chunk_size_new_def)
qed

lemma header_parse_iff:
  "header_parse object = Inr h \<longleftrightarrow> header_ok h \<and> (\<exists>rest. object = header_to_bytes h @ rest)"
  using header_parse_sound [of object h] header_parse_complete [of h]
  by (metis append_take_drop_id)

text \<open>On exactly the header's bytes, it is a canonical codec.\<close>

definition header_exact :: "byte list \<Rightarrow> format_error + header" where
  "header_exact bytes = (if length bytes > header_len then Err Truncated else header_parse bytes)"

interpretation header_codec: canonical_codec header_to_bytes header_exact header_ok
proof
  fix h assume "header_ok h"
  then show "header_exact (header_to_bytes h) = Inr h"
    using header_parse_complete [of h "[]"] by (simp add: header_exact_def header_ok_def)
next
  fix w h assume "header_exact w = Inr h"
  then have "header_parse w = Inr h" "length w \<le> header_len" by (auto simp: header_exact_def split: if_splits)
  with header_parse_sound [of w h] show "header_to_bytes h = w" "header_ok h" by auto
qed

section \<open>Nonces\<close>

definition nonce_len :: nat where
  "nonce_len = 24"

definition domain_meta :: byte where "domain_meta = 0x01"
definition domain_chunk :: byte where "domain_chunk = 0x02"
definition domain_final_chunk :: byte where "domain_final_chunk = 0x03"

definition nonce_build :: "byte \<Rightarrow> nat \<Rightarrow> byte list" where
  "nonce_build d counter =
     (let nonce = replicate nonce_len 0;
          nonce = nonce[0 := d];
          nonce = blit 1 (be_bytes 8 counter) nonce
      in nonce)"

definition nonce_meta :: "byte list" where
  "nonce_meta = nonce_build domain_meta 0"

definition nonce_chunk :: "nat \<Rightarrow> bool \<Rightarrow> byte list" where
  "nonce_chunk i is_final =
     (let d = (if is_final then domain_final_chunk else domain_chunk) in nonce_build d i)"

lemma nonce_build_eq: "nonce_build d n = d # be_bytes 8 n @ replicate 15 0"
  unfolding nonce_build_def Let_def nonce_len_def filled_Nil [of 24]
  by (simp add: blit_filled update_filled) (simp add: filled_def)

lemma length_nonce_build [simp]: "length (nonce_build d n) = nonce_len"
  by (simp add: nonce_build_eq nonce_len_def)

lemma be_bytes_inject: "m < 256 ^ k \<Longrightarrow> n < 256 ^ k \<Longrightarrow> be_bytes k m = be_bytes k n \<longleftrightarrow> m = n"
  by (metis from_be_be_bytes_small)

lemma nonce_build_inject:
  "m < 2 ^ 64 \<Longrightarrow> n < 2 ^ 64 \<Longrightarrow> nonce_build d m = nonce_build e n \<longleftrightarrow> d = e \<and> m = n"
  using be_bytes_inject [of m 8 n] by (simp add: nonce_build_eq)

lemma nonce_chunk_inject:
  "i < 2 ^ 64 \<Longrightarrow> j < 2 ^ 64 \<Longrightarrow> nonce_chunk i f = nonce_chunk j g \<longleftrightarrow> i = j \<and> f = g"
  by (auto simp: nonce_chunk_def nonce_build_inject domain_chunk_def domain_final_chunk_def)

lemma nonce_meta_not_chunk: "i < 2 ^ 64 \<Longrightarrow> nonce_meta \<noteq> nonce_chunk i f"
  by (auto simp: nonce_meta_def nonce_chunk_def nonce_build_inject domain_meta_def domain_chunk_def
      domain_final_chunk_def)

section \<open>Purposes\<close>

fun purpose_info :: "purpose \<Rightarrow> string" where
  "purpose_info ContainerWrap = ''coffret/v1/container-wrap''"
| "purpose_info ControlJournal = ''coffret/v1/control/journal''"
| "purpose_info ControlKeyring = ''coffret/v1/control/keyring''"
| "purpose_info ControlIndexSnapshot = ''coffret/v1/control/index-snapshot''"
| "purpose_info ControlActivationSnapshot = ''coffret/v1/control/activation-snapshot''"
| "purpose_info TokenCache = ''coffret/v1/token-cache''"
| "purpose_info AccountCacheWrap = ''coffret/v1/account-cache-wrap''"

fun of_control_object :: "control_object_kind \<Rightarrow> purpose" where
  "of_control_object Journal = ControlJournal"
| "of_control_object Keyring = ControlKeyring"
| "of_control_object IndexSnapshot = ControlIndexSnapshot"
| "of_control_object ActivationSnapshot = ControlActivationSnapshot"

text \<open>A key derived for one purpose is derived for no other: the labels differ, and so do the kinds'.\<close>

lemma purpose_info_inj: "purpose_info p = purpose_info q \<Longrightarrow> p = q"
  by (cases p; cases q) simp_all

lemma of_control_object_inj: "of_control_object k = of_control_object l \<Longrightarrow> k = l"
  by (cases k; cases l) simp_all

end
