(* ===== verification/Cipher.thy ===== *)
theory Cipher
  imports Container_Header
begin

text \<open>
  \<open>coffret-format/src\<close> \<open>aead.rs\<close>, \<open>purpose_key.rs\<close> and \<open>key_envelope.rs\<close>: sealing a section into an
  object, opening it again, the keys derived for one purpose each, and the envelope a Container Key is
  stored in. The cipher (XChaCha20-Poly1305) is the parameter \<open>aead\<close>; \<open>aead_laws\<close> says what its
  documentation promises: decryption undoes encryption, accepts nothing else, and neither changes the
  length of the text.
\<close>

record aead =
  encrypt :: "byte list \<Rightarrow> byte list \<Rightarrow> byte list \<Rightarrow> byte list \<Rightarrow> (byte list \<times> byte list) option"
  decrypt :: "byte list \<Rightarrow> byte list \<Rightarrow> byte list \<Rightarrow> byte list \<Rightarrow> byte list \<Rightarrow> byte list option"

definition tag_length :: nat where
  "tag_length = 16"

definition key_length :: nat where
  "key_length = 32"

definition aead_laws :: "aead \<Rightarrow> bool" where
  "aead_laws A \<longleftrightarrow>
     (\<forall>k n ad p c t. encrypt A k n ad p = Some (c, t) \<longrightarrow> length c = length p \<and> length t = tag_length) \<and>
     (\<forall>k n ad p c t. length t = tag_length \<longrightarrow>
        (decrypt A k n ad c t = Some p \<longleftrightarrow> encrypt A k n ad p = Some (c, t)))"

text \<open>\<open>out\<close> is what the object holds before and after.\<close>

definition seal :: "aead \<Rightarrow> byte list \<Rightarrow> byte list \<Rightarrow> byte list \<Rightarrow> byte list \<Rightarrow> byte list \<Rightarrow> format_error + byte list" where
  "seal A key nonce associated_data plaintext out =
     (case encrypt A key nonce associated_data plaintext of
        None \<Rightarrow> Err AuthenticationFailed
      | Some (ciphertext, tag) \<Rightarrow> Ok (out @ ciphertext @ tag))"

definition open_message :: "aead \<Rightarrow> byte list \<Rightarrow> byte list \<Rightarrow> byte list \<Rightarrow> byte list \<Rightarrow> format_error + byte list" where
  "open_message A key nonce associated_data message =
     and_then (ok_or Truncated (checked_sub64 (length message) tag_length)) (\<lambda>split.
       ok_or AuthenticationFailed
         (decrypt A key nonce associated_data (take split message) (drop split message)))"

lemma seal_length:
  assumes "aead_laws A" and "seal A k n ad p out = Inr out'"
  shows "\<exists>m. out' = out @ m \<and> length m = length p + tag_length \<and> open_message A k n ad m = Inr p"
proof -
  obtain c t where e: "encrypt A k n ad p = Some (c, t)" and o: "out' = out @ c @ t"
    using assms(2) by (auto simp: seal_def split: option.splits)
  have l: "length c = length p" "length t = tag_length" using e assms(1) unfolding aead_laws_def by blast+
  then have "decrypt A k n ad c t = Some p" using e assms(1) unfolding aead_laws_def by blast
  with o l show ?thesis by (intro exI [of _ "c @ t"]) (simp add: open_message_def checked_sub64_def)
qed

text \<open>What opens is what would be sealed, and nothing else.\<close>

lemma open_message_iff:
  assumes "aead_laws A"
  shows "open_message A k n ad m = Inr p \<longleftrightarrow> seal A k n ad p [] = Inr m"
proof
  assume "open_message A k n ad m = Inr p"
  then have "tag_length \<le> length m"
    and d: "decrypt A k n ad (take (length m - tag_length) m) (drop (length m - tag_length) m) = Some p"
    by (auto simp: open_message_def res_simps checked_sub64_Some_iff)
  moreover from this have "length (drop (length m - tag_length) m) = tag_length" by simp
  ultimately have "encrypt A k n ad p = Some (take (length m - tag_length) m, drop (length m - tag_length) m)"
    using assms unfolding aead_laws_def by blast
  then show "seal A k n ad p [] = Inr m" by (simp add: seal_def)
next
  assume "seal A k n ad p [] = Inr m"
  then show "open_message A k n ad m = Inr p" using seal_length [OF assms] by fastforce
qed

lemma seal_out: "seal A k n ad p out = Inr out' \<longleftrightarrow> (\<exists>m. seal A k n ad p [] = Inr m \<and> out' = out @ m)"
  by (auto simp: seal_def split: option.splits)

lemma seal_inject: "aead_laws A \<Longrightarrow> seal A k n ad p [] = Inr m \<Longrightarrow> seal A k n ad q [] = Inr m \<Longrightarrow> p = q"
  by (metis open_message_iff sum.inject(2))

lemma open_message_length:
  "aead_laws A \<Longrightarrow> open_message A k n ad m = Inr p \<Longrightarrow> length m = length p + tag_length"
  using seal_length [of A k n ad p "[]" m] by (auto simp: open_message_iff)

section \<open>Purpose keys\<close>

record purpose_key =
  pk_purpose :: purpose
  pk_bytes :: "byte list"

text \<open>\<open>hkdf master info\<close> is HKDF-SHA-256, extract and expand to 32 bytes.\<close>

definition derive :: "(byte list \<Rightarrow> string \<Rightarrow> byte list) \<Rightarrow> byte list \<Rightarrow> purpose \<Rightarrow> purpose_key" where
  "derive hkdf master_key purpose = \<lparr>pk_purpose = purpose, pk_bytes = hkdf master_key (purpose_info purpose)\<rparr>"

definition require_purpose :: "purpose_key \<Rightarrow> purpose \<Rightarrow> format_error + byte list" where
  "require_purpose key expected =
     (if pk_purpose key \<noteq> expected then Err (WrongPurposeKey expected (pk_purpose key)) else Ok (pk_bytes key))"

lemma require_purpose_Ok_iff [res_simps]:
  "require_purpose key p = Inr b \<longleftrightarrow> pk_purpose key = p \<and> b = pk_bytes key"
  by (auto simp: require_purpose_def)

section \<open>The envelope of a Container Key\<close>

datatype container_key = ContainerKey (key_bytes: "byte list")

text \<open>\<open>drawn\<close> is what the system's entropy source answers: a fresh nonce, or its refusal.\<close>

definition wrap_container_key ::
  "aead \<Rightarrow> format_error + byte list \<Rightarrow> purpose_key \<Rightarrow> container_id \<Rightarrow> container_key \<Rightarrow> format_error + key_envelope" where
  "wrap_container_key A drawn key c ck =
     and_then (require_purpose key ContainerWrap) (\<lambda>k.
     and_then drawn (\<lambda>nonce.
     and_then (seal A k nonce (as_bytes c) (key_bytes ck) nonce) (\<lambda>envelope.
       map_err Model (key_envelope_from_slice envelope))))"

definition unwrap_container_key ::
  "aead \<Rightarrow> purpose_key \<Rightarrow> container_id \<Rightarrow> key_envelope \<Rightarrow> format_error + container_key" where
  "unwrap_container_key A key c envelope =
     and_then (require_purpose key ContainerWrap) (\<lambda>k.
       let bytes = envelope_bytes envelope;
           nonce = take nonce_len bytes
       in and_then (open_message A k nonce (as_bytes c) (drop nonce_len bytes)) (\<lambda>plaintext.
            Ok (ContainerKey plaintext)))"

lemma unwrap_wrap:
  assumes "aead_laws A" and "\<And>n. drawn = Inr n \<Longrightarrow> length n = nonce_len"
    and "wrap_container_key A drawn key c ck = Inr env"
  shows "unwrap_container_key A key c env = Inr ck"
proof -
  obtain n out where p: "pk_purpose key = ContainerWrap" and n: "drawn = Inr n"
    and s: "seal A (pk_bytes key) n (as_bytes c) (key_bytes ck) n = Inr out" and e: "env = KeyEnvelope out"
    using assms(3) by (auto simp: wrap_container_key_def res_simps key_envelope_from_slice_def split: if_splits)
  from seal_length [OF assms(1) s] obtain m where m: "out = n @ m"
    "open_message A (pk_bytes key) n (as_bytes c) m = Inr (key_bytes ck)" by auto
  then show ?thesis
    using assms(2) [OF n] p by (simp add: unwrap_container_key_def e require_purpose_def Let_def)
qed

text \<open>The \<open>expect\<close> of \<open>unwrap_container_key\<close>: an envelope's length leaves exactly a key.\<close>

lemma unwrap_length:
  assumes "aead_laws A" and "length (envelope_bytes env) = key_envelope_byte_len"
    and "unwrap_container_key A key c env = Inr ck"
  shows "length (key_bytes ck) = key_length"
proof -
  obtain k where "open_message A k (take nonce_len (envelope_bytes env)) (as_bytes c)
      (drop nonce_len (envelope_bytes env)) = Inr (key_bytes ck)"
    using assms(3) by (auto simp: unwrap_container_key_def Let_def res_simps)
  from open_message_length [OF assms(1) this] assms(2) show ?thesis
    by (simp add: key_envelope_byte_len_def nonce_len_def tag_length_def key_length_def)
qed

end
