(* ===== verification/Padme.thy ===== *)
theory Padme
  imports Prelude
begin

text \<open>
  The padding rule of \<open>coffret-format/src/padme.rs\<close>: the length a plaintext is padded to, computed on
  a 64-bit word with shifts and masks, and its reading as rounding up to a multiple of a power of
  two. The lemmas show the bounds of the overhead, that a padded length is a fixed point (which is
  what lets a reader hold a padded payload to its bucket), and that padding keeps the order.
\<close>

unbundle bit_operations_syntax

section \<open>The code\<close>

text \<open>\<open>u64::leading_zeros\<close>: the bits above the highest set one.\<close>

definition leading_zeros :: "64 word \<Rightarrow> nat" where
  "leading_zeros v = length (takeWhile (\<lambda>i. \<not> bit v i) (rev [0..<64]))"

definition floor_log2 :: "64 word \<Rightarrow> nat" where
  "floor_log2 v = 64 - 1 - leading_zeros v"

definition padded_len :: "64 word \<Rightarrow> 64 word" where
  "padded_len unpadded =
     (if unpadded < 2 then unpadded
      else let e = floor_log2 unpadded;
               s = floor_log2 (word_of_nat e) + 1
           in if e \<le> s then unpadded
              else let mask = push_bit (e - s) 1 - 1
                   in if unat unpadded + unat mask < 2 ^ 64
                      then (unpadded + mask) AND NOT mask
                      else unpadded)"

text \<open>The same function as the callers see it, on the \<open>u64\<close> they hold as a number.\<close>

definition padded_len_u64 :: "nat \<Rightarrow> nat" where
  "padded_len_u64 n = unat (padded_len (word_of_nat n))"

section \<open>The highest set bit\<close>

lemma unat_u64_less: "unat (v :: 64 word) < 2 ^ 64"
proof -
  have "unat v < 2 ^ LENGTH(64)" by (rule unsigned_less)
  then show ?thesis by simp
qed

lemma bit_of_bounds:
  fixes v :: "64 word"
  assumes "2 ^ k \<le> unat v" and "unat v < 2 ^ Suc k"
  shows "bit v k \<longleftrightarrow> k < 64" and "k < i \<Longrightarrow> \<not> bit v i"
proof -
  have bit: "bit v i \<longleftrightarrow> i < 64 \<and> odd (unat v div 2 ^ i)" for i
    by (simp add: bit_word_unat)
  have "unat v div 2 ^ k = 1"
    using assms by (intro div_nat_eqI) auto
  then show "bit v k \<longleftrightarrow> k < 64"
    unfolding bit by simp
  assume "k < i"
  then have "(2::nat) ^ Suc k \<le> 2 ^ i" by (intro power_increasing) auto
  with assms(2) have "unat v div 2 ^ i = 0" by simp
  then show "\<not> bit v i" unfolding bit by simp
qed

lemma floor_log2_unique:
  assumes "2 ^ k \<le> unat v" and "unat v < 2 ^ Suc k"
  shows "floor_log2 v = k"
proof -
  have "(2::nat) ^ k < 2 ^ 64"
    using assms(1) unat_u64_less [of v] by linarith
  then have k: "k < 64"
    by (rule power_less_imp_less_exp [rotated]) simp
  then have split: "[0..<64] = [0..<k] @ k # [Suc k..<64]"
    using upt_add_eq_append [of 0 k "64 - k"] by (simp add: upt_conv_Cons)
  have "takeWhile (\<lambda>i. \<not> bit v i) (rev [0..<64]) = rev [Suc k..<64]"
    unfolding split rev_append rev.simps append_assoc
    using bit_of_bounds [OF assms] k by (subst takeWhile_append2) auto
  then have "leading_zeros v = 63 - k"
    by (simp add: leading_zeros_def)
  with k show ?thesis by (simp add: floor_log2_def)
qed

lemma floor_log2_bounds:
  assumes "v \<noteq> 0"
  shows "2 ^ floor_log2 v \<le> unat v" and "unat v < 2 ^ Suc (floor_log2 v)"
proof -
  have "0 < unat v" using assms by (simp add: unat_gt_0)
  then obtain k where "2 ^ k \<le> unat v" "unat v < 2 ^ (k + 1)"
    using ex_power_ivl1 [of 2 "unat v"] by auto
  then show "2 ^ floor_log2 v \<le> unat v" and "unat v < 2 ^ Suc (floor_log2 v)"
    using floor_log2_unique [of k v] by auto
qed

lemma floor_log2_less: "floor_log2 v < 64"
  by (simp add: floor_log2_def)

section \<open>The rule as arithmetic\<close>

text \<open>
  The width of the granule a length is rounded up to: \<open>2 ^ (E - S)\<close> with \<open>E\<close> the exponent of the
  length and \<open>S\<close> the number of bits \<open>E\<close> itself takes; 1 where no rounding applies.
\<close>

fun nlog2 :: "nat \<Rightarrow> nat" where
  "nlog2 n = (if n < 2 then 0 else Suc (nlog2 (n div 2)))"

declare nlog2.simps [simp del]

definition granule :: "nat \<Rightarrow> nat" where
  "granule n = 2 ^ (nlog2 n - Suc (nlog2 (nlog2 n)))"

definition padme_spec :: "nat \<Rightarrow> nat" where
  "padme_spec n = div_ceil n (granule n) * granule n"

lemma nlog2_bounds: "0 < n \<Longrightarrow> 2 ^ nlog2 n \<le> n \<and> n < 2 ^ Suc (nlog2 n)"
proof (induction n rule: nlog2.induct)
  case (1 n)
  show ?case
  proof (cases "n < 2")
    case True
    with 1 show ?thesis by (simp add: nlog2.simps)
  next
    case False
    with 1 have "2 ^ nlog2 (n div 2) \<le> n div 2 \<and> n div 2 < 2 ^ Suc (nlog2 (n div 2))" by simp
    with False show ?thesis by (subst (1 2) nlog2.simps) auto
  qed
qed

lemma nlog2_unique: "2 ^ k \<le> n \<Longrightarrow> n < 2 ^ Suc k \<Longrightarrow> nlog2 n = k"
proof (induction n arbitrary: k rule: nlog2.induct)
  case (1 n k)
  show ?case
  proof (cases "n < 2")
    case True
    with "1.prems" have "(2::nat) ^ k < 2 ^ 1" by simp
    then have "k < 1" by (rule power_less_imp_less_exp [rotated]) simp
    then have "k = 0" by simp
    with True show ?thesis by (simp add: nlog2.simps)
  next
    case False
    then obtain j where k: "k = Suc j"
      using "1.prems" by (cases k) auto
    with "1.prems" have "2 ^ j \<le> n div 2" "n div 2 < 2 ^ Suc j" by auto
    with "1.IH" False have "nlog2 (n div 2) = j" by simp
    with False k show ?thesis by (subst nlog2.simps) simp
  qed
qed

lemma nlog2_mono: "m \<le> n \<Longrightarrow> nlog2 m \<le> nlog2 n"
proof (cases "m = 0")
  case False
  assume le: "m \<le> n"
  have "2 ^ nlog2 m \<le> m" using nlog2_bounds False by simp
  also have "m < 2 ^ Suc (nlog2 n)"
    using nlog2_bounds [of n] False le by simp
  finally have "nlog2 m < Suc (nlog2 n)" by (rule power_less_imp_less_exp [rotated]) simp
  then show ?thesis by simp
qed (simp add: nlog2.simps)

lemma floor_log2_nlog2: "v \<noteq> 0 \<Longrightarrow> floor_log2 v = nlog2 (unat v)"
  using floor_log2_bounds by (intro nlog2_unique [symmetric]) auto

lemma granule_pos [simp]: "0 < granule n"
  by (simp add: granule_def)

lemma padme_spec_bounds: "n \<le> padme_spec n" and padme_spec_less: "padme_spec n < n + granule n"
  using div_ceil_bounds [of "granule n" n] by (auto simp: padme_spec_def)

lemma padme_spec_dvd: "granule n dvd padme_spec n"
  by (simp add: padme_spec_def)

lemma granule_zero [simp]: "granule 0 = 1"
  by (simp add: granule_def nlog2.simps [of 0])

lemma granule_le: "0 < n \<Longrightarrow> granule n \<le> n"
proof -
  assume "0 < n"
  have "granule n \<le> 2 ^ nlog2 n"
    by (simp add: granule_def)
  also have "\<dots> \<le> n" using nlog2_bounds \<open>0 < n\<close> by simp
  finally show ?thesis .
qed

text \<open>The code computes exactly that, wherever the rounded length still fits in 64 bits.\<close>

lemma unat_mask_word: "k < 64 \<Longrightarrow> unat (push_bit k 1 - 1 :: 64 word) = 2 ^ k - 1"
proof -
  assume k: "k < 64"
  have "(2::nat) ^ k < 2 ^ 64" using k by (intro power_strict_increasing) auto
  then have "unat (push_bit k 1 :: 64 word) = 2 ^ k"
    by (subst unsigned_push_bit_eq) (simp add: push_bit_eq_mult take_bit_eq_mod)
  moreover from this have "(push_bit k 1 :: 64 word) \<noteq> 0" by (metis unat_0 power_not_zero zero_neq_numeral)
  ultimately show ?thesis by (metis unat_minus_one)
qed

lemma unat_and_not_mask:
  "unat ((w :: 64 word) AND NOT (push_bit k 1 - 1)) = unat w div 2 ^ k * 2 ^ k"
proof -
  have "w AND NOT (push_bit k 1 - 1) = push_bit k (drop_bit k w)"
    by (rule bit_word_eqI) (auto simp: bit_simps push_bit_of_1 mask_eq_decr_exp [symmetric])
  also have "unat \<dots> = unat w div 2 ^ k * 2 ^ k"
  proof -
    have "unat w div 2 ^ k * 2 ^ k \<le> unat w" by simp
    also have "\<dots> < 2 ^ 64" by (rule unat_u64_less)
    finally show ?thesis
      using unat_u64_less [of w]
      by (subst unsigned_push_bit_eq, subst unsigned_drop_bit_eq)
        (simp add: push_bit_eq_mult drop_bit_eq_div take_bit_eq_mod)
  qed
  finally show ?thesis .
qed

lemma padded_len_eq_spec:
  assumes "unat v + granule (unat v) \<le> 2 ^ 64"
  shows "unat (padded_len v) = padme_spec (unat v)"
proof (cases "v < 2")
  case True
  then have "unat v < 2" by (simp add: word_less_nat_alt)
  then have "padme_spec (unat v) = unat v"
    by (simp add: padme_spec_def granule_def nlog2.simps div_ceil_def)
  with True show ?thesis by (simp add: padded_len_def)
next
  case False
  define n e where "n = unat v" and "e = nlog2 n"
  have n: "2 \<le> n" using False by (simp add: word_less_nat_alt n_def)
  then have "v \<noteq> 0" by (auto simp: n_def)
  then have e: "floor_log2 v = e" by (simp add: floor_log2_nlog2 e_def n_def)
  have "e \<noteq> 0" using n unfolding e_def by (subst nlog2.simps) simp
  have "e < 64" using floor_log2_less [of v] e by simp
  then have unat_e: "unat (word_of_nat e :: 64 word) = e" by (simp add: unat_of_nat)
  then have "(word_of_nat e :: 64 word) \<noteq> 0" using \<open>e \<noteq> 0\<close> by (metis unat_0)
  then have s: "floor_log2 (word_of_nat e) + 1 = Suc (nlog2 e)"
    by (simp add: floor_log2_nlog2 unat_e)
  show ?thesis
  proof (cases "e \<le> Suc (nlog2 e)")
    case True
    then have "padme_spec n = n"
      by (simp add: padme_spec_def granule_def e_def div_ceil_def)
    with True False e s show ?thesis by (simp add: padded_len_def n_def)
  next
    case wide: False
    define k where "k = e - Suc (nlog2 e)"
    have g: "granule n = 2 ^ k" by (simp add: granule_def k_def e_def)
    have "k < 64" using \<open>e < 64\<close> by (simp add: k_def)
    define mask :: "64 word" where "mask = push_bit k 1 - 1"
    have mask: "unat mask = 2 ^ k - 1" unfolding mask_def by (rule unat_mask_word) fact
    have "0 < (2::nat) ^ k" by simp
    then have fits: "unat v + unat mask < 2 ^ 64"
      using assms mask g by (simp add: n_def)
    then have sum: "unat (v + mask) = n + (2 ^ k - 1)"
      by (simp add: unat_word_ariths mask n_def)
    have "padded_len v = (v + mask) AND NOT mask"
      using False wide fits e s unfolding padded_len_def Let_def e s
      by (simp add: mask_def k_def)
    then have "unat (padded_len v) = (n + (2 ^ k - 1)) div 2 ^ k * 2 ^ k"
      by (simp only: mask_def unat_and_not_mask) (simp only: sum [unfolded mask_def])
    then show ?thesis
      by (simp only: div_ceil_alt zero_less_power zero_less_numeral padme_spec_def g n_def [symmetric])
  qed
qed

section \<open>What the rule promises\<close>

lemma padme_spec_le_power: "0 < n \<Longrightarrow> padme_spec n \<le> 2 ^ Suc (nlog2 n)"
proof -
  assume "0 < n"
  have "n \<le> 2 ^ Suc (nlog2 n)" using nlog2_bounds \<open>0 < n\<close> by (simp add: less_imp_le)
  moreover have "granule n dvd 2 ^ Suc (nlog2 n)"
    by (simp add: granule_def le_imp_power_dvd)
  then obtain q where q: "2 ^ Suc (nlog2 n) = q * granule n" by (metis dvd_def mult.commute)
  ultimately have "n \<le> q * granule n" by simp
  then have "padme_spec n < (q + 1) * granule n"
    using padme_spec_less [of n] by simp
  then have "div_ceil n (granule n) < q + 1"
    unfolding padme_spec_def by (simp only: mult_less_cancel2)
  then show ?thesis unfolding q padme_spec_def by simp
qed

lemma granule_dvd_fixed: "granule n dvd n \<Longrightarrow> padme_spec n = n"
  by (auto simp: padme_spec_def div_ceil_def elim!: dvdE)

lemma padme_spec_fixed: "padme_spec (padme_spec n) = padme_spec n"
proof (cases "n = 0")
  case True
  then show ?thesis by (simp add: padme_spec_def)
next
  case False
  define m where "m = padme_spec n"
  have le: "n \<le> m" "m \<le> 2 ^ Suc (nlog2 n)"
    using padme_spec_bounds padme_spec_le_power False by (auto simp: m_def)
  have "granule m dvd m"
  proof (cases "m = 2 ^ Suc (nlog2 n)")
    case True
    then have "nlog2 m = Suc (nlog2 n)" by (intro nlog2_unique) auto
    with True show ?thesis by (simp add: granule_def le_imp_power_dvd)
  next
    case False
    with le nlog2_bounds [of n] \<open>n \<noteq> 0\<close> have "nlog2 m = nlog2 n" by (intro nlog2_unique) auto
    then have "granule m = granule n" by (simp add: granule_def)
    then show ?thesis by (simp add: m_def padme_spec_dvd)
  qed
  then show ?thesis unfolding m_def by (rule granule_dvd_fixed)
qed

lemma div_ceil_mono: "0 < g \<Longrightarrow> a \<le> b \<Longrightarrow> div_ceil a g \<le> div_ceil b g"
  by (simp add: div_ceil_alt [symmetric] div_le_mono)

lemma padme_spec_mono: "a \<le> b \<Longrightarrow> padme_spec a \<le> padme_spec b"
proof -
  assume le: "a \<le> b"
  consider "a = 0" | "nlog2 a = nlog2 b" | "0 < a" "nlog2 a < nlog2 b"
    using nlog2_mono [OF le] by linarith
  then show ?thesis
  proof cases
    case 1
    then show ?thesis by (simp add: padme_spec_def)
  next
    case 2
    then have "granule a = granule b" by (simp add: granule_def)
    then show ?thesis by (simp add: padme_spec_def div_ceil_mono le)
  next
    case 3
    have "padme_spec a \<le> 2 ^ Suc (nlog2 a)" using 3 by (intro padme_spec_le_power)
    also have "\<dots> \<le> 2 ^ nlog2 b" using 3 by (intro power_increasing) auto
    also have "\<dots> \<le> b" using nlog2_bounds [of b] 3 le by simp
    also have "\<dots> \<le> padme_spec b" by (rule padme_spec_bounds)
    finally show ?thesis .
  qed
qed

lemma granule_times_exponent: "0 < n \<Longrightarrow> granule n = 1 \<or> granule n * nlog2 n < n"
proof -
  assume "0 < n"
  define e where "e = nlog2 n"
  have "e < 2 ^ Suc (nlog2 e)"
    using nlog2_bounds [of e] by (cases "e = 0") auto
  moreover have "granule n * 2 ^ Suc (nlog2 e) = 2 ^ e" if "Suc (nlog2 e) < e"
    using that by (simp add: granule_def e_def flip: power_add power_Suc)
  moreover have "2 ^ e \<le> n" using nlog2_bounds \<open>0 < n\<close> by (simp add: e_def)
  moreover have "granule n = 1" if "\<not> Suc (nlog2 e) < e"
    using that by (simp add: granule_def e_def)
  ultimately show ?thesis
    by (metis e_def granule_pos less_le_trans mult_less_mono2)
qed

lemma padme_spec_overhead: "0 < n \<Longrightarrow> (padme_spec n - n) * nlog2 n < n"
proof -
  assume "0 < n"
  have "padme_spec n - n < granule n" using padme_spec_less [of n] padme_spec_bounds [of n] by linarith
  then have "padme_spec n - n \<le> granule n - 1" by simp
  then have "(padme_spec n - n) * nlog2 n \<le> (granule n - 1) * nlog2 n" by (rule mult_le_mono1)
  with granule_times_exponent [OF \<open>0 < n\<close>] \<open>0 < n\<close> show ?thesis
    by (auto simp: diff_mult_distrib)
qed

lemma nlog2_small:
  "nlog2 0 = 0" "nlog2 1 = 0" "nlog2 2 = 1" "nlog2 3 = 1" "nlog2 4 = 2" "nlog2 5 = 2"
  "nlog2 6 = 2" "nlog2 7 = 2" "nlog2 8 = 3"
proof -
  show "nlog2 0 = 0" by (simp add: nlog2.simps [of 0])
qed (rule nlog2_unique; simp)+

lemma granule_overhead: "100 * (2 ^ (e - Suc (nlog2 e)) - 1) \<le> 12 * (2 ^ e + (1::nat))"
proof (cases "8 \<le> e")
  case True
  have "3 \<le> nlog2 e" using nlog2_mono [OF True] by (simp add: nlog2_small)
  then have "(2::nat) ^ (e - Suc (nlog2 e)) \<le> 2 ^ (e - 4)" by (intro power_increasing) auto
  then have "100 * ((2::nat) ^ (e - Suc (nlog2 e)) - 1) \<le> 100 * 2 ^ (e - 4)"
    by (intro mult_le_mono2) (meson diff_le_self le_trans)
  moreover have "(2::nat) ^ e = 16 * 2 ^ (e - 4)"
    using True power_add [of "2::nat" 4 "e - 4"] by simp
  then have "100 * 2 ^ (e - 4) \<le> 12 * (2 ^ e + (1::nat))" by simp
  ultimately show ?thesis by (rule le_trans)
next
  case False
  then consider "e = 0" | "e = 1" | "e = 2" | "e = 3" | "e = 4" | "e = 5" | "e = 6" | "e = 7"
    by linarith
  then show ?thesis by cases (simp_all add: nlog2_small nlog2_small(2) [unfolded One_nat_def])
qed

text \<open>The bound the source's comment names: at most about 12 percent.\<close>

lemma padme_spec_percent: "100 * (padme_spec n - n) \<le> 12 * n"
proof (cases "granule n dvd n")
  case True
  then show ?thesis by (simp add: granule_dvd_fixed)
next
  case False
  then have "n \<noteq> 0" by (intro notI) simp
  have "2 ^ nlog2 n \<le> n" using nlog2_bounds \<open>n \<noteq> 0\<close> by simp
  moreover have "2 ^ nlog2 n \<noteq> n"
    using False by (metis granule_def le_imp_power_dvd diff_le_self)
  ultimately have "2 ^ nlog2 n + 1 \<le> n" by simp
  moreover have "padme_spec n - n \<le> granule n - 1"
    using padme_spec_less [of n] padme_spec_bounds [of n] by linarith
  moreover have "100 * (granule n - 1) \<le> 12 * (2 ^ nlog2 n + 1)"
    using granule_overhead [of "nlog2 n"] by (simp add: granule_def)
  ultimately have "100 * (padme_spec n - n) \<le> 12 * (2 ^ nlog2 n + 1)" "2 ^ nlog2 n + 1 \<le> n"
    by auto
  then show ?thesis by (meson le_trans mult_le_mono2)
qed

text \<open>Inside the integers the format admits, the code never takes its overflow branch.\<close>

lemma padded_len_u64_eq: "n < 2 ^ 63 \<Longrightarrow> padded_len_u64 n = padme_spec n"
proof -
  assume n: "n < 2 ^ 63"
  then have "unat (word_of_nat n :: 64 word) = n" by (simp add: unat_of_nat)
  moreover have "n + granule n \<le> 2 ^ 64"
    using n granule_le [of n] by (cases "n = 0") auto
  ultimately show ?thesis
    using padded_len_eq_spec [of "word_of_nat n"] by (simp add: padded_len_u64_def)
qed

lemma padme_spec_below_2_63: "n < 2 ^ 63 \<Longrightarrow> padme_spec n \<le> 2 ^ 63"
proof (cases "n = 0")
  case False
  assume n: "n < 2 ^ 63"
  have "2 ^ nlog2 n \<le> n" using nlog2_bounds False by simp
  with n have "(2::nat) ^ nlog2 n < 2 ^ 63" by simp
  then have "nlog2 n < 63" by (rule power_less_imp_less_exp [rotated]) simp
  then have "(2::nat) ^ Suc (nlog2 n) \<le> 2 ^ 63" by (intro power_increasing) auto
  with padme_spec_le_power [of n] False show ?thesis by simp
qed (simp add: padme_spec_def)

lemma padded_len_u64_ge: "n < 2 ^ 63 \<Longrightarrow> n \<le> padded_len_u64 n"
  by (simp add: padded_len_u64_eq padme_spec_bounds)

lemma padded_len_u64_zero [simp]: "padded_len_u64 0 = 0"
  by (simp add: padded_len_u64_eq padme_spec_def)

end
