(* ===== verification/Meta_Section.thy ===== *)
theory Meta_Section
  imports Cbor_Fields Cipher Padme
begin

text \<open>
  \<open>coffret-format/src/meta\<close>, \<open>stream_extent.rs\<close> and \<open>container_footprint.rs\<close>' use of them: the entry
  table a Container carries, written and read. The serde derivations of the wire structures are
  written out (\<open>ser_meta\<close>) and their inverse is the library's, a parameter with \<open>serde_laws\<close>. The lemma
  is the round trip: a table that tiles is read back as it was written, whatever the padding.
\<close>

section \<open>The wire structures\<close>

record wire_derived_from =
  wd_container :: "byte list"
  wd_captured_path :: string

record wire_meta_entry =
  wm_captured_path :: string
  wm_offset :: nat
  wm_size :: nat
  wm_captured_mtime :: int
  wm_captured_btime :: "int option"
  wm_hash :: "byte list"
  wm_derived_from :: "wire_derived_from option"
  wm_mime :: "string option"

datatype wire_kind = WireOneFile | WirePack

fun wire_of_kind :: "container_kind \<Rightarrow> wire_kind" where
  "wire_of_kind OneFile = WireOneFile"
| "wire_of_kind Pack = WirePack"

fun kind_of_wire :: "wire_kind \<Rightarrow> container_kind" where
  "kind_of_wire WireOneFile = OneFile"
| "kind_of_wire WirePack = Pack"

fun kind_spelling :: "wire_kind \<Rightarrow> string" where
  "kind_spelling WireOneFile = ''one-file''"
| "kind_spelling WirePack = ''pack''"

definition kind_parse :: "string \<Rightarrow> wire_kind option" where
  "kind_parse s = (if s = ''one-file'' then Some WireOneFile else if s = ''pack'' then Some WirePack else None)"

record wire_meta =
  wm_schema :: nat
  wm_kind :: wire_kind
  wm_pad_len :: nat
  wm_entries :: "wire_meta_entry list"

text \<open>\<open>#[derive(Serialize)]\<close>: the fields in their order, an absent option left out.\<close>

definition opt_field :: "string \<Rightarrow> ('a \<Rightarrow> cbor) \<Rightarrow> 'a option \<Rightarrow> (cbor \<times> cbor) list" where
  "opt_field name f v = (case v of None \<Rightarrow> [] | Some x \<Rightarrow> [(Txt name, f x)])"

definition ser_derived_from :: "wire_derived_from \<Rightarrow> cbor" where
  "ser_derived_from d =
     Map [(Txt ''container_id'', Bytes (wd_container d)), (Txt ''captured_path'', Txt (wd_captured_path d))]"

definition ser_meta_entry :: "wire_meta_entry \<Rightarrow> cbor" where
  "ser_meta_entry e =
     Map ([(Txt ''captured_path'', Txt (wm_captured_path e)), (Txt ''offset'', Integer (int (wm_offset e))),
           (Txt ''size'', Integer (int (wm_size e))), (Txt ''captured_mtime'', Integer (wm_captured_mtime e))]
          @ opt_field ''captured_btime'' Integer (wm_captured_btime e)
          @ [(Txt ''hash'', Bytes (wm_hash e))]
          @ opt_field ''derived_from'' ser_derived_from (wm_derived_from e)
          @ opt_field ''mime'' Txt (wm_mime e))"

definition ser_meta :: "wire_meta \<Rightarrow> cbor" where
  "ser_meta m =
     Map [(Txt ''schema'', Integer (int (wm_schema m))), (Txt ''kind'', Txt (kind_spelling (wm_kind m))),
          (Txt ''pad_len'', Integer (int (wm_pad_len m))), (Txt ''entries'', Array (map ser_meta_entry (wm_entries m)))]"

text \<open>\<open>de\<close> is the derived \<open>Deserialize\<close> of \<open>WireMeta\<close>.\<close>

definition wire_entry_ok :: "wire_meta_entry \<Rightarrow> bool" where
  "wire_entry_ok e \<longleftrightarrow> wm_offset e < 2 ^ 64 \<and> wm_size e < 2 ^ 64 \<and>
     - (2 ^ 63) \<le> wm_captured_mtime e \<and> wm_captured_mtime e < 2 ^ 63 \<and>
     (\<forall>b. wm_captured_btime e = Some b \<longrightarrow> - (2 ^ 63) \<le> b \<and> b < 2 ^ 63)"

definition wire_meta_ok :: "wire_meta \<Rightarrow> bool" where
  "wire_meta_ok m \<longleftrightarrow> wm_schema m < 2 ^ 64 \<and> wm_pad_len m < 2 ^ 64 \<and> (\<forall>e \<in> set (wm_entries m). wire_entry_ok e)"

definition serde_laws :: "(cbor \<Rightarrow> cbor_failure + wire_meta) \<Rightarrow> bool" where
  "serde_laws de \<longleftrightarrow> (\<forall>m. wire_meta_ok m \<longrightarrow> de (ser_meta m) = Inr m)"

section \<open>Reading paths and extents\<close>

definition stored_path :: "(string \<Rightarrow> bool) \<Rightarrow> string \<Rightarrow> string \<Rightarrow> format_error + entry_path" where
  "stored_path is_nfc text fname =
     map_err (\<lambda>e. case e of
         UnnormalizedEntryPath _ \<Rightarrow> FmtUnnormalizedEntryPath fname
       | MalformedEntryPath _ _ \<Rightarrow> FmtMalformedEntryPath fname
       | other \<Rightarrow> Model other) (entry_path_stored is_nfc text)"

definition extent_refusal :: "model_error \<Rightarrow> format_error" where
  "extent_refusal e = (case e of ExtentPastTheAddressSpace _ _ \<Rightarrow> StreamTooLong | other \<Rightarrow> Model other)"

definition stream_extent :: "nat \<Rightarrow> nat \<Rightarrow> format_error + entry_extent" where
  "stream_extent off sz = map_err extent_refusal (extent_new off sz)"

definition extent_after :: "entry_extent \<Rightarrow> nat \<Rightarrow> format_error + entry_extent" where
  "extent_after previous sz = map_err extent_refusal (extent_following previous sz)"

lemma stream_extent_Ok_iff [res_simps]:
  "stream_extent off sz = Inr x \<longleftrightarrow> x = \<lparr>offset = off, extent_size = sz\<rparr> \<and> extent_ok x"
  by (simp add: stream_extent_def res_simps)

lemma extent_after_Ok_iff [res_simps]:
  "extent_ok x \<Longrightarrow> extent_after x sz = Inr y \<longleftrightarrow>
     y = \<lparr>offset = offset x + extent_size x, extent_size = sz\<rparr> \<and> extent_ok y"
  by (simp add: extent_after_def res_simps)

lemma stored_path_Ok_iff [res_simps]:
  "stored_path is_nfc s f = Inr p \<longleftrightarrow> p = EntryPath s \<and> is_nfc s \<and> path_ok p"
  by (simp add: stored_path_def res_simps)

section \<open>Entries and their wire form\<close>

definition wire_of_derived :: "derived_from \<Rightarrow> wire_derived_from" where
  "wire_of_derived d = \<lparr>wd_container = as_bytes (from_container d), wd_captured_path = path_str (from_path d)\<rparr>"

definition derived_of_wire :: "(string \<Rightarrow> bool) \<Rightarrow> wire_derived_from \<Rightarrow> format_error + derived_from" where
  "derived_of_wire is_nfc d =
     (if length (wd_container d) \<noteq> container_id_byte_len
      then Err (Model (InvalidByteLength container_id_byte_len (length (wd_container d))))
      else and_then (stored_path is_nfc (wd_captured_path d) ''derived_from.captured_path'') (\<lambda>p.
             Ok \<lparr>from_container = ContainerId (wd_container d), from_path = p\<rparr>))"

definition wire_of_entry :: "entry_metadata \<Rightarrow> wire_meta_entry" where
  "wire_of_entry e =
     \<lparr>wm_captured_path = path_str (captured_path e), wm_offset = offset (extent e), wm_size = extent_size (extent e),
      wm_captured_mtime = mtime_secs (modified e), wm_captured_btime = map_option btime_secs (born e),
      wm_hash = hash_bytes (content e), wm_derived_from = map_option wire_of_derived (derivation e),
      wm_mime = mime e\<rparr>"

definition malformed_meta :: "string \<Rightarrow> format_error" where
  "malformed_meta detail = MalformedMeta (Written detail)"

definition entry_of_wire :: "(string \<Rightarrow> bool) \<Rightarrow> wire_meta_entry \<Rightarrow> format_error + entry_metadata" where
  "entry_of_wire is_nfc w =
     and_then (stored_path is_nfc (wm_captured_path w) ''captured_path'') (\<lambda>captured.
     and_then (bounded_uint ''offset'' (wm_offset w) malformed_meta) (\<lambda>off.
     and_then (bounded_uint ''size'' (wm_size w) malformed_meta) (\<lambda>sz.
     and_then (stream_extent off sz) (\<lambda>ext.
     and_then (map_err Model (content_hash_from_slice (wm_hash w))) (\<lambda>hash.
     and_then (transpose_opt (map_option (derived_of_wire is_nfc) (wm_derived_from w))) (\<lambda>derived.
       Ok \<lparr>path = captured, captured_path = captured, extent = ext, modified = Mtime (wm_captured_mtime w),
           born = map_option Btime (wm_captured_btime w), content = hash, derivation = derived,
           mime = wm_mime w\<rparr>))))))"

section \<open>The section\<close>

record meta =
  m_kind :: container_kind
  m_pad_len :: nat
  m_entries :: "entry_metadata list"

definition meta_schema :: nat where
  "meta_schema = 1"

definition plaintext_len :: "meta \<Rightarrow> format_error + nat" where
  "plaintext_len m =
     (let unpadded = (if m_entries m = [] then 0 else extent_end (extent (last (m_entries m))))
      in case checked_add64 unpadded (m_pad_len m) of
           Some len \<Rightarrow> if len \<le> max_format_integer then Ok len else Err StreamTooLong
         | None \<Rightarrow> Err StreamTooLong)"

definition meta_encode_failed :: "string \<Rightarrow> format_error" where
  "meta_encode_failed detail = MetaEncodeFailed (EncodeWritten detail)"

definition meta_write :: "cbor_lib \<Rightarrow> cbor \<Rightarrow> map_fields \<Rightarrow> format_error + byte list" where
  "meta_write L named mf =
     and_then (to_wire named mf) (\<lambda>wire.
       map_err (\<lambda>e. MetaEncodeFailed (Unencodable e)) (into_writer L wire))"

definition meta_encode :: "cbor_lib \<Rightarrow> meta \<Rightarrow> format_error + byte list" where
  "meta_encode L m =
     and_then (bounded_uint ''pad_len'' (m_pad_len m) meta_encode_failed) (\<lambda>pad_len.
       meta_write L
         (ser_meta \<lparr>wm_schema = meta_schema, wm_kind = wire_of_kind (m_kind m), wm_pad_len = pad_len,
                    wm_entries = map wire_of_entry (m_entries m)\<rparr>) META)"

definition entry_len :: "cbor_lib \<Rightarrow> entry_metadata \<Rightarrow> format_error + nat" where
  "entry_len L e =
     and_then (meta_write L (ser_meta_entry (wire_of_entry e)) META_ENTRY) (\<lambda>bytes. Ok (length bytes))"

definition array_header_len :: "nat \<Rightarrow> nat" where
  "array_header_len n =
     (if n \<le> 23 then 1 else if n \<le> 0xff then 2 else if n \<le> 0xffff then 3 else if n \<le> 0xffffffff then 5 else 9)"

definition envelope_len :: "cbor_lib \<Rightarrow> container_kind \<Rightarrow> nat \<Rightarrow> nat \<Rightarrow> format_error + nat" where
  "envelope_len L k pad_len n =
     and_then (bounded_uint ''pad_len'' pad_len meta_encode_failed) (\<lambda>pad_len.
     and_then (meta_write L
         (ser_meta \<lparr>wm_schema = meta_schema, wm_kind = wire_of_kind k, wm_pad_len = pad_len,
                    wm_entries = []\<rparr>) META) (\<lambda>bytes.
       Ok (wadd64 (wsub64 (length bytes) 1) (array_header_len n))))"

text \<open>The walk over the table: every Entry starts where the one before it ended.\<close>

definition contiguous_step :: "nat \<Rightarrow> nat \<times> entry_metadata \<Rightarrow> format_error + nat" where
  "contiguous_step expected_offset = (\<lambda>(i, entry).
     if offset (extent entry) \<noteq> expected_offset then Err (EntryTableNotContiguous i)
     else Ok (extent_end (extent entry)))"

definition meta_decode ::
  "cbor_lib \<Rightarrow> (cbor \<Rightarrow> cbor_failure + wire_meta) \<Rightarrow> (string \<Rightarrow> bool) \<Rightarrow> byte list \<Rightarrow> format_error + meta" where
  "meta_decode L de is_nfc bytes =
     and_then (map_err (\<lambda>e. MalformedMeta (Undecodable e)) (from_reader L bytes)) (\<lambda>(v, padding).
       let map_len = wsub64 (length bytes) (length padding);
           expected = padded_len_u64 map_len
       in if expected \<noteq> length bytes then Err (MetaPaddingLengthMismatch expected (length bytes))
          else if list_ex (\<lambda>b. b \<noteq> 0) padding then Err NonZeroMetaPadding
          else and_then (map_err (\<lambda>e. MalformedMeta (Undecodable e)) (de (from_wire v META))) (\<lambda>wire.
               and_then (bounded_uint ''schema'' (wm_schema wire) malformed_meta) (\<lambda>schema.
               and_then (bounded_uint ''pad_len'' (wm_pad_len wire) malformed_meta) (\<lambda>pad_len.
                 if schema < meta_schema then Err (UnsupportedMetaSchema schema)
                 else if wm_entries wire = [] then Err EmptyEntryTable
                 else and_then (collect_res (entry_of_wire is_nfc) (wm_entries wire)) (\<lambda>entries.
                      and_then (try_fold contiguous_step 0 (enumerate 0 entries)) (\<lambda>_.
                        Ok \<lparr>m_kind = kind_of_wire (wm_kind wire), m_pad_len = pad_len, m_entries = entries\<rparr>))))))"

section \<open>A table is read back as it was written\<close>

definition i64 :: "int \<Rightarrow> bool" where
  "i64 n \<longleftrightarrow> - (2 ^ 63) \<le> n \<and> n < 2 ^ 63"

text \<open>The Entries a writer holds: every field inside its type, the path the one it was captured under.\<close>

definition entry_ok :: "(string \<Rightarrow> bool) \<Rightarrow> entry_metadata \<Rightarrow> bool" where
  "entry_ok is_nfc e \<longleftrightarrow>
     path e = captured_path e \<and> path_ok (captured_path e) \<and> is_nfc (path_str (captured_path e)) \<and>
     extent_ok (extent e) \<and> i64 (mtime_secs (modified e)) \<and> (\<forall>b. born e = Some b \<longrightarrow> i64 (btime_secs b)) \<and>
     length (hash_bytes (content e)) = 32 \<and>
     (\<forall>d. derivation e = Some d \<longrightarrow> container_id_ok (from_container d) \<and> path_ok (from_path d) \<and>
        is_nfc (path_str (from_path d)))"

definition meta_ok :: "(string \<Rightarrow> bool) \<Rightarrow> meta \<Rightarrow> bool" where
  "meta_ok is_nfc m \<longleftrightarrow>
     m_pad_len m \<le> max_format_integer \<and> m_entries m \<noteq> [] \<and> tiled_from 0 (m_entries m) \<and>
     (\<forall>e \<in> set (m_entries m). entry_ok is_nfc e)"

lemma kind_of_wire_of_kind [simp]: "kind_of_wire (wire_of_kind k) = k"
  by (cases k) auto

lemma kind_parse_spelling [simp]: "kind_parse (kind_spelling k) = Some k"
  by (cases k) (simp_all add: kind_parse_def)

lemma entry_of_wire_of_entry:
  assumes "entry_ok is_nfc e"
  shows "entry_of_wire is_nfc (wire_of_entry e) = Inr e"
proof -
  have d: "transpose_opt (map_option (derived_of_wire is_nfc) (map_option wire_of_derived (derivation e))) = Inr (derivation e)"
  proof (cases "derivation e")
    case (Some d)
    moreover from assms Some have "stored_path is_nfc (path_str (from_path d)) ''derived_from.captured_path'' = Inr (from_path d)"
      by (simp add: res_simps entry_ok_def)
    moreover have "length (as_bytes (from_container d)) = container_id_byte_len"
      using assms Some by (simp add: entry_ok_def container_id_ok_def)
    ultimately show ?thesis
      by (simp add: transpose_opt_def derived_of_wire_def wire_of_derived_def)
  qed (simp add: transpose_opt_def)
  have "stored_path is_nfc (path_str (captured_path e)) ''captured_path'' = Inr (captured_path e)"
    using assms by (simp add: res_simps entry_ok_def)
  moreover have "bounded_uint ''offset'' (offset (extent e)) malformed_meta = Inr (offset (extent e))"
    "bounded_uint ''size'' (extent_size (extent e)) malformed_meta = Inr (extent_size (extent e))"
    "stream_extent (offset (extent e)) (extent_size (extent e)) = Inr (extent e)"
    using assms by (auto simp: res_simps entry_ok_def extent_ok_def)
  moreover have "content_hash_from_slice (hash_bytes (content e)) = Inr (content e)"
    using assms by (simp add: content_hash_from_slice_def entry_ok_def)
  moreover have "map_option Btime (map_option btime_secs (born e)) = born e"
    by (cases "born e") simp_all
  ultimately show ?thesis
    using assms d by (simp add: entry_of_wire_def wire_of_entry_def entry_ok_def)
qed

lemma contiguous_Ok_iff: "(\<exists>s. try_fold contiguous_step n (enumerate i es) = Inr s) \<longleftrightarrow> tiled_from n es"
  by (induction es arbitrary: n i) (auto simp: contiguous_step_def)

lemma ser_meta_plain:
  assumes "wire_meta_ok m"
  shows "plain (ser_meta m)"
proof -
  have "plain (ser_meta_entry e)" if "e \<in> set (wm_entries m)" for e
  proof -
    have "wire_entry_ok e" using assms that by (simp add: wire_meta_ok_def)
    then show ?thesis
      by (cases "wm_captured_btime e"; cases "wm_derived_from e"; cases "wm_mime e")
        (auto simp: wire_entry_ok_def ser_meta_entry_def opt_field_def ser_derived_from_def)
  qed
  then show ?thesis using assms by (auto simp: ser_meta_def wire_meta_ok_def)
qed

lemma meta_decode_encode:
  assumes L: "cbor_laws L" and de: "serde_laws de" and m: "meta_ok is_nfc m"
    and enc: "meta_encode L m = Inr b"
  shows "meta_decode L de is_nfc (b @ replicate (padded_len_u64 (length b) - length b) 0) = Inr m"
    and "length b \<le> padded_len_u64 (length b)" and "length b < 2 ^ 63"
proof -
  define w where "w = \<lparr>wm_schema = meta_schema, wm_kind = wire_of_kind (m_kind m), wm_pad_len = m_pad_len m,
                    wm_entries = map wire_of_entry (m_entries m)\<rparr>"
  have wok: "wire_meta_ok w"
    using m by (auto simp: w_def wire_meta_ok_def meta_ok_def meta_schema_def max_format_integer_def wire_entry_ok_def
        wire_of_entry_def entry_ok_def extent_ok_def i64_def)
  have p: "plain (ser_meta w)" using wok by (rule ser_meta_plain)
  obtain v where v: "to_wire (ser_meta w) META = Inr v" "into_writer L v = Inr b"
    using enc by (auto simp: meta_encode_def meta_write_def and_then_Inr_iff map_err_Inr_iff bounded_uint_Ok_iff w_def)
  have pv: "plain v" using to_wire_plain [OF p registry_ok(1) v(1)] .
  with L v(2) show small: "length b < 2 ^ 63" unfolding cbor_laws_def by blast
  then show le: "length b \<le> padded_len_u64 (length b)" by (rule padded_len_u64_ge)
  let ?pad = "replicate (padded_len_u64 (length b) - length b) (0 :: byte)"
  have rd: "from_reader L (b @ ?pad) = Inr (v, ?pad)"
    using L pv v(2) unfolding cbor_laws_def by blast
  have "padded_len_u64 (length b) < 2 ^ 64" using unat_u64_less by (simp only: padded_len_u64_def)
  then have len: "wsub64 (length (b @ ?pad)) (length ?pad) = length b"
    using le by (subst wsub64_small) simp_all
  have fw: "from_wire v META = ser_meta w" using from_to_wire [OF registry_ok(1) v(1)] .
  have "collect_res (entry_of_wire is_nfc) (map wire_of_entry (m_entries m)) = Inr (m_entries m)"
    using m unfolding collect_res_Inr_iff meta_ok_def
    by (auto simp: list_all2_map1 list.rel_refl_strong entry_of_wire_of_entry intro!: list.rel_refl_strong)
  moreover obtain s where "try_fold contiguous_step 0 (enumerate 0 (m_entries m)) = Inr s"
    using contiguous_Ok_iff [of 0 0 "m_entries m"] m by (auto simp: meta_ok_def)
  moreover have "de (ser_meta w) = Inr w" using de wok unfolding serde_laws_def by blast
  ultimately show "meta_decode L de is_nfc (b @ ?pad) = Inr m"
    using m le len
    by (simp add: meta_decode_def rd fw Let_def list_ex_iff w_def meta_ok_def meta_schema_def bounded_uint_def
        max_format_integer_def)
qed

text \<open>Nothing a writer holds is refused by the registry.\<close>

lemma ser_entry_to_wire: "\<exists>w. to_wire (ser_meta_entry e) META_ENTRY = Inr w"
proof -
  obtain p n s mt bt h d mi where e: "e = \<lparr>wm_captured_path = p, wm_offset = n, wm_size = s, wm_captured_mtime = mt,
      wm_captured_btime = bt, wm_hash = h, wm_derived_from = d, wm_mime = mi\<rparr>"
    by (cases e)
  show ?thesis
    by (cases bt; cases d; cases mi)
      (simp_all add: e ser_meta_entry_def opt_field_def ser_derived_from_def registry_defs live_by_name_def field_def holding_def)
qed

lemma ser_meta_to_wire: "\<exists>w. to_wire (ser_meta m) META = Inr w"
proof -
  have "\<exists>ws. collect_res (\<lambda>item. to_wire item META_ENTRY) (map ser_meta_entry (wm_entries m)) = Inr ws"
    by (rule collect_res_total) (use ser_entry_to_wire in auto)
  then show ?thesis
    by (auto simp: ser_meta_def META_def live_by_name_def field_def holding_def)
qed

end
