(* ===== verification/Wire_Catalog.thy ===== *)
theory Wire_Catalog
  imports Field_Laws Keyring_Payload Meta_Section
begin

text \<open>
  \<open>coffret-format/src/control\<close> \<open>wire_catalog_entry.rs\<close>, \<open>wire_container.rs\<close>, \<open>journal_record/rename.rs\<close> and
  \<open>entry_number\<close> of \<open>cbor/mod.rs\<close>: the maps the catalog's payloads share. A path is written once where the path
  and the path at capture are one, and a map that spells them both alike is refused, so that one Entry has one map.
\<close>

section \<open>Entries\<close>

record wire_catalog_entry =
  wc_path :: string
  wc_captured_path :: "string option"
  wc_offset :: nat
  wc_size :: nat
  wc_mtime :: int
  wc_btime :: "int option"
  wc_hash :: "byte list"
  wc_derived_from :: "wire_derived_from option"
  wc_mime :: "string option"
  wc_deposited_at :: int

text \<open>\<open>#[derive(Serialize)]\<close>, and the law of the derived \<open>Deserialize\<close>: it reads back what was written, and passes
  over a field it does not know.\<close>

definition catalog_fields :: "wire_catalog_entry \<Rightarrow> (cbor \<times> cbor) list" where
  "catalog_fields e =
     [(Txt ''path'', Txt (wc_path e))]
     @ opt_field ''captured_path'' Txt (wc_captured_path e)
     @ [(Txt ''offset'', Integer (int (wc_offset e))), (Txt ''size'', Integer (int (wc_size e))),
        (Txt ''mtime'', Integer (wc_mtime e))]
     @ opt_field ''btime'' Integer (wc_btime e)
     @ [(Txt ''hash'', Bytes (wc_hash e))]
     @ opt_field ''derived_from'' ser_derived_from (wc_derived_from e)
     @ opt_field ''mime'' Txt (wc_mime e)
     @ [(Txt ''deposited_at'', Integer (wc_deposited_at e))]"

definition wire_catalog_ok :: "wire_catalog_entry \<Rightarrow> bool" where
  "wire_catalog_ok e \<longleftrightarrow> wc_offset e < 2 ^ 64 \<and> wc_size e < 2 ^ 64 \<and> i64 (wc_mtime e) \<and> i64 (wc_deposited_at e) \<and>
     (\<forall>b. wc_btime e = Some b \<longrightarrow> i64 b)"

definition catalog_field_names :: "string list" where
  "catalog_field_names = [''path'', ''captured_path'', ''offset'', ''size'', ''mtime'', ''btime'', ''hash'',
     ''derived_from'', ''mime'', ''deposited_at'']"

definition catalog_serde_laws :: "(cbor \<Rightarrow> cbor_failure + wire_catalog_entry) \<Rightarrow> bool" where
  "catalog_serde_laws de \<longleftrightarrow>
     (\<forall>e others. wire_catalog_ok e \<longrightarrow> (\<forall>(k, v) \<in> set others. \<exists>name. k = Txt name \<and> name \<notin> set catalog_field_names) \<longrightarrow>
        de (Map (catalog_fields e @ others)) = Inr e)"

lemma catalog_serde_read:
  "catalog_serde_laws de \<Longrightarrow> wire_catalog_ok e \<Longrightarrow>
    (\<forall>(k, v) \<in> set others. \<exists>name. k = Txt name \<and> name \<notin> set catalog_field_names) \<Longrightarrow>
    de (Map (catalog_fields e @ others)) = Inr e"
  unfolding catalog_serde_laws_def by blast

definition wire_of_catalog :: "entry_metadata \<Rightarrow> deposited_at \<Rightarrow> wire_catalog_entry" where
  "wire_of_catalog e deposited =
     \<lparr>wc_path = path_str (path e),
      wc_captured_path = (if captured_path e \<noteq> path e then Some (path_str (captured_path e)) else None),
      wc_offset = offset (extent e), wc_size = extent_size (extent e), wc_mtime = mtime_secs (modified e),
      wc_btime = map_option btime_secs (born e), wc_hash = hash_bytes (content e),
      wc_derived_from = map_option wire_of_derived (derivation e), wc_mime = mime e,
      wc_deposited_at = deposited_secs deposited\<rparr>"

definition catalog_of_wire ::
  "(string \<Rightarrow> bool) \<Rightarrow> (string \<Rightarrow> format_error) \<Rightarrow> wire_catalog_entry \<Rightarrow> format_error + (entry_metadata \<times> deposited_at)" where
  "catalog_of_wire is_nfc malformed w =
     and_then (stored_path is_nfc (wc_path w) ''path'') (\<lambda>p.
     and_then (case wc_captured_path w of
                 Some text \<Rightarrow> and_then (stored_path is_nfc text ''captured_path'') (\<lambda>captured.
                   if captured = p
                   then Err (malformed ''an entry map carries a `captured_path` equal to its `path`, which is written by leaving it out'')
                   else Ok captured)
               | None \<Rightarrow> Ok p) (\<lambda>captured.
     and_then (bounded_uint ''offset'' (wc_offset w) malformed) (\<lambda>off.
     and_then (bounded_uint ''size'' (wc_size w) malformed) (\<lambda>sz.
     and_then (stream_extent off sz) (\<lambda>ext.
     and_then (map_err Model (content_hash_from_slice (wc_hash w))) (\<lambda>hash.
     and_then (transpose_opt (map_option (derived_of_wire is_nfc) (wc_derived_from w))) (\<lambda>derived.
       Ok (\<lparr>path = p, captured_path = captured, extent = ext, modified = Mtime (wc_mtime w),
            born = map_option Btime (wc_btime w), content = hash, derivation = derived, mime = wc_mime w\<rparr>,
           DepositedAt (wc_deposited_at w)))))))))"

section \<open>Containers, Entry numbers and renames\<close>

definition container_to_map :: "container_summary \<Rightarrow> map_builder" where
  "container_to_map c =
     mb_optional_text ''object_ref'' (map_option (\<lambda>r. case r of ObjectRef s \<Rightarrow> s) (object_ref c))
       (mb_uint ''ciphertext_len'' (claimed (ciphertext_len c))
         (mb_bytes ''ciphertext_hash'' (hash_bytes (ciphertext_hash c))
           (mb_text ''kind'' (kind_spelling (wire_of_kind (kind c)))
             (mb_bytes ''id'' (as_bytes (cid c)) []))))"

text \<open>The refusal of a kind quotes it; the quotes of the debug form are left out here.\<close>

definition container_from_fields :: "fields \<Rightarrow> (string \<Rightarrow> format_error) \<Rightarrow> format_error + container_summary" where
  "container_from_fields fs malformed =
     and_then (text_field fs ''kind'') (\<lambda>spelled.
     and_then (byte_array_field container_id_byte_len fs ''id'') (\<lambda>id_bytes.
     and_then (ok_or (malformed (''kind names no Container kind: '' @ spelled)) (kind_parse spelled)) (\<lambda>k.
     and_then (byte_array_field 32 fs ''ciphertext_hash'') (\<lambda>hash.
     and_then (ciphertext_len_field fs ''ciphertext_len'') (\<lambda>len.
     and_then (optional_text_field fs ''object_ref'') (\<lambda>reference.
       Ok \<lparr>cid = ContainerId id_bytes, kind = kind_of_wire k, ciphertext_hash = ContentHash hash,
           ciphertext_len = len, object_ref = map_option ObjectRef reference\<rparr>))))))"

definition entry_number_field :: "fields \<Rightarrow> string \<Rightarrow> (string \<Rightarrow> format_error) \<Rightarrow> format_error + entry_number" where
  "entry_number_field fs key malformed =
     and_then (uint_field fs key) (\<lambda>n.
       map_err (\<lambda>_. malformed (key @ '' is an entry number below 2^32, found '' @ show_nat n)) (entry_number_new n))"

definition rename_to_value :: "entry_rename \<Rightarrow> cbor" where
  "rename_to_value r =
     mb_build (mb_text ''path'' (path_str (ren_path r))
       (mb_uint ''entry'' (number (ren_number r)) (mb_bytes ''container'' (as_bytes (ren_container r)) [])))"

definition rename_from_fields ::
  "(string \<Rightarrow> bool) \<Rightarrow> (string \<Rightarrow> format_error) \<Rightarrow> nat \<Rightarrow> fields \<Rightarrow> format_error + entry_rename" where
  "rename_from_fields is_nfc malformed index fs =
     and_then (byte_array_field container_id_byte_len fs ''container'') (\<lambda>id_bytes.
     and_then (entry_number_field fs ''entry'' malformed) (\<lambda>n.
     and_then (text_field fs ''path'') (\<lambda>text.
     and_then (stored_path is_nfc text ''path'') (\<lambda>p.
       map_err (\<lambda>e. case e of RenameIntoReservedNamespace \<Rightarrow> Catalog (FmtRenameIntoReservedNamespace index)
                     | other \<Rightarrow> Model other)
         (rename_new (ContainerId id_bytes) n p)))))"

section \<open>What was written is read back\<close>

text \<open>The values a catalog holds: every field inside its type.\<close>

definition catalog_entry_ok :: "(string \<Rightarrow> bool) \<Rightarrow> entry_metadata \<Rightarrow> bool" where
  "catalog_entry_ok is_nfc e \<longleftrightarrow>
     path_ok (path e) \<and> is_nfc (path_str (path e)) \<and> entry_ok is_nfc (e\<lparr>path := captured_path e\<rparr>)"

definition summary_ok :: "container_summary \<Rightarrow> bool" where
  "summary_ok c \<longleftrightarrow> container_id_ok (cid c) \<and> length (hash_bytes (ciphertext_hash c)) = 32 \<and>
     claimed (ciphertext_len c) \<le> max_format_integer"

definition renaming_ok :: "(string \<Rightarrow> bool) \<Rightarrow> entry_rename \<Rightarrow> bool" where
  "renaming_ok is_nfc r \<longleftrightarrow> container_id_ok (ren_container r) \<and> entry_number_ok (ren_number r) \<and>
     path_ok (ren_path r) \<and> is_nfc (path_str (ren_path r)) \<and> rename_ok r"

lemma wire_of_catalog_ok:
  "catalog_entry_ok is_nfc e \<Longrightarrow> i64 (deposited_secs d) \<Longrightarrow> wire_catalog_ok (wire_of_catalog e d)"
  by (auto simp: catalog_entry_ok_def entry_ok_def wire_catalog_ok_def wire_of_catalog_def extent_ok_def
      max_format_integer_def)

lemma catalog_fields_plain:
  assumes "wire_catalog_ok e"
  shows "plain (Map (catalog_fields e))"
  using assms
  by (cases "wc_captured_path e"; cases "wc_btime e"; cases "wc_derived_from e"; cases "wc_mime e")
    (auto simp: wire_catalog_ok_def i64_def catalog_fields_def opt_field_def ser_derived_from_def)

lemma catalog_of_wire_of_catalog:
  assumes "catalog_entry_ok is_nfc e"
  shows "catalog_of_wire is_nfc malformed (wire_of_catalog e d) = Inr (e, d)"
proof -
  have "entry_of_wire is_nfc (wire_of_entry (e\<lparr>path := captured_path e\<rparr>)) = Inr (e\<lparr>path := captured_path e\<rparr>)"
    using assms by (intro entry_of_wire_of_entry) (simp add: catalog_entry_ok_def)
  then have d: "transpose_opt (map_option (derived_of_wire is_nfc) (map_option wire_of_derived (derivation e))) = Inr (derivation e)"
    and h: "content_hash_from_slice (hash_bytes (content e)) = Inr (content e)"
    and b: "map_option Btime (map_option btime_secs (born e)) = born e"
    by (atomize (full), cases e) (auto simp: entry_of_wire_def wire_of_entry_def and_then_Inr_iff map_err_Inr_iff)
  have p: "stored_path is_nfc (path_str (path e)) ''path'' = Inr (path e)"
    "stored_path is_nfc (path_str (captured_path e)) ''captured_path'' = Inr (captured_path e)"
    using assms by (simp_all add: res_simps catalog_entry_ok_def entry_ok_def)
  have x: "bounded_uint ''offset'' (offset (extent e)) malformed = Inr (offset (extent e))"
    "bounded_uint ''size'' (extent_size (extent e)) malformed = Inr (extent_size (extent e))"
    "stream_extent (offset (extent e)) (extent_size (extent e)) = Inr (extent e)"
    using assms by (auto simp: res_simps catalog_entry_ok_def entry_ok_def extent_ok_def)
  show ?thesis
    using b by (cases "captured_path e = path e"; cases d)
      (simp_all add: catalog_of_wire_def wire_of_catalog_def p x h d)
qed

lemma container_read:
  assumes "summary_ok c"
  shows "container_from_fields \<lparr>f_entries = mb_value ''entries'' v (container_to_map c), f_malformed = mf\<rparr> malformed = Inr c"
    and "container_from_fields \<lparr>f_entries = container_to_map c, f_malformed = mf\<rparr> malformed = Inr c"
proof -
  have id: "map_option ObjectRef (map_option (\<lambda>r. case r of ObjectRef s \<Rightarrow> s) (object_ref c)) = object_ref c"
    by (cases "object_ref c") (auto split: object_ref.splits)
  have "container_from_fields fs malformed = Inr c"
    if get: "get_field fs ''kind'' = Some (Txt (kind_spelling (wire_of_kind (kind c))))"
      "get_field fs ''id'' = Some (Bytes (as_bytes (cid c)))"
      "get_field fs ''ciphertext_hash'' = Some (Bytes (hash_bytes (ciphertext_hash c)))"
      "get_field fs ''ciphertext_len'' = Some (Integer (int (claimed (ciphertext_len c))))"
      "get_field fs ''object_ref'' = map_option Txt (map_option (\<lambda>r. case r of ObjectRef s \<Rightarrow> s) (object_ref c))" for fs
    using assms text_read [OF get(1)] byte_array_read [OF get(2)] byte_array_read [OF get(3)]
      ciphertext_len_read [OF get(4)] optional_text_read [OF get(5)] id
    by (simp add: container_from_fields_def summary_ok_def container_id_ok_def)
  then show "container_from_fields \<lparr>f_entries = mb_value ''entries'' v (container_to_map c), f_malformed = mf\<rparr> malformed = Inr c"
    and "container_from_fields \<lparr>f_entries = container_to_map c, f_malformed = mf\<rparr> malformed = Inr c"
    by (simp_all add: get_field_lookup container_to_map_def lookup_built)
qed

lemma container_to_map_plain: "summary_ok c \<Longrightarrow> plain_map (container_to_map c)"
  by (simp add: container_to_map_def plain_built summary_ok_def max_format_integer_def)

lemma entry_number_read:
  assumes "get_field fs key = Some (Integer (int (number n)))" and "entry_number_ok n"
  shows "entry_number_field fs key malformed = Inr n"
  using assms uint_read [OF assms(1)]
  by (cases n) (simp add: entry_number_field_def entry_number_new_def entry_number_ok_def max_format_integer_def)

lemma rename_read:
  assumes "renaming_ok is_nfc r"
  shows "and_then (map_field fs (rename_to_value r)) (rename_from_fields is_nfc malformed i) = Inr r"
proof -
  let ?fs = "\<lparr>f_entries = [(Txt ''container'', Bytes (as_bytes (ren_container r))),
     (Txt ''entry'', Integer (int (number (ren_number r)))), (Txt ''path'', Txt (path_str (ren_path r)))], f_malformed = f_malformed fs\<rparr>"
  have get: "get_field ?fs ''container'' = Some (Bytes (as_bytes (ren_container r)))"
    "get_field ?fs ''entry'' = Some (Integer (int (number (ren_number r))))"
    "get_field ?fs ''path'' = Some (Txt (path_str (ren_path r)))"
    by (simp_all add: get_field_lookup lookup_built)
  have "map_field fs (rename_to_value r) = Inr ?fs"
    by (simp add: map_field_def rename_to_value_def map_builder_defs)
  moreover have "rename_from_fields is_nfc malformed i ?fs = Inr r"
    using assms byte_array_read [OF get(1)] entry_number_read [OF get(2)] text_read [OF get(3)]
    by (cases r) (simp add: rename_from_fields_def renaming_ok_def container_id_ok_def res_simps rename_ok_def)
  ultimately show ?thesis by simp
qed

lemma rename_plain: "renaming_ok is_nfc r \<Longrightarrow> plain (rename_to_value r)"
  by (simp add: rename_to_value_def plain_built renaming_ok_def entry_number_ok_def)

section \<open>What a read value satisfies\<close>

lemma container_from_fields_ok: "container_from_fields fs malformed = Inr c \<Longrightarrow> container_id_ok (cid c)"
  by (auto simp: container_from_fields_def and_then_Inr_iff container_id_ok_def byte_array_field_length)

lemma rename_from_fields_ok: "rename_from_fields is_nfc malformed i fs = Inr r \<Longrightarrow> rename_ok r"
  by (auto simp: rename_from_fields_def and_then_Inr_iff map_err_Inr_iff rename_new_Ok_iff rename_ok_def)

section \<open>The registry has every field\<close>

lemma derived_registered: "\<exists>w. to_wire (ser_derived_from d) DERIVED_FROM = Inr w"
  by (simp add: ser_derived_from_def registry_defs live_by_name_def field_def)

lemma catalog_registered:
  "registered ADDITION_ENTRY (catalog_fields e)" "registered SNAPSHOT_ENTRY (catalog_fields e)"
  using derived_registered
  by (cases "wc_captured_path e"; cases "wc_btime e"; cases "wc_derived_from e"; cases "wc_mime e";
      simp add: catalog_fields_def opt_field_def registered_append registered_Cons registered_Nil ADDITION_ENTRY_def
        SNAPSHOT_ENTRY_def live_by_name_def field_def holding_def)+

lemma container_registered:
  "registered SNAPSHOT_CONTAINER (container_to_map c)" "registered ADDITION (container_to_map c)"
  unfolding container_to_map_def
  by (intro registered_mb_optional;
      simp add: registered_mb_value registered_Nil mb_uint_def mb_text_def mb_bytes_def SNAPSHOT_CONTAINER_def ADDITION_def
        live_by_name_def field_def holding_def)+

lemma rename_registered: "\<exists>w. to_wire (rename_to_value r) RENAME = Inr w"
  unfolding rename_to_value_def
  by (rule registered_to_wire)
    (simp add: registered_mb_value registered_Nil mb_uint_def mb_text_def mb_bytes_def RENAME_def live_by_name_def field_def)

end
