(* ===== verification/Journal_Payload.thy ===== *)
theory Journal_Payload
  imports Wire_Catalog
begin

text \<open>
  \<open>coffret-format/src/control/journal_record\<close>: a Journal record as the body of a control payload. A record written
  is the record read back; what is read satisfies everything \<open>JournalRecord::new\<close> and \<open>ContainerAddition::new\<close>
  demand, under the generation and the epoch it was asked for; and a record that names a schema above this build's as
  the one it needs is refused for that and nothing else.
\<close>

definition journal_schema :: nat where
  "journal_schema = 5"

definition journal_required_written :: nat where
  "journal_required_written = 4"

definition journal_lowest_read :: nat where
  "journal_lowest_read = 4"

definition malformed_journal_detail :: "malformed_detail \<Rightarrow> format_error" where
  "malformed_journal_detail d = Catalog (MalformedJournalRecord d)"

definition malformed_journal :: "string \<Rightarrow> format_error" where
  "malformed_journal detail = malformed_journal_detail (Written detail)"

section \<open>Writing\<close>

definition addition_value :: "container_addition \<Rightarrow> cbor" where
  "addition_value a =
     mb_build (mb_value ''entries''
       (Array (map (\<lambda>(e, d). Map (catalog_fields (wire_of_catalog e d))) (zip (add_entries a) (add_deposits a))))
       (container_to_map (add_container a)))"

definition journal_map :: "journal_record \<Rightarrow> map_builder" where
  "journal_map r =
     (let m = mb_optional_text ''snapshot_slot'' (jr_snapshot_slot r)
                (mb_optional_text ''next_commit_slot'' (jr_next_slot r)
                  (mb_optional_uint ''prev'' (map_option gen (jr_prev r)) (mb_uint ''schema'' journal_schema [])));
          m = mb_text ''keyring_set_digest'' (kc_set_digest (jr_keyring r))
                (mb_uint ''keyring_replica_count'' (kc_replica_count (jr_keyring r))
                  (mb_uint ''keyring_generation'' (gen (kc_generation (jr_keyring r))) m));
          m = mb_value ''removals'' (Array (map (\<lambda>c. Bytes (as_bytes c)) (jr_removals r)))
                (mb_value ''additions'' (Array (map addition_value (jr_additions r))) m);
          m = mb_optional_text ''library_name'' (map_option name_str (jr_library_name r))
                (mb_uint ''required_schema'' journal_required_written m)
      in if jr_renames r \<noteq> [] then mb_value ''renames'' (Array (map rename_to_value (jr_renames r))) m else m)"

definition journal_encode :: "cbor_lib \<Rightarrow> journal_record \<Rightarrow> format_error + control_payload" where
  "journal_encode L r =
     and_then (write_body L (mb_build (journal_map r)) JOURNAL_RECORD) (\<lambda>body.
       Ok \<lparr>pl_epoch = jr_epoch r, pl_body = body\<rparr>)"

section \<open>Reading\<close>

definition required_schema :: "fields \<Rightarrow> generation \<Rightarrow> format_error + unit" where
  "required_schema fs g =
     and_then (optional_uint_field fs ''required_schema'') (\<lambda>found.
       case found of
         Some required \<Rightarrow>
           if required > journal_schema
           then Err (Catalog (JournalRecordNeedsNewerBuild g required journal_schema))
           else if required \<ge> journal_lowest_read then Ok ()
           else Err (malformed_journal (''a record names '' @ show_nat journal_lowest_read @
                  '' or above as its required_schema, found '' @ show_nat required))
       | None \<Rightarrow> Err (malformed_journal (''a record names '' @ show_nat journal_lowest_read @
                  '' or above as its required_schema, found none'')))"

definition journal_refused :: "model_error \<Rightarrow> format_error" where
  "journal_refused e =
     (case e of
        JournalRecordPredecessorMismatch g prev \<Rightarrow> Catalog (JournalRecordPrevMismatch g prev)
      | CollectionOutOfCanonicalOrder collection i \<Rightarrow> ControlPayloadOutOfOrder collection i
      | other \<Rightarrow> Model other)"

definition addition_refused :: "nat \<Rightarrow> model_error \<Rightarrow> format_error" where
  "addition_refused a e =
     (case e of
        AdditionWithoutEntries \<Rightarrow> Catalog (FmtAdditionWithoutEntries a)
      | AdditionEntriesDoNotTile i expected found \<Rightarrow> Catalog (FmtAdditionEntriesDoNotTile a i expected found)
      | AdditionNamesOnePathTwice i \<Rightarrow> Catalog (FmtAdditionNamesOnePathTwice a i)
      | other \<Rightarrow> Model other)"

definition journal_entry ::
  "(cbor \<Rightarrow> cbor_failure + wire_catalog_entry) \<Rightarrow> (string \<Rightarrow> bool) \<Rightarrow> cbor \<Rightarrow> format_error + (entry_metadata \<times> deposited_at)" where
  "journal_entry de is_nfc v =
     and_then (map_err (\<lambda>e. malformed_journal_detail (Undecodable e)) (de v)) (catalog_of_wire is_nfc malformed_journal)"

definition removal_id :: "cbor \<Rightarrow> format_error + container_id" where
  "removal_id v =
     (case v of
        Bytes bytes \<Rightarrow>
          if length bytes = container_id_byte_len then Ok (ContainerId bytes)
          else Err (Model (InvalidByteLength container_id_byte_len (length bytes)))
      | other \<Rightarrow> Err (malformed_journal (''a removal is a byte string, found '' @ describe other)))"

definition addition_of ::
  "(cbor \<Rightarrow> cbor_failure + wire_catalog_entry) \<Rightarrow> (string \<Rightarrow> bool) \<Rightarrow> nat \<Rightarrow> fields \<Rightarrow> format_error + container_addition" where
  "addition_of de is_nfc i fs =
     and_then (container_from_fields fs malformed_journal) (\<lambda>container.
     and_then (array_field fs ''entries'') (\<lambda>items.
     and_then (collect_res (journal_entry de is_nfc) items) (\<lambda>pairs.
       map_err (addition_refused i) (addition_new container (map fst pairs) (map snd pairs)))))"

text \<open>\<open>KeyringCommitment::new\<close> on the three fields both payloads carry.\<close>

definition commitment_of :: "fields \<Rightarrow> format_error + keyring_commitment" where
  "commitment_of fs =
     and_then (generation_field fs ''keyring_generation'') (\<lambda>g.
     and_then (u16_field fs ''keyring_replica_count'') (\<lambda>n.
     and_then (text_field fs ''keyring_set_digest'') (\<lambda>digest.
       map_err Model (keyring_commitment_new g n digest))))"

definition library_name_of :: "fields \<Rightarrow> format_error + library_name option" where
  "library_name_of fs =
     and_then (optional_text_field fs ''library_name'') (\<lambda>text.
       transpose_opt (map_option (\<lambda>s. map_err Model (library_name_parse s)) text))"

definition journal_additions ::
  "(cbor \<Rightarrow> cbor_failure + wire_catalog_entry) \<Rightarrow> (string \<Rightarrow> bool) \<Rightarrow> fields \<Rightarrow> format_error + container_addition list" where
  "journal_additions de is_nfc fs =
     and_then (array_field fs ''additions'') (\<lambda>items.
       collect_res (\<lambda>(i, item). and_then (map_field fs item) (addition_of de is_nfc i)) (enumerate 0 items))"

definition journal_removals :: "fields \<Rightarrow> format_error + container_id list" where
  "journal_removals fs = and_then (array_field fs ''removals'') (\<lambda>items. collect_res removal_id items)"

definition journal_renames :: "(string \<Rightarrow> bool) \<Rightarrow> fields \<Rightarrow> format_error + entry_rename list" where
  "journal_renames is_nfc fs =
     (case get_field fs ''renames'' of
        None \<Rightarrow> Ok []
      | Some _ \<Rightarrow> and_then (array_field fs ''renames'') (\<lambda>items.
          collect_res (\<lambda>(i, item). and_then (map_field fs item) (rename_from_fields is_nfc malformed_journal i))
            (enumerate 0 items)))"

definition journal_of_fields ::
  "(cbor \<Rightarrow> cbor_failure + wire_catalog_entry) \<Rightarrow> (string \<Rightarrow> bool) \<Rightarrow> fields \<Rightarrow> control_payload \<Rightarrow> generation \<Rightarrow>
   format_error + journal_record" where
  "journal_of_fields de is_nfc fs payload g =
     and_then (journal_additions de is_nfc fs) (\<lambda>additions.
     and_then (journal_removals fs) (\<lambda>removals.
     and_then (journal_renames is_nfc fs) (\<lambda>renames.
     and_then (library_name_of fs) (\<lambda>library_name.
     and_then (optional_generation_field fs ''prev'') (\<lambda>prev.
     and_then (commitment_of fs) (\<lambda>keyring.
     and_then (optional_text_field fs ''next_commit_slot'') (\<lambda>next_slot.
     and_then (optional_text_field fs ''snapshot_slot'') (\<lambda>snapshot_slot.
       map_err journal_refused
         (and_then (journal_record_new g prev (pl_epoch payload) keyring next_slot snapshot_slot additions removals) (\<lambda>record.
          and_then (with_renames renames record) (\<lambda>record.
            Ok (with_library_name library_name record))))))))))))"

definition journal_decode ::
  "cbor_lib \<Rightarrow> (cbor \<Rightarrow> cbor_failure + wire_catalog_entry) \<Rightarrow> (string \<Rightarrow> bool) \<Rightarrow> control_payload \<Rightarrow> generation \<Rightarrow>
   format_error + journal_record" where
  "journal_decode L de is_nfc payload g =
     and_then (read_body L (pl_body payload) malformed_journal_detail JOURNAL_RECORD) (\<lambda>v.
     and_then (fields_of v malformed_journal) (\<lambda>fs.
     and_then (uint_field fs ''schema'') (\<lambda>schema.
       if schema < journal_lowest_read then Err (Catalog (UnsupportedJournalRecordSchema schema))
       else and_then (required_schema fs g) (\<lambda>_. journal_of_fields de is_nfc fs payload g))))"

section \<open>A record written is read back\<close>

definition carried_ok :: "(string \<Rightarrow> bool) \<Rightarrow> container_addition \<Rightarrow> bool" where
  "carried_ok is_nfc a \<longleftrightarrow> summary_ok (add_container a) \<and> addition_ok a \<and>
     (\<forall>e \<in> set (add_entries a). catalog_entry_ok is_nfc e) \<and> (\<forall>d \<in> set (add_deposits a). i64 (deposited_secs d))"

definition commitment_ok :: "keyring_commitment \<Rightarrow> bool" where
  "commitment_ok k \<longleftrightarrow> generation_ok (kc_generation k) \<and> kc_replica_count k < 2 ^ 16 \<and>
     keyring_commitment_new (kc_generation k) (kc_replica_count k) (kc_set_digest k) = Inr k"

definition library_name_ok :: "library_name \<Rightarrow> bool" where
  "library_name_ok n \<longleftrightarrow> library_name_parse (name_str n) = Inr n"

definition journal_ok :: "(string \<Rightarrow> bool) \<Rightarrow> journal_record \<Rightarrow> bool" where
  "journal_ok is_nfc r \<longleftrightarrow>
     generation_ok (jr_generation r) \<and> jr_prev r = predecessor_of (jr_generation r) \<and> commitment_ok (jr_keyring r) \<and>
     collections_ok (jr_additions r) (jr_removals r) \<and> (\<forall>a \<in> set (jr_additions r). carried_ok is_nfc a) \<and>
     (\<forall>c \<in> set (jr_removals r). container_id_ok c) \<and>
     sorted_wrt (<) (map order_key (jr_renames r)) \<and> (\<forall>n \<in> set (jr_renames r). renaming_ok is_nfc n) \<and>
     (\<forall>n. jr_library_name r = Some n \<longrightarrow> library_name_ok n)"

lemma predecessor_generation_ok: "generation_ok g \<Longrightarrow> predecessor_of g = Some p \<Longrightarrow> generation_ok p"
  by (auto simp: predecessor_of_eq generation_ok_def split: if_splits)

lemma journal_entry_read:
  assumes "catalog_serde_laws de" and "catalog_entry_ok is_nfc e" and "i64 (deposited_secs d)"
  shows "journal_entry de is_nfc (Map (catalog_fields (wire_of_catalog e d))) = Inr (e, d)"
proof -
  have "de (Map (catalog_fields (wire_of_catalog e d))) = Inr (wire_of_catalog e d)"
    using catalog_serde_read [OF assms(1) wire_of_catalog_ok [OF assms(2,3)], of "[]"] by simp
  then show ?thesis
    using catalog_of_wire_of_catalog [OF assms(2)] by (simp add: journal_entry_def)
qed

lemma addition_read:
  assumes de: "catalog_serde_laws de" and a: "carried_ok is_nfc a"
  shows "and_then (map_field fs (addition_value a)) (addition_of de is_nfc i) = Inr a"
proof -
  let ?items = "map (\<lambda>(e, d). Map (catalog_fields (wire_of_catalog e d))) (zip (add_entries a) (add_deposits a))"
  let ?fs = "\<lparr>f_entries = mb_value ''entries'' (Array ?items) (container_to_map (add_container a)), f_malformed = f_malformed fs\<rparr>"
  have ok: "addition_ok a" and len: "length (add_deposits a) = length (add_entries a)"
    using a by (auto simp: carried_ok_def addition_ok_iff)
  have "get_field ?fs ''entries'' = Some (Array ?items)"
    by (simp add: get_field_lookup lookup_built container_to_map_def)
  from array_read [OF this] have items: "array_field ?fs ''entries'' = Inr ?items" .
  have "collect_res (journal_entry de is_nfc) ?items = Inr (zip (add_entries a) (add_deposits a))"
    unfolding collect_res_Inr_iff list_all2_map1
  proof (rule list.rel_refl_strong)
    fix x assume mem: "x \<in> set (zip (add_entries a) (add_deposits a))"
    obtain e d where x: "x = (e, d)" by (cases x)
    have "catalog_entry_ok is_nfc e" "i64 (deposited_secs d)"
      using a set_zip_leftD [OF mem [unfolded x]] set_zip_rightD [OF mem [unfolded x]] by (simp_all add: carried_ok_def)
    then show "journal_entry de is_nfc ((\<lambda>(e, d). Map (catalog_fields (wire_of_catalog e d))) x) = Inr x"
      using journal_entry_read [OF de] by (simp add: x)
  qed
  then have "addition_of de is_nfc i ?fs = map_err (addition_refused i) (addition_new (add_container a) (add_entries a) (add_deposits a))"
    using items container_read(1) [of "add_container a"] a len by (simp add: addition_of_def carried_ok_def)
  also have "\<dots> = Inr a" using ok by (simp add: addition_ok_def)
  finally show ?thesis
    by (simp add: map_field_def addition_value_def mb_build_def)
qed

lemma addition_plain:
  assumes "carried_ok is_nfc a"
  shows "plain (addition_value a)"
proof -
  have "plain (Map (catalog_fields (wire_of_catalog e d)))" if "(e, d) \<in> set (zip (add_entries a) (add_deposits a))" for e d
    using assms that
    by (intro catalog_fields_plain wire_of_catalog_ok [of is_nfc])
      (auto simp: carried_ok_def dest: set_zip_leftD set_zip_rightD)
  moreover have "plain_map (container_to_map (add_container a))"
    using assms by (intro container_to_map_plain) (simp add: carried_ok_def)
  ultimately show ?thesis by (auto simp: addition_value_def plain_built simp del: plain.simps(5))
qed

lemma commitment_read:
  assumes "get_field fs ''keyring_generation'' = Some (Integer (int (gen (kc_generation k))))"
    and "get_field fs ''keyring_replica_count'' = Some (Integer (int (kc_replica_count k)))"
    and "get_field fs ''keyring_set_digest'' = Some (Txt (kc_set_digest k))" and "commitment_ok k"
  shows "commitment_of fs = Inr k"
  using generation_read [OF assms(1)] u16_read [OF assms(2)] text_read [OF assms(3)] assms(4)
  by (simp add: commitment_of_def commitment_ok_def)

lemma library_name_read:
  assumes "get_field fs ''library_name'' = map_option Txt (map_option name_str n)" and "\<forall>x. n = Some x \<longrightarrow> library_name_ok x"
  shows "library_name_of fs = Inr n"
  using optional_text_read [OF assms(1)] assms(2)
  by (cases n) (simp_all add: library_name_of_def transpose_opt_def library_name_ok_def)

lemma collect_indexed:
  assumes "\<And>i x. x \<in> set xs \<Longrightarrow> f i (g x) = Inr x"
  shows "collect_res (\<lambda>(i, item). f i item) (enumerate n (map g xs)) = Inr xs"
  unfolding collect_res_Inr_iff by (rule list_all2_all_nthI) (use assms in \<open>simp_all add: nth_enumerate_eq\<close>)

lemma journal_plain:
  assumes r: "journal_ok is_nfc r"
  shows "plain_map (journal_map r)"
proof -
  have prev: "\<forall>g. jr_prev r = Some g \<longrightarrow> generation_ok g"
    using r predecessor_generation_ok by (auto simp: journal_ok_def)
  have "\<forall>x \<in> set (jr_additions r). plain (addition_value x)" "\<forall>x \<in> set (jr_renames r). plain (rename_to_value x)"
    using r addition_plain rename_plain by (auto simp: journal_ok_def)
  moreover have "kc_replica_count (jr_keyring r) < 2 ^ 64" "gen (kc_generation (jr_keyring r)) < 2 ^ 64"
    "\<forall>x. map_option gen (jr_prev r) = Some x \<longrightarrow> x < 2 ^ 64"
    using r prev by (auto simp: journal_ok_def commitment_ok_def generation_ok_def max_format_integer_def)
  ultimately show ?thesis
    by (simp add: journal_map_def Let_def plain_built journal_schema_def journal_required_written_def)
qed

lemma journal_decode_encode:
  assumes L: "cbor_laws L" and de: "catalog_serde_laws de" and r: "journal_ok is_nfc r" and enc: "journal_encode L r = Inr p"
  shows "journal_decode L de is_nfc p (jr_generation r) = Inr r"
proof -
  let ?fs = "\<lparr>f_entries = journal_map r, f_malformed = malformed_journal\<rparr>"
  have body: "write_body L (mb_build (journal_map r)) JOURNAL_RECORD = Inr (pl_body p)" and epoch: "pl_epoch p = jr_epoch r"
    using enc by (auto simp: journal_encode_def and_then_Inr_iff)
  have prev: "\<forall>g. jr_prev r = Some g \<longrightarrow> generation_ok g"
    using r predecessor_generation_ok by (auto simp: journal_ok_def)
  note pl = journal_plain [OF r]
  have rd: "read_body L (pl_body p) malformed_journal_detail JOURNAL_RECORD = Inr (mb_build (journal_map r))"
    by (rule write_then_read [OF L registry_ok(2) _ body]) (use pl in \<open>simp add: plain_mb_build\<close>)
  have get: "get_field ?fs ''schema'' = Some (Integer (int journal_schema))"
    "get_field ?fs ''required_schema'' = map_option (\<lambda>n. Integer (int n)) (Some journal_required_written)"
    "get_field ?fs ''additions'' = Some (Array (map addition_value (jr_additions r)))"
    "get_field ?fs ''removals'' = Some (Array (map (\<lambda>c. Bytes (as_bytes c)) (jr_removals r)))"
    "get_field ?fs ''prev'' = map_option (\<lambda>n. Integer (int n)) (map_option gen (jr_prev r))"
    "get_field ?fs ''next_commit_slot'' = map_option Txt (jr_next_slot r)"
    "get_field ?fs ''snapshot_slot'' = map_option Txt (jr_snapshot_slot r)"
    "get_field ?fs ''renames'' = (if jr_renames r = [] then None else Some (Array (map rename_to_value (jr_renames r))))"
    "get_field ?fs ''library_name'' = map_option Txt (map_option name_str (jr_library_name r))"
    "get_field ?fs ''keyring_generation'' = Some (Integer (int (gen (kc_generation (jr_keyring r)))))"
    "get_field ?fs ''keyring_replica_count'' = Some (Integer (int (kc_replica_count (jr_keyring r))))"
    "get_field ?fs ''keyring_set_digest'' = Some (Txt (kc_set_digest (jr_keyring r)))"
    by (cases "jr_renames r"; simp add: get_field_lookup journal_map_def Let_def lookup_built)+
  have schema: "uint_field ?fs ''schema'' = Inr journal_schema" "journal_schema < journal_lowest_read \<longleftrightarrow> False"
    using uint_read [OF get(1)] by (simp_all add: journal_schema_def journal_lowest_read_def max_format_integer_def)
  have "required_schema ?fs (jr_generation r) = Inr ()"
    using optional_uint_read [OF get(2)]
    by (simp add: required_schema_def journal_required_written_def journal_schema_def journal_lowest_read_def max_format_integer_def)
  moreover have "journal_additions de is_nfc ?fs = Inr (jr_additions r)"
    unfolding journal_additions_def array_read [OF get(3)] and_then.simps
    by (rule collect_indexed, rule addition_read [OF de]) (use r in \<open>simp add: journal_ok_def\<close>)
  moreover have "journal_removals ?fs = Inr (jr_removals r)"
    unfolding journal_removals_def array_read [OF get(4)] and_then.simps collect_res_Inr_iff list_all2_map1
    by (rule list.rel_refl_strong) (use r in \<open>simp add: removal_id_def journal_ok_def container_id_ok_def\<close>)
  moreover have "journal_renames is_nfc ?fs = Inr (jr_renames r)"
  proof (cases "jr_renames r = []")
    case False
    then have g: "get_field ?fs ''renames'' = Some (Array (map rename_to_value (jr_renames r)))" using get(8) by simp
    have "collect_res (\<lambda>(i, item). and_then (map_field ?fs item) (rename_from_fields is_nfc malformed_journal i))
        (enumerate 0 (map rename_to_value (jr_renames r))) = Inr (jr_renames r)"
      by (rule collect_indexed, rule rename_read) (use r in \<open>simp add: journal_ok_def\<close>)
    then show ?thesis using g array_read [OF g] by (simp add: journal_renames_def)
  qed (use get(8) in \<open>simp add: journal_renames_def\<close>)
  moreover have "library_name_of ?fs = Inr (jr_library_name r)"
    by (rule library_name_read [OF get(9)]) (use r in \<open>simp add: journal_ok_def\<close>)
  moreover have "optional_generation_field ?fs ''prev'' = Inr (jr_prev r)" by (rule optional_generation_read [OF get(5) prev])
  moreover have "commitment_of ?fs = Inr (jr_keyring r)"
    by (rule commitment_read [OF get(10-12)]) (use r in \<open>simp add: journal_ok_def\<close>)
  moreover have "optional_text_field ?fs ''next_commit_slot'' = Inr (jr_next_slot r)"
    "optional_text_field ?fs ''snapshot_slot'' = Inr (jr_snapshot_slot r)"
    by (rule optional_text_read [OF get(6)], rule optional_text_read [OF get(7)])
  moreover have "and_then (journal_record_new (jr_generation r) (jr_prev r) (pl_epoch p) (jr_keyring r) (jr_next_slot r)
      (jr_snapshot_slot r) (jr_additions r) (jr_removals r)) (\<lambda>record.
        and_then (with_renames (jr_renames r) record) (\<lambda>record. Ok (with_library_name (jr_library_name r) record))) = Inr r"
    using r epoch by (cases r) (simp add: and_then_Inr_iff journal_record_new_Ok_iff with_renames_Ok_iff journal_ok_def with_library_name_def)
  ultimately show ?thesis
    unfolding journal_decode_def rd and_then.simps mb_build_def fields_of.simps schema if_False
    by (simp add: journal_of_fields_def)
qed

text \<open>Writing a record can fail in the CBOR library only: the registry has all of its fields.\<close>

lemma addition_registered: "\<exists>w. to_wire (addition_value a) ADDITION = Inr w"
proof -
  have "\<exists>w. to_wire (Map (catalog_fields e)) ADDITION_ENTRY = Inr w" for e
    using registered_to_wire [OF catalog_registered(1)] by (simp add: mb_build_def)
  then have "\<exists>w. to_wire (Array (map (\<lambda>(e, d). Map (catalog_fields (wire_of_catalog e d))) (zip (add_entries a) (add_deposits a))))
      ADDITION_ENTRY = Inr w"
    by (intro to_wire_Array_total) auto
  then show ?thesis
    unfolding addition_value_def
    by (intro registered_to_wire)
      (simp add: registered_mb_value container_registered, simp add: ADDITION_def live_by_name_def field_def holding_def)
qed

lemma journal_registered: "registered JOURNAL_RECORD (journal_map r)"
proof -
  have "\<exists>w. to_wire (Array (map addition_value as)) ADDITION = Inr w" for as
    by (rule to_wire_Array_total) (use addition_registered in auto)
  moreover have "\<exists>w. to_wire (Array (map rename_to_value rs)) RENAME = Inr w" for rs
    by (rule to_wire_Array_total) (use rename_registered in auto)
  moreover note arrays = calculation
  show ?thesis
    unfolding journal_map_def Let_def mb_uint_def mb_text_def
    using arrays
    by (auto intro!: registered_mb_optional
        simp: registered_mb_value registered_Nil JOURNAL_RECORD_def live_by_name_def field_def holding_def)
qed

lemma journal_encode_refused: "journal_encode L r = Inl e \<Longrightarrow> \<exists>c. e = ControlPayloadEncodeFailed c"
  using registered_to_wire [OF journal_registered [of r]]
  by (auto simp: journal_encode_def write_body_def and_then_Inl_iff map_err_Inl_iff)

section \<open>What is read\<close>

lemma addition_of_ok: "addition_of de is_nfc i fs = Inr a \<Longrightarrow> addition_ok a"
  by (auto simp: addition_of_def and_then_Inr_iff map_err_Inr_iff dest: addition_new_ok)

lemma commitment_of_new: "commitment_of fs = Inr k \<Longrightarrow> kc_replica_count k \<noteq> 0 \<and> is_nonempty_lowercase_hex (kc_set_digest k)"
  by (auto simp: commitment_of_def and_then_Inr_iff map_err_Inr_iff keyring_commitment_new_def split: if_splits)

lemma journal_decode_ok:
  assumes "journal_decode L de is_nfc p g = Inr r"
  shows "jr_generation r = g" and "jr_prev r = predecessor_of g" and "jr_epoch r = pl_epoch p"
    and "collections_ok (jr_additions r) (jr_removals r)" and "\<forall>a \<in> set (jr_additions r). addition_ok a"
    and "sorted_wrt (<) (map order_key (jr_renames r))" and "\<forall>n \<in> set (jr_renames r). rename_ok n"
    and "kc_replica_count (jr_keyring r) \<noteq> 0"
proof -
  obtain fs where fields: "journal_of_fields de is_nfc fs p g = Inr r"
    using assms by (auto simp: journal_decode_def and_then_Inr_iff split: if_splits)
  then obtain additions removals renames name prev keyring ns ss rec rec' where
    as: "journal_additions de is_nfc fs = Inr additions" and rns: "journal_renames is_nfc fs = Inr renames"
    and k: "commitment_of fs = Inr keyring"
    and new: "journal_record_new g prev (pl_epoch p) keyring ns ss additions removals = Inr rec"
      "with_renames renames rec = Inr rec'" "r = with_library_name name rec'"
    unfolding journal_of_fields_def and_then_Inr_iff map_err_Inr_iff by blast
  show "jr_generation r = g" "jr_prev r = predecessor_of g" "jr_epoch r = pl_epoch p"
    "collections_ok (jr_additions r) (jr_removals r)" "sorted_wrt (<) (map order_key (jr_renames r))"
    using new by (auto simp: journal_record_new_Ok_iff with_renames_Ok_iff with_library_name_def)
  have f: "jr_additions r = additions" "jr_renames r = renames" "jr_keyring r = keyring"
    using new by (auto simp: journal_record_new_Ok_iff with_renames_Ok_iff with_library_name_def)
  show "kc_replica_count (jr_keyring r) \<noteq> 0" using commitment_of_new [OF k] f by simp
  obtain items where "collect_res (\<lambda>(i, item). and_then (map_field fs item) (addition_of de is_nfc i)) (enumerate 0 items) = Inr additions"
    using as by (auto simp: journal_additions_def and_then_Inr_iff)
  from collect_res_mem [OF this] show "\<forall>a \<in> set (jr_additions r). addition_ok a"
    by (fastforce simp: f and_then_Inr_iff dest: addition_of_ok)
  show "\<forall>n \<in> set (jr_renames r). rename_ok n"
  proof (cases "get_field fs ''renames''")
    case (Some x)
    then obtain items where "collect_res (\<lambda>(i, item). and_then (map_field fs item) (rename_from_fields is_nfc malformed_journal i))
        (enumerate 0 items) = Inr renames"
      using rns by (auto simp: journal_renames_def and_then_Inr_iff)
    from collect_res_mem [OF this] show ?thesis
      by (fastforce simp: f and_then_Inr_iff dest: rename_from_fields_ok)
  qed (use rns f in \<open>simp add: journal_renames_def\<close>)
qed

text \<open>A record that needs a newer build is refused for that, before anything else of it is read.\<close>

lemma journal_needs_newer:
  assumes "read_body L (pl_body p) malformed_journal_detail JOURNAL_RECORD = Inr v"
    and "fields_of v malformed_journal = Inr fs" and "uint_field fs ''schema'' = Inr schema" and "journal_lowest_read \<le> schema"
    and "optional_uint_field fs ''required_schema'' = Inr (Some required)" and "journal_schema < required"
  shows "journal_decode L de is_nfc p g = Inl (Catalog (JournalRecordNeedsNewerBuild g required journal_schema))"
  using assms by (simp add: journal_decode_def required_schema_def)

end
