(* ===== verification/Snapshot_Payload.thy ===== *)
theory Snapshot_Payload
  imports Journal_Payload
begin

text \<open>
  \<open>coffret-format/src/control/index_snapshot\<close>: an Index Snapshot as the body of a control payload, ordinary or
  activating. An Entry names its Container by position; a Snapshot written is the Snapshot read back, less the
  provenance that belongs to the Index that wrote it.
\<close>

record snapshot_activation =
  sa_base_head :: generation
  sa_slot :: "string option"

record snapshot_payload =
  sp_content :: snapshot_content
  sp_activation :: "snapshot_activation option"

definition snapshot_ordinary :: "snapshot_content \<Rightarrow> snapshot_payload" where
  "snapshot_ordinary snapshot = \<lparr>sp_content = snapshot, sp_activation = None\<rparr>"

definition snapshot_activating :: "snapshot_content \<Rightarrow> snapshot_activation \<Rightarrow> snapshot_payload" where
  "snapshot_activating snapshot activation = \<lparr>sp_content = snapshot, sp_activation = Some activation\<rparr>"

definition snapshot_object_kind :: "snapshot_payload \<Rightarrow> control_object_kind" where
  "snapshot_object_kind p = (case sp_activation p of Some _ \<Rightarrow> ActivationSnapshot | None \<Rightarrow> IndexSnapshot)"

definition snapshot_schema :: nat where
  "snapshot_schema = 5"

definition snapshot_lowest_read :: nat where
  "snapshot_lowest_read = 4"

definition malformed_snapshot_detail :: "malformed_detail \<Rightarrow> format_error" where
  "malformed_snapshot_detail d = Catalog (MalformedIndexSnapshot d)"

definition malformed_snapshot :: "string \<Rightarrow> format_error" where
  "malformed_snapshot detail = malformed_snapshot_detail (Written detail)"

section \<open>Writing\<close>

definition container_positions :: "container_summary list \<Rightarrow> (container_id, nat) btree" where
  "container_positions containers = bt_collect (map (\<lambda>(position, c). (cid c, position)) (enumerate 0 containers))"

definition snapshot_entry_value :: "(container_id, nat) btree \<Rightarrow> nat \<times> entry_location \<Rightarrow> format_error + cbor" where
  "snapshot_entry_value positions = (\<lambda>(i, location).
     case bt_get positions (loc_container location) of
       None \<Rightarrow> Err (Catalog (FmtSnapshotEntryWithoutContainer i (loc_container location)))
     | Some container \<Rightarrow>
         Ok (Map (catalog_fields (wire_of_catalog (loc_entry location) (loc_deposited location)) @
           [(Txt ''container'', Integer (int container)), (Txt ''entry'', Integer (int (number (loc_number location))))])))"

definition snapshot_map :: "snapshot_payload \<Rightarrow> cbor list \<Rightarrow> map_builder" where
  "snapshot_map p entries =
     (let snapshot = sp_content p; cp = sn_checkpoint snapshot;
          m = mb_text ''keyring_set_digest'' (kc_set_digest (cp_keyring cp))
                (mb_uint ''keyring_replica_count'' (kc_replica_count (cp_keyring cp))
                  (mb_uint ''keyring_generation'' (gen (kc_generation (cp_keyring cp)))
                    (mb_optional_text ''next_commit_slot'' (cp_slot cp)
                      (mb_uint ''journal_generation'' (gen (cp_journal cp))
                        (mb_uint ''head_generation'' (gen (cp_head cp)) (mb_uint ''schema'' snapshot_schema []))))));
          m = mb_optional_text ''library_name'' (map_option name_str (sn_library_name snapshot))
                (mb_value ''entries'' (Array entries)
                  (mb_value ''containers'' (Array (map (\<lambda>c. mb_build (container_to_map c)) (sn_containers snapshot))) m))
      in case sp_activation p of
           Some a \<Rightarrow> mb_optional_text ''activation_slot'' (sa_slot a) (mb_uint ''base_head_generation'' (gen (sa_base_head a)) m)
         | None \<Rightarrow> m)"

definition snapshot_encode :: "cbor_lib \<Rightarrow> snapshot_payload \<Rightarrow> format_error + control_payload" where
  "snapshot_encode L p =
     (let snapshot = sp_content p
      in and_then (collect_res (snapshot_entry_value (container_positions (sn_containers snapshot)))
                     (enumerate 0 (sn_entries snapshot))) (\<lambda>entries.
         and_then (write_body L (mb_build (snapshot_map p entries)) INDEX_SNAPSHOT) (\<lambda>body.
           Ok \<lparr>pl_epoch = cp_epoch (sn_checkpoint snapshot), pl_body = body\<rparr>)))"

section \<open>Reading\<close>

definition snapshot_refused :: "model_error \<Rightarrow> format_error" where
  "snapshot_refused e =
     (case e of
        CollectionOutOfCanonicalOrder collection i \<Rightarrow> ControlPayloadOutOfOrder collection i
      | SnapshotEntryWithoutContainer i c \<Rightarrow> Catalog (FmtSnapshotEntryWithoutContainer i c)
      | SnapshotNamesOneEntryTwice i c n \<Rightarrow> Catalog (FmtSnapshotNamesOneEntryTwice i c n)
      | CheckpointJournalAheadOfHead h j \<Rightarrow> Catalog (FmtCheckpointJournalAheadOfHead h j)
      | other \<Rightarrow> Model other)"

definition activation_of :: "fields \<Rightarrow> bool \<Rightarrow> generation \<Rightarrow> format_error + snapshot_activation option" where
  "activation_of fs activating head_generation =
     (if \<not> activating
      then and_then (collect_res (\<lambda>field_key. if get_field fs field_key \<noteq> None
                then Err (Catalog (ActivationFieldOnOrdinarySnapshot field_key)) else Ok ())
              [''base_head_generation'', ''activation_slot'']) (\<lambda>_. Ok None)
      else and_then (optional_generation_field fs ''base_head_generation'') (\<lambda>found.
           and_then (ok_or (Catalog (ActivationSnapshotFieldMissing ''base_head_generation'')) found) (\<lambda>base.
             if base \<ge> head_generation then Err (Catalog (ActivationBaseHeadNotEarlier head_generation base))
             else and_then (optional_text_field fs ''activation_slot'') (\<lambda>slot.
                  Ok (Some \<lparr>sa_base_head = base, sa_slot = slot\<rparr>)))))"

definition snapshot_entry_of ::
  "(cbor \<Rightarrow> cbor_failure + wire_catalog_entry) \<Rightarrow> (string \<Rightarrow> bool) \<Rightarrow> fields \<Rightarrow> container_summary list \<Rightarrow> nat \<times> cbor \<Rightarrow>
   format_error + entry_location" where
  "snapshot_entry_of de is_nfc outer containers = (\<lambda>(i, v).
     and_then (map_field outer v) (\<lambda>fs.
     and_then (uint_field fs ''container'') (\<lambda>container.
     and_then (ok_or (Catalog (DanglingContainerIndex i container (length containers)))
                 (Option.bind (to_usize container) (\<lambda>position. if position < length containers then Some position else None)))
       (\<lambda>position.
     and_then (entry_number_field fs ''entry'' malformed_snapshot) (\<lambda>n.
     and_then (map_err (\<lambda>e. malformed_snapshot_detail (Undecodable e)) (de v)) (\<lambda>wire.
     and_then (catalog_of_wire is_nfc malformed_snapshot wire) (\<lambda>(entry, deposited).
       Ok \<lparr>loc_container = cid (containers ! position), loc_number = n, loc_entry = entry, loc_deposited = deposited\<rparr>)))))))"

definition snapshot_of_fields ::
  "(cbor \<Rightarrow> cbor_failure + wire_catalog_entry) \<Rightarrow> (string \<Rightarrow> bool) \<Rightarrow> fields \<Rightarrow> control_payload \<Rightarrow> bool \<Rightarrow> generation \<Rightarrow>
   format_error + snapshot_payload" where
  "snapshot_of_fields de is_nfc fs payload activating g =
     and_then (array_field fs ''containers'') (\<lambda>container_items.
     and_then (collect_res (\<lambda>v. and_then (map_field fs v) (\<lambda>cf. container_from_fields cf malformed_snapshot)) container_items)
       (\<lambda>containers.
     and_then (array_field fs ''entries'') (\<lambda>entry_items.
     and_then (collect_res (snapshot_entry_of de is_nfc fs containers) (enumerate 0 entry_items)) (\<lambda>entries.
     and_then (generation_field fs ''head_generation'') (\<lambda>head.
       if head \<noteq> g then Err (Catalog (SnapshotCheckpointsAnotherHead g head))
       else and_then (generation_field fs ''journal_generation'') (\<lambda>journal.
            and_then (optional_text_field fs ''next_commit_slot'') (\<lambda>slot.
            and_then (commitment_of fs) (\<lambda>keyring.
            and_then (map_err snapshot_refused (checkpoint_new (pl_epoch payload) head journal slot keyring)) (\<lambda>cp.
            and_then (library_name_of fs) (\<lambda>library_name.
            and_then (map_err snapshot_refused (snapshot_new cp None containers entries)) (\<lambda>snapshot.
            and_then (activation_of fs activating head) (\<lambda>activation.
              Ok \<lparr>sp_content = snapshot_with_library_name library_name snapshot, sp_activation = activation\<rparr>))))))))))))"

definition snapshot_decode ::
  "cbor_lib \<Rightarrow> (cbor \<Rightarrow> cbor_failure + wire_catalog_entry) \<Rightarrow> (string \<Rightarrow> bool) \<Rightarrow> control_payload \<Rightarrow> control_object_kind \<Rightarrow>
   generation \<Rightarrow> format_error + snapshot_payload" where
  "snapshot_decode L de is_nfc payload k g =
     and_then (case k of IndexSnapshot \<Rightarrow> Ok False | ActivationSnapshot \<Rightarrow> Ok True
               | other \<Rightarrow> Err (Catalog (NotAnIndexSnapshotKind other))) (\<lambda>activating.
     and_then (read_body L (pl_body payload) malformed_snapshot_detail INDEX_SNAPSHOT) (\<lambda>v.
     and_then (fields_of v malformed_snapshot) (\<lambda>fs.
     and_then (uint_field fs ''schema'') (\<lambda>schema.
       if schema < snapshot_lowest_read then Err (Catalog (UnsupportedIndexSnapshotSchema schema))
       else snapshot_of_fields de is_nfc fs payload activating g))))"

section \<open>A Snapshot written is read back\<close>

definition location_ok :: "(string \<Rightarrow> bool) \<Rightarrow> entry_location \<Rightarrow> bool" where
  "location_ok is_nfc l \<longleftrightarrow> entry_number_ok (loc_number l) \<and> catalog_entry_ok is_nfc (loc_entry l) \<and> i64 (deposited_secs (loc_deposited l))"

definition snapshot_payload_ok :: "(string \<Rightarrow> bool) \<Rightarrow> snapshot_payload \<Rightarrow> bool" where
  "snapshot_payload_ok is_nfc p \<longleftrightarrow>
     (let s = sp_content p; cp = sn_checkpoint s
      in snapshot_ok s \<and> checkpoint_ok cp \<and> generation_ok (cp_head cp) \<and> generation_ok (cp_journal cp) \<and>
         commitment_ok (cp_keyring cp) \<and> length (sn_containers s) \<le> max_format_integer \<and>
         (\<forall>c \<in> set (sn_containers s). summary_ok c) \<and> (\<forall>l \<in> set (sn_entries s). location_ok is_nfc l) \<and>
         (\<forall>n. sn_library_name s = Some n \<longrightarrow> library_name_ok n) \<and>
         (\<forall>a. sp_activation p = Some a \<longrightarrow> generation_ok (sa_base_head a) \<and> sa_base_head a < cp_head cp))"

lemma container_positions_get:
  assumes "distinct (map cid cs)"
  shows "bt_get (container_positions cs) x = Some i \<longleftrightarrow> i < length cs \<and> cid (cs ! i) = x"
proof -
  let ?kvs = "map (\<lambda>(position, c). (cid c, position)) (enumerate 0 cs)"
  have "map fst (map (\<lambda>(position, c). (cid c, position)) (enumerate n cs)) = map cid cs" for n
    by (induction cs arbitrary: n) simp_all
  then have fst: "map fst ?kvs = map cid cs" .
  have "distinct (map fst (rev ?kvs))" using assms fst by (simp only: rev_map [symmetric] distinct_rev)
  then have "bt_get (container_positions cs) x = Some i \<longleftrightarrow> (x, i) \<in> set ?kvs"
    unfolding container_positions_def bt_get_collect by (simp only: map_of_eq_Some_iff set_rev)
  also have "\<dots> \<longleftrightarrow> i < length cs \<and> cid (cs ! i) = x"
    by (auto simp: in_set_enumerate_eq image_iff intro!: bexI [of _ "(i, cs ! i)"])
  finally show ?thesis .
qed

lemma snapshot_entry_read:
  assumes de: "catalog_serde_laws de" and l: "location_ok is_nfc l" and i: "i < length cs" "cid (cs ! i) = loc_container l"
    and len: "length cs \<le> max_format_integer"
  shows "snapshot_entry_of de is_nfc fs cs (n, Map (catalog_fields (wire_of_catalog (loc_entry l) (loc_deposited l)) @
      [(Txt ''container'', Integer (int i)), (Txt ''entry'', Integer (int (number (loc_number l))))])) = Inr l"
proof -
  let ?w = "wire_of_catalog (loc_entry l) (loc_deposited l)"
  let ?others = "[(Txt ''container'', Integer (int i)), (Txt ''entry'', Integer (int (number (loc_number l))))]"
  let ?fs = "\<lparr>f_entries = catalog_fields ?w @ ?others, f_malformed = f_malformed fs\<rparr>"
  have other: "lookup (catalog_fields ?w) ''container'' = None" "lookup (catalog_fields ?w) ''entry'' = None"
    by (cases "wc_captured_path ?w"; cases "wc_btime ?w"; cases "wc_derived_from ?w"; cases "wc_mime ?w";
        simp add: catalog_fields_def opt_field_def lookup_Cons lookup_Nil)+
  have get: "get_field ?fs ''container'' = Some (Integer (int i))"
    "get_field ?fs ''entry'' = Some (Integer (int (number (loc_number l))))"
    by (simp_all add: get_field_lookup lookup_append other lookup_Cons)
  have ok: "catalog_entry_ok is_nfc (loc_entry l)" "i64 (deposited_secs (loc_deposited l))" "entry_number_ok (loc_number l)"
    using l by (simp_all add: location_ok_def)
  have "de (Map (catalog_fields ?w @ ?others)) = Inr ?w"
    by (rule catalog_serde_read [OF de wire_of_catalog_ok [OF ok(1,2)]]) (simp add: catalog_field_names_def)
  moreover have "uint_field ?fs ''container'' = Inr i" by (rule uint_read [OF get(1)]) (use i len in simp)
  moreover have "to_usize i = Some i" using i len by (simp add: to_usize_def usize_bits_def max_format_integer_def)
  ultimately show ?thesis
    using i entry_number_read [OF get(2) ok(3)] catalog_of_wire_of_catalog [OF ok(1)]
    by (cases l) (simp add: snapshot_entry_of_def map_field_def)
qed

lemma activation_read:
  assumes "get_field fs ''base_head_generation'' = map_option (\<lambda>n. Integer (int n)) (map_option gen (map_option sa_base_head a))"
    and "get_field fs ''activation_slot'' = map_option Txt (Option.bind a sa_slot)"
    and "\<forall>x. a = Some x \<longrightarrow> generation_ok (sa_base_head x) \<and> sa_base_head x < head"
  shows "activation_of fs (a \<noteq> None) head = Inr a"
proof (cases a)
  case None
  then show ?thesis using assms(1,2) by (simp add: activation_of_def)
next
  case (Some x)
  have "optional_generation_field fs ''base_head_generation'' = Inr (map_option sa_base_head a)"
    by (rule optional_generation_read [OF assms(1)]) (use assms(3) in auto)
  then show ?thesis
    using Some assms(3) optional_text_read [OF assms(2)] by (simp add: activation_of_def not_le)
qed

text \<open>The entries of the payload: each is its location's fields with the place of its Container among the Containers.\<close>

lemma snapshot_entries_written:
  assumes "distinct (map cid cs)" and "collect_res (snapshot_entry_value (container_positions cs)) (enumerate 0 ls) = Inr entries"
    and "n < length ls"
  shows "\<exists>i. i < length cs \<and> cid (cs ! i) = loc_container (ls ! n) \<and>
      entries ! n = Map (catalog_fields (wire_of_catalog (loc_entry (ls ! n)) (loc_deposited (ls ! n))) @
        [(Txt ''container'', Integer (int i)), (Txt ''entry'', Integer (int (number (loc_number (ls ! n)))))])"
proof -
  have "snapshot_entry_value (container_positions cs) (n, ls ! n) = Inr (entries ! n)"
    using assms(2,3) by (auto simp: collect_res_Inr_iff list_all2_conv_all_nth nth_enumerate_eq)
  then obtain i where i: "bt_get (container_positions cs) (loc_container (ls ! n)) = Some i"
    and e: "entries ! n = Map (catalog_fields (wire_of_catalog (loc_entry (ls ! n)) (loc_deposited (ls ! n))) @
      [(Txt ''container'', Integer (int i)), (Txt ''entry'', Integer (int (number (loc_number (ls ! n)))))])"
    by (auto simp: snapshot_entry_value_def split: option.splits)
  then show ?thesis using container_positions_get [OF assms(1)] by blast
qed

lemma snapshot_plain:
  assumes p: "snapshot_payload_ok is_nfc p"
    and entries: "collect_res (snapshot_entry_value (container_positions (sn_containers (sp_content p))))
      (enumerate 0 (sn_entries (sp_content p))) = Inr entries"
  shows "plain_map (snapshot_map p entries)"
proof -
  define s cp where "s = sp_content p" and "cp = sn_checkpoint s"
  let ?cs = "sn_containers s" and ?ls = "sn_entries s"
  note ok = p [unfolded snapshot_payload_ok_def Let_def, folded s_def, folded cp_def]
  have dist: "distinct (map cid ?cs)" using ok by (simp add: snapshot_ok_def snapshot_parts_ok_def)
  note nth = snapshot_entries_written [OF dist entries [folded s_def]]
  have len: "length entries = length ?ls" using collect_res_length [OF entries] by (simp add: s_def)
  have small: "length ?cs < 2 ^ 64" using ok by (simp add: max_format_integer_def)
  have "plain v" if "v \<in> set entries" for v
  proof -
    from that obtain n where n: "n < length ?ls" "v = entries ! n" using len by (auto simp: in_set_conv_nth)
    have "location_ok is_nfc (?ls ! n)" using ok n(1) by simp
    then have "plain (Map (catalog_fields (wire_of_catalog (loc_entry (?ls ! n)) (loc_deposited (?ls ! n)))))"
      and "number (loc_number (?ls ! n)) < 2 ^ 64"
      using catalog_fields_plain wire_of_catalog_ok by (auto simp: location_ok_def entry_number_ok_def)
    then show ?thesis using nth [OF n(1)] n(2) small by auto
  qed
  moreover have "\<forall>c \<in> set ?cs. plain_map (container_to_map c)" using ok container_to_map_plain by blast
  moreover have "kc_replica_count (cp_keyring cp) < 2 ^ 64" "gen (kc_generation (cp_keyring cp)) < 2 ^ 64"
    "gen (cp_head cp) < 2 ^ 64" "gen (cp_journal cp) < 2 ^ 64" "\<forall>a. sp_activation p = Some a \<longrightarrow> gen (sa_base_head a) < 2 ^ 64"
    using ok by (auto simp: commitment_ok_def generation_ok_def max_format_integer_def)
  ultimately show ?thesis
    by (cases "sp_activation p")
      (simp_all add: snapshot_map_def Let_def plain_built snapshot_schema_def s_def [symmetric] cp_def [symmetric])
qed

lemma snapshot_decode_encode:
  assumes L: "cbor_laws L" and de: "catalog_serde_laws de" and p: "snapshot_payload_ok is_nfc p" and enc: "snapshot_encode L p = Inr b"
  shows "snapshot_decode L de is_nfc b (snapshot_object_kind p) (cp_head (sn_checkpoint (sp_content p))) =
    Inr (p\<lparr>sp_content := (sp_content p)\<lparr>sn_adopted := None\<rparr>\<rparr>)"
proof -
  define s cp where "s = sp_content p" and "cp = sn_checkpoint s"
  let ?cs = "sn_containers s" and ?ls = "sn_entries s"
  note ok = p [unfolded snapshot_payload_ok_def Let_def, folded s_def, folded cp_def]
  have sok: "snapshot_ok s" using ok by simp
  then have dist: "distinct (map cid ?cs)" by (simp add: snapshot_ok_def snapshot_parts_ok_def)
  obtain entries where entries: "collect_res (snapshot_entry_value (container_positions ?cs)) (enumerate 0 ?ls) = Inr entries"
    and body: "write_body L (mb_build (snapshot_map p entries)) INDEX_SNAPSHOT = Inr (pl_body b)" and epoch: "pl_epoch b = cp_epoch cp"
    using enc by (auto simp: snapshot_encode_def Let_def and_then_Inr_iff s_def cp_def)
  let ?fs = "\<lparr>f_entries = snapshot_map p entries, f_malformed = malformed_snapshot\<rparr>"
  have len: "length entries = length ?ls" using collect_res_length [OF entries] by simp
  note nth = snapshot_entries_written [OF dist entries]
  have small: "length ?cs < 2 ^ 64" using ok by (simp add: max_format_integer_def)
  note pl = snapshot_plain [OF p entries [unfolded s_def], folded s_def]
  have rd: "read_body L (pl_body b) malformed_snapshot_detail INDEX_SNAPSHOT = Inr (mb_build (snapshot_map p entries))"
    by (rule write_then_read [OF L registry_ok(3) _ body]) (use pl in \<open>simp add: plain_mb_build\<close>)
  have get: "get_field ?fs ''schema'' = Some (Integer (int snapshot_schema))"
    "get_field ?fs ''containers'' = Some (Array (map (\<lambda>c. mb_build (container_to_map c)) ?cs))"
    "get_field ?fs ''entries'' = Some (Array entries)"
    "get_field ?fs ''head_generation'' = Some (Integer (int (gen (cp_head cp))))"
    "get_field ?fs ''journal_generation'' = Some (Integer (int (gen (cp_journal cp))))"
    "get_field ?fs ''next_commit_slot'' = map_option Txt (cp_slot cp)"
    "get_field ?fs ''keyring_generation'' = Some (Integer (int (gen (kc_generation (cp_keyring cp)))))"
    "get_field ?fs ''keyring_replica_count'' = Some (Integer (int (kc_replica_count (cp_keyring cp))))"
    "get_field ?fs ''keyring_set_digest'' = Some (Txt (kc_set_digest (cp_keyring cp)))"
    "get_field ?fs ''library_name'' = map_option Txt (map_option name_str (sn_library_name s))"
    "get_field ?fs ''base_head_generation'' =
       map_option (\<lambda>n. Integer (int n)) (map_option gen (map_option sa_base_head (sp_activation p)))"
    "get_field ?fs ''activation_slot'' = map_option Txt (Option.bind (sp_activation p) sa_slot)"
    by (cases "sp_activation p"; simp add: get_field_lookup snapshot_map_def Let_def lookup_built s_def cp_def)+
  have "uint_field ?fs ''schema'' = Inr snapshot_schema" "snapshot_schema < snapshot_lowest_read \<longleftrightarrow> False"
    using uint_read [OF get(1)] by (simp_all add: snapshot_schema_def snapshot_lowest_read_def max_format_integer_def)
  note schema = this
  have "collect_res (\<lambda>v. and_then (map_field ?fs v) (\<lambda>cf. container_from_fields cf malformed_snapshot))
      (map (\<lambda>c. mb_build (container_to_map c)) ?cs) = Inr ?cs"
    unfolding collect_res_Inr_iff list_all2_map1
    by (rule list.rel_refl_strong) (use ok in \<open>simp add: map_field_def mb_build_def container_read(2)\<close>)
  moreover have "collect_res (snapshot_entry_of de is_nfc ?fs ?cs) (enumerate 0 entries) = Inr ?ls"
    unfolding collect_res_Inr_iff
  proof (rule list_all2_all_nthI)
    fix n assume "n < length (enumerate 0 entries)"
    then have n: "n < length ?ls" by (simp add: len)
    obtain i where i: "i < length ?cs" "cid (?cs ! i) = loc_container (?ls ! n)"
      and e: "entries ! n = Map (catalog_fields (wire_of_catalog (loc_entry (?ls ! n)) (loc_deposited (?ls ! n))) @
        [(Txt ''container'', Integer (int i)), (Txt ''entry'', Integer (int (number (loc_number (?ls ! n)))))])"
      using nth [OF n] by blast
    have "location_ok is_nfc (?ls ! n)" using ok n by simp
    from snapshot_entry_read [OF de this i] ok
    show "snapshot_entry_of de is_nfc ?fs ?cs (enumerate 0 entries ! n) = Inr (?ls ! n)"
      using n len by (simp add: nth_enumerate_eq e)
  qed (simp add: len)
  moreover have "generation_field ?fs ''head_generation'' = Inr (cp_head cp)" "generation_field ?fs ''journal_generation'' = Inr (cp_journal cp)"
    by (rule generation_read [OF get(4)], use ok in simp, rule generation_read [OF get(5)], use ok in simp)
  moreover have "optional_text_field ?fs ''next_commit_slot'' = Inr (cp_slot cp)" by (rule optional_text_read [OF get(6)])
  moreover have "commitment_of ?fs = Inr (cp_keyring cp)" by (rule commitment_read [OF get(7-9)]) (use ok in simp)
  moreover have "library_name_of ?fs = Inr (sn_library_name s)" by (rule library_name_read [OF get(10)]) (use ok in simp)
  moreover have "activation_of ?fs (sp_activation p \<noteq> None) (cp_head cp) = Inr (sp_activation p)"
    by (rule activation_read [OF get(11,12)]) (use ok in simp)
  moreover have "checkpoint_new (pl_epoch b) (cp_head cp) (cp_journal cp) (cp_slot cp) (cp_keyring cp) = Inr cp"
    using ok epoch by (cases cp) (simp add: checkpoint_new_Ok_iff)
  moreover have "snapshot_new cp None ?cs ?ls = Inr (s\<lparr>sn_adopted := None, sn_library_name := None\<rparr>)"
    using sok by (cases s) (simp add: snapshot_new_Ok_iff snapshot_ok_def cp_def)
  moreover have named: "snapshot_with_library_name (sn_library_name s) (s\<lparr>sn_adopted := None, sn_library_name := None\<rparr>) =
      s\<lparr>sn_adopted := None\<rparr>"
    by (cases s) (simp add: snapshot_with_library_name_def)
  moreover have rebuilt: "\<lparr>sp_content = c, sp_activation = sp_activation p\<rparr> = p\<lparr>sp_content := c\<rparr>" for c
    by (cases p) simp
  ultimately have "snapshot_of_fields de is_nfc ?fs b (sp_activation p \<noteq> None) (cp_head cp) =
      Inr (p\<lparr>sp_content := s\<lparr>sn_adopted := None\<rparr>\<rparr>)"
    by (simp add: snapshot_of_fields_def array_read [OF get(2)] array_read [OF get(3)] named rebuilt)
  moreover have "(case snapshot_object_kind p of IndexSnapshot \<Rightarrow> Ok False | ActivationSnapshot \<Rightarrow> Ok True
      | other \<Rightarrow> Err (Catalog (NotAnIndexSnapshotKind other))) = Inr (sp_activation p \<noteq> None)"
    by (cases "sp_activation p") (simp_all add: snapshot_object_kind_def)
  ultimately show ?thesis
    unfolding s_def [symmetric] cp_def [symmetric] snapshot_decode_def rd and_then.simps mb_build_def fields_of.simps
      schema if_False by (simp only: and_then.simps)
qed

text \<open>Writing a Snapshot can fail in the CBOR library only.\<close>

lemma snapshot_registered:
  assumes "snapshot_ok (sp_content p)"
  obtains entries where
    "collect_res (snapshot_entry_value (container_positions (sn_containers (sp_content p)))) (enumerate 0 (sn_entries (sp_content p))) =
      Inr entries"
    and "registered INDEX_SNAPSHOT (snapshot_map p entries)"
proof -
  let ?cs = "sn_containers (sp_content p)" and ?ls = "sn_entries (sp_content p)"
  have dist: "distinct (map cid ?cs)" and covered: "loc_container ` set ?ls \<subseteq> cid ` set ?cs"
    using assms by (simp_all add: snapshot_ok_def snapshot_parts_ok_def)
  have position: "\<exists>i. bt_get (container_positions ?cs) (loc_container l) = Some i" if "l \<in> set ?ls" for l
  proof -
    from that covered have "loc_container l \<in> cid ` set ?cs" by blast
    then obtain i where "i < length ?cs" "cid (?cs ! i) = loc_container l" by (metis imageE in_set_conv_nth)
    then show ?thesis using container_positions_get [OF dist] by blast
  qed
  obtain entries where entries: "collect_res (snapshot_entry_value (container_positions ?cs)) (enumerate 0 ?ls) = Inr entries"
  proof -
    have "\<exists>ys. collect_res (snapshot_entry_value (container_positions ?cs)) (enumerate 0 ?ls) = Inr ys"
    proof (rule collect_res_total)
      fix x assume mem: "x \<in> set (enumerate 0 ?ls)"
      then have "fst x < length ?ls" "?ls ! fst x = snd x" by (simp_all add: in_set_enumerate_eq)
      then have "snd x \<in> set ?ls" by (metis nth_mem)
      then obtain n l where x: "x = (n, l)" "l \<in> set ?ls" by (metis surjective_pairing)
      from position [OF x(2)] obtain i where "bt_get (container_positions ?cs) (loc_container l) = Some i" by blast
      then show "\<exists>y. snapshot_entry_value (container_positions ?cs) x = Inr y" by (simp add: snapshot_entry_value_def x)
    qed
    then show thesis using that by blast
  qed
  have "\<exists>w. to_wire v SNAPSHOT_ENTRY = Inr w" if "v \<in> set entries" for v
  proof -
    from collect_res_mem [OF entries that] obtain e d c n where
      v: "v = mb_build (catalog_fields (wire_of_catalog e d) @ [(Txt ''container'', Integer c), (Txt ''entry'', Integer n)])"
      by (auto simp: snapshot_entry_value_def mb_build_def split: option.splits)
    have "registered SNAPSHOT_ENTRY [(Txt ''container'', Integer c), (Txt ''entry'', Integer n)]"
      by (simp add: registered_Cons registered_Nil SNAPSHOT_ENTRY_def live_by_name_def field_def holding_def)
    then show ?thesis unfolding v by (intro registered_to_wire) (simp add: registered_append catalog_registered)
  qed
  then have "\<exists>w. to_wire (Array entries) SNAPSHOT_ENTRY = Inr w" by (intro to_wire_Array_total) auto
  moreover have "\<exists>w. to_wire (Array (map (\<lambda>c. mb_build (container_to_map c)) ?cs)) SNAPSHOT_CONTAINER = Inr w"
    by (rule to_wire_Array_total) (use registered_to_wire [OF container_registered(1)] in auto)
  moreover note arrays = calculation
  have "registered INDEX_SNAPSHOT (snapshot_map p entries)"
    unfolding snapshot_map_def Let_def mb_uint_def mb_text_def
    using arrays
    by (cases "sp_activation p")
      (auto intro!: registered_mb_optional
        simp: registered_mb_value registered_Nil INDEX_SNAPSHOT_def live_by_name_def field_def holding_def)
  with entries show thesis by (rule that)
qed

lemma snapshot_encode_refused:
  assumes "snapshot_ok (sp_content p)" and "snapshot_encode L p = Inl e"
  shows "\<exists>c. e = ControlPayloadEncodeFailed c"
proof -
  obtain entries where entries: "collect_res (snapshot_entry_value (container_positions (sn_containers (sp_content p))))
      (enumerate 0 (sn_entries (sp_content p))) = Inr entries" "registered INDEX_SNAPSHOT (snapshot_map p entries)"
    using snapshot_registered [OF assms(1)] .
  from registered_to_wire [OF entries(2)] show ?thesis
    using assms(2) entries(1) by (auto simp: snapshot_encode_def Let_def write_body_def and_then_Inl_iff map_err_Inl_iff)
qed

section \<open>What is read\<close>

lemma activation_of_ok:
  "activation_of fs activating head = Inr a \<Longrightarrow>
    activating = (a \<noteq> None) \<and> (\<forall>x. a = Some x \<longrightarrow> sa_base_head x < head)"
  by (auto simp: activation_of_def and_then_Inr_iff split: if_splits)

lemma snapshot_decode_ok:
  assumes "snapshot_decode L de is_nfc b k g = Inr p"
  shows "snapshot_object_kind p = k" and "snapshot_ok (sp_content p)" and "sn_adopted (sp_content p) = None"
    and "cp_head (sn_checkpoint (sp_content p)) = g" and "cp_epoch (sn_checkpoint (sp_content p)) = pl_epoch b"
    and "checkpoint_ok (sn_checkpoint (sp_content p))"
    and "\<forall>a. sp_activation p = Some a \<longrightarrow> sa_base_head a < g"
proof -
  obtain fs activating where kind: "(case k of IndexSnapshot \<Rightarrow> Ok False | ActivationSnapshot \<Rightarrow> Ok True
               | other \<Rightarrow> Err (Catalog (NotAnIndexSnapshotKind other))) = (Inr activating :: format_error + bool)"
    and fields: "snapshot_of_fields de is_nfc fs b activating g = Inr p"
    using assms by (auto simp: snapshot_decode_def and_then_Inr_iff split: if_splits)
  obtain containers entries head where rest: "(if head \<noteq> g then Err (Catalog (SnapshotCheckpointsAnotherHead g head))
       else and_then (generation_field fs ''journal_generation'') (\<lambda>journal.
            and_then (optional_text_field fs ''next_commit_slot'') (\<lambda>slot.
            and_then (commitment_of fs) (\<lambda>keyring.
            and_then (map_err snapshot_refused (checkpoint_new (pl_epoch b) head journal slot keyring)) (\<lambda>cp.
            and_then (library_name_of fs) (\<lambda>library_name.
            and_then (map_err snapshot_refused (snapshot_new cp None containers entries)) (\<lambda>snapshot.
            and_then (activation_of fs activating head) (\<lambda>activation.
              Ok \<lparr>sp_content = snapshot_with_library_name library_name snapshot, sp_activation = activation\<rparr>)))))))) = Inr p"
    using fields unfolding snapshot_of_fields_def and_then_Inr_iff by blast
  have head: "head = g" using rest by (cases "head = g") simp_all
  obtain journal slot keyring cp name snapshot a where
    cp: "checkpoint_new (pl_epoch b) g journal slot keyring = Inr cp"
    and new: "snapshot_new cp None containers entries = Inr snapshot" and a: "activation_of fs activating g = Inr a"
    and p: "p = \<lparr>sp_content = snapshot_with_library_name name snapshot, sp_activation = a\<rparr>"
    using rest unfolding head if_False simp_thms and_then_Inr_iff map_err_Inr_iff by (auto simp: and_then_Inr_iff map_err_Inr_iff)
  have "activating = (a \<noteq> None)" and base: "\<forall>x. a = Some x \<longrightarrow> sa_base_head x < g" using activation_of_ok [OF a] by auto
  then show "snapshot_object_kind p = k" using kind by (cases k) (auto simp: snapshot_object_kind_def p)
  show "\<forall>a. sp_activation p = Some a \<longrightarrow> sa_base_head a < g" using base by (simp add: p)
  show "snapshot_ok (sp_content p)" "sn_adopted (sp_content p) = None"
    using new by (auto simp: p snapshot_with_library_name_def snapshot_new_Ok_iff snapshot_ok_def)
  show "cp_head (sn_checkpoint (sp_content p)) = g" "cp_epoch (sn_checkpoint (sp_content p)) = pl_epoch b"
    "checkpoint_ok (sn_checkpoint (sp_content p))"
    using new cp by (auto simp: p snapshot_with_library_name_def snapshot_new_Ok_iff checkpoint_new_Ok_iff)
qed

end
