(* ===== verification/Object_Store.thy ===== *)
theory Object_Store
  imports Effects Snapshot_Payload
begin

text \<open>
  The port to Storage: \<open>object_store.rs\<close>, its values (\<open>error.rs\<close>, \<open>missing.rs\<close>, \<open>commit_slot.rs\<close>,
  \<open>object_info.rs\<close>, \<open>object_page.rs\<close>, \<open>uploaded_object.rs\<close>), the streams it moves (\<open>byte_stream.rs\<close>,
  \<open>answer_length.rs\<close>) and \<open>control_head.rs\<close>. \<open>dyn ObjectStore\<close> is the record \<open>object_store\<close> of its
  methods as actions on the world. What a provider said (\<open>detail\<close>, \<open>source\<close>) is left out of the errors.
\<close>

section \<open>Errors\<close>

datatype missing = MissingObject string | MissingListing | MissingLocation | MissingEndpoint

fun missing_subject :: "missing \<Rightarrow> string" where
  "missing_subject (MissingObject name) = name"
| "missing_subject MissingListing = ''the listing''"
| "missing_subject MissingLocation = ''the configured location''"
| "missing_subject MissingEndpoint = ''the endpoint''"

text \<open>A \<open>Duration\<close> is its nanoseconds.\<close>

type_synonym duration = nat

datatype (plugins only: code) store_error =
    NotFound missing
  | AlreadyExists string
  | PermissionDenied
  | LimitReached string
  | Unauthenticated
  | IntegrityMismatch string string
  | NotPurged string
  | Unsupported
  | Rejected nat
  | MalformedResponse
  | ListingPastCap nat
  | LengthMismatch nat nat
  | LengthOverrun nat
  | ObjectTooLong nat nat
  | StoreIo
  | RateLimited "duration option"
  | ServiceUnavailable nat
  | TimedOut
  | Transport
  | StoreModel model_error

fun is_retryable :: "store_error \<Rightarrow> bool" where
  "is_retryable (RateLimited _) = True"
| "is_retryable (ServiceUnavailable _) = True"
| "is_retryable TimedOut = True"
| "is_retryable Transport = True"
| "is_retryable (LengthMismatch _ _) = True"
| "is_retryable (LengthOverrun _) = True"
| "is_retryable (ObjectTooLong _ _) = False"
| "is_retryable (NotFound _) = False"
| "is_retryable (AlreadyExists _) = False"
| "is_retryable PermissionDenied = False"
| "is_retryable (LimitReached _) = False"
| "is_retryable Unauthenticated = False"
| "is_retryable (IntegrityMismatch _ _) = False"
| "is_retryable (NotPurged _) = False"
| "is_retryable Unsupported = False"
| "is_retryable (Rejected _) = False"
| "is_retryable MalformedResponse = False"
| "is_retryable (ListingPastCap _) = False"
| "is_retryable StoreIo = False"
| "is_retryable (StoreModel _) = False"

definition is_not_found :: "store_error \<Rightarrow> bool" where
  "is_not_found e \<longleftrightarrow> (case e of NotFound _ \<Rightarrow> True | _ \<Rightarrow> False)"

definition is_already_exists :: "store_error \<Rightarrow> bool" where
  "is_already_exists e \<longleftrightarrow> (case e of AlreadyExists _ \<Rightarrow> True | _ \<Rightarrow> False)"

section \<open>Streams\<close>

text \<open>A stream claims a length; its reader yields \<open>bs_bytes\<close> and then ends, or fails where it \<open>breaks\<close>.\<close>

record byte_stream =
  bs_len :: nat
  bs_bytes :: "byte list"
  bs_breaks :: bool

definition stream_from :: "byte list \<Rightarrow> byte_stream" where
  "stream_from bytes = \<lparr>bs_len = length bytes, bs_bytes = bytes, bs_breaks = False\<rparr>"

definition stream_is_empty :: "byte_stream \<Rightarrow> bool" where
  "stream_is_empty s \<longleftrightarrow> bs_len s = 0"

definition saturating_add64 :: "nat \<Rightarrow> nat \<Rightarrow> nat" where
  "saturating_add64 a b = min (a + b) (2 ^ 64 - 1)"

text \<open>\<open>reader.take(n).read_to_end\<close>: at most \<open>n\<close> bytes, and an error only where the reader breaks before.\<close>

definition read_to_end :: "nat \<Rightarrow> byte_stream \<Rightarrow> store_error + byte list" where
  "read_to_end n s =
     (if length (bs_bytes s) < n \<and> bs_breaks s then Err StoreIo else Ok (take n (bs_bytes s)))"

definition into_reader :: "byte_stream \<Rightarrow> byte_stream" where
  "into_reader s =
     (let n = saturating_add64 (bs_len s) 1
      in \<lparr>bs_len = bs_len s, bs_bytes = take n (bs_bytes s),
          bs_breaks = (bs_breaks s \<and> length (bs_bytes s) < n)\<rparr>)"

record answer_length =
  al_declared :: nat
  al_bound :: nat
  al_received :: nat

definition answer_new :: "nat \<Rightarrow> nat \<Rightarrow> answer_length" where
  "answer_new declared bound = \<lparr>al_declared = declared, al_bound = bound, al_received = 0\<rparr>"

definition answer_count :: "nat \<Rightarrow> answer_length \<Rightarrow> store_error + answer_length" where
  "answer_count n a =
     (let a = a\<lparr>al_received := saturating_add64 (al_received a) n\<rparr>
      in if al_received a > al_bound a then Err (LengthOverrun (al_bound a)) else Ok a)"

definition answer_finish :: "answer_length \<Rightarrow> store_error + unit" where
  "answer_finish a =
     (if al_received a > al_declared a then Err (LengthOverrun (al_declared a))
      else if al_received a < al_declared a then Err (LengthMismatch (al_declared a) (al_received a))
      else if al_received a < al_bound a then Err (LengthMismatch (al_bound a) (al_received a))
      else Ok ())"

definition collect_exact :: "nat \<Rightarrow> byte_stream \<Rightarrow> store_error + byte list" where
  "collect_exact expected s =
     and_then (read_to_end (saturating_add64 expected 1) s) (\<lambda>bytes.
     and_then (answer_count (length bytes) (answer_new expected expected)) (\<lambda>l.
     and_then (answer_finish l) (\<lambda>_. Ok bytes)))"

definition into_bytes :: "byte_stream \<Rightarrow> store_error + byte list" where
  "into_bytes s = collect_exact (bs_len s) s"

definition into_bytes_within :: "nat \<Rightarrow> byte_stream \<Rightarrow> store_error + byte list" where
  "into_bytes_within ceiling s =
     (if bs_len s > ceiling then Err (ObjectTooLong (bs_len s) ceiling) else collect_exact (bs_len s) s)"

definition collect_front :: "nat \<Rightarrow> byte_stream \<Rightarrow> store_error + byte list" where
  "collect_front len s = read_to_end len s"

text \<open>What is drained is exactly what arrived, and it is as long as it was held to.\<close>

lemma collect_exact_Ok:
  assumes "expected < 2 ^ 64 - 1"
  shows "collect_exact expected s = Inr bytes \<longleftrightarrow>
    bytes = bs_bytes s \<and> length (bs_bytes s) = expected \<and> \<not> bs_breaks s"
  using assms
  by (auto simp: collect_exact_def read_to_end_def saturating_add64_def answer_count_def answer_new_def answer_finish_def
      Let_def res_simps min_def split: if_splits)

lemma collect_exact_overrun:
  assumes "expected < 2 ^ 64 - 1" and "expected < length (bs_bytes s)"
  shows "collect_exact expected s = Inl (LengthOverrun expected)"
  using assms
  by (auto simp: collect_exact_def read_to_end_def saturating_add64_def answer_count_def answer_new_def answer_finish_def
      Let_def min_def)

lemma collect_exact_short:
  assumes "expected < 2 ^ 64 - 1" and "length (bs_bytes s) < expected" and "\<not> bs_breaks s"
  shows "collect_exact expected s = Inl (LengthMismatch expected (length (bs_bytes s)))"
  using assms
  by (auto simp: collect_exact_def read_to_end_def saturating_add64_def answer_count_def answer_new_def answer_finish_def
      Let_def min_def)

lemma into_bytes_from: "length bytes < 2 ^ 64 - 1 \<Longrightarrow> into_bytes (stream_from bytes) = Inr bytes"
  by (simp add: into_bytes_def stream_from_def collect_exact_Ok)

lemma into_bytes_within_from:
  "length bytes < 2 ^ 64 - 1 \<Longrightarrow> into_bytes_within c (stream_from bytes) =
     (if length bytes > c then Inl (ObjectTooLong (length bytes) c) else Inr bytes)"
  by (simp add: into_bytes_within_def stream_from_def collect_exact_Ok)

lemma collect_front_from: "collect_front n (stream_from bytes) = Inr (take n bytes)"
  by (simp add: collect_front_def read_to_end_def stream_from_def)

text \<open>However much arrives, no more than one byte past the count is taken in.\<close>

lemma read_to_end_bound: "read_to_end n s = Inr bytes \<Longrightarrow> length bytes \<le> n"
  by (auto simp: read_to_end_def split: if_splits)

section \<open>Slots and listings\<close>

record commit_slot =
  cs_name :: string
  cs_provider_id :: "string option"

definition slot_by_name :: "string \<Rightarrow> commit_slot" where
  "slot_by_name name = \<lparr>cs_name = name, cs_provider_id = None\<rparr>"

definition slot_provider_id :: "string \<Rightarrow> string \<Rightarrow> commit_slot" where
  "slot_provider_id name i = \<lparr>cs_name = name, cs_provider_id = Some i\<rparr>"

definition require_name :: "commit_slot \<Rightarrow> store_error + string" where
  "require_name slot = (case cs_provider_id slot of Some i \<Rightarrow> Err Unsupported | None \<Rightarrow> Ok (cs_name slot))"

definition require_provider_id :: "commit_slot \<Rightarrow> store_error + string" where
  "require_provider_id slot = ok_or Unsupported (cs_provider_id slot)"

datatype provider_hash = ProviderHash string

record object_info =
  oi_ref :: object_ref
  oi_name :: string
  oi_hash :: "provider_hash option"

datatype page_token = PageToken (token_str: string)

record object_page =
  pg_objects :: "object_info list"
  pg_next :: "page_token option"

definition page_last :: "object_info list \<Rightarrow> object_page" where
  "page_last objects = \<lparr>pg_objects = objects, pg_next = None\<rparr>"

definition page_resumable :: "object_info list \<Rightarrow> page_token \<Rightarrow> object_page" where
  "page_resumable objects token = \<lparr>pg_objects = objects, pg_next = Some token\<rparr>"

record uploaded_object =
  up_ref :: object_ref
  up_hash :: "provider_hash option"

section \<open>The port\<close>

record 'w object_store =
  store_put :: "string \<Rightarrow> byte_stream \<Rightarrow> ('w, store_error, uploaded_object) action"
  store_reserve_create :: "string \<Rightarrow> ('w, store_error, commit_slot) action"
  store_put_if_absent :: "commit_slot \<Rightarrow> byte_stream \<Rightarrow> ('w, store_error, object_ref) action"
  store_object_at :: "commit_slot \<Rightarrow> store_error + object_ref"
  store_get :: "object_ref \<Rightarrow> (nat \<times> nat) option \<Rightarrow> ('w, store_error, byte_stream) action"
  store_list :: "page_token option \<Rightarrow> ('w, store_error, object_page) action"
  store_trash :: "object_ref \<Rightarrow> ('w, store_error, unit) action"
  store_purge :: "object_ref \<Rightarrow> ('w, store_error, unit) action"

section \<open>The slots a head carries\<close>

datatype control_head = ControlHead (head_generation: generation)

definition successor_name :: "control_head \<Rightarrow> store_error + control_object_name" where
  "successor_name h = map_err StoreModel (successor_of (head_generation h))"

definition snapshot_name :: "control_head \<Rightarrow> control_object_name" where
  "snapshot_name h = IndexSnapshotName (head_generation h)"

definition carried_in :: "control_object_name \<Rightarrow> string option \<Rightarrow> commit_slot" where
  "carried_in name carried =
     (case carried of Some i \<Rightarrow> slot_provider_id (show_name name) i | None \<Rightarrow> slot_by_name (show_name name))"

definition commit_slot_of :: "control_head \<Rightarrow> string option \<Rightarrow> store_error + commit_slot" where
  "commit_slot_of h carried = and_then (successor_name h) (\<lambda>name. Ok (carried_in name carried))"

definition snapshot_slot_of :: "control_head \<Rightarrow> string option \<Rightarrow> commit_slot" where
  "snapshot_slot_of h carried = carried_in (snapshot_name h) carried"

definition reserve_commit_slot :: "'w object_store \<Rightarrow> control_head \<Rightarrow> ('w, store_error, commit_slot) action" where
  "reserve_commit_slot S h = act (yields (successor_name h)) (\<lambda>name. store_reserve_create S (show_name name))"

definition reserve_snapshot_slot :: "'w object_store \<Rightarrow> control_head \<Rightarrow> ('w, store_error, commit_slot) action" where
  "reserve_snapshot_slot S h = store_reserve_create S (show_name (snapshot_name h))"

lemma cs_name_carried [simp]: "cs_name (carried_in name carried) = show_name name"
  and cs_id_carried [simp]: "cs_provider_id (carried_in name carried) = carried"
  by (simp_all add: carried_in_def slot_by_name_def slot_provider_id_def split: option.splits)

lemma successor_name_Ok: "successor_name h = Inr n \<longleftrightarrow> (\<exists>g. generation_next (head_generation h) = Inr g \<and> n = HeadName g)"
  by (auto simp: successor_name_def successor_of_def res_simps)

lemma commit_slot_of_Ok:
  "commit_slot_of h carried = Inr slot \<longleftrightarrow>
   (\<exists>g. generation_next (head_generation h) = Inr g \<and> slot = carried_in (HeadName g) carried)"
  by (auto simp: commit_slot_of_def successor_name_Ok res_simps)

end
