(* ===== verification/Retry.thy ===== *)
theory Retry
  imports Object_Store
begin

text \<open>
  \<open>retry/retry_policy\<close>: how often a call to Storage is made again and how long a worker waits in between.
  The operating system is a record of the two things the loop asks of it: bytes of entropy (\<open>getrandom\<close>) and
  to be woken later (\<open>sleep\<close>). The lemmas bound the attempts and the waiting of a run, whatever the call
  answers and however long a provider asks for.
\<close>

record 'w system =
  sys_fill :: "nat \<Rightarrow> 'w \<Rightarrow> 'w \<times> byte list option"
  sys_sleep :: "duration \<Rightarrow> 'w \<Rightarrow> 'w"

record retry_policy =
  ry_attempts :: nat
  ry_base_backoff :: duration
  ry_wait_ceiling :: duration
  ry_total_wait :: duration

definition nanos_per_sec :: nat where
  "nanos_per_sec = 1000000000"

definition duration_max :: duration where
  "duration_max = (2 ^ 64 - 1) * nanos_per_sec + (nanos_per_sec - 1)"

definition retry_default :: retry_policy where
  "retry_default =
     \<lparr>ry_attempts = 6, ry_base_backoff = 500 * 1000000, ry_wait_ceiling = 30 * nanos_per_sec,
      ry_total_wait = 120 * nanos_per_sec\<rparr>"

text \<open>\<open>assert!(attempts >= 1)\<close>.\<close>

definition retry_with_attempts :: "nat \<Rightarrow> retry_policy \<Rightarrow> retry_policy option" where
  "retry_with_attempts n p = (if n \<ge> 1 then Some (p\<lparr>ry_attempts := n\<rparr>) else None)"

definition retry_with_base_backoff :: "duration \<Rightarrow> retry_policy \<Rightarrow> retry_policy" where
  "retry_with_base_backoff d p = p\<lparr>ry_base_backoff := d\<rparr>"

definition retry_with_wait_ceiling :: "duration \<Rightarrow> retry_policy \<Rightarrow> retry_policy" where
  "retry_with_wait_ceiling d p = p\<lparr>ry_wait_ceiling := d\<rparr>"

definition retry_with_total_wait :: "duration \<Rightarrow> retry_policy \<Rightarrow> retry_policy" where
  "retry_with_total_wait d p = p\<lparr>ry_total_wait := d\<rparr>"

definition checked_shl32 :: "nat \<Rightarrow> nat \<Rightarrow> nat option" where
  "checked_shl32 a n = (if n < 32 then Some (a * 2 ^ n mod 2 ^ 32) else None)"

definition duration_checked_mul :: "duration \<Rightarrow> nat \<Rightarrow> duration option" where
  "duration_checked_mul d n = (if d * n \<le> duration_max then Some (d * n) else None)"

definition interval :: "retry_policy \<Rightarrow> nat \<Rightarrow> duration" where
  "interval p waits_made =
     (let widened = Option.bind (checked_shl32 1 waits_made) (duration_checked_mul (ry_base_backoff p))
      in min (case widened of Some d \<Rightarrow> d | None \<Rightarrow> ry_wait_ceiling p) (ry_wait_ceiling p))"

text \<open>\<open>u64::from_ne_bytes\<close> on the little-endian machines the program is built for.\<close>

definition draw_u64 :: "'w system \<Rightarrow> 'w \<Rightarrow> 'w \<times> nat option" where
  "draw_u64 Y w = (let (w, bytes) = sys_fill Y 8 w in (w, map_option (\<lambda>bs. from_be (rev bs)) bytes))"

definition full_jitter :: "'w system \<Rightarrow> duration \<Rightarrow> 'w \<Rightarrow> 'w \<times> duration" where
  "full_jitter Y d w =
     (case draw_u64 Y w of
        (w, None) \<Rightarrow> (w, d)
      | (w, Some drawn) \<Rightarrow> (w, drawn mod saturating_add64 (min d (2 ^ 64 - 1)) 1))"

fun retry_after :: "store_error \<Rightarrow> duration option" where
  "retry_after (RateLimited asked) = asked"
| "retry_after _ = None"

definition wait_after :: "'w system \<Rightarrow> retry_policy \<Rightarrow> nat \<Rightarrow> duration option \<Rightarrow> 'w \<Rightarrow> 'w \<times> duration" where
  "wait_after Y p waits_made asked w =
     (case asked of
        Some d \<Rightarrow> (w, min d (ry_wait_ceiling p))
      | None \<Rightarrow> full_jitter Y (interval p waits_made) w)"

function retry_loop ::
  "'w system \<Rightarrow> retry_policy \<Rightarrow> ('w, store_error, 'a) action \<Rightarrow> nat \<Rightarrow> duration \<Rightarrow> ('w, store_error, 'a) action" where
  "retry_loop Y p attempt made waited w =
     (case attempt w of
        None \<Rightarrow> None
      | Some (w, Inr x) \<Rightarrow> Some (w, Ok x)
      | Some (w, Inl e) \<Rightarrow>
          let made = made + 1
          in if \<not> is_retryable e then Some (w, Err e)
             else if made \<ge> ry_attempts p then Some (w, Err e)
             else let left = ry_total_wait p - waited
                  in if left = 0 then Some (w, Err e)
                     else let (w, wait) = wait_after Y p (made - 1) (retry_after e) w; wait = min wait left
                          in retry_loop Y p attempt made (waited + wait) (sys_sleep Y wait w))"
  by auto
termination by (relation "measure (\<lambda>(Y, p, attempt, made, waited, w). ry_attempts p - made)") auto

declare retry_loop.simps [simp del]

definition retry_run :: "'w system \<Rightarrow> retry_policy \<Rightarrow> ('w, store_error, 'a) action \<Rightarrow> ('w, store_error, 'a) action" where
  "retry_run Y p attempt = retry_loop Y p attempt 0 0"

section \<open>What a run answers\<close>

text \<open>A call whose first answer is final is made once.\<close>

lemma retry_once:
  assumes "attempt w = Some (v, r)" and "\<And>e. r = Inl e \<Longrightarrow> \<not> is_retryable e"
  shows "retry_run Y p attempt w = Some (v, r)"
  unfolding retry_run_def retry_loop.simps [of Y p attempt 0 0 w]
  using assms by (cases r) (simp_all add: Let_def)

lemma retry_reads:
  assumes "reads attempt f" and "\<And>w e. f w = Inl e \<Longrightarrow> \<not> is_retryable e"
  shows "reads (retry_run Y p attempt) f"
  unfolding reads_def
proof
  fix w
  have "attempt w = Some (w, f w)" using assms(1) by (simp add: reads_def)
  then show "retry_run Y p attempt w = Some (w, f w)" by (rule retry_once) (use assms(2) in blast)
qed

text \<open>
  What every refused attempt and every wait keeps holds at each attempt, so the run answers with what an attempt made
  there may answer with.
\<close>

lemma retry_loop_ensures:
  assumes att: "ensures I attempt (\<lambda>r w. (\<forall>e. r = Inl e \<longrightarrow> I w) \<and> Q r w)"
    and quiet: "\<And>n w. I w \<Longrightarrow> I (fst (sys_fill Y n w))" "\<And>d w. I w \<Longrightarrow> I (sys_sleep Y d w)"
  shows "ensures I (retry_loop Y p attempt made waited) Q"
proof (rule ensuresI)
  fix w
  show "I w \<Longrightarrow> \<exists>v r. retry_loop Y p attempt made waited w = Some (v, r) \<and> Q r v"
  proof (induction Y\<equiv>Y p\<equiv>p attempt\<equiv>attempt made waited w rule: retry_loop.induct)
    case (1 made waited w)
    obtain v r where a: "attempt w = Some (v, r)" "\<forall>e. r = Inl e \<longrightarrow> I v" "Q r v" using ensuresD [OF att 1(2)] by blast
    show ?case
    proof (cases r)
      case (Inr x)
      then show ?thesis using a by (simp add: retry_loop.simps [of Y p attempt made waited w])
    next
      case (Inl e)
      obtain u d where u: "wait_after Y p made (retry_after e) v = (u, d)" by fastforce
      have "I u" using a(2) Inl quiet(1) [of v 8] u
        by (auto simp: wait_after_def full_jitter_def draw_u64_def split: option.splits prod.splits)
      then have s: "I (sys_sleep Y (min d (ry_total_wait p - waited)) u)" by (rule quiet(2))
      show ?thesis
      proof (cases "\<not> is_retryable e \<or> made + 1 \<ge> ry_attempts p \<or> ry_total_wait p - waited = 0")
        case True
        then show ?thesis using a Inl by (auto simp: retry_loop.simps [of Y p attempt made waited w] Let_def)
      next
        case False
        then have "retry_loop Y p attempt made waited w =
            retry_loop Y p attempt (made + 1) (waited + min d (ry_total_wait p - waited))
              (sys_sleep Y (min d (ry_total_wait p - waited)) u)"
          using a Inl u by (simp add: retry_loop.simps [of Y p attempt made waited w] Let_def)
        moreover have "\<exists>v r. retry_loop Y p attempt (made + 1) (waited + min d (ry_total_wait p - waited))
              (sys_sleep Y (min d (ry_total_wait p - waited)) u) = Some (v, r) \<and> Q r v"
          by (rule 1(1) [of "(v, r)" v r e "made + 1" "ry_total_wait p - waited" _ u d "min d (ry_total_wait p - waited)"])
            (use a Inl False u s in auto)
        ultimately show ?thesis by simp
      qed
    qed
  qed
qed

lemma retry_ensures:
  assumes "ensures I attempt (\<lambda>r w. (\<forall>e. r = Inl e \<longrightarrow> I w) \<and> Q r w)"
    and "\<And>n w. I w \<Longrightarrow> I (fst (sys_fill Y n w))" "\<And>d w. I w \<Longrightarrow> I (sys_sleep Y d w)"
  shows "ensures I (retry_run Y p attempt) Q"
  unfolding retry_run_def by (rule retry_loop_ensures [OF assms])

section \<open>The bounds\<close>

text \<open>
  \<open>calls\<close> and \<open>slept\<close> are any two measures of the world that grow by at most one with an attempt and by what
  is asked for with a sleep.
\<close>

lemma retry_loop_bounds:
  fixes calls slept :: "'w \<Rightarrow> nat"
  assumes att: "\<And>w v r. attempt w = Some (v, r) \<Longrightarrow> calls v \<le> calls w + 1 \<and> slept v \<le> slept w"
    and fill: "\<And>n w. calls (fst (sys_fill Y n w)) \<le> calls w \<and> slept (fst (sys_fill Y n w)) \<le> slept w"
    and sleep: "\<And>d w. calls (sys_sleep Y d w) \<le> calls w \<and> slept (sys_sleep Y d w) \<le> slept w + d"
    and run: "retry_loop Y p attempt made waited w = Some (v, r)" and "waited \<le> ry_total_wait p"
  shows "calls v \<le> calls w + max 1 (ry_attempts p - made) \<and> slept v + waited \<le> slept w + ry_total_wait p"
  using run \<open>waited \<le> ry_total_wait p\<close>
proof (induction Y\<equiv>Y p\<equiv>p attempt\<equiv>attempt made waited w rule: retry_loop.induct)
  case (1 made waited w)
  obtain u s where a: "attempt w = Some (u, s)"
    using 1(2) by (cases "attempt w") (auto simp: retry_loop.simps [of Y p attempt made waited w])
  note b = att [OF a]
  show ?case
  proof (cases "\<exists>e. s = Inl e \<and> is_retryable e \<and> made + 1 < ry_attempts p \<and> waited < ry_total_wait p")
    case False
    then have "v = u" using 1(2) a
      by (cases s) (auto simp: retry_loop.simps [of Y p attempt made waited w] Let_def split: if_splits)
    then show ?thesis using b 1(3) by auto
  next
    case True
    then obtain e where e: "s = Inl e" "is_retryable e" "made + 1 < ry_attempts p" "waited < ry_total_wait p" by blast
    obtain t d where t: "wait_after Y p made (retry_after e) u = (t, d)" by fastforce
    let ?d = "min d (ry_total_wait p - waited)"
    have run: "retry_loop Y p attempt (made + 1) (waited + ?d) (sys_sleep Y ?d t) = Some (v, r)"
      using 1(2) a e t by (simp add: retry_loop.simps [of Y p attempt made waited w] Let_def)
    have "calls t \<le> calls u \<and> slept t \<le> slept u"
      using fill [of 8 u] t by (auto simp: wait_after_def full_jitter_def draw_u64_def split: option.splits prod.splits)
    moreover have "calls v \<le> calls (sys_sleep Y ?d t) + max 1 (ry_attempts p - (made + 1)) \<and>
        slept v + (waited + ?d) \<le> slept (sys_sleep Y ?d t) + ry_total_wait p"
      by (rule 1(1) [of "(u, s)" u s e "made + 1" "ry_total_wait p - waited" _ t d ?d, OF a _ e(1)])
        (use e t run in auto)
    moreover have "max 1 (ry_attempts p - (made + 1)) + 1 = max 1 (ry_attempts p - made)" using e(3) by simp
    ultimately show ?thesis using b sleep [of ?d t] by linarith
  qed
qed

text \<open>One wait is drawn from the interval, and no interval passes the ceiling.\<close>

lemma interval_le: "interval p n \<le> ry_wait_ceiling p"
  by (simp add: interval_def Let_def)

lemma interval_doubles:
  assumes "n < 32" and "ry_base_backoff p * 2 ^ n \<le> ry_wait_ceiling p" and "ry_wait_ceiling p \<le> duration_max"
  shows "interval p n = ry_base_backoff p * 2 ^ n"
proof -
  have "(2::nat) ^ n < 2 ^ 32" by (rule power_strict_increasing [OF assms(1)]) simp
  then have "checked_shl32 1 n = Some (2 ^ n)" using assms(1) by (simp add: checked_shl32_def)
  then show ?thesis using assms by (simp add: interval_def duration_checked_mul_def)
qed

lemma full_jitter_le:
  assumes "d < 2 ^ 64 - 1"
  shows "snd (full_jitter Y d w) \<le> d"
proof -
  obtain v r where dr: "draw_u64 Y w = (v, r)" by fastforce
  show ?thesis
  proof (cases r)
    case (Some n)
    have "n mod (d + 1) < d + 1" by (rule mod_less_divisor) simp
    then show ?thesis using dr Some assms by (simp add: full_jitter_def saturating_add64_def min_def)
  qed (simp add: full_jitter_def dr)
qed

lemma wait_after_le:
  assumes "ry_wait_ceiling p < 2 ^ 64 - 1"
  shows "snd (wait_after Y p n asked w) \<le> ry_wait_ceiling p"
proof (cases asked)
  case None
  have "interval p n < 2 ^ 64 - 1" using interval_le [of p n] assms by simp
  then show ?thesis using full_jitter_le [of "interval p n" Y w] interval_le [of p n]
    by (simp add: wait_after_def None)
qed (simp add: wait_after_def)

end
