(* ===== verification/Control_Objects.thy ===== *)
theory Control_Objects
  imports Cipher Keyring_Payload Padme
begin

text \<open>
  \<open>coffret-format/src/control\<close> \<open>header.rs\<close>, \<open>ceiling.rs\<close>, \<open>payload/\<close>, \<open>encode.rs\<close> and
  \<open>decode.rs\<close>: a control object, from its payload to the bytes stored under its name and back. The
  lemmas show that the header is a canonical codec, that a payload is padded to its bucket and read
  back, and that a stored object opens under the name and the key it was sealed with, and under no
  other name.
\<close>

section \<open>The header\<close>

record control_header =
  ch_kind :: control_object_kind
  ch_generation :: generation
  ch_replica :: replica_position
  ch_nonce :: "byte list"

definition control_header_len :: nat where
  "control_header_len = 44"

definition control_magic :: "byte list" where
  "control_magic = [0x43, 0x46, 0x43, 0x54, 0x4C]"

definition control_version :: byte where
  "control_version = 0x01"

fun kind_byte :: "control_object_kind \<Rightarrow> byte" where
  "kind_byte Journal = 0x01"
| "kind_byte Keyring = 0x02"
| "kind_byte IndexSnapshot = 0x03"
| "kind_byte ActivationSnapshot = 0x04"

definition kind_from_byte :: "byte \<Rightarrow> format_error + control_object_kind" where
  "kind_from_byte b =
     (if b = 0x01 then Ok Journal
      else if b = 0x02 then Ok Keyring
      else if b = 0x03 then Ok IndexSnapshot
      else if b = 0x04 then Ok ActivationSnapshot
      else Err (UnknownControlObjectKind b))"

definition control_refusal :: "model_error \<Rightarrow> format_error" where
  "control_refusal e =
     (case e of GenerationOutOfRange g \<Rightarrow> ControlHeaderGenerationOutOfRange g | other \<Rightarrow> Model other)"

definition control_header_to_bytes :: "control_header \<Rightarrow> byte list" where
  "control_header_to_bytes h =
     (let bytes = replicate control_header_len 0;
          bytes = blit 0 control_magic bytes;
          bytes = bytes[5 := control_version];
          bytes = bytes[6 := kind_byte (ch_kind h)];
          bytes = blit 8 (be_bytes 8 (gen (ch_generation h))) bytes;
          bytes = blit 16 (be_bytes 2 (rp_index (ch_replica h))) bytes;
          bytes = blit 18 (be_bytes 2 (rp_count (ch_replica h))) bytes;
          bytes = blit 20 (ch_nonce h) bytes
      in bytes)"

definition control_header_parse :: "byte list \<Rightarrow> format_error + control_header" where
  "control_header_parse object =
     (if length object < control_header_len then Err (ControlHeaderTooShort (length object))
      else let bytes = take control_header_len object;
               magic = slice 0 5 bytes;
               version = bytes ! 5
           in if magic \<noteq> control_magic then Err (UnknownControlMagic magic)
              else if version \<noteq> control_version then Err (UnsupportedControlVersion version)
              else and_then (kind_from_byte (bytes ! 6)) (\<lambda>k.
                   if bytes ! 7 \<noteq> 0 then Err ReservedNotZero
                   else and_then (map_err control_refusal (generation_new (from_be (slice 8 16 bytes)))) (\<lambda>g.
                        and_then (map_err Model
                           (replica_new (from_be (slice 16 18 bytes)) (from_be (slice 18 20 bytes)))) (\<lambda>replica.
                          Ok \<lparr>ch_kind = k, ch_generation = g, ch_replica = replica,
                              ch_nonce = slice 20 44 bytes\<rparr>))))"

definition control_header_ok :: "control_header \<Rightarrow> bool" where
  "control_header_ok h \<longleftrightarrow> generation_ok (ch_generation h) \<and> replica_ok (ch_replica h) \<and> length (ch_nonce h) = nonce_len"

lemma kind_byte_inverse [simp]: "kind_from_byte (kind_byte k) = Inr k"
  by (cases k) (simp_all add: kind_from_byte_def)

lemma kind_from_byte_Ok: "kind_from_byte b = Inr k \<Longrightarrow> kind_byte k = b"
  by (auto simp: kind_from_byte_def split: if_splits)

lemma control_header_to_bytes_eq:
  assumes "length (ch_nonce h) = 24"
  shows "control_header_to_bytes h = control_magic @ [control_version, kind_byte (ch_kind h), 0] @
    be_bytes 8 (gen (ch_generation h)) @ be_bytes 2 (rp_index (ch_replica h)) @
    be_bytes 2 (rp_count (ch_replica h)) @ ch_nonce h"
  using assms unfolding control_header_to_bytes_def Let_def control_header_len_def filled_Nil [of 44]
  by (simp add: control_magic_def blit_filled update_filled filled_0)

lemma length_control_header [simp]:
  "length (ch_nonce h) = nonce_len \<Longrightarrow> length (control_header_to_bytes h) = control_header_len"
  by (simp add: control_header_to_bytes_eq nonce_len_def control_magic_def control_header_len_def)

lemma control_header_fields:
  assumes "length bytes = 44"
  shows "bytes = slice 0 5 bytes @ [bytes ! 5, bytes ! 6, bytes ! 7] @ slice 8 16 bytes @ slice 16 18 bytes @
    slice 18 20 bytes @ slice 20 44 bytes"
proof -
  have "bytes = slice 0 44 bytes" using assms by (simp add: slice_take)
  also have "\<dots> = slice 0 5 bytes @ slice 5 6 bytes @ slice 6 7 bytes @ slice 7 8 bytes @ slice 8 16 bytes @
      slice 16 18 bytes @ slice 18 20 bytes @ slice 20 44 bytes"
    by (simp add: slice_split [of 0 5 44] slice_split [of 5 6 44] slice_split [of 6 7 44] slice_split [of 7 8 44]
        slice_split [of 8 16 44] slice_split [of 16 18 44] slice_split [of 18 20 44])
  also have "slice 5 6 bytes = [bytes ! 5]" using slice_single [of 5 bytes] assms by simp
  also have "slice 6 7 bytes = [bytes ! 6]" using slice_single [of 6 bytes] assms by simp
  also have "slice 7 8 bytes = [bytes ! 7]" using slice_single [of 7 bytes] assms by simp
  finally show ?thesis by simp
qed

lemma control_header_parse_sound:
  assumes "control_header_parse object = Inr h"
  shows "control_header_len \<le> length object \<and> take control_header_len object = control_header_to_bytes h \<and>
    control_header_ok h"
proof -
  define bytes where "bytes = take control_header_len object"
  have long: "\<not> length object < control_header_len" using assms by (auto simp: control_header_parse_def)
  then have len: "length bytes = 44" by (simp add: bytes_def control_header_len_def)
  obtain k g r where p: "slice 0 5 bytes = control_magic" "bytes ! 5 = control_version" "kind_from_byte (bytes ! 6) = Inr k"
      "bytes ! 7 = 0" "generation_new (from_be (slice 8 16 bytes)) = Inr g"
      "replica_new (from_be (slice 16 18 bytes)) (from_be (slice 18 20 bytes)) = Inr r"
    and h: "h = \<lparr>ch_kind = k, ch_generation = g, ch_replica = r, ch_nonce = slice 20 44 bytes\<rparr>"
    using assms long
    by (auto simp: control_header_parse_def Let_def bytes_def [symmetric] and_then_Inr_iff map_err_Inr_iff split: if_splits)
  have be: "be_bytes 8 (from_be (slice 8 16 bytes)) = slice 8 16 bytes"
    "be_bytes 2 (from_be (slice 16 18 bytes)) = slice 16 18 bytes"
    "be_bytes 2 (from_be (slice 18 20 bytes)) = slice 18 20 bytes"
    using be_bytes_from_be [of "slice 8 16 bytes"] be_bytes_from_be [of "slice 16 18 bytes"]
      be_bytes_from_be [of "slice 18 20 bytes"] len by simp_all
  have g: "g = Generation (from_be (slice 8 16 bytes))" "generation_ok g"
    and r: "r = \<lparr>rp_index = from_be (slice 16 18 bytes), rp_count = from_be (slice 18 20 bytes)\<rparr>" "rp_index r < rp_count r"
    using p(5,6) by (auto simp: res_simps)
  have "from_be (slice 18 20 bytes) < 2 ^ 16" using from_be_bound [of "slice 18 20 bytes"] len by simp
  then have ok: "control_header_ok h" using g r len by (simp add: control_header_ok_def h replica_ok_def nonce_len_def)
  moreover have "control_header_to_bytes h = bytes"
    using control_header_fields [OF len] len
    by (simp add: control_header_to_bytes_eq h g(1) r(1) be p(1,2,4) kind_from_byte_Ok [OF p(3)])
  ultimately show ?thesis using long by (simp add: bytes_def)
qed

lemma control_header_slices:
  assumes "length (ch_nonce h) = nonce_len"
  shows "slice 0 5 (control_header_to_bytes h) = control_magic" and "control_header_to_bytes h ! 5 = control_version"
    and "control_header_to_bytes h ! 6 = kind_byte (ch_kind h)" and "control_header_to_bytes h ! 7 = 0"
    and "slice 8 16 (control_header_to_bytes h) = be_bytes 8 (gen (ch_generation h))"
    and "slice 16 18 (control_header_to_bytes h) = be_bytes 2 (rp_index (ch_replica h))"
    and "slice 18 20 (control_header_to_bytes h) = be_bytes 2 (rp_count (ch_replica h))"
    and "slice 20 44 (control_header_to_bytes h) = ch_nonce h"
  using assms
  by (simp_all add: control_header_to_bytes_eq slice_def control_magic_def nonce_len_def nth_append)

lemma control_header_parse_complete:
  assumes "control_header_ok h"
  shows "control_header_parse (control_header_to_bytes h @ rest) = Inr h"
proof -
  have n: "length (ch_nonce h) = nonce_len" and g: "generation_ok (ch_generation h)" and r: "replica_ok (ch_replica h)"
    using assms by (auto simp: control_header_ok_def)
  have t: "take control_header_len (control_header_to_bytes h @ rest) = control_header_to_bytes h" using n by simp
  have "from_be (be_bytes 8 (gen (ch_generation h))) = gen (ch_generation h)"
    using g by (intro from_be_be_bytes_small) (simp add: generation_ok_def max_format_integer_def)
  moreover have "from_be (be_bytes 2 (rp_index (ch_replica h))) = rp_index (ch_replica h)"
    "from_be (be_bytes 2 (rp_count (ch_replica h))) = rp_count (ch_replica h)"
    using r by (auto intro!: from_be_be_bytes_small simp: replica_ok_def)
  moreover have "generation_new (gen (ch_generation h)) = Inr (ch_generation h)"
    using g by (cases "ch_generation h") (simp add: generation_new_Ok_iff)
  moreover have "replica_new (rp_index (ch_replica h)) (rp_count (ch_replica h)) = Inr (ch_replica h)"
    using r by (simp add: replica_new_Ok_iff replica_ok_def)
  ultimately show ?thesis
    using n by (simp add: control_header_parse_def t Let_def control_header_slices)
qed

lemma control_header_parse_iff:
  "control_header_parse object = Inr h \<longleftrightarrow> control_header_ok h \<and> (\<exists>rest. object = control_header_to_bytes h @ rest)"
  using control_header_parse_sound [of object h] control_header_parse_complete [of h]
  by (metis append_take_drop_id)

section \<open>The ceilings\<close>

definition max_journal_record_len :: nat where
  "max_journal_record_len = 256 * 1024 * 1024"

definition max_index_snapshot_len :: nat where
  "max_index_snapshot_len = 512 * 1024 * 1024"

definition max_keyring_len :: nat where
  "max_keyring_len = 64 * 1024 * 1024"

fun max_control_object_len :: "control_object_kind \<Rightarrow> nat" where
  "max_control_object_len Journal = max_journal_record_len"
| "max_control_object_len Keyring = max_keyring_len"
| "max_control_object_len IndexSnapshot = max_index_snapshot_len"
| "max_control_object_len ActivationSnapshot = max_index_snapshot_len"

definition all_kinds :: "control_object_kind list" where
  "all_kinds = [Journal, Keyring, IndexSnapshot, ActivationSnapshot]"

definition max_control_object_len_at :: "control_object_name \<Rightarrow> nat" where
  "max_control_object_len_at name =
     foldl max 0 (map max_control_object_len (filter (admits name) all_kinds))"

definition check_control_object_len :: "control_object_kind \<Rightarrow> nat \<Rightarrow> format_error + unit" where
  "check_control_object_len k len =
     (let ceiling = max_control_object_len k
      in if len > ceiling then Err (ControlObjectTooLong k len ceiling) else Ok ())"

text \<open>Reading a name up to its ceiling never cuts an object the name admits.\<close>

lemma max_control_object_len_at_ge: "admits n k \<Longrightarrow> max_control_object_len k \<le> max_control_object_len_at n"
  by (cases n; cases k) (simp_all add: max_control_object_len_at_def all_kinds_def)

lemma max_control_object_len_at_least:
  "\<exists>k. admits n k \<and> max_control_object_len_at n = max_control_object_len k"
  by (cases n)
    (auto simp: max_control_object_len_at_def all_kinds_def max_journal_record_len_def max_index_snapshot_len_def
      max_keyring_len_def intro: exI [of _ ActivationSnapshot])

section \<open>The payload\<close>

definition malformed_payload :: "string \<Rightarrow> format_error" where
  "malformed_payload detail = MalformedControlPayload (Written detail)"

fun as_map :: "cbor \<Rightarrow> format_error + (cbor \<times> cbor) list" where
  "as_map (Map entries) = Ok entries"
| "as_map _ = Err ControlPayloadNotAMap"

definition payload_to_bytes :: "cbor_lib \<Rightarrow> cbor \<Rightarrow> format_error + byte list" where
  "payload_to_bytes L v = map_err ControlPayloadEncodeFailed (into_writer L v)"

definition read_map :: "cbor_lib \<Rightarrow> byte list \<Rightarrow> format_error + (cbor \<times> cbor) list" where
  "read_map L bytes =
     and_then (map_err (\<lambda>e. MalformedControlPayload (Undecodable e)) (from_reader L bytes)) (\<lambda>(v, remaining).
       if remaining \<noteq> []
       then Err (malformed_payload (show_nat (length remaining) @ '' bytes follow the payload map''))
       else as_map v)"

definition pad_to_bucket :: "byte list \<Rightarrow> format_error + byte list" where
  "pad_to_bucket plaintext =
     (let padded = padded_len_u64 (length plaintext)
      in and_then (ok_or (ControlPayloadTooLong padded) (to_usize padded)) (\<lambda>len. Ok (resize len plaintext)))"

definition is_epoch_key :: "cbor \<times> cbor \<Rightarrow> bool" where
  "is_epoch_key = (\<lambda>(key, _). field_number key = Some master_key_epoch_field)"

definition payload_encode :: "cbor_lib \<Rightarrow> control_payload \<Rightarrow> format_error + byte list" where
  "payload_encode L payload =
     and_then (read_map L (pl_body payload)) (\<lambda>entries.
       if list_ex is_epoch_key entries
       then Err (malformed_payload ''the body already carries master_key_epoch'')
       else let entries = (Integer (int master_key_epoch_field), Integer (int (epoch (pl_epoch payload)))) # entries
            in and_then (payload_to_bytes L (Map entries)) pad_to_bucket)"

definition read_padded_map :: "cbor_lib \<Rightarrow> byte list \<Rightarrow> format_error + (cbor \<times> cbor) list" where
  "read_padded_map L plaintext =
     and_then (map_err (\<lambda>e. MalformedControlPayload (Undecodable e)) (from_reader L plaintext)) (\<lambda>(v, padding).
       let map_len = wsub64 (length plaintext) (length padding);
           expected = padded_len_u64 map_len
       in if expected \<noteq> length plaintext then Err (ControlPaddingLengthMismatch expected (length plaintext))
          else if list_ex (\<lambda>b. b \<noteq> 0) padding then Err NonZeroControlPadding
          else as_map v)"

text \<open>\<open>entries.remove(position)\<close> of the first entry the predicate holds for.\<close>

fun extract_first :: "('a \<Rightarrow> bool) \<Rightarrow> 'a list \<Rightarrow> ('a \<times> 'a list) option" where
  "extract_first P [] = None"
| "extract_first P (x # xs) =
     (if P x then Some (x, xs) else map_option (\<lambda>(y, ys). (y, x # ys)) (extract_first P xs))"

definition payload_decode :: "cbor_lib \<Rightarrow> byte list \<Rightarrow> format_error + control_payload" where
  "payload_decode L plaintext =
     and_then (read_padded_map L plaintext) (\<lambda>entries.
     and_then (ok_or MissingMasterKeyEpoch (extract_first is_epoch_key entries)) (\<lambda>((_, e), entries).
     and_then (ok_or (malformed_payload ''master_key_epoch is not an unsigned integer below 2^63'')
                 (as_bounded_uint e)) (\<lambda>e.
     and_then (map_err Model (epoch_new e)) (\<lambda>e.
     and_then (payload_to_bytes L (Map entries)) (\<lambda>body.
       Ok \<lparr>pl_epoch = e, pl_body = body\<rparr>)))))"

section \<open>The object\<close>

definition encode_control_object ::
  "cbor_lib \<Rightarrow> aead \<Rightarrow> format_error + byte list \<Rightarrow> control_object_name \<Rightarrow> control_object_kind \<Rightarrow> purpose_key \<Rightarrow>
   control_payload \<Rightarrow> format_error + (byte list \<times> string)" where
  "encode_control_object L A drawn name k key payload =
     (if \<not> admits name k then Err (ControlObjectKindNotAdmitted name k)
      else and_then (require_purpose key (of_control_object k)) (\<lambda>kb.
           and_then drawn (\<lambda>nonce.
             let header = \<lparr>ch_kind = k, ch_generation = name_generation name, ch_replica = name_replica name,
                           ch_nonce = nonce\<rparr>;
                 header_bytes = control_header_to_bytes header
             in and_then (payload_encode L payload) (\<lambda>plaintext.
                let object_len = control_header_len + length plaintext + tag_length
                in and_then (check_control_object_len k object_len) (\<lambda>_.
                   and_then (seal A kb nonce header_bytes plaintext header_bytes) (\<lambda>object.
                     Ok (object, show_name name)))))))"

record decoded_control_object =
  dc_kind :: control_object_kind
  dc_generation :: generation
  dc_replica :: replica_position
  dc_payload :: control_payload

definition decode_control_object ::
  "cbor_lib \<Rightarrow> aead \<Rightarrow> byte list \<Rightarrow> string \<Rightarrow> purpose_key \<Rightarrow> format_error + decoded_control_object" where
  "decode_control_object L A object object_name key =
     and_then (map_err Model (parse_name object_name)) (\<lambda>name.
     and_then (control_header_parse object) (\<lambda>header.
       if \<not> admits name (ch_kind header) then Err (ControlObjectKindNotAdmitted name (ch_kind header))
       else if name_generation name \<noteq> ch_generation header then Err (ObjectNameMismatch ''generation'')
       else if name_replica name \<noteq> ch_replica header then Err (ObjectNameMismatch ''replica position'')
       else and_then (check_control_object_len (ch_kind header) (length object)) (\<lambda>_.
            and_then (require_purpose key (of_control_object (ch_kind header))) (\<lambda>kb.
              let associated_data = take control_header_len object; message = drop control_header_len object
              in if message = [] then Err MissingControlPayload
                 else and_then (open_message A kb (ch_nonce header) associated_data message) (\<lambda>plaintext.
                      and_then (payload_decode L plaintext) (\<lambda>payload.
                        Ok \<lparr>dc_kind = ch_kind header, dc_generation = ch_generation header,
                            dc_replica = ch_replica header, dc_payload = payload\<rparr>))))))"

section \<open>A stored object opens as what was stored\<close>

text \<open>The bodies the encoders write: one map, in the library's spelling, without the framing's own field.\<close>

definition body_of :: "cbor_lib \<Rightarrow> byte list \<Rightarrow> (cbor \<times> cbor) list \<Rightarrow> bool" where
  "body_of L body entries \<longleftrightarrow>
     plain (Map entries) \<and> into_writer L (Map entries) = Inr body \<and> \<not> list_ex is_epoch_key entries"

lemma payload_encode_Ok:
  assumes L: "cbor_laws L" and body: "body_of L (pl_body p) entries" and e: "epoch_ok (pl_epoch p)"
    and enc: "payload_encode L p = Inr plaintext"
  obtains b where "plaintext = b @ replicate (padded_len_u64 (length b) - length b) 0"
    and "into_writer L (Map ((Integer 0, Integer (int (epoch (pl_epoch p)))) # entries)) = Inr b"
    and "length plaintext = padded_len_u64 (length b)" and "length b < 2 ^ 63"
proof -
  have "from_reader L (pl_body p @ []) = Inr (Map entries, [])"
    using L body unfolding cbor_laws_def body_of_def by blast
  then have "read_map L (pl_body p) = Inr entries" by (simp add: read_map_def)
  then obtain b where b: "into_writer L (Map ((Integer 0, Integer (int (epoch (pl_epoch p)))) # entries)) = Inr b"
    and pad: "pad_to_bucket b = Inr plaintext"
    using enc body
    by (auto simp: payload_encode_def body_of_def Let_def payload_to_bytes_def master_key_epoch_field_def
        and_then_Inr_iff map_err_Inr_iff)
  have pt: "plaintext = resize (padded_len_u64 (length b)) b"
    using pad by (auto simp: pad_to_bucket_def Let_def and_then_Inr_iff ok_or_Inr_iff to_usize_Some_iff)
  have "plain (Map ((Integer 0, Integer (int (epoch (pl_epoch p)))) # entries))"
    using body e by (simp add: body_of_def epoch_ok_def max_format_integer_def)
  then have small: "length b < 2 ^ 63" using L b unfolding cbor_laws_def by blast
  then have "length b \<le> padded_len_u64 (length b)" by (rule padded_len_u64_ge)
  with that [of b] small b pt show thesis by (simp add: resize_grow)
qed

lemma payload_decode_encode:
  assumes L: "cbor_laws L" and body: "body_of L (pl_body p) entries" and e: "epoch_ok (pl_epoch p)"
    and enc: "payload_encode L p = Inr plaintext"
  shows "payload_decode L plaintext = Inr p"
proof -
  let ?v = "Map ((Integer 0, Integer (int (epoch (pl_epoch p)))) # entries)"
  from payload_encode_Ok [OF assms] obtain b where
    pt: "plaintext = b @ replicate (padded_len_u64 (length b) - length b) 0"
    and b: "into_writer L ?v = Inr b" and len: "length plaintext = padded_len_u64 (length b)" "length b < 2 ^ 63" .
  have "plain ?v" using body e by (simp add: body_of_def epoch_ok_def max_format_integer_def)
  then have "from_reader L plaintext = Inr (?v, replicate (padded_len_u64 (length b) - length b) 0)"
    unfolding pt using L b unfolding cbor_laws_def by blast
  moreover have "wsub64 (length plaintext) (padded_len_u64 (length b) - length b) = length b"
  proof -
    have "padded_len_u64 (length b) < 2 ^ 64" using unat_u64_less by (simp only: padded_len_u64_def)
    then show ?thesis
      using padded_len_u64_ge [OF len(2)] len by (subst wsub64_small) simp_all
  qed
  ultimately have "read_padded_map L plaintext = Inr ((Integer 0, Integer (int (epoch (pl_epoch p)))) # entries)"
    using len(1) by (simp add: read_padded_map_def Let_def list_ex_iff)
  moreover have "epoch_new (epoch (pl_epoch p)) = Inr (pl_epoch p)" "epoch (pl_epoch p) < 2 ^ 64"
    "epoch (pl_epoch p) \<le> max_format_integer"
    using e by (cases "pl_epoch p"; simp add: epoch_new_Ok_iff; simp add: epoch_ok_def max_format_integer_def)+
  ultimately show ?thesis
    using body
    by (cases p) (simp add: payload_decode_def is_epoch_key_def master_key_epoch_field_def as_bounded_uint_def
        body_of_def payload_to_bytes_def)
qed

lemma decode_encode_control_object:
  assumes A: "aead_laws A" and L: "cbor_laws L" and drawn: "\<And>n. drawn = Inr n \<Longrightarrow> length n = nonce_len"
    and name: "name_ok name" and body: "body_of L (pl_body p) entries" and e: "epoch_ok (pl_epoch p)"
    and enc: "encode_control_object L A drawn name k key p = Inr (object, object_name)"
  shows "decode_control_object L A object object_name key =
    Inr \<lparr>dc_kind = k, dc_generation = name_generation name, dc_replica = name_replica name, dc_payload = p\<rparr>"
proof -
  obtain n pt where adm: "admits name k" and key: "pk_purpose key = of_control_object k" and n: "drawn = Inr n"
    and pt: "payload_encode L p = Inr pt" and nm: "object_name = show_name name"
    and chk: "check_control_object_len k (control_header_len + length pt + tag_length) = Inr ()"
    and obj: "seal A (pk_bytes key) n (control_header_to_bytes \<lparr>ch_kind = k, ch_generation = name_generation name,
        ch_replica = name_replica name, ch_nonce = n\<rparr>) pt (control_header_to_bytes \<lparr>ch_kind = k,
        ch_generation = name_generation name, ch_replica = name_replica name, ch_nonce = n\<rparr>) = Inr object"
    using enc by (auto simp: encode_control_object_def Let_def res_simps split: if_splits)
  define h where "h = \<lparr>ch_kind = k, ch_generation = name_generation name, ch_replica = name_replica name, ch_nonce = n\<rparr>"
  have hn: "length (ch_nonce h) = nonce_len" using drawn [OF n] by (simp add: h_def)
  have h: "control_header_ok h"
    using name hn by (cases name) (auto simp: control_header_ok_def h_def replica_single_def replica_ok_def)
  obtain m where m: "object = control_header_to_bytes h @ m" "length m = length pt + tag_length"
    and op: "open_message A (pk_bytes key) n (control_header_to_bytes h) m = Inr pt"
    using seal_length [OF A obj] unfolding h_def by blast
  have len: "length object = control_header_len + length pt + tag_length" using m hn by simp
  have parse: "parse_name object_name = Inr name" using name nm by (simp add: parse_show_name)
  have hp: "control_header_parse object = Inr h" unfolding m(1) using h by (rule control_header_parse_complete)
  have "m \<noteq> []" using m(2) by (auto simp: tag_length_def)
  then show ?thesis
    using adm chk op key hn payload_decode_encode [OF L body e pt]
    by (simp add: decode_control_object_def parse hp len) (simp add: m(1) h_def require_purpose_def tag_length_def)
qed

text \<open>An object opens under no name but one its header agrees with: swapping two objects of a Library
  is refused before anything is decrypted.\<close>

lemma decode_control_object_name:
  assumes "decode_control_object L A object object_name key = Inr d"
  obtains name h where "object_name = show_name name" and "name_ok name" and "control_header_parse object = Inr h"
    and "admits name (dc_kind d)" and "name_generation name = dc_generation d" and "name_replica name = dc_replica d"
    and "dc_kind d = ch_kind h" and "dc_generation d = ch_generation h" and "dc_replica d = ch_replica h"
    and "pk_purpose key = of_control_object (dc_kind d)"
    and "length object \<le> max_control_object_len (dc_kind d)"
proof -
  obtain name h where "parse_name object_name = Inr name" and h: "control_header_parse object = Inr h"
    and adm: "admits name (ch_kind h)" "name_generation name = ch_generation h" "name_replica name = ch_replica h"
    and len: "check_control_object_len (ch_kind h) (length object) = Inr ()"
    and key: "pk_purpose key = of_control_object (ch_kind h)"
    and d: "dc_kind d = ch_kind h" "dc_generation d = ch_generation h" "dc_replica d = ch_replica h"
    using assms
    by (auto simp: decode_control_object_def Let_def and_then_Inr_iff map_err_Inr_iff require_purpose_Ok_iff split: if_splits)
  moreover from this have "object_name = show_name name" "name_ok name" using parse_name_shows by auto
  moreover have "length object \<le> max_control_object_len (ch_kind h)"
    using len by (auto simp: check_control_object_len_def Let_def split: if_splits)
  ultimately show thesis using that by metis
qed

end
