(* ===== verification/Device_State.thy ===== *)
theory Device_State
  imports Aggregates "HOL-Library.Option_ord"
begin

text \<open>
  \<open>coffret-usecase/src/device_state\<close> and \<open>entry_ref.rs\<close>: what a device keeps beside the catalog it shares, one
  record per file of the source. A path of the device is text here. \<open>LiveReservations\<close> is the registry of the
  reservations a process holds; dropping a \<open>LiveReservation\<close> is \<open>live_end\<close>. The lemmas say that a reservation is
  held by one holder at a time, and that a moment spares exactly what
  was live then, is live now or was first held since.
\<close>

type_synonym path_buf = string

section \<open>Which Entry\<close>

text \<open>\<open>EntryRef\<close>, a Container and a number, ordered as the pair.\<close>

type_synonym entry_ref = "container_id \<times> entry_number"

definition entry_ref_of :: "entry_location \<Rightarrow> entry_ref" where
  "entry_ref_of l = (loc_container l, loc_number l)"

definition renamed_by :: "entry_rename \<Rightarrow> entry_ref" where
  "renamed_by r = (ren_container r, ren_number r)"

lemma entry_ref_keys [simp]: "entry_ref_of l = loc_key l" "renamed_by r = order_key r"
  by (simp_all add: entry_ref_of_def loc_key_def renamed_by_def order_key_def)

section \<open>Spools, batches and slots\<close>

datatype batch_id = BatchId (batch_str: string)

instantiation batch_id :: linorder
begin

definition less_eq_batch_id :: "batch_id \<Rightarrow> batch_id \<Rightarrow> bool" where
  "less_eq_batch_id a b \<longleftrightarrow> batch_str a \<le> batch_str b"

definition less_batch_id :: "batch_id \<Rightarrow> batch_id \<Rightarrow> bool" where
  "less_batch_id a b \<longleftrightarrow> batch_str a < batch_str b"

instance
  by standard (auto simp: less_eq_batch_id_def less_batch_id_def batch_id.expand)

end

datatype attempted_slot = AttemptedSlot (at_generation: generation) (at_provider_id: "string option")

instantiation attempted_slot :: linorder
begin

definition less_eq_attempted_slot :: "attempted_slot \<Rightarrow> attempted_slot \<Rightarrow> bool" where
  "less_eq_attempted_slot a b \<longleftrightarrow>
     (at_generation a, at_provider_id a) \<le> (at_generation b, at_provider_id b)"

definition less_attempted_slot :: "attempted_slot \<Rightarrow> attempted_slot \<Rightarrow> bool" where
  "less_attempted_slot a b \<longleftrightarrow>
     (at_generation a, at_provider_id a) < (at_generation b, at_provider_id b)"

instance
  by standard (auto simp: less_eq_attempted_slot_def less_attempted_slot_def attempted_slot.expand)

end

datatype device_time = DeviceTime (device_secs: int)

datatype spool_state = Spooling | Spooled "object_ref option"

definition spool_object_ref :: "spool_state \<Rightarrow> object_ref option" where
  "spool_object_ref s = (case s of Spooling \<Rightarrow> None | Spooled r \<Rightarrow> r)"

definition is_spooled :: "spool_state \<Rightarrow> bool" where
  "is_spooled s \<longleftrightarrow> (case s of Spooling \<Rightarrow> False | Spooled _ \<Rightarrow> True)"

record pending_row =
  pr_commit_attempted :: bool
  pr_container :: container_id
  pr_spool_path :: path_buf
  pr_batch :: batch_id
  pr_created_at :: device_time
  pr_state :: spool_state
  pr_materializes :: bool

record held_parcel =
  hp_container :: container_id
  hp_index :: nat
  hp_start :: nat
  hp_end :: nat
  hp_path :: path_buf

definition parcel_covers :: "held_parcel \<Rightarrow> nat \<Rightarrow> nat \<Rightarrow> bool" where
  "parcel_covers p off sz \<longleftrightarrow>
     (if sz = 0 then hp_start p \<le> off \<and> off \<le> hp_end p
      else off < hp_end p \<and> wadd64 off sz > hp_start p)"

section \<open>Local files\<close>

record local_observation =
  ob_path :: entry_path
  ob_size :: nat
  ob_mtime :: mtime
  ob_at :: device_time
  ob_entry :: entry_ref
  ob_hash :: "content_hash option"

datatype local_entry_state = Present | Absent

record local_entry =
  le_observation :: local_observation
  le_state :: local_entry_state
  le_relocate_to :: "entry_path option"

definition awaits_relocation :: "local_entry \<Rightarrow> bool" where
  "awaits_relocation l \<longleftrightarrow> le_relocate_to l \<noteq> None"

definition is_copy_of :: "local_entry \<Rightarrow> entry_location \<Rightarrow> bool" where
  "is_copy_of l location \<longleftrightarrow> \<not> awaits_relocation l \<and> ob_entry (le_observation l) = entry_ref_of location"

section \<open>Mapped roots\<close>

datatype root_identity = RootIdentity (identity_str: string)

datatype root_marker_id = RootMarkerId (marker_bytes: "byte list")

definition marker_byte_len :: nat where
  "marker_byte_len = 8"

definition marker_parse :: "string \<Rightarrow> model_error + root_marker_id" where
  "marker_parse hex = and_then (hex_decode marker_byte_len hex) (\<lambda>bytes. Ok (RootMarkerId bytes))"

definition marker_to_hex :: "root_marker_id \<Rightarrow> string" where
  "marker_to_hex m = hex_encode (marker_bytes m)"

record mapping =
  mp_prefix :: "entry_path option"
  mp_local_root :: path_buf
  mp_root_identity :: "root_identity option"
  mp_expected_root :: "root_marker_id option"

definition mapping_new :: "entry_path option \<Rightarrow> path_buf \<Rightarrow> mapping" where
  "mapping_new prefix local_root =
     \<lparr>mp_prefix = prefix, mp_local_root = local_root, mp_root_identity = None, mp_expected_root = None\<rparr>"

definition mapping_stamped :: "mapping \<Rightarrow> root_identity \<Rightarrow> mapping" where
  "mapping_stamped m identity = m\<lparr>mp_root_identity := Some identity\<rparr>"

definition mapping_expecting :: "mapping \<Rightarrow> root_marker_id \<Rightarrow> mapping" where
  "mapping_expecting m expected = m\<lparr>mp_expected_root := Some expected\<rparr>"

definition represented_prefixes :: "mapping list \<Rightarrow> string bset" where
  "represented_prefixes ms = bs_collect (map path_str (List.map_filter mp_prefix ms))"

interpretation marker_hex: canonical_codec marker_to_hex marker_parse "\<lambda>m. length (marker_bytes m) = marker_byte_len"
proof unfold_locales
  show "length (marker_bytes m) = marker_byte_len \<Longrightarrow> marker_parse (marker_to_hex m) = Inr m" for m
    by (simp add: marker_parse_def marker_to_hex_def hex.dec_enc)
  show "marker_parse w = Inr m \<Longrightarrow> marker_to_hex m = w"
    and "marker_parse w = Inr m \<Longrightarrow> length (marker_bytes m) = marker_byte_len" for w m
    by (auto simp: marker_parse_def marker_to_hex_def and_then_Inr_iff hex.dec_Inr_iff)
qed

section \<open>Reservations\<close>

datatype reservation_id = ReservationId (reservation_num: nat)

instantiation reservation_id :: linorder
begin

definition less_eq_reservation_id :: "reservation_id \<Rightarrow> reservation_id \<Rightarrow> bool" where
  "less_eq_reservation_id a b \<longleftrightarrow> reservation_num a \<le> reservation_num b"

definition less_reservation_id :: "reservation_id \<Rightarrow> reservation_id \<Rightarrow> bool" where
  "less_reservation_id a b \<longleftrightarrow> reservation_num a < reservation_num b"

instance
  by standard (auto simp: less_eq_reservation_id_def less_reservation_id_def reservation_id.expand)

end

record reservation =
  rv_id :: reservation_id
  rv_folder :: "entry_path option"
  rv_paths :: "entry_path bset"
  rv_received :: bool

definition in_progress :: "reservation \<Rightarrow> bool" where
  "in_progress r \<longleftrightarrow> \<not> rv_received r"

record live_reservations =
  lv_live :: "reservation_id bset"
  lv_ever :: "reservation_id bset"

definition live_new :: live_reservations where
  "live_new = \<lparr>lv_live = [], lv_ever = []\<rparr>"

definition live_hold :: "reservation_id \<Rightarrow> live_reservations \<Rightarrow> live_reservations" where
  "live_hold i held = held\<lparr>lv_live := bs_insert i (lv_live held), lv_ever := bs_insert i (lv_ever held)\<rparr>"

text \<open>\<open>try_hold\<close>: the answer is whether a \<open>LiveReservation\<close> is given.\<close>

definition live_try_hold :: "reservation_id \<Rightarrow> live_reservations \<Rightarrow> live_reservations \<times> bool" where
  "live_try_hold i held =
     (if bt_contains (lv_live held) i then (held, False)
      else (held\<lparr>lv_live := bs_insert i (lv_live held), lv_ever := bs_insert i (lv_ever held)\<rparr>, True))"

definition live_is_live :: "reservation_id \<Rightarrow> live_reservations \<Rightarrow> bool" where
  "live_is_live i held \<longleftrightarrow> bt_contains (lv_live held) i"

definition live_since_now :: "live_reservations \<Rightarrow> reservation_id bset" where
  "live_since_now held = bt_retain (\<lambda>i _. \<not> bt_contains (lv_live held) i) (lv_ever held)"

definition live_end :: "reservation_id \<Rightarrow> live_reservations \<Rightarrow> live_reservations" where
  "live_end i held = held\<lparr>lv_live := bt_remove i (lv_live held)\<rparr>"

text \<open>\<open>LiveSince::spares\<close>; \<open>ended\<close> is what \<open>live_since_now\<close> gave.\<close>

definition live_spares :: "reservation_id bset \<Rightarrow> live_reservations \<Rightarrow> reservation_id \<Rightarrow> bool" where
  "live_spares ended held i \<longleftrightarrow>
     bt_contains (lv_live held) i \<or> (bt_contains (lv_ever held) i \<and> \<not> bt_contains ended i)"

definition live_ok :: "live_reservations \<Rightarrow> bool" where
  "live_ok held \<longleftrightarrow> bt_inv (lv_live held) \<and> bt_inv (lv_ever held) \<and>
     (\<forall>i. bt_contains (lv_live held) i \<longrightarrow> bt_contains (lv_ever held) i)"

inductive live_step :: "live_reservations \<Rightarrow> live_reservations \<Rightarrow> bool" where
  held: "live_step h (live_hold i h)"
| tried: "live_step h (fst (live_try_hold i h))"
| ended: "live_step h (live_end i h)"

lemma live_new_ok: "live_ok live_new"
  by (simp add: live_ok_def live_new_def bt_contains_def)

lemma contains_remove [simp]: "bt_inv m \<Longrightarrow> bt_contains (bt_remove i m) j \<longleftrightarrow> j \<noteq> i \<and> bt_contains m j"
  by (simp add: bt_contains_def bt_get_remove)

lemma live_step_ok: "live_step h h' \<Longrightarrow> live_ok h \<Longrightarrow> live_ok h'"
  by (induction rule: live_step.induct)
    (auto simp: live_ok_def live_hold_def live_try_hold_def live_end_def bs_inv_insert bt_inv_remove)

text \<open>What was ever held is not forgotten.\<close>

lemma live_step_ever: "live_step h h' \<Longrightarrow> live_ok h \<Longrightarrow> bt_contains (lv_ever h) i \<Longrightarrow> bt_contains (lv_ever h') i"
  by (induction rule: live_step.induct) (auto simp: live_ok_def live_hold_def live_try_hold_def live_end_def)

lemma live_steps_ok: "live_step\<^sup>*\<^sup>* h h' \<Longrightarrow> live_ok h \<Longrightarrow> live_ok h' \<and> (\<forall>i. bt_contains (lv_ever h) i \<longrightarrow> bt_contains (lv_ever h') i)"
  by (induction rule: rtranclp_induct) (auto dest: live_step_ok live_step_ever)

lemma live_since_now_contains: "live_ok h \<Longrightarrow> bt_contains (live_since_now h) i \<longleftrightarrow> bt_contains (lv_ever h) i \<and> \<not> bt_contains (lv_live h) i"
  by (auto simp: live_since_now_def live_ok_def bt_contains_def bt_get_retain split: option.splits)

lemma live_spares_iff:
  assumes "live_ok h" and "live_step\<^sup>*\<^sup>* h h'"
  shows "live_spares (live_since_now h) h' i \<longleftrightarrow>
    bt_contains (lv_live h') i \<or> bt_contains (lv_live h) i \<or> (bt_contains (lv_ever h') i \<and> \<not> bt_contains (lv_ever h) i)"
proof -
  have "bt_contains (lv_live h) i \<Longrightarrow> bt_contains (lv_ever h') i"
    using live_steps_ok [OF assms(2,1)] assms(1) by (auto simp: live_ok_def)
  then show ?thesis using live_since_now_contains [OF assms(1)] by (auto simp: live_spares_def)
qed

text \<open>An id held and let go before the moment, and held and let go again since, is not spared.\<close>

lemma spares_misses_a_second_hold:
  "\<exists>before held. live_step\<^sup>*\<^sup>* live_new before \<and> live_step\<^sup>*\<^sup>* before held \<and> live_is_live i held \<and>
     \<not> live_spares (live_since_now before) (live_end i held) i"
proof -
  define before where "before = live_end i (live_hold i live_new)"
  define held where "held = live_hold i before"
  have start: "live_step\<^sup>*\<^sup>* live_new before" unfolding before_def by (meson live_step.held live_step.ended rtranclp.rtrancl_into_rtrancl rtranclp.rtrancl_refl)
  then have ok: "live_ok before" using live_steps_ok live_new_ok by blast
  have step: "live_step\<^sup>*\<^sup>* before held" unfolding held_def by (rule r_into_rtranclp) (rule live_step.held)
  have inv: "bt_inv (lv_live held)" "live_ok held" using live_steps_ok [OF step ok] by (simp_all add: live_ok_def)
  have "live_ok (live_hold i live_new)" by (rule live_step_ok [OF live_step.held live_new_ok])
  then have b: "bt_contains (lv_ever before) i" "\<not> bt_contains (lv_live before) i"
    by (auto simp: before_def live_end_def live_hold_def live_new_def live_ok_def)
  have h: "live_is_live i held" "\<not> bt_contains (lv_live (live_end i held)) i"
    using inv ok by (auto simp: live_is_live_def held_def live_hold_def live_end_def live_ok_def)
  have "live_step\<^sup>*\<^sup>* before (live_end i held)" using step live_step.ended by (rule rtranclp.rtrancl_into_rtrancl)
  then have "\<not> live_spares (live_since_now before) (live_end i held) i" using live_spares_iff [OF ok, of _ i] b h(2) by blast
  then show ?thesis using start step h(1) by blast
qed

end
