(* ===== verification/Catalog_Renames.thy ===== *)
theory Catalog_Renames
  imports Device_State
begin

text \<open>
  \<open>coffret-usecase/src/index_error\<close> and \<open>catalog_renames\<close>: the refusals of an Index, and the rules a set of renames
  is held to against a catalog, which is consulted through two closures. The lemma says which sets are accepted:
  each element names a current Entry that may move and does, no two move to one path, and what stands in the way
  of one is itself moving.
\<close>

section \<open>Refusals\<close>

datatype rename_rule =
    ContainerRemoved container_id
  | ContainerNotCurrent container_id
  | EntryNumberOutsideTable container_id nat
  | PathUnchanged
  | DerivedEntry
  | PathTaken
  | PathClaimedTwice nat
  | PathAdded container_id

text \<open>The causes that are other libraries' errors are left out, as the texts of errors are.\<close>

datatype index_error =
    PendingRowsBusy
  | NoCheckpoint
  | DuplicatePath entry_path
  | DuplicateContainer container_id
  | UnknownContainer container_id
  | AlreadyApplied generation generation
  | RenameRefused nat rename_rule
  | UnrepresentablePath string path_buf
  | UnrepresentableValue string string nat
  | UnsupportedSchema int int
  | UnreadableCatalog string model_error
  | IndexBackend string

section \<open>The check\<close>

datatype named = NoContainer | NoEntry | NamedEntry entry_location

record renamed_entry =
  rn_before :: entry_location
  rn_path :: entry_path

definition renamed_from :: "renamed_entry \<Rightarrow> entry_path" where
  "renamed_from r = loc_path (rn_before r)"

definition renamed_after :: "renamed_entry \<Rightarrow> entry_location" where
  "renamed_after r = (rn_before r)\<lparr>loc_entry := (loc_entry (rn_before r))\<lparr>path := rn_path r\<rparr>\<rparr>"

text \<open>The body of the first loop.\<close>

definition rename_target ::
  "container_id list \<Rightarrow> (container_id \<Rightarrow> entry_number \<Rightarrow> index_error + named) \<Rightarrow> nat \<times> entry_rename \<Rightarrow>
   index_error + renamed_entry" where
  "rename_target removals named = (\<lambda>(element, rename).
     let container_id = ren_container rename
     in if binary_search_by_key (\<lambda>c. c) removals container_id \<noteq> None
        then Err (RenameRefused element (ContainerRemoved container_id))
        else and_then (named container_id (ren_number rename)) (\<lambda>found.
             case found of
               NoContainer \<Rightarrow> Err (RenameRefused element (ContainerNotCurrent container_id))
             | NoEntry \<Rightarrow> Err (RenameRefused element (EntryNumberOutsideTable container_id (number (ren_number rename))))
             | NamedEntry was \<Rightarrow>
                 if loc_path was = ren_path rename then Err (RenameRefused element PathUnchanged)
                 else if derivation (loc_entry was) \<noteq> None \<or> path_is_derived (loc_path was)
                 then Err (RenameRefused element DerivedEntry)
                 else Ok \<lparr>rn_before = was, rn_path = ren_path rename\<rparr>))"

text \<open>The body of the second; its state is \<open>claimed\<close>.\<close>

definition claim_step ::
  "entry_ref bset \<Rightarrow> (entry_path \<Rightarrow> index_error + entry_ref option) \<Rightarrow> (entry_path, nat) btree \<Rightarrow> nat \<times> entry_rename \<Rightarrow>
   index_error + (entry_path, nat) btree" where
  "claim_step moving standing_at = (\<lambda>claims (element, rename).
     case bt_get claims (ren_path rename) of
       Some earlier \<Rightarrow> Err (RenameRefused element (PathClaimedTwice earlier))
     | None \<Rightarrow>
         let claims = bt_insert (ren_path rename) element claims
         in and_then (standing_at (ren_path rename)) (\<lambda>standing.
              case standing of
                Some s \<Rightarrow> if \<not> bt_contains moving s then Err (RenameRefused element PathTaken) else Ok claims
              | None \<Rightarrow> Ok claims))"

text \<open>The body of the last.\<close>

definition addition_clear :: "(entry_path, nat) btree \<Rightarrow> container_addition \<Rightarrow> index_error + unit list" where
  "addition_clear claims a =
     collect_res (\<lambda>e. case bt_get claims (path e) of
         Some element \<Rightarrow> Err (RenameRefused element (PathAdded (cid (add_container a))))
       | None \<Rightarrow> Ok ()) (add_entries a)"

definition check_rename_set ::
  "entry_rename list \<Rightarrow> container_id list \<Rightarrow> container_addition list \<Rightarrow>
   (container_id \<Rightarrow> entry_number \<Rightarrow> index_error + named) \<Rightarrow> (entry_path \<Rightarrow> index_error + entry_ref option) \<Rightarrow>
   index_error + renamed_entry list" where
  "check_rename_set renames removals additions named standing_at =
     (if renames = [] then Ok []
      else and_then (collect_res (rename_target removals named) (enumerate 0 renames)) (\<lambda>renamed.
           and_then (try_fold (claim_step (bs_collect (map order_key renames)) standing_at) [] (enumerate 0 renames)) (\<lambda>claims.
           and_then (collect_res (addition_clear claims) additions) (\<lambda>_. Ok renamed))))"

definition check_renames ::
  "journal_record \<Rightarrow> (container_id \<Rightarrow> entry_number \<Rightarrow> index_error + named) \<Rightarrow>
   (entry_path \<Rightarrow> index_error + entry_ref option) \<Rightarrow> index_error + renamed_entry list" where
  "check_renames r named standing_at =
     check_rename_set (jr_renames r) (jr_removals r) (jr_additions r) named standing_at"

section \<open>Which sets are accepted\<close>

text \<open>One element against a catalog that answers \<open>nm\<close>.\<close>

definition movable ::
  "container_id list \<Rightarrow> (container_id \<Rightarrow> entry_number \<Rightarrow> named) \<Rightarrow> entry_rename \<Rightarrow> renamed_entry \<Rightarrow> bool" where
  "movable removals nm r x \<longleftrightarrow>
     ren_container r \<notin> set removals \<and>
     nm (ren_container r) (ren_number r) = NamedEntry (rn_before x) \<and> rn_path x = ren_path r \<and>
     loc_path (rn_before x) \<noteq> ren_path r \<and> derivation (loc_entry (rn_before x)) = None \<and>
     \<not> path_is_derived (loc_path (rn_before x))"

lemma rename_target_Ok_iff:
  assumes "sorted_wrt (<) removals"
  shows "rename_target removals (\<lambda>c n. Inr (nm c n)) (i, r) = Inr x \<longleftrightarrow> movable removals nm r x"
proof -
  have "binary_search_by_key (\<lambda>c. c) removals (ren_container r) = None \<longleftrightarrow> ren_container r \<notin> set removals"
    using binary_search_by_key_None_iff [of "\<lambda>c. c" removals] assms by auto
  then show ?thesis
    by (cases "nm (ren_container r) (ren_number r)"; cases x)
      (auto simp: rename_target_def movable_def Let_def)
qed

lemma claim_step_Ok_iff:
  "claim_step moving (\<lambda>p. Inr (st p)) claims (i, r) = Inr c \<longleftrightarrow>
     bt_get claims (ren_path r) = None \<and> (\<forall>s. st (ren_path r) = Some s \<longrightarrow> bt_contains moving s) \<and>
     c = bt_insert (ren_path r) i claims"
  by (cases "st (ren_path r)"; cases "bt_get claims (ren_path r)") (auto simp: claim_step_def)

lemma claims_shift:
  "A r \<and> B r \<and> distinct (map f rs) \<and> (\<forall>x \<in> set rs. f x \<noteq> f r \<and> A x) \<and> (\<forall>x \<in> set rs. B x) \<longleftrightarrow>
     distinct (map f (r # rs)) \<and> (\<forall>x \<in> set (r # rs). A x) \<and> (\<forall>x \<in> set (r # rs). B x)"
  by (auto simp: image_iff)

lemma claim_steps_Ok_iff:
  "bt_inv claims \<Longrightarrow>
   (\<exists>c. try_fold (claim_step moving (\<lambda>p. Inr (st p))) claims (enumerate i rs) = Inr c) \<longleftrightarrow>
     distinct (map ren_path rs) \<and> (\<forall>r \<in> set rs. bt_get claims (ren_path r) = None) \<and>
     (\<forall>r \<in> set rs. \<forall>s. st (ren_path r) = Some s \<longrightarrow> bt_contains moving s)"
proof (induction rs arbitrary: claims i)
  case (Cons r rs)
  have inv: "bt_inv (bt_insert (ren_path r) i claims)" by (rule bt_inv_insert [OF Cons.prems])
  have upd: "(if b then Some i else g) = None \<longleftrightarrow> \<not> b \<and> g = None" for b and g :: "nat option" by simp
  have "(\<exists>c. try_fold (claim_step moving (\<lambda>p. Inr (st p))) claims (enumerate i (r # rs)) = Inr c) \<longleftrightarrow>
      bt_get claims (ren_path r) = None \<and> (\<forall>s. st (ren_path r) = Some s \<longrightarrow> bt_contains moving s) \<and>
      (\<exists>c. try_fold (claim_step moving (\<lambda>p. Inr (st p))) (bt_insert (ren_path r) i claims) (enumerate (Suc i) rs) = Inr c)"
    by (auto simp: and_then_Inr_iff claim_step_Ok_iff)
  also have "\<dots> \<longleftrightarrow> bt_get claims (ren_path r) = None \<and> (\<forall>s. st (ren_path r) = Some s \<longrightarrow> bt_contains moving s) \<and>
      distinct (map ren_path rs) \<and> (\<forall>x \<in> set rs. ren_path x \<noteq> ren_path r \<and> bt_get claims (ren_path x) = None) \<and>
      (\<forall>x \<in> set rs. \<forall>s. st (ren_path x) = Some s \<longrightarrow> bt_contains moving s)"
    unfolding Cons.IH [OF inv] bt_get_insert [OF Cons.prems] fun_upd_apply upd ..
  also have "\<dots> \<longleftrightarrow> distinct (map ren_path (r # rs)) \<and> (\<forall>x \<in> set (r # rs). bt_get claims (ren_path x) = None) \<and>
      (\<forall>x \<in> set (r # rs). \<forall>s. st (ren_path x) = Some s \<longrightarrow> bt_contains moving s)"
    by (rule claims_shift)
  finally show ?case .
qed simp

lemma claim_steps_get:
  "bt_inv claims \<Longrightarrow> try_fold (claim_step moving (\<lambda>p. Inr (st p))) claims (enumerate i rs) = Inr c \<Longrightarrow>
     bt_get c p = None \<longleftrightarrow> bt_get claims p = None \<and> p \<notin> ren_path ` set rs"
proof (induction rs arbitrary: claims i)
  case (Cons r rs)
  have inv: "bt_inv (bt_insert (ren_path r) i claims)" by (rule bt_inv_insert [OF Cons.prems(1)])
  have "try_fold (claim_step moving (\<lambda>p. Inr (st p))) (bt_insert (ren_path r) i claims) (enumerate (Suc i) rs) = Inr c"
    using Cons.prems(2) by (auto simp: and_then_Inr_iff claim_step_Ok_iff)
  from Cons.IH [OF inv this] show ?case using Cons.prems(1) by (auto simp: bt_get_insert split: if_splits)
qed simp

lemma collect_res_ex_iff: "(\<exists>ys. collect_res f xs = Inr ys) \<longleftrightarrow> (\<forall>x \<in> set xs. \<exists>y. f x = Inr y)"
  by (induction xs) (auto simp: and_then_Inr_iff)

lemma additions_clear_iff:
  "(\<exists>us. collect_res (addition_clear claims) as = Inr us) \<longleftrightarrow>
     (\<forall>a \<in> set as. \<forall>e \<in> set (add_entries a). bt_get claims (path e) = None)"
  unfolding collect_res_ex_iff addition_clear_def by (auto split: option.splits)

lemma check_rename_set_Ok_iff:
  assumes "sorted_wrt (<) removals"
  shows "check_rename_set renames removals additions (\<lambda>c n. Inr (nm c n)) (\<lambda>p. Inr (st p)) = Inr renamed \<longleftrightarrow>
    list_all2 (movable removals nm) renames renamed \<and> distinct (map ren_path renames) \<and>
    (\<forall>r \<in> set renames. \<forall>s. st (ren_path r) = Some s \<longrightarrow> s \<in> order_key ` set renames) \<and>
    (\<forall>a \<in> set additions. \<forall>e \<in> set (add_entries a). path e \<notin> ren_path ` set renames)"
proof (cases "renames = []")
  case False
  let ?moving = "bs_collect (map order_key renames)"
  have targets: "collect_res (rename_target removals (\<lambda>c n. Inr (nm c n))) (enumerate i rs) = Inr xs \<longleftrightarrow>
      list_all2 (movable removals nm) rs xs" for rs xs i
    using rename_target_Ok_iff [OF assms, of nm]
    by (induction rs arbitrary: i xs) (auto simp: and_then_Inr_iff list_all2_Cons1)
  have clear: "(\<exists>us. collect_res (addition_clear c) additions = Inr us) \<longleftrightarrow>
      (\<forall>a \<in> set additions. \<forall>e \<in> set (add_entries a). path e \<notin> ren_path ` set renames)"
    if "try_fold (claim_step ?moving (\<lambda>p. Inr (st p))) [] (enumerate 0 renames) = Inr c" for c
    using claim_steps_get [OF _ that] by (simp add: additions_clear_iff)
  have "check_rename_set renames removals additions (\<lambda>c n. Inr (nm c n)) (\<lambda>p. Inr (st p)) = Inr renamed \<longleftrightarrow>
      list_all2 (movable removals nm) renames renamed \<and>
      (\<exists>c. try_fold (claim_step ?moving (\<lambda>p. Inr (st p))) [] (enumerate 0 renames) = Inr c \<and>
         (\<exists>us. collect_res (addition_clear c) additions = Inr us))"
    using False by (auto simp: check_rename_set_def and_then_Inr_iff targets)
  then show ?thesis
    using clear claim_steps_Ok_iff [of "[]" ?moving st 0 renames] by auto
qed (auto simp: check_rename_set_def)

end
