(* ===== verification/Keyed_Map.thy ===== *)
theory Keyed_Map
  imports Ordered_Map
begin

text \<open>
  A map that stores each value under a part of that value, as the tables of an Index do: what it holds is then a set
  of values no two of which share the key, and every operation is one on that set.
\<close>

definition stored :: "('k, 'v) btree \<Rightarrow> 'v set" where
  "stored m = set (bt_values m)"

definition keyed :: "('v \<Rightarrow> 'k) \<Rightarrow> ('k::linorder, 'v) btree \<Rightarrow> bool" where
  "keyed f m \<longleftrightarrow> bt_inv m \<and> bt_keys m = map f (bt_values m)"

named_theorems keyed_intros \<open>operations that keep a map keyed\<close>

lemma stored_Nil [simp]: "stored [] = {}"
  by (simp add: stored_def bt_values_def)

lemma keyed_Nil [simp, keyed_intros]: "keyed f []"
  by (simp add: keyed_def bt_keys_def bt_values_def)

lemma keyed_inv: "keyed f m \<Longrightarrow> bt_inv m"
  by (simp add: keyed_def)

lemma stored_iff: "bt_inv m \<Longrightarrow> v \<in> stored m \<longleftrightarrow> (\<exists>k. bt_get m k = Some v)"
  by (simp add: stored_def set_bt_values)

lemma keyed_iff: "keyed f m \<longleftrightarrow> bt_inv m \<and> (\<forall>k v. bt_get m k = Some v \<longrightarrow> f v = k)"
proof -
  have "bt_keys m = map f (bt_values m) \<longleftrightarrow> (\<forall>kv \<in> set m. f (snd kv) = fst kv)"
    by (induction m) (auto simp: bt_keys_def bt_values_def)
  then show ?thesis unfolding keyed_def using bt_get_iff [of m] by force
qed

lemma keyedI: "bt_inv m \<Longrightarrow> (\<And>k v. bt_get m k = Some v \<Longrightarrow> f v = k) \<Longrightarrow> keyed f m"
  by (simp add: keyed_iff)

lemma keyed_get: "keyed f m \<Longrightarrow> bt_get m k = Some v \<longleftrightarrow> v \<in> stored m \<and> f v = k"
  using stored_iff [of m v] by (auto simp: keyed_iff)

lemma keyed_contains: "keyed f m \<Longrightarrow> bt_contains m k \<longleftrightarrow> k \<in> f ` stored m"
  by (auto simp: bt_contains_def keyed_get image_iff)

lemma keyed_inj: "keyed f m \<Longrightarrow> inj_on f (stored m)"
  by (rule inj_onI) (metis keyed_get option.inject)

lemma keyed_values_sorted: "keyed f m \<Longrightarrow> sorted_wrt (<) (map f (bt_values m))"
  by (metis keyed_def bt_inv_def bt_keys_def)

lemma keyed_eqI:
  assumes "keyed f m" and "keyed f m'" and "stored m = stored m'"
  shows "m = m'"
proof (rule btree.entries_eqI)
  show "bt_get m = bt_get m'"
  proof
    fix k
    show "bt_get m k = bt_get m' k"
      using keyed_get [OF assms(1), of k] keyed_get [OF assms(2), of k] assms(3) by (metis not_None_eq)
  qed
qed (use assms(1,2) in \<open>simp_all add: keyed_inv\<close>)

lemma keyed_insert [keyed_intros]: "keyed f m \<Longrightarrow> f v = k \<Longrightarrow> keyed f (bt_insert k v m)"
  by (auto simp: keyed_iff bt_inv_insert bt_get_insert split: if_splits)

lemma keyed_remove [keyed_intros]: "keyed f m \<Longrightarrow> keyed f (bt_remove k m)"
  by (auto simp: keyed_iff bt_inv_remove bt_get_remove split: if_splits)

lemma keyed_retain [keyed_intros]: "keyed f m \<Longrightarrow> keyed f (bt_retain P m)"
  by (auto simp: keyed_iff bt_inv_retain bt_get_retain split: option.splits if_splits)

lemma keyed_update [keyed_intros]: "keyed f m \<Longrightarrow> (\<And>v. f (g v) = f v) \<Longrightarrow> keyed f (bt_update k g m)"
  by (auto simp: keyed_iff bt_inv_update bt_get_update split: if_splits)

lemma stored_insert: "keyed f m \<Longrightarrow> f v = k \<Longrightarrow> stored (bt_insert k v m) = insert v {w \<in> stored m. f w \<noteq> k}"
  using keyed_insert [of f m v k] by (auto simp: stored_iff keyed_iff bt_get_insert split: if_splits)

lemma stored_insert_new: "keyed f m \<Longrightarrow> f v = k \<Longrightarrow> k \<notin> f ` stored m \<Longrightarrow> stored (bt_insert k v m) = insert v (stored m)"
  by (auto simp: stored_insert image_iff)

lemma stored_remove: "keyed f m \<Longrightarrow> stored (bt_remove k m) = {v \<in> stored m. f v \<noteq> k}"
  using keyed_remove [of f m k] by (auto simp: stored_iff keyed_iff bt_get_remove split: if_splits)

lemma stored_retain: "bt_inv m \<Longrightarrow> stored (bt_retain (\<lambda>_. P) m) = {v \<in> stored m. P v}"
  by (auto simp: stored_def bt_values_def bt_retain_def)

lemma keyed_fold_remove: "keyed f m \<Longrightarrow> keyed f (fold (\<lambda>x. bt_remove (g x)) xs m)"
  by (induction xs arbitrary: m) (auto intro: keyed_intros)

lemma stored_fold_remove: "keyed f m \<Longrightarrow> stored (fold (\<lambda>x. bt_remove (g x)) xs m) = {v \<in> stored m. f v \<notin> g ` set xs}"
proof (induction xs arbitrary: m)
  case (Cons x xs)
  have "keyed f (bt_remove (g x) m)" using Cons.prems by (rule keyed_remove)
  from Cons.IH [OF this] show ?case using Cons.prems by (auto simp: stored_remove)
qed simp

lemma stored_fold_insert:
  "keyed f m \<Longrightarrow> distinct (map f xs) \<Longrightarrow> f ` set xs \<inter> f ` stored m = {} \<Longrightarrow>
   keyed f (fold (\<lambda>x. bt_insert (f x) x) xs m) \<and> stored (fold (\<lambda>x. bt_insert (f x) x) xs m) = stored m \<union> set xs"
proof (induction xs arbitrary: m)
  case (Cons x xs)
  let ?m = "bt_insert (f x) x m"
  have "keyed f ?m" "stored ?m = insert x (stored m)"
    using Cons.prems by (auto intro: keyed_insert simp: stored_insert_new [OF Cons.prems(1) refl])
  with Cons.IH [of ?m] Cons.prems(2,3) show ?case by auto
qed simp

lemma stored_finite [simp]: "finite (stored m)"
  by (simp add: stored_def)

text \<open>Every finite set of values with distinct keys is held by a map.\<close>

lemma keyed_ex:
  assumes "finite S" and "inj_on f S"
  shows "\<exists>m. keyed f m \<and> stored m = S"
proof -
  obtain xs where xs: "set xs = S" "distinct xs" using finite_distinct_list [OF assms(1)] by blast
  then have "distinct (map f xs)" using assms(2) by (simp add: distinct_map)
  with stored_fold_insert [of f "[]" xs] xs(1) show ?thesis by auto
qed

text \<open>A map collected from pairs whose keys are distinct is the pairs.\<close>

lemma bt_get_collect_inj:
  assumes "inj_on f (set xs)"
  shows "bt_get (bt_collect (map (\<lambda>x. (f x, g x)) xs)) k = Some y \<longleftrightarrow> (\<exists>x \<in> set xs. f x = k \<and> g x = y)"
  using assms unfolding bt_get_collect
  by (induction xs rule: rev_induct) (auto simp: inj_on_def split: if_splits)

lemma bt_contains_collect: "bt_contains (bt_collect (map (\<lambda>x. (f x, g x)) xs)) k \<longleftrightarrow> k \<in> f ` set xs"
  unfolding bt_contains_def bt_get_collect by (auto simp: map_of_eq_None_iff image_iff simp flip: rev_map)

end
