(* ===== verification/Index_State.thy ===== *)
theory Index_State
  imports Catalog_Renames Keyed_Map
begin

text \<open>
  \<open>coffret-usecase/src/in_memory_index\<close>, the Index the domain is specified by: the catalog a Library shares, the rows
  a device keeps of its own files, and every operation of the port on them. \<open>Mutex\<close> and \<open>async\<close> are left out: an
  operation takes the lock for all of its work. One that can fail works on a copy that replaces the state once it has
  succeeded (\<open>index_write\<close>). Where the code would panic the model has no value; \<open>Index_Catalog\<close> shows that it
  does not.
\<close>

record index_state =
  ix_checkpoint :: "index_checkpoint option"
  ix_adopted :: "control_object_name option"
  ix_containers :: "(container_id, container_summary) btree"
  ix_entries :: "(entry_path, entry_location) btree"
  ix_library_name :: "library_name option"
  ix_mappings :: "(entry_path option, mapping) btree"
  ix_local :: "(entry_path, local_entry) btree"
  ix_pending :: "(container_id, pending_row) btree"
  ix_slots :: "(batch_id, attempted_slot bset) btree"
  ix_parcels :: "(container_id \<times> nat, held_parcel) btree"
  ix_reservations :: "(reservation_id, reservation) btree"
  ix_next_reservation :: nat

definition index_default :: index_state where
  "index_default =
     \<lparr>ix_checkpoint = None, ix_adopted = None, ix_containers = [], ix_entries = [], ix_library_name = None,
      ix_mappings = [], ix_local = [], ix_pending = [], ix_slots = [], ix_parcels = [], ix_reservations = [],
      ix_next_reservation = 0\<rparr>"

section \<open>Reading the catalog\<close>

definition state_snapshot :: "index_state \<Rightarrow> index_error + snapshot_content" where
  "state_snapshot s =
     and_then (ok_or NoCheckpoint (ix_checkpoint s)) (\<lambda>checkpoint.
       map_err (UnreadableCatalog ''reading the Library-wide state'')
         (and_then (snapshot_new checkpoint (ix_adopted s) (bt_values (ix_containers s)) (bt_values (ix_entries s))) (\<lambda>c.
            Ok (snapshot_with_library_name (ix_library_name s) c))))"

definition under_prefix :: "entry_path \<Rightarrow> entry_path option \<Rightarrow> bool" where
  "under_prefix p prefix \<longleftrightarrow> (case prefix of None \<Rightarrow> True | Some f \<Rightarrow> path_is_under p f)"

definition entry_at :: "index_state \<Rightarrow> entry_path \<Rightarrow> entry_location option" where
  "entry_at s p = bt_get (ix_entries s) p"

definition entries_under :: "index_state \<Rightarrow> entry_path option \<Rightarrow> entry_location list" where
  "entries_under s prefix = filter (\<lambda>l. under_prefix (loc_path l) prefix) (bt_values (ix_entries s))"

definition entries_in :: "index_state \<Rightarrow> container_id \<Rightarrow> entry_location list" where
  "entries_in s c = sort_key loc_number (filter (\<lambda>l. loc_container l = c) (bt_values (ix_entries s)))"

definition containers_under :: "index_state \<Rightarrow> entry_path option \<Rightarrow> container_summary list" where
  "containers_under s prefix =
     (let held = map loc_container (filter (\<lambda>l. under_prefix (loc_path l) prefix) (bt_values (ix_entries s)))
      in List.map_filter (bt_get (ix_containers s)) (remdups_adj (sort held)))"

section \<open>Changing the catalog's maps\<close>

definition insert_container ::
  "container_summary \<Rightarrow> (container_id, container_summary) btree \<Rightarrow> index_error + (container_id, container_summary) btree" where
  "insert_container c containers =
     (if bt_contains containers (cid c) then Err (DuplicateContainer (cid c)) else Ok (bt_insert (cid c) c containers))"

definition insert_entry ::
  "(container_id, container_summary) btree \<Rightarrow> (entry_path, entry_location) btree \<Rightarrow> entry_location \<Rightarrow>
   index_error + (entry_path, entry_location) btree" where
  "insert_entry containers entries l =
     (if \<not> bt_contains containers (loc_container l) then Err (UnknownContainer (loc_container l))
      else if bt_contains entries (loc_path l) then Err (DuplicatePath (loc_path l))
      else Ok (bt_insert (loc_path l) l entries))"

section \<open>Keeping the rows in line\<close>

definition standing :: "(entry_path, entry_location) btree \<Rightarrow> (entry_ref, entry_path) btree" where
  "standing entries = bt_collect (map (\<lambda>l. (entry_ref_of l, loc_path l)) (bt_values entries))"

text \<open>The body of the loop of \<open>reconcile\<close>.\<close>

definition reconcile_step ::
  "(entry_ref, entry_path) btree \<Rightarrow> (entry_path, entry_location) btree \<Rightarrow> entry_path \<Rightarrow>
   (entry_path, local_entry) btree \<Rightarrow> (entry_path, local_entry) btree" where
  "reconcile_step st entries p rows =
     (case bt_get rows p of
        None \<Rightarrow> rows
      | Some local \<Rightarrow>
          (case bt_get st (ob_entry (le_observation local)) of
             Some at \<Rightarrow> bt_update p (\<lambda>l. l\<lparr>le_relocate_to := (if at \<noteq> p then Some at else None)\<rparr>) rows
           | None \<Rightarrow>
               if bt_contains entries p then bt_remove p rows
               else bt_update p (\<lambda>l. l\<lparr>le_relocate_to := None\<rparr>) rows))"

definition reconcile :: "entry_path list \<Rightarrow> index_state \<Rightarrow> index_state" where
  "reconcile paths s = s\<lparr>ix_local := fold (reconcile_step (standing (ix_entries s)) (ix_entries s)) paths (ix_local s)\<rparr>"

definition reconcile_all :: "index_state \<Rightarrow> index_state" where
  "reconcile_all s = reconcile (bt_keys (ix_local s)) s"

definition standing_of :: "index_state \<Rightarrow> (entry_ref \<Rightarrow> bool) \<Rightarrow> (entry_path \<times> entry_path) list" where
  "standing_of s held =
     (let st = standing (ix_entries s)
      in List.map_filter (\<lambda>(p, local). map_option (\<lambda>at. (p, at)) (bt_get st (ob_entry (le_observation local))))
           (filter (\<lambda>(p, local). held (ob_entry (le_observation local))) (ix_local s)))"

definition carry_step ::
  "(entry_path, entry_location) btree \<Rightarrow> (entry_location \<Rightarrow> bool) \<Rightarrow> entry_path \<times> entry_path \<Rightarrow>
   (entry_path, local_entry) btree \<Rightarrow> (entry_path, local_entry) btree" where
  "carry_step entries replaces = (\<lambda>(p, stood_at) rows.
     case bt_get entries stood_at of
       Some successor \<Rightarrow>
         if replaces successor
         then bt_update p (\<lambda>l. l\<lparr>le_observation := (le_observation l)\<lparr>ob_entry := entry_ref_of successor\<rparr>\<rparr>) rows
         else rows
     | None \<Rightarrow> rows)"

definition carry_over :: "(entry_path \<times> entry_path) list \<Rightarrow> (entry_location \<Rightarrow> bool) \<Rightarrow> index_state \<Rightarrow> index_state" where
  "carry_over stood replaces s = s\<lparr>ix_local := fold (carry_step (ix_entries s) replaces) stood (ix_local s)\<rparr>"

section \<open>Applying a record\<close>

definition named_in :: "index_state \<Rightarrow> container_id \<Rightarrow> entry_number \<Rightarrow> named" where
  "named_in s c n =
     (let by_number = bt_collect (map (\<lambda>l. ((loc_container l, loc_number l), l)) (bt_values (ix_entries s)))
      in case bt_get by_number (c, n) of
           Some l \<Rightarrow> NamedEntry l
         | None \<Rightarrow> if bt_contains (ix_containers s) c then NoEntry else NoContainer)"

definition state_check_renames :: "index_state \<Rightarrow> journal_record \<Rightarrow> index_error + renamed_entry list" where
  "state_check_renames s r =
     (if jr_renames r = [] then Ok []
      else check_renames r (\<lambda>c n. Ok (named_in s c n))
             (\<lambda>p. Ok (map_option (\<lambda>l. (loc_container l, loc_number l)) (bt_get (ix_entries s) p))))"

fun apply_removals :: "container_id list \<Rightarrow> index_state \<Rightarrow> index_state" where
  "apply_removals [] s = s"
| "apply_removals (c # cs) s =
     apply_removals cs (s\<lparr>ix_containers := bt_remove c (ix_containers s),
                         ix_entries := bt_retain (\<lambda>_ l. loc_container l \<noteq> c) (ix_entries s)\<rparr>)"

definition apply_renames :: "renamed_entry list \<Rightarrow> index_state \<Rightarrow> index_error + index_state" where
  "apply_renames renamed s =
     (let vacated = fold (\<lambda>one. bt_remove (renamed_from one)) renamed (ix_entries s)
      in and_then (try_fold (\<lambda>entries one. insert_entry (ix_containers s) entries (renamed_after one)) vacated renamed)
           (\<lambda>entries. Ok (s\<lparr>ix_entries := entries\<rparr>)))"

text \<open>The loop over the additions; \<open>into_locations\<close> has no value where the code would panic.\<close>

fun apply_additions :: "container_addition list \<Rightarrow> index_state \<Rightarrow> (index_error + index_state) option" where
  "apply_additions [] s = Some (Ok s)"
| "apply_additions (a # as) s =
     (case into_locations a of
        None \<Rightarrow> None
      | Some (container, located) \<Rightarrow>
          (case and_then (insert_container container (ix_containers s)) (\<lambda>containers.
                  and_then (try_fold (insert_entry containers) (ix_entries s) located) (\<lambda>entries.
                    Ok (s\<lparr>ix_containers := containers, ix_entries := entries\<rparr>))) of
             Inl e \<Rightarrow> Some (Err e)
           | Inr s \<Rightarrow> apply_additions as s))"

text \<open>The refusal of a record the catalog holds already.\<close>

definition already_applied :: "journal_record \<Rightarrow> index_state \<Rightarrow> index_error option" where
  "already_applied r s =
     (case ix_checkpoint s of
        Some at \<Rightarrow> if jr_generation r \<le> cp_head at then Some (AlreadyApplied (jr_generation r) (cp_head at)) else None
      | None \<Rightarrow> None)"

definition state_apply :: "journal_record \<Rightarrow> index_state \<Rightarrow> (index_error + index_state) option" where
  "state_apply r s =
     (case already_applied r s of
        Some e \<Rightarrow> Some (Err e)
      | None \<Rightarrow>
          (let added = bs_collect (map addition_id (jr_additions r));
               s = (case jr_library_name r of Some n \<Rightarrow> s\<lparr>ix_library_name := Some n\<rparr> | None \<Rightarrow> s);
               stood = standing_of s (\<lambda>e. fst e \<in> set (jr_removals r));
               s = apply_removals (jr_removals r) s
           in case and_then (state_check_renames s r) (\<lambda>renamed. apply_renames renamed s) of
                Inl e \<Rightarrow> Some (Err e)
              | Inr s \<Rightarrow>
                  map_option (\<lambda>res. and_then res (\<lambda>s.
                    let s = carry_over stood (\<lambda>l. bt_contains added (loc_container l)) s;
                        s = reconcile_all s
                    in Ok (s\<lparr>ix_checkpoint := Some (record_checkpoint r)\<rparr>)))
                  (apply_additions (jr_additions r) s)))"

section \<open>Restoring a Snapshot\<close>

definition state_restore :: "snapshot_content \<Rightarrow> index_state \<Rightarrow> index_error + index_state" where
  "state_restore c s =
     and_then (try_fold (\<lambda>containers held. insert_container held containers) [] (sn_containers c)) (\<lambda>containers.
     and_then (try_fold (insert_entry containers) [] (sn_entries c)) (\<lambda>entries.
       let stood = standing_of s (\<lambda>_. True);
           replaced = bs_collect (bt_keys (ix_containers s));
           s = s\<lparr>ix_containers := containers, ix_entries := entries, ix_checkpoint := Some (sn_checkpoint c),
                 ix_adopted := sn_adopted c, ix_library_name := sn_library_name c\<rparr>;
           held = bs_collect (map entry_ref_of (bt_values (ix_entries s)));
           gone = filter (\<lambda>(p, _). case bt_get (ix_local s) p of
                      Some local \<Rightarrow> \<not> bt_contains held (ob_entry (le_observation local)) | None \<Rightarrow> False) stood;
           s = carry_over gone (\<lambda>l. \<not> bt_contains replaced (loc_container l)) s
       in Ok (reconcile_all s)))"

section \<open>What the device keeps of its own\<close>

definition set_mapping :: "mapping \<Rightarrow> index_state \<Rightarrow> index_state" where
  "set_mapping m s = s\<lparr>ix_mappings := bt_insert (mp_prefix m) m (ix_mappings s)\<rparr>"

definition mark_present :: "local_observation \<Rightarrow> index_state \<Rightarrow> index_state" where
  "mark_present ob s =
     reconcile [ob_path ob]
       (s\<lparr>ix_local := bt_insert (ob_path ob) \<lparr>le_observation = ob, le_state = Present, le_relocate_to = None\<rparr> (ix_local s)\<rparr>)"

definition awaiting_relocation :: "index_state \<Rightarrow> local_entry list" where
  "awaiting_relocation s = filter awaits_relocation (bt_values (ix_local s))"

text \<open>Every row is taken out before any is put back.\<close>

fun take_rows ::
  "(entry_path \<times> entry_path) list \<Rightarrow> (entry_path, local_entry) btree \<Rightarrow>
   (local_entry \<times> entry_path) list \<times> (entry_path, local_entry) btree" where
  "take_rows [] rows = ([], rows)"
| "take_rows ((old_path, to_path) # moves) rows =
     (case bt_get rows old_path of
        None \<Rightarrow> take_rows moves rows
      | Some local \<Rightarrow> (let (taken, rows) = take_rows moves (bt_remove old_path rows) in ((local, to_path) # taken, rows)))"

definition place_row :: "local_entry \<times> entry_path \<Rightarrow> (entry_path, local_entry) btree \<Rightarrow> (entry_path, local_entry) btree" where
  "place_row = (\<lambda>(local, to_path) rows.
     bt_insert to_path (local\<lparr>le_observation := (le_observation local)\<lparr>ob_path := to_path\<rparr>\<rparr>) rows)"

definition relocate_local_entries :: "(entry_path \<times> entry_path) list \<Rightarrow> index_state \<Rightarrow> index_state" where
  "relocate_local_entries relocated s =
     (let (taken, rows) = take_rows relocated (ix_local s)
      in reconcile (map snd taken) (s\<lparr>ix_local := fold place_row taken rows\<rparr>))"

definition mark_absent :: "entry_path \<Rightarrow> device_time \<Rightarrow> index_state \<Rightarrow> index_state" where
  "mark_absent p at s =
     s\<lparr>ix_local := bt_update p (\<lambda>l. l\<lparr>le_state := Absent, le_observation := (le_observation l)\<lparr>ob_at := at\<rparr>\<rparr>) (ix_local s)\<rparr>"

definition forget_local_entry :: "entry_path \<Rightarrow> index_state \<Rightarrow> index_state" where
  "forget_local_entry p s = s\<lparr>ix_local := bt_remove p (ix_local s)\<rparr>"

definition local_entry_at :: "index_state \<Rightarrow> entry_path \<Rightarrow> local_entry option" where
  "local_entry_at s p = bt_get (ix_local s) p"

definition present_rows :: "index_state \<Rightarrow> local_entry list" where
  "present_rows s = filter (\<lambda>l. le_state l = Present \<and> \<not> awaits_relocation l) (bt_values (ix_local s))"

definition present_under :: "index_state \<Rightarrow> entry_path option \<Rightarrow> local_entry list" where
  "present_under s prefix = filter (\<lambda>l. under_prefix (ob_path (le_observation l)) prefix) (present_rows s)"

definition entries_absent_under :: "index_state \<Rightarrow> entry_path option \<Rightarrow> entry_location list" where
  "entries_absent_under s prefix =
     (let present = bs_collect (map (\<lambda>l. ob_path (le_observation l)) (present_rows s))
      in filter (\<lambda>l. under_prefix (loc_path l) prefix \<and> \<not> bt_contains present (loc_path l)) (bt_values (ix_entries s)))"

definition present_without_entry :: "index_state \<Rightarrow> local_entry list" where
  "present_without_entry s = filter (\<lambda>l. \<not> bt_contains (ix_entries s) (ob_path (le_observation l))) (present_rows s)"

section \<open>Pending rows, parcels and reservations\<close>

definition record_pending_row :: "pending_row \<Rightarrow> index_state \<Rightarrow> index_state" where
  "record_pending_row p s = s\<lparr>ix_pending := bt_insert (pr_container p) p (ix_pending s)\<rparr>"

definition mark_spooled :: "container_id \<Rightarrow> index_state \<Rightarrow> index_state" where
  "mark_spooled c s =
     s\<lparr>ix_pending := bt_update c (\<lambda>p. if pr_state p = Spooling then p\<lparr>pr_state := Spooled None\<rparr> else p) (ix_pending s)\<rparr>"

definition attempt_step :: "attempted_slot \<Rightarrow> container_id \<Rightarrow> index_state \<Rightarrow> index_state" where
  "attempt_step slot c s =
     (case bt_get (ix_pending s) c of
        None \<Rightarrow> s
      | Some pending \<Rightarrow>
          let slots = (case bt_get (ix_slots s) (pr_batch pending) of Some found \<Rightarrow> found | None \<Rightarrow> [])
          in s\<lparr>ix_pending := bt_update c (\<lambda>p. p\<lparr>pr_commit_attempted := True\<rparr>) (ix_pending s),
               ix_slots := bt_insert (pr_batch pending) (bs_insert slot slots) (ix_slots s)\<rparr>)"

definition mark_commit_attempted :: "container_id list \<Rightarrow> attempted_slot \<Rightarrow> index_state \<Rightarrow> index_state" where
  "mark_commit_attempted container_ids slot s = fold (attempt_step slot) container_ids s"

definition attempted_slots :: "index_state \<Rightarrow> batch_id \<Rightarrow> attempted_slot list" where
  "attempted_slots s b = (case bt_get (ix_slots s) b of Some slots \<Rightarrow> bt_keys slots | None \<Rightarrow> [])"

definition clear_pending_row :: "container_id \<Rightarrow> index_state \<Rightarrow> index_state" where
  "clear_pending_row c s =
     (case bt_get (ix_pending s) c of
        None \<Rightarrow> s
      | Some removed \<Rightarrow>
          let pending = bt_remove c (ix_pending s)
          in if list_ex (\<lambda>p. pr_batch p = pr_batch removed) (bt_values pending) then s\<lparr>ix_pending := pending\<rparr>
             else s\<lparr>ix_pending := pending, ix_slots := bt_remove (pr_batch removed) (ix_slots s)\<rparr>)"

definition pending_rows :: "index_state \<Rightarrow> pending_row list" where
  "pending_rows s = bt_values (ix_pending s)"

definition hold_parcel :: "held_parcel \<Rightarrow> index_state \<Rightarrow> index_state" where
  "hold_parcel p s = s\<lparr>ix_parcels := bt_insert (hp_container p, hp_index p) p (ix_parcels s)\<rparr>"

definition held_parcels :: "index_state \<Rightarrow> held_parcel list" where
  "held_parcels s = bt_values (ix_parcels s)"

definition let_go_parcel :: "container_id \<Rightarrow> nat \<Rightarrow> index_state \<Rightarrow> index_state" where
  "let_go_parcel c i s = s\<lparr>ix_parcels := bt_remove (c, i) (ix_parcels s)\<rparr>"

definition reserve :: "entry_path option \<Rightarrow> index_state \<Rightarrow> index_state \<times> reservation_id" where
  "reserve folder s =
     (let n = wadd64 (ix_next_reservation s) 1; i = ReservationId n
      in (s\<lparr>ix_next_reservation := n,
            ix_reservations := bt_insert i \<lparr>rv_id = i, rv_folder = folder, rv_paths = [], rv_received = False\<rparr>
              (ix_reservations s)\<rparr>, i))"

definition extend_reservation :: "reservation_id \<Rightarrow> entry_path \<Rightarrow> index_state \<Rightarrow> index_state" where
  "extend_reservation i p s =
     s\<lparr>ix_reservations := bt_update i (\<lambda>r. r\<lparr>rv_paths := bs_insert p (rv_paths r)\<rparr>) (ix_reservations s)\<rparr>"

definition mark_received :: "reservation_id \<Rightarrow> index_state \<Rightarrow> index_state" where
  "mark_received i s = s\<lparr>ix_reservations := bt_update i (\<lambda>r. r\<lparr>rv_received := True\<rparr>) (ix_reservations s)\<rparr>"

definition reservations :: "index_state \<Rightarrow> reservation list" where
  "reservations s = bt_values (ix_reservations s)"

definition release_reservation :: "reservation_id \<Rightarrow> index_state \<Rightarrow> index_state" where
  "release_reservation i s = s\<lparr>ix_reservations := bt_remove i (ix_reservations s)\<rparr>"

section \<open>A committed batch\<close>

record committed_batch =
  cb_record :: journal_record
  cb_materialized :: "local_observation list"
  cb_released :: "reservation_id list"

definition uploaded :: "journal_record \<Rightarrow> container_id list" where
  "uploaded r = map (\<lambda>a. cid (add_container a)) (jr_additions r)"

definition complete_batch :: "container_id list \<Rightarrow> local_observation list \<Rightarrow> reservation_id list \<Rightarrow> index_state \<Rightarrow> index_state" where
  "complete_batch containers materialized released s =
     fold release_reservation released (fold clear_pending_row containers (fold mark_present materialized s))"

definition state_refresh :: "committed_batch \<Rightarrow> index_state \<Rightarrow> (index_error + index_state) option" where
  "state_refresh b s =
     map_option (\<lambda>res. and_then res (\<lambda>s. Ok (complete_batch (uploaded (cb_record b)) (cb_materialized b) (cb_released b) s)))
       (state_apply (cb_record b) s)"

definition complete_applied :: "committed_batch \<Rightarrow> index_state \<Rightarrow> index_state" where
  "complete_applied b s = complete_batch (uploaded (cb_record b)) (cb_materialized b) (cb_released b) s"

section \<open>The port\<close>

text \<open>\<open>InMemoryIndex::write\<close>: the state after an operation that can fail, and its outcome.\<close>

definition index_write :: "index_error + index_state \<Rightarrow> index_state \<Rightarrow> index_state \<times> (index_error + unit)" where
  "index_write outcome s = (case outcome of Inl e \<Rightarrow> (s, Err e) | Inr draft \<Rightarrow> (draft, Ok ()))"

definition index_restore :: "snapshot_content \<Rightarrow> index_state \<Rightarrow> index_state \<times> (index_error + unit)" where
  "index_restore c s = index_write (state_restore c s) s"

definition index_apply :: "journal_record \<Rightarrow> index_state \<Rightarrow> (index_state \<times> (index_error + unit)) option" where
  "index_apply r s = map_option (\<lambda>res. index_write res s) (state_apply r s)"

definition index_refresh :: "committed_batch \<Rightarrow> index_state \<Rightarrow> (index_state \<times> (index_error + unit)) option" where
  "index_refresh b s = map_option (\<lambda>res. index_write res s) (state_refresh b s)"

definition index_complete_applied :: "committed_batch \<Rightarrow> index_state \<Rightarrow> index_state \<times> (index_error + unit)" where
  "index_complete_applied b s = index_write (Ok (complete_applied b s)) s"

end
