(* ===== verification/Index_Catalog.thy ===== *)
theory Index_Catalog
  imports Index_State
begin

text \<open>
  The catalog of the in-memory Index as the two sets it stands for: the current Containers and the current Entries.
  \<open>catalog_wf\<close> is its invariant. Applying a record is shown to be \<open>entries_after\<close> and \<open>containers_after\<close> on those
  sets, and to be accepted exactly when \<open>applicable\<close> says so; restoring a Snapshot and reading one origin are inverse.
\<close>

section \<open>The invariant\<close>

definition entries_wf :: "(container_id, container_summary) btree \<Rightarrow> (entry_path, entry_location) btree \<Rightarrow> bool" where
  "entries_wf cs es \<longleftrightarrow>
     keyed loc_path es \<and> loc_container ` stored es \<subseteq> cid ` stored cs \<and> inj_on loc_key (stored es)"

definition catalog_wf :: "index_state \<Rightarrow> bool" where
  "catalog_wf s \<longleftrightarrow> keyed cid (ix_containers s) \<and> entries_wf (ix_containers s) (ix_entries s)"

lemma catalog_wf_default: "catalog_wf index_default"
  by (simp add: catalog_wf_def entries_wf_def index_default_def)

lemma catalog_wf_cong:
  "ix_containers s = ix_containers t \<Longrightarrow> ix_entries s = ix_entries t \<Longrightarrow> catalog_wf s \<longleftrightarrow> catalog_wf t"
  by (simp add: catalog_wf_def)

lemma catalog_wfD:
  assumes "catalog_wf s"
  shows "keyed cid (ix_containers s)" and "keyed loc_path (ix_entries s)" and "inj_on loc_key (stored (ix_entries s))"
    and "l \<in> stored (ix_entries s) \<Longrightarrow> loc_container l \<in> cid ` stored (ix_containers s)"
  using assms by (auto simp: catalog_wf_def entries_wf_def)

section \<open>The lookups\<close>

lemma standing_get:
  "inj_on loc_key (stored es) \<Longrightarrow> bt_get (standing es) k = Some p \<longleftrightarrow> (\<exists>l \<in> stored es. loc_key l = k \<and> loc_path l = p)"
  by (simp add: standing_def stored_def bt_get_collect_inj)

lemma standing_None: "bt_get (standing es) k = None \<longleftrightarrow> k \<notin> loc_key ` stored es"
  using bt_contains_collect [of loc_key loc_path "bt_values es" k]
  unfolding standing_def stored_def bt_contains_def entry_ref_keys by blast

lemma named_in_iff:
  assumes "inj_on loc_key (stored (ix_entries s))"
  shows "named_in s c n = NamedEntry l \<longleftrightarrow> l \<in> stored (ix_entries s) \<and> loc_key l = (c, n)"
proof -
  have "bt_get (bt_collect (map (\<lambda>l. ((loc_container l, loc_number l), l)) (bt_values (ix_entries s)))) (c, n) = Some l
      \<longleftrightarrow> l \<in> stored (ix_entries s) \<and> loc_key l = (c, n)" for l
    using bt_get_collect_inj [of loc_key "bt_values (ix_entries s)" "\<lambda>l. l" "(c, n)" l] assms
    by (simp add: stored_def loc_key_def)
  then show ?thesis unfolding named_in_def Let_def
    by (cases "bt_get (bt_collect (map (\<lambda>l. ((loc_container l, loc_number l), l)) (bt_values (ix_entries s)))) (c, n)") auto
qed

section \<open>Inserting\<close>

lemma insert_container_Ok_iff:
  "keyed cid cs \<Longrightarrow> insert_container c cs = Inr cs' \<longleftrightarrow> cid c \<notin> cid ` stored cs \<and> cs' = bt_insert (cid c) c cs"
  by (auto simp: insert_container_def keyed_contains)

lemma insert_entry_Ok_iff:
  "keyed cid cs \<Longrightarrow> keyed loc_path es \<Longrightarrow> insert_entry cs es l = Inr es' \<longleftrightarrow>
     loc_container l \<in> cid ` stored cs \<and> loc_path l \<notin> loc_path ` stored es \<and> es' = bt_insert (loc_path l) l es"
  by (auto simp: insert_entry_def keyed_contains)

lemma insert_entries_Ok_iff:
  assumes "keyed cid cs"
  shows "keyed loc_path es \<Longrightarrow> try_fold (insert_entry cs) es ls = Inr es' \<longleftrightarrow>
     loc_container ` set ls \<subseteq> cid ` stored cs \<and> distinct (map loc_path ls) \<and>
     loc_path ` set ls \<inter> loc_path ` stored es = {} \<and> keyed loc_path es' \<and> stored es' = stored es \<union> set ls"
proof (induction ls arbitrary: es)
  case Nil
  then show ?case using keyed_eqI [of loc_path es es'] by auto
next
  case (Cons l ls)
  let ?es = "bt_insert (loc_path l) l es"
  show ?case
  proof (cases "loc_path l \<in> loc_path ` stored es")
    case False
    then have st: "stored ?es = insert l (stored es)" using stored_insert_new [OF Cons.prems refl] by blast
    have k: "keyed loc_path ?es" using Cons.prems by (simp add: keyed_insert)
    have "try_fold (insert_entry cs) es (l # ls) = Inr es' \<longleftrightarrow>
        loc_container l \<in> cid ` stored cs \<and> try_fold (insert_entry cs) ?es ls = Inr es'"
      using False by (auto simp: and_then_Inr_iff insert_entry_Ok_iff [OF assms Cons.prems])
    then show ?thesis unfolding Cons.IH [OF k] st using False by auto
  next
    case True
    then have "\<nexists>e. insert_entry cs es l = Inr e" by (simp add: insert_entry_Ok_iff [OF assms Cons.prems])
    with True show ?thesis by (auto simp: and_then_Inr_iff)
  qed
qed

lemma insert_containers_Ok_iff:
  "keyed cid cs \<Longrightarrow> try_fold (\<lambda>containers c. insert_container c containers) cs xs = Inr cs' \<longleftrightarrow>
     distinct (map cid xs) \<and> cid ` set xs \<inter> cid ` stored cs = {} \<and> keyed cid cs' \<and> stored cs' = stored cs \<union> set xs"
proof (induction xs arbitrary: cs)
  case Nil
  then show ?case using keyed_eqI [of cid cs cs'] by auto
next
  case (Cons x xs)
  let ?cs = "bt_insert (cid x) x cs"
  show ?case
  proof (cases "cid x \<in> cid ` stored cs")
    case False
    then have st: "stored ?cs = insert x (stored cs)" using stored_insert_new [OF Cons.prems refl] by blast
    have k: "keyed cid ?cs" using Cons.prems by (simp add: keyed_insert)
    have "try_fold (\<lambda>containers c. insert_container c containers) cs (x # xs) = Inr cs' \<longleftrightarrow>
        try_fold (\<lambda>containers c. insert_container c containers) ?cs xs = Inr cs'"
      using False by (auto simp: and_then_Inr_iff insert_container_Ok_iff [OF Cons.prems])
    then show ?thesis unfolding Cons.IH [OF k] st using False by auto
  next
    case True
    then have "\<nexists>e. insert_container x cs = Inr e" by (simp add: insert_container_Ok_iff [OF Cons.prems])
    with True show ?thesis by (auto simp: and_then_Inr_iff)
  qed
qed

section \<open>Removals\<close>

lemma apply_removals_fields:
  "ix_local (apply_removals cs s) = ix_local s" "ix_checkpoint (apply_removals cs s) = ix_checkpoint s"
  "ix_library_name (apply_removals cs s) = ix_library_name s" "ix_adopted (apply_removals cs s) = ix_adopted s"
  by (induction cs s rule: apply_removals.induct) simp_all

lemma apply_removals_rest:
  "apply_removals cs s =
     s\<lparr>ix_containers := ix_containers (apply_removals cs s), ix_entries := ix_entries (apply_removals cs s)\<rparr>"
proof (induction cs s rule: apply_removals.induct)
  case (2 c cs s)
  show ?case unfolding apply_removals.simps by (subst 2) simp
qed simp

lemma apply_removals_stored:
  assumes "catalog_wf s"
  shows "catalog_wf (apply_removals cs s) \<and>
    stored (ix_containers (apply_removals cs s)) = {c \<in> stored (ix_containers s). cid c \<notin> set cs} \<and>
    stored (ix_entries (apply_removals cs s)) = {l \<in> stored (ix_entries s). loc_container l \<notin> set cs}"
  using assms
proof (induction cs s rule: apply_removals.induct)
  case (2 c cs s)
  let ?s = "s\<lparr>ix_containers := bt_remove c (ix_containers s),
              ix_entries := bt_retain (\<lambda>_ l. loc_container l \<noteq> c) (ix_entries s)\<rparr>"
  note wf = catalog_wfD [OF 2(2)]
  have st: "stored (ix_containers ?s) = {x \<in> stored (ix_containers s). cid x \<noteq> c}"
    "stored (ix_entries ?s) = {l \<in> stored (ix_entries s). loc_container l \<noteq> c}"
    using wf(1,2) by (simp_all add: stored_remove stored_retain keyed_inv)
  have "catalog_wf ?s"
    unfolding catalog_wf_def entries_wf_def st using wf
    by (auto intro: keyed_intros inj_on_subset [OF wf(3)])
  from 2(1) [OF this] show ?case unfolding st by auto
qed simp

section \<open>Renames\<close>

text \<open>An Entry with the renames of a record carried out on it.\<close>

definition moved_by :: "entry_rename list \<Rightarrow> entry_location \<Rightarrow> entry_location" where
  "moved_by rs l =
     (case find (\<lambda>r. order_key r = loc_key l) rs of
        Some r \<Rightarrow> l\<lparr>loc_entry := (loc_entry l)\<lparr>path := ren_path r\<rparr>\<rparr>
      | None \<Rightarrow> l)"

text \<open>A rename that names a current Entry which may move and does.\<close>

definition move_of :: "entry_location set \<Rightarrow> entry_rename \<Rightarrow> renamed_entry \<Rightarrow> bool" where
  "move_of E r x \<longleftrightarrow> rn_before x \<in> E \<and> loc_key (rn_before x) = order_key r \<and> rn_path x = ren_path r \<and>
     loc_path (rn_before x) \<noteq> ren_path r \<and> derivation (loc_entry (rn_before x)) = None \<and>
     \<not> path_is_derived (loc_path (rn_before x))"

definition may_move :: "entry_location set \<Rightarrow> entry_rename \<Rightarrow> bool" where
  "may_move E r \<longleftrightarrow> (\<exists>l \<in> E. loc_key l = order_key r \<and> loc_path l \<noteq> ren_path r \<and> derivation (loc_entry l) = None \<and>
     \<not> path_is_derived (loc_path l))"

lemma may_move_iff: "may_move E r \<longleftrightarrow> (\<exists>x. move_of E r x)"
proof
  assume "may_move E r"
  then obtain l where "l \<in> E \<and> loc_key l = order_key r \<and> loc_path l \<noteq> ren_path r \<and> derivation (loc_entry l) = None \<and>
     \<not> path_is_derived (loc_path l)" by (auto simp: may_move_def)
  then have "move_of E r \<lparr>rn_before = l, rn_path = ren_path r\<rparr>" by (simp add: move_of_def)
  then show "\<exists>x. move_of E r x" ..
qed (auto simp: may_move_def move_of_def)

lemma moved_by_key [simp]: "loc_key (moved_by rs l) = loc_key l" "loc_container (moved_by rs l) = loc_container l"
  by (simp_all add: moved_by_def loc_key_def split: option.splits)

lemma moved_by_none: "loc_key l \<notin> order_key ` set rs \<Longrightarrow> moved_by rs l = l"
proof -
  assume "loc_key l \<notin> order_key ` set rs"
  then have "find (\<lambda>r. order_key r = loc_key l) rs = None" unfolding find_None_iff by (metis imageI)
  then show "moved_by rs l = l" by (simp add: moved_by_def)
qed

lemma moved_by_some:
  assumes "distinct (map order_key rs)" and "r \<in> set rs" and "order_key r = loc_key l"
  shows "moved_by rs l = l\<lparr>loc_entry := (loc_entry l)\<lparr>path := ren_path r\<rparr>\<rparr>"
proof -
  have "find (\<lambda>r. order_key r = loc_key l) rs = Some r"
    using assms by (induction rs) (auto simp: image_iff)
  then show ?thesis by (simp add: moved_by_def)
qed

lemma moved_by_path:
  assumes "distinct (map order_key rs)" and "r \<in> set rs" and "order_key r = loc_key l"
  shows "loc_path (moved_by rs l) = ren_path r"
  by (simp add: moved_by_some [OF assms] loc_path_def)

lemma moved_by_Nil [simp]: "moved_by [] = (\<lambda>l. l)"
  by (simp add: moved_by_def fun_eq_iff)

lemma renamed_after_eq: "distinct (map order_key rs) \<Longrightarrow> r \<in> set rs \<Longrightarrow> move_of E r x \<Longrightarrow> renamed_after x = moved_by rs (rn_before x)"
  by (simp add: moved_by_some move_of_def renamed_after_def)

text \<open>What the check of a catalog's renames comes to, on the set of its Entries.\<close>

lemma state_check_renames_Ok_iff:
  assumes wf: "catalog_wf s" and srt: "sorted_wrt (<) (jr_removals r)"
    and gone: "\<forall>l \<in> stored (ix_entries s). loc_container l \<notin> set (jr_removals r)"
  shows "state_check_renames s r = Inr renamed \<longleftrightarrow>
    list_all2 (move_of (stored (ix_entries s))) (jr_renames r) renamed \<and> distinct (map ren_path (jr_renames r)) \<and>
    (\<forall>l \<in> stored (ix_entries s). loc_path l \<in> ren_path ` set (jr_renames r) \<longrightarrow> loc_key l \<in> order_key ` set (jr_renames r)) \<and>
    (\<forall>a \<in> set (jr_additions r). \<forall>e \<in> set (add_entries a). path e \<notin> ren_path ` set (jr_renames r))"
proof -
  note d = catalog_wfD [OF wf]
  define st where "st p = map_option (\<lambda>l. (loc_container l, loc_number l)) (bt_get (ix_entries s) p)" for p
  have st: "st p = Some k \<longleftrightarrow> (\<exists>l \<in> stored (ix_entries s). loc_path l = p \<and> loc_key l = k)" for p k
    by (auto simp: st_def keyed_get [OF d(2)] loc_key_def)
  have "state_check_renames s r = Inr renamed \<longleftrightarrow>
      check_rename_set (jr_renames r) (jr_removals r) (jr_additions r) (\<lambda>c n. Inr (named_in s c n)) (\<lambda>p. Inr (st p))
      = Inr renamed"
    by (auto simp: state_check_renames_def check_renames_def st_def check_rename_set_def)
  moreover have "movable (jr_removals r) (named_in s) = move_of (stored (ix_entries s))"
    using gone by (auto simp: fun_eq_iff movable_def move_of_def named_in_iff [OF d(3)] order_key_def loc_key_def)
  moreover have "(\<forall>x \<in> set (jr_renames r). \<forall>k. st (ren_path x) = Some k \<longrightarrow> k \<in> order_key ` set (jr_renames r)) \<longleftrightarrow>
      (\<forall>l \<in> stored (ix_entries s). loc_path l \<in> ren_path ` set (jr_renames r) \<longrightarrow> loc_key l \<in> order_key ` set (jr_renames r))"
    unfolding st by blast
  ultimately show ?thesis unfolding check_rename_set_Ok_iff [OF srt] by simp
qed

lemma try_fold_map: "try_fold f s (map g xs) = try_fold (\<lambda>s x. f s (g x)) s xs"
  by (induction xs arbitrary: s) (auto intro: and_then_cong)

lemma apply_renames_checked:
  assumes wf: "catalog_wf s" and keys: "distinct (map order_key rs)"
    and moves: "list_all2 (move_of (stored (ix_entries s))) rs renamed" and paths: "distinct (map ren_path rs)"
    and clear: "\<forall>l \<in> stored (ix_entries s). loc_path l \<in> ren_path ` set rs \<longrightarrow> loc_key l \<in> order_key ` set rs"
  shows "\<exists>es. apply_renames renamed s = Inr (s\<lparr>ix_entries := es\<rparr>) \<and> keyed loc_path es \<and>
    stored es = moved_by rs ` stored (ix_entries s)"
proof -
  let ?E = "stored (ix_entries s)" and ?cs = "ix_containers s"
  note d = catalog_wfD [OF wf]
  define vac where "vac = fold (\<lambda>one. bt_remove (renamed_from one)) renamed (ix_entries s)"
  define afters where "afters = map renamed_after renamed"
  have pair: "\<exists>x \<in> set renamed. move_of ?E r x \<and> renamed_after x = moved_by rs (rn_before x)" if "r \<in> set rs" for r
    using moves that renamed_after_eq [OF keys that] by (metis in_set_conv_nth list_all2_conv_all_nth)
  have origin: "\<exists>r \<in> set rs. move_of ?E r x \<and> renamed_after x = moved_by rs (rn_before x)" if "x \<in> set renamed" for x
    using moves that renamed_after_eq [OF keys] by (metis in_set_conv_nth list_all2_conv_all_nth)
  have from_iff: "loc_path l \<in> renamed_from ` set renamed \<longleftrightarrow> loc_key l \<in> order_key ` set rs" if "l \<in> ?E" for l
  proof
    assume "loc_path l \<in> renamed_from ` set renamed"
    then obtain x where x: "x \<in> set renamed" "loc_path l = loc_path (rn_before x)" by (auto simp: renamed_from_def)
    with origin obtain r where "r \<in> set rs" "move_of ?E r x" by blast
    moreover from this have "l = rn_before x"
      using keyed_inj [OF d(2)] that x(2) by (auto simp: move_of_def dest: inj_onD)
    ultimately show "loc_key l \<in> order_key ` set rs" by (auto simp: move_of_def)
  next
    assume "loc_key l \<in> order_key ` set rs"
    then obtain r where "r \<in> set rs" "loc_key l = order_key r" by blast
    with pair obtain x where "x \<in> set renamed" "move_of ?E r x" by blast
    moreover from this have "l = rn_before x"
      using inj_onD [OF d(3), of l "rn_before x"] that \<open>loc_key l = order_key r\<close> by (auto simp: move_of_def)
    ultimately show "loc_path l \<in> renamed_from ` set renamed" by (auto simp: renamed_from_def)
  qed
  have kv: "keyed loc_path vac" unfolding vac_def by (rule keyed_fold_remove [OF d(2)])
  have sv: "stored vac = {l \<in> ?E. loc_key l \<notin> order_key ` set rs}"
    unfolding vac_def stored_fold_remove [OF d(2)] using from_iff by blast
  have sa: "set afters = moved_by rs ` {l \<in> ?E. loc_key l \<in> order_key ` set rs}"
  proof -
    have "l \<in> rn_before ` set renamed \<longleftrightarrow> l \<in> ?E \<and> loc_key l \<in> order_key ` set rs" for l
    proof
      assume "l \<in> rn_before ` set renamed"
      with origin show "l \<in> ?E \<and> loc_key l \<in> order_key ` set rs" by (force simp: move_of_def)
    next
      assume "l \<in> ?E \<and> loc_key l \<in> order_key ` set rs"
      then obtain r where r: "r \<in> set rs" "loc_key l = order_key r" "l \<in> ?E" by blast
      with pair obtain x where x: "x \<in> set renamed" "move_of ?E r x" by blast
      have "l = rn_before x" using inj_onD [OF d(3), of l "rn_before x"] r x(2) by (auto simp: move_of_def)
      with x(1) show "l \<in> rn_before ` set renamed" by blast
    qed
    then have "rn_before ` set renamed = {l \<in> ?E. loc_key l \<in> order_key ` set rs}" by blast
    moreover have "set afters = moved_by rs ` rn_before ` set renamed"
      unfolding afters_def set_map image_image using origin by (intro image_cong) auto
    ultimately show ?thesis by simp
  qed
  have pa: "map loc_path afters = map ren_path rs"
    by (rule nth_equalityI)
      (use moves in \<open>auto simp: afters_def list_all2_conv_all_nth move_of_def renamed_after_def loc_path_def\<close>)
  define es where "es = fold (\<lambda>l. bt_insert (loc_path l) l) afters vac"
  have pset: "loc_path ` set afters = ren_path ` set rs" using arg_cong [OF pa, of set] by simp
  have disj: "loc_path ` set afters \<inter> loc_path ` stored vac = {}"
  proof (rule ccontr)
    assume "loc_path ` set afters \<inter> loc_path ` stored vac \<noteq> {}"
    then obtain l where "l \<in> ?E" "loc_key l \<notin> order_key ` set rs" "loc_path l \<in> ren_path ` set rs"
      unfolding pset sv by (auto, metis imageI)
    with clear show False by blast
  qed
  have es: "keyed loc_path es" "stored es = stored vac \<union> set afters"
    using stored_fold_insert [OF kv _ disj] paths pa unfolding es_def by simp_all
  have "loc_container ` set afters \<subseteq> cid ` stored ?cs" unfolding sa using d(4) by auto
  then have "try_fold (insert_entry ?cs) vac afters = Inr es"
    unfolding insert_entries_Ok_iff [OF d(1) kv] using disj es paths pa by simp
  then have "apply_renames renamed s = Inr (s\<lparr>ix_entries := es\<rparr>)"
    by (simp add: apply_renames_def vac_def afters_def try_fold_map)
  moreover have "stored es = moved_by rs ` ?E"
  proof -
    have "stored vac = moved_by rs ` stored vac" unfolding sv by (auto simp: moved_by_none image_iff)
    then have "stored es = moved_by rs ` (stored vac \<union> {l \<in> ?E. loc_key l \<in> order_key ` set rs})"
      unfolding es(2) sa image_Un by simp
    also have "stored vac \<union> {l \<in> ?E. loc_key l \<in> order_key ` set rs} = ?E" unfolding sv by blast
    finally show ?thesis .
  qed
  ultimately show ?thesis using es(1) by blast
qed

section \<open>Additions\<close>

definition located :: "container_addition \<Rightarrow> entry_location list" where
  "located a = (case into_locations a of Some (_, ls) \<Rightarrow> ls | None \<Rightarrow> [])"

lemma located_ok:
  assumes "addition_ok a"
  shows "into_locations a = Some (add_container a, located a)" and "map loc_path (located a) = map path (add_entries a)"
    and "\<forall>l \<in> set (located a). loc_container l = addition_id a" and "distinct (map loc_key (located a))"
proof -
  obtain ls where ls: "into_locations a = Some (add_container a, ls)" "map loc_entry ls = add_entries a"
      "\<forall>i < length ls. loc_number (ls ! i) = EntryNumber i \<and> loc_container (ls ! i) = cid (add_container a)"
    using into_locations_total [OF assms] by metis
  then have l: "located a = ls" by (simp add: located_def)
  show "into_locations a = Some (add_container a, located a)" using ls l by simp
  show "map loc_path (located a) = map path (add_entries a)"
    unfolding l ls(2) [symmetric] by (simp add: loc_path_def)
  show "\<forall>l \<in> set (located a). loc_container l = addition_id a"
    unfolding l addition_id_def using ls(3) by (metis in_set_conv_nth)
  show "distinct (map loc_key (located a))"
    unfolding l distinct_conv_nth using ls(3) by (simp add: loc_key_def)
qed

definition add_one :: "container_addition \<Rightarrow> index_state \<Rightarrow> index_error + index_state" where
  "add_one a s =
     and_then (insert_container (add_container a) (ix_containers s)) (\<lambda>containers.
       and_then (try_fold (insert_entry containers) (ix_entries s) (located a)) (\<lambda>entries.
         Ok (s\<lparr>ix_containers := containers, ix_entries := entries\<rparr>)))"

lemma apply_additions_fold: "\<forall>a \<in> set as. addition_ok a \<Longrightarrow> apply_additions as s = Some (try_fold (\<lambda>s a. add_one a s) s as)"
proof (induction as arbitrary: s)
  case (Cons a as)
  then show ?case
    by (cases "add_one a s") (auto simp: located_ok(1) add_one_def)
qed simp

text \<open>\<open>t\<close> is \<open>s\<close> with a catalog that holds \<open>C\<close> and \<open>E\<close>.\<close>

definition recast :: "index_state \<Rightarrow> container_summary set \<Rightarrow> entry_location set \<Rightarrow> index_state \<Rightarrow> bool" where
  "recast s C E t \<longleftrightarrow>
     keyed cid (ix_containers t) \<and> keyed loc_path (ix_entries t) \<and>
     stored (ix_containers t) = C \<and> stored (ix_entries t) = E \<and>
     t = s\<lparr>ix_containers := ix_containers t, ix_entries := ix_entries t\<rparr>"

lemma recast_unique: "recast s C E t \<Longrightarrow> recast s C E t' \<Longrightarrow> t = t'"
  unfolding recast_def by (metis keyed_eqI)

lemma recast_trans: "recast s C E t \<Longrightarrow> recast t C' E' u \<longleftrightarrow> recast s C' E' u \<and> recast t C' E' u"
  by (cases s; cases t; cases u) (auto simp: recast_def)

lemma recast_over: "recast s C E t \<Longrightarrow> recast s C' E' u \<Longrightarrow> recast t C' E' u"
  by (cases s; cases t; cases u) (auto simp: recast_def)

lemma recastI:
  "keyed cid cs \<Longrightarrow> keyed loc_path es \<Longrightarrow> recast s (stored cs) (stored es) (s\<lparr>ix_containers := cs, ix_entries := es\<rparr>)"
  by (simp add: recast_def)

definition addable :: "index_state \<Rightarrow> container_addition \<Rightarrow> bool" where
  "addable s a \<longleftrightarrow> addition_id a \<notin> cid ` stored (ix_containers s) \<and>
     loc_path ` set (located a) \<inter> loc_path ` stored (ix_entries s) = {}"

lemma add_one_total:
  assumes "keyed cid (ix_containers s)" and "keyed loc_path (ix_entries s)" and "addition_ok a" and "addable s a"
  obtains t where "add_one a s = Inr t"
    and "recast s (insert (add_container a) (stored (ix_containers s))) (stored (ix_entries s) \<union> set (located a)) t"
proof -
  define cs where "cs = bt_insert (cid (add_container a)) (add_container a) (ix_containers s)"
  define es where "es = fold (\<lambda>l. bt_insert (loc_path l) l) (located a) (ix_entries s)"
  define u where "u = s\<lparr>ix_containers := cs, ix_entries := es\<rparr>"
  have cs: "keyed cid cs" "stored cs = insert (add_container a) (stored (ix_containers s))"
    using assms(1,4) unfolding cs_def addition_id_def addable_def by (simp_all add: keyed_insert stored_insert_new)
  have dist: "distinct (map loc_path (located a))" using located_ok(2) [OF assms(3)] assms(3) by (simp add: addition_ok_iff)
  have disj: "loc_path ` set (located a) \<inter> loc_path ` stored (ix_entries s) = {}" using assms(4) by (simp add: addable_def)
  have es: "keyed loc_path es" "stored es = stored (ix_entries s) \<union> set (located a)"
    using stored_fold_insert [OF assms(2) dist disj] by (simp_all add: es_def)
  have sub: "loc_container ` set (located a) \<subseteq> cid ` stored cs"
    unfolding cs(2) using located_ok(3) [OF assms(3)] by (auto simp: addition_id_def)
  have "insert_container (add_container a) (ix_containers s) = Inr cs"
    using assms(4) by (simp add: insert_container_Ok_iff [OF assms(1)] cs_def addition_id_def addable_def)
  moreover have "try_fold (insert_entry cs) (ix_entries s) (located a) = Inr es"
    unfolding insert_entries_Ok_iff [OF cs(1) assms(2)] using sub dist disj es by blast
  ultimately have "add_one a s = Inr u" by (simp add: add_one_def u_def)
  then show thesis using recastI [OF cs(1) es(1), of s] unfolding u_def cs(2) es(2) by (rule that)
qed

lemma add_one_Ok_iff:
  assumes "keyed cid (ix_containers s)" and "keyed loc_path (ix_entries s)" and "addition_ok a"
  shows "add_one a s = Inr t \<longleftrightarrow> addable s a \<and>
    recast s (insert (add_container a) (stored (ix_containers s))) (stored (ix_entries s) \<union> set (located a)) t"
    (is "?L t \<longleftrightarrow> _")
proof (cases "addable s a")
  case True
  with add_one_total [OF assms] recast_unique show ?thesis by (metis sum.inject(2))
next
  case False
  have "\<not> ?L t"
  proof
    assume "?L t"
    then obtain cs es where c: "insert_container (add_container a) (ix_containers s) = Inr cs"
      and e: "try_fold (insert_entry cs) (ix_entries s) (located a) = Inr es" by (auto simp: add_one_def and_then_Inr_iff)
    then have "keyed cid cs" "addition_id a \<notin> cid ` stored (ix_containers s)"
      using assms(1) by (auto simp: insert_container_Ok_iff [OF assms(1)] keyed_insert addition_id_def)
    with e False show False by (simp add: insert_entries_Ok_iff [OF _ assms(2)] addable_def)
  qed
  with False show ?thesis by blast
qed

definition adds_apart :: "container_addition list \<Rightarrow> bool" where
  "adds_apart as \<longleftrightarrow> distinct (map addition_id as) \<and>
     sorted_wrt (\<lambda>a b. loc_path ` set (located a) \<inter> loc_path ` set (located b) = {}) as"

lemma addable_recast:
  "recast s (insert (add_container a) (stored (ix_containers s))) (stored (ix_entries s) \<union> set (located a)) t \<Longrightarrow>
   addable t b \<longleftrightarrow> addable s b \<and> addition_id b \<noteq> addition_id a \<and> loc_path ` set (located a) \<inter> loc_path ` set (located b) = {}"
  unfolding recast_def addable_def by (auto simp: addition_id_def)

lemma add_all_Ok_iff:
  "keyed cid (ix_containers s) \<Longrightarrow> keyed loc_path (ix_entries s) \<Longrightarrow> \<forall>a \<in> set as. addition_ok a \<Longrightarrow>
   try_fold (\<lambda>s a. add_one a s) s as = Inr t \<longleftrightarrow>
     adds_apart as \<and> (\<forall>a \<in> set as. addable s a) \<and>
     recast s (stored (ix_containers s) \<union> add_container ` set as)
       (stored (ix_entries s) \<union> (\<Union>a \<in> set as. set (located a))) t"
proof (induction as arbitrary: s)
  case Nil
  have "recast s (stored (ix_containers s)) (stored (ix_entries s)) s" using Nil by (simp add: recast_def)
  then show ?case using recast_unique by (auto simp: adds_apart_def)
next
  case (Cons a as)
  let ?C = "insert (add_container a) (stored (ix_containers s))" and ?E = "stored (ix_entries s) \<union> set (located a)"
  let ?C' = "stored (ix_containers s) \<union> add_container ` set (a # as)"
  let ?E' = "stored (ix_entries s) \<union> (\<Union>a \<in> set (a # as). set (located a))"
  have ok: "addition_ok a" "\<forall>a \<in> set as. addition_ok a" using Cons.prems(3) by auto
  note one = add_one_Ok_iff [OF Cons.prems(1,2) ok(1)]
  show ?case
  proof (cases "add_one a s")
    case (Inl e)
    then have "\<not> addable s a" using add_one_total [OF Cons.prems(1,2) ok(1)] by (metis sum.distinct(1))
    with Inl show ?thesis by simp
  next
    case (Inr u)
    then have u: "addable s a" "recast s ?C ?E u" using one by auto
    then have k: "keyed cid (ix_containers u)" "keyed loc_path (ix_entries u)" "stored (ix_containers u) = ?C"
      "stored (ix_entries u) = ?E" by (simp_all add: recast_def)
    have sets: "?C \<union> add_container ` set as = ?C'" "?E \<union> (\<Union>a \<in> set as. set (located a)) = ?E'" by auto
    have "recast u ?C' ?E' t \<longleftrightarrow> recast s ?C' ?E' t" using recast_trans [OF u(2)] recast_over [OF u(2)] by blast
    moreover have "adds_apart as \<and> (\<forall>b \<in> set as. addable u b) \<longleftrightarrow> adds_apart (a # as) \<and> (\<forall>b \<in> set as. addable s b)"
      unfolding addable_recast [OF u(2)] adds_apart_def by (auto simp: image_iff)
    moreover have "try_fold (\<lambda>s a. add_one a s) u as = Inr t \<longleftrightarrow>
        adds_apart as \<and> (\<forall>b \<in> set as. addable u b) \<and> recast u ?C' ?E' t"
      using Cons.IH [OF k(1,2) ok(2)] unfolding k(3,4) sets .
    moreover have "(\<forall>b \<in> set (a # as). addable s b) \<longleftrightarrow> (\<forall>b \<in> set as. addable s b)" using u(1) by simp
    moreover have "try_fold (\<lambda>s a. add_one a s) s (a # as) = try_fold (\<lambda>s a. add_one a s) u as" using Inr by simp
    ultimately show ?thesis by metis
  qed
qed

section \<open>When no two Entries share a path\<close>

lemma list_all2_ex: "(\<exists>ys. list_all2 P xs ys) \<longleftrightarrow> (\<forall>x \<in> set xs. \<exists>y. P x y)"
  by (induction xs) (auto simp: list_all2_Cons1)

lemma list_all2_move_of: "(\<exists>ys. list_all2 (move_of E) xs ys) \<longleftrightarrow> (\<forall>x \<in> set xs. may_move E x)"
  by (simp add: list_all2_ex may_move_iff)

lemma inj_on_disjoint_Un: "A \<inter> B = {} \<Longrightarrow> inj_on f (A \<union> B) \<longleftrightarrow> inj_on f A \<and> inj_on f B \<and> f ` A \<inter> f ` B = {}"
  by (auto simp: inj_on_Un Diff_triv Int_commute)

lemma inj_on_parts:
  "(\<forall>a \<in> set as. inj_on f (L a)) \<Longrightarrow> sorted_wrt (\<lambda>a b. L a \<inter> L b = {}) as \<Longrightarrow>
   inj_on f (\<Union>a \<in> set as. L a) \<longleftrightarrow> sorted_wrt (\<lambda>a b. f ` L a \<inter> f ` L b = {}) as"
proof (induction as)
  case (Cons a as)
  have "L a \<inter> (\<Union>b \<in> set as. L b) = {}" using Cons.prems(2) by auto
  note split = inj_on_disjoint_Un [OF this, of f]
  have "(\<Union>b \<in> set (a # as). L b) = L a \<union> (\<Union>b \<in> set as. L b)" by simp
  moreover have "f ` L a \<inter> f ` (\<Union>b \<in> set as. L b) = {} \<longleftrightarrow> (\<forall>b \<in> set as. f ` L a \<inter> f ` L b = {})" by blast
  ultimately show ?case using Cons split by (simp add: conj_commute)
qed simp

lemma moved_paths_iff:
  assumes keys: "distinct (map order_key rs)" and move: "\<forall>r \<in> set rs. may_move E r"
    and injp: "inj_on loc_path E" and injk: "inj_on loc_key E"
  shows "inj_on loc_path (moved_by rs ` E) \<longleftrightarrow> distinct (map ren_path rs) \<and>
    (\<forall>l \<in> E. loc_path l \<in> ren_path ` set rs \<longrightarrow> loc_key l \<in> order_key ` set rs)"
proof
  assume inj: "inj_on loc_path (moved_by rs ` E)"
  have at: "\<exists>l \<in> E. loc_key l = order_key r \<and> loc_path (moved_by rs l) = ren_path r" if "r \<in> set rs" for r
    using move that moved_by_path [OF keys that] by (force simp: may_move_def)
  have same: "loc_key l = loc_key l'" if "l \<in> E" "l' \<in> E" "loc_path (moved_by rs l) = loc_path (moved_by rs l')" for l l'
    using inj_onD [OF inj that(3)] that(1,2) by (metis imageI moved_by_key(1))
  have "inj_on ren_path (set rs)"
  proof (rule inj_onI)
    fix r r' assume r: "r \<in> set rs" "r' \<in> set rs" and eq: "ren_path r = ren_path r'"
    from at [OF r(1)] at [OF r(2)] same eq have "order_key r = order_key r'" by metis
    with keys r show "r = r'" by (auto simp: distinct_map dest: inj_onD)
  qed
  then have "distinct (map ren_path rs)" using keys by (simp add: distinct_map)
  moreover have "loc_key l \<in> order_key ` set rs" if l: "l \<in> E" "loc_path l \<in> ren_path ` set rs" for l
  proof (rule ccontr)
    assume n: "loc_key l \<notin> order_key ` set rs"
    obtain r where r: "r \<in> set rs" "loc_path l = ren_path r" using l(2) by blast
    from at [OF r(1)] obtain l' where l': "l' \<in> E" "loc_key l' = order_key r" "loc_path (moved_by rs l') = ren_path r" by blast
    have "loc_key l = loc_key l'" using same [OF l(1) l'(1)] moved_by_none [OF n] l'(3) r(2) by simp
    with n r(1) l'(2) show False by (metis imageI)
  qed
  ultimately show "distinct (map ren_path rs) \<and>
    (\<forall>l \<in> E. loc_path l \<in> ren_path ` set rs \<longrightarrow> loc_key l \<in> order_key ` set rs)" by blast
next
  assume a: "distinct (map ren_path rs) \<and>
    (\<forall>l \<in> E. loc_path l \<in> ren_path ` set rs \<longrightarrow> loc_key l \<in> order_key ` set rs)"
  have one: "loc_path (moved_by rs l) \<in> ren_path ` set rs \<longleftrightarrow> loc_key l \<in> order_key ` set rs" if l: "l \<in> E" for l
  proof (cases "loc_key l \<in> order_key ` set rs")
    case True
    then obtain r where "r \<in> set rs" "order_key r = loc_key l" by auto
    then show ?thesis using moved_by_path [OF keys] True by simp
  next
    case False
    with moved_by_none [OF False] a l show ?thesis by auto
  qed
  have "l = l'" if l: "l \<in> E" "l' \<in> E" "loc_path (moved_by rs l) = loc_path (moved_by rs l')" for l l'
  proof (cases "loc_key l \<in> order_key ` set rs")
    case True
    then have "loc_key l' \<in> order_key ` set rs" using one l by metis
    with True obtain r r' where r: "r \<in> set rs" "order_key r = loc_key l" "r' \<in> set rs" "order_key r' = loc_key l'"
      by (metis imageE)
    then have "ren_path r = ren_path r'" using moved_by_path [OF keys] l(3) by metis
    then have "r = r'" using a r by (auto simp: distinct_map dest: inj_onD)
    then show ?thesis using r injk l by (auto dest: inj_onD)
  next
    case False
    then have "loc_key l' \<notin> order_key ` set rs" using one l by metis
    with False l injp show ?thesis by (auto simp: moved_by_none dest: inj_onD)
  qed
  then have "inj_on (loc_path \<circ> moved_by rs) E" by (intro inj_onI) simp
  then show "inj_on loc_path (moved_by rs ` E)" by (rule inj_on_imageI)
qed

section \<open>What a record does to the catalog\<close>

definition record_ok :: "journal_record \<Rightarrow> bool" where
  "record_ok r \<longleftrightarrow> collections_ok (jr_additions r) (jr_removals r) \<and> sorted_wrt (<) (map order_key (jr_renames r)) \<and>
     (\<forall>a \<in> set (jr_additions r). addition_ok a)"

definition containers_kept :: "journal_record \<Rightarrow> container_summary set \<Rightarrow> container_summary set" where
  "containers_kept r C = {c \<in> C. cid c \<notin> set (jr_removals r)}"

definition entries_kept :: "journal_record \<Rightarrow> entry_location set \<Rightarrow> entry_location set" where
  "entries_kept r E = {l \<in> E. loc_container l \<notin> set (jr_removals r)}"

definition containers_after :: "journal_record \<Rightarrow> container_summary set \<Rightarrow> container_summary set" where
  "containers_after r C = containers_kept r C \<union> add_container ` set (jr_additions r)"

definition entries_after :: "journal_record \<Rightarrow> entry_location set \<Rightarrow> entry_location set" where
  "entries_after r E = moved_by (jr_renames r) ` entries_kept r E \<union> (\<Union>a \<in> set (jr_additions r). set (located a))"

text \<open>The records a catalog can take: its renames name kept Entries that may move, its additions are new Containers,
  and no two Entries of the outcome share a path.\<close>

definition fits :: "journal_record \<Rightarrow> container_summary set \<Rightarrow> entry_location set \<Rightarrow> bool" where
  "fits r C E \<longleftrightarrow>
     (\<forall>x \<in> set (jr_renames r). may_move (entries_kept r E) x) \<and>
     addition_id ` set (jr_additions r) \<inter> cid ` containers_kept r C = {} \<and>
     inj_on loc_path (entries_after r E)"

lemma entries_after_inj_iff:
  assumes ok: "record_ok r" and wf: "catalog_wf s"
    and E: "E = stored (ix_entries s)" and C: "C = stored (ix_containers s)"
    and gone: "\<forall>l \<in> E. loc_container l \<notin> set (jr_removals r)"
    and new: "addition_id ` set (jr_additions r) \<inter> cid ` C = {}"
  shows "inj_on loc_path (moved_by (jr_renames r) ` E \<union> (\<Union>a \<in> set (jr_additions r). set (located a))) \<longleftrightarrow>
    inj_on loc_path (moved_by (jr_renames r) ` E) \<and>
    sorted_wrt (\<lambda>a b. loc_path ` set (located a) \<inter> loc_path ` set (located b) = {}) (jr_additions r) \<and>
    (\<forall>a \<in> set (jr_additions r). loc_path ` set (located a) \<inter> loc_path ` moved_by (jr_renames r) ` E = {})"
    (is "inj_on _ (?M \<union> ?L) \<longleftrightarrow> _")
proof -
  note d = catalog_wfD [OF wf]
  have aok: "addition_ok a" if "a \<in> set (jr_additions r)" for a using ok that by (simp add: record_ok_def)
  have lc: "loc_container l = addition_id a" if "a \<in> set (jr_additions r)" "l \<in> set (located a)" for a l
    using located_ok(3) [OF aok [OF that(1)]] that(2) by blast
  have "loc_container l \<in> cid ` C" if "l \<in> ?M" for l using that d(4) unfolding E C by auto
  then have disj: "?M \<inter> ?L = {}" using lc new by blast
  have srt: "sorted_wrt (<) (map addition_id (jr_additions r))" using ok by (simp add: record_ok_def collections_ok_def)
  have two: "set (located a) \<inter> set (located b) = {}"
    if "a \<in> set (jr_additions r)" "b \<in> set (jr_additions r)" "addition_id a < addition_id b" for a b
    using lc that by (metis disjoint_iff order_less_irrefl)
  have apart: "sorted_wrt (\<lambda>a b. set (located a) \<inter> set (located b) = {}) (jr_additions r)"
    using srt unfolding sorted_wrt_map
    by (rule sorted_wrt_mono_rel [rotated]) (rule two)
  have each: "\<forall>a \<in> set (jr_additions r). inj_on loc_path (set (located a))"
  proof
    fix a assume a: "a \<in> set (jr_additions r)"
    have "distinct (map loc_path (located a))"
      using located_ok(2) [OF aok [OF a]] aok [OF a] by (simp add: addition_ok_iff)
    then show "inj_on loc_path (set (located a))" by (simp add: distinct_map)
  qed
  have "loc_path ` ?M \<inter> loc_path ` ?L = {} \<longleftrightarrow>
      (\<forall>a \<in> set (jr_additions r). loc_path ` set (located a) \<inter> loc_path ` ?M = {})" by blast
  then show ?thesis unfolding inj_on_disjoint_Un [OF disj] inj_on_parts [OF each apart] by blast
qed

text \<open>The steps of \<open>apply\<close> that change the catalog.\<close>

definition apply_catalog :: "journal_record \<Rightarrow> index_state \<Rightarrow> (index_error + index_state) option" where
  "apply_catalog r s =
     (let s = apply_removals (jr_removals r) s
      in case and_then (state_check_renames s r) (\<lambda>renamed. apply_renames renamed s) of
           Inl e \<Rightarrow> Some (Err e)
         | Inr s \<Rightarrow> apply_additions (jr_additions r) s)"

lemma apply_catalog_iff:
  assumes wf: "catalog_wf s" and ok: "record_ok r"
  shows "\<exists>res. apply_catalog r s = Some res \<and> (\<forall>t. res = Inr t \<longleftrightarrow>
    fits r (stored (ix_containers s)) (stored (ix_entries s)) \<and>
    recast s (containers_after r (stored (ix_containers s))) (entries_after r (stored (ix_entries s))) t)"
proof -
  let ?C = "containers_kept r (stored (ix_containers s))" and ?E = "entries_kept r (stored (ix_entries s))"
  let ?rs = "jr_renames r" and ?as = "jr_additions r"
  define s1 where "s1 = apply_removals (jr_removals r) s"
  have s1: "catalog_wf s1" "stored (ix_containers s1) = ?C" "stored (ix_entries s1) = ?E"
    using apply_removals_stored [OF wf, of "jr_removals r"] by (simp_all add: s1_def containers_kept_def entries_kept_def)
  note d = catalog_wfD [OF s1(1), unfolded s1(2,3)]
  have aok: "\<forall>a \<in> set ?as. addition_ok a" and dk: "distinct (map order_key ?rs)" and srt: "sorted_wrt (<) (jr_removals r)"
    using ok by (simp_all add: record_ok_def collections_ok_def strict_sorted_iff)
  have gone: "\<forall>l \<in> ?E. loc_container l \<notin> set (jr_removals r)" by (simp add: entries_kept_def)
  note check = state_check_renames_Ok_iff [OF s1(1) srt, unfolded s1(3), OF gone]
  note apart = entries_after_inj_iff [OF ok s1(1) s1(3) [symmetric] s1(2) [symmetric] gone]
  have s1s: "recast s C E t \<longleftrightarrow> recast s1 C E t" for C E t
  proof -
    have "s1 = s\<lparr>ix_containers := ix_containers s1, ix_entries := ix_entries s1\<rparr>"
      unfolding s1_def by (rule apply_removals_rest)
    then show ?thesis by (cases s; cases s1) (auto simp: recast_def)
  qed
  let ?F = "fits r (stored (ix_containers s)) (stored (ix_entries s))"
  have target: "x \<in> set ?rs \<Longrightarrow> may_move ?E x \<Longrightarrow> ren_path x \<in> loc_path ` moved_by ?rs ` ?E" for x
    using moved_by_path [OF dk, of x] unfolding may_move_def image_image by (metis (no_types, lifting) imageI)
  have inj: "inj_on loc_path ?E" using keyed_inj [OF catalog_wfD(2) [OF s1(1)]] by (simp add: s1(3))
  have check_ex: "(\<exists>renamed. state_check_renames s1 r = Inr renamed)" if F: ?F
  proof -
    have move: "\<forall>x \<in> set ?rs. may_move ?E x" and new: "addition_id ` set ?as \<inter> cid ` ?C = {}"
      and i: "inj_on loc_path (entries_after r (stored (ix_entries s)))" using F by (simp_all add: fits_def)
    note i = i [unfolded entries_after_def apart [OF new]]
    obtain renamed where "list_all2 (move_of ?E) ?rs renamed" using move unfolding list_all2_move_of [symmetric] by blast
    moreover have "path e \<notin> ren_path ` set ?rs" if a: "a \<in> set ?as" "e \<in> set (add_entries a)" for a e
    proof -
      have "path e \<in> loc_path ` set (located a)"
        using arg_cong [OF located_ok(2) [OF bspec [OF aok a(1)]], of set] a(2) by simp
      moreover have "loc_path ` set (located a) \<inter> loc_path ` moved_by ?rs ` ?E = {}" using i a(1) by blast
      ultimately have "path e \<notin> loc_path ` moved_by ?rs ` ?E" by blast
      then show ?thesis using target move by (metis imageE)
    qed
    moreover have "distinct (map ren_path ?rs) \<and>
        (\<forall>l \<in> ?E. loc_path l \<in> ren_path ` set ?rs \<longrightarrow> loc_key l \<in> order_key ` set ?rs)"
      using moved_paths_iff [OF dk move inj d(3)] i by blast
    ultimately show ?thesis using check by blast
  qed
  show ?thesis
  proof (cases "state_check_renames s1 r")
    case (Inl e)
    then have "apply_catalog r s = Some (Err e)" by (simp add: apply_catalog_def s1_def)
    moreover have "\<not> ?F" using check_ex Inl by auto
    ultimately show ?thesis by simp
  next
    case (Inr renamed)
    note c = Inr [unfolded check]
    have move: "\<forall>x \<in> set ?rs. may_move ?E x" using c list_all2_move_of by blast
    obtain es where es: "apply_renames renamed s1 = Inr (s1\<lparr>ix_entries := es\<rparr>)" "keyed loc_path es" "stored es = moved_by ?rs ` ?E"
      using apply_renames_checked [OF s1(1) dk, of renamed] c by (auto simp: s1(3))
    define s2 where "s2 = s1\<lparr>ix_entries := es\<rparr>"
    have s2: "keyed cid (ix_containers s2)" "keyed loc_path (ix_entries s2)" "stored (ix_containers s2) = ?C"
      "stored (ix_entries s2) = moved_by ?rs ` ?E" using d(1) es s1 by (simp_all add: s2_def catalog_wfD)
    have "recast s1 C E t \<longleftrightarrow> recast s2 C E t" for C E t
      by (cases s1) (auto simp: recast_def s2_def)
    then have s2s: "recast s2 C E t \<longleftrightarrow> recast s C E t" for C E t using s1s by blast
    have "apply_catalog r s = Some (try_fold (\<lambda>s a. add_one a s) s2 ?as)"
      using Inr es(1) apply_additions_fold [OF aok] by (simp add: apply_catalog_def s1_def s2_def)
    moreover have "?F \<longleftrightarrow> adds_apart ?as \<and> (\<forall>a \<in> set ?as. addable s2 a)"
    proof -
      have "inj_on loc_path (moved_by ?rs ` ?E)" using c moved_paths_iff [OF dk move inj d(3)] by blast
      moreover have "distinct (map addition_id ?as)" using ok by (simp add: record_ok_def collections_ok_def strict_sorted_iff)
      moreover have "addition_id ` set ?as \<inter> cid ` ?C = {} \<longleftrightarrow> (\<forall>a \<in> set ?as. addition_id a \<notin> cid ` ?C)" by blast
      ultimately show ?thesis
        using apart move by (auto simp: fits_def adds_apart_def addable_def s2(3,4) entries_after_def)
    qed
    ultimately show ?thesis
      using add_all_Ok_iff [OF s2(1,2) aok] unfolding s2(3,4) s2s containers_after_def entries_after_def by auto
  qed
qed

lemma recast_after_wf:
  assumes wf: "catalog_wf s" and ok: "record_ok r"
    and fit: "fits r (stored (ix_containers s)) (stored (ix_entries s))"
    and t: "recast s (containers_after r (stored (ix_containers s))) (entries_after r (stored (ix_entries s))) t"
  shows "catalog_wf t"
proof -
  let ?E = "entries_kept r (stored (ix_entries s))" and ?as = "jr_additions r"
  note d = catalog_wfD [OF wf]
  have lc: "loc_container l = addition_id a" if "a \<in> set ?as" "l \<in> set (located a)" for a l
    using located_ok(3) ok that by (auto simp: record_ok_def)
  have kept: "loc_container l \<in> cid ` containers_kept r (stored (ix_containers s))" if "l \<in> ?E" for l
    using that d(4) by (force simp: entries_kept_def containers_kept_def)
  have new: "addition_id a \<notin> cid ` containers_kept r (stored (ix_containers s))" if "a \<in> set ?as" for a
    using fit that by (auto simp: fits_def)
  have sub: "loc_container ` entries_after r (stored (ix_entries s)) \<subseteq> cid ` containers_after r (stored (ix_containers s))"
  proof -
    have "loc_container l \<in> cid ` add_container ` set ?as" if "a \<in> set ?as" "l \<in> set (located a)" for a l
      using lc [OF that] that(1) by (auto simp: addition_id_def)
    then show ?thesis using kept by (auto simp: entries_after_def containers_after_def image_Un)
  qed
  have keys: "inj_on loc_key (moved_by (jr_renames r) ` ?E)"
  proof (rule inj_on_imageI)
    show "inj_on (loc_key \<circ> moved_by (jr_renames r)) ?E"
      using d(3) by (auto simp: entries_kept_def intro!: inj_onI dest: inj_onD)
  qed
  have each: "\<forall>a \<in> set ?as. inj_on loc_key (set (located a))"
    using located_ok(4) ok by (simp add: record_ok_def distinct_map)
  have srt: "sorted_wrt (<) (map addition_id ?as)" using ok by (simp add: record_ok_def collections_ok_def)
  have two: "loc_key ` set (located a) \<inter> loc_key ` set (located b) = {}"
    if "a \<in> set ?as" "b \<in> set ?as" "addition_id a < addition_id b" for a b
    using lc that by (fastforce simp: loc_key_def)
  have apart: "sorted_wrt (\<lambda>a b. loc_key ` set (located a) \<inter> loc_key ` set (located b) = {}) ?as"
    using srt unfolding sorted_wrt_map by (rule sorted_wrt_mono_rel [rotated]) (rule two)
  then have apart': "sorted_wrt (\<lambda>a b. set (located a) \<inter> set (located b) = {}) ?as"
    by (rule sorted_wrt_mono_rel [rotated]) blast
  have keydisj: "loc_key ` moved_by (jr_renames r) ` ?E \<inter> loc_key ` (\<Union>a \<in> set ?as. set (located a)) = {}"
  proof (rule ccontr)
    assume "loc_key ` moved_by (jr_renames r) ` ?E \<inter> loc_key ` (\<Union>a \<in> set ?as. set (located a)) \<noteq> {}"
    then obtain l a m where "l \<in> ?E" "a \<in> set ?as" "m \<in> set (located a)" "loc_key m = loc_key l" by auto
    with kept lc new show False by (metis loc_key_def prod.inject)
  qed
  then have disj: "moved_by (jr_renames r) ` ?E \<inter> (\<Union>a \<in> set ?as. set (located a)) = {}" by blast
  have "inj_on loc_key (\<Union>a \<in> set ?as. set (located a))" by (rule iffD2 [OF inj_on_parts [OF each apart'] apart])
  with keys keydisj have "inj_on loc_key (entries_after r (stored (ix_entries s)))"
    unfolding entries_after_def inj_on_disjoint_Un [OF disj] by simp
  then show ?thesis using t sub by (simp add: recast_def catalog_wf_def entries_wf_def)
qed

lemma recast_after_ex:
  assumes wf: "catalog_wf s" and ok: "record_ok r"
    and fit: "fits r (stored (ix_containers s)) (stored (ix_entries s))"
  shows "\<exists>t. recast s' (containers_after r (stored (ix_containers s))) (entries_after r (stored (ix_entries s))) t"
proof -
  let ?C = "stored (ix_containers s)" and ?E = "stored (ix_entries s)"
  have "inj_on cid (add_container ` set (jr_additions r))"
    using ok unfolding record_ok_def collections_ok_def strict_sorted_iff distinct_map addition_id_def
    by (auto intro!: inj_onI dest: inj_onD)
  moreover have "inj_on cid (containers_kept r ?C)"
    using keyed_inj [OF catalog_wfD(1) [OF wf]] by (auto simp: containers_kept_def inj_on_def)
  moreover have "cid ` containers_kept r ?C \<inter> cid ` add_container ` set (jr_additions r) = {}"
    using fit by (auto simp: fits_def addition_id_def)
  moreover from this have "containers_kept r ?C \<inter> add_container ` set (jr_additions r) = {}" by blast
  ultimately have "inj_on cid (containers_after r ?C)" unfolding containers_after_def by (simp add: inj_on_disjoint_Un)
  moreover have "finite (containers_after r ?C)" by (simp add: containers_after_def containers_kept_def)
  ultimately obtain cs where cs: "keyed cid cs" "stored cs = containers_after r ?C" using keyed_ex by blast
  have "finite (entries_after r ?E)" by (simp add: entries_after_def entries_kept_def)
  moreover have "inj_on loc_path (entries_after r ?E)" using fit by (simp add: fits_def)
  ultimately obtain es where es: "keyed loc_path es" "stored es = entries_after r ?E" using keyed_ex by blast
  show ?thesis using recastI [OF cs(1) es(1), of s'] cs(2) es(2) by auto
qed

end
