(* ===== verification/Index_Rows.thy ===== *)
theory Index_Rows
  imports Index_Catalog
begin

text \<open>
  A device's rows beside the catalog. \<open>rows_ok\<close> is their invariant: a row says to move exactly when its Entry stands
  at another path, and a row whose Entry stands nowhere is not at the path of a current one. \<open>settle\<close> is what
  \<open>reconcile\<close> does to one row; \<open>followed\<close> is what \<open>carry_over\<close> does to it.
\<close>

section \<open>One row\<close>

definition settle ::
  "(entry_ref, entry_path) btree \<Rightarrow> (entry_path, entry_location) btree \<Rightarrow> entry_path \<Rightarrow> local_entry \<Rightarrow> local_entry option" where
  "settle st es p l =
     (case bt_get st (ob_entry (le_observation l)) of
        Some at \<Rightarrow> Some (l\<lparr>le_relocate_to := (if at \<noteq> p then Some at else None)\<rparr>)
      | None \<Rightarrow> if bt_contains es p then None else Some (l\<lparr>le_relocate_to := None\<rparr>))"

definition row_ok :: "(entry_path, entry_location) btree \<Rightarrow> entry_path \<Rightarrow> local_entry \<Rightarrow> bool" where
  "row_ok es p l \<longleftrightarrow> settle (standing es) es p l = Some l"

definition row_path :: "local_entry \<Rightarrow> entry_path" where
  "row_path l = ob_path (le_observation l)"

definition rows_ok :: "(entry_path, entry_location) btree \<Rightarrow> (entry_path, local_entry) btree \<Rightarrow> bool" where
  "rows_ok es rows \<longleftrightarrow> keyed row_path rows \<and> (\<forall>l \<in> stored rows. row_ok es (row_path l) l)"

lemma settle_settled: "settle st es p l = Some l' \<Longrightarrow> settle st es p l' = Some l'"
  by (auto simp: settle_def split: option.splits if_splits)

lemma settle_twice [simp]: "Option.bind (settle st es p l) (settle st es p) = settle st es p l"
  by (cases "settle st es p l") (auto dest: settle_settled)

lemma settle_path: "settle st es p l = Some l' \<Longrightarrow> le_observation l' = le_observation l"
  by (auto simp: settle_def split: option.splits if_splits)

lemma rows_ok_get: "rows_ok es rows \<longleftrightarrow> keyed row_path rows \<and> (\<forall>p l. bt_get rows p = Some l \<longrightarrow> row_ok es p l)"
  by (auto simp: rows_ok_def keyed_get)

section \<open>Reconciling\<close>

lemma reconcile_step_get:
  assumes "bt_inv rows"
  shows "bt_get (reconcile_step st es p rows) q =
    (if q = p then Option.bind (bt_get rows p) (settle st es p) else bt_get rows q)"
  by (auto simp: reconcile_step_def settle_def bt_get_update bt_get_remove [OF assms] split: option.splits)

lemma reconcile_step_inv: "bt_inv rows \<Longrightarrow> bt_inv (reconcile_step st es p rows)"
  by (auto simp: reconcile_step_def bt_inv_update bt_inv_remove split: option.splits)

lemma reconcile_fold:
  "bt_inv rows \<Longrightarrow> bt_inv (fold (reconcile_step st es) ps rows) \<and>
     bt_get (fold (reconcile_step st es) ps rows) q =
       (if q \<in> set ps then Option.bind (bt_get rows q) (settle st es q) else bt_get rows q)"
proof (induction ps arbitrary: rows)
  case (Cons p ps)
  have "bt_inv (reconcile_step st es p rows)" using Cons.prems by (rule reconcile_step_inv)
  from Cons.IH [OF this] show ?case
    by (simp add: reconcile_step_get [OF Cons.prems])
qed simp

lemma reconcile_get:
  "bt_inv (ix_local s) \<Longrightarrow> bt_get (ix_local (reconcile ps s)) p =
     (if p \<in> set ps then Option.bind (bt_get (ix_local s) p) (settle (standing (ix_entries s)) (ix_entries s) p)
      else bt_get (ix_local s) p)"
  by (simp add: reconcile_def reconcile_fold)

lemma reconcile_inv: "bt_inv (ix_local s) \<Longrightarrow> bt_inv (ix_local (reconcile ps s))"
  by (simp add: reconcile_def reconcile_fold)

lemma reconcile_rest: "reconcile ps s = s\<lparr>ix_local := ix_local (reconcile ps s)\<rparr>"
  by (simp add: reconcile_def)

lemma reconcile_rows_ok:
  assumes k: "keyed row_path (ix_local s)"
    and other: "\<And>p l. p \<notin> set ps \<Longrightarrow> bt_get (ix_local s) p = Some l \<Longrightarrow> row_ok (ix_entries s) p l"
  shows "rows_ok (ix_entries s) (ix_local (reconcile ps s))"
proof -
  note get = reconcile_get [OF keyed_inv [OF k]]
  have "keyed row_path (ix_local (reconcile ps s))"
  proof (rule keyedI)
    show "bt_inv (ix_local (reconcile ps s))" by (rule reconcile_inv [OF keyed_inv [OF k]])
    show "row_path l = p" if "bt_get (ix_local (reconcile ps s)) p = Some l" for p l
      using that k unfolding get keyed_iff
      by (auto simp: row_path_def bind_eq_Some_conv dest: settle_path split: if_splits)
  qed
  moreover have "row_ok (ix_entries s) p l" if "bt_get (ix_local (reconcile ps s)) p = Some l" for p l
    using that other unfolding get row_ok_def by (auto simp: bind_eq_Some_conv settle_settled split: if_splits)
  ultimately show ?thesis by (simp add: rows_ok_get)
qed

lemma reconcile_all_get:
  assumes "bt_inv (ix_local s)"
  shows "bt_get (ix_local (reconcile_all s)) p =
    Option.bind (bt_get (ix_local s) p) (settle (standing (ix_entries s)) (ix_entries s) p)"
proof -
  have "p \<notin> set (bt_keys (ix_local s)) \<Longrightarrow> bt_get (ix_local s) p = None"
    by (simp add: bt_get_def bt_keys_def map_of_eq_None_iff)
  then show ?thesis by (auto simp: reconcile_all_def reconcile_get [OF assms])
qed

lemma reconcile_all_rows_ok: "keyed row_path (ix_local s) \<Longrightarrow> rows_ok (ix_entries s) (ix_local (reconcile_all s))"
  unfolding reconcile_all_def
  by (rule reconcile_rows_ok) (auto simp: bt_keys_def bt_get_def dest: map_of_SomeD intro: rev_image_eqI)

lemma reconcile_all_rest: "reconcile_all s = s\<lparr>ix_local := ix_local (reconcile_all s)\<rparr>"
  by (simp add: reconcile_all_def reconcile_def)

section \<open>Carrying rows over\<close>

definition followed ::
  "(entry_path, entry_location) btree \<Rightarrow> (entry_location \<Rightarrow> bool) \<Rightarrow> entry_path option \<Rightarrow> local_entry \<Rightarrow> local_entry" where
  "followed es replaces stood l =
     (case Option.bind stood (bt_get es) of
        Some successor \<Rightarrow>
          if replaces successor then l\<lparr>le_observation := (le_observation l)\<lparr>ob_entry := loc_key successor\<rparr>\<rparr> else l
      | None \<Rightarrow> l)"

lemma carry_step_get:
  "bt_get (carry_step es replaces (p, q) rows) x =
     (if x = p then map_option (followed es replaces (Some q)) (bt_get rows p) else bt_get rows x)"
  by (cases "bt_get rows p") (auto simp: carry_step_def followed_def bt_get_update split: option.splits)

lemma carry_step_keyed: "keyed row_path rows \<Longrightarrow> keyed row_path (carry_step es replaces (p, q) rows)"
  by (auto simp: carry_step_def row_path_def intro: keyed_update split: option.splits)

lemma carry_fold:
  "keyed row_path rows \<Longrightarrow> distinct (map fst stood) \<Longrightarrow>
   keyed row_path (fold (carry_step es replaces) stood rows) \<and>
   bt_get (fold (carry_step es replaces) stood rows) x = map_option (followed es replaces (map_of stood x)) (bt_get rows x)"
proof (induction stood arbitrary: rows)
  case Nil
  then show ?case by (cases "bt_get rows x") (simp_all add: followed_def)
next
  case (Cons pq stood)
  obtain p q where pq: "pq = (p, q)" by (cases pq)
  have "keyed row_path (carry_step es replaces (p, q) rows)" by (rule carry_step_keyed [OF Cons.prems(1)])
  note IH = Cons.IH [OF this]
  have "map_of stood p = None" using Cons.prems(2) by (simp add: pq map_of_eq_None_iff)
  then show ?case using IH Cons.prems(2)
    by (cases "bt_get rows x") (auto simp: pq carry_step_get followed_def [of _ _ None] map_option.compositionality)
qed

lemma map_of_filtered:
  "distinct (map fst m) \<Longrightarrow>
   map_of (List.map_filter (\<lambda>(p, l). map_option (\<lambda>q. (p, q)) (g l)) (filter (\<lambda>(p, l). h l) m)) x =
     Option.bind (map_of m x) (\<lambda>l. if h l then g l else None) \<and>
   fst ` set (List.map_filter (\<lambda>(p, l). map_option (\<lambda>q. (p, q)) (g l)) (filter (\<lambda>(p, l). h l) m)) \<subseteq> fst ` set m \<and>
   distinct (map fst (List.map_filter (\<lambda>(p, l). map_option (\<lambda>q. (p, q)) (g l)) (filter (\<lambda>(p, l). h l) m)))"
proof (induction m)
  case (Cons pl m)
  obtain p l where pl: "pl = (p, l)" by (cases pl)
  have "map_of m p = None" using Cons.prems by (simp add: pl map_of_eq_None_iff)
  then show ?case using Cons by (cases "g l") (auto simp: pl List.map_filter_simps)
qed (simp add: List.map_filter_simps)

lemma standing_of_get:
  assumes "bt_inv (ix_local s)"
  shows "map_of (standing_of s h) p =
      Option.bind (bt_get (ix_local s) p)
        (\<lambda>l. if h (ob_entry (le_observation l)) then bt_get (standing (ix_entries s)) (ob_entry (le_observation l)) else None)"
    and "distinct (map fst (standing_of s h))"
  using map_of_filtered [OF bt_inv_distinct [OF assms], of "\<lambda>l. bt_get (standing (ix_entries s)) (ob_entry (le_observation l))"
      "\<lambda>l. h (ob_entry (le_observation l))" p]
  by (simp_all add: standing_of_def Let_def bt_get_def)

section \<open>Applying a record\<close>

definition name_taken :: "journal_record \<Rightarrow> index_state \<Rightarrow> index_state" where
  "name_taken r s = (case jr_library_name r of Some n \<Rightarrow> s\<lparr>ix_library_name := Some n\<rparr> | None \<Rightarrow> s)"

definition rows_stood :: "journal_record \<Rightarrow> index_state \<Rightarrow> (entry_path \<times> entry_path) list" where
  "rows_stood r s = standing_of s (\<lambda>e. fst e \<in> set (jr_removals r))"

definition added_by :: "journal_record \<Rightarrow> entry_location \<Rightarrow> bool" where
  "added_by r l \<longleftrightarrow> loc_container l \<in> addition_id ` set (jr_additions r)"

definition apply_finish :: "journal_record \<Rightarrow> index_state \<Rightarrow> index_state \<Rightarrow> index_state" where
  "apply_finish r s u = (reconcile_all (carry_over (rows_stood r s) (added_by r) u))\<lparr>ix_checkpoint := Some (record_checkpoint r)\<rparr>"

lemma name_taken_fields [simp]:
  "ix_containers (name_taken r s) = ix_containers s" "ix_entries (name_taken r s) = ix_entries s"
  "ix_local (name_taken r s) = ix_local s"
  by (simp_all add: name_taken_def split: option.splits)

lemma state_apply_eq:
  assumes "already_applied r s = None"
  shows "state_apply r s = map_option (\<lambda>res. and_then res (\<lambda>u. Ok (apply_finish r s u))) (apply_catalog r (name_taken r s))"
proof -
  have stood: "standing_of (name_taken r s) (\<lambda>e. fst e \<in> set (jr_removals r)) = rows_stood r s"
    by (simp add: rows_stood_def standing_of_def)
  have added: "(\<lambda>l. bt_contains (bs_collect (map addition_id (jr_additions r))) (loc_container l)) = added_by r"
    by (simp add: added_by_def fun_eq_iff)
  have "state_apply r s =
      (case and_then (state_check_renames (apply_removals (jr_removals r) (name_taken r s)) r)
          (\<lambda>renamed. apply_renames renamed (apply_removals (jr_removals r) (name_taken r s))) of
         Inl e \<Rightarrow> Some (Err e)
       | Inr s' \<Rightarrow> map_option (\<lambda>res. and_then res (\<lambda>u. Ok (apply_finish r s u))) (apply_additions (jr_additions r) s'))"
    unfolding state_apply_def assms option.case Let_def name_taken_def [symmetric] stood added apply_finish_def ..
  then show ?thesis by (simp add: apply_catalog_def Let_def split: sum.splits)
qed

text \<open>What a successful \<open>apply\<close> leaves: the catalog the record describes, and every row carried over and settled in it.\<close>

definition row_after :: "journal_record \<Rightarrow> index_state \<Rightarrow> index_state \<Rightarrow> entry_path \<Rightarrow> local_entry option" where
  "row_after r s t p =
     Option.bind (bt_get (ix_local s) p)
       (\<lambda>l. settle (standing (ix_entries t)) (ix_entries t) p
          (followed (ix_entries t) (added_by r) (map_of (rows_stood r s) p) l))"

definition applied :: "journal_record \<Rightarrow> index_state \<Rightarrow> index_state \<Rightarrow> bool" where
  "applied r s t \<longleftrightarrow>
     catalog_wf t \<and> rows_ok (ix_entries t) (ix_local t) \<and>
     stored (ix_containers t) = containers_after r (stored (ix_containers s)) \<and>
     stored (ix_entries t) = entries_after r (stored (ix_entries s)) \<and>
     (\<forall>p. bt_get (ix_local t) p = row_after r s t p) \<and>
     t = (name_taken r s)\<lparr>ix_containers := ix_containers t, ix_entries := ix_entries t, ix_local := ix_local t,
                           ix_checkpoint := Some (record_checkpoint r)\<rparr>"

definition index_fits :: "journal_record \<Rightarrow> index_state \<Rightarrow> bool" where
  "index_fits r s \<longleftrightarrow> already_applied r s = None \<and> fits r (stored (ix_containers s)) (stored (ix_entries s))"

lemma apply_finish_applied:
  assumes wf: "catalog_wf s" and rows: "keyed row_path (ix_local s)" and ok: "record_ok r"
    and fit: "fits r (stored (ix_containers s)) (stored (ix_entries s))"
    and u: "recast (name_taken r s) (containers_after r (stored (ix_containers s))) (entries_after r (stored (ix_entries s))) u"
  shows "applied r s (apply_finish r s u)"
proof -
  let ?n = "name_taken r s" and ?c = "carry_over (rows_stood r s) (added_by r) u"
  have wfn: "catalog_wf ?n" using wf by (simp add: catalog_wf_def)
  have uwf: "catalog_wf u" using recast_after_wf [OF wfn ok] fit u by simp
  have ul: "ix_local u = ix_local s" using u unfolding recast_def
    by (metis index_state.select_convs(7) index_state.surjective index_state.update_convs(3,4) name_taken_fields(3))
  have stood: "distinct (map fst (rows_stood r s))"
    unfolding rows_stood_def by (rule standing_of_get(2) [OF keyed_inv [OF rows]])
  have ck: "keyed row_path (ix_local ?c)"
    and cg: "bt_get (ix_local ?c) p = map_option (followed (ix_entries u) (added_by r) (map_of (rows_stood r s) p)) (bt_get (ix_local s) p)" for p
    using carry_fold [OF rows stood, of "ix_entries u" "added_by r"] by (simp_all add: carry_over_def ul)
  have ce: "ix_entries ?c = ix_entries u" "ix_containers ?c = ix_containers u" by (simp_all add: carry_over_def)
  define t where "t = apply_finish r s u"
  have tf: "ix_entries t = ix_entries u" "ix_containers t = ix_containers u" "ix_local t = ix_local (reconcile_all ?c)"
    by (simp_all add: t_def apply_finish_def reconcile_all_def reconcile_def carry_over_def)
  have "rows_ok (ix_entries t) (ix_local t)" using reconcile_all_rows_ok [OF ck] by (simp add: tf ce)
  moreover have "bt_get (ix_local t) p = row_after r s t p" for p
    unfolding tf row_after_def reconcile_all_get [OF keyed_inv [OF ck]] ce cg by (cases "bt_get (ix_local s) p") simp_all
  moreover have "catalog_wf t" using uwf by (simp add: catalog_wf_def tf)
  moreover have "t = ?n\<lparr>ix_containers := ix_containers t, ix_entries := ix_entries t, ix_local := ix_local t,
      ix_checkpoint := Some (record_checkpoint r)\<rparr>"
  proof -
    have "u = ?n\<lparr>ix_containers := ix_containers u, ix_entries := ix_entries u\<rparr>" using u by (simp add: recast_def)
    then have "?c = ?n\<lparr>ix_containers := ix_containers u, ix_entries := ix_entries u, ix_local := ix_local ?c\<rparr>"
      by (cases u; cases ?n) (simp add: carry_over_def)
    then show ?thesis unfolding t_def apply_finish_def
      by (cases u; cases ?n) (simp add: reconcile_all_def reconcile_def carry_over_def)
  qed
  ultimately show ?thesis using u unfolding applied_def t_def [symmetric] by (simp add: recast_def tf)
qed

lemma state_apply_exact:
  assumes wf: "catalog_wf s" and rows: "keyed row_path (ix_local s)" and ok: "record_ok r"
  obtains res where "state_apply r s = Some res" and "(\<exists>t. res = Inr t) \<longleftrightarrow> index_fits r s"
    and "\<And>t. res = Inr t \<Longrightarrow> applied r s t"
proof (cases "already_applied r s")
  case (Some e)
  then have "state_apply r s = Some (Err e)" by (simp add: state_apply_def)
  then show thesis using that [of "Err e"] Some by (simp add: index_fits_def)
next
  case None
  let ?F = "fits r (stored (ix_containers s)) (stored (ix_entries s))"
  have wfn: "catalog_wf (name_taken r s)" using wf by (simp add: catalog_wf_def)
  obtain c where c: "apply_catalog r (name_taken r s) = Some c" and t: "\<And>u. c = Inr u \<longleftrightarrow>
      ?F \<and> recast (name_taken r s) (containers_after r (stored (ix_containers s))) (entries_after r (stored (ix_entries s))) u"
    using apply_catalog_iff [OF wfn ok] by auto
  show thesis
  proof (cases c)
    case (Inl e)
    then have "\<not> ?F" using t recast_after_ex [OF wf ok, of "name_taken r s"] by fastforce
    moreover have "state_apply r s = Some (Err e)" by (simp add: state_apply_eq [OF None] c Inl)
    ultimately show thesis using that [of "Err e"] by (simp add: index_fits_def)
  next
    case (Inr u)
    then have F: ?F and u: "recast (name_taken r s) (containers_after r (stored (ix_containers s))) (entries_after r (stored (ix_entries s))) u"
      using t by auto
    have "state_apply r s = Some (Ok (apply_finish r s u))" by (simp add: state_apply_eq [OF None] c Inr)
    then show thesis
      using that [of "Ok (apply_finish r s u)"] None F apply_finish_applied [OF wf rows ok F u] by (simp add: index_fits_def)
  qed
qed

end
