(* ===== verification/Index_Steps.thy ===== *)
theory Index_Steps
  imports Index_Rows
begin

text \<open>
  The Index as a state machine: \<open>index_step\<close> is any operation of the port, and \<open>index_ok\<close> the invariant of the
  states it reaches from the empty one. In such a state no record makes the code panic, a Snapshot can always be
  taken once there is a checkpoint, and restoring it gives it back.
\<close>

section \<open>Snapshots\<close>

lemma less_path_str: "p < q \<longleftrightarrow> path_str p < path_str q"
  by (simp add: less_entry_path_def)

lemma sorted_paths: "sorted_wrt (<) (map loc_path_str ls) \<longleftrightarrow> sorted_wrt (<) (map loc_path ls)"
  by (simp add: sorted_wrt_map loc_path_str_def less_path_str)

lemma distinct_paths: "distinct (map loc_path_str ls) \<longleftrightarrow> distinct (map loc_path ls)"
proof -
  have "map loc_path_str ls = map path_str (map loc_path ls)" by (simp add: loc_path_str_def)
  moreover have "inj_on path_str A" for A by (rule inj_onI) (simp add: entry_path.expand)
  ultimately show ?thesis by (metis distinct_map)
qed

definition snapshot_of :: "index_checkpoint \<Rightarrow> index_state \<Rightarrow> snapshot_content" where
  "snapshot_of at s =
     \<lparr>sn_checkpoint = at, sn_adopted = ix_adopted s, sn_containers = bt_values (ix_containers s),
      sn_entries = bt_values (ix_entries s), sn_library_name = ix_library_name s\<rparr>"

lemma state_snapshot_iff:
  assumes wf: "catalog_wf s" and cp: "ix_checkpoint s = Some at"
  shows "state_snapshot s = Inr (snapshot_of at s)" and "snapshot_ok (snapshot_of at s)"
proof -
  note d = catalog_wfD [OF wf]
  have ids: "sorted (map cid (bt_values (ix_containers s)))" "distinct (map cid (bt_values (ix_containers s)))"
    using keyed_values_sorted [OF d(1)] by (simp_all add: strict_sorted_iff)
  have paths: "sorted_wrt (<) (map loc_path (bt_values (ix_entries s)))" by (rule keyed_values_sorted [OF d(2)])
  then have strs: "sorted (map loc_path_str (bt_values (ix_entries s)))" "distinct (map loc_path_str (bt_values (ix_entries s)))"
    by (simp_all only: sorted_paths [symmetric], simp_all add: strict_sorted_iff)
  have "distinct (map loc_key (bt_values (ix_entries s)))"
    using d(3) sorted_wrt_key_distinct [OF paths] by (simp add: distinct_map stored_def)
  moreover have "loc_container ` set (bt_values (ix_entries s)) \<subseteq> cid ` set (bt_values (ix_containers s))"
    using d(4) by (auto simp: stored_def)
  ultimately have "snapshot_parts_ok (bt_values (ix_containers s)) (bt_values (ix_entries s))"
    using ids(2) strs(2) by (simp add: snapshot_parts_ok_def)
  note parts = ids(1) strs(1) this
  then show "snapshot_ok (snapshot_of at s)" by (simp add: snapshot_ok_def snapshot_of_def)
  have "snapshot_new at (ix_adopted s) (bt_values (ix_containers s)) (bt_values (ix_entries s)) =
      Inr \<lparr>sn_checkpoint = at, sn_adopted = ix_adopted s, sn_containers = bt_values (ix_containers s),
           sn_entries = bt_values (ix_entries s), sn_library_name = None\<rparr>"
    using parts by (simp add: snapshot_new_Ok_iff)
  then show "state_snapshot s = Inr (snapshot_of at s)"
    by (simp add: state_snapshot_def cp snapshot_with_library_name_def snapshot_of_def)
qed

definition restored :: "snapshot_content \<Rightarrow> index_state \<Rightarrow> index_state \<Rightarrow> bool" where
  "restored c s t \<longleftrightarrow>
     catalog_wf t \<and> rows_ok (ix_entries t) (ix_local t) \<and> bt_values (ix_containers t) = sn_containers c \<and>
     bt_values (ix_entries t) = sn_entries c \<and>
     t = s\<lparr>ix_checkpoint := Some (sn_checkpoint c), ix_adopted := sn_adopted c, ix_library_name := sn_library_name c,
            ix_containers := ix_containers t, ix_entries := ix_entries t, ix_local := ix_local t\<rparr>"

lemma state_restore_restored:
  assumes rows: "keyed row_path (ix_local s)" and c: "snapshot_ok c"
  shows "\<exists>t. state_restore c s = Inr t \<and> restored c s t"
proof -
  let ?cs = "sn_containers c" and ?ls = "sn_entries c"
  have parts: "distinct (map cid ?cs)" "distinct (map loc_path ?ls)" "distinct (map loc_key ?ls)"
      "loc_container ` set ?ls \<subseteq> cid ` set ?cs"
    using c distinct_paths [of ?ls] by (simp_all add: snapshot_ok_def snapshot_parts_ok_def)
  have srt: "sorted_wrt (<) (map cid ?cs)" "sorted_wrt (<) (map loc_path ?ls)"
    using c parts(1) distinct_paths [of ?ls] parts(2) unfolding sorted_paths [symmetric]
    by (simp_all add: snapshot_ok_def strict_sorted_iff)
  define cs where "cs = fold (\<lambda>x. bt_insert (cid x) x) ?cs []"
  define es where "es = fold (\<lambda>x. bt_insert (loc_path x) x) ?ls []"
  have cs: "keyed cid cs" "stored cs = set ?cs" using stored_fold_insert [OF keyed_Nil parts(1)] by (simp_all add: cs_def)
  have es: "keyed loc_path es" "stored es = set ?ls" using stored_fold_insert [OF keyed_Nil parts(2)] by (simp_all add: es_def)
  have ins: "try_fold (\<lambda>containers h. insert_container h containers) [] ?cs = Inr cs"
    using insert_containers_Ok_iff [of "[]" ?cs cs] parts cs by simp
  have ine: "try_fold (insert_entry cs) [] ?ls = Inr es"
    using insert_entries_Ok_iff [OF cs(1), of "[]" ?ls es] parts cs es by simp
  have vals: "bt_values cs = ?cs" "bt_values es = ?ls"
    by (rule sorted_wrt_key_equal [OF keyed_values_sorted [OF cs(1)] srt(1)], use cs(2) in \<open>simp add: stored_def\<close>)
      (rule sorted_wrt_key_equal [OF keyed_values_sorted [OF es(1)] srt(2)], use es(2) in \<open>simp add: stored_def\<close>)
  define u where "u = s\<lparr>ix_containers := cs, ix_entries := es, ix_checkpoint := Some (sn_checkpoint c),
                 ix_adopted := sn_adopted c, ix_library_name := sn_library_name c\<rparr>"
  define gone where "gone = filter (\<lambda>(p, _). case bt_get (ix_local u) p of
      Some local \<Rightarrow> \<not> bt_contains (bs_collect (map entry_ref_of (bt_values (ix_entries u)))) (ob_entry (le_observation local))
    | None \<Rightarrow> False) (standing_of s (\<lambda>_. True))"
  define v where "v = carry_over gone (\<lambda>l. \<not> bt_contains (bs_collect (bt_keys (ix_containers s))) (loc_container l)) u"
  have res: "state_restore c s = Inr (reconcile_all v)"
    unfolding state_restore_def ins and_then.simps ine Let_def u_def [symmetric] gone_def [symmetric] v_def ..
  have "distinct (map fst gone)"
    unfolding gone_def using standing_of_get(2) [OF keyed_inv [OF rows]] by (rule distinct_map_filter)
  moreover have "keyed row_path (ix_local u)" using rows by (simp add: u_def)
  ultimately have vk: "keyed row_path (ix_local v)" using carry_fold unfolding v_def carry_over_def by simp
  have ve: "ix_entries (reconcile_all v) = es" "ix_containers (reconcile_all v) = cs" "ix_entries v = es"
    by (simp_all add: reconcile_all_def reconcile_def v_def carry_over_def u_def)
  have "catalog_wf (reconcile_all v)"
    using parts(3,4) cs es by (simp add: catalog_wf_def entries_wf_def ve distinct_map)
  moreover have "rows_ok (ix_entries (reconcile_all v)) (ix_local (reconcile_all v))"
    using reconcile_all_rows_ok [OF vk] by (simp add: ve)
  moreover have "reconcile_all v = s\<lparr>ix_checkpoint := Some (sn_checkpoint c), ix_adopted := sn_adopted c,
      ix_library_name := sn_library_name c, ix_containers := cs, ix_entries := es, ix_local := ix_local (reconcile_all v)\<rparr>"
    by (simp add: reconcile_all_def reconcile_def v_def carry_over_def u_def)
  ultimately have "restored c s (reconcile_all v)" unfolding restored_def ve vals by blast
  with res show ?thesis by blast
qed

lemma restored_snapshot:
  assumes "restored c s t"
  shows "state_snapshot t = Inr c"
proof -
  have t: "t = s\<lparr>ix_checkpoint := Some (sn_checkpoint c), ix_adopted := sn_adopted c, ix_library_name := sn_library_name c,
      ix_containers := ix_containers t, ix_entries := ix_entries t, ix_local := ix_local t\<rparr>" (is "t = ?t")
    using assms by (simp add: restored_def)
  have "ix_checkpoint ?t = Some (sn_checkpoint c)" "ix_adopted ?t = sn_adopted c" "ix_library_name ?t = sn_library_name c"
    by simp_all
  then have f: "ix_checkpoint t = Some (sn_checkpoint c)" "ix_adopted t = sn_adopted c" "ix_library_name t = sn_library_name c"
    by (metis t)+
  then have "snapshot_of (sn_checkpoint c) t = c" using assms by (cases c) (simp add: snapshot_of_def restored_def)
  then show ?thesis using state_snapshot_iff(1) [OF _ f(1)] assms by (simp add: restored_def)
qed

section \<open>The invariant\<close>

definition parcel_key :: "held_parcel \<Rightarrow> container_id \<times> nat" where
  "parcel_key p = (hp_container p, hp_index p)"

definition own_ok :: "index_state \<Rightarrow> bool" where
  "own_ok s \<longleftrightarrow>
     keyed mp_prefix (ix_mappings s) \<and> keyed pr_container (ix_pending s) \<and>
     bt_inv (ix_slots s) \<and> (\<forall>slots \<in> stored (ix_slots s). bt_inv slots) \<and> keyed parcel_key (ix_parcels s) \<and>
     keyed rv_id (ix_reservations s) \<and>
     (\<forall>r \<in> stored (ix_reservations s). bt_inv (rv_paths r) \<and> reservation_num (rv_id r) \<le> ix_next_reservation s)"

definition index_ok :: "index_state \<Rightarrow> bool" where
  "index_ok s \<longleftrightarrow> catalog_wf s \<and> rows_ok (ix_entries s) (ix_local s) \<and> own_ok s"

lemma index_okD:
  assumes "index_ok s"
  shows "catalog_wf s" and "rows_ok (ix_entries s) (ix_local s)" and "own_ok s" and "keyed row_path (ix_local s)"
  using assms by (auto simp: index_ok_def rows_ok_def)

lemma index_default_ok: "index_ok index_default"
  using catalog_wf_default by (simp add: index_ok_def rows_ok_def own_ok_def index_default_def)

text \<open>An operation that leaves the catalog and the rows alone, and one that leaves alone what is not in \<open>own_ok\<close>.\<close>

lemma own_change_ok:
  "index_ok s \<Longrightarrow> ix_containers t = ix_containers s \<Longrightarrow> ix_entries t = ix_entries s \<Longrightarrow> ix_local t = ix_local s \<Longrightarrow>
   own_ok t \<Longrightarrow> index_ok t"
  using catalog_wf_cong [of s t] by (simp add: index_ok_def)

lemma own_ok_cong:
  "ix_mappings t = ix_mappings s \<Longrightarrow> ix_pending t = ix_pending s \<Longrightarrow> ix_slots t = ix_slots s \<Longrightarrow> ix_parcels t = ix_parcels s \<Longrightarrow>
   ix_reservations t = ix_reservations s \<Longrightarrow> ix_next_reservation t = ix_next_reservation s \<Longrightarrow> own_ok t \<longleftrightarrow> own_ok s"
  by (simp add: own_ok_def)

lemma rows_change_ok:
  assumes "index_ok s" and "rows_ok (ix_entries s) rows"
  shows "index_ok (s\<lparr>ix_local := rows\<rparr>)"
  using assms catalog_wf_cong [of s "s\<lparr>ix_local := rows\<rparr>"] own_ok_cong [of s "s\<lparr>ix_local := rows\<rparr>"]
  by (simp add: index_ok_def)

section \<open>The rows' operations\<close>

lemma mark_present_ok:
  assumes "index_ok s"
  shows "index_ok (mark_present ob s)"
proof -
  let ?l = "\<lparr>le_observation = ob, le_state = Present, le_relocate_to = None\<rparr>"
  let ?s = "s\<lparr>ix_local := bt_insert (ob_path ob) ?l (ix_local s)\<rparr>"
  note d = index_okD [OF assms]
  have k: "keyed row_path (ix_local ?s)" using d(4) by (simp add: keyed_insert row_path_def)
  have "rows_ok (ix_entries ?s) (ix_local (reconcile [ob_path ob] ?s))"
    by (rule reconcile_rows_ok [OF k]) (use d(2) keyed_inv [OF d(4)] in \<open>auto simp: rows_ok_get bt_get_insert\<close>)
  then have "index_ok (s\<lparr>ix_local := ix_local (reconcile [ob_path ob] ?s)\<rparr>)" using rows_change_ok [OF assms] by simp
  moreover have "mark_present ob s = s\<lparr>ix_local := ix_local (reconcile [ob_path ob] ?s)\<rparr>"
    unfolding mark_present_def by (subst reconcile_rest) simp
  ultimately show ?thesis by simp
qed

lemma take_rows_get:
  "keyed row_path rows \<Longrightarrow> take_rows moves rows = (taken, rest) \<Longrightarrow>
   keyed row_path rest \<and> (\<forall>p l. bt_get rest p = Some l \<longrightarrow> bt_get rows p = Some l)"
proof (induction moves rows arbitrary: taken rest rule: take_rows.induct)
  case (2 old_path to_path moves rows)
  show ?case
  proof (cases "bt_get rows old_path")
    case None
    then show ?thesis using 2 by simp
  next
    case (Some local)
    obtain taken' where t: "take_rows moves (bt_remove old_path rows) = (taken', rest)"
      using 2(4) Some by (auto simp: Let_def split: prod.splits)
    have "keyed row_path rest \<and> (\<forall>p l. bt_get rest p = Some l \<longrightarrow> bt_get (bt_remove old_path rows) p = Some l)"
      using 2(2) [OF Some keyed_remove [OF 2(3)] t] .
    moreover have "bt_get (bt_remove old_path rows) p = Some l \<Longrightarrow> bt_get rows p = Some l" for p l
      by (simp add: bt_get_remove [OF keyed_inv [OF 2(3)]] split: if_splits)
    ultimately show ?thesis by blast
  qed
qed auto

lemma place_rows_get:
  "keyed row_path rows \<Longrightarrow> keyed row_path (fold place_row taken rows) \<and>
   (\<forall>p. p \<notin> snd ` set taken \<longrightarrow> bt_get (fold place_row taken rows) p = bt_get rows p)"
proof (induction taken arbitrary: rows)
  case (Cons x taken)
  obtain l q where x: "x = (l, q)" by (cases x)
  let ?l = "l\<lparr>le_observation := (le_observation l)\<lparr>ob_path := q\<rparr>\<rparr>"
  have "row_path ?l = q" by (simp add: row_path_def)
  then have "keyed row_path (place_row x rows)" using keyed_insert [OF Cons.prems, of ?l q] by (simp add: place_row_def x)
  moreover have "p \<noteq> snd x \<Longrightarrow> bt_get (place_row x rows) p = bt_get rows p" for p
    using bt_get_insert [OF keyed_inv [OF Cons.prems]] by (simp add: place_row_def x)
  ultimately show ?case using Cons.IH [of "place_row x rows"] by simp
qed simp

lemma relocate_ok:
  assumes "index_ok s"
  shows "index_ok (relocate_local_entries moves s)"
proof -
  note d = index_okD [OF assms]
  obtain taken rest where tr: "take_rows moves (ix_local s) = (taken, rest)" by fastforce
  let ?s = "s\<lparr>ix_local := fold place_row taken rest\<rparr>"
  note t = take_rows_get [OF d(4) tr]
  note p = place_rows_get [of rest taken]
  have "rows_ok (ix_entries ?s) (ix_local (reconcile (map snd taken) ?s))"
    by (rule reconcile_rows_ok) (use d(2) t p in \<open>auto simp: rows_ok_get\<close>)
  then have "index_ok (s\<lparr>ix_local := ix_local (reconcile (map snd taken) ?s)\<rparr>)" using rows_change_ok [OF assms] by simp
  moreover have "relocate_local_entries moves s = s\<lparr>ix_local := ix_local (reconcile (map snd taken) ?s)\<rparr>"
    unfolding relocate_local_entries_def tr Let_def prod.case by (subst reconcile_rest) simp
  ultimately show ?thesis by simp
qed

lemma mark_absent_ok:
  assumes "index_ok s"
  shows "index_ok (mark_absent p at s)"
proof -
  note d = index_okD [OF assms]
  let ?f = "\<lambda>l. l\<lparr>le_state := Absent, le_observation := (le_observation l)\<lparr>ob_at := at\<rparr>\<rparr>"
  have "row_ok es q (?f l) \<longleftrightarrow> row_ok es q l" for es q l
    by (cases l) (auto simp: row_ok_def settle_def split: option.splits)
  then have "rows_ok (ix_entries s) (bt_update p ?f (ix_local s))"
    using d(2) by (auto simp: rows_ok_get bt_get_update row_path_def intro!: keyed_update split: if_splits)
  then show ?thesis using rows_change_ok [OF assms] by (simp add: mark_absent_def)
qed

lemma forget_ok:
  assumes "index_ok s"
  shows "index_ok (forget_local_entry p s)"
proof -
  note d = index_okD [OF assms]
  have "rows_ok (ix_entries s) (bt_remove p (ix_local s))"
    using d(2) by (auto simp: rows_ok_get bt_get_remove keyed_inv intro: keyed_remove split: if_splits)
  then show ?thesis using rows_change_ok [OF assms] by (simp add: forget_local_entry_def)
qed

section \<open>The device's own tables\<close>

lemma own_okD:
  assumes "own_ok s"
  shows "keyed mp_prefix (ix_mappings s)" and "keyed pr_container (ix_pending s)" and "bt_inv (ix_slots s)"
    and "\<forall>slots \<in> stored (ix_slots s). bt_inv slots" and "keyed parcel_key (ix_parcels s)" and "keyed rv_id (ix_reservations s)"
    and "\<forall>r \<in> stored (ix_reservations s). bt_inv (rv_paths r) \<and> reservation_num (rv_id r) \<le> ix_next_reservation s"
  using assms by (simp_all add: own_ok_def)

lemma stored_remove_subset: "bt_inv m \<Longrightarrow> v \<in> stored (bt_remove k m) \<Longrightarrow> v \<in> stored m"
  by (auto simp: stored_def bt_values_def bt_remove_def)

lemma stored_update: "keyed f m \<Longrightarrow> v \<in> stored (bt_update k g m) \<Longrightarrow> \<exists>w \<in> stored m. v = w \<or> v = g w"
  by (force simp: stored_def bt_values_def bt_update_def)

lemma stored_insert_subset: "bt_inv m \<Longrightarrow> v \<in> stored (bt_insert k x m) \<Longrightarrow> v = x \<or> v \<in> stored m"
  by (auto simp: stored_iff bt_inv_insert bt_get_insert split: if_splits)

lemma own_ok_tables:
  assumes "own_ok s"
  shows "own_ok (set_mapping m s)" and "own_ok (record_pending_row pr s)" and "own_ok (mark_spooled c s)"
    and "own_ok (hold_parcel hp s)" and "own_ok (let_go_parcel c i s)" and "own_ok (release_reservation rid s)"
    and "own_ok (mark_received rid s)" and "own_ok (extend_reservation rid p s)"
proof -
  note d = own_okD [OF assms]
  show "own_ok (set_mapping m s)" "own_ok (record_pending_row pr s)" "own_ok (mark_spooled c s)"
    using d by (simp_all add: own_ok_def set_mapping_def record_pending_row_def mark_spooled_def keyed_insert keyed_update)
  show "own_ok (hold_parcel hp s)" "own_ok (let_go_parcel c i s)"
    using d keyed_insert [OF d(5), of hp "(hp_container hp, hp_index hp)"] keyed_remove [OF d(5)]
    by (simp_all add: own_ok_def hold_parcel_def let_go_parcel_def parcel_key_def)
  show "own_ok (release_reservation rid s)"
    using d stored_remove_subset [OF keyed_inv [OF d(6)]] by (auto simp: own_ok_def release_reservation_def keyed_remove)
  show "own_ok (mark_received rid s)" "own_ok (extend_reservation rid p s)"
    using d by (auto simp: own_ok_def mark_received_def extend_reservation_def keyed_update bs_inv_insert dest!: stored_update [OF d(6)])
qed

lemma own_ok_attempt:
  assumes "own_ok s"
  shows "own_ok (attempt_step slot c s)"
proof -
  note d = own_okD [OF assms]
  show ?thesis
  proof (cases "bt_get (ix_pending s) c")
    case None
    then show ?thesis using assms by (simp add: attempt_step_def)
  next
    case (Some pending)
    define slots where "slots = (case bt_get (ix_slots s) (pr_batch pending) of Some found \<Rightarrow> found | None \<Rightarrow> [])"
    have "bt_inv (bs_insert slot slots)"
      using d(4) stored_iff [OF d(3)] by (auto simp: slots_def intro!: bs_inv_insert split: option.splits)
    then have "\<forall>v \<in> stored (bt_insert (pr_batch pending) (bs_insert slot slots) (ix_slots s)). bt_inv v"
      using d(4) stored_insert_subset [OF d(3)] by blast
    then show ?thesis using d Some
      by (simp add: own_ok_def attempt_step_def Let_def slots_def [symmetric] keyed_update bt_inv_insert)
  qed
qed

lemma own_ok_attempts: "own_ok s \<Longrightarrow> own_ok (mark_commit_attempted cs slot s)"
  unfolding mark_commit_attempted_def by (induction cs arbitrary: s) (simp_all add: own_ok_attempt)

lemma own_ok_clear: "own_ok s \<Longrightarrow> own_ok (clear_pending_row c s)"
  using stored_remove_subset [of "ix_slots s"]
  by (auto simp: own_ok_def clear_pending_row_def Let_def keyed_remove bt_inv_remove split: option.splits)

lemma own_ok_reserve:
  assumes "own_ok s" and "ix_next_reservation s + 1 < 2 ^ 64"
  shows "own_ok (fst (reserve folder s))"
proof -
  note d = own_okD [OF assms(1)]
  have n: "wadd64 (ix_next_reservation s) 1 = ix_next_reservation s + 1" using assms(2) by (rule wadd64_small)
  show ?thesis
    using d stored_insert_subset [OF keyed_inv [OF d(6)]] unfolding own_ok_def reserve_def Let_def fst_conv n
    by (fastforce simp: keyed_insert)
qed

text \<open>A reservation is given an id no other has.\<close>

lemma reserve_fresh:
  assumes "own_ok s" and "ix_next_reservation s + 1 < 2 ^ 64" and "reserve folder s = (t, i)"
  shows "bt_get (ix_reservations s) i = None" and "bt_get (ix_reservations t) =
    (bt_get (ix_reservations s))(i \<mapsto> \<lparr>rv_id = i, rv_folder = folder, rv_paths = [], rv_received = False\<rparr>)"
proof -
  note d = own_okD [OF assms(1)]
  have n: "wadd64 (ix_next_reservation s) 1 = ix_next_reservation s + 1" using assms(2) by (rule wadd64_small)
  have i: "reservation_num i = ix_next_reservation s + 1" using assms(3) n by (auto simp: reserve_def Let_def)
  show "bt_get (ix_reservations s) i = None"
  proof (rule ccontr)
    assume "bt_get (ix_reservations s) i \<noteq> None"
    then obtain r where "r \<in> stored (ix_reservations s)" "rv_id r = i" by (auto simp: keyed_get [OF d(6)])
    with d(7) i show False by fastforce
  qed
  show "bt_get (ix_reservations t) =
    (bt_get (ix_reservations s))(i \<mapsto> \<lparr>rv_id = i, rv_folder = folder, rv_paths = [], rv_received = False\<rparr>)"
    using assms(3) bt_get_insert [OF keyed_inv [OF d(6)]] by (auto simp: reserve_def Let_def)
qed

section \<open>The operations of the port\<close>

inductive index_step :: "index_state \<Rightarrow> index_state \<Rightarrow> bool" where
  restoring: "snapshot_ok c \<Longrightarrow> index_step s (fst (index_restore c s))"
| applying: "record_ok r \<Longrightarrow> index_apply r s = Some (t, outcome) \<Longrightarrow> index_step s t"
| refreshing: "record_ok (cb_record b) \<Longrightarrow> index_refresh b s = Some (t, outcome) \<Longrightarrow> index_step s t"
| completing: "index_step s (fst (index_complete_applied b s))"
| mapping_set: "index_step s (set_mapping m s)"
| marking_present: "index_step s (mark_present ob s)"
| marking_absent: "index_step s (mark_absent p at s)"
| forgetting: "index_step s (forget_local_entry p s)"
| relocating: "index_step s (relocate_local_entries moves s)"
| recording: "index_step s (record_pending_row pr s)"
| spooling: "index_step s (mark_spooled c s)"
| attempting: "index_step s (mark_commit_attempted cs slot s)"
| clearing: "index_step s (clear_pending_row c s)"
| holding: "index_step s (hold_parcel hp s)"
| letting_go: "index_step s (let_go_parcel c i s)"
| reserving: "ix_next_reservation s + 1 < 2 ^ 64 \<Longrightarrow> index_step s (fst (reserve folder s))"
| extending: "index_step s (extend_reservation rid p s)"
| receiving: "index_step s (mark_received rid s)"
| releasing: "index_step s (release_reservation rid s)"

abbreviation index_reachable :: "index_state \<Rightarrow> bool" where
  "index_reachable s \<equiv> index_step\<^sup>*\<^sup>* index_default s"

lemma own_step_ok:
  assumes "index_ok s"
  shows "index_ok (set_mapping m s)" and "index_ok (record_pending_row pr s)" and "index_ok (mark_spooled c s)"
    and "index_ok (mark_commit_attempted cs slot s)" and "index_ok (clear_pending_row c s)" and "index_ok (hold_parcel hp s)"
    and "index_ok (let_go_parcel c i s)" and "index_ok (extend_reservation rid p s)" and "index_ok (mark_received rid s)"
    and "index_ok (release_reservation rid s)"
    and "ix_next_reservation s + 1 < 2 ^ 64 \<Longrightarrow> index_ok (fst (reserve folder s))"
proof -
  note own = index_okD(3) [OF assms] and change = own_change_ok [OF assms]
  note tables = own_ok_tables [OF own]
  show "index_ok (set_mapping m s)" by (rule change) (use tables in \<open>simp_all add: set_mapping_def\<close>)
  show "index_ok (record_pending_row pr s)" by (rule change) (use tables in \<open>simp_all add: record_pending_row_def\<close>)
  show "index_ok (mark_spooled c s)" by (rule change) (use tables in \<open>simp_all add: mark_spooled_def\<close>)
  show "index_ok (hold_parcel hp s)" by (rule change) (use tables in \<open>simp_all add: hold_parcel_def\<close>)
  show "index_ok (let_go_parcel c i s)" by (rule change) (use tables in \<open>simp_all add: let_go_parcel_def\<close>)
  show "index_ok (extend_reservation rid p s)" by (rule change) (use tables in \<open>simp_all add: extend_reservation_def\<close>)
  show "index_ok (mark_received rid s)" by (rule change) (use tables in \<open>simp_all add: mark_received_def\<close>)
  show "index_ok (release_reservation rid s)" by (rule change) (use tables in \<open>simp_all add: release_reservation_def\<close>)
  show "index_ok (clear_pending_row c s)"
    by (rule change) (use own_ok_clear [OF own] in \<open>simp_all add: clear_pending_row_def Let_def split: option.splits\<close>)
  show "index_ok (fst (reserve folder s))" if "ix_next_reservation s + 1 < 2 ^ 64"
    by (rule change) (use own_ok_reserve [OF own that] in \<open>simp_all add: reserve_def Let_def\<close>)
  have "ix_containers (fold (attempt_step slot) cs t) = ix_containers t \<and> ix_entries (fold (attempt_step slot) cs t) = ix_entries t \<and>
      ix_local (fold (attempt_step slot) cs t) = ix_local t" for t
    by (induction cs arbitrary: t) (simp_all add: attempt_step_def Let_def split: option.splits)
  then show "index_ok (mark_commit_attempted cs slot s)"
    by (intro change own_ok_attempts [OF own]) (simp_all add: mark_commit_attempted_def)
qed

lemma fold_index_ok: "(\<And>x s. index_ok s \<Longrightarrow> index_ok (f x s)) \<Longrightarrow> index_ok s \<Longrightarrow> index_ok (fold f xs s)"
  by (induction xs arbitrary: s) simp_all

lemma complete_batch_ok: "index_ok s \<Longrightarrow> index_ok (complete_batch cs materialized released s)"
  unfolding complete_batch_def by (intro fold_index_ok own_step_ok mark_present_ok)

lemma applied_ok:
  assumes "index_ok s" and "applied r s t"
  shows "index_ok t"
proof -
  have "t = (name_taken r s)\<lparr>ix_containers := ix_containers t, ix_entries := ix_entries t, ix_local := ix_local t,
      ix_checkpoint := Some (record_checkpoint r)\<rparr>" (is "t = ?t") using assms(2) by (simp add: applied_def)
  moreover have "own_ok ?t \<longleftrightarrow> own_ok s" by (rule own_ok_cong) (simp_all add: name_taken_def split: option.splits)
  ultimately show ?thesis using assms by (metis applied_def index_ok_def)
qed

lemma restored_ok:
  assumes "index_ok s" and "restored c s t"
  shows "index_ok t"
proof -
  have "t = s\<lparr>ix_checkpoint := Some (sn_checkpoint c), ix_adopted := sn_adopted c, ix_library_name := sn_library_name c,
      ix_containers := ix_containers t, ix_entries := ix_entries t, ix_local := ix_local t\<rparr>" (is "t = ?t")
    using assms(2) by (simp add: restored_def)
  moreover have "own_ok ?t \<longleftrightarrow> own_ok s" by (rule own_ok_cong) simp_all
  ultimately show ?thesis using assms by (metis restored_def index_ok_def)
qed

lemma index_apply_exact:
  assumes "index_ok s" and "record_ok r"
  obtains t where "index_apply r s = Some (t, Ok ())" and "index_fits r s" and "applied r s t"
  | e where "index_apply r s = Some (s, Err e)" and "\<not> index_fits r s"
proof -
  obtain res where res: "state_apply r s = Some res" and fit: "(\<exists>t. res = Inr t) \<longleftrightarrow> index_fits r s"
    and t: "\<And>t. res = Inr t \<Longrightarrow> applied r s t"
    using state_apply_exact [OF index_okD(1,4) [OF assms(1)] assms(2)] by blast
  show thesis
  proof (cases res)
    case (Inl e)
    with res fit show thesis using that(2) [of e] by (simp add: index_apply_def index_write_def)
  next
    case (Inr u)
    with res fit t show thesis using that(1) [of u] by (simp add: index_apply_def index_write_def)
  qed
qed

lemma index_step_ok: "index_step s t \<Longrightarrow> index_ok s \<Longrightarrow> index_ok t"
proof (induction rule: index_step.induct)
  case (restoring c s)
  obtain t where t: "state_restore c s = Inr t" "restored c s t"
    using state_restore_restored [OF index_okD(4) [OF restoring(2)] restoring(1)] by blast
  show ?case using restored_ok [OF restoring(2) t(2)] by (simp add: index_restore_def index_write_def t(1))
next
  case (applying r s t outcome)
  show ?case
    by (rule index_apply_exact [OF applying(3,1)]) (use applying applied_ok in auto)
next
  case (refreshing b s t outcome)
  obtain res where res: "state_apply (cb_record b) s = Some res" and a: "\<And>t. res = Inr t \<Longrightarrow> applied (cb_record b) s t"
    using state_apply_exact [OF index_okD(1,4) [OF refreshing(3)] refreshing(1)] by blast
  show ?case
  proof (cases res)
    case (Inl e)
    with res refreshing show ?thesis by (simp add: index_refresh_def state_refresh_def index_write_def)
  next
    case (Inr u)
    then have "index_ok u" using a applied_ok [OF refreshing(3)] by blast
    with Inr res refreshing show ?thesis
      by (auto simp: index_refresh_def state_refresh_def index_write_def intro: complete_batch_ok)
  qed
next
  case (completing s b)
  then show ?case by (simp add: index_complete_applied_def index_write_def complete_applied_def complete_batch_ok)
qed (simp_all add: own_step_ok mark_present_ok mark_absent_ok forget_ok relocate_ok)

lemma index_reachable_ok: "index_reachable s \<Longrightarrow> index_ok s"
  by (induction rule: rtranclp_induct) (auto simp: index_default_ok intro: index_step_ok)

section \<open>What a row says\<close>

lemma standing_entry_at:
  assumes "catalog_wf s"
  shows "bt_get (standing (ix_entries s)) k = Some q \<longleftrightarrow> (\<exists>e. entry_at s q = Some e \<and> entry_ref_of e = k)"
  using catalog_wfD(2,3) [OF assms] by (auto simp: standing_get entry_at_def keyed_get)

lemma row_ok_relocate:
  assumes "row_ok es p l"
  shows "le_relocate_to l = Option.bind (bt_get (standing es) (ob_entry (le_observation l))) (\<lambda>at. if at \<noteq> p then Some at else None)"
proof -
  have "(l\<lparr>le_relocate_to := x\<rparr> = l) = (le_relocate_to l = x)" for x by (cases l) auto
  with assms show ?thesis
    by (cases "bt_get (standing es) (ob_entry (le_observation l))") (auto simp: row_ok_def settle_def split: if_splits)
qed

lemma row_relocates_iff:
  assumes "index_ok s" and "bt_get (ix_local s) p = Some l"
  shows "le_relocate_to l = Some q \<longleftrightarrow>
    q \<noteq> p \<and> (\<exists>e. entry_at s q = Some e \<and> entry_ref_of e = ob_entry (le_observation l))"
proof -
  note d = index_okD [OF assms(1)]
  have "row_ok (ix_entries s) p l" using d(2) assms(2) by (simp add: rows_ok_get)
  then have "le_relocate_to l = Some q \<longleftrightarrow>
      q \<noteq> p \<and> bt_get (standing (ix_entries s)) (ob_entry (le_observation l)) = Some q"
    by (auto simp: row_ok_relocate bind_eq_Some_conv split: if_splits)
  then show ?thesis unfolding standing_entry_at [OF d(1)] .
qed

lemma row_copy_iff:
  assumes "index_ok s" and "bt_get (ix_local s) p = Some l" and "entry_at s p = Some e"
  shows "is_copy_of l e \<longleftrightarrow> \<not> awaits_relocation l"
proof -
  note d = index_okD [OF assms(1)]
  have r: "row_ok (ix_entries s) p l" using d(2) assms(2) by (simp add: rows_ok_get)
  have "ob_entry (le_observation l) = entry_ref_of e" if "\<not> awaits_relocation l"
  proof (cases "bt_get (standing (ix_entries s)) (ob_entry (le_observation l))")
    case None
    moreover have "bt_contains (ix_entries s) p" using assms(3) by (simp add: bt_contains_def entry_at_def)
    ultimately show ?thesis using r by (simp add: row_ok_def settle_def)
  next
    case (Some q)
    then have "q = p" using row_ok_relocate [OF r] that by (auto simp: awaits_relocation_def split: if_splits)
    with Some show ?thesis using standing_entry_at [OF d(1)] assms(3) by auto
  qed
  then show ?thesis by (auto simp: is_copy_of_def)
qed

text \<open>Where an Entry that is current goes under a record, and under which reference.\<close>

lemma applied_entry_at:
  assumes "index_ok s" and "applied r s t"
  shows "entry_at t q = Some e \<longleftrightarrow> e \<in> entries_after r (stored (ix_entries s)) \<and> loc_path e = q"
  using assms(2) keyed_get [OF catalog_wfD(2), of t q e] by (simp add: applied_def entry_at_def)

lemma row_follows_entry:
  assumes ok: "index_ok s" and a: "applied r s t" and row: "bt_get (ix_local s) p = Some l"
    and e: "entry_at s q = Some e" "entry_ref_of e = ob_entry (le_observation l)" and kept: "loc_container e \<notin> set (jr_removals r)"
  shows "bt_get (ix_local t) p = Some (l\<lparr>le_relocate_to :=
    (if loc_path (moved_by (jr_renames r) e) \<noteq> p then Some (loc_path (moved_by (jr_renames r) e)) else None)\<rparr>)"
proof -
  note d = index_okD [OF ok]
  let ?m = "moved_by (jr_renames r) e"
  have E: "e \<in> entries_kept r (stored (ix_entries s))"
    using e(1) kept keyed_get [OF catalog_wfD(2) [OF d(1)]] by (simp add: entry_at_def entries_kept_def)
  have wft: "catalog_wf t" using a by (simp add: applied_def)
  have "entry_at t (loc_path ?m) = Some ?m" using applied_entry_at [OF ok a] E by (auto simp: entries_after_def)
  then have st: "bt_get (standing (ix_entries t)) (ob_entry (le_observation l)) = Some (loc_path ?m)"
    using standing_entry_at [OF wft] e(2) by auto
  have "fst (ob_entry (le_observation l)) \<notin> set (jr_removals r)" using e(2) kept by (metis entry_ref_keys(1) fst_conv loc_key_def)
  then have "map_of (rows_stood r s) p = None"
    unfolding rows_stood_def standing_of_get(1) [OF keyed_inv [OF d(4)]] row by simp
  then show ?thesis using a row st by (simp add: applied_def row_after_def followed_def settle_def)
qed

lemma row_follows_successor:
  assumes ok: "index_ok s" and a: "applied r s t" and row: "bt_get (ix_local s) p = Some l"
    and e: "entry_at s q = Some e" "entry_ref_of e = ob_entry (le_observation l)" and gone: "loc_container e \<in> set (jr_removals r)"
    and new: "entry_at t q = Some f" "added_by r f"
  shows "bt_get (ix_local t) p = Some (l\<lparr>le_observation := (le_observation l)\<lparr>ob_entry := entry_ref_of f\<rparr>,
    le_relocate_to := (if q \<noteq> p then Some q else None)\<rparr>)"
proof -
  note d = index_okD [OF ok]
  have wft: "catalog_wf t" using a by (simp add: applied_def)
  have "bt_get (standing (ix_entries s)) (ob_entry (le_observation l)) = Some q"
    using standing_entry_at [OF d(1)] e by auto
  moreover have "fst (ob_entry (le_observation l)) \<in> set (jr_removals r)" using e(2) gone by (metis entry_ref_keys(1) fst_conv loc_key_def)
  ultimately have "map_of (rows_stood r s) p = Some q"
    unfolding rows_stood_def standing_of_get(1) [OF keyed_inv [OF d(4)]] row by simp
  moreover have "bt_get (ix_entries t) q = Some f" using new(1) by (simp add: entry_at_def)
  moreover have "bt_get (standing (ix_entries t)) (entry_ref_of f) = Some q"
    using standing_entry_at [OF wft] new(1) by auto
  ultimately show ?thesis using a row new(2) by (simp add: applied_def row_after_def followed_def settle_def)
qed

end
