(* ===== verification/Commit_Ports.thy ===== *)
theory Commit_Ports
  imports Retry Control_Objects Index_Steps
begin

text \<open>
  What every step of \<open>commit\<close> takes: its errors (\<open>commit_error\<close>, \<open>pending_change.rs\<close>, \<open>rebase_rule.rs\<close>), the
  methods of \<open>dyn Index\<close> it calls, its keys (\<open>control_keys.rs\<close>) and policy (\<open>commit_policy.rs\<close>), and reading or
  sealing one control object (\<open>control_object.rs\<close>). The lemmas say that a control object is drained only up to
  what its name admits, and that what opens is of a kind the name admits, at the name's generation.
\<close>

section \<open>Errors\<close>

datatype pending_change = PendingAddition entry_ref | PendingRename entry_ref

datatype rebase_rule = RenamedOntoAddedPath | RenamedEntryReplaced | RenamedEntryRenamed | DestinationTaken

datatype control_object_fault =
    Unopenable format_error
  | FaultKindNotAdmitted control_object_kind
  | GenerationMismatch generation
  | NoCommitSlot
  | MintedCommitSlot

datatype (plugins only: code) commit_error =
    Storage store_error
  | IndexFailed index_error
  | FormatFailed format_error
  | EntryPathCollision entry_path
  | RemovalNotCurrent "container_id list"
  | RebaseConflict pending_change generation rebase_rule entry_path
  | CommitRenameRefused nat rename_rule
  | UnmappedContainer container_id
  | KeyringUnreadable generation nat unusable_replica
  | IncompleteKeyring generation nat unusable_replica
  | UnrepairedKeyring generation "nat list" "nat list" nat unrepaired_replica
  | ConflictLimitReached nat
  | MissingHead generation
  | FirstHeadUnlisted
  | DuplicateControlObject control_object_name object_ref object_ref
  | EpochActivated generation
  | UnwritableControlValue model_error
  | CorruptControlObject control_object_name control_object_fault
  and unusable_replica =
    ReplicaAbsent
  | Unfetchable commit_error
  | Unreadable commit_error
  | ReplicaKindNotAdmitted control_object_kind
  | DigestMismatch string string
  and unrepaired_replica =
    RepairUnfetchable commit_error
  | Unwritten commit_error
  | Unconfirmed unusable_replica

text \<open>\<open>From<coffret_model::Error>\<close>.\<close>

definition commit_model :: "model_error \<Rightarrow> commit_error" where
  "commit_model e = Storage (StoreModel e)"

definition is_storage_not_found :: "commit_error \<Rightarrow> bool" where
  "is_storage_not_found e \<longleftrightarrow> (case e of Storage s \<Rightarrow> is_not_found s | _ \<Rightarrow> False)"

section \<open>What a step takes\<close>

record 'w index_port =
  ip_checkpoint :: "('w, index_error, index_checkpoint option) action"
  ip_restore :: "snapshot_content \<Rightarrow> ('w, index_error, unit) action"
  ip_apply :: "journal_record \<Rightarrow> ('w, index_error, unit) action"
  ip_refresh :: "committed_batch \<Rightarrow> ('w, index_error, unit) action"
  ip_complete_applied :: "committed_batch \<Rightarrow> ('w, index_error, unit) action"
  ip_snapshot :: "('w, index_error, snapshot_content) action"
  ip_entries_under :: "entry_path option \<Rightarrow> ('w, index_error, entry_location list) action"
  ip_containers_under :: "entry_path option \<Rightarrow> ('w, index_error, container_summary list) action"
  ip_mark_commit_attempted :: "container_id list \<Rightarrow> attempted_slot \<Rightarrow> ('w, index_error, unit) action"

text \<open>The libraries the format is read and written with.\<close>

record libraries =
  lb_cbor :: cbor_lib
  lb_serde :: "cbor \<Rightarrow> cbor_failure + wire_catalog_entry"
  lb_nfc :: "string \<Rightarrow> bool"
  lb_aead :: aead
  lb_blake3 :: "byte list \<Rightarrow> byte list"

record 'w ports =
  po_store :: "'w object_store"
  po_index :: "'w index_port"
  po_system :: "'w system"
  po_lib :: libraries

record control_keys =
  ck_epoch :: master_key_epoch
  ck_journal :: purpose_key
  ck_keyring :: purpose_key
  ck_index_snapshot :: purpose_key
  ck_activation_snapshot :: purpose_key

definition control_keys_derive ::
  "(byte list \<Rightarrow> string \<Rightarrow> byte list) \<Rightarrow> byte list \<Rightarrow> master_key_epoch \<Rightarrow> control_keys" where
  "control_keys_derive hkdf master_key e =
     \<lparr>ck_epoch = e, ck_journal = derive hkdf master_key ControlJournal,
      ck_keyring = derive hkdf master_key ControlKeyring,
      ck_index_snapshot = derive hkdf master_key ControlIndexSnapshot,
      ck_activation_snapshot = derive hkdf master_key ControlActivationSnapshot\<rparr>"

fun of_kind :: "control_keys \<Rightarrow> control_object_kind \<Rightarrow> purpose_key" where
  "of_kind keys Journal = ck_journal keys"
| "of_kind keys Keyring = ck_keyring keys"
| "of_kind keys IndexSnapshot = ck_index_snapshot keys"
| "of_kind keys ActivationSnapshot = ck_activation_snapshot keys"

record commit_policy =
  py_replica_count :: nat
  py_checkpoint_threshold :: nat
  py_attempts :: nat
  py_retry :: retry_policy

definition policy_default :: commit_policy where
  "policy_default = \<lparr>py_replica_count = 3, py_checkpoint_threshold = 64, py_attempts = 5, py_retry = retry_default\<rparr>"

definition policy_with_replica_count :: "nat \<Rightarrow> commit_policy \<Rightarrow> commit_policy" where
  "policy_with_replica_count n p = p\<lparr>py_replica_count := n\<rparr>"

definition policy_with_checkpoint_threshold :: "nat \<Rightarrow> commit_policy \<Rightarrow> commit_policy" where
  "policy_with_checkpoint_threshold n p = p\<lparr>py_checkpoint_threshold := n\<rparr>"

text \<open>\<open>assert!(attempts >= 1)\<close>.\<close>

definition policy_with_attempts :: "nat \<Rightarrow> commit_policy \<Rightarrow> commit_policy option" where
  "policy_with_attempts n p = (if n \<ge> 1 then Some (p\<lparr>py_attempts := n\<rparr>) else None)"

definition policy_with_retry :: "retry_policy \<Rightarrow> commit_policy \<Rightarrow> commit_policy" where
  "policy_with_retry r p = p\<lparr>py_retry := r\<rparr>"

section \<open>One control object\<close>

definition fetch_object ::
  "'w ports \<Rightarrow> retry_policy \<Rightarrow> control_object_name \<Rightarrow> object_ref \<Rightarrow> ('w, store_error, byte list) action" where
  "fetch_object P retry name object =
     act (retry_run (po_system P) retry (store_get (po_store P) object None)) (\<lambda>stream.
       yields (into_bytes_within (max_control_object_len_at name) stream))"

definition open_object :: "'w ports \<Rightarrow> control_keys \<Rightarrow> control_object_name \<Rightarrow> byte list \<Rightarrow> commit_error + decoded_control_object" where
  "open_object P keys name bytes =
     and_then (map_err FormatFailed (control_header_parse bytes)) (\<lambda>header.
       map_err FormatFailed
         (decode_control_object (lb_cbor (po_lib P)) (lb_aead (po_lib P)) bytes (show_name name)
            (of_kind keys (ch_kind header))))"

definition read_object ::
  "'w ports \<Rightarrow> retry_policy \<Rightarrow> control_keys \<Rightarrow> control_object_name \<Rightarrow> object_ref \<Rightarrow>
   ('w, commit_error, decoded_control_object) action" where
  "read_object P retry keys name object =
     act (erring Storage (fetch_object P retry name object)) (\<lambda>bytes. yields (open_object P keys name bytes))"

definition fetch_header :: "'w ports \<Rightarrow> retry_policy \<Rightarrow> object_ref \<Rightarrow> ('w, commit_error, control_header) action" where
  "fetch_header P retry object =
     act (erring Storage (retry_run (po_system P) retry (store_get (po_store P) object (Some (0, control_header_len))))) (\<lambda>stream.
     act (yields (map_err Storage (collect_front control_header_len stream))) (\<lambda>front.
       yields (map_err FormatFailed (control_header_parse front))))"

text \<open>\<open>encode_control_object\<close> with the nonce it draws from the operating system.\<close>

definition drawn_nonce :: "'w system \<Rightarrow> ('w, commit_error, format_error + byte list) action" where
  "drawn_nonce Y = (\<lambda>w. case sys_fill Y nonce_len w of (w, bytes) \<Rightarrow> Some (w, Ok (ok_or EntropyUnavailable bytes)))"

definition seal_object ::
  "'w ports \<Rightarrow> control_keys \<Rightarrow> control_object_name \<Rightarrow> control_object_kind \<Rightarrow> control_payload \<Rightarrow>
   ('w, commit_error, byte list) action" where
  "seal_object P keys name k payload =
     act (drawn_nonce (po_system P)) (\<lambda>drawn.
       yields (map_err FormatFailed (map_sum id fst
         (encode_control_object (lb_cbor (po_lib P)) (lb_aead (po_lib P)) drawn name k (of_kind keys k) payload))))"

section \<open>What is read\<close>

lemma name_ok_show: "name_ok n \<Longrightarrow> name_ok m \<Longrightarrow> show_name n = show_name m \<Longrightarrow> n = m"
  by (metis control_name.dec_Inr_iff Inr_inject)

lemma open_object_named:
  assumes "open_object P keys name bytes = Inr d" and "name_ok name"
  shows "admits name (dc_kind d)" and "dc_generation d = name_generation name"
    and "length bytes \<le> max_control_object_len (dc_kind d)" and "pk_purpose (of_kind keys (dc_kind d)) = of_control_object (dc_kind d)"
proof -
  obtain h where h: "control_header_parse bytes = Inr h"
    and dec: "decode_control_object (lb_cbor (po_lib P)) (lb_aead (po_lib P)) bytes (show_name name)
      (of_kind keys (ch_kind h)) = Inr d"
    using assms(1) by (auto simp: open_object_def res_simps)
  obtain n h' where n: "show_name name = show_name n" "name_ok n" and h': "control_header_parse bytes = Inr h'"
    and r: "admits n (dc_kind d)" "name_generation n = dc_generation d" "dc_kind d = ch_kind h'"
      "pk_purpose (of_kind keys (ch_kind h)) = of_control_object (dc_kind d)"
      "length bytes \<le> max_control_object_len (dc_kind d)"
    by (rule decode_control_object_name [OF dec]) blast
  have "n = name" using name_ok_show [OF n(2) assms(2)] n(1) by simp
  moreover have "h' = h" using h h' by simp
  ultimately show "admits name (dc_kind d)" and "dc_generation d = name_generation name"
    and "length bytes \<le> max_control_object_len (dc_kind d)" and "pk_purpose (of_kind keys (dc_kind d)) = of_control_object (dc_kind d)"
    using r by auto
qed

end
