(* ===== verification/Library_History.thy ===== *)
theory Library_History
  imports Index_Steps
begin

text \<open>
  The Library a history of Journal records makes, apart from any device: a checkpoint, the current Containers and
  Entries as sets, and a name. \<open>library_after rs k\<close> is the Library its first \<open>k\<close> records leave, and \<open>history_ok rs\<close>
  says that every record of \<open>rs\<close> applies where it stands. An Index is a refinement of it: applying the next record, or
  restoring a Snapshot, takes the view of the Index to the next Library or to the one the Snapshot is of.
\<close>

record library =
  lb_at :: "index_checkpoint option"
  lb_containers :: "container_summary set"
  lb_entries :: "entry_location set"
  lb_name :: "library_name option"

definition library_empty :: library where
  "library_empty = \<lparr>lb_at = None, lb_containers = {}, lb_entries = {}, lb_name = None\<rparr>"

definition advance :: "journal_record \<Rightarrow> library \<Rightarrow> library" where
  "advance r L =
     \<lparr>lb_at = Some (record_checkpoint r), lb_containers = containers_after r (lb_containers L),
      lb_entries = entries_after r (lb_entries L),
      lb_name = (case jr_library_name r of Some n \<Rightarrow> Some n | None \<Rightarrow> lb_name L)\<rparr>"

definition library_after :: "journal_record list \<Rightarrow> nat \<Rightarrow> library" where
  "library_after rs k = foldl (\<lambda>L r. advance r L) library_empty (take k rs)"

definition record_fits :: "journal_record \<Rightarrow> library \<Rightarrow> bool" where
  "record_fits r L \<longleftrightarrow> record_ok r \<and> fits r (lb_containers L) (lb_entries L)"

definition history_ok :: "journal_record list \<Rightarrow> bool" where
  "history_ok rs \<longleftrightarrow>
     length rs \<le> max_format_integer \<and>
     (\<forall>i < length rs. jr_generation (rs ! i) = Generation i \<and> record_fits (rs ! i) (library_after rs i))"

definition view_of :: "index_state \<Rightarrow> library" where
  "view_of s = \<lparr>lb_at = ix_checkpoint s, lb_containers = stored (ix_containers s), lb_entries = stored (ix_entries s),
                lb_name = ix_library_name s\<rparr>"

definition content_view :: "snapshot_content \<Rightarrow> library" where
  "content_view c = \<lparr>lb_at = Some (sn_checkpoint c), lb_containers = set (sn_containers c), lb_entries = set (sn_entries c),
                     lb_name = sn_library_name c\<rparr>"

lemma library_after_0 [simp]: "library_after rs 0 = library_empty"
  by (simp add: library_after_def)

lemma library_after_Suc: "k < length rs \<Longrightarrow> library_after rs (Suc k) = advance (rs ! k) (library_after rs k)"
  by (simp add: library_after_def take_Suc_conv_app_nth)

lemma library_after_append: "k \<le> length rs \<Longrightarrow> library_after (rs @ ss) k = library_after rs k"
  by (simp add: library_after_def)

lemma library_at:
  assumes "history_ok rs" and "k \<le> length rs"
  shows "map_option cp_head (lb_at (library_after rs k)) = (if k = 0 then None else Some (Generation (k - 1)))"
proof (cases k)
  case (Suc i)
  then have "jr_generation (rs ! i) = Generation i" using assms by (simp add: history_ok_def)
  then show ?thesis using Suc assms(2) by (simp add: library_after_Suc advance_def record_checkpoint_def at_head_def)
qed (simp add: library_empty_def)

lemma view_default: "view_of index_default = library_empty"
  by (simp add: view_of_def index_default_def library_empty_def)

text \<open>One record after another.\<close>

lemma view_applied: "applied r s t \<Longrightarrow> view_of t = advance r (view_of s)"
proof -
  assume a: "applied r s t"
  then have t: "t = (name_taken r s)\<lparr>ix_containers := ix_containers t, ix_entries := ix_entries t, ix_local := ix_local t,
      ix_checkpoint := Some (record_checkpoint r)\<rparr>" (is "t = ?t")
    by (simp add: applied_def)
  have "ix_checkpoint ?t = Some (record_checkpoint r)" "ix_library_name ?t = ix_library_name (name_taken r s)" by simp_all
  then have "ix_checkpoint t = Some (record_checkpoint r)" "ix_library_name t = ix_library_name (name_taken r s)"
    using t by metis+
  then show "view_of t = advance r (view_of s)"
    using a by (simp add: view_of_def advance_def applied_def name_taken_def split: option.splits)
qed

lemma apply_next:
  assumes ok: "index_ok s" and view: "view_of s = library_after rs k" and hist: "history_ok rs" and k: "k < length rs"
  obtains t where "index_apply (rs ! k) s = Some (t, Ok ())" and "index_ok t" and "view_of t = library_after rs (Suc k)"
proof -
  let ?r = "rs ! k"
  have r: "record_fits ?r (library_after rs k)" and g: "jr_generation ?r = Generation k"
    using hist k by (simp_all add: history_ok_def)
  have at: "map_option cp_head (ix_checkpoint s) = (if k = 0 then None else Some (Generation (k - 1)))"
    using library_at [OF hist, of k] k arg_cong [OF view, of lb_at] by (simp add: view_of_def)
  then have "already_applied ?r s = None"
    by (auto simp: already_applied_def g less_eq_generation_def split: option.splits if_splits)
  moreover have "fits ?r (stored (ix_containers s)) (stored (ix_entries s))"
    using r by (simp add: record_fits_def view [symmetric] view_of_def)
  ultimately have fits: "index_fits ?r s" by (simp add: index_fits_def)
  show thesis
  proof (rule index_apply_exact [OF ok, of ?r])
    show "record_ok ?r" using r by (simp add: record_fits_def)
    fix t assume "index_apply ?r s = Some (t, Ok ())" and a: "applied ?r s t"
    then show thesis using that applied_ok [OF ok a] view_applied [OF a] view library_after_Suc [OF k] by simp
  qed (use fits in simp)
qed

text \<open>A Snapshot of the Library, restored.\<close>

lemma restore_view:
  assumes ok: "index_ok s" and c: "snapshot_ok c"
  obtains t where "index_restore c s = (t, Ok ())" and "index_ok t" and "view_of t = content_view c"
proof -
  obtain t where t: "state_restore c s = Inr t" "restored c s t"
    using state_restore_restored [OF index_okD(4) [OF ok] c] by blast
  have "t = s\<lparr>ix_checkpoint := Some (sn_checkpoint c), ix_adopted := sn_adopted c, ix_library_name := sn_library_name c,
      ix_containers := ix_containers t, ix_entries := ix_entries t, ix_local := ix_local t\<rparr>" (is "t = ?t")
    using t(2) by (simp add: restored_def)
  moreover have "ix_checkpoint ?t = Some (sn_checkpoint c)" "ix_library_name ?t = sn_library_name c" by simp_all
  ultimately have "ix_checkpoint t = Some (sn_checkpoint c)" "ix_library_name t = sn_library_name c" by metis+
  then have "view_of t = content_view c"
    using t(2) by (simp add: view_of_def content_view_def restored_def stored_def)
  then show thesis using that t restored_ok [OF ok t(2)] by (simp add: index_restore_def index_write_def)
qed

text \<open>What an Index would checkpoint is the Library it views.\<close>

lemma snapshot_view:
  assumes "index_ok s" and "state_snapshot s = Inr c"
  shows "content_view c = view_of s" and "snapshot_ok c"
proof -
  obtain at where at: "ix_checkpoint s = Some at" using assms(2) by (auto simp: state_snapshot_def res_simps)
  have c: "c = snapshot_of at s" and "snapshot_ok c"
    using state_snapshot_iff [OF index_okD(1) [OF assms(1)] at] assms(2) by simp_all
  then show "snapshot_ok c" by simp
  show "content_view c = view_of s" by (simp add: c content_view_def view_of_def snapshot_of_def at stored_def)
qed

end
