(* ===== verification/Commit_Batch.thy ===== *)
theory Commit_Batch
  imports Commit_Ports Library_History
begin

text \<open>
  The batch a commit is asked for (\<open>prepared_addition.rs\<close>, \<open>pending_rename.rs\<close>, \<open>prepared_batch.rs\<close>), what a rebase makes
  of it over the records it did not see (\<open>commit/rebase\<close>), the check of what it would commit (\<open>candidate.rs\<close>) and the
  record that commits it. The lemmas say that a batch the check passes is one whose record the Library can take, and
  that the check turns down no other.
\<close>

section \<open>Batches\<close>

record prepared_addition =
  pa_addition :: container_addition
  pa_envelope :: key_envelope
  pa_supersedes :: "(entry_number, entry_ref) btree"

definition prepared_addition_new :: "container_addition \<Rightarrow> key_envelope \<Rightarrow> prepared_addition" where
  "prepared_addition_new a e = \<lparr>pa_addition = a, pa_envelope = e, pa_supersedes = []\<rparr>"

definition superseding :: "(entry_number, entry_ref) btree \<Rightarrow> prepared_addition \<Rightarrow> prepared_addition" where
  "superseding s p = p\<lparr>pa_supersedes := s\<rparr>"

record pending_rename =
  pr_entry :: entry_ref
  pr_from :: entry_path
  pr_path :: entry_path

record prepared_batch =
  pb_additions :: "prepared_addition list"
  pb_removals :: "container_id list"
  pb_materialized :: "local_observation list"
  pb_renames :: "pending_rename list"
  pb_library_name :: "library_name option"
  pb_released :: "reservation_id list"
  pb_base :: "generation option"

definition batch_default :: prepared_batch where
  "batch_default = \<lparr>pb_additions = [], pb_removals = [], pb_materialized = [], pb_renames = [], pb_library_name = None,
     pb_released = [], pb_base = None\<rparr>"

definition batch_adding :: "prepared_addition list \<Rightarrow> prepared_batch" where
  "batch_adding additions = batch_default\<lparr>pb_additions := additions\<rparr>"

definition batch_removing :: "container_id list \<Rightarrow> prepared_batch \<Rightarrow> prepared_batch" where
  "batch_removing removals b = b\<lparr>pb_removals := removals\<rparr>"

definition batch_renaming :: "pending_rename list \<Rightarrow> prepared_batch \<Rightarrow> prepared_batch" where
  "batch_renaming renames b = b\<lparr>pb_renames := renames\<rparr>"

definition batch_naming :: "library_name \<Rightarrow> prepared_batch \<Rightarrow> prepared_batch" where
  "batch_naming n b = b\<lparr>pb_library_name := Some n\<rparr>"

definition batch_prepared_at :: "generation option \<Rightarrow> prepared_batch \<Rightarrow> prepared_batch" where
  "batch_prepared_at base b = b\<lparr>pb_base := base\<rparr>"

definition batch_is_empty :: "prepared_batch \<Rightarrow> bool" where
  "batch_is_empty b \<longleftrightarrow> pb_additions b = [] \<and> pb_removals b = [] \<and> pb_renames b = [] \<and> pb_library_name b = None"

definition batch_materializing :: "local_observation list \<Rightarrow> prepared_batch \<Rightarrow> prepared_batch" where
  "batch_materializing materialized b = b\<lparr>pb_materialized := materialized\<rparr>"

definition batch_releasing :: "reservation_id list \<Rightarrow> prepared_batch \<Rightarrow> prepared_batch" where
  "batch_releasing released b = b\<lparr>pb_released := released\<rparr>"

section \<open>The rebase\<close>

text \<open>\<open>find_map\<close> and \<open>position\<close> of an iterator.\<close>

fun find_map :: "('a \<Rightarrow> 'b option) \<Rightarrow> 'a list \<Rightarrow> 'b option" where
  "find_map f [] = None"
| "find_map f (x # xs) = (case f x of Some y \<Rightarrow> Some y | None \<Rightarrow> find_map f xs)"

fun position :: "('a \<Rightarrow> bool) \<Rightarrow> 'a list \<Rightarrow> nat option" where
  "position p [] = None"
| "position p (x # xs) = (if p x then Some 0 else map_option Suc (position p xs))"

definition number_at :: "nat \<Rightarrow> (entry_number \<Rightarrow> ('w, commit_error, 'a) action) \<Rightarrow> ('w, commit_error, 'a) action" where
  "number_at i f = expects (at_position i) f"

definition added_at :: "journal_record \<Rightarrow> entry_path \<Rightarrow> ('w, commit_error, entry_ref option) action" where
  "added_at r p =
     (case find_map (\<lambda>a. map_option (\<lambda>i. (a, i)) (position (\<lambda>e. path e = p) (add_entries a))) (jr_additions r) of
        None \<Rightarrow> gives None
      | Some (a, i) \<Rightarrow> number_at i (\<lambda>n. gives (Some (cid (add_container a), n))))"

text \<open>The body of the inner loop of \<open>follow_replaced\<close>.\<close>

definition follow_record :: "pending_rename \<Rightarrow> journal_record \<Rightarrow> ('w, commit_error, pending_rename) action" where
  "follow_record rename r =
     (let conflict = (\<lambda>rule. RebaseConflict (PendingRename (pr_entry rename)) (jr_generation r) rule (pr_from rename))
      in if list_ex (\<lambda>other. renamed_by other = pr_entry rename) (jr_renames r) then fails (conflict RenamedEntryRenamed)
         else if binary_search_by_key (\<lambda>c. c) (jr_removals r) (fst (pr_entry rename)) \<noteq> None
         then act (added_at r (pr_from rename)) (\<lambda>successor. case successor of
                None \<Rightarrow> fails (conflict RenamedEntryReplaced)
              | Some e \<Rightarrow> gives (rename\<lparr>pr_entry := e\<rparr>))
         else gives rename)"

definition follow_replaced :: "prepared_batch \<Rightarrow> journal_record list \<Rightarrow> ('w, commit_error, prepared_batch) action" where
  "follow_replaced b intervening =
     act (act_fold (\<lambda>done rename. act (act_fold follow_record rename intervening) (\<lambda>rename. gives (done @ [rename])))
            [] (pb_renames b)) (\<lambda>renames. gives (b\<lparr>pb_renames := renames\<rparr>))"

definition final_paths :: "journal_record list \<Rightarrow> (entry_ref, entry_path) btree" where
  "final_paths intervening = bt_collect (map (\<lambda>r. (renamed_by r, ren_path r)) (concat (map jr_renames intervening)))"

datatype placed_by = ByAddition | ByRename

definition placed :: "journal_record list \<Rightarrow> entry_location \<Rightarrow> (generation \<times> placed_by) option" where
  "placed intervening holder = find_map (\<lambda>r.
       if list_ex (\<lambda>n. renamed_by n = entry_ref_of holder \<and> ren_path n = loc_path holder) (jr_renames r)
       then Some (jr_generation r, ByRename)
       else if list_ex (\<lambda>a. cid (add_container a) = loc_container holder) (jr_additions r)
       then Some (jr_generation r, ByAddition) else None) (rev intervening)"

text \<open>The bodies of the two loops of \<open>check_contested\<close>.\<close>

definition contested_entry ::
  "(entry_ref, entry_path) btree \<Rightarrow> journal_record list \<Rightarrow> (entry_path, entry_location) btree \<Rightarrow> prepared_addition \<Rightarrow>
   nat \<times> entry_metadata \<Rightarrow> ('w, commit_error, unit) action" where
  "contested_entry renamed intervening standing_now p = (\<lambda>(i, e).
     number_at i (\<lambda>n.
       let superseded = bt_get (pa_supersedes p) n;
           at = (case Option.bind superseded (bt_get renamed) of Some q \<Rightarrow> q | None \<Rightarrow> path e)
       in case bt_get standing_now at of
            None \<Rightarrow> gives ()
          | Some holder \<Rightarrow>
              if Some (entry_ref_of holder) = superseded then gives ()
              else (case placed intervening holder of
                      Some (g, ByRename) \<Rightarrow>
                        fails (RebaseConflict (PendingAddition (cid (add_container (pa_addition p)), n)) g RenamedOntoAddedPath at)
                    | _ \<Rightarrow> gives ())))"

definition contested_rename ::
  "entry_ref bset \<Rightarrow> journal_record list \<Rightarrow> (entry_path, entry_location) btree \<Rightarrow> pending_rename \<Rightarrow>
   ('w, commit_error, unit) action" where
  "contested_rename renamed_away intervening standing_now rename =
     (case bt_get standing_now (pr_path rename) of
        None \<Rightarrow> gives ()
      | Some holder \<Rightarrow>
          if bt_contains renamed_away (entry_ref_of holder) then gives ()
          else (case placed intervening holder of
                  Some (g, _) \<Rightarrow> fails (RebaseConflict (PendingRename (pr_entry rename)) g DestinationTaken (pr_path rename))
                | None \<Rightarrow> gives ()))"

definition check_contested ::
  "'w ports \<Rightarrow> prepared_batch \<Rightarrow> (entry_ref, entry_path) btree \<Rightarrow> journal_record list \<Rightarrow> ('w, commit_error, unit) action" where
  "check_contested P b renamed intervening =
     (let renamed_onto = renamed \<noteq> [] \<and> pb_additions b \<noteq> [];
          filled = pb_renames b \<noteq> [] \<and> list_ex (\<lambda>r. jr_renames r \<noteq> [] \<or> jr_additions r \<noteq> []) intervening
      in if \<not> renamed_onto \<and> \<not> filled then gives ()
         else act (erring IndexFailed (ip_entries_under (po_index P) None)) (\<lambda>current.
           let standing_now = bt_collect (map (\<lambda>l. (loc_path l, l)) current);
               renamed_away = bs_collect (map pr_entry (pb_renames b))
           in act (act_fold (\<lambda>_ p. act_fold (\<lambda>_. contested_entry renamed intervening standing_now p) ()
                                      (enumerate 0 (add_entries (pa_addition p)))) () (pb_additions b)) (\<lambda>_.
              act_fold (\<lambda>_. contested_rename renamed_away intervening standing_now) () (pb_renames b))))"

text \<open>The body of the loop of \<open>take_over\<close>.\<close>

definition take_over_addition ::
  "(entry_ref, entry_path) btree \<Rightarrow> prepared_addition \<Rightarrow> commit_error + prepared_addition" where
  "take_over_addition renamed p =
     (let followed = List.map_filter (\<lambda>(n, superseded). map_option (\<lambda>to. (number n, to)) (bt_get renamed superseded))
            (pa_supersedes p)
      in if followed = [] then Ok p
         else let entries = fold (\<lambda>(i, to) es. if i < length es then es[i := (es ! i)\<lparr>path := to\<rparr>] else es) followed
                    (add_entries (pa_addition p))
              in map_err UnwritableControlValue
                   (and_then (addition_new (add_container (pa_addition p)) entries (add_deposits (pa_addition p)))
                      (\<lambda>a. Ok (p\<lparr>pa_addition := a\<rparr>))))"

definition take_over :: "prepared_batch \<Rightarrow> (entry_ref, entry_path) btree \<Rightarrow> commit_error + prepared_batch" where
  "take_over b renamed =
     (if renamed = [] then Ok b
      else and_then (collect_res (take_over_addition renamed) (pb_additions b)) (\<lambda>additions.
           Ok (b\<lparr>pb_additions := additions\<rparr>)))"

definition rebase :: "'w ports \<Rightarrow> prepared_batch \<Rightarrow> journal_record list \<Rightarrow> ('w, commit_error, prepared_batch) action" where
  "rebase P prepared intervening =
     (if intervening = [] then gives prepared
      else act (follow_replaced prepared intervening) (\<lambda>b.
           let renamed = final_paths intervening
           in act (check_contested P b renamed intervening) (\<lambda>_. yields (take_over b renamed))))"

section \<open>The check of the candidate\<close>

definition check_removals :: "'w ports \<Rightarrow> container_id bset \<Rightarrow> ('w, commit_error, unit) action" where
  "check_removals P removed =
     (if removed = [] then gives ()
      else act (erring IndexFailed (ip_containers_under (po_index P) None)) (\<lambda>containers.
           let current = bs_collect (map cid containers);
               gone = filter (\<lambda>c. \<not> bt_contains current c) (bt_keys removed)
           in if gone = [] then gives () else fails (RemovalNotCurrent gone)))"

definition candidate_named :: "entry_location list \<Rightarrow> container_id bset \<Rightarrow> container_id \<Rightarrow> entry_number \<Rightarrow> named" where
  "candidate_named current containers c n =
     (case bt_get (bt_collect (map (\<lambda>l. (entry_ref_of l, l)) current)) (c, n) of
        Some l \<Rightarrow> NamedEntry l
      | None \<Rightarrow> if bt_contains containers c then NoEntry else NoContainer)"

definition candidate_standing :: "entry_location list \<Rightarrow> container_id bset \<Rightarrow> entry_path \<Rightarrow> entry_ref option" where
  "candidate_standing current removed p =
     bt_get (bt_collect (map (\<lambda>l. (loc_path l, entry_ref_of l)) (filter (\<lambda>l. \<not> bt_contains removed (loc_container l)) current))) p"

definition batch_rename :: "pending_rename \<Rightarrow> model_error + entry_rename" where
  "batch_rename r = rename_new (fst (pr_entry r)) (snd (pr_entry r)) (pr_path r)"

fun of_rename_refusal :: "index_error \<Rightarrow> commit_error" where
  "of_rename_refusal (RenameRefused element rule) = CommitRenameRefused element rule"
| "of_rename_refusal e = IndexFailed e"

definition candidate_renames ::
  "'w ports \<Rightarrow> prepared_batch \<Rightarrow> container_id bset \<Rightarrow> entry_location list \<Rightarrow> ('w, commit_error, renamed_entry list) action" where
  "candidate_renames P b removed current =
     (if pb_renames b = [] then gives []
      else act (yields (map_err UnwritableControlValue (collect_res batch_rename (pb_renames b)))) (\<lambda>renames.
           act (erring IndexFailed (ip_containers_under (po_index P) None)) (\<lambda>containers.
             yields (map_err of_rename_refusal
               (check_rename_set renames (bt_keys removed) (map pa_addition (pb_additions b))
                  (\<lambda>c n. Ok (candidate_named current (bs_collect (map cid containers)) c n))
                  (\<lambda>p. Ok (candidate_standing current removed p)))))))"

definition claim_path :: "entry_path bset \<Rightarrow> entry_metadata \<Rightarrow> commit_error + entry_path bset" where
  "claim_path paths e = (if bt_contains paths (path e) then Err (EntryPathCollision (path e)) else Ok (bs_insert (path e) paths))"

definition candidate_check :: "'w ports \<Rightarrow> prepared_batch \<Rightarrow> ('w, commit_error, unit) action" where
  "candidate_check P b =
     (let removed = bs_collect (pb_removals b)
      in act (check_removals P removed) (\<lambda>_.
         act (erring IndexFailed (ip_entries_under (po_index P) None)) (\<lambda>current.
         act (candidate_renames P b removed current) (\<lambda>renamed.
           let paths = bs_collect (map loc_path (filter (\<lambda>l. \<not> bt_contains removed (loc_container l)) current));
               paths = fold (\<lambda>one. bt_remove (renamed_from one)) renamed paths;
               paths = fold (\<lambda>one. bs_insert (rn_path one)) renamed paths
           in yields (and_then (try_fold claim_path paths (concat (map (\<lambda>p. add_entries (pa_addition p)) (pb_additions b))))
                (\<lambda>_. Ok ()))))))"

section \<open>The record\<close>

definition batch_renames :: "prepared_batch \<Rightarrow> model_error + entry_rename list" where
  "batch_renames b = and_then (collect_res batch_rename (pb_renames b)) (\<lambda>renames. Ok (sort_key order_key renames))"

definition batch_record ::
  "generation \<Rightarrow> generation option \<Rightarrow> master_key_epoch \<Rightarrow> keyring_commitment \<Rightarrow> string option \<Rightarrow> string option \<Rightarrow>
   prepared_batch \<Rightarrow> commit_error + journal_record" where
  "batch_record g prev e keyring next_slot snapshot_slot b =
     map_err UnwritableControlValue
       (and_then (journal_record_canonical g prev e keyring next_slot snapshot_slot
                    (map pa_addition (pb_additions b)) (pb_removals b)) (\<lambda>r.
        and_then (batch_renames b) (\<lambda>renames.
        and_then (with_renames renames r) (\<lambda>r. Ok (with_library_name (pb_library_name b) r)))))"

end
