(* ===== verification/Control_Listing.thy ===== *)
theory Control_Listing
  imports Commit_Ports
begin

text \<open>
  \<open>commit/control_listing.rs\<close>: one walk of Storage, filed by what each name states. The loop over the pages is
  a recursion on the pages left below its cap. The lemmas say what a walked listing holds: the handles, heads and
  checkpoints of exactly the names walked, every copy of a Keyring replica, and that it is refused exactly where
  two heads or two checkpoints share a name.
\<close>

record listed_replica =
  lr_name :: control_object_name
  lr_copies :: "object_ref list"

record control_listing =
  cl_handles :: "(string, object_ref) btree"
  cl_heads :: "generation bset"
  cl_snapshots :: "generation bset"
  cl_replicas :: "(string, listed_replica) btree"

definition listing_default :: control_listing where
  "listing_default = \<lparr>cl_handles = [], cl_heads = [], cl_snapshots = [], cl_replicas = []\<rparr>"

definition max_pages :: nat where
  "max_pages = 100000"

definition record_replica :: "string \<Rightarrow> control_object_name \<Rightarrow> object_ref \<Rightarrow> control_listing \<Rightarrow> control_listing" where
  "record_replica name replica object l =
     (let listed = (case bt_get (cl_replicas l) name of Some listed \<Rightarrow> listed | None \<Rightarrow> \<lparr>lr_name = replica, lr_copies = []\<rparr>)
      in l\<lparr>cl_replicas := bt_insert name (listed\<lparr>lr_copies := lr_copies listed @ [object]\<rparr>) (cl_replicas l)\<rparr>)"

definition listing_record :: "string \<Rightarrow> object_ref \<Rightarrow> control_listing \<Rightarrow> commit_error + control_listing" where
  "listing_record name object l =
     (case (parse_name name, bt_get (cl_handles l) name) of
        (Inr (KeyringReplicaName g d r), _) \<Rightarrow> Ok (record_replica name (KeyringReplicaName g d r) object l)
      | (Inr (HeadName g), Some first) \<Rightarrow> Err (DuplicateControlObject (HeadName g) first object)
      | (Inr (IndexSnapshotName g), Some first) \<Rightarrow> Err (DuplicateControlObject (IndexSnapshotName g) first object)
      | (Inr (HeadName g), None) \<Rightarrow>
          Ok (l\<lparr>cl_heads := bs_insert g (cl_heads l), cl_handles := bt_insert name object (cl_handles l)\<rparr>)
      | (Inr (IndexSnapshotName g), None) \<Rightarrow>
          Ok (l\<lparr>cl_snapshots := bs_insert g (cl_snapshots l), cl_handles := bt_insert name object (cl_handles l)\<rparr>)
      | (Inl _, _) \<Rightarrow> Ok (l\<lparr>cl_handles := bt_insert name object (cl_handles l)\<rparr>))"

function read_pages ::
  "'w ports \<Rightarrow> retry_policy \<Rightarrow> control_listing \<Rightarrow> page_token option \<Rightarrow> nat \<Rightarrow> ('w, commit_error, control_listing) action" where
  "read_pages P retry l token pages =
     act (erring Storage (retry_run (po_system P) retry (store_list (po_store P) token))) (\<lambda>page.
     act (yields (try_fold (\<lambda>l object. listing_record (oi_name object) (oi_ref object) l) l (pg_objects page))) (\<lambda>l.
       if pg_next page = None then gives l
       else if pages + 1 \<ge> max_pages then fails (Storage (ListingPastCap (pages + 1)))
       else read_pages P retry l (pg_next page) (pages + 1)))"
  by auto
termination by (relation "measure (\<lambda>(P, retry, l, token, pages). max_pages - pages)") auto

declare read_pages.simps [simp del]

definition listing_read :: "'w ports \<Rightarrow> retry_policy \<Rightarrow> ('w, commit_error, control_listing) action" where
  "listing_read P retry = read_pages P retry listing_default None 0"

definition newest :: "generation bset \<Rightarrow> generation option" where
  "newest s = (if s = [] then None else Some (last (bt_keys s)))"

definition newest_head :: "control_listing \<Rightarrow> generation option" where
  "newest_head l = newest (cl_heads l)"

definition newest_snapshot :: "control_listing \<Rightarrow> generation option" where
  "newest_snapshot l = newest (cl_snapshots l)"

definition has_snapshot :: "control_listing \<Rightarrow> generation \<Rightarrow> bool" where
  "has_snapshot l g \<longleftrightarrow> bt_contains (cl_snapshots l) g"

definition has_head :: "control_listing \<Rightarrow> generation \<Rightarrow> bool" where
  "has_head l g \<longleftrightarrow> bt_contains (cl_heads l) g"

definition listed_heads :: "control_listing \<Rightarrow> generation list" where
  "listed_heads l = bt_keys (cl_heads l)"

definition checkpoint_candidates :: "control_listing \<Rightarrow> generation list" where
  "checkpoint_candidates l = rev (bt_keys (bs_collect (bt_keys (cl_snapshots l) @ bt_keys (cl_heads l))))"

definition listed_handle :: "control_listing \<Rightarrow> string \<Rightarrow> object_ref option" where
  "listed_handle l name = bt_get (cl_handles l) name"

definition replica_copies :: "control_listing \<Rightarrow> string \<Rightarrow> object_ref list" where
  "replica_copies l name = (case bt_get (cl_replicas l) name of Some listed \<Rightarrow> lr_copies listed | None \<Rightarrow> [])"

definition keyring_replicas :: "control_listing \<Rightarrow> (control_object_name \<times> object_ref list) list" where
  "keyring_replicas l = map (\<lambda>listed. (lr_name listed, lr_copies listed)) (bt_values (cl_replicas l))"

definition named_by :: "keyring_commitment option \<Rightarrow> listed_replica \<Rightarrow> bool" where
  "named_by committed listed \<longleftrightarrow>
     (case committed of
        None \<Rightarrow> False
      | Some c \<Rightarrow> name_generation (lr_name listed) < kc_generation c \<or>
          name_generation (lr_name listed) = kc_generation c \<and> name_set_digest (lr_name listed) = Some (kc_set_digest c))"

definition unnamed_keyring_replicas :: "keyring_commitment option \<Rightarrow> control_listing \<Rightarrow> (generation, nat) btree" where
  "unnamed_keyring_replicas committed l =
     fold (\<lambda>listed unnamed.
         let g = name_generation (lr_name listed)
         in if named_by committed listed then unnamed
            else bt_insert g ((case bt_get unnamed g of Some n \<Rightarrow> n | None \<Rightarrow> 0) + length (lr_copies listed)) unnamed)
       (bt_values (cl_replicas l)) []"

definition listed_container :: "control_listing \<Rightarrow> container_id \<Rightarrow> object_ref option" where
  "listed_container l c = listed_handle l (container_object_name c)"

section \<open>The orders it answers in\<close>

lemma newest_None: "newest s = None \<longleftrightarrow> s = []"
  by (simp add: newest_def)

lemma newest_Some:
  assumes "bt_inv s" and "newest s = Some g"
  shows "bt_contains s g" and "bt_contains s h \<Longrightarrow> h \<le> g"
proof -
  have ne: "s \<noteq> []" and g: "g = last (bt_keys s)" using assms(2) by (auto simp: newest_def split: if_splits)
  have srt: "sorted_wrt (<) (bt_keys s)" using assms(1) by (simp add: bt_inv_def bt_keys_def)
  have ks: "bt_keys s \<noteq> []" using ne by (simp add: bt_keys_def)
  then show "bt_contains s g" using last_in_set [OF ks] by (simp add: g bt_contains_iff bt_keys_def)
  assume "bt_contains s h"
  then have "h \<in> set (bt_keys s)" by (simp add: bt_contains_iff bt_keys_def)
  moreover have "bt_keys s = butlast (bt_keys s) @ [g]" using ks by (simp add: g)
  ultimately show "h \<le> g" using srt by (metis append_butlast_last_id in_set_conv_decomp last_snoc less_imp_le
      list.set_intros(1) order_refl set_append sorted_wrt_append UnE empty_iff insert_iff list.set(1) list.simps(15))
qed

lemma newest_contains: "bt_contains s h \<Longrightarrow> \<exists>g. newest s = Some g"
  by (cases s) (auto simp: newest_def bt_contains_iff)

lemma candidates_mem: "g \<in> set (checkpoint_candidates l) \<longleftrightarrow> has_snapshot l g \<or> has_head l g"
proof -
  have "g \<in> set (checkpoint_candidates l) \<longleftrightarrow> bt_contains (bs_collect (bt_keys (cl_snapshots l) @ bt_keys (cl_heads l))) g"
    by (simp add: checkpoint_candidates_def bt_contains_iff bt_keys_def)
  also have "\<dots> \<longleftrightarrow> g \<in> set (bt_keys (cl_snapshots l)) \<or> g \<in> set (bt_keys (cl_heads l))"
    by (simp only: bs_contains_collect set_append Un_iff)
  finally show ?thesis by (simp add: has_snapshot_def has_head_def bt_contains_iff bt_keys_def)
qed

lemma candidates_descend: "sorted_wrt (>) (checkpoint_candidates l)"
proof -
  have "bt_inv (bs_collect (bt_keys (cl_snapshots l) @ bt_keys (cl_heads l)))" by (simp add: bs_collect_def bt_inv_collect)
  then have "sorted_wrt (<) (bt_keys (bs_collect (bt_keys (cl_snapshots l) @ bt_keys (cl_heads l))))"
    by (simp add: bt_inv_def bt_keys_def)
  then show ?thesis by (simp add: checkpoint_candidates_def sorted_wrt_rev)
qed

section \<open>What a walk has filed\<close>

definition is_replica_name :: "string \<Rightarrow> bool" where
  "is_replica_name n \<longleftrightarrow> (case parse_name n of Inr (KeyringReplicaName _ _ _) \<Rightarrow> True | _ \<Rightarrow> False)"

definition is_single_name :: "string \<Rightarrow> bool" where
  "is_single_name n \<longleftrightarrow> (case parse_name n of Inr (HeadName _) \<Rightarrow> True | Inr (IndexSnapshotName _) \<Rightarrow> True | _ \<Rightarrow> False)"

definition copies_in :: "(string \<times> object_ref) list \<Rightarrow> string \<Rightarrow> object_ref list" where
  "copies_in seen n = map snd (filter (\<lambda>x. fst x = n) seen)"

definition replica_filed :: "(string \<times> object_ref) list \<Rightarrow> string \<Rightarrow> listed_replica option" where
  "replica_filed seen n =
     (case parse_name n of
        Inr (KeyringReplicaName g d r) \<Rightarrow>
          if n \<in> fst ` set seen then Some \<lparr>lr_name = KeyringReplicaName g d r, lr_copies = copies_in seen n\<rparr> else None
      | _ \<Rightarrow> None)"

definition files :: "(string \<times> object_ref) list \<Rightarrow> control_listing \<Rightarrow> bool" where
  "files seen l \<longleftrightarrow>
     bt_inv (cl_handles l) \<and> bt_inv (cl_heads l) \<and> bt_inv (cl_snapshots l) \<and> bt_inv (cl_replicas l) \<and>
     (\<forall>n. bt_get (cl_handles l) n = (if is_replica_name n then None else map_of (rev seen) n)) \<and>
     (\<forall>g. bt_contains (cl_heads l) g \<longleftrightarrow> (\<exists>n \<in> fst ` set seen. parse_name n = Inr (HeadName g))) \<and>
     (\<forall>g. bt_contains (cl_snapshots l) g \<longleftrightarrow> (\<exists>n \<in> fst ` set seen. parse_name n = Inr (IndexSnapshotName g))) \<and>
     (\<forall>n. bt_get (cl_replicas l) n = replica_filed seen n)"

lemma files_default: "files [] listing_default"
  by (simp add: files_def listing_default_def replica_filed_def bt_contains_iff split: sum.splits control_object_name.splits)

lemma bs_contains_insert_iff: "bt_inv m \<Longrightarrow> bt_contains (bs_insert k m) k' \<longleftrightarrow> k' = k \<or> bt_contains m k'"
  by simp

lemma copies_in_snoc: "copies_in (seen @ [(n, r)]) k = copies_in seen k @ (if k = n then [r] else [])"
  by (simp add: copies_in_def)

lemma replica_filed_snoc:
  "replica_filed (seen @ [(n, r)]) k =
     (if k = n then case parse_name n of
          Inr (KeyringReplicaName g d p) \<Rightarrow> Some \<lparr>lr_name = KeyringReplicaName g d p, lr_copies = copies_in seen n @ [r]\<rparr>
        | _ \<Rightarrow> None
      else replica_filed seen k)"
  by (auto simp: replica_filed_def copies_in_snoc split: sum.splits control_object_name.splits)

lemma replica_filed_other: "\<not> is_replica_name n \<Longrightarrow> replica_filed (seen @ [(n, r)]) = replica_filed seen"
  by (rule ext)
    (auto simp: replica_filed_snoc replica_filed_def copies_in_snoc is_replica_name_def
      split: sum.splits control_object_name.splits)

lemma files_other:
  assumes "files seen l" and "\<not> is_replica_name n"
    and "cl_handles l' = bt_insert n r (cl_handles l)" and "cl_replicas l' = cl_replicas l"
    and "bt_inv (cl_heads l')" and "bt_inv (cl_snapshots l')"
    and "\<And>g. bt_contains (cl_heads l') g \<longleftrightarrow> parse_name n = Inr (HeadName g) \<or> bt_contains (cl_heads l) g"
    and "\<And>g. bt_contains (cl_snapshots l') g \<longleftrightarrow> parse_name n = Inr (IndexSnapshotName g) \<or> bt_contains (cl_snapshots l) g"
  shows "files (seen @ [(n, r)]) l'"
  using assms(1) unfolding files_def assms(3-4,7-8) replica_filed_other [OF assms(2)]
  by (simp add: assms(2,5,6) bt_inv_insert bt_get_insert)

lemma copies_in_none: "n \<notin> fst ` set seen \<Longrightarrow> copies_in seen n = []"
  by (auto simp: copies_in_def filter_empty_conv)

lemma listing_record_files:
  assumes f: "files seen l"
  shows "if is_single_name n \<and> n \<in> fst ` set seen
    then \<exists>name first. listing_record n r l = Inl (DuplicateControlObject name first r) \<and> show_name name = n
    else \<exists>l'. listing_record n r l = Inr l' \<and> files (seen @ [(n, r)]) l'"
proof -
  have inv: "bt_inv (cl_handles l)" "bt_inv (cl_heads l)" "bt_inv (cl_snapshots l)" "bt_inv (cl_replicas l)"
    and hd: "\<And>n. bt_get (cl_handles l) n = (if is_replica_name n then None else map_of (rev seen) n)"
    and rp: "\<And>n. bt_get (cl_replicas l) n = replica_filed seen n"
    using f by (simp_all add: files_def)
  have mem: "map_of (rev seen) n = None \<longleftrightarrow> n \<notin> fst ` set seen" by (simp add: map_of_eq_None_iff)
  show ?thesis
  proof (cases "parse_name n")
    case (Inl e)
    then have "listing_record n r l = Inr (l\<lparr>cl_handles := bt_insert n r (cl_handles l)\<rparr>)"
      by (simp add: listing_record_def)
    moreover have "files (seen @ [(n, r)]) (l\<lparr>cl_handles := bt_insert n r (cl_handles l)\<rparr>)"
      by (rule files_other [OF f]) (use Inl inv in \<open>simp_all add: is_replica_name_def\<close>)
    ultimately show ?thesis using Inl by (simp add: is_single_name_def)
  next
    case (Inr name)
    show ?thesis
    proof (cases name)
      case (HeadName g)
      have nr: "\<not> is_replica_name n" using Inr HeadName by (simp add: is_replica_name_def)
      show ?thesis
      proof (cases "map_of (rev seen) n")
        case (Some first)
        then have "listing_record n r l = Inl (DuplicateControlObject (HeadName g) first r)"
          using Inr HeadName hd [of n] nr by (simp add: listing_record_def)
        moreover have "n \<in> fst ` set seen" using mem Some by force
        ultimately show ?thesis using Inr HeadName control_name.enc_dec [OF Inr] by (auto simp: is_single_name_def)
      next
        case None
        let ?l = "l\<lparr>cl_heads := bs_insert g (cl_heads l), cl_handles := bt_insert n r (cl_handles l)\<rparr>"
        have "listing_record n r l = Inr ?l" using Inr HeadName hd [of n] nr None by (simp add: listing_record_def)
        moreover have "files (seen @ [(n, r)]) ?l"
          by (rule files_other [OF f nr]) (use Inr HeadName inv in \<open>auto simp: bs_inv_insert\<close>)
        moreover have "n \<notin> fst ` set seen" using mem None by simp
        ultimately show ?thesis by simp
      qed
    next
      case (IndexSnapshotName g)
      have nr: "\<not> is_replica_name n" using Inr IndexSnapshotName by (simp add: is_replica_name_def)
      show ?thesis
      proof (cases "map_of (rev seen) n")
        case (Some first)
        then have "listing_record n r l = Inl (DuplicateControlObject (IndexSnapshotName g) first r)"
          using Inr IndexSnapshotName hd [of n] nr by (simp add: listing_record_def)
        moreover have "n \<in> fst ` set seen" using mem Some by force
        ultimately show ?thesis using Inr IndexSnapshotName control_name.enc_dec [OF Inr] by (auto simp: is_single_name_def)
      next
        case None
        let ?l = "l\<lparr>cl_snapshots := bs_insert g (cl_snapshots l), cl_handles := bt_insert n r (cl_handles l)\<rparr>"
        have "listing_record n r l = Inr ?l" using Inr IndexSnapshotName hd [of n] nr None by (simp add: listing_record_def)
        moreover have "files (seen @ [(n, r)]) ?l"
          by (rule files_other [OF f nr]) (use Inr IndexSnapshotName inv in \<open>auto simp: bs_inv_insert\<close>)
        moreover have "n \<notin> fst ` set seen" using mem None by simp
        ultimately show ?thesis by simp
      qed
    next
      case (KeyringReplicaName g d p)
      let ?l = "record_replica n name r l"
      have rec: "listing_record n r l = Inr ?l" using Inr KeyringReplicaName by (simp add: listing_record_def)
      have "bt_get (cl_replicas ?l) = (bt_get (cl_replicas l))(n \<mapsto> \<lparr>lr_name = name, lr_copies = copies_in seen n @ [r]\<rparr>)"
        using inv(4) rp [of n] Inr KeyringReplicaName copies_in_none [of n seen]
        by (simp add: record_replica_def Let_def bt_get_insert replica_filed_def)
      moreover have "is_replica_name n" using Inr KeyringReplicaName by (simp add: is_replica_name_def)
      ultimately have "files (seen @ [(n, r)]) ?l"
        using f Inr KeyringReplicaName inv unfolding files_def
        by (auto simp: record_replica_def Let_def bt_inv_insert replica_filed_snoc split: if_splits)
      then show ?thesis using rec Inr KeyringReplicaName by (simp add: is_single_name_def)
    qed
  qed
qed

abbreviation filing :: "control_listing \<Rightarrow> object_info list \<Rightarrow> commit_error + control_listing" where
  "filing \<equiv> try_fold (\<lambda>l object. listing_record (oi_name object) (oi_ref object) l)"

abbreviation walked :: "object_info list \<Rightarrow> (string \<times> object_ref) list" where
  "walked \<equiv> map (\<lambda>object. (oi_name object, oi_ref object))"

definition single_twice :: "string list \<Rightarrow> bool" where
  "single_twice names \<longleftrightarrow> \<not> distinct (filter is_single_name names)"

lemma filing_files:
  assumes "files seen l"
  shows "if single_twice (map fst seen @ map oi_name objects) \<and> \<not> single_twice (map fst seen)
    then \<exists>name first second. filing l objects = Inl (DuplicateControlObject name first second)
    else single_twice (map fst seen) \<or> (\<exists>l'. filing l objects = Inr l' \<and> files (seen @ walked objects) l')"
  using assms
proof (induction objects arbitrary: seen l)
  case Nil
  then show ?case by auto
next
  case (Cons object objects)
  let ?n = "oi_name object" and ?r = "oi_ref object"
  show ?case
  proof (cases "single_twice (map fst seen)")
    case True
    then show ?thesis by simp
  next
    case apart: False
    show ?thesis
    proof (cases "is_single_name ?n \<and> ?n \<in> fst ` set seen")
      case True
      then obtain name first where "listing_record ?n ?r l = Inl (DuplicateControlObject name first ?r)"
        using listing_record_files [OF Cons.prems, of ?n ?r] by auto
      moreover have "single_twice (map fst seen @ map oi_name (object # objects))" using True by (auto simp: single_twice_def)
      ultimately show ?thesis using apart by auto
    next
      case False
      then obtain l' where l': "listing_record ?n ?r l = Inr l'" "files (seen @ [(?n, ?r)]) l'"
        using listing_record_files [OF Cons.prems, of ?n ?r] by auto
      have "\<not> single_twice (map fst (seen @ [(?n, ?r)]))" using False apart by (auto simp: single_twice_def)
      then show ?thesis using Cons.IH [OF l'(2)] l'(1) apart by (simp split: if_splits)
    qed
  qed
qed

text \<open>A walk is refused exactly where two heads or two checkpoints share a name.\<close>

lemma filing_Ok_iff: "(\<exists>l. filing listing_default objects = Inr l) \<longleftrightarrow> \<not> single_twice (map oi_name objects)"
  using filing_files [OF files_default, of objects] by (auto simp: single_twice_def split: if_splits)

lemma filing_Ok: "filing listing_default objects = Inr l \<Longrightarrow> files (walked objects) l"
  using filing_files [OF files_default, of objects] filing_Ok_iff [of objects]
  by (auto simp: single_twice_def split: if_splits)

text \<open>The refusal names the two objects: the one filed before and the one at hand, under one name.\<close>

lemma listing_record_Err:
  assumes f: "files seen l" and run: "listing_record n r l = Inl e"
  shows "\<exists>name first. e = DuplicateControlObject name first r \<and> show_name name = n \<and> (n, first) \<in> set seen"
proof -
  have hd: "bt_get (cl_handles l) n = (if is_replica_name n then None else map_of (rev seen) n)" using f by (simp add: files_def)
  obtain name first where name: "parse_name n = Inr name" "e = DuplicateControlObject name first r" "bt_get (cl_handles l) n = Some first"
    using run by (auto simp: listing_record_def split: sum.splits control_object_name.splits option.splits)
  have "(n, first) \<in> set seen" using name(3) hd by (auto dest: map_of_SomeD split: if_splits)
  then show ?thesis using name control_name.enc_dec [OF name(1)] by blast
qed

lemma filing_Err:
  assumes "files seen l" and "distinct (map snd seen @ map oi_ref objects)" and "filing l objects = Inl e"
  shows "\<exists>name first second. e = DuplicateControlObject name first second \<and> first \<noteq> second \<and>
    {(show_name name, first), (show_name name, second)} \<subseteq> set (seen @ walked objects)"
  using assms
proof (induction objects arbitrary: seen l)
  case (Cons object objects)
  show ?case
  proof (cases "listing_record (oi_name object) (oi_ref object) l")
    case (Inl d)
    then obtain name first where d: "d = DuplicateControlObject name first (oi_ref object)" "show_name name = oi_name object"
        "(oi_name object, first) \<in> set seen"
      using listing_record_Err [OF Cons.prems(1)] by blast
    moreover have "first \<noteq> oi_ref object" using d(3) Cons.prems(2) by force
    ultimately show ?thesis using Cons.prems(3) Inl by auto
  next
    case (Inr l')
    then have "files (seen @ [(oi_name object, oi_ref object)]) l'"
      using listing_record_files [OF Cons.prems(1), of "oi_name object" "oi_ref object"] by (auto split: if_splits)
    from Cons.IH [OF this] show ?thesis using Cons.prems(2,3) Inr by auto
  qed
qed simp

text \<open>What a listing answers, by what was walked.\<close>

lemma files_heads: "files seen l \<Longrightarrow> has_head l g \<longleftrightarrow> name_ok (HeadName g) \<and> show_name (HeadName g) \<in> fst ` set seen"
  unfolding files_def has_head_def by (auto simp: control_name.dec_Inr_iff)

lemma files_snapshots:
  "files seen l \<Longrightarrow> has_snapshot l g \<longleftrightarrow> name_ok (IndexSnapshotName g) \<and> show_name (IndexSnapshotName g) \<in> fst ` set seen"
  unfolding files_def has_snapshot_def by (auto simp: control_name.dec_Inr_iff)

lemma files_handle: "files seen l \<Longrightarrow> listed_handle l n = (if is_replica_name n then None else map_of (rev seen) n)"
  by (simp add: files_def listed_handle_def)

lemma files_copies: "files seen l \<Longrightarrow> is_replica_name n \<Longrightarrow> replica_copies l n = copies_in seen n"
  by (auto simp: files_def replica_copies_def replica_filed_def is_replica_name_def copies_in_none
      split: option.splits sum.splits control_object_name.splits if_splits)

lemma files_newest_head:
  assumes "files seen l"
  shows "newest_head l = Some g \<longleftrightarrow> has_head l g \<and> (\<forall>h. has_head l h \<longrightarrow> h \<le> g)"
proof
  have inv: "bt_inv (cl_heads l)" using assms by (simp add: files_def)
  show "newest_head l = Some g \<Longrightarrow> has_head l g \<and> (\<forall>h. has_head l h \<longrightarrow> h \<le> g)"
    using newest_Some [OF inv] by (auto simp: newest_head_def has_head_def)
  assume g: "has_head l g \<and> (\<forall>h. has_head l h \<longrightarrow> h \<le> g)"
  then obtain k where k: "newest (cl_heads l) = Some k" using newest_contains [of "cl_heads l" g] by (auto simp: has_head_def)
  have "k \<le> g" using g newest_Some(1) [OF inv k] by (auto simp: has_head_def)
  moreover have "g \<le> k" using g newest_Some(2) [OF inv k] by (auto simp: has_head_def)
  ultimately show "newest_head l = Some g" using k by (simp add: newest_head_def)
qed

end
