(* ===== verification/Commit_Keyring.thy ===== *)
theory Commit_Keyring
  imports Commit_Batch Control_Listing
begin

text \<open>
  \<open>commit/keyring\<close>: reading one replica and one position of a committed Keyring, reading or examining the whole set and
  repairing it, and writing the generation a commit selects. Futures driven together by \<open>join_all\<close> are run in order;
  what is reported of a run and its progress is left out, except for what the callers decide on.
\<close>

section \<open>One replica\<close>

definition lift_model :: "model_error + 'a \<Rightarrow> commit_error + 'a" where
  "lift_model r = map_err commit_model r"

definition replica_name :: "keyring_commitment \<Rightarrow> nat \<Rightarrow> commit_error + control_object_name" where
  "replica_name k i =
     and_then (lift_model (replica_new i (kc_replica_count k))) (\<lambda>replica.
       lift_model (keyring_replica (kc_generation k) (kc_set_digest k) replica))"

definition write_replica ::
  "'w ports \<Rightarrow> control_keys \<Rightarrow> retry_policy \<Rightarrow> control_object_name \<Rightarrow> control_payload \<Rightarrow> ('w, commit_error, object_ref) action" where
  "write_replica P keys retry name payload =
     act (seal_object P keys name Keyring payload) (\<lambda>bytes.
     act (erring Storage (retry_run (po_system P) retry (store_put (po_store P) (show_name name) (stream_from bytes)))) (\<lambda>uploaded.
       gives (up_ref uploaded)))"

definition unreadable_format :: "format_error \<Rightarrow> unusable_replica" where
  "unreadable_format e = Unreadable (FormatFailed e)"

definition keyring_held_in ::
  "'w ports \<Rightarrow> control_keys \<Rightarrow> control_object_name \<Rightarrow> string \<Rightarrow> byte list \<Rightarrow> unusable_replica + key_table" where
  "keyring_held_in P keys name expected bytes =
     and_then (map_err Unreadable (open_object P keys name bytes)) (\<lambda>decoded.
       if dc_kind decoded \<noteq> Keyring then Err (ReplicaKindNotAdmitted (dc_kind decoded))
       else and_then (map_err unreadable_format (keyring_decode (lb_cbor (po_lib P)) (dc_payload decoded))) (\<lambda>table.
            and_then (map_err unreadable_format (set_digest (lb_cbor (po_lib P)) (lb_blake3 (po_lib P)) table)) (\<lambda>actual.
              if actual \<noteq> expected then Err (DigestMismatch expected actual) else Ok table)))"

definition read_replica ::
  "'w ports \<Rightarrow> control_keys \<Rightarrow> retry_policy \<Rightarrow> control_object_name \<Rightarrow> object_ref \<Rightarrow> string \<Rightarrow>
   ('w, unusable_replica, key_table) action" where
  "read_replica P keys retry name object expected =
     act (erring (\<lambda>e. Unfetchable (Storage e)) (fetch_object P retry name object)) (\<lambda>bytes.
       yields (keyring_held_in P keys name expected bytes))"

definition is_unfetchable :: "unusable_replica \<Rightarrow> bool" where
  "is_unfetchable u \<longleftrightarrow> (case u of Unfetchable _ \<Rightarrow> True | _ \<Rightarrow> False)"

text \<open>The loop over the copies; \<open>verdict\<close> is the most cautious reason so far.\<close>

fun read_copies ::
  "'w ports \<Rightarrow> control_keys \<Rightarrow> retry_policy \<Rightarrow> control_object_name \<Rightarrow> string \<Rightarrow> object_ref list \<Rightarrow> unusable_replica \<Rightarrow>
   ('w, unusable_replica, key_table) action" where
  "read_copies P keys retry name expected [] verdict = fails verdict"
| "read_copies P keys retry name expected (object # objects) verdict =
     matched (read_replica P keys retry name object expected) (\<lambda>r.
       case r of
         Inr table \<Rightarrow> gives table
       | Inl cause \<Rightarrow> read_copies P keys retry name expected objects (if is_unfetchable verdict then verdict else cause))"

definition read_position ::
  "'w ports \<Rightarrow> control_keys \<Rightarrow> retry_policy \<Rightarrow> control_listing \<Rightarrow> control_object_name \<Rightarrow> string \<Rightarrow>
   ('w, unusable_replica, key_table) action" where
  "read_position P keys retry listing name expected =
     read_copies P keys retry name expected (rev (replica_copies listing (show_name name))) ReplicaAbsent"

section \<open>Reading the committed set\<close>

record short_keyring =
  sk_generation :: generation
  sk_replicas :: nat
  sk_lost :: nat
  sk_unfetched :: nat

definition short_established :: "short_keyring \<Rightarrow> bool" where
  "short_established s \<longleftrightarrow> sk_lost s > 0"

definition short_of :: "keyring_commitment \<Rightarrow> nat \<Rightarrow> nat \<Rightarrow> short_keyring option" where
  "short_of k lost unfetched =
     (if lost > 0 \<or> unfetched > 0
      then Some \<lparr>sk_generation = kc_generation k, sk_replicas = kc_replica_count k, sk_lost = lost, sk_unfetched = unfetched\<rparr>
      else None)"

record read_keyring =
  rk_table :: key_table
  rk_short :: "short_keyring option"

text \<open>\<open>ReplicaPosition::new\<close> and \<open>ControlObjectName::keyring_replica\<close> in a loop body are those of \<open>replica_name\<close>.\<close>

fun read_committed_from ::
  "'w ports \<Rightarrow> control_keys \<Rightarrow> retry_policy \<Rightarrow> control_listing \<Rightarrow> keyring_commitment \<Rightarrow> nat list \<Rightarrow>
   (nat \<times> unusable_replica) option \<Rightarrow> nat \<Rightarrow> nat \<Rightarrow> ('w, commit_error, read_keyring) action" where
  "read_committed_from P keys retry listing k [] last_read lost unfetched =
     (let (replica, cause) = (case last_read of Some l \<Rightarrow> l | None \<Rightarrow> (0, ReplicaAbsent))
      in fails (KeyringUnreadable (kc_generation k) replica cause))"
| "read_committed_from P keys retry listing k (i # is) last_read lost unfetched =
     act (yields (replica_name k i)) (\<lambda>name.
     matched (read_position P keys retry listing name (kc_set_digest k)) (\<lambda>r.
       case r of
         Inr table \<Rightarrow> gives \<lparr>rk_table = table, rk_short = short_of k lost unfetched\<rparr>
       | Inl cause \<Rightarrow>
           if is_unfetchable cause then read_committed_from P keys retry listing k is (Some (i, cause)) lost (unfetched + 1)
           else read_committed_from P keys retry listing k is (Some (i, cause)) (lost + 1) unfetched))"

definition read_committed ::
  "'w ports \<Rightarrow> control_keys \<Rightarrow> retry_policy \<Rightarrow> control_listing \<Rightarrow> keyring_commitment \<Rightarrow> ('w, commit_error, read_keyring) action" where
  "read_committed P keys retry listing k = read_committed_from P keys retry listing k [0..<kc_replica_count k] None 0 0"

definition shortfall ::
  "'w ports \<Rightarrow> control_keys \<Rightarrow> retry_policy \<Rightarrow> control_listing \<Rightarrow> keyring_commitment \<Rightarrow>
   ('w, commit_error, short_keyring option) action" where
  "shortfall P keys retry listing k =
     act (act_fold (\<lambda>(lost, unfetched) i.
            act (yields (replica_name k i)) (\<lambda>name.
            matched (read_position P keys retry listing name (kc_set_digest k)) (\<lambda>r.
              case r of
                Inr _ \<Rightarrow> gives (lost, unfetched)
              | Inl cause \<Rightarrow> gives (if is_unfetchable cause then (lost, unfetched + 1) else (lost + 1, unfetched)))))
          (0, 0) [0..<kc_replica_count k]) (\<lambda>(lost, unfetched). gives (short_of k lost unfetched))"

section \<open>Examining and repairing it\<close>

datatype rewritten_replicas = RewrittenReplicas nat "nat list"

definition rewritten_new :: "nat list \<Rightarrow> rewritten_replicas option" where
  "rewritten_new positions = (case positions of [] \<Rightarrow> None | i # is \<Rightarrow> Some (RewrittenReplicas i is))"

fun rewritten_positions :: "rewritten_replicas \<Rightarrow> nat list" where
  "rewritten_positions (RewrittenReplicas i is) = i # is"

record keyring_repair =
  kr_generation :: generation
  kr_rewritten :: rewritten_replicas

record examined =
  ex_held :: key_table
  ex_next :: generation
  ex_repair :: "keyring_repair option"

definition examined_first :: examined where
  "examined_first = \<lparr>ex_held = KeyTable [], ex_next = generation_first, ex_repair = None\<rparr>"

definition take_repair :: "examined \<Rightarrow> keyring_repair option \<times> examined" where
  "take_repair e = (ex_repair e, e\<lparr>ex_repair := None\<rparr>)"

datatype found = FoundValid | FoundLost unusable_replica | FoundUnfetchable commit_error

fun found_of :: "unusable_replica + key_table \<Rightarrow> found" where
  "found_of (Inr _) = FoundValid"
| "found_of (Inl (Unfetchable e)) = FoundUnfetchable e"
| "found_of (Inl cause) = FoundLost cause"

fun found_unusable :: "found \<Rightarrow> unusable_replica option" where
  "found_unusable FoundValid = None"
| "found_unusable (FoundLost cause) = Some cause"
| "found_unusable (FoundUnfetchable e) = Some (Unfetchable e)"

record walked_position =
  wk_index :: nat
  wk_name :: control_object_name
  wk_found :: found

definition rewrite_replica ::
  "'w ports \<Rightarrow> control_keys \<Rightarrow> retry_policy \<Rightarrow> control_object_name \<Rightarrow> string \<Rightarrow> control_payload \<Rightarrow>
   ('w, unrepaired_replica, unit) action" where
  "rewrite_replica P keys retry name expected payload =
     act (erring Unwritten (write_replica P keys retry name payload)) (\<lambda>object.
     act (erring Unconfirmed (read_replica P keys retry name object expected)) (\<lambda>_. gives ()))"

text \<open>What becomes of one position; \<open>None\<close> where it was valid.\<close>

definition repair_position ::
  "'w ports \<Rightarrow> control_keys \<Rightarrow> retry_policy \<Rightarrow> string \<Rightarrow> control_payload \<Rightarrow> walked_position \<Rightarrow>
   ('w, commit_error, (nat \<times> unrepaired_replica option) option) action" where
  "repair_position P keys retry expected payload at =
     (case wk_found at of
        FoundValid \<Rightarrow> gives None
      | FoundUnfetchable e \<Rightarrow> gives (Some (wk_index at, Some (RepairUnfetchable e)))
      | FoundLost _ \<Rightarrow> matched (rewrite_replica P keys retry (wk_name at) expected payload) (\<lambda>r.
          gives (Some (wk_index at, case r of Inl cause \<Rightarrow> Some cause | Inr _ \<Rightarrow> None))))"

definition tables_read :: "(unusable_replica + key_table) list \<Rightarrow> key_table list" where
  "tables_read rs = List.map_filter ok_of rs"

definition walk_of :: "control_object_name list \<Rightarrow> (unusable_replica + key_table) list \<Rightarrow> walked_position list" where
  "walk_of names rs =
     map (\<lambda>(i, name, r). \<lparr>wk_index = i, wk_name = name, wk_found = found_of r\<rparr>) (enumerate 0 (zip names rs))"

definition none_readable :: "keyring_commitment \<Rightarrow> walked_position list \<Rightarrow> commit_error" where
  "none_readable k walk =
     (let (replica, cause) =
        (if walk = [] then (0, ReplicaAbsent)
         else case found_unusable (wk_found (last walk)) of
                Some cause \<Rightarrow> (wk_index (last walk), cause)
              | None \<Rightarrow> (0, ReplicaAbsent))
      in KeyringUnreadable (kc_generation k) replica cause)"

definition repaired ::
  "keyring_commitment \<Rightarrow> key_table \<Rightarrow> (nat \<times> unrepaired_replica option) list \<Rightarrow> commit_error + examined" where
  "repaired k table outcomes =
     (let stopped = List.map_filter (\<lambda>(i, refusal). map_option (\<lambda>cause. (i, cause)) refusal) outcomes;
          rewritten = map fst (filter (\<lambda>(i, refusal). refusal = None) outcomes)
      in case stopped of
           (replica, cause) # _ \<Rightarrow> Err (UnrepairedKeyring (kc_generation k) (map fst stopped) rewritten replica cause)
         | [] \<Rightarrow>
             and_then (lift_model (generation_next (kc_generation k))) (\<lambda>next_generation.
               Ok \<lparr>ex_held = table, ex_next = next_generation,
                   ex_repair = map_option (\<lambda>rw. \<lparr>kr_generation = kc_generation k, kr_rewritten = rw\<rparr>) (rewritten_new rewritten)\<rparr>))"

definition examine ::
  "'w ports \<Rightarrow> control_keys \<Rightarrow> commit_policy \<Rightarrow> control_listing \<Rightarrow> keyring_commitment \<Rightarrow> ('w, commit_error, examined) action" where
  "examine P keys policy listing k =
     act (yields (collect_res (replica_name k) [0..<kc_replica_count k])) (\<lambda>names.
     act (join_each (\<lambda>name. read_position P keys (py_retry policy) listing name (kc_set_digest k)) names) (\<lambda>reads.
       case tables_read reads of
         [] \<Rightarrow> fails (none_readable k (walk_of names reads))
       | table # _ \<Rightarrow>
           act (yields (map_err FormatFailed (keyring_encode (lb_cbor (po_lib P)) table (ck_epoch keys)))) (\<lambda>payload.
           act (join_each (repair_position P keys (py_retry policy) (kc_set_digest k) payload) (walk_of names reads)) (\<lambda>repairs.
             yields (repaired k table (List.map_filter (\<lambda>r. case r of Inr outcome \<Rightarrow> outcome | Inl _ \<Rightarrow> None) repairs))))))"

section \<open>Writing a generation\<close>

definition next_elements ::
  "container_id bset \<Rightarrow> (container_id, keyring_element) btree \<Rightarrow> container_summary list \<Rightarrow> commit_error + keyring_element list" where
  "next_elements removed carried containers =
     collect_res (\<lambda>c. ok_or (UnmappedContainer (cid c)) (bt_get carried (cid c)))
       (filter (\<lambda>c. \<not> bt_contains removed (cid c)) containers)"

definition next_generation :: "'w ports \<Rightarrow> key_table \<Rightarrow> prepared_batch \<Rightarrow> ('w, commit_error, key_table) action" where
  "next_generation P carried b =
     act (erring IndexFailed (ip_containers_under (po_index P) None)) (\<lambda>containers.
       yields (and_then (next_elements (bs_collect (pb_removals b))
                           (bt_collect (map (\<lambda>e. (el_container e, e)) (elements carried))) containers) (\<lambda>kept.
                 map_err UnwritableControlValue (key_table_canonical (kept @
                   map (\<lambda>p. \<lparr>el_container = cid (add_container (pa_addition p)), el_key = Envelope (pa_envelope p)\<rparr>)
                     (pb_additions b))))))"

definition write_generation ::
  "'w ports \<Rightarrow> control_keys \<Rightarrow> commit_policy \<Rightarrow> generation \<Rightarrow> key_table \<Rightarrow> ('w, commit_error, keyring_commitment) action" where
  "write_generation P keys policy g table =
     act (yields (map_err FormatFailed (set_digest (lb_cbor (po_lib P)) (lb_blake3 (po_lib P)) table))) (\<lambda>digest.
     act (yields (map_err FormatFailed (keyring_encode (lb_cbor (po_lib P)) table (ck_epoch keys)))) (\<lambda>payload.
     act (yields (collect_res (\<lambda>i. and_then (lift_model (replica_new i (py_replica_count policy))) (\<lambda>replica.
                    lift_model (keyring_replica g digest replica))) [0..<py_replica_count policy])) (\<lambda>names.
     act (join_each (\<lambda>name. write_replica P keys (py_retry policy) name payload) names) (\<lambda>writes.
     act (yields (collect_res (\<lambda>r. r) writes)) (\<lambda>written.
     act (join_each (\<lambda>(name, object). read_replica P keys (py_retry policy) name object digest) (zip names written)) (\<lambda>reads.
     act (yields (collect_res (\<lambda>(i, r). map_err (IncompleteKeyring g i) r) (enumerate 0 reads))) (\<lambda>_.
       yields (lift_model (keyring_commitment_new g (py_replica_count policy) digest)))))))))"

definition replicate_keyring ::
  "'w ports \<Rightarrow> control_keys \<Rightarrow> commit_policy \<Rightarrow> examined \<Rightarrow> prepared_batch \<Rightarrow> ('w, commit_error, keyring_commitment) action" where
  "replicate_keyring P keys policy e b =
     act (next_generation P (ex_held e) b) (\<lambda>table. write_generation P keys policy (ex_next e) table)"

end
