(* ===== verification/In_Memory_Store.thy ===== *)
theory In_Memory_Store
  imports Keyed_Map Retry
begin

text \<open>
  \<open>in_memory_store.rs\<close>: the store that keeps everything in memory and keys objects by name, which the flows are
  specified against. The lemmas say what each name holds after each operation, that a page of a listing is the
  next stretch of the names in order, and that of the writers consuming one slot exactly one succeeds. MD5 is the
  argument \<open>md5\<close>.
\<close>

record mem_store =
  ms_live :: "(string, byte list) btree"
  ms_trashed :: "(string, byte list) btree"
  ms_puts :: "(string, nat) btree"
  ms_page_size :: nat

text \<open>\<open>assert!(page_size > 0)\<close>.\<close>

definition mem_store_new :: "nat \<Rightarrow> mem_store option" where
  "mem_store_new page_size =
     (if page_size > 0 then Some \<lparr>ms_live = [], ms_trashed = [], ms_puts = [], ms_page_size = page_size\<rparr> else None)"

definition puts_of :: "mem_store \<Rightarrow> string \<Rightarrow> nat" where
  "puts_of s name = (case bt_get (ms_puts s) name of Some n \<Rightarrow> n | None \<Rightarrow> 0)"

definition puts_total :: "mem_store \<Rightarrow> nat" where
  "puts_total s = sum_list (bt_values (ms_puts s))"

definition digest :: "(byte list \<Rightarrow> byte list) \<Rightarrow> byte list \<Rightarrow> string" where
  "digest md5 bytes = hex_encode (md5 bytes)"

definition mem_put ::
  "(byte list \<Rightarrow> byte list) \<Rightarrow> string \<Rightarrow> byte_stream \<Rightarrow> mem_store \<Rightarrow> mem_store \<times> (store_error + uploaded_object)" where
  "mem_put md5 name body s =
     (case into_bytes body of
        Inl e \<Rightarrow> (s, Err e)
      | Inr bytes \<Rightarrow>
          (s\<lparr>ms_live := bt_insert name bytes (ms_live s), ms_puts := bt_insert name (puts_of s name + 1) (ms_puts s)\<rparr>,
           Ok \<lparr>up_ref = ObjectRef name, up_hash = Some (ProviderHash (digest md5 bytes))\<rparr>))"

definition mem_reserve_create :: "string \<Rightarrow> mem_store \<Rightarrow> mem_store \<times> (store_error + commit_slot)" where
  "mem_reserve_create name s = (s, Ok (slot_by_name name))"

definition mem_put_if_absent :: "commit_slot \<Rightarrow> byte_stream \<Rightarrow> mem_store \<Rightarrow> mem_store \<times> (store_error + object_ref)" where
  "mem_put_if_absent slot body s =
     (case and_then (require_name slot) (\<lambda>name. and_then (into_bytes body) (\<lambda>bytes. Ok (name, bytes))) of
        Inl e \<Rightarrow> (s, Err e)
      | Inr (name, bytes) \<Rightarrow>
          if bt_contains (ms_live s) name then (s, Err (AlreadyExists name))
          else (s\<lparr>ms_live := bt_insert name bytes (ms_live s)\<rparr>, Ok (ObjectRef name)))"

definition mem_object_at :: "commit_slot \<Rightarrow> store_error + object_ref" where
  "mem_object_at slot = and_then (require_name slot) (\<lambda>name. Ok (ObjectRef name))"

fun ref_str :: "object_ref \<Rightarrow> string" where
  "ref_str (ObjectRef name) = name"

definition mem_held :: "mem_store \<Rightarrow> string \<Rightarrow> byte list option" where
  "mem_held s name = (case bt_get (ms_live s) name of Some bytes \<Rightarrow> Some bytes | None \<Rightarrow> bt_get (ms_trashed s) name)"

definition mem_get :: "object_ref \<Rightarrow> (nat \<times> nat) option \<Rightarrow> mem_store \<Rightarrow> store_error + byte_stream" where
  "mem_get object asked s =
     (let name = ref_str object
      in and_then (ok_or (NotFound (MissingObject name)) (mem_held s name)) (\<lambda>bytes.
         case asked of
           None \<Rightarrow> Ok (stream_from bytes)
         | Some (start, stop) \<Rightarrow>
             if start \<ge> stop then Err Unsupported
             else let stop = min stop (length bytes)
                  in if start \<ge> length bytes then Err Unsupported else Ok (stream_from (slice start stop bytes))))"

definition info_of :: "(byte list \<Rightarrow> byte list) \<Rightarrow> string \<times> byte list \<Rightarrow> object_info" where
  "info_of md5 = (\<lambda>(name, bytes).
     \<lparr>oi_ref = ObjectRef name, oi_name = name, oi_hash = Some (ProviderHash (digest md5 bytes))\<rparr>)"

definition mem_list :: "(byte list \<Rightarrow> byte list) \<Rightarrow> page_token option \<Rightarrow> mem_store \<Rightarrow> object_page" where
  "mem_list md5 page s =
     (let remaining = dropWhile (\<lambda>(name, _). case page of Some token \<Rightarrow> name \<le> token_str token | None \<Rightarrow> False) (ms_live s);
          listed = map (info_of md5) (take (ms_page_size s) remaining)
      in if listed \<noteq> [] \<and> drop (ms_page_size s) remaining \<noteq> []
         then page_resumable listed (PageToken (oi_name (last listed)))
         else page_last listed)"

definition mem_trash :: "object_ref \<Rightarrow> mem_store \<Rightarrow> mem_store" where
  "mem_trash object s =
     (let name = ref_str object
      in case bt_get (ms_live s) name of
           None \<Rightarrow> s
         | Some bytes \<Rightarrow> s\<lparr>ms_live := bt_remove name (ms_live s), ms_trashed := bt_insert name bytes (ms_trashed s)\<rparr>)"

definition mem_purge :: "object_ref \<Rightarrow> mem_store \<Rightarrow> mem_store" where
  "mem_purge object s =
     (let name = ref_str object
      in s\<lparr>ms_live := bt_remove name (ms_live s), ms_trashed := bt_remove name (ms_trashed s)\<rparr>)"

section \<open>What a name holds\<close>

definition mem_ok :: "mem_store \<Rightarrow> bool" where
  "mem_ok s \<longleftrightarrow> bt_inv (ms_live s) \<and> bt_inv (ms_trashed s) \<and> bt_inv (ms_puts s) \<and> 0 < ms_page_size s"

lemma mem_okD:
  assumes "mem_ok s"
  shows "bt_inv (ms_live s)" and "bt_inv (ms_trashed s)" and "bt_inv (ms_puts s)" and "0 < ms_page_size s"
  using assms by (simp_all add: mem_ok_def)

lemma bt_contains_get: "bt_contains m k \<longleftrightarrow> bt_get m k \<noteq> None"
  by (simp add: bt_contains_iff bt_get_def map_of_eq_None_iff)

lemma mem_ok_new: "mem_store_new n = Some s \<Longrightarrow> mem_ok s"
  by (auto simp: mem_store_new_def mem_ok_def split: if_splits)

lemma mem_put_ok: "mem_ok s \<Longrightarrow> mem_ok (fst (mem_put md5 name body s))"
  by (auto simp: mem_put_def mem_ok_def bt_inv_insert split: sum.splits)

lemma mem_put_if_absent_ok: "mem_ok s \<Longrightarrow> mem_ok (fst (mem_put_if_absent slot body s))"
  by (auto simp: mem_put_if_absent_def mem_ok_def bt_inv_insert split: sum.splits)

lemma mem_trash_ok: "mem_ok s \<Longrightarrow> mem_ok (mem_trash object s)"
  by (auto simp: mem_trash_def mem_ok_def Let_def bt_inv_insert bt_inv_remove split: option.splits)

lemma mem_purge_ok: "mem_ok s \<Longrightarrow> mem_ok (mem_purge object s)"
  by (auto simp: mem_purge_def mem_ok_def Let_def bt_inv_remove)

text \<open>What the listing reaches.\<close>

definition live_at :: "mem_store \<Rightarrow> string \<Rightarrow> byte list option" where
  "live_at s = bt_get (ms_live s)"

lemma live_at_put:
  assumes "mem_ok s" and "length bytes < 2 ^ 64 - 1" and "mem_put md5 name (stream_from bytes) s = (t, r)"
  shows "r = Ok \<lparr>up_ref = ObjectRef name, up_hash = Some (ProviderHash (digest md5 bytes))\<rparr>"
    and "live_at t = (live_at s)(name \<mapsto> bytes)"
  using assms by (auto simp: mem_put_def into_bytes_from live_at_def bt_get_insert mem_okD)

lemma live_at_absent:
  assumes "mem_ok s" and "mem_put_if_absent slot (stream_from bytes) s = (t, r)" and "length bytes < 2 ^ 64 - 1"
    and "cs_provider_id slot = None"
  shows "(case live_at s (cs_name slot) of
      None \<Rightarrow> r = Ok (ObjectRef (cs_name slot)) \<and> live_at t = (live_at s)(cs_name slot \<mapsto> bytes)
    | Some _ \<Rightarrow> r = Err (AlreadyExists (cs_name slot)) \<and> t = s)"
  using assms
  by (auto simp: mem_put_if_absent_def require_name_def into_bytes_from live_at_def bt_get_insert mem_okD bt_contains_get
      split: option.splits if_splits)

lemma live_at_trash: "mem_ok s \<Longrightarrow> live_at (mem_trash object s) = (live_at s)(ref_str object := None)"
  by (auto simp: mem_trash_def live_at_def Let_def bt_get_remove mem_okD fun_upd_idem_iff split: option.splits)

lemma live_at_purge: "mem_ok s \<Longrightarrow> live_at (mem_purge object s) = (live_at s)(ref_str object := None)"
  by (simp add: mem_purge_def live_at_def Let_def bt_get_remove mem_okD)

text \<open>What is live is read back, and trash keeps it readable.\<close>

lemma mem_get_live: "live_at s name = Some bytes \<Longrightarrow> mem_get (ObjectRef name) None s = Inr (stream_from bytes)"
  by (simp add: mem_get_def mem_held_def live_at_def Let_def)

lemma mem_get_trashed: "mem_ok s \<Longrightarrow> mem_held (mem_trash object s) name = mem_held s name"
  by (auto simp: mem_held_def mem_trash_def Let_def bt_get_remove bt_get_insert mem_okD split: option.splits)

lemma mem_get_purged:
  assumes "mem_ok s"
  shows "mem_get object asked (mem_purge object s) = Inl (NotFound (MissingObject (ref_str object)))"
proof -
  have "mem_held (mem_purge object s) (ref_str object) = None"
    by (simp add: mem_held_def mem_purge_def Let_def bt_get_remove mem_okD [OF assms])
  then show ?thesis by (simp add: mem_get_def Let_def)
qed

lemma mem_get_front:
  assumes "live_at s name = Some bytes" and "0 < n" and "bytes \<noteq> []"
  shows "mem_get (ObjectRef name) (Some (0, n)) s = Inr (stream_from (take n bytes))"
  using assms by (simp add: mem_get_def mem_held_def live_at_def Let_def slice_def min_def)

section \<open>Listing\<close>

lemma dropWhile_split:
  assumes "\<And>x. x \<in> set xs \<Longrightarrow> P x" and "\<And>y. y \<in> set ys \<Longrightarrow> \<not> P y"
  shows "dropWhile P (xs @ ys) = ys"
  using assms by (induction xs) (auto simp: dropWhile_eq_self_iff)

text \<open>What a listing resumed at a token has ahead of it.\<close>

definition past_token :: "page_token option \<Rightarrow> mem_store \<Rightarrow> (string \<times> byte list) list" where
  "past_token t s = dropWhile (\<lambda>(name, _). case t of Some token \<Rightarrow> name \<le> token_str token | None \<Rightarrow> False) (ms_live s)"

lemma past_token_None [simp]: "past_token None s = ms_live s"
  by (simp add: past_token_def dropWhile_eq_self_iff)

lemma past_token_last:
  assumes ok: "mem_ok s" and live: "ms_live s = seen @ rest" and "seen \<noteq> []"
  shows "past_token (Some (PageToken (fst (last seen)))) s = rest"
proof -
  have "sorted_wrt (<) (map fst (seen @ rest))" using mem_okD(1) [OF ok] live by (simp add: bt_inv_def)
  moreover obtain k v before where s: "seen = before @ [(k, v)]" using assms(3) by (metis rev_exhaust surj_pair)
  ultimately have srt: "sorted_wrt (<) (map fst ((before @ [(k, v)]) @ rest))" by simp
  have "k' \<le> k" if "(k', v') \<in> set seen" for k' v' using that srt by (force simp: s sorted_wrt_append)
  moreover have "\<not> k' \<le> k" if "(k', v') \<in> set rest" for k' v' using that srt by (force simp: sorted_wrt_append)
  ultimately show ?thesis unfolding past_token_def live by (intro dropWhile_split) (auto simp: s)
qed

lemma mem_list_next:
  assumes ok: "mem_ok s"
  shows "pg_objects (mem_list md5 t s) = map (info_of md5) (take (ms_page_size s) (past_token t s))"
    and "pg_next (mem_list md5 t s) = None \<longleftrightarrow> length (past_token t s) \<le> ms_page_size s"
    and "pg_next (mem_list md5 t s) \<noteq> None \<Longrightarrow>
      past_token (pg_next (mem_list md5 t s)) s = drop (ms_page_size s) (past_token t s)"
proof -
  let ?n = "ms_page_size s" and ?rest = "past_token t s"
  have list: "mem_list md5 t s = (let listed = map (info_of md5) (take ?n ?rest)
      in if listed \<noteq> [] \<and> drop ?n ?rest \<noteq> [] then page_resumable listed (PageToken (oi_name (last listed))) else page_last listed)"
    unfolding mem_list_def past_token_def Let_def ..
  show "pg_objects (mem_list md5 t s) = map (info_of md5) (take ?n ?rest)"
    by (simp add: list Let_def page_resumable_def page_last_def)
  show none: "pg_next (mem_list md5 t s) = None \<longleftrightarrow> length ?rest \<le> ?n"
    using mem_okD(4) [OF ok] by (auto simp: list Let_def page_resumable_def page_last_def)
  assume "pg_next (mem_list md5 t s) \<noteq> None"
  then have long: "\<not> length ?rest \<le> ?n" using none by simp
  obtain seen where live: "ms_live s = seen @ ?rest"
    unfolding past_token_def by (metis takeWhile_dropWhile_id)
  let ?seen = "seen @ take ?n ?rest"
  have ne: "take ?n ?rest \<noteq> []" using long mem_okD(4) [OF ok] by auto
  then have "oi_name (last (map (info_of md5) (take ?n ?rest))) = fst (last ?seen)"
    by (simp add: last_map info_of_def split: prod.splits)
  then have "pg_next (mem_list md5 t s) = Some (PageToken (fst (last ?seen)))"
    using long ne by (simp add: list Let_def page_resumable_def)
  then show "past_token (pg_next (mem_list md5 t s)) s = drop ?n ?rest"
    using past_token_last [OF ok, of ?seen "drop ?n ?rest"] live ne by simp
qed

section \<open>The race for a slot\<close>

text \<open>Writers that consume one slot, in the order their creates reach the store.\<close>

fun race :: "commit_slot \<Rightarrow> byte list list \<Rightarrow> mem_store \<Rightarrow> (store_error + object_ref) list \<times> mem_store" where
  "race slot [] s = ([], s)"
| "race slot (b # bs) s =
     (let (s, r) = mem_put_if_absent slot (stream_from b) s; (rs, s) = race slot bs s in (r # rs, s))"

lemma race_taken:
  assumes "live_at s (cs_name slot) = Some held" and "cs_provider_id slot = None" and "\<forall>b \<in> set bs. length b < 2 ^ 64 - 1"
  shows "race slot bs s = (replicate (length bs) (Err (AlreadyExists (cs_name slot))), s)"
  using assms
proof (induction bs)
  case (Cons b bs)
  have "mem_put_if_absent slot (stream_from b) s = (s, Err (AlreadyExists (cs_name slot)))"
    using Cons.prems by (simp add: mem_put_if_absent_def require_name_def into_bytes_from live_at_def bt_contains_get)
  then show ?case using Cons by simp
qed simp

lemma race_free:
  assumes ok: "mem_ok s" and free: "live_at s (cs_name slot) = None" and "cs_provider_id slot = None"
    and short: "\<forall>b \<in> set (b # bs). length b < 2 ^ 64 - 1"
  shows "\<exists>t. race slot (b # bs) s =
      (Ok (ObjectRef (cs_name slot)) # replicate (length bs) (Err (AlreadyExists (cs_name slot))), t) \<and>
    live_at t = (live_at s)(cs_name slot \<mapsto> b) \<and> mem_ok t"
proof -
  obtain t r where t: "mem_put_if_absent slot (stream_from b) s = (t, r)" by fastforce
  have "r = Ok (ObjectRef (cs_name slot))" "live_at t = (live_at s)(cs_name slot \<mapsto> b)"
    using live_at_absent [OF ok t] assms by simp_all
  moreover have "mem_ok t" using mem_put_if_absent_ok [OF ok, of slot "stream_from b"] t by simp
  moreover have "race slot bs t = (replicate (length bs) (Err (AlreadyExists (cs_name slot))), t)"
    by (rule race_taken [of t slot b]) (use assms calculation in auto)
  ultimately show ?thesis using t by simp
qed

end
