(* ===== verification/Library_World.thy ===== *)
theory Library_World
  imports Control_Listing In_Memory_Store
begin

text \<open>
  What the flows rely on of the ports while nobody else is writing, as locales: \<open>steady_storage\<close> is the contract
  \<open>object_store.rs\<close> documents for reading and listing, \<open>library_world\<close> adds an Index that behaves as the in-memory
  one does. Both are interpreted on the world of the in-memory store and the in-memory Index (\<open>mem_ports\<close>), whose
  operating system hands out the bytes of \<open>mw_entropy\<close>.
\<close>

section \<open>Storage nobody writes to\<close>

text \<open>
  \<open>objects w\<close> are the live objects in listing order; \<open>ahead w t\<close> is what a listing resumed at \<open>t\<close> still has to
  report and \<open>pages w t\<close> in how many pages.
\<close>

locale steady_storage =
  fixes P :: "'w ports" and ok :: "'w \<Rightarrow> bool" and objects :: "'w \<Rightarrow> (object_info \<times> byte list) list"
    and ahead :: "'w \<Rightarrow> page_token option \<Rightarrow> object_info list" and pages :: "'w \<Rightarrow> page_token option \<Rightarrow> nat"
  assumes refs_distinct: "ok w \<Longrightarrow> distinct (map (\<lambda>(i, _). oi_ref i) (objects w))"
    and addressable: "ok w \<Longrightarrow> (i, bytes) \<in> set (objects w) \<Longrightarrow> length bytes < 2 ^ 64 - 1"
    and get_whole: "ok w \<Longrightarrow> (i, bytes) \<in> set (objects w) \<Longrightarrow>
      store_get (po_store P) (oi_ref i) None w = Some (w, Ok (stream_from bytes))"
    and get_front: "ok w \<Longrightarrow> (i, bytes) \<in> set (objects w) \<Longrightarrow> 0 < n \<Longrightarrow> bytes \<noteq> [] \<Longrightarrow>
      store_get (po_store P) (oi_ref i) (Some (0, n)) w = Some (w, Ok (stream_from (take n bytes)))"
    and ahead_None: "ok w \<Longrightarrow> ahead w None = map fst (objects w)"
    and list_page: "ok w \<Longrightarrow> \<exists>page. store_list (po_store P) t w = Some (w, Ok page) \<and>
      ahead w t = pg_objects page @ (if pg_next page = None then [] else ahead w (pg_next page)) \<and>
      pages w t = Suc (if pg_next page = None then 0 else pages w (pg_next page))"
begin

lemma list_retried:
  "ok w \<Longrightarrow> \<exists>page. retry_run (po_system P) retry (store_list (po_store P) t) w = Some (w, Ok page) \<and>
      ahead w t = pg_objects page @ (if pg_next page = None then [] else ahead w (pg_next page)) \<and>
      pages w t = Suc (if pg_next page = None then 0 else pages w (pg_next page))"
  using list_page [of w t] retry_once [of "store_list (po_store P) t" w w _ "po_system P" retry] by blast

text \<open>The walk reads the whole listing, and ends.\<close>

lemma read_pages_eq:
  assumes "ok w" and "pages w t + n \<le> max_pages"
  shows "read_pages P retry l t n w = Some (w, filing l (ahead w t))"
  using assms(2)
proof (induction "pages w t" arbitrary: l t n rule: less_induct)
  case less
  obtain page where page: "retry_run (po_system P) retry (store_list (po_store P) t) w = Some (w, Ok page)"
    and rest: "ahead w t = pg_objects page @ (if pg_next page = None then [] else ahead w (pg_next page))"
    and count: "pages w t = Suc (if pg_next page = None then 0 else pages w (pg_next page))"
    using list_retried [OF assms(1)] by blast
  have run: "read_pages P retry l t n w = act (yields (filing l (pg_objects page))) (\<lambda>l.
       if pg_next page = None then gives l
       else if n + 1 \<ge> max_pages then fails (Storage (ListingPastCap (n + 1)))
       else read_pages P retry l (pg_next page) (n + 1)) w"
    unfolding read_pages.simps [of P retry l t n] by (rule act_run) (use page in \<open>simp add: run_simps\<close>)
  show ?case
  proof (cases "filing l (pg_objects page)")
    case (Inl e)
    then show ?thesis by (simp add: run rest try_fold_append yields_runs)
  next
    case (Inr l')
    show ?thesis
    proof (cases "pg_next page = None")
      case True
      then show ?thesis using Inr by (simp add: run rest yields_runs)
    next
      case False
      then obtain u where u: "pg_next page = Some u" by blast
      have "0 < pages w (Some u)" using list_retried [OF assms(1), of retry "Some u"] by auto
      then have "n + 1 < max_pages" and "pages w (Some u) + (n + 1) \<le> max_pages"
        using less(2) count u by simp_all
      then show ?thesis using Inr u less(1) [of "Some u" "n + 1" l'] count
        by (simp add: run rest try_fold_append)
    qed
  qed
qed

lemma listing_read_eq:
  assumes "ok w" and "pages w None \<le> max_pages"
  shows "listing_read P retry w = Some (w, filing listing_default (map fst (objects w)))"
  using read_pages_eq [OF assms(1), of None 0] assms by (simp add: listing_read_def ahead_None)

text \<open>A walk past the cap is refused, whatever Storage goes on reporting.\<close>

lemma read_pages_past_cap:
  assumes "ok w" and "max_pages < pages w t + n" and "n < max_pages"
  shows "\<exists>e. read_pages P retry l t n w = Some (w, Err e)"
  using assms(2,3)
proof (induction "max_pages - n" arbitrary: l t n rule: less_induct)
  case less
  obtain page where page: "retry_run (po_system P) retry (store_list (po_store P) t) w = Some (w, Ok page)"
    and count: "pages w t = Suc (if pg_next page = None then 0 else pages w (pg_next page))"
    using list_retried [OF assms(1)] by blast
  have run: "read_pages P retry l t n w = act (yields (filing l (pg_objects page))) (\<lambda>l.
       if pg_next page = None then gives l
       else if n + 1 \<ge> max_pages then fails (Storage (ListingPastCap (n + 1)))
       else read_pages P retry l (pg_next page) (n + 1)) w"
    unfolding read_pages.simps [of P retry l t n] by (rule act_run) (use page in \<open>simp add: run_simps\<close>)
  obtain u where u: "pg_next page = Some u" using less(2,3) count by (cases "pg_next page") simp_all
  show ?case
  proof (cases "filing l (pg_objects page)")
    case (Inr l')
    show ?thesis
    proof (cases "n + 1 \<ge> max_pages")
      case False
      then show ?thesis using Inr u less(1) [of "n + 1" "Some u" l'] less(2,3) count by (simp add: run)
    qed (use Inr u in \<open>simp add: run yields_runs\<close>)
  qed (simp add: run yields_runs)
qed

text \<open>What a listed object holds is what is read.\<close>

lemma fetch_object_eq:
  assumes "ok w" and "(i, bytes) \<in> set (objects w)"
  shows "fetch_object P retry name (oi_ref i) w = Some (w,
    if length bytes > max_control_object_len_at name then Err (ObjectTooLong (length bytes) (max_control_object_len_at name))
    else Ok bytes)"
proof -
  have "retry_run (po_system P) retry (store_get (po_store P) (oi_ref i) None) w = Some (w, Ok (stream_from bytes))"
    by (rule retry_once, rule get_whole [OF assms]) simp
  then show ?thesis using into_bytes_within_from [OF addressable [OF assms]]
    by (simp add: fetch_object_def act_run yields_runs)
qed

lemma read_object_eq:
  assumes "ok w" and "(i, bytes) \<in> set (objects w)"
  shows "read_object P retry keys name (oi_ref i) w = Some (w,
    if length bytes > max_control_object_len_at name
    then Err (Storage (ObjectTooLong (length bytes) (max_control_object_len_at name)))
    else open_object P keys name bytes)"
  using fetch_object_eq [OF assms, of retry name] 
  by (simp add: read_object_def act_def erring_def matched_def yields_runs)

lemma fetch_header_eq:
  assumes "ok w" and "(i, bytes) \<in> set (objects w)" and "bytes \<noteq> []"
  shows "fetch_header P retry (oi_ref i) w =
    Some (w, map_err FormatFailed (control_header_parse (take control_header_len bytes)))"
proof -
  have "retry_run (po_system P) retry (store_get (po_store P) (oi_ref i) (Some (0, control_header_len))) w =
      Some (w, Ok (stream_from (take control_header_len bytes)))"
    by (rule retry_once, rule get_front [OF assms(1,2) _ assms(3)]) (simp_all add: control_header_len_def)
  then show ?thesis
    by (simp add: fetch_header_def act_def erring_def matched_def collect_front_from yields_runs)
qed

end

section \<open>The world of a Library\<close>

locale library_world = steady_storage +
  fixes catalog :: "'w \<Rightarrow> index_state"
  assumes ip_checkpoint_eq: "ok w \<Longrightarrow> ip_checkpoint (po_index P) w = Some (w, Ok (ix_checkpoint (catalog w)))"
    and ip_restore_eq: "ok w \<Longrightarrow> \<exists>v. ip_restore (po_index P) c w = Some (v, snd (index_restore c (catalog w))) \<and>
      catalog v = fst (index_restore c (catalog w)) \<and> ok v \<and> objects v = objects w"
    and ip_apply_eq: "ok w \<Longrightarrow> index_apply r (catalog w) = Some (s, res) \<Longrightarrow>
      \<exists>v. ip_apply (po_index P) r w = Some (v, res) \<and> catalog v = s \<and> ok v \<and> objects v = objects w"

section \<open>In memory\<close>

record mem_world =
  mw_store :: mem_store
  mw_index :: index_state
  mw_entropy :: "byte list"

definition on_store :: "(mem_store \<Rightarrow> mem_store \<times> ('e + 'a)) \<Rightarrow> (mem_world, 'e, 'a) action" where
  "on_store f w = (let (s, r) = f (mw_store w) in Some (w\<lparr>mw_store := s\<rparr>, r))"

definition on_index :: "(index_state \<Rightarrow> (index_state \<times> ('e + 'a)) option) \<Rightarrow> (mem_world, 'e, 'a) action" where
  "on_index f w = map_option (\<lambda>(s, r). (w\<lparr>mw_index := s\<rparr>, r)) (f (mw_index w))"

definition mem_object_store :: "(byte list \<Rightarrow> byte list) \<Rightarrow> mem_world object_store" where
  "mem_object_store md5 =
     \<lparr>store_put = \<lambda>name body. on_store (mem_put md5 name body),
      store_reserve_create = \<lambda>name. on_store (mem_reserve_create name),
      store_put_if_absent = \<lambda>slot body. on_store (mem_put_if_absent slot body),
      store_object_at = mem_object_at,
      store_get = \<lambda>object asked. on_store (\<lambda>s. (s, mem_get object asked s)),
      store_list = \<lambda>page. on_store (\<lambda>s. (s, Ok (mem_list md5 page s))),
      store_trash = \<lambda>object. on_store (\<lambda>s. (mem_trash object s, Ok ())),
      store_purge = \<lambda>object. on_store (\<lambda>s. (mem_purge object s, Ok ()))\<rparr>"

definition mem_index_port :: "mem_world index_port" where
  "mem_index_port =
     \<lparr>ip_checkpoint = on_index (\<lambda>s. Some (s, Ok (ix_checkpoint s))),
      ip_restore = \<lambda>c. on_index (\<lambda>s. Some (index_restore c s)),
      ip_apply = \<lambda>r. on_index (index_apply r),
      ip_refresh = \<lambda>b. on_index (index_refresh b),
      ip_complete_applied = \<lambda>b. on_index (\<lambda>s. Some (index_complete_applied b s)),
      ip_snapshot = on_index (\<lambda>s. Some (s, state_snapshot s)),
      ip_entries_under = \<lambda>prefix. on_index (\<lambda>s. Some (s, Ok (entries_under s prefix))),
      ip_containers_under = \<lambda>prefix. on_index (\<lambda>s. Some (s, Ok (containers_under s prefix))),
      ip_mark_commit_attempted = \<lambda>cs slot. on_index (\<lambda>s. Some (mark_commit_attempted cs slot s, Ok ()))\<rparr>"

text \<open>An operating system that runs out of entropy refuses it.\<close>

definition mem_system :: "mem_world system" where
  "mem_system =
     \<lparr>sys_fill = \<lambda>n w. if n \<le> length (mw_entropy w)
        then (w\<lparr>mw_entropy := drop n (mw_entropy w)\<rparr>, Some (take n (mw_entropy w))) else (w, None),
      sys_sleep = \<lambda>_ w. w\<rparr>"

definition mem_ports :: "(byte list \<Rightarrow> byte list) \<Rightarrow> libraries \<Rightarrow> mem_world ports" where
  "mem_ports md5 lib =
     \<lparr>po_store = mem_object_store md5, po_index = mem_index_port, po_system = mem_system, po_lib = lib\<rparr>"

definition mem_objects :: "(byte list \<Rightarrow> byte list) \<Rightarrow> mem_world \<Rightarrow> (object_info \<times> byte list) list" where
  "mem_objects md5 w = map (\<lambda>x. (info_of md5 x, snd x)) (ms_live (mw_store w))"

definition mem_world_ok :: "mem_world \<Rightarrow> bool" where
  "mem_world_ok w \<longleftrightarrow> mem_ok (mw_store w) \<and> (\<forall>(name, bytes) \<in> set (ms_live (mw_store w)). length bytes < 2 ^ 64 - 1)"

definition pages_for :: "nat \<Rightarrow> nat \<Rightarrow> nat" where
  "pages_for page_size n = (if n = 0 then 1 else (n + page_size - 1) div page_size)"

lemma pages_for_next:
  assumes "0 < page_size"
  shows "pages_for page_size n = Suc (if n \<le> page_size then 0 else pages_for page_size (n - page_size))"
proof (cases "n \<le> page_size")
  case True
  show ?thesis
  proof (cases "n = 0")
    case False
    then have "n + page_size - 1 = page_size + (n - 1)" by simp
    then have "pages_for page_size n = (page_size + (n - 1)) div page_size" using False by (simp only: pages_for_def if_False)
    also have "\<dots> = Suc ((n - 1) div page_size)" using assms by (subst div_add_self1) simp_all
    finally show ?thesis using True False by simp
  qed (simp add: pages_for_def)
next
  case False
  have "n + page_size - 1 = (n - page_size + page_size - 1) + page_size" using False assms by linarith
  also have "\<dots> div page_size = Suc ((n - page_size + page_size - 1) div page_size)"
    using assms by (subst div_add_self2) simp_all
  finally show ?thesis using False by (simp only: pages_for_def if_False) simp
qed

lemma mem_get_listed:
  assumes "mem_world_ok w" and "(i, bytes) \<in> set (mem_objects md5 w)"
  shows "live_at (mw_store w) (oi_name i) = Some bytes" and "oi_ref i = ObjectRef (oi_name i)"
    and "length bytes < 2 ^ 64 - 1"
proof -
  have "bt_inv (ms_live (mw_store w))" using assms(1) by (simp add: mem_world_ok_def mem_ok_def)
  moreover obtain name where n: "(name, bytes) \<in> set (ms_live (mw_store w))" "i = info_of md5 (name, bytes)"
    using assms(2) by (auto simp: mem_objects_def)
  ultimately show "live_at (mw_store w) (oi_name i) = Some bytes" and "oi_ref i = ObjectRef (oi_name i)"
    using bt_get_iff [of "ms_live (mw_store w)" name bytes] by (simp_all add: live_at_def info_of_def)
  show "length bytes < 2 ^ 64 - 1" using assms(1) n by (auto simp: mem_world_ok_def)
qed

interpretation mem_steady: steady_storage "mem_ports md5 lib" mem_world_ok "mem_objects md5"
  "\<lambda>w t. map (info_of md5) (past_token t (mw_store w))"
  "\<lambda>w t. pages_for (ms_page_size (mw_store w)) (length (past_token t (mw_store w)))"
proof unfold_locales
  fix w :: mem_world and i bytes t and n :: nat
  assume ok: "mem_world_ok w"
  then have st: "mem_ok (mw_store w)" by (simp add: mem_world_ok_def)
  show "distinct (map (\<lambda>(i, _). oi_ref i) (mem_objects md5 w))"
  proof -
    have "map (\<lambda>(i, _). oi_ref i) (mem_objects md5 w) = map ObjectRef (map fst (ms_live (mw_store w)))"
      by (simp add: mem_objects_def info_of_def case_prod_beta)
    moreover have "distinct (map fst (ms_live (mw_store w)))" using bt_inv_distinct [OF mem_okD(1) [OF st]] .
    ultimately show ?thesis by (simp only: distinct_map [of ObjectRef]) (simp add: inj_on_def)
  qed
  show "map (info_of md5) (past_token None (mw_store w)) = map fst (mem_objects md5 w)"
    by (simp add: mem_objects_def)
  show "\<exists>page. store_list (po_store (mem_ports md5 lib)) t w = Some (w, Ok page) \<and>
      map (info_of md5) (past_token t (mw_store w)) = pg_objects page @
        (if pg_next page = None then [] else map (info_of md5) (past_token (pg_next page) (mw_store w))) \<and>
      pages_for (ms_page_size (mw_store w)) (length (past_token t (mw_store w))) =
        Suc (if pg_next page = None then 0
             else pages_for (ms_page_size (mw_store w)) (length (past_token (pg_next page) (mw_store w))))"
  proof (intro exI conjI)
    let ?page = "mem_list md5 t (mw_store w)"
    note next_page = mem_list_next [OF st, of md5 t]
    show "store_list (po_store (mem_ports md5 lib)) t w = Some (w, Ok ?page)"
      by (simp add: mem_ports_def mem_object_store_def on_store_def)
    show "map (info_of md5) (past_token t (mw_store w)) = pg_objects ?page @
        (if pg_next ?page = None then [] else map (info_of md5) (past_token (pg_next ?page) (mw_store w)))"
      using next_page by (auto simp flip: map_append)
    show "pages_for (ms_page_size (mw_store w)) (length (past_token t (mw_store w))) =
        Suc (if pg_next ?page = None then 0
             else pages_for (ms_page_size (mw_store w)) (length (past_token (pg_next ?page) (mw_store w))))"
      using next_page(2,3) pages_for_next [OF mem_okD(4) [OF st], of "length (past_token t (mw_store w))"] by auto
  qed
  assume mem: "(i, bytes) \<in> set (mem_objects md5 w)"
  note l = mem_get_listed [OF ok mem]
  show "length bytes < 2 ^ 64 - 1" by (rule l(3))
  show "store_get (po_store (mem_ports md5 lib)) (oi_ref i) None w = Some (w, Ok (stream_from bytes))"
    using mem_get_live [OF l(1)] l(2) by (simp add: mem_ports_def mem_object_store_def on_store_def)
  assume "0 < n" and "bytes \<noteq> []"
  then show "store_get (po_store (mem_ports md5 lib)) (oi_ref i) (Some (0, n)) w = Some (w, Ok (stream_from (take n bytes)))"
    using mem_get_front [OF l(1)] l(2) by (simp add: mem_ports_def mem_object_store_def on_store_def)
qed

interpretation mem_library: library_world "mem_ports md5 lib" mem_world_ok "mem_objects md5"
  "\<lambda>w t. map (info_of md5) (past_token t (mw_store w))"
  "\<lambda>w t. pages_for (ms_page_size (mw_store w)) (length (past_token t (mw_store w)))" mw_index
  by unfold_locales
    (auto simp: mem_ports_def mem_index_port_def on_index_def mem_world_ok_def mem_objects_def split: prod.splits)

end
