(* ===== verification/Catch_Up.thy ===== *)
theory Catch_Up
  imports Library_World Library_History
begin

text \<open>
  \<open>commit/catch_up.rs\<close>: bringing an Index to the Library's head. The walk goes down the candidates for the newest
  checkpoint that is newer than the Index, keeping within two budgets the records it meets; the replay comes back up
  and applies every record after the starting point. \<open>library_world\<close> carries the proof that, whatever of the history
  Storage still holds as records and whatever as Snapshots, the Index ends as the Library the records make.
\<close>

section \<open>The walk\<close>

definition max_held_records :: nat where
  "max_held_records = 256"

definition max_held_bytes :: nat where
  "max_held_bytes = 64 * 1024 * 1024"

record held =
  hd_records :: "(generation, decoded_control_object) btree"
  hd_bytes :: nat
  hd_passed_over :: nat

definition held_default :: held where
  "held_default = \<lparr>hd_records = [], hd_bytes = 0, hd_passed_over = 0\<rparr>"

definition held_keep :: "generation \<Rightarrow> decoded_control_object \<Rightarrow> held \<Rightarrow> held" where
  "held_keep g d h =
     (let cost = length (pl_body (dc_payload d))
      in if length (hd_records h) \<ge> max_held_records \<or> saturating_add64 (hd_bytes h) cost > max_held_bytes
         then h\<lparr>hd_passed_over := wadd64 (hd_passed_over h) 1\<rparr>
         else h\<lparr>hd_bytes := wadd64 (hd_bytes h) cost, hd_records := bt_insert g d (hd_records h)\<rparr>)"

definition held_take :: "generation \<Rightarrow> held \<Rightarrow> decoded_control_object option \<times> held" where
  "held_take g h = (bt_get (hd_records h) g, h\<lparr>hd_records := bt_remove g (hd_records h)\<rparr>)"

text \<open>What reading takes, bundled.\<close>

record 'w reading =
  rd_ports :: "'w ports"
  rd_keys :: control_keys
  rd_retry :: retry_policy
  rd_listing :: control_listing

definition reading_open :: "'w reading \<Rightarrow> control_object_name \<Rightarrow> ('w, commit_error, decoded_control_object option) action" where
  "reading_open R name =
     (case listed_handle (rd_listing R) (show_name name) of
        None \<Rightarrow> gives None
      | Some object \<Rightarrow> matched (read_object (rd_ports R) (rd_retry R) (rd_keys R) name object) (\<lambda>r.
          case r of
            Inr decoded \<Rightarrow> gives (Some decoded)
          | Inl e \<Rightarrow> if is_storage_not_found e then gives None else fails e))"

definition is_unaddressable :: "format_error \<Rightarrow> bool" where
  "is_unaddressable e \<longleftrightarrow> (case e of UnaddressableOnThisBuild _ _ \<Rightarrow> True | _ \<Rightarrow> False)"

definition skippable :: "commit_error \<Rightarrow> bool" where
  "skippable e \<longleftrightarrow>
     (case e of
        FormatFailed f \<Rightarrow> \<not> is_unaddressable f
      | Storage (ObjectTooLong _ _) \<Rightarrow> True
      | _ \<Rightarrow> False)"

definition decode_record :: "'w ports \<Rightarrow> decoded_control_object \<Rightarrow> generation \<Rightarrow> format_error + journal_record" where
  "decode_record P d g = journal_decode (lb_cbor (po_lib P)) (lb_serde (po_lib P)) (lb_nfc (po_lib P)) (dc_payload d) g"

definition decode_snapshot :: "'w ports \<Rightarrow> decoded_control_object \<Rightarrow> generation \<Rightarrow> format_error + snapshot_payload" where
  "decode_snapshot P d g =
     snapshot_decode (lb_cbor (po_lib P)) (lb_serde (po_lib P)) (lb_nfc (po_lib P)) (dc_payload d) (dc_kind d) g"

fun adopt_from ::
  "'w reading \<Rightarrow> generation \<Rightarrow> control_object_name list \<Rightarrow> held \<Rightarrow>
   ('w, commit_error, (control_object_name \<times> snapshot_content) option \<times> held) action" where
  "adopt_from R g [] fetched = gives (None, fetched)"
| "adopt_from R g (name # names) fetched = matched (reading_open R name) (\<lambda>r.
     case r of
       Inr None \<Rightarrow> adopt_from R g names fetched
     | Inr (Some decoded) \<Rightarrow>
         (case dc_kind decoded of
            Journal \<Rightarrow> adopt_from R g names (held_keep g decoded fetched)
          | Keyring \<Rightarrow> fails (CorruptControlObject name (FaultKindNotAdmitted (dc_kind decoded)))
          | _ \<Rightarrow>
             (case decode_snapshot (rd_ports R) decoded g of
                Inl e \<Rightarrow> fails (CorruptControlObject name (Unopenable e))
              | Inr payload \<Rightarrow> gives (Some (name, sp_content payload), fetched)))
     | Inl e \<Rightarrow> if skippable e then adopt_from R g names fetched else fails e)"

definition adoptable ::
  "'w reading \<Rightarrow> generation \<Rightarrow> held \<Rightarrow> ('w, commit_error, (control_object_name \<times> snapshot_content) option \<times> held) action" where
  "adoptable R g fetched =
     adopt_from R g ((if has_snapshot (rd_listing R) g then [IndexSnapshotName g] else []) @
                     (if has_head (rd_listing R) g then [HeadName g] else [])) fetched"

text \<open>\<open>newest_checkpoint.max(Some(generation))\<close>.\<close>

definition newer_of :: "generation option \<Rightarrow> generation \<Rightarrow> generation option" where
  "newer_of latest g = Some (case latest of None \<Rightarrow> g | Some h \<Rightarrow> max h g)"

fun seek_start ::
  "'w reading \<Rightarrow> generation option \<Rightarrow> generation list \<Rightarrow> generation option \<Rightarrow> held \<Rightarrow>
   ('w, commit_error, generation option \<times> generation option \<times> held) action" where
  "seek_start R stands_at [] newest_checkpoint fetched = gives (stands_at, newest_checkpoint, fetched)"
| "seek_start R stands_at (g # gs) newest_checkpoint fetched =
     (if (case stands_at of None \<Rightarrow> False | Some h \<Rightarrow> g \<le> h) then gives (stands_at, newest_checkpoint, fetched)
      else act (adoptable R g fetched) (\<lambda>(found, fetched).
        case found of
          None \<Rightarrow> seek_start R stands_at gs newest_checkpoint fetched
        | Some (object, found_content) \<Rightarrow>
            act (erring IndexFailed (ip_restore (po_index (rd_ports R)) (adopted_from_object object found_content))) (\<lambda>_.
              gives (Some g, newer_of newest_checkpoint g, fetched))))"

section \<open>The replay\<close>

definition covered_by_checkpoint :: "'w ports \<Rightarrow> generation \<Rightarrow> ('w, commit_error, bool) action" where
  "covered_by_checkpoint P g =
     act (erring IndexFailed (ip_checkpoint (po_index P))) (\<lambda>at.
       gives (case at of None \<Rightarrow> False | Some c \<Rightarrow> g \<le> cp_head c))"

datatype replayed = ReplayApplied | ReplayAlreadyApplied

definition replay_record :: "'w ports \<Rightarrow> journal_record \<Rightarrow> ('w, commit_error, replayed) action" where
  "replay_record P r =
     matched (ip_apply (po_index P) r) (\<lambda>outcome.
       case outcome of
         Inr _ \<Rightarrow> gives ReplayApplied
       | Inl (AlreadyApplied g checkpoint) \<Rightarrow> gives ReplayAlreadyApplied
       | Inl refusal \<Rightarrow> fails (IndexFailed refusal))"

definition replay_one :: "'w reading \<Rightarrow> held \<Rightarrow> nat \<Rightarrow> ('w, commit_error, held) action" where
  "replay_one R fetched n =
     expects (generation_new n) (\<lambda>g.
       let (kept, fetched) = held_take g fetched
       in act (case kept of
                 Some decoded \<Rightarrow> gives decoded
               | None \<Rightarrow> act (reading_open R (HeadName g)) (\<lambda>decoded. yields (ok_or (MissingHead g) decoded))) (\<lambda>decoded.
          case dc_kind decoded of
            Journal \<Rightarrow>
              act (covered_by_checkpoint (rd_ports R) g) (\<lambda>covered.
                if covered then gives fetched
                else act (yields (map_err FormatFailed (decode_record (rd_ports R) decoded g))) (\<lambda>record'.
                     act (replay_record (rd_ports R) record') (\<lambda>_. gives fetched)))
          | ActivationSnapshot \<Rightarrow> fails (EpochActivated g)
          | _ \<Rightarrow> fails (CorruptControlObject (HeadName g) (FaultKindNotAdmitted (dc_kind decoded)))))"

definition generation_after :: "generation option \<Rightarrow> commit_error + nat" where
  "generation_after start =
     (case start of
        Some g \<Rightarrow> and_then (map_err commit_model (generation_next g)) (\<lambda>h. Ok (gen h))
      | None \<Rightarrow> Ok (gen generation_first))"

definition replay ::
  "'w reading \<Rightarrow> generation option \<Rightarrow> generation option \<Rightarrow> held \<Rightarrow> ('w, commit_error, unit) action" where
  "replay R start head fetched =
     (case head of
        None \<Rightarrow> gives ()
      | Some head \<Rightarrow>
          act (yields (generation_after start)) (\<lambda>first.
          act (act_fold (replay_one R) fetched [first..<gen head + 1]) (\<lambda>_. gives ())))"

definition read_one :: "'w reading \<Rightarrow> journal_record list \<Rightarrow> generation \<Rightarrow> ('w, commit_error, journal_record list) action" where
  "read_one R rs g =
     act (reading_open R (HeadName g)) (\<lambda>decoded.
     act (yields (ok_or (MissingHead g) decoded)) (\<lambda>decoded.
       case dc_kind decoded of
         Journal \<Rightarrow>
           act (yields (map_err FormatFailed (decode_record (rd_ports R) decoded g))) (\<lambda>record'. gives (rs @ [record']))
       | ActivationSnapshot \<Rightarrow> fails (EpochActivated g)
       | _ \<Rightarrow> fails (CorruptControlObject (HeadName g) (FaultKindNotAdmitted (dc_kind decoded)))))"

definition read_records :: "'w reading \<Rightarrow> generation list \<Rightarrow> ('w, commit_error, journal_record list) action" where
  "read_records R generations = act_fold (read_one R) [] generations"

record caught_up =
  cu_listing :: control_listing
  cu_head :: "control_head option"
  cu_newest_checkpoint :: "generation option"

definition caught_head_generation :: "caught_up \<Rightarrow> generation option" where
  "caught_head_generation c = map_option head_generation (cu_head c)"

definition catch_up :: "'w ports \<Rightarrow> control_keys \<Rightarrow> retry_policy \<Rightarrow> ('w, commit_error, caught_up) action" where
  "catch_up P keys retry =
     act (listing_read P retry) (\<lambda>listing.
     act (erring IndexFailed (ip_checkpoint (po_index P))) (\<lambda>at.
       let R = \<lparr>rd_ports = P, rd_keys = keys, rd_retry = retry, rd_listing = listing\<rparr>
       in act (seek_start R (map_option cp_head at) (checkpoint_candidates listing) (newest_snapshot listing) held_default)
            (\<lambda>(start, newest_checkpoint, fetched).
          act (replay R start (newest_head listing) fetched) (\<lambda>_.
            gives \<lparr>cu_listing = listing, cu_head = map_option ControlHead (newest_head listing),
                   cu_newest_checkpoint = newest_checkpoint\<rparr>))))"

section \<open>The budgets\<close>

definition held_ok :: "held \<Rightarrow> bool" where
  "held_ok h \<longleftrightarrow> bt_inv (hd_records h) \<and> length (hd_records h) \<le> max_held_records \<and> hd_bytes h \<le> max_held_bytes \<and>
     hd_bytes h = (\<Sum>d \<leftarrow> bt_values (hd_records h). length (pl_body (dc_payload d)))"

lemma sum_list_bt_insert:
  "bt_inv m \<Longrightarrow> bt_get m k = None \<Longrightarrow>
     (\<Sum>v \<leftarrow> bt_values (bt_insert k x m). f v) = (f x :: nat) + (\<Sum>v \<leftarrow> bt_values m. f v)"
proof (induction m)
  case (Cons p m)
  obtain k' v where p: "p = (k', v)" by (cases p)
  have "k \<noteq> k'" "bt_get m k = None" "bt_inv m" using Cons.prems p by (auto simp: bt_get_def split: if_splits)
  then show ?case using Cons p by (auto simp: bt_values_def)
qed (simp add: bt_values_def)

lemma held_default_ok: "held_ok held_default"
  by (simp add: held_ok_def held_default_def bt_values_def)

text \<open>A record is kept once, so what is held is within both budgets whatever was walked.\<close>

lemma held_keep_ok:
  assumes "held_ok h" and "bt_get (hd_records h) g = None"
  shows "held_ok (held_keep g d h)"
proof (cases "length (hd_records h) \<ge> max_held_records \<or>
    saturating_add64 (hd_bytes h) (length (pl_body (dc_payload d))) > max_held_bytes")
  case True
  then show ?thesis using assms(1) by (auto simp: held_keep_def Let_def held_ok_def)
next
  case False
  let ?cost = "length (pl_body (dc_payload d))"
  have inv: "bt_inv (hd_records h)" and len: "length (hd_records h) < max_held_records"
    using assms(1) False by (simp_all add: held_ok_def)
  have sum: "hd_bytes h + ?cost \<le> max_held_bytes"
    using False by (simp add: saturating_add64_def max_held_bytes_def)
  then have "wadd64 (hd_bytes h) ?cost = hd_bytes h + ?cost" by (simp add: wadd64_def max_held_bytes_def)
  then show ?thesis
    using assms False inv len sum sum_list_bt_insert [OF inv assms(2), of "\<lambda>d. length (pl_body (dc_payload d))" d]
      bt_insert_fresh_length [OF assms(2) inv, of d]
    by (simp add: held_keep_def Let_def held_ok_def bt_inv_insert)
qed

end
