(* ===== verification/Commit_Journal.thy ===== *)
theory Commit_Journal
  imports Commit_Keyring Catch_Up
begin

text \<open>
  \<open>commit/journal.rs\<close>, \<open>slot_occupant.rs\<close> and \<open>pending_provenance.rs\<close>: which slot an attempt aims at, what the batch
  records before it sends the create, the create itself, and the reading back of a slot whose create was refused.
\<close>

section \<open>What a slot holds\<close>

definition slot_consuming :: "generation \<Rightarrow> commit_slot \<Rightarrow> attempted_slot" where
  "slot_consuming g slot = AttemptedSlot g (cs_provider_id slot)"

definition attempted_name :: "attempted_slot \<Rightarrow> control_object_name" where
  "attempted_name a = HeadName (at_generation a)"

definition attempted_commit_slot :: "attempted_slot \<Rightarrow> commit_slot" where
  "attempted_commit_slot a =
     (case at_provider_id a of
        Some i \<Rightarrow> slot_provider_id (show_name (attempted_name a)) i
      | None \<Rightarrow> slot_by_name (show_name (attempted_name a)))"

datatype slot_occupant = OccupantUnproven | OccupantJournal "container_id bset" | OccupantActivation

definition occupant_names :: "slot_occupant \<Rightarrow> container_id \<Rightarrow> bool" where
  "occupant_names s c \<longleftrightarrow> (case s of OccupantJournal additions \<Rightarrow> bt_contains additions c | _ \<Rightarrow> False)"

definition occupant_excludes :: "slot_occupant \<Rightarrow> container_id \<Rightarrow> bool" where
  "occupant_excludes s c \<longleftrightarrow>
     (case s of
        OccupantUnproven \<Rightarrow> False
      | OccupantJournal additions \<Rightarrow> \<not> bt_contains additions c
      | OccupantActivation \<Rightarrow> True)"

datatype read_back = BackUnproven | BackJournal journal_record | BackActivation

definition added_ids :: "journal_record \<Rightarrow> container_id bset" where
  "added_ids r = bs_collect (map (\<lambda>a. cid (add_container a)) (jr_additions r))"

definition slot_read_back ::
  "'w ports \<Rightarrow> retry_policy \<Rightarrow> control_keys \<Rightarrow> control_listing \<Rightarrow> attempted_slot \<Rightarrow> ('w, commit_error, read_back) action" where
  "slot_read_back P retry keys listing slot =
     act (yields (map_err Storage (store_object_at (po_store P) (attempted_commit_slot slot)))) (\<lambda>object.
       if listed_handle listing (show_name (attempted_name slot)) \<noteq> Some object then gives BackUnproven
       else matched (read_object P retry keys (attempted_name slot) object) (\<lambda>r.
         case r of
           Inl e \<Rightarrow> if is_storage_not_found e then gives BackUnproven else fails e
         | Inr decoded \<Rightarrow>
             (case dc_kind decoded of
                Journal \<Rightarrow> yields (map_err FormatFailed (map_sum id BackJournal (decode_record P decoded (at_generation slot))))
              | ActivationSnapshot \<Rightarrow> gives BackActivation
              | _ \<Rightarrow> gives BackUnproven)))"

definition slot_occupant_of ::
  "'w ports \<Rightarrow> retry_policy \<Rightarrow> control_keys \<Rightarrow> control_listing \<Rightarrow> attempted_slot \<Rightarrow> ('w, commit_error, slot_occupant) action" where
  "slot_occupant_of P retry keys listing slot =
     act (slot_read_back P retry keys listing slot) (\<lambda>back.
       gives (case back of
                BackUnproven \<Rightarrow> OccupantUnproven
              | BackJournal r \<Rightarrow> OccupantJournal (added_ids r)
              | BackActivation \<Rightarrow> OccupantActivation))"

definition slot_read ::
  "'w ports \<Rightarrow> retry_policy \<Rightarrow> control_keys \<Rightarrow> control_listing \<Rightarrow> attempted_slot \<Rightarrow> ('w, commit_error, slot_occupant) action" where
  "slot_read P retry keys listing slot =
     matched (slot_occupant_of P retry keys listing slot) (\<lambda>r.
       gives (case r of Inr occupant \<Rightarrow> occupant | Inl _ \<Rightarrow> OccupantUnproven))"

definition own_record ::
  "'w ports \<Rightarrow> retry_policy \<Rightarrow> control_keys \<Rightarrow> attempted_slot \<Rightarrow> container_id bset \<Rightarrow>
   ('w, commit_error, journal_record option) action" where
  "own_record P retry keys slot additions =
     matched (act (listing_read P retry) (\<lambda>listing. slot_read_back P retry keys listing slot)) (\<lambda>r.
       gives (case r of
                Inr (BackJournal r) \<Rightarrow> if added_ids r = additions then Some r else None
              | _ \<Rightarrow> None))"

section \<open>The aim\<close>

record aim =
  am_generation :: generation
  am_prev :: "generation option"
  am_commit_slot :: commit_slot
  am_next_slot :: commit_slot
  am_snapshot_slot :: commit_slot

definition aim_attempted :: "aim \<Rightarrow> attempted_slot" where
  "aim_attempted a = slot_consuming (am_generation a) (am_commit_slot a)"

definition carried_slot :: "control_head \<Rightarrow> index_checkpoint option \<Rightarrow> bool \<Rightarrow> commit_error + commit_slot option" where
  "carried_slot current stood mints =
     (let g = head_generation current
      in case stood of
           None \<Rightarrow> Ok None
         | Some at \<Rightarrow>
             if cp_head at \<noteq> g then Ok None
             else (case (cp_slot at, mints) of
                     (None, True) \<Rightarrow> Err (CorruptControlObject (HeadName g) NoCommitSlot)
                   | (Some _, False) \<Rightarrow> Err (CorruptControlObject (HeadName g) MintedCommitSlot)
                   | _ \<Rightarrow> and_then (map_err Storage (commit_slot_of current (cp_slot at))) (\<lambda>slot. Ok (Some slot))))"

definition require_head ::
  "'w ports \<Rightarrow> commit_policy \<Rightarrow> control_listing \<Rightarrow> control_head \<Rightarrow> ('w, commit_error, unit) action" where
  "require_head P policy listing head =
     (let g = head_generation head
      in act (yields (ok_or (MissingHead g) (listed_handle listing (show_name (HeadName g))))) (\<lambda>object.
         matched (fetch_header P (py_retry policy) object) (\<lambda>r.
           case r of
             Inl e \<Rightarrow> if is_storage_not_found e then fails (MissingHead g) else fails e
           | Inr header \<Rightarrow>
               if ch_generation header \<noteq> g
               then fails (CorruptControlObject (HeadName g) (GenerationMismatch (ch_generation header)))
               else gives ())))"

definition first_aim :: "'w ports \<Rightarrow> ('w, commit_error, aim) action" where
  "first_aim P =
     (let head = ControlHead generation_first
      in act (erring Storage (reserve_commit_slot (po_store P) head)) (\<lambda>next_slot.
         act (erring Storage (reserve_snapshot_slot (po_store P) head)) (\<lambda>snapshot_slot.
         act (erring Storage (store_reserve_create (po_store P) (show_name (HeadName generation_first)))) (\<lambda>slot.
           gives \<lparr>am_generation = generation_first, am_prev = None, am_commit_slot = slot, am_next_slot = next_slot,
                  am_snapshot_slot = snapshot_slot\<rparr>))))"

definition take_aim ::
  "'w ports \<Rightarrow> commit_policy \<Rightarrow> caught_up \<Rightarrow> index_checkpoint option \<Rightarrow> ('w, commit_error, aim option) action" where
  "take_aim P policy caught stood =
     (case cu_head caught of
        None \<Rightarrow> act (first_aim P) (\<lambda>a. gives (Some a))
      | Some current \<Rightarrow>
          act (yields (lift_model (generation_next (head_generation current)))) (\<lambda>g.
          act (erring Storage (reserve_commit_slot (po_store P) (ControlHead g))) (\<lambda>next_slot.
          act (erring Storage (reserve_snapshot_slot (po_store P) (ControlHead g))) (\<lambda>snapshot_slot.
          act (yields (carried_slot current stood (cs_provider_id next_slot \<noteq> None))) (\<lambda>carried.
            case carried of
              None \<Rightarrow> gives None
            | Some slot \<Rightarrow>
                act (require_head P policy (cu_listing caught) current) (\<lambda>_.
                  gives (Some \<lparr>am_generation = g, am_prev = Some (head_generation current), am_commit_slot = slot,
                               am_next_slot = next_slot, am_snapshot_slot = snapshot_slot\<rparr>)))))))"

definition mark_attempt :: "'w ports \<Rightarrow> prepared_batch \<Rightarrow> attempted_slot \<Rightarrow> ('w, commit_error, unit) action" where
  "mark_attempt P b slot =
     erring IndexFailed (ip_mark_commit_attempted (po_index P)
       (map (\<lambda>p. cid (add_container (pa_addition p))) (pb_additions b)) slot)"

section \<open>The create\<close>

datatype attempted = Committed journal_record | Conflict

definition journal_commit ::
  "'w ports \<Rightarrow> control_keys \<Rightarrow> commit_policy \<Rightarrow> aim \<Rightarrow> keyring_commitment \<Rightarrow> prepared_batch \<Rightarrow>
   ('w, commit_error, attempted) action" where
  "journal_commit P keys policy a keyring b =
     act (yields (batch_record (am_generation a) (am_prev a) (ck_epoch keys) keyring (cs_provider_id (am_next_slot a))
                    (cs_provider_id (am_snapshot_slot a)) b)) (\<lambda>r.
     act (yields (map_err FormatFailed (journal_encode (lb_cbor (po_lib P)) r))) (\<lambda>payload.
     act (seal_object P keys (HeadName (am_generation a)) Journal payload) (\<lambda>bytes.
     matched (retry_run (po_system P) (py_retry policy) (store_put_if_absent (po_store P) (am_commit_slot a) (stream_from bytes)))
       (\<lambda>outcome.
        case outcome of
          Inr _ \<Rightarrow> gives (Committed r)
        | Inl e \<Rightarrow>
            if \<not> is_already_exists e then fails (Storage e)
            else let additions = bs_collect (map (\<lambda>p. cid (add_container (pa_addition p))) (pb_additions b))
                 in if additions = [] then gives Conflict
                    else act (own_record P (py_retry policy) keys (slot_consuming (am_generation a) (am_commit_slot a)) additions)
                           (\<lambda>own. gives (case own of Some r \<Rightarrow> Committed r | None \<Rightarrow> Conflict))))))"

end
