(* ===== verification/Commit_Run.thy ===== *)
theory Commit_Run
  imports Commit_Journal
begin

text \<open>
  \<open>commit/after_commit.rs\<close>, \<open>first_head.rs\<close> and \<open>run.rs\<close>: what follows a commit, the first head of a Library, and the
  attempts of \<open>commit_batch\<close>. The repairs a run performed are carried with whatever it ends in, and so is the caller's
  guard over a finding of its own (\<open>short_report.rs\<close>); progress is left out.
\<close>

section \<open>After a commit\<close>

record untrashed_removal =
  ut_container :: container_id
  ut_cause :: store_error

definition trash_removals ::
  "'w ports \<Rightarrow> commit_policy \<Rightarrow> control_listing \<Rightarrow> container_id list \<Rightarrow> ('w, commit_error, untrashed_removal list) action" where
  "trash_removals P policy listing removals =
     act_fold (\<lambda>untrashed c.
       case listed_container listing c of
         None \<Rightarrow> gives untrashed
       | Some object \<Rightarrow>
           matched (retry_run (po_system P) (py_retry policy) (store_trash (po_store P) object)) (\<lambda>r.
             case r of
               Inr _ \<Rightarrow> gives untrashed
             | Inl e \<Rightarrow> gives (untrashed @ [\<lparr>ut_container = c, ut_cause = e\<rparr>]))) [] removals"

definition checkpoint_attempts :: nat where
  "checkpoint_attempts = 3"

datatype checkpoint_failure =
    CheckpointStorage store_error
  | CheckpointFormat format_error
  | CheckpointSlotTaken control_object_name control_object_fault
  | CheckpointOther commit_error

fun of_checkpoint_write :: "commit_error \<Rightarrow> checkpoint_failure" where
  "of_checkpoint_write (Storage e) = CheckpointStorage e"
| "of_checkpoint_write (FormatFailed e) = CheckpointFormat e"
| "of_checkpoint_write (CorruptControlObject object fault) = CheckpointSlotTaken object fault"
| "of_checkpoint_write cause = CheckpointOther cause"

datatype checkpoint_outcome =
    CheckpointNotDue
  | CheckpointWritten control_object_name
  | CheckpointExisting control_object_name
  | CheckpointFailed checkpoint_failure

record checkpointed =
  ckd_object :: control_object_name
  ckd_written :: bool
  ckd_checkpoint :: index_checkpoint

definition existing_checkpoint ::
  "'w ports \<Rightarrow> control_keys \<Rightarrow> commit_policy \<Rightarrow> journal_record \<Rightarrow> control_object_name \<Rightarrow> object_ref \<Rightarrow>
   ('w, commit_error, index_checkpoint option) action" where
  "existing_checkpoint P keys policy r name object =
     matched (read_object P (py_retry policy) keys name object) (\<lambda>answer.
       case answer of
         Inl e \<Rightarrow>
           if is_storage_not_found e then gives None
           else (case e of
                   FormatFailed f \<Rightarrow>
                     if is_unaddressable f then fails e else fails (CorruptControlObject name (Unopenable f))
                 | _ \<Rightarrow> fails e)
       | Inr decoded \<Rightarrow>
           act (yields (map_err (\<lambda>f. CorruptControlObject name (Unopenable f)) (decode_snapshot P decoded (jr_generation r))))
             (\<lambda>payload. gives (Some (sn_checkpoint (sp_content payload)))))"

text \<open>The loop of \<open>checkpoint\<close>, with the attempts left.\<close>

fun put_checkpoint ::
  "'w ports \<Rightarrow> control_keys \<Rightarrow> commit_policy \<Rightarrow> journal_record \<Rightarrow> commit_slot \<Rightarrow> byte list \<Rightarrow> index_checkpoint \<Rightarrow> nat \<Rightarrow>
   ('w, commit_error, checkpointed) action" where
  "put_checkpoint P keys policy r slot bytes recorded 0 = fails (Storage (AlreadyExists (cs_name slot)))"
| "put_checkpoint P keys policy r slot bytes recorded (Suc n) =
     matched (retry_run (po_system P) (py_retry policy) (store_put_if_absent (po_store P) slot (stream_from bytes))) (\<lambda>answer.
       case answer of
         Inr _ \<Rightarrow> gives \<lparr>ckd_object = IndexSnapshotName (jr_generation r), ckd_written = True, ckd_checkpoint = recorded\<rparr>
       | Inl e \<Rightarrow>
           if \<not> is_already_exists e then fails (Storage e)
           else act (yields (map_err Storage (store_object_at (po_store P) slot))) (\<lambda>object.
                act (existing_checkpoint P keys policy r (IndexSnapshotName (jr_generation r)) object) (\<lambda>found.
                  case found of
                    Some c \<Rightarrow> gives \<lparr>ckd_object = IndexSnapshotName (jr_generation r), ckd_written = False, ckd_checkpoint = c\<rparr>
                  | None \<Rightarrow> put_checkpoint P keys policy r slot bytes recorded n)))"

definition checkpoint_record ::
  "'w ports \<Rightarrow> control_keys \<Rightarrow> commit_policy \<Rightarrow> journal_record \<Rightarrow> ('w, commit_error, checkpointed) action" where
  "checkpoint_record P keys policy r =
     (let slot = snapshot_slot_of (ControlHead (jr_generation r)) (jr_snapshot_slot r)
      in act (erring IndexFailed (ip_snapshot (po_index P))) (\<lambda>c.
         act (yields (map_err FormatFailed (snapshot_encode (lb_cbor (po_lib P)) (snapshot_ordinary c)))) (\<lambda>payload.
         act (seal_object P keys (IndexSnapshotName (jr_generation r)) IndexSnapshot payload) (\<lambda>bytes.
           put_checkpoint P keys policy r slot bytes (sn_checkpoint c) checkpoint_attempts))))"

definition uncovered :: "journal_record \<Rightarrow> generation option \<Rightarrow> nat" where
  "uncovered r newest_checkpoint =
     (case newest_checkpoint of
        Some covered \<Rightarrow> gen (jr_generation r) - gen covered
      | None \<Rightarrow> saturating_add64 (gen (jr_generation r)) 1)"

definition write_checkpoint ::
  "'w ports \<Rightarrow> control_keys \<Rightarrow> commit_policy \<Rightarrow> journal_record \<Rightarrow> generation option \<Rightarrow>
   ('w, commit_error, checkpoint_outcome) action" where
  "write_checkpoint P keys policy r newest_checkpoint =
     (if uncovered r newest_checkpoint \<le> py_checkpoint_threshold policy then gives CheckpointNotDue
      else matched (checkpoint_record P keys policy r) (\<lambda>answer.
        gives (case answer of
                 Inr c \<Rightarrow> if ckd_written c then CheckpointWritten (ckd_object c) else CheckpointExisting (ckd_object c)
               | Inl cause \<Rightarrow> CheckpointFailed (of_checkpoint_write cause))))"

definition checkpoint_head ::
  "'w ports \<Rightarrow> control_keys \<Rightarrow> commit_policy \<Rightarrow> control_listing \<Rightarrow> journal_record \<Rightarrow> ('w, commit_error, checkpointed) action" where
  "checkpoint_head P keys policy listing r =
     (let name = IndexSnapshotName (jr_generation r)
      in case listed_handle listing (show_name name) of
           None \<Rightarrow> checkpoint_record P keys policy r
         | Some object \<Rightarrow>
             act (existing_checkpoint P keys policy r name object) (\<lambda>found.
               case found of
                 Some c \<Rightarrow> gives \<lparr>ckd_object = name, ckd_written = False, ckd_checkpoint = c\<rparr>
               | None \<Rightarrow> checkpoint_record P keys policy r))"

section \<open>The first head\<close>

definition first_head ::
  "'w ports \<Rightarrow> control_keys \<Rightarrow> commit_policy \<Rightarrow> prepared_batch \<Rightarrow> ('w, commit_error, attempted) action" where
  "first_head P keys policy b =
     act (write_generation P keys policy generation_first (KeyTable [])) (\<lambda>commitment.
     act (first_aim P) (\<lambda>a. journal_commit P keys policy a commitment b))"

definition write_first_head ::
  "'w ports \<Rightarrow> control_keys \<Rightarrow> commit_policy \<Rightarrow> library_name option \<Rightarrow> ('w, commit_error, journal_record option) action" where
  "write_first_head P keys policy name =
     act (listing_read P (py_retry policy)) (\<lambda>listing.
       if newest_head listing \<noteq> None then gives None
       else act (first_head P keys policy (batch_default\<lparr>pb_library_name := name\<rparr>)) (\<lambda>attempted.
              gives (case attempted of Committed r \<Rightarrow> Some r | Conflict \<Rightarrow> None)))"

section \<open>The attempts\<close>

record short_report =
  sr_found :: "short_keyring option"
  sr_spoken_for :: bool

definition report_armed :: "short_keyring option \<Rightarrow> short_report" where
  "report_armed s = \<lparr>sr_found = s, sr_spoken_for = False\<rparr>"

definition report_examined :: "short_report \<Rightarrow> short_report" where
  "report_examined s = s\<lparr>sr_spoken_for := True\<rparr>"

definition report_unspoken :: "short_report \<Rightarrow> short_keyring option" where
  "report_unspoken s = (if sr_spoken_for s then None else sr_found s)"

definition spoke :: "commit_error + 'a \<Rightarrow> bool" where
  "spoke r \<longleftrightarrow> (case r of Inr _ \<Rightarrow> True | Inl (UnrepairedKeyring _ _ _ _ _) \<Rightarrow> True | Inl _ \<Rightarrow> False)"

record commit_outcome =
  co_record :: journal_record
  co_attempts :: nat
  co_checkpoint :: checkpoint_outcome
  co_untrashed :: "untrashed_removal list"
  co_repairs :: "keyring_repair list"

record commit_failure =
  cf_error :: commit_error
  cf_repairs :: "keyring_repair list"

text \<open>What outlives the step that fails: the repairs so far and the caller's guard.\<close>

record run_notes =
  rn_repairs :: "keyring_repair list"
  rn_short :: "short_report option"

definition refresh_index ::
  "'w ports \<Rightarrow> journal_record \<Rightarrow> local_observation list \<Rightarrow> reservation_id list \<Rightarrow> ('w, commit_error, unit) action" where
  "refresh_index P r materialized released =
     (let b = \<lparr>cb_record = r, cb_materialized = materialized, cb_released = released\<rparr>
      in matched (ip_refresh (po_index P) b) (\<lambda>answer.
           case answer of
             Inr _ \<Rightarrow> gives ()
           | Inl (AlreadyApplied g checkpoint) \<Rightarrow> erring IndexFailed (ip_complete_applied (po_index P) b)
           | Inl e \<Rightarrow> fails (IndexFailed e)))"

definition read_intervening ::
  "'w ports \<Rightarrow> control_keys \<Rightarrow> commit_policy \<Rightarrow> caught_up \<Rightarrow> generation option \<Rightarrow> journal_record list \<Rightarrow>
   ('w, commit_error, journal_record list) action" where
  "read_intervening P keys policy caught base rs =
     (case caught_head_generation caught of
        None \<Rightarrow> gives rs
      | Some head \<Rightarrow>
          act (yields (generation_after (if rs = [] then base else Some (jr_generation (last rs))))) (\<lambda>first.
          expects (collect_res generation_new [first..<gen head + 1]) (\<lambda>generations.
          act (read_records \<lparr>rd_ports = P, rd_keys = keys, rd_retry = py_retry policy, rd_listing = cu_listing caught\<rparr> generations)
            (\<lambda>more. gives (rs @ more)))))"

text \<open>What follows a record that landed.\<close>

definition after_commit ::
  "'w ports \<Rightarrow> control_keys \<Rightarrow> commit_policy \<Rightarrow> caught_up \<Rightarrow> prepared_batch \<Rightarrow> nat \<Rightarrow> journal_record \<Rightarrow>
   ('w, commit_error, commit_outcome option) action" where
  "after_commit P keys policy caught b attempt r =
     act (refresh_index P r (pb_materialized b) (pb_released b)) (\<lambda>_.
     act (trash_removals P policy (cu_listing caught) (jr_removals r)) (\<lambda>untrashed.
     act (write_checkpoint P keys policy r (cu_newest_checkpoint caught)) (\<lambda>checkpoint.
       gives (Some \<lparr>co_record = r, co_attempts = attempt, co_checkpoint = checkpoint, co_untrashed = untrashed,
                    co_repairs = []\<rparr>))))"

definition commit_aimed ::
  "'w ports \<Rightarrow> control_keys \<Rightarrow> commit_policy \<Rightarrow> caught_up \<Rightarrow> keyring_commitment \<Rightarrow> prepared_batch \<Rightarrow> nat \<Rightarrow> aim \<Rightarrow>
   ('w, commit_error, commit_outcome option) action" where
  "commit_aimed P keys policy caught commitment b attempt a =
     act (journal_commit P keys policy a commitment b) (\<lambda>landed.
       case landed of
         Conflict \<Rightarrow> gives None
       | Committed r \<Rightarrow> after_commit P keys policy caught b attempt r)"

text \<open>An attempt once the committed Keyring is examined: \<open>None\<close> where it has no slot or lost it.\<close>

definition land ::
  "'w ports \<Rightarrow> control_keys \<Rightarrow> commit_policy \<Rightarrow> caught_up \<Rightarrow> index_checkpoint option \<Rightarrow> examined \<Rightarrow> prepared_batch \<Rightarrow> nat \<Rightarrow>
   ('w, commit_error, commit_outcome option) action" where
  "land P keys policy caught committed e b attempt =
     act (replicate_keyring P keys policy e b) (\<lambda>commitment.
     act (take_aim P policy caught committed) (\<lambda>aimed.
       case aimed of
         None \<Rightarrow> gives None
       | Some a \<Rightarrow>
           act (mark_attempt P b (aim_attempted a)) (\<lambda>_. commit_aimed P keys policy caught commitment b attempt a)))"

text \<open>What comes before it: the batch carried over the records it did not see, and checked.\<close>

definition prepare ::
  "'w ports \<Rightarrow> control_keys \<Rightarrow> commit_policy \<Rightarrow> caught_up \<Rightarrow> generation option \<Rightarrow> prepared_batch \<Rightarrow> journal_record list \<Rightarrow>
   ('w, commit_error, journal_record list \<times> prepared_batch \<times> index_checkpoint option) action" where
  "prepare P keys policy caught base b intervening =
     act (read_intervening P keys policy caught base intervening) (\<lambda>intervening.
     act (rebase P b intervening) (\<lambda>b.
     act (candidate_check P b) (\<lambda>_.
     act (erring IndexFailed (ip_checkpoint (po_index P))) (\<lambda>committed. gives (intervening, b, committed)))))"

definition examine_committed ::
  "'w ports \<Rightarrow> control_keys \<Rightarrow> commit_policy \<Rightarrow> caught_up \<Rightarrow> index_checkpoint option \<Rightarrow> run_notes \<Rightarrow>
   ('w, commit_error \<times> run_notes, examined \<times> run_notes) action" where
  "examine_committed P keys policy caught committed notes =
     (case committed of
        None \<Rightarrow> gives (examined_first, notes)
      | Some c \<Rightarrow> matched (examine P keys policy (cu_listing caught) (cp_keyring c)) (\<lambda>answer.
          let notes = (if spoke answer then notes\<lparr>rn_short := map_option report_examined (rn_short notes)\<rparr> else notes)
          in case answer of Inl e \<Rightarrow> fails (e, notes) | Inr x \<Rightarrow> gives (x, notes)))"

definition add_first_head :: "'w ports \<Rightarrow> control_keys \<Rightarrow> commit_policy \<Rightarrow> ('w, commit_error, unit) action" where
  "add_first_head P keys policy =
     act (first_head P keys policy batch_default) (\<lambda>attempted.
       case attempted of
         Committed r \<Rightarrow> refresh_index P r [] []
       | Conflict \<Rightarrow> gives ())"

function attempts_from ::
  "'w ports \<Rightarrow> control_keys \<Rightarrow> commit_policy \<Rightarrow> prepared_batch \<Rightarrow> generation option \<Rightarrow> nat \<Rightarrow> bool \<Rightarrow> journal_record list \<Rightarrow>
   run_notes \<Rightarrow> ('w, commit_error \<times> run_notes, commit_outcome \<times> run_notes) action" where
  "attempts_from P keys policy b base attempt wrote_first_head intervening notes =
     (if attempt < py_attempts policy
      then act (erring (\<lambda>e. (e, notes)) (catch_up P keys (py_retry policy))) (\<lambda>caught.
        if cu_head caught = None \<and> \<not> batch_is_empty b
        then if wrote_first_head then fails (FirstHeadUnlisted, notes)
             else act (erring (\<lambda>e. (e, notes)) (add_first_head P keys policy)) (\<lambda>_.
                    attempts_from P keys policy b base attempt True intervening notes)
        else act (erring (\<lambda>e. (e, notes)) (prepare P keys policy caught base b intervening)) (\<lambda>prepared.
             act (examine_committed P keys policy caught (snd (snd prepared)) notes) (\<lambda>examined.
               let (repair, e) = take_repair (fst examined);
                   notes = (snd examined)\<lparr>rn_repairs := rn_repairs (snd examined) @ (case repair of Some r \<Rightarrow> [r] | None \<Rightarrow> [])\<rparr>
               in act (erring (\<lambda>e. (e, notes))
                        (land P keys policy caught (snd (snd prepared)) e (fst (snd prepared)) (attempt + 1))) (\<lambda>landed.
                    case landed of
                      Some outcome \<Rightarrow> gives (outcome, notes)
                    | None \<Rightarrow> attempts_from P keys policy b base (attempt + 1) wrote_first_head (fst prepared) notes))))
      else fails (ConflictLimitReached (py_attempts policy), notes))"
  by auto
termination
  by (relation "measure (\<lambda>(P, keys, policy, b, base, attempt, wrote_first_head, intervening, notes).
        2 * (py_attempts policy - attempt) + (if wrote_first_head then 0 else 1))") auto

declare attempts_from.simps [simp del]

definition attempt_until_committed ::
  "'w ports \<Rightarrow> control_keys \<Rightarrow> commit_policy \<Rightarrow> prepared_batch \<Rightarrow> short_report option \<Rightarrow>
   ('w, commit_error \<times> run_notes, commit_outcome \<times> run_notes) action" where
  "attempt_until_committed P keys policy b short =
     (let notes = \<lparr>rn_repairs = [], rn_short = short\<rparr>
      in act (case pb_base b of
                Some base \<Rightarrow> gives (Some base)
              | None \<Rightarrow> act (erring (\<lambda>e. (IndexFailed e, notes)) (ip_checkpoint (po_index P))) (\<lambda>at.
                  gives (map_option cp_head at))) (\<lambda>base.
           attempts_from P keys policy b base 0 False [] notes))"

definition commit_batch ::
  "'w ports \<Rightarrow> control_keys \<Rightarrow> commit_policy \<Rightarrow> prepared_batch \<Rightarrow> short_report option \<Rightarrow>
   ('w, commit_failure \<times> short_report option, commit_outcome \<times> short_report option) action" where
  "commit_batch P keys policy b short =
     matched (attempt_until_committed P keys policy b short) (\<lambda>answer.
       case answer of
         Inr (outcome, notes) \<Rightarrow> gives (outcome\<lparr>co_repairs := rn_repairs notes\<rparr>, rn_short notes)
       | Inl (e, notes) \<Rightarrow> fails (\<lparr>cf_error = e, cf_repairs = rn_repairs notes\<rparr>, rn_short notes))"

end
