(* ===== verification/Convergence.thy ===== *)
theory Convergence
  imports Catch_Up
begin

text \<open>
  That a catch-up converges. \<open>storage_holds\<close> is what Storage holds of a history: a Journal record under every head it
  lists, the newest among them, true Snapshots where one opens at all, and every record from \<open>base\<close> on. In a
  \<open>library_world\<close> a catch-up then succeeds from any point of the history from which \<open>base\<close> can be reached, and the
  Index it leaves views the Library all the records make.
\<close>

section \<open>What Storage holds of a history\<close>

definition holds_record :: "'w ports \<Rightarrow> control_keys \<Rightarrow> generation \<Rightarrow> journal_record \<Rightarrow> byte list \<Rightarrow> bool" where
  "holds_record P keys g r bytes \<longleftrightarrow>
     length bytes \<le> max_control_object_len_at (HeadName g) \<and>
     (\<exists>d. open_object P keys (HeadName g) bytes = Inr d \<and> dc_kind d = Journal \<and> decode_record P d g = Inr r)"

definition opens_snapshot :: "'w ports \<Rightarrow> control_keys \<Rightarrow> generation \<Rightarrow> byte list \<Rightarrow> bool" where
  "opens_snapshot P keys g bytes \<longleftrightarrow>
     length bytes \<le> max_control_object_len_at (IndexSnapshotName g) \<and> (\<exists>d. open_object P keys (IndexSnapshotName g) bytes = Inr d)"

text \<open>A Snapshot that opens is of the Library at its head; one that does not is an object of another making.\<close>

definition true_snapshot :: "'w ports \<Rightarrow> control_keys \<Rightarrow> generation \<Rightarrow> library \<Rightarrow> byte list \<Rightarrow> bool" where
  "true_snapshot P keys g L bytes \<longleftrightarrow>
     (case open_object P keys (IndexSnapshotName g) bytes of
        Inl e \<Rightarrow> skippable e
      | Inr d \<Rightarrow> (case decode_snapshot P d g of
          Inl e \<Rightarrow> False
        | Inr p \<Rightarrow> snapshot_ok (sp_content p) \<and> content_view (sp_content p) = L))"

definition storage_holds ::
  "'w ports \<Rightarrow> control_keys \<Rightarrow> (object_info \<times> byte list) list \<Rightarrow> journal_record list \<Rightarrow> nat \<Rightarrow> bool" where
  "storage_holds P keys objs rs base \<longleftrightarrow>
     \<not> single_twice (map (\<lambda>(i, _). oi_name i) objs) \<and>
     (\<forall>(i, bytes) \<in> set objs. \<forall>g. name_ok (HeadName g) \<longrightarrow> oi_name i = show_name (HeadName g) \<longrightarrow>
        gen g < length rs \<and> holds_record P keys g (rs ! gen g) bytes) \<and>
     (\<forall>(i, bytes) \<in> set objs. \<forall>g. name_ok (IndexSnapshotName g) \<longrightarrow> oi_name i = show_name (IndexSnapshotName g) \<longrightarrow>
        gen g < length rs \<and> true_snapshot P keys g (library_after rs (Suc (gen g))) bytes) \<and>
     (\<forall>n < length rs. base \<le> n \<or> Suc n = length rs \<longrightarrow>
        show_name (HeadName (Generation n)) \<in> (\<lambda>(i, _). oi_name i) ` set objs)"

definition snapshot_opens_at :: "'w ports \<Rightarrow> control_keys \<Rightarrow> (object_info \<times> byte list) list \<Rightarrow> generation \<Rightarrow> bool" where
  "snapshot_opens_at P keys objs g \<longleftrightarrow>
     name_ok (IndexSnapshotName g) \<and>
     (\<exists>(i, bytes) \<in> set objs. oi_name i = show_name (IndexSnapshotName g) \<and> opens_snapshot P keys g bytes)"

text \<open>From the first \<open>k\<close> records, the rest is there: as records from \<open>k\<close> on, or past a Snapshot.\<close>

definition within_reach ::
  "'w ports \<Rightarrow> control_keys \<Rightarrow> (object_info \<times> byte list) list \<Rightarrow> nat \<Rightarrow> nat \<Rightarrow> bool" where
  "within_reach P keys objs base k \<longleftrightarrow> base \<le> k \<or> (\<exists>g. base \<le> Suc (gen g) \<and> snapshot_opens_at P keys objs g)"

section \<open>The records held on the way\<close>

definition held_true :: "'w ports \<Rightarrow> journal_record list \<Rightarrow> held \<Rightarrow> bool" where
  "held_true P rs h \<longleftrightarrow> bt_inv (hd_records h) \<and>
     (\<forall>g d. bt_get (hd_records h) g = Some d \<longrightarrow> dc_kind d = Journal \<and> decode_record P d g = Inr (rs ! gen g))"

lemma held_true_default: "held_true P rs held_default"
  by (simp add: held_true_def held_default_def)

lemma held_true_keep:
  "held_true P rs h \<Longrightarrow> dc_kind d = Journal \<Longrightarrow> decode_record P d g = Inr (rs ! gen g) \<Longrightarrow> held_true P rs (held_keep g d h)"
  by (simp add: held_true_def held_keep_def Let_def bt_inv_insert bt_get_insert)

lemma held_true_take:
  assumes "held_true P rs h" and "held_take g h = (kept, h')"
  shows "held_true P rs h'" and "kept = Some d \<Longrightarrow> dc_kind d = Journal \<and> decode_record P d g = Inr (rs ! gen g)"
  using assms by (auto simp: held_true_def held_take_def bt_inv_remove bt_get_remove split: if_splits)

definition after_start :: "generation option \<Rightarrow> nat" where
  "after_start start = (case start of None \<Rightarrow> 0 | Some g \<Rightarrow> Suc (gen g))"

lemma generation_after_Ok:
  "after_start start \<le> max_format_integer \<Longrightarrow> generation_after start = Inr (after_start start)"
  by (auto simp: generation_after_def after_start_def generation_first_def generation_next_def generation_new_def
      wadd64_def max_format_integer_def split: option.splits)

section \<open>In a world at rest\<close>

context library_world
begin

definition rests :: "(object_info \<times> byte list) list \<Rightarrow> 'w \<Rightarrow> bool" where
  "rests objs w \<longleftrightarrow> ok w \<and> objects w = objs \<and> index_ok (catalog w)"

lemma open_listed:
  assumes "files (walked (map fst objs)) l" and "listed_handle l (show_name name) = Some object" and "rests objs w"
    and R: "R = \<lparr>rd_ports = P, rd_keys = keys, rd_retry = retry, rd_listing = l\<rparr>"
  shows "\<exists>i bytes. (i, bytes) \<in> set objs \<and> oi_name i = show_name name \<and>
    reading_open R name w = Some (w,
      if length bytes > max_control_object_len_at name
      then Err (Storage (ObjectTooLong (length bytes) (max_control_object_len_at name)))
      else map_sum id Some (open_object P keys name bytes))"
proof -
  have "map_of (rev (walked (map fst objs))) (show_name name) = Some object"
    using files_handle [OF assms(1), of "show_name name"] assms(2) by (auto split: if_splits)
  then obtain i bytes where i: "(i, bytes) \<in> set objs" "oi_name i = show_name name" "oi_ref i = object"
    by (auto dest!: map_of_SomeD)
  have "read_object P retry keys name (oi_ref i) w = Some (w,
      if length bytes > max_control_object_len_at name
      then Err (Storage (ObjectTooLong (length bytes) (max_control_object_len_at name)))
      else open_object P keys name bytes)"
    by (rule read_object_eq) (use assms(3) i in \<open>simp_all add: rests_def\<close>)
  moreover have "is_storage_not_found e \<Longrightarrow> open_object P keys name bytes \<noteq> Inl e" for e
    by (auto simp: open_object_def is_storage_not_found_def res_simps split: commit_error.splits)
  ultimately have "reading_open R name w = Some (w,
      if length bytes > max_control_object_len_at name
      then Err (Storage (ObjectTooLong (length bytes) (max_control_object_len_at name)))
      else map_sum id Some (open_object P keys name bytes))"
    using assms(2) i(3)
    by (auto simp: reading_open_def R matched_def yields_runs is_storage_not_found_def is_not_found_def split: sum.splits)
  then show ?thesis using i by blast
qed

lemma open_head:
  assumes l: "files (walked (map fst objs)) l" and st: "storage_holds P keys objs rs base" and w: "rests objs w"
    and R: "R = \<lparr>rd_ports = P, rd_keys = keys, rd_retry = retry, rd_listing = l\<rparr>" and "has_head l g"
  obtains d where "reading_open R (HeadName g) w = Some (w, Ok (Some d))" and "dc_kind d = Journal"
    and "decode_record P d g = Inr (rs ! gen g)"
proof -
  have g: "name_ok (HeadName g)" "show_name (HeadName g) \<in> fst ` set (walked (map fst objs))"
    using files_heads [OF l, of g] assms(5) by blast+
  then have "\<not> is_replica_name (show_name (HeadName g))" using control_name.dec_enc [OF g(1)] by (simp add: is_replica_name_def)
  then obtain object where h: "listed_handle l (show_name (HeadName g)) = Some object"
    using files_handle [OF l, of "show_name (HeadName g)"] g(2)
    by (cases "map_of (rev (walked (map fst objs))) (show_name (HeadName g))") (auto simp: map_of_eq_None_iff)
  obtain i bytes where i: "(i, bytes) \<in> set objs" "oi_name i = show_name (HeadName g)"
    and run: "reading_open R (HeadName g) w = Some (w,
      if length bytes > max_control_object_len_at (HeadName g)
      then Err (Storage (ObjectTooLong (length bytes) (max_control_object_len_at (HeadName g))))
      else map_sum id Some (open_object P keys (HeadName g) bytes))"
    using open_listed [OF l h w R] by blast
  have "holds_record P keys g (rs ! gen g) bytes" using st i g(1) unfolding storage_holds_def by fastforce
  then show thesis using run that by (auto simp: holds_record_def)
qed

lemma open_snapshot_listed:
  assumes l: "files (walked (map fst objs)) l" and st: "storage_holds P keys objs rs base" and w: "rests objs w"
    and R: "R = \<lparr>rd_ports = P, rd_keys = keys, rd_retry = retry, rd_listing = l\<rparr>" and "has_snapshot l g"
  shows "gen g < length rs" and "\<exists>r. reading_open R (IndexSnapshotName g) w = Some (w, r) \<and>
    (case r of
       Inl e \<Rightarrow> skippable e \<and> \<not> snapshot_opens_at P keys objs g
     | Inr opened \<Rightarrow> \<exists>d p. opened = Some d \<and> dc_kind d = IndexSnapshot \<and> decode_snapshot P d g = Inr p \<and>
         snapshot_ok (sp_content p) \<and> content_view (sp_content p) = library_after rs (Suc (gen g)))"
proof -
  let ?n = "IndexSnapshotName g"
  have g: "name_ok ?n" "show_name ?n \<in> fst ` set (walked (map fst objs))"
    using files_snapshots [OF l, of g] assms(5) by blast+
  have single: "\<not> is_replica_name (show_name ?n)" "is_single_name (show_name ?n)"
    using control_name.dec_enc [OF g(1)] by (simp_all add: is_replica_name_def is_single_name_def)
  then obtain object where h: "listed_handle l (show_name ?n) = Some object"
    using files_handle [OF l, of "show_name ?n"] g(2)
    by (cases "map_of (rev (walked (map fst objs))) (show_name ?n)") (auto simp: map_of_eq_None_iff)
  obtain i bytes where i: "(i, bytes) \<in> set objs" "oi_name i = show_name ?n"
    and run: "reading_open R ?n w = Some (w,
      if length bytes > max_control_object_len_at ?n
      then Err (Storage (ObjectTooLong (length bytes) (max_control_object_len_at ?n)))
      else map_sum id Some (open_object P keys ?n bytes))"
    using open_listed [OF l h w R] by blast
  have t: "gen g < length rs \<and> true_snapshot P keys g (library_after rs (Suc (gen g))) bytes"
    using st i g(1) unfolding storage_holds_def by fastforce
  then show "gen g < length rs" by simp
  have only: "bytes' = bytes" if "(j, bytes') \<in> set objs" "oi_name j = show_name ?n" for j bytes'
  proof -
    have "distinct (filter is_single_name (map (\<lambda>(i, _). oi_name i) objs))" using st by (simp add: storage_holds_def single_twice_def)
    then have "distinct (map (\<lambda>(i, _). oi_name i) (filter (\<lambda>x. is_single_name (oi_name (fst x))) objs))"
      by (simp add: filter_map o_def case_prod_beta)
    moreover have "(i, bytes) \<in> set (filter (\<lambda>x. is_single_name (oi_name (fst x))) objs)"
      "(j, bytes') \<in> set (filter (\<lambda>x. is_single_name (oi_name (fst x))) objs)"
      using i that single(2) by auto
    moreover have "(\<lambda>(i, _). oi_name i) (i, bytes) = (\<lambda>(i, _). oi_name i) (j, bytes')" using i(2) that(2) by simp
    ultimately have "(i, bytes) = (j, bytes')" unfolding distinct_map by (meson inj_onD)
    then show ?thesis by simp
  qed
  have opens: "snapshot_opens_at P keys objs g \<longleftrightarrow> opens_snapshot P keys g bytes"
  proof
    assume "snapshot_opens_at P keys objs g"
    then obtain j bytes' where "(j, bytes') \<in> set objs" "oi_name j = show_name ?n" "opens_snapshot P keys g bytes'"
      unfolding snapshot_opens_at_def by blast
    then show "opens_snapshot P keys g bytes" using only [of j bytes'] by simp
  next
    assume "opens_snapshot P keys g bytes"
    then show "snapshot_opens_at P keys objs g" using i g(1) unfolding snapshot_opens_at_def by blast
  qed
  show "\<exists>r. reading_open R ?n w = Some (w, r) \<and>
    (case r of
       Inl e \<Rightarrow> skippable e \<and> \<not> snapshot_opens_at P keys objs g
     | Inr opened \<Rightarrow> \<exists>d p. opened = Some d \<and> dc_kind d = IndexSnapshot \<and> decode_snapshot P d g = Inr p \<and>
         snapshot_ok (sp_content p) \<and> content_view (sp_content p) = library_after rs (Suc (gen g)))"
  proof (cases "length bytes > max_control_object_len_at ?n")
    case True
    then show ?thesis using run by (simp add: opens opens_snapshot_def skippable_def)
  next
    case False
    show ?thesis
    proof (cases "open_object P keys ?n bytes")
      case (Inl e)
      then show ?thesis using run False t by (simp add: opens opens_snapshot_def true_snapshot_def)
    next
      case (Inr d)
      have "dc_kind d = IndexSnapshot" using open_object_named(1) [OF Inr g(1)] by simp
      then show ?thesis using run False t Inr by (auto simp: true_snapshot_def split: sum.splits)
    qed
  qed
qed

text \<open>One candidate: adopted as the Library at its head, or passed over with what was met kept.\<close>

lemma adoptable_at_rest:
  assumes l: "files (walked (map fst objs)) l" and st: "storage_holds P keys objs rs base" and w: "rests objs w"
    and R: "R = \<lparr>rd_ports = P, rd_keys = keys, rd_retry = retry, rd_listing = l\<rparr>" and h: "held_true P rs h"
    and cand: "has_snapshot l g \<or> has_head l g"
  shows "\<exists>found h'. adoptable R g h w = Some (w, Ok (found, h')) \<and> held_true P rs h' \<and> gen g < length rs \<and>
    (case found of
       None \<Rightarrow> \<not> snapshot_opens_at P keys objs g
     | Some (name, c) \<Rightarrow> snapshot_ok c \<and> content_view c = library_after rs (Suc (gen g)))"
proof -
  have short: "gen g < length rs" if hd: "has_head l g"
  proof -
    have g: "name_ok (HeadName g)" "show_name (HeadName g) \<in> fst ` set (walked (map fst objs))"
      using files_heads [OF l, of g] hd by blast+
    then obtain i bytes where "(i, bytes) \<in> set objs" "oi_name i = show_name (HeadName g)" by auto
    then show ?thesis using st g(1) unfolding storage_holds_def by fastforce
  qed
  have heads: "\<exists>h'. adopt_from R g (if has_head l g then [HeadName g] else []) h w = Some (w, Ok (None, h')) \<and> held_true P rs h'"
  proof (cases "has_head l g")
    case True
    obtain d where d: "reading_open R (HeadName g) w = Some (w, Ok (Some d))" "dc_kind d = Journal"
        "decode_record P d g = Inr (rs ! gen g)"
      by (rule open_head [OF l st w R True])
    then show ?thesis using True held_true_keep [OF h d(2,3)] by (simp add: matched_def yields_runs)
  qed (simp add: h yields_runs)
  show ?thesis
  proof (cases "has_snapshot l g")
    case False
    then have "\<not> snapshot_opens_at P keys objs g" using files_snapshots [OF l, of g] by (force simp: snapshot_opens_at_def)
    then show ?thesis using False heads cand short by (auto simp: adoptable_def R)
  next
    case True
    obtain r where r: "reading_open R (IndexSnapshotName g) w = Some (w, r)"
      and out: "case r of
       Inl e \<Rightarrow> skippable e \<and> \<not> snapshot_opens_at P keys objs g
     | Inr opened \<Rightarrow> \<exists>d p. opened = Some d \<and> dc_kind d = IndexSnapshot \<and> decode_snapshot P d g = Inr p \<and>
         snapshot_ok (sp_content p) \<and> content_view (sp_content p) = library_after rs (Suc (gen g))"
      using open_snapshot_listed(2) [OF l st w R True] by blast
    have lt: "gen g < length rs" by (rule open_snapshot_listed(1) [OF l st w R True])
    show ?thesis
    proof (cases r)
      case (Inl e)
      then show ?thesis using r out True heads lt by (auto simp: adoptable_def R matched_def)
    next
      case (Inr opened)
      then obtain d p where "opened = Some d" "dc_kind d = IndexSnapshot" "decode_snapshot P d g = Inr p"
          "snapshot_ok (sp_content p)" "content_view (sp_content p) = library_after rs (Suc (gen g))"
        using out by auto
      then show ?thesis using r Inr True h lt by (simp add: adoptable_def R matched_def yields_runs)
    qed
  qed
qed

lemma adopted_view [simp]: "content_view (adopted_from_object n c) = content_view c"
  by (simp add: content_view_def adopted_from_object_def)

lemma adopted_ok [simp]: "snapshot_ok (adopted_from_object n c) \<longleftrightarrow> snapshot_ok c"
  by (simp add: snapshot_ok_def adopted_from_object_def)

text \<open>The starting point: never before where the Index stands, and past every Snapshot that opens.\<close>

lemma seek_at_rest:
  assumes l: "files (walked (map fst objs)) l" and st: "storage_holds P keys objs rs base"
    and R: "R = \<lparr>rd_ports = P, rd_keys = keys, rd_retry = retry, rd_listing = l\<rparr>"
    and w: "rests objs w" and view: "view_of (catalog w) = library_after rs (after_start at)" and "after_start at \<le> length rs"
    and "sorted_wrt (>) gs" and "\<forall>g \<in> set gs. has_snapshot l g \<or> has_head l g" and "held_true P rs h"
  shows "\<exists>v start nc h'. seek_start R at gs nc0 h w = Some (v, Ok (start, nc, h')) \<and> rests objs v \<and> held_true P rs h' \<and>
    view_of (catalog v) = library_after rs (after_start start) \<and> after_start start \<le> length rs \<and>
    after_start at \<le> after_start start \<and>
    (\<forall>g \<in> set gs. snapshot_opens_at P keys objs g \<longrightarrow> Suc (gen g) \<le> after_start start)"
  using assms(7-9)
proof (induction gs arbitrary: h)
  case Nil
  then show ?case using w view assms(6) by (simp add: yields_runs)
next
  case (Cons g gs)
  show ?case
  proof (cases "case at of None \<Rightarrow> False | Some a \<Rightarrow> g \<le> a")
    case True
    then obtain a where a: "at = Some a" "gen g \<le> gen a" by (auto simp: less_eq_generation_def split: option.splits)
    have "gen k \<le> gen a" if "k \<in> set (g # gs)" for k
      using that Cons.prems(1) a(2) by (auto simp: less_generation_def)
    then have "\<forall>k \<in> set (g # gs). Suc (gen k) \<le> after_start at" by (simp add: a(1) after_start_def)
    then show ?thesis using True w view assms(6) Cons.prems(3) by (simp add: yields_runs)
  next
    case False
    obtain found h' where f: "adoptable R g h w = Some (w, Ok (found, h'))" "held_true P rs h'" "gen g < length rs"
      and out: "case found of None \<Rightarrow> \<not> snapshot_opens_at P keys objs g
        | Some (name, c) \<Rightarrow> snapshot_ok c \<and> content_view c = library_after rs (Suc (gen g))"
      using adoptable_at_rest [OF l st w R Cons.prems(3), of g] Cons.prems(2) by auto
    show ?thesis
    proof (cases found)
      case None
      have "\<exists>v start nc h''. seek_start R at gs nc0 h' w = Some (v, Ok (start, nc, h'')) \<and> rests objs v \<and> held_true P rs h'' \<and>
          view_of (catalog v) = library_after rs (after_start start) \<and> after_start start \<le> length rs \<and>
          after_start at \<le> after_start start \<and>
          (\<forall>g \<in> set gs. snapshot_opens_at P keys objs g \<longrightarrow> Suc (gen g) \<le> after_start start)"
        by (rule Cons.IH) (use Cons.prems f(2) in auto)
      then show ?thesis using False f out None by (auto simp: act_def)
    next
      case (Some x)
      obtain name c where x: "x = (name, c)" by (cases x)
      have c: "snapshot_ok c" "content_view c = library_after rs (Suc (gen g))" using out Some x by simp_all
      have ix: "index_ok (catalog w)" and okw: "ok w" using w by (simp_all add: rests_def)
      obtain t where t: "index_restore (adopted_from_object name c) (catalog w) = (t, Ok ())" "index_ok t"
          "view_of t = content_view (adopted_from_object name c)"
        using restore_view [OF ix, of "adopted_from_object name c"] c(1) by auto
      obtain v where v: "ip_restore (po_index P) (adopted_from_object name c) w = Some (v, Ok ())" "catalog v = t" "ok v"
          "objects v = objects w"
        using ip_restore_eq [OF okw, of "adopted_from_object name c"] t(1) by auto
      have "seek_start R at (g # gs) nc0 h w = Some (v, Ok (Some g, newer_of nc0 g, h'))"
        using False f(1) Some x v(1) by (simp add: R act_def erring_def matched_def yields_runs)
      moreover have "rests objs v" using v t w by (simp add: rests_def)
      moreover have "gen k \<le> gen g" if "k \<in> set (g # gs)" for k using that Cons.prems(1) by (auto simp: less_generation_def)
      then have "\<forall>k \<in> set (g # gs). Suc (gen k) \<le> after_start (Some g)" by (simp add: after_start_def)
      moreover have "after_start at \<le> after_start (Some g)"
        using False by (auto simp: after_start_def less_eq_generation_def split: option.splits)
      ultimately show ?thesis using f(2,3) v(2) t(3) c(2) by (auto simp: after_start_def)
    qed
  qed
qed

text \<open>One record of the replay, and all of them.\<close>

lemma replay_one_at_rest:
  assumes l: "files (walked (map fst objs)) l" and st: "storage_holds P keys objs rs base"
    and R: "R = \<lparr>rd_ports = P, rd_keys = keys, rd_retry = retry, rd_listing = l\<rparr>" and hist: "history_ok rs"
    and w: "rests objs w" and view: "view_of (catalog w) = library_after rs n" and n: "n < length rs"
    and hd: "has_head l (Generation n)" and h: "held_true P rs h"
  shows "\<exists>v h'. replay_one R h n w = Some (v, Ok h') \<and> rests objs v \<and> held_true P rs h' \<and>
    view_of (catalog v) = library_after rs (Suc n)"
proof -
  let ?g = "Generation n"
  have gen: "generation_new n = Inr ?g" using hist n by (simp add: history_ok_def generation_new_def)
  obtain kept h' where take: "held_take ?g h = (kept, h')" by fastforce
  note taken = held_true_take [OF h take]
  obtain e where e: "reading_open R (HeadName ?g) w = Some (w, Ok (Some e))" "dc_kind e = Journal"
      "decode_record P e ?g = Inr (rs ! gen ?g)"
    by (rule open_head [OF l st w R hd])
  define d where "d = (case kept of Some d \<Rightarrow> d | None \<Rightarrow> e)"
  have d: "dc_kind d = Journal" "decode_record P d ?g = Inr (rs ! n)"
    using taken(2) e by (auto simp: d_def split: option.splits)
  define m where "m = (case kept of Some decoded \<Rightarrow> gives decoded
      | None \<Rightarrow> act (reading_open R (HeadName ?g)) (\<lambda>decoded. yields (ok_or (MissingHead ?g) decoded)))"
  have "m w = Some (w, Ok d)" using e(1) by (auto simp: m_def d_def act_def yields_runs split: option.splits)
  note got = act_run [where m = m, OF this]
  have ix: "index_ok (catalog w)" and okw: "ok w" using w by (simp_all add: rests_def)
  have "map_option cp_head (ix_checkpoint (catalog w)) = (if n = 0 then None else Some (Generation (n - 1)))"
    using library_at [OF hist, of n] n arg_cong [OF view, of lb_at] by (simp add: view_of_def)
  then have uncovered: "covered_by_checkpoint P ?g w = Some (w, Ok False)"
    using ip_checkpoint_eq [OF okw]
    by (auto simp: covered_by_checkpoint_def act_def erring_def matched_def yields_runs less_eq_generation_def split: option.splits if_splits)
  obtain t where t: "index_apply (rs ! n) (catalog w) = Some (t, Ok ())" "index_ok t" "view_of t = library_after rs (Suc n)"
    by (rule apply_next [OF ix view hist n])
  obtain v where v: "ip_apply (po_index P) (rs ! n) w = Some (v, Ok ())" "catalog v = t" "ok v" "objects v = objects w"
    using ip_apply_eq [OF okw t(1)] by blast
  have "replay_record P (rs ! n) w = Some (v, Ok ReplayApplied)" using v(1) by (simp add: replay_record_def matched_def yields_runs)
  then have "replay_one R h n w = Some (v, Ok h')"
    unfolding replay_one_def gen expects_run take Let_def prod.case m_def [symmetric] got d(1) control_object_kind.case
    using uncovered d(2) by (simp add: R act_def yields_runs)
  then show ?thesis using taken(1) v t w by (auto simp: rests_def)
qed

lemma replay_at_rest:
  assumes l: "files (walked (map fst objs)) l" and st: "storage_holds P keys objs rs base"
    and R: "R = \<lparr>rd_ports = P, rd_keys = keys, rd_retry = retry, rd_listing = l\<rparr>" and hist: "history_ok rs"
  shows "rests objs w \<Longrightarrow> view_of (catalog w) = library_after rs n \<Longrightarrow> n \<le> length rs \<Longrightarrow> held_true P rs h \<Longrightarrow>
    (\<And>k. n \<le> k \<Longrightarrow> k < length rs \<Longrightarrow> has_head l (Generation k)) \<Longrightarrow>
    \<exists>v h'. act_fold (replay_one R) h [n..<length rs] w = Some (v, Ok h') \<and> rests objs v \<and>
      view_of (catalog v) = library_after rs (length rs)"
proof (induction "length rs - n" arbitrary: n w h)
  case 0
  then show ?case by (simp add: yields_runs)
next
  case (Suc m)
  then have n: "n < length rs" by simp
  obtain v h' where v: "replay_one R h n w = Some (v, Ok h')" "rests objs v" "held_true P rs h'"
      "view_of (catalog v) = library_after rs (Suc n)"
    using replay_one_at_rest [OF l st R hist Suc.prems(1,2) n Suc.prems(5) Suc.prems(4)] n by blast
  have "\<exists>u h''. act_fold (replay_one R) h' [Suc n..<length rs] v = Some (u, Ok h'') \<and> rests objs u \<and>
      view_of (catalog u) = library_after rs (length rs)"
    by (rule Suc.hyps(1)) (use Suc v n in auto)
  moreover have "[n..<length rs] = n # [Suc n..<length rs]" using n by (simp add: upt_conv_Cons)
  ultimately show ?case using v(1) by (simp add: act_def)
qed

section \<open>Convergence\<close>

lemma catch_up_converges:
  assumes w: "ok w" "index_ok (catalog w)" and pages: "pages w None \<le> max_pages"
    and hist: "history_ok rs" and st: "storage_holds P keys (objects w) rs base"
    and k: "k \<le> length rs" and view: "view_of (catalog w) = library_after rs k"
    and reach: "within_reach P keys (objects w) base k"
  shows "\<exists>v caught. catch_up P keys retry w = Some (v, Ok caught) \<and>
    view_of (catalog v) = library_after rs (length rs) \<and> index_ok (catalog v) \<and> ok v \<and> objects v = objects w \<and>
    caught_head_generation caught = (if rs = [] then None else Some (Generation (length rs - 1))) \<and>
    files (walked (map fst (objects w))) (cu_listing caught)"
proof -
  let ?objs = "objects w"
  have names: "map oi_name (map fst ?objs) = map (\<lambda>(i, _). oi_name i) ?objs" by (simp add: case_prod_beta)
  have "\<not> single_twice (map oi_name (map fst ?objs))" using st unfolding names storage_holds_def by blast
  then obtain l where l: "filing listing_default (map fst ?objs) = Inr l" using filing_Ok_iff by blast
  note files = filing_Ok [OF l]
  have read: "listing_read P retry w = Some (w, Ok l)" using listing_read_eq [OF w(1) pages] l by simp
  let ?R = "\<lparr>rd_ports = P, rd_keys = keys, rd_retry = retry, rd_listing = l\<rparr>"
  let ?at = "map_option cp_head (ix_checkpoint (catalog w))"
  have at: "?at = (if k = 0 then None else Some (Generation (k - 1)))"
    using library_at [OF hist k] arg_cong [OF view, of lb_at] by (simp add: view_of_def)
  then have ak: "after_start ?at = k" by (simp add: after_start_def)
  have rest: "rests ?objs w" using w by (simp add: rests_def)
  obtain v start nc h where seek: "seek_start ?R ?at (checkpoint_candidates l) (newest_snapshot l) held_default w =
        Some (v, Ok (start, nc, h))"
    and v: "rests ?objs v" "held_true P rs h" "view_of (catalog v) = library_after rs (after_start start)"
      "after_start start \<le> length rs" "k \<le> after_start start"
    and past: "\<forall>g \<in> set (checkpoint_candidates l). snapshot_opens_at P keys ?objs g \<longrightarrow> Suc (gen g) \<le> after_start start"
    using seek_at_rest [OF files st refl rest, of ?at "checkpoint_candidates l" held_default retry "newest_snapshot l"]
      view k ak candidates_descend candidates_mem held_true_default [of P rs] by auto
  have "base \<le> after_start start"
  proof (cases "base \<le> k")
    case False
    then obtain g where g: "base \<le> Suc (gen g)" "snapshot_opens_at P keys ?objs g" using reach by (auto simp: within_reach_def)
    then have "has_snapshot l g" using files_snapshots [OF files, of g] by (force simp: snapshot_opens_at_def)
    then show ?thesis using past candidates_mem [of g l] g by force
  qed (use v(5) in simp)
  have gok: "name_ok (HeadName (Generation n))" if "n < length rs" for n
    using that hist by (simp add: history_ok_def generation_ok_def)
  have listed: "has_head l (Generation n)" if n: "n < length rs" "base \<le> n \<or> Suc n = length rs" for n
  proof -
    have "show_name (HeadName (Generation n)) \<in> (\<lambda>(i, _). oi_name i) ` set ?objs"
      using st n unfolding storage_holds_def by blast
    then have "show_name (HeadName (Generation n)) \<in> fst ` set (walked (map fst ?objs))" by force
    then show ?thesis using files_heads [OF files] gok [OF n(1)] by blast
  qed
  have below: "gen g < length rs" if "has_head l g" for g
  proof -
    have g: "name_ok (HeadName g)" "show_name (HeadName g) \<in> fst ` set (walked (map fst ?objs))"
      using files_heads [OF files, of g] that by blast+
    then obtain i bytes where "(i, bytes) \<in> set ?objs" "oi_name i = show_name (HeadName g)" by auto
    then show ?thesis using st g(1) unfolding storage_holds_def by fastforce
  qed
  have newest_is: "newest_head l = (if rs = [] then None else Some (Generation (length rs - 1)))"
  proof (cases "rs = []")
    case True
    then have "cl_heads l = []" using below newest_contains by (cases "cl_heads l") (auto simp: has_head_def bt_contains_iff)
    then show ?thesis using True by (simp add: newest_head_def newest_def)
  next
    case False
    have "g \<le> Generation (length rs - 1)" if "has_head l g" for g using below [OF that] by (simp add: less_eq_generation_def)
    then show ?thesis using False files_newest_head [OF files] listed [of "length rs - 1"] by simp
  qed
  have "\<exists>u. replay ?R start (newest_head l) h v = Some (u, Ok ()) \<and> rests ?objs u \<and>
      view_of (catalog u) = library_after rs (length rs)"
  proof (cases "rs = []")
    case True
    then show ?thesis using newest_is v by (simp add: replay_def yields_runs)
  next
    case False
    obtain u h' where u: "act_fold (replay_one ?R) h [after_start start..<length rs] v = Some (u, Ok h')" "rests ?objs u"
        "view_of (catalog u) = library_after rs (length rs)"
      using replay_at_rest [OF files st refl hist v(1,3,4,2)] listed \<open>base \<le> after_start start\<close> by fastforce
    have "generation_after start = Inr (after_start start)"
      by (rule generation_after_Ok) (use v(4) hist in \<open>simp add: history_ok_def\<close>)
    then show ?thesis using newest_is False u by (simp add: replay_def act_def yields_runs)
  qed
  then obtain u where u: "replay ?R start (newest_head l) h v = Some (u, Ok ())" "rests ?objs u"
      "view_of (catalog u) = library_after rs (length rs)" by blast
  have "catch_up P keys retry w = Some (u, Ok \<lparr>cu_listing = l, cu_head = map_option ControlHead (newest_head l),
      cu_newest_checkpoint = nc\<rparr>)"
    using read ip_checkpoint_eq [OF w(1)] seek u(1)
    by (simp add: catch_up_def Let_def act_def erring_def matched_def yields_runs)
  then show ?thesis using u newest_is files by (auto simp: rests_def caught_head_generation_def)
qed

end

end
