(* ===== verification/Commit_Candidate.thy ===== *)
theory Commit_Candidate
  imports Commit_Batch Library_World
begin

text \<open>
  What the candidate check decides, over a catalog that answers as the in-memory Index does (\<open>catalog_reads\<close>): a batch
  whose record can be built passes exactly when it removes current Containers only and its record is one the Library
  can take. The check leaves the world as it was and never panics.
\<close>

section \<open>The reads of the catalog\<close>

locale catalog_reads =
  fixes P :: "'w ports" and ok :: "'w \<Rightarrow> bool" and catalog :: "'w \<Rightarrow> index_state"
  assumes ip_entries_under_eq: "ok w \<Longrightarrow>
      ip_entries_under (po_index P) prefix w = Some (w, Ok (entries_under (catalog w) prefix))"
    and ip_containers_under_eq: "ok w \<Longrightarrow>
      ip_containers_under (po_index P) prefix w = Some (w, Ok (containers_under (catalog w) prefix))"

interpretation mem_reads: catalog_reads "mem_ports md5 lib" mem_world_ok mw_index
  by unfold_locales (simp_all add: mem_ports_def mem_index_port_def on_index_def)

lemma entries_under_all: "entries_under s None = bt_values (ix_entries s)"
  by (simp add: entries_under_def under_prefix_def)

lemma set_map_filter: "set (List.map_filter f xs) = {y. \<exists>x \<in> set xs. f x = Some y}"
  by (induction xs) (auto simp: List.map_filter_simps split: option.splits)

lemma containers_under_all:
  assumes "catalog_wf s"
  shows "cid ` set (containers_under s None) = loc_container ` stored (ix_entries s)"
proof -
  note d = catalog_wfD [OF assms]
  have "set (containers_under s None) = {c \<in> stored (ix_containers s). cid c \<in> loc_container ` stored (ix_entries s)}"
    unfolding containers_under_def Let_def under_prefix_def set_map_filter keyed_get [OF d(1)] by (auto simp: stored_def)
  moreover have "\<exists>c \<in> stored (ix_containers s). cid c = loc_container l" if "l \<in> stored (ix_entries s)" for l
    using d(4) [OF that] by force
  ultimately show ?thesis by force
qed

section \<open>The parts\<close>

lemma claim_paths_Ok_iff:
  "bt_inv paths \<Longrightarrow> (\<exists>ps. try_fold claim_path paths es = Inr ps) \<longleftrightarrow>
     distinct (map path es) \<and> (\<forall>e \<in> set es. \<not> bt_contains paths (path e))"
proof (induction es arbitrary: paths)
  case (Cons e es)
  have inv: "bt_inv (bs_insert (path e) paths)" using Cons.prems by (rule bs_inv_insert)
  have "(\<exists>ps. try_fold claim_path paths (e # es) = Inr ps) \<longleftrightarrow>
      \<not> bt_contains paths (path e) \<and> (\<exists>ps. try_fold claim_path (bs_insert (path e) paths) es = Inr ps)"
    by (auto simp: claim_path_def and_then_Inr_iff)
  with Cons.prems show ?case unfolding Cons.IH [OF inv] by (auto simp: image_iff)
qed simp

lemma paths_removed:
  "bt_inv m \<Longrightarrow> bt_inv (fold (\<lambda>x. bt_remove (f x)) xs m) \<and>
     (bt_contains (fold (\<lambda>x. bt_remove (f x)) xs m) p \<longleftrightarrow> bt_contains m p \<and> p \<notin> f ` set xs)"
proof (induction xs arbitrary: m)
  case (Cons x xs)
  from Cons.IH [OF bt_inv_remove [OF Cons.prems], of "f x"] show ?case
    by (auto simp: bt_contains_def bt_get_remove [OF Cons.prems])
qed simp

lemma paths_inserted:
  "bt_inv m \<Longrightarrow> bt_inv (fold (\<lambda>x. bs_insert (f x)) xs m) \<and>
     (bt_contains (fold (\<lambda>x. bs_insert (f x)) xs m) p \<longleftrightarrow> bt_contains m p \<or> p \<in> f ` set xs)"
proof (induction xs arbitrary: m)
  case (Cons x xs)
  from Cons.IH [OF bs_inv_insert [OF Cons.prems], of "f x"] show ?case using Cons.prems by auto
qed simp

lemma bs_inv_collect: "bt_inv (bs_collect ks)"
  by (simp add: bs_collect_def bt_inv_collect)

text \<open>The paths the renames leave the kept Entries at.\<close>

lemma moved_paths:
  assumes keys: "distinct (map order_key rs)" and move: "list_all2 (move_of E) rs xs"
    and injp: "inj_on loc_path E" and injk: "inj_on loc_key E"
  shows "p \<in> loc_path ` moved_by rs ` E \<longleftrightarrow> p \<in> rn_path ` set xs \<or> p \<in> loc_path ` E \<and> p \<notin> renamed_from ` set xs"
proof -
  have x: "\<exists>r \<in> set rs. move_of E r x" if "x \<in> set xs" for x
    using move that by (metis list_all2_conv_all_nth in_set_conv_nth)
  have r: "\<exists>x \<in> set xs. move_of E r x" if "r \<in> set rs" for r
    using move that by (metis list_all2_conv_all_nth in_set_conv_nth)
  show ?thesis
  proof
    assume "p \<in> loc_path ` moved_by rs ` E"
    then obtain l where l: "l \<in> E" "p = loc_path (moved_by rs l)" by blast
    show "p \<in> rn_path ` set xs \<or> p \<in> loc_path ` E \<and> p \<notin> renamed_from ` set xs"
    proof (cases "loc_key l \<in> order_key ` set rs")
      case True
      then obtain q where q: "q \<in> set rs" "order_key q = loc_key l" by auto
      obtain y where "y \<in> set xs" "rn_path y = ren_path q" using r [OF q(1)] by (auto simp: move_of_def)
      then show ?thesis using moved_by_path [OF keys q] l(2) by (metis imageI)
    next
      case False
      have "renamed_from y \<noteq> loc_path l" if y: "y \<in> set xs" for y
      proof
        assume "renamed_from y = loc_path l"
        moreover obtain q where "q \<in> set rs" "move_of E q y" using x [OF y] by blast
        ultimately show False using False injp l(1) by (auto simp: move_of_def renamed_from_def dest!: inj_onD)
      qed
      then show ?thesis using l moved_by_none [OF False] by (metis imageE imageI)
    qed
  next
    assume "p \<in> rn_path ` set xs \<or> p \<in> loc_path ` E \<and> p \<notin> renamed_from ` set xs"
    then show "p \<in> loc_path ` moved_by rs ` E"
    proof
      assume "p \<in> rn_path ` set xs"
      then obtain y where y: "y \<in> set xs" "p = rn_path y" by blast
      obtain q where q: "q \<in> set rs" "move_of E q y" using x [OF y(1)] by blast
      then have "order_key q = loc_key (rn_before y)" "rn_before y \<in> E" "ren_path q = p"
        using y(2) by (simp_all add: move_of_def)
      then show ?thesis using moved_by_path [OF keys q(1)] by (metis imageI)
    next
      assume a: "p \<in> loc_path ` E \<and> p \<notin> renamed_from ` set xs"
      then obtain l where l: "l \<in> E" "p = loc_path l" by blast
      have "loc_key l \<notin> order_key ` set rs"
      proof
        assume "loc_key l \<in> order_key ` set rs"
        then obtain q y where "order_key q = loc_key l" "y \<in> set xs" "move_of E q y" using r by (metis imageE)
        then have "rn_before y = l" "y \<in> set xs" using injk l(1) by (auto simp: move_of_def dest: inj_onD)
        then show False using a l(2) by (auto simp: renamed_from_def)
      qed
      then show ?thesis using l moved_by_none by (metis imageI)
    qed
  qed
qed

lemma may_move_at: "may_move E r \<Longrightarrow> \<exists>l \<in> E. order_key r = loc_key l"
  unfolding may_move_def by metis

text \<open>The paths of the additions, in whatever order they come.\<close>

lemma distinct_concat_map:
  "distinct (concat (map f xs)) \<longleftrightarrow> (\<forall>x \<in> set xs. distinct (f x)) \<and> sorted_wrt (\<lambda>a b. set (f a) \<inter> set (f b) = {}) xs"
  by (induction xs) auto

lemma concat_map_mset: "mset xs = mset ys \<Longrightarrow> mset (concat (map f xs)) = mset (concat (map f ys))"
  by (metis (no_types, lifting) mset_concat mset_map sum_mset_sum_list map_map)

lemma concat_sort_distinct: "distinct (concat (map f (sort_key k xs))) \<longleftrightarrow> distinct (concat (map f xs))"
  using concat_map_mset [of "sort_key k xs" xs f] by (metis mset_sort mset_eq_imp_distinct_iff)

section \<open>The record of a batch\<close>

definition rename_of :: "pending_rename \<Rightarrow> entry_rename" where
  "rename_of p = \<lparr>ren_container = fst (pr_entry p), ren_number = snd (pr_entry p), ren_path = pr_path p\<rparr>"

lemma batch_rename_Ok_iff: "batch_rename p = Inr r \<longleftrightarrow> r = rename_of p \<and> rename_ok r"
  by (simp add: batch_rename_def rename_new_Ok_iff rename_of_def)

lemma batch_renames_collected:
  "collect_res batch_rename ps = Inr rs \<longleftrightarrow> rs = map rename_of ps \<and> (\<forall>r \<in> set rs. rename_ok r)"
proof (induction ps arbitrary: rs)
  case (Cons p ps)
  show ?case by (cases rs) (auto simp: and_then_Inr_iff Cons.IH batch_rename_Ok_iff)
qed auto

lemma batch_record_Ok_iff:
  "batch_record g prev e k ns ss b = Inr r \<longleftrightarrow>
     prev = predecessor_of g \<and> distinct (map (\<lambda>p. addition_id (pa_addition p)) (pb_additions b)) \<and> distinct (pb_removals b) \<and>
     (\<forall>p \<in> set (pb_renames b). rename_ok (rename_of p)) \<and> distinct (map pr_entry (pb_renames b)) \<and>
     r = \<lparr>jr_generation = g, jr_prev = prev, jr_epoch = e, jr_keyring = k, jr_next_slot = ns, jr_snapshot_slot = ss,
          jr_additions = sort_key addition_id (map pa_addition (pb_additions b)), jr_removals = sort (pb_removals b),
          jr_renames = sort_key order_key (map rename_of (pb_renames b)), jr_library_name = pb_library_name b\<rparr>"
proof -
  have keys: "sorted_wrt (<) (map order_key (sort_key order_key (map rename_of (pb_renames b)))) \<longleftrightarrow> distinct (map pr_entry (pb_renames b))"
  proof -
    have "map order_key (map rename_of (pb_renames b)) = map pr_entry (pb_renames b)"
      by (simp add: rename_of_def order_key_def)
    then show ?thesis
      using renames.sorted_require [of "map rename_of (pb_renames b)"] unfolding renames.require_Ok_iff by metis
  qed
  have colls: "collections_ok (sort_key addition_id as) (sort rs) \<longleftrightarrow> distinct (map addition_id as) \<and> distinct rs" for as rs
    using additions.sorted_require [of as] removals.sorted_require [of rs]
    by (simp add: collections_ok_def additions.require_Ok_iff removals.require_Ok_iff)
  show ?thesis
    unfolding batch_record_def map_err_eq_Ok and_then_Inr_iff batch_renames_def journal_record_canonical_def
      journal_record_new_Ok_iff batch_renames_collected with_renames_Ok_iff colls
    using keys by (auto simp: with_library_name_def comp_def)
qed

lemma strictly_sorted_sort: "sorted_wrt (<) (map k (sort_key k xs)) \<longleftrightarrow> distinct (map k xs)"
proof -
  have "mset (map k (sort_key k xs)) = mset (map k xs)" by simp
  then have "distinct (map k (sort_key k xs)) \<longleftrightarrow> distinct (map k xs)" by (rule mset_eq_imp_distinct_iff)
  then show ?thesis by (simp add: strict_sorted_iff)
qed

lemma moved_by_sorted: "distinct (map order_key rs) \<Longrightarrow> moved_by (sort_key order_key rs) = moved_by rs"
proof (rule ext)
  fix l
  assume keys: "distinct (map order_key rs)"
  then have sorted_keys: "distinct (map order_key (sort_key order_key rs))" by (simp add: distinct_map)
  show "moved_by (sort_key order_key rs) l = moved_by rs l"
  proof (cases "loc_key l \<in> order_key ` set rs")
    case True
    then obtain r where "r \<in> set rs" "order_key r = loc_key l" by auto
    then show ?thesis using moved_by_some [OF keys] moved_by_some [OF sorted_keys] by simp
  qed (simp add: moved_by_none)
qed

section \<open>What passes\<close>

text \<open>What the check looks at, as sets.\<close>

definition batch_fits :: "prepared_batch \<Rightarrow> entry_location set \<Rightarrow> bool" where
  "batch_fits b E \<longleftrightarrow>
     (let K = {l \<in> E. loc_container l \<notin> set (pb_removals b)}; rs = map rename_of (pb_renames b);
          es = concat (map (\<lambda>p. add_entries (pa_addition p)) (pb_additions b))
      in set (pb_removals b) \<subseteq> loc_container ` E \<and> (\<forall>r \<in> set rs. rename_ok r) \<and> (\<forall>r \<in> set rs. may_move K r) \<and>
         inj_on loc_path (moved_by rs ` K) \<and> distinct (map path es) \<and>
         path ` set es \<inter> loc_path ` moved_by rs ` K = {})"

lemma fits_parts:
  "Q \<longleftrightarrow> R \<and> I \<and> A \<and> D \<and> C \<Longrightarrow> (C \<Longrightarrow> A) \<Longrightarrow> M \<Longrightarrow> G \<and> Q \<longleftrightarrow> G \<and> R \<and> M \<and> I \<and> D \<and> C"
  by blast

lemma fits_whole: "R \<Longrightarrow> F \<Longrightarrow> J \<longleftrightarrow> I \<and> D \<and> C \<Longrightarrow> G \<and> R \<and> M \<and> I \<and> D \<and> C \<longleftrightarrow> G \<and> M \<and> F \<and> J"
  by blast

text \<open>A batch fits exactly when its record does, and it removes nothing that is not there.\<close>

lemma batch_fits_iff:
  assumes wf: "catalog_wf s" and rec: "batch_record g prev e k ns ss b = Inr r"
    and aok: "\<forall>p \<in> set (pb_additions b). addition_ok (pa_addition p)"
    and new: "(\<lambda>p. addition_id (pa_addition p)) ` set (pb_additions b) \<inter> cid ` {c \<in> stored (ix_containers s). cid c \<notin> set (pb_removals b)} = {}"
  shows "batch_fits b (stored (ix_entries s)) \<longleftrightarrow>
    set (pb_removals b) \<subseteq> loc_container ` stored (ix_entries s) \<and> fits r (stored (ix_containers s)) (stored (ix_entries s))"
    and "record_ok r"
proof -
  let ?E = "stored (ix_entries s)" and ?C = "stored (ix_containers s)"
  let ?K = "{l \<in> ?E. loc_container l \<notin> set (pb_removals b)}" and ?rs = "map rename_of (pb_renames b)"
  let ?as = "map pa_addition (pb_additions b)" and ?es = "concat (map (\<lambda>p. add_entries (pa_addition p)) (pb_additions b))"
  let ?ls = "\<lambda>a. loc_path ` set (located a)"
  have d: "distinct (map addition_id ?as)" "distinct (pb_removals b)" "\<forall>x \<in> set ?rs. rename_ok x" "distinct (map order_key ?rs)"
    and r: "jr_additions r = sort_key addition_id ?as" "jr_removals r = sort (pb_removals b)" "jr_renames r = sort_key order_key ?rs"
    using rec by (auto simp: batch_record_Ok_iff comp_def rename_of_def order_key_def)
  have one: "addition_ok a" if "a \<in> set ?as" for a using aok that by auto
  show ok: "record_ok r"
    using d(1,2,4) one strictly_sorted_sort [of "\<lambda>c. c" "pb_removals b"]
    unfolding record_ok_def r collections_ok_def strictly_sorted_sort set_sort list.map_ident by blast
  have paths: "map loc_path (located a) = map path (add_entries a)" if "a \<in> set ?as" for a
    by (rule located_ok(2) [OF one [OF that]])
  have kept: "entries_kept r ?E = ?K" "containers_kept r ?C = {c \<in> ?C. cid c \<notin> set (pb_removals b)}"
    by (simp_all add: entries_kept_def containers_kept_def r)
  have mv: "moved_by (jr_renames r) = moved_by ?rs" unfolding r by (rule moved_by_sorted [OF d(4)])
  let ?s = "apply_removals (pb_removals b) s"
  have s': "catalog_wf ?s" "?K = stored (ix_entries ?s)" "{c \<in> ?C. cid c \<notin> set (pb_removals b)} = stored (ix_containers ?s)"
    using apply_removals_stored [OF wf, of "pb_removals b"] by simp_all
  have gone: "\<forall>l \<in> ?K. loc_container l \<notin> set (jr_removals r)" by (simp add: r)
  have fresh: "addition_id ` set (jr_additions r) \<inter> cid ` {c \<in> ?C. cid c \<notin> set (pb_removals b)} = {}"
    using new by (simp add: r image_image)
  note inj = entries_after_inj_iff [OF ok s' (1,2,3) gone fresh]
  have apart: "sorted_wrt (\<lambda>a b. ?ls a \<inter> ?ls b = {}) (jr_additions r) \<longleftrightarrow> distinct (map path ?es)"
  proof -
    have each: "\<forall>a \<in> set ?as. distinct (map loc_path (located a))"
      using one paths by (simp add: addition_ok_iff)
    have "map path ?es = concat (map (\<lambda>a. map path (add_entries a)) ?as)" by (simp add: map_concat comp_def)
    also have "\<dots> = concat (map (\<lambda>a. map loc_path (located a)) ?as)"
      using paths by (intro arg_cong [of _ _ concat] map_cong refl) simp
    finally have "distinct (map path ?es) \<longleftrightarrow> distinct (concat (map (\<lambda>a. map loc_path (located a)) (sort_key addition_id ?as)))"
      by (simp only: concat_sort_distinct)
    then show ?thesis using each by (simp add: distinct_concat_map r)
  qed
  have set_es: "path ` set ?es = (\<Union>a \<in> set ?as. ?ls a)"
  proof -
    have "?ls a = path ` set (add_entries a)" if "a \<in> set ?as" for a
      using arg_cong [OF paths [OF that], of set] by simp
    then show ?thesis by auto
  qed
  have ea: "entries_after r ?E = moved_by (jr_renames r) ` ?K \<union> (\<Union>a \<in> set (jr_additions r). set (located a))"
    by (simp only: entries_after_def kept)
  have clear: "(\<forall>a \<in> set (jr_additions r). ?ls a \<inter> loc_path ` moved_by ?rs ` ?K = {}) \<longleftrightarrow>
      path ` set ?es \<inter> loc_path ` moved_by ?rs ` ?K = {}"
    unfolding set_es r set_sort by blast
  have "inj_on loc_path (entries_after r ?E) \<longleftrightarrow> inj_on loc_path (moved_by ?rs ` ?K) \<and> distinct (map path ?es) \<and>
      path ` set ?es \<inter> loc_path ` moved_by ?rs ` ?K = {}"
    using inj unfolding ea mv apart clear .
  note whole = fits_whole [OF d(3) fresh this, of "set (pb_removals b) \<subseteq> loc_container ` ?E" "\<forall>x \<in> set ?rs. may_move ?K x"]
  have "set (jr_renames r) = set ?rs" by (simp add: r)
  then show "batch_fits b ?E \<longleftrightarrow> set (pb_removals b) \<subseteq> loc_container ` ?E \<and> fits r ?C ?E"
    unfolding batch_fits_def fits_def Let_def kept using whole by (simp only:)
qed

context catalog_reads begin

lemma check_removals_run:
  assumes "ok w" and wf: "catalog_wf (catalog w)"
  shows "\<exists>res. check_removals P (bs_collect cs) w = Some (w, res) \<and>
    (res = Ok () \<longleftrightarrow> set cs \<subseteq> loc_container ` stored (ix_entries (catalog w)))"
proof -
  let ?cs = "bs_collect cs"
  have mem: "set (bt_keys ?cs) = set cs" using bs_contains_collect [of cs] by (auto simp: bt_contains_iff bt_keys_def)
  show ?thesis
  proof (cases "?cs = []")
    case True
    then have "set cs = {}" using mem by (simp add: bt_keys_def)
    then show ?thesis using True by (simp add: check_removals_def yields_runs)
  next
    case False
    let ?current = "bs_collect (map cid (containers_under (catalog w) None))"
    let ?gone = "filter (\<lambda>c. \<not> bt_contains ?current c) (bt_keys ?cs)"
    have run: "check_removals P ?cs w = Some (w, if ?gone = [] then Ok () else Err (RemovalNotCurrent ?gone))"
      using False ip_containers_under_eq [OF assms(1)]
      by (simp add: check_removals_def act_def erring_def matched_def yields_runs Let_def)
    have "?gone = [] \<longleftrightarrow> set cs \<subseteq> loc_container ` stored (ix_entries (catalog w))"
      unfolding filter_empty_conv mem using containers_under_all [OF wf] by auto
    then show ?thesis using run by (cases "?gone = []") simp_all
  qed
qed

lemma candidate_named_iff:
  assumes "catalog_wf s"
  shows "candidate_named (bt_values (ix_entries s)) containers c n = NamedEntry l \<longleftrightarrow>
    l \<in> stored (ix_entries s) \<and> loc_key l = (c, n)"
proof -
  have "bt_get (bt_collect (map (\<lambda>l. (entry_ref_of l, l)) (bt_values (ix_entries s)))) (c, n) = Some l
      \<longleftrightarrow> l \<in> stored (ix_entries s) \<and> loc_key l = (c, n)" (is "?get = _ \<longleftrightarrow> ?at")
    using bt_get_collect_inj [of loc_key "bt_values (ix_entries s)" "\<lambda>l. l" "(c, n)" l] catalog_wfD(3) [OF assms]
    by (simp add: stored_def)
  moreover have "candidate_named (bt_values (ix_entries s)) containers c n = NamedEntry l \<longleftrightarrow> ?get = Some l"
    by (simp add: candidate_named_def split: option.split)
  ultimately show ?thesis by simp
qed

lemma candidate_standing_iff:
  assumes "catalog_wf s"
  shows "candidate_standing (bt_values (ix_entries s)) (bs_collect cs) p = Some k \<longleftrightarrow>
    (\<exists>l \<in> {l \<in> stored (ix_entries s). loc_container l \<notin> set cs}. loc_path l = p \<and> loc_key l = k)"
proof -
  let ?kept = "filter (\<lambda>l. loc_container l \<notin> set cs) (bt_values (ix_entries s))"
  have "inj_on loc_path (set ?kept)"
    by (rule inj_on_subset [OF keyed_inj [OF catalog_wfD(2) [OF assms]]]) (auto simp: stored_def)
  from bt_get_collect_inj [OF this, of loc_key p k]
  have "candidate_standing (bt_values (ix_entries s)) (bs_collect cs) p = Some k \<longleftrightarrow>
      (\<exists>l \<in> set ?kept. loc_path l = p \<and> loc_key l = k)"
    unfolding candidate_standing_def bs_contains_collect entry_ref_keys .
  moreover have "set ?kept = {l \<in> stored (ix_entries s). loc_container l \<notin> set cs}" by (simp add: stored_def)
  ultimately show ?thesis by (simp only:)
qed

lemma candidate_renames_run:
  fixes b :: prepared_batch
  assumes "ok w" and wf: "catalog_wf (catalog w)"
  defines "K \<equiv> {l \<in> stored (ix_entries (catalog w)). loc_container l \<notin> set (pb_removals b)}"
    and "rs \<equiv> map rename_of (pb_renames b)"
  shows "\<exists>res. candidate_renames P b (bs_collect (pb_removals b)) (bt_values (ix_entries (catalog w))) w = Some (w, res) \<and>
    (\<forall>xs. res = Inr xs \<longleftrightarrow> (\<forall>r \<in> set rs. rename_ok r) \<and> list_all2 (move_of K) rs xs \<and> distinct (map ren_path rs) \<and>
       (\<forall>l \<in> K. loc_path l \<in> ren_path ` set rs \<longrightarrow> loc_key l \<in> order_key ` set rs) \<and>
       (\<forall>a \<in> set (map pa_addition (pb_additions b)). \<forall>e \<in> set (add_entries a). path e \<notin> ren_path ` set rs))"
proof (cases "pb_renames b = []")
  case True
  then show ?thesis by (auto simp: candidate_renames_def yields_runs rs_def)
next
  case False
  let ?s = "catalog w" and ?removed = "bs_collect (pb_removals b)"
  let ?containers = "bs_collect (map cid (containers_under ?s None))"
  let ?nm = "candidate_named (bt_values (ix_entries ?s)) ?containers"
    and ?st = "candidate_standing (bt_values (ix_entries ?s)) ?removed"
  let ?check = "check_rename_set rs (bt_keys ?removed) (map pa_addition (pb_additions b)) (\<lambda>c n. Ok (?nm c n)) (\<lambda>p. Ok (?st p))"
  have mem: "set (bt_keys ?removed) = set (pb_removals b)"
    using bs_contains_collect [of "pb_removals b"] by (auto simp: bt_contains_iff bt_keys_def)
  have srt: "sorted_wrt (<) (bt_keys ?removed)"
    using bs_inv_collect [of "pb_removals b"] by (simp add: bt_inv_def bt_keys_def)
  have mv: "movable (bt_keys ?removed) ?nm = move_of K"
    unfolding fun_eq_iff movable_def move_of_def candidate_named_iff [OF wf] mem K_def
    by (auto simp: order_key_def loc_key_def)
  have blocked: "(\<forall>r \<in> set rs. \<forall>k. ?st (ren_path r) = Some k \<longrightarrow> k \<in> order_key ` set rs) \<longleftrightarrow>
      (\<forall>l \<in> K. loc_path l \<in> ren_path ` set rs \<longrightarrow> loc_key l \<in> order_key ` set rs)"
    unfolding candidate_standing_iff [OF wf] K_def by blast
  note check = check_rename_set_Ok_iff [OF srt, of rs "map pa_addition (pb_additions b)" ?nm ?st, unfolded mv blocked]
  show ?thesis
  proof (cases "\<forall>r \<in> set rs. rename_ok r")
    case True
    then have "collect_res batch_rename (pb_renames b) = Inr rs" by (simp add: batch_renames_collected rs_def)
    then have "candidate_renames P b ?removed (bt_values (ix_entries ?s)) w = Some (w, map_err of_rename_refusal ?check)"
      using False ip_containers_under_eq [OF assms(1), of None]
      by (simp add: candidate_renames_def act_def erring_def matched_def yields_runs)
    then show ?thesis using check True by (auto simp: map_err_eq_Ok)
  next
    case none: False
    then have "collect_res batch_rename (pb_renames b) \<noteq> Inr xs" for xs by (auto simp: batch_renames_collected rs_def)
    then obtain e where "collect_res batch_rename (pb_renames b) = Inl e" by (cases "collect_res batch_rename (pb_renames b)") auto
    then have "candidate_renames P b ?removed (bt_values (ix_entries ?s)) w = Some (w, Err (UnwritableControlValue e))"
      using False by (simp add: candidate_renames_def act_def yields_runs)
    then show ?thesis using none by auto
  qed
qed

lemma candidate_check_run:
  assumes "ok w" and wf: "catalog_wf (catalog w)" and keys: "distinct (map pr_entry (pb_renames b))"
  shows "\<exists>res. candidate_check P b w = Some (w, res) \<and> (res = Ok () \<longleftrightarrow> batch_fits b (stored (ix_entries (catalog w))))"
proof -
  let ?s = "catalog w" and ?E = "stored (ix_entries (catalog w))"
  let ?K = "{l \<in> ?E. loc_container l \<notin> set (pb_removals b)}" and ?rs = "map rename_of (pb_renames b)"
  let ?es = "concat (map (\<lambda>p. add_entries (pa_addition p)) (pb_additions b))"
  note d = catalog_wfD [OF wf]
  have injp: "inj_on loc_path ?K" using keyed_inj [OF d(2)] by (rule inj_on_subset) auto
  have injk: "inj_on loc_key ?K" using d(3) by (rule inj_on_subset) auto
  have ordered: "distinct (map order_key ?rs)" using keys by (simp add: comp_def rename_of_def order_key_def)
  obtain gone where gone: "check_removals P (bs_collect (pb_removals b)) w = Some (w, gone)"
    "gone = Ok () \<longleftrightarrow> set (pb_removals b) \<subseteq> loc_container ` ?E"
    using check_removals_run [OF assms(1) wf] by blast
  obtain moved where moved: "candidate_renames P b (bs_collect (pb_removals b)) (bt_values (ix_entries ?s)) w = Some (w, moved)"
    "\<And>xs. moved = Inr xs \<longleftrightarrow> (\<forall>r \<in> set ?rs. rename_ok r) \<and> list_all2 (move_of ?K) ?rs xs \<and> distinct (map ren_path ?rs) \<and>
       (\<forall>l \<in> ?K. loc_path l \<in> ren_path ` set ?rs \<longrightarrow> loc_key l \<in> order_key ` set ?rs) \<and>
       (\<forall>a \<in> set (map pa_addition (pb_additions b)). \<forall>e \<in> set (add_entries a). path e \<notin> ren_path ` set ?rs)"
    using candidate_renames_run [OF assms(1) wf, of b] by blast
  define base where "base = bs_collect (map loc_path (filter (\<lambda>l. \<not> bt_contains (bs_collect (pb_removals b)) (loc_container l))
      (bt_values (ix_entries ?s))))"
  define paths where "paths xs = fold (\<lambda>one. bs_insert (rn_path one)) xs (fold (\<lambda>one. bt_remove (renamed_from one)) xs base)" for xs
  define claimed where "claimed xs = and_then (try_fold claim_path (paths xs) ?es) (\<lambda>_. Ok ())" for xs
  have run: "candidate_check P b w = Some (w, case gone of Inl e \<Rightarrow> Inl e | Inr _ \<Rightarrow>
      (case moved of Inl e \<Rightarrow> Inl e | Inr xs \<Rightarrow> claimed xs))"
    unfolding candidate_check_def Let_def paths_def [symmetric] base_def [symmetric] claimed_def [symmetric]
    using gone(1) moved(1) ip_entries_under_eq [OF assms(1), of None]
    by (cases gone; cases moved) (simp_all add: act_def erring_def matched_def yields_runs entries_under_all
        paths_def base_def claimed_def)
  have base: "bt_inv base" "bt_contains base p \<longleftrightarrow> p \<in> loc_path ` ?K" for p
    by (auto simp: base_def bs_inv_collect stored_def)
  have claim: "claimed xs = Ok () \<longleftrightarrow> distinct (map path ?es) \<and> path ` set ?es \<inter> loc_path ` moved_by ?rs ` ?K = {}"
    if xs: "list_all2 (move_of ?K) ?rs xs" for xs
  proof -
    have inv: "bt_inv (paths xs)"
      unfolding paths_def using paths_inserted paths_removed [OF base(1), of renamed_from xs] by blast
    have at: "bt_contains (paths xs) p \<longleftrightarrow> p \<in> loc_path ` moved_by ?rs ` ?K" for p
      unfolding moved_paths [OF ordered xs injp injk] paths_def
      using paths_inserted [of "fold (\<lambda>one. bt_remove (renamed_from one)) xs base" rn_path xs p]
        paths_removed [OF base(1), of renamed_from xs p] base(2) [of p] by blast
    have "claimed xs = Ok () \<longleftrightarrow> (\<exists>ps. try_fold claim_path (paths xs) ?es = Inr ps)"
      by (auto simp: claimed_def and_then_Inr_iff)
    then show ?thesis unfolding claim_paths_Ok_iff [OF inv] at by blast
  qed
  have moves: "(\<exists>xs. list_all2 (move_of ?K) ?rs xs) \<longleftrightarrow> (\<forall>r \<in> set ?rs. may_move ?K r)" by (rule list_all2_move_of)
  have added: "(\<forall>a \<in> set (map pa_addition (pb_additions b)). \<forall>e \<in> set (add_entries a). path e \<notin> ren_path ` set ?rs) \<longleftrightarrow>
      path ` set ?es \<inter> ren_path ` set ?rs = {}" by auto
  have onto: "ren_path ` set ?rs \<subseteq> loc_path ` moved_by ?rs ` ?K" if may: "\<forall>r \<in> set ?rs. may_move ?K r"
  proof
    fix p assume "p \<in> ren_path ` set ?rs"
    then obtain r where r: "r \<in> set ?rs" "p = ren_path r" by blast
    then obtain l where "l \<in> ?K" "order_key r = loc_key l" using may_move_at may by blast
    from moved_by_path [OF ordered r(1) this(2)] have "p = loc_path (moved_by ?rs l)" using r(2) by simp
    then show "p \<in> loc_path ` moved_by ?rs ` ?K" using \<open>l \<in> ?K\<close> by (simp only: image_eqI)
  qed
  have "(case gone of Inl e \<Rightarrow> Inl e | Inr _ \<Rightarrow> (case moved of Inl e \<Rightarrow> Inl e | Inr xs \<Rightarrow> claimed xs)) = Ok () \<longleftrightarrow>
      gone = Ok () \<and> (\<exists>xs. moved = Inr xs \<and> claimed xs = Ok ())"
    by (cases gone; cases moved) auto
  also have "\<dots> \<longleftrightarrow> batch_fits b ?E"
  proof (cases "\<forall>r \<in> set ?rs. may_move ?K r")
    case True
    note inj = moved_paths_iff [OF ordered True injp injk]
    obtain xs where xs: "list_all2 (move_of ?K) ?rs xs" using moves True by blast
    let ?clear = "path ` set ?es \<inter> loc_path ` moved_by ?rs ` ?K = {}"
    let ?R = "\<forall>r \<in> set ?rs. rename_ok r" and ?I = "inj_on loc_path (moved_by ?rs ` ?K)"
      and ?A = "path ` set ?es \<inter> ren_path ` set ?rs = {}" and ?D = "distinct (map path ?es)"
    have iff: "moved = Inr ys \<longleftrightarrow> ?R \<and> list_all2 (move_of ?K) ?rs ys \<and> ?I \<and> ?A" for ys
      unfolding moved(2) inj added conj_assoc ..
    have "(\<exists>xs. moved = Inr xs \<and> claimed xs = Ok ()) \<longleftrightarrow> ?R \<and> ?I \<and> ?A \<and> ?D \<and> ?clear" (is "?lhs \<longleftrightarrow> ?rhs")
    proof
      assume ?lhs
      then obtain ys where ys: "moved = Inr ys" "claimed ys = Ok ()" by blast
      note m = ys(1) [unfolded iff]
      from iffD1 [OF claim [OF conjunct1 [OF conjunct2 [OF m]]] ys(2)] m show ?rhs by (elim conjE) (intro conjI; assumption)
    next
      assume r: ?rhs
      then have "moved = Inr xs" using xs unfolding iff by (elim conjE) (intro conjI; assumption)
      moreover have "claimed xs = Ok ()" using r unfolding claim [OF xs] by (elim conjE) (intro conjI; assumption)
      ultimately show ?lhs by (intro exI conjI)
    qed
    moreover have "?clear \<Longrightarrow> ?A" using onto [OF True] by blast
    ultimately show ?thesis unfolding gone(2) batch_fits_def Let_def by (rule fits_parts [where M = "\<forall>r \<in> set ?rs. may_move ?K r"]) (assumption | rule True)+
  next
    case False
    then have "\<not> (\<exists>xs. list_all2 (move_of ?K) ?rs xs)" using moves by simp
    then have "\<not> (\<exists>xs. moved = Inr xs)" using moved(2) by blast
    moreover have "\<not> batch_fits b ?E" using False unfolding batch_fits_def Let_def by blast
    ultimately show ?thesis by blast
  qed
  finally show ?thesis using run by blast
qed

text \<open>What the check decides is whether the Library can take the record.\<close>

lemma candidate_exact:
  assumes "ok w" and wf: "catalog_wf (catalog w)" and rec: "batch_record g prev e k ns ss b = Inr r"
    and aok: "\<forall>p \<in> set (pb_additions b). addition_ok (pa_addition p)"
    and new: "(\<lambda>p. addition_id (pa_addition p)) ` set (pb_additions b) \<inter>
      cid ` {c \<in> stored (ix_containers (catalog w)). cid c \<notin> set (pb_removals b)} = {}"
  shows "\<exists>res. candidate_check P b w = Some (w, res) \<and>
    (res = Ok () \<longleftrightarrow> set (pb_removals b) \<subseteq> loc_container ` stored (ix_entries (catalog w)) \<and>
       record_fits r (view_of (catalog w)))"
proof -
  have "distinct (map pr_entry (pb_renames b))" using rec by (simp add: batch_record_Ok_iff)
  from candidate_check_run [OF assms(1) wf this] batch_fits_iff [OF wf rec aok new] show ?thesis
    by (simp add: record_fits_def view_of_def)
qed

end

end
