(* ===== verification/Commit_Sealing.thy ===== *)
theory Commit_Sealing
  imports Convergence Commit_Candidate
begin

text \<open>
  What a commit seals is what a catch-up opens: a Journal record and an Index Snapshot that were sealed under their
  name are held as the convergence of a catch-up needs them (\<open>holds_record\<close>, \<open>true_snapshot\<close>). A Library whose
  records are writable (\<open>library_writable\<close>) has a writable Snapshot.
\<close>

section \<open>The bodies of the payloads\<close>

lemma field_zero_epoch:
  assumes "mf \<in> {JOURNAL_RECORD, INDEX_SNAPSHOT, KEYRING}" and "live_by_name mf name = Some f" and "number_of f = 0"
  shows "name = ''master_key_epoch''"
proof -
  have "f \<in> set (map_list mf)" and n: "field_name f = name"
    using assms(2) by (auto simp: live_by_name_def find_Some_iff)
  then have "field_name f = ''master_key_epoch''"
    using assms(1,3) by (auto simp: JOURNAL_RECORD_def INDEX_SNAPSHOT_def KEYRING_def field_def holding_def master_key_epoch_field_def)
  then show ?thesis using n by simp
qed

lemma written_body:
  assumes mf: "mf \<in> {JOURNAL_RECORD, INDEX_SNAPSHOT, KEYRING}" and "kind_ok mf" and pl: "plain_map m"
    and names: "\<forall>(k, v) \<in> set m. k \<noteq> Txt ''master_key_epoch''" and body: "write_body L (mb_build m) mf = Inr b"
  shows "\<exists>entries. body_of L b entries"
proof -
  obtain w where w: "to_wire (Map m) mf = Inr w" "into_writer L w = Inr b"
    using body by (auto simp: write_body_def mb_build_def res_simps)
  let ?h = "\<lambda>(name, value).
           case Option.bind (as_text name) (live_by_name mf) of
             None \<Rightarrow> Err (UnregisteredField (map_name mf) (as_text name))
           | Some f \<Rightarrow>
               and_then (case holds f of Some nested \<Rightarrow> to_wire value nested | None \<Rightarrow> Ok value)
                 (\<lambda>value. Ok (Integer (int (number_of f)), value))"
  obtain ws where ws: "w = Map ws" and all: "list_all2 (\<lambda>x y. ?h x = Inr y) m ws"
    using w(1) unfolding to_wire.simps and_then_Inr_iff collect_res_Inr_iff by auto
  have "\<not> is_epoch_key e" if "e \<in> set ws" for e
  proof -
    obtain i where "i < length ws" "ws ! i = e" using \<open>e \<in> set ws\<close> by (auto simp: in_set_conv_nth)
    then have i: "i < length m" "ws ! i = e" using all by (simp_all add: list_all2_lengthD)
    obtain k v where kv: "m ! i = (k, v)" by (cases "m ! i")
    have mem: "(k, v) \<in> set m" using kv i(1) by (metis nth_mem)
    obtain name f x where f: "as_text k = Some name" "live_by_name mf name = Some f" and e: "e = (Integer (int (number_of f)), x)"
      using list_all2_nthD [OF all i(1)] unfolding kv i(2) by (auto simp: res_simps bind_eq_Some_conv split: option.splits)
    have "k = Txt name" using f(1) by (cases k) simp_all
    then have "number_of f \<noteq> 0" using field_zero_epoch [OF mf f(2)] names mem by auto
    then show ?thesis by (auto simp: is_epoch_key_def e master_key_epoch_field_def)
  qed
  moreover have "plain w" using to_wire_plain [OF _ assms(2) w(1)] pl plain_mb_build [of m] by (simp add: mb_build_def)
  ultimately show ?thesis using w(2) by (auto simp: body_of_def ws list_ex_iff)
qed

lemma mb_keys:
  "(\<forall>(k, v) \<in> set (mb_value key x m). k \<noteq> e) \<longleftrightarrow> Txt key \<noteq> e \<and> (\<forall>(k, v) \<in> set m. k \<noteq> e)"
  "(\<forall>(k, v) \<in> set (mb_optional_text key t m). k \<noteq> e) \<longleftrightarrow> (t = None \<or> Txt key \<noteq> e) \<and> (\<forall>(k, v) \<in> set m. k \<noteq> e)"
  "(\<forall>(k, v) \<in> set (mb_optional_uint key n m). k \<noteq> e) \<longleftrightarrow> (n = None \<or> Txt key \<noteq> e) \<and> (\<forall>(k, v) \<in> set m. k \<noteq> e)"
  by (auto simp: mb_value_def mb_optional_text_def mb_optional_uint_def mb_text_def mb_uint_def split: option.splits)

lemma journal_body:
  assumes "journal_ok is_nfc r" and "journal_encode L r = Inr p"
  shows "\<exists>entries. body_of L (pl_body p) entries" and "pl_epoch p = jr_epoch r"
proof -
  have body: "write_body L (mb_build (journal_map r)) JOURNAL_RECORD = Inr (pl_body p)" and "pl_epoch p = jr_epoch r"
    using assms(2) by (auto simp: journal_encode_def res_simps)
  then show "pl_epoch p = jr_epoch r" by simp
  have "\<forall>(k, v) \<in> set (journal_map r). k \<noteq> Txt ''master_key_epoch''"
    by (simp add: journal_map_def Let_def mb_keys mb_uint_def mb_text_def mb_bytes_def)
  then show "\<exists>entries. body_of L (pl_body p) entries"
    using written_body [OF _ registry_ok(2) journal_plain [OF assms(1)] _ body] by simp
qed

lemma snapshot_body:
  assumes p: "snapshot_payload_ok is_nfc s" and "snapshot_encode L s = Inr p"
  shows "\<exists>entries. body_of L (pl_body p) entries" and "pl_epoch p = cp_epoch (sn_checkpoint (sp_content s))"
proof -
  obtain entries where entries: "collect_res (snapshot_entry_value (container_positions (sn_containers (sp_content s))))
      (enumerate 0 (sn_entries (sp_content s))) = Inr entries"
    and body: "write_body L (mb_build (snapshot_map s entries)) INDEX_SNAPSHOT = Inr (pl_body p)"
    and "pl_epoch p = cp_epoch (sn_checkpoint (sp_content s))"
    using assms(2) by (auto simp: snapshot_encode_def Let_def res_simps)
  then show "pl_epoch p = cp_epoch (sn_checkpoint (sp_content s))" by simp
  have "\<forall>(k, v) \<in> set (snapshot_map s entries). k \<noteq> Txt ''master_key_epoch''"
    by (cases "sp_activation s") (simp_all add: snapshot_map_def Let_def mb_keys mb_uint_def mb_text_def mb_bytes_def)
  then show "\<exists>entries. body_of L (pl_body p) entries"
    using written_body [OF _ registry_ok(3) snapshot_plain [OF p entries] _ body] by simp
qed

section \<open>Sealing\<close>

definition libraries_ok :: "libraries \<Rightarrow> bool" where
  "libraries_ok l \<longleftrightarrow> aead_laws (lb_aead l) \<and> cbor_laws (lb_cbor l) \<and> catalog_serde_laws (lb_serde l)"

lemma sealed_opens:
  assumes L: "libraries_ok (po_lib P)" and drawn: "\<And>n. drawn = Inr n \<Longrightarrow> length n = nonce_len"
    and name: "name_ok name" and body: "body_of (lb_cbor (po_lib P)) (pl_body p) entries" and e: "epoch_ok (pl_epoch p)"
    and enc: "encode_control_object (lb_cbor (po_lib P)) (lb_aead (po_lib P)) drawn name k (of_kind keys k) p = Inr (bytes, written)"
  shows "\<exists>d. open_object P keys name bytes = Inr d \<and> dc_kind d = k \<and> dc_payload d = p"
    and "length bytes \<le> max_control_object_len_at name"
proof -
  let ?d = "\<lparr>dc_kind = k, dc_generation = name_generation name, dc_replica = name_replica name, dc_payload = p\<rparr>"
  have w: "written = show_name name" using enc by (auto simp: encode_control_object_def Let_def res_simps split: if_splits)
  have dec: "decode_control_object (lb_cbor (po_lib P)) (lb_aead (po_lib P)) bytes (show_name name) (of_kind keys k) = Inr ?d"
    using decode_encode_control_object [OF _ _ drawn name body e enc] L w by (simp add: libraries_ok_def)
  obtain n h where h: "show_name name = show_name n" "name_ok n" "control_header_parse bytes = Inr h" "admits n (dc_kind ?d)"
      "dc_kind ?d = ch_kind h" "length bytes \<le> max_control_object_len (dc_kind ?d)"
    by (rule decode_control_object_name [OF dec]) blast
  have "n = name" using name_ok_show [OF h(2) name] h(1) by simp
  then show "length bytes \<le> max_control_object_len_at name" using h(4,6) max_control_object_len_at_ge [of name k] by simp
  have "open_object P keys name bytes = Inr ?d" using h(3,5) dec by (simp add: open_object_def)
  then show "\<exists>d. open_object P keys name bytes = Inr d \<and> dc_kind d = k \<and> dc_payload d = p" by simp
qed

lemma sealed_record:
  assumes L: "libraries_ok (po_lib P)" and drawn: "\<And>n. drawn = Inr n \<Longrightarrow> length n = nonce_len"
    and r: "journal_ok (lb_nfc (po_lib P)) r" and e: "epoch_ok (jr_epoch r)"
    and enc: "journal_encode (lb_cbor (po_lib P)) r = Inr p"
      "encode_control_object (lb_cbor (po_lib P)) (lb_aead (po_lib P)) drawn (HeadName (jr_generation r)) Journal
        (of_kind keys Journal) p = Inr (bytes, written)"
  shows "holds_record P keys (jr_generation r) r bytes"
proof -
  obtain entries where body: "body_of (lb_cbor (po_lib P)) (pl_body p) entries" and ep: "epoch_ok (pl_epoch p)"
    using journal_body [OF r enc(1)] e by auto
  have name: "name_ok (HeadName (jr_generation r))" using r by (simp add: journal_ok_def)
  have "decode_record P d (jr_generation r) = Inr r" if "dc_payload d = p" for d
    using journal_decode_encode [OF _ _ r enc(1)] L that by (simp add: decode_record_def libraries_ok_def)
  then show ?thesis
    using sealed_opens [OF L drawn name body ep enc(2)] by (auto simp: holds_record_def)
qed

lemma sealed_snapshot:
  assumes L: "libraries_ok (po_lib P)" and drawn: "\<And>n. drawn = Inr n \<Longrightarrow> length n = nonce_len"
    and c: "snapshot_payload_ok (lb_nfc (po_lib P)) (snapshot_ordinary c)" and e: "epoch_ok (cp_epoch (sn_checkpoint c))"
    and g: "cp_head (sn_checkpoint c) = g"
    and enc: "snapshot_encode (lb_cbor (po_lib P)) (snapshot_ordinary c) = Inr p"
      "encode_control_object (lb_cbor (po_lib P)) (lb_aead (po_lib P)) drawn (IndexSnapshotName g) IndexSnapshot
        (of_kind keys IndexSnapshot) p = Inr (bytes, written)"
  shows "true_snapshot P keys g (content_view c) bytes"
proof -
  have content: "sp_content (snapshot_ordinary c) = c" "sp_activation (snapshot_ordinary c) = None"
    by (simp_all add: snapshot_ordinary_def)
  obtain entries where body: "body_of (lb_cbor (po_lib P)) (pl_body p) entries" and ep: "epoch_ok (pl_epoch p)"
    using snapshot_body [OF c enc(1)] e content(1) by auto
  have ok: "snapshot_ok c" and name: "name_ok (IndexSnapshotName g)"
    using c g by (auto simp: snapshot_payload_ok_def Let_def content)
  obtain d where d: "open_object P keys (IndexSnapshotName g) bytes = Inr d" "dc_kind d = IndexSnapshot" "dc_payload d = p"
    using sealed_opens(1) [OF L drawn name body ep enc(2)] by blast
  have "snapshot_object_kind (snapshot_ordinary c) = IndexSnapshot" by (simp add: snapshot_object_kind_def content)
  then have "decode_snapshot P d g = Inr ((snapshot_ordinary c)\<lparr>sp_content := c\<lparr>sn_adopted := None\<rparr>\<rparr>)"
    using snapshot_decode_encode [OF _ _ c enc(1)] L d(2,3) g by (simp add: decode_snapshot_def libraries_ok_def content)
  moreover have "snapshot_ok (c\<lparr>sn_adopted := None\<rparr>)" "content_view (c\<lparr>sn_adopted := None\<rparr>) = content_view c"
    using ok by (simp_all add: snapshot_ok_def content_view_def)
  ultimately show ?thesis using d(1) by (simp add: true_snapshot_def)
qed

section \<open>A Library that can be written\<close>

definition library_writable :: "(string \<Rightarrow> bool) \<Rightarrow> library \<Rightarrow> bool" where
  "library_writable is_nfc L \<longleftrightarrow>
     (\<forall>c \<in> lb_containers L. summary_ok c) \<and> (\<forall>l \<in> lb_entries L. location_ok is_nfc l) \<and>
     (\<forall>n. lb_name L = Some n \<longrightarrow> library_name_ok n) \<and>
     (\<forall>c. lb_at L = Some c \<longrightarrow> checkpoint_ok c \<and> generation_ok (cp_head c) \<and> generation_ok (cp_journal c) \<and> commitment_ok (cp_keyring c))"

lemma location_ok_moved:
  assumes "location_ok is_nfc l" and rs: "\<forall>n \<in> set rs. renaming_ok is_nfc n"
  shows "location_ok is_nfc (moved_by rs l)"
proof (cases "find (\<lambda>r. order_key r = loc_key l) rs")
  case (Some r)
  then have "r \<in> set rs" by (auto simp: find_Some_iff)
  then have "path_ok (ren_path r)" "is_nfc (path_str (ren_path r))" using rs by (simp_all add: renaming_ok_def)
  then show ?thesis
    using assms(1) by (simp add: moved_by_def Some location_ok_def catalog_entry_ok_def entry_ok_def)
qed (use assms(1) in \<open>simp add: moved_by_def\<close>)

lemma location_ok_located:
  assumes "carried_ok is_nfc a" and "l \<in> set (located a)"
  shows "location_ok is_nfc l"
proof -
  have a: "addition_ok a" using assms(1) by (simp add: carried_ok_def)
  then have len: "length (add_entries a) \<le> 2 ^ 32" "length (add_deposits a) = length (add_entries a)"
    by (simp_all add: addition_ok_iff)
  obtain i where i: "i < length (add_entries a)" and l: "l = \<lparr>loc_container = cid (add_container a), loc_number = EntryNumber i,
      loc_entry = add_entries a ! i, loc_deposited = add_deposits a ! i\<rparr>"
    using assms(2) len by (auto simp: located_def into_locations_eq [OF len(1)] in_set_enumerate_eq)
  have "catalog_entry_ok is_nfc (add_entries a ! i)" "i64 (deposited_secs (add_deposits a ! i))"
    using assms(1) i len(2) by (simp_all add: carried_ok_def)
  then show ?thesis using i len(1) by (simp add: l location_ok_def entry_number_ok_def)
qed

lemma advance_writable:
  assumes r: "journal_ok is_nfc r" and L: "library_writable is_nfc L"
  shows "library_writable is_nfc (advance r L)"
  unfolding library_writable_def
proof (intro conjI ballI allI impI)
  fix c assume "c \<in> lb_containers (advance r L)"
  then show "summary_ok c"
    using r L by (auto simp: advance_def containers_after_def containers_kept_def library_writable_def journal_ok_def carried_ok_def)
next
  fix l assume "l \<in> lb_entries (advance r L)"
  then consider (kept) k where "k \<in> lb_entries L" "l = moved_by (jr_renames r) k"
    | (added) a where "a \<in> set (jr_additions r)" "l \<in> set (located a)"
    by (auto simp: advance_def entries_after_def entries_kept_def)
  then show "location_ok is_nfc l"
  proof cases
    case kept
    then show ?thesis using location_ok_moved r L by (auto simp: journal_ok_def library_writable_def)
  next
    case added
    then show ?thesis using location_ok_located r by (auto simp: journal_ok_def)
  qed
next
  fix n assume "lb_name (advance r L) = Some n"
  then show "library_name_ok n"
    using r L by (auto simp: advance_def journal_ok_def library_writable_def split: option.splits)
next
  fix c assume "lb_at (advance r L) = Some c"
  then have c: "c = record_checkpoint r" by (simp add: advance_def)
  show "checkpoint_ok c" and "generation_ok (cp_head c)" and "generation_ok (cp_journal c)" and "commitment_ok (cp_keyring c)"
    using r by (simp_all add: c record_checkpoint_def at_head_def checkpoint_ok_def journal_ok_def)
qed

lemma library_after_writable:
  assumes "\<forall>r \<in> set rs. journal_ok is_nfc r" and "k \<le> length rs"
  shows "library_writable is_nfc (library_after rs k)"
  using assms(2)
proof (induction k)
  case 0
  then show ?case by (simp add: library_writable_def library_empty_def)
next
  case (Suc k)
  then show ?case using advance_writable assms(1) by (simp add: library_after_Suc)
qed

text \<open>What an Index that views it would checkpoint is writable too.\<close>

lemma snapshot_writable:
  assumes ok: "index_ok s" and L: "library_writable is_nfc (view_of s)" and c: "state_snapshot s = Inr c"
    and few: "card (lb_containers (view_of s)) \<le> max_format_integer"
  shows "snapshot_payload_ok is_nfc (snapshot_ordinary c)"
proof -
  obtain at where at: "ix_checkpoint s = Some at" using c by (auto simp: state_snapshot_def res_simps)
  note wf = index_okD(1) [OF ok]
  have c: "c = snapshot_of at s" and sok: "snapshot_ok c" using state_snapshot_iff [OF wf at] c by simp_all
  have "distinct (map cid (bt_values (ix_containers s)))"
    using sok by (simp add: c snapshot_ok_def snapshot_parts_ok_def snapshot_of_def)
  then have "length (bt_values (ix_containers s)) = card (stored (ix_containers s))"
    by (metis distinct_card distinct_map stored_def)
  then have "length (sn_containers c) \<le> max_format_integer" using few by (simp add: c snapshot_of_def view_of_def)
  moreover have "\<forall>x \<in> set (sn_containers c). summary_ok x" "\<forall>l \<in> set (sn_entries c). location_ok is_nfc l"
    "\<forall>n. sn_library_name c = Some n \<longrightarrow> library_name_ok n"
    "checkpoint_ok at" "generation_ok (cp_head at)" "generation_ok (cp_journal at)" "commitment_ok (cp_keyring at)"
    using L at by (simp_all add: library_writable_def c snapshot_of_def view_of_def stored_def)
  ultimately show ?thesis
    using sok by (simp add: snapshot_payload_ok_def snapshot_ordinary_def Let_def) (simp add: c snapshot_of_def)
qed

end
