(* ===== verification/Commit_World.thy ===== *)
theory Commit_World
  imports Commit_Run Commit_Sealing
begin

text \<open>
  The contract a commit relies on while nobody else is writing (\<open>commit_world\<close>): what \<open>object_store.rs\<close> documents for
  writing under a name, reserving and consuming a slot and trashing, and an Index that refreshes and marks as the
  in-memory one does. Interpreted on the in-memory store and Index. The rules of \<open>keeps\<close> say of each step of a commit
  what it leaves alone.
\<close>

section \<open>What a step keeps\<close>

definition keeps :: "('w \<Rightarrow> bool) \<Rightarrow> ('w, 'e, 'a) action \<Rightarrow> ('e + 'a \<Rightarrow> bool) \<Rightarrow> bool" where
  "keeps I m Q \<longleftrightarrow> ensures I m (\<lambda>r w. I w \<and> Q r)"

lemma keepsD: "keeps I m Q \<Longrightarrow> I w \<Longrightarrow> \<exists>v r. m w = Some (v, r) \<and> I v \<and> Q r"
  unfolding keeps_def by (drule ensuresD) auto

lemma keepsI: "(\<And>w. I w \<Longrightarrow> \<exists>v r. m w = Some (v, r) \<and> I v \<and> Q r) \<Longrightarrow> keeps I m Q"
  unfolding keeps_def by (rule ensuresI) auto

lemma keeps_weaken: "keeps I m Q \<Longrightarrow> (\<And>r. Q r \<Longrightarrow> R r) \<Longrightarrow> keeps I m R"
  unfolding keeps_def by (erule ensures_weaken) auto

lemma keeps_any: "keeps I m Q \<Longrightarrow> keeps I m (\<lambda>_. True)"
  by (erule keeps_weaken) simp

lemma keeps_yields: "Q r \<Longrightarrow> keeps I (yields r) Q"
  unfolding keeps_def by (rule ensures_yields) simp

lemma keeps_act:
  assumes "keeps I m R" and "\<And>x. R (Inr x) \<Longrightarrow> keeps I (f x) Q" and "\<And>e. R (Inl e) \<Longrightarrow> Q (Inl e)"
  shows "keeps I (act m f) Q"
proof (rule keepsI)
  fix w assume "I w"
  then obtain v r where m: "m w = Some (v, r)" "I v" "R r" using keepsD [OF assms(1)] by blast
  show "\<exists>v r. act m f w = Some (v, r) \<and> I v \<and> Q r"
  proof (cases r)
    case (Inl e)
    then show ?thesis using m assms(3) by (simp add: act_def)
  next
    case (Inr x)
    then show ?thesis using m keepsD [OF assms(2)] by (simp add: act_def)
  qed
qed

lemma keeps_matched:
  assumes "keeps I m R" and "\<And>r. R r \<Longrightarrow> keeps I (f r) Q"
  shows "keeps I (matched m f) Q"
proof (rule keepsI)
  fix w assume "I w"
  then obtain v r where m: "m w = Some (v, r)" "I v" "R r" using keepsD [OF assms(1)] by blast
  then show "\<exists>v r. matched m f w = Some (v, r) \<and> I v \<and> Q r" using keepsD [OF assms(2)] by (simp add: matched_def)
qed

lemma keeps_erring: "keeps I m (\<lambda>r. Q (map_err g r)) \<Longrightarrow> keeps I (erring g m) Q"
  unfolding erring_def by (erule keeps_matched) (rule keeps_yields)

lemma keeps_act_fold:
  assumes "\<And>s x. x \<in> set xs \<Longrightarrow> J s \<Longrightarrow> keeps I (f s x) (\<lambda>r. \<forall>s. r = Inr s \<longrightarrow> J s)" and "J s"
  shows "keeps I (act_fold f s xs) (\<lambda>r. \<forall>s. r = Inr s \<longrightarrow> J s)"
  using assms
proof (induction xs arbitrary: s)
  case (Cons x xs)
  have "keeps I (f s x) (\<lambda>r. \<forall>s. r = Inr s \<longrightarrow> J s)" by (rule Cons.prems) (use Cons.prems in simp_all)
  moreover have "keeps I (act_fold f t xs) (\<lambda>r. \<forall>s. r = Inr s \<longrightarrow> J s)" if "J t" for t
    by (rule Cons.IH) (use Cons.prems that in simp_all)
  ultimately show ?case by (auto intro: keeps_act)
qed (simp add: keeps_yields)

lemma keeps_join_each:
  fixes f :: "'x \<Rightarrow> ('w, 'e, 'b) action"
  assumes "\<And>x. x \<in> set xs \<Longrightarrow> keeps I (f x) (R x)"
  shows "keeps I (join_each f xs :: ('w, 'f, _) action) (\<lambda>r. \<exists>rs. r = Inr rs \<and> list_all2 R xs rs)"
  using assms
proof (induction xs)
  case (Cons x xs)
  show ?case unfolding join_each.simps
  proof (rule keeps_matched)
    show "keeps I (f x) (R x)" by (rule Cons.prems) simp
    fix r assume "R x r"
    show "keeps I (act (join_each f xs :: ('w, 'f, _) action) (\<lambda>rs. gives (r # rs))) (\<lambda>r. \<exists>rs. r = Inr rs \<and> list_all2 R (x # xs) rs)"
      by (rule keeps_act [OF Cons.IH]) (use Cons.prems \<open>R x r\<close> in \<open>auto intro: keeps_yields\<close>)
  qed
qed (simp add: keeps_yields)

lemma keeps_retry:
  assumes "keeps I m Q" and "\<And>n w. I w \<Longrightarrow> I (fst (sys_fill Y n w))" and "\<And>d w. I w \<Longrightarrow> I (sys_sleep Y d w)"
  shows "keeps I (retry_run Y p m) Q"
  unfolding keeps_def
  by (rule retry_ensures) (use assms in \<open>auto simp: keeps_def elim: ensures_weaken\<close>)

section \<open>The contract\<close>

definition left_alone ::
  "('w \<Rightarrow> bool) \<Rightarrow> ('w \<Rightarrow> (object_info \<times> byte list) list) \<Rightarrow> ('w \<Rightarrow> index_state) \<Rightarrow> 'w \<Rightarrow> 'w \<Rightarrow> bool" where
  "left_alone ok objects catalog w v \<longleftrightarrow> ok v \<and> objects v = objects w \<and> catalog v = catalog w"

definition named_otherwise :: "string \<Rightarrow> (object_info \<times> byte list) list \<Rightarrow> (object_info \<times> byte list) set" where
  "named_otherwise name objs = {x \<in> set objs. oi_name (fst x) \<noteq> name}"

locale commit_world = library_world P ok objects ahead pages catalog + catalog_reads P ok catalog
  for P :: "'w ports" and ok objects ahead pages catalog +
  assumes ref_names: "ok w \<Longrightarrow> ok v \<Longrightarrow> x \<in> set (objects w) \<Longrightarrow> y \<in> set (objects v) \<Longrightarrow>
      oi_ref (fst x) = oi_ref (fst y) \<Longrightarrow> oi_name (fst x) = oi_name (fst y)"
    and fill_alone: "ok w \<Longrightarrow> left_alone ok objects catalog w (fst (sys_fill (po_system P) n w))"
    and fill_length: "ok w \<Longrightarrow> snd (sys_fill (po_system P) n w) = Some bytes \<Longrightarrow> length bytes = n"
    and sleep_alone: "ok w \<Longrightarrow> left_alone ok objects catalog w (sys_sleep (po_system P) d w)"
    and get_total: "ok w \<Longrightarrow> \<exists>v r. store_get (po_store P) object asked w = Some (v, r) \<and> left_alone ok objects catalog w v"
    and reserve_total: "ok w \<Longrightarrow> \<exists>v r. store_reserve_create (po_store P) name w = Some (v, r) \<and>
      left_alone ok objects catalog w v \<and> (\<forall>slot. r = Inr slot \<longrightarrow> cs_name slot = name)"
    and put_total: "ok w \<Longrightarrow> length bytes < 2 ^ 64 - 1 \<Longrightarrow> \<exists>v r. store_put (po_store P) name (stream_from bytes) w = Some (v, r) \<and>
      ok v \<and> catalog v = catalog w \<and> named_otherwise name (objects v) = named_otherwise name (objects w)"
    and create_total: "ok w \<Longrightarrow> length bytes < 2 ^ 64 - 1 \<Longrightarrow>
      \<exists>v r. store_put_if_absent (po_store P) slot (stream_from bytes) w = Some (v, r) \<and> ok v \<and> catalog v = catalog w \<and>
        (case r of
           Inl e \<Rightarrow> objects v = objects w
         | Inr object \<Rightarrow> cs_name slot \<notin> (\<lambda>(i, _). oi_name i) ` set (objects w) \<and>
             (\<exists>i. oi_name i = cs_name slot \<and> set (objects v) = insert (i, bytes) (set (objects w))))"
    and trash_total: "ok w \<Longrightarrow> \<exists>v r. store_trash (po_store P) object w = Some (v, r) \<and> ok v \<and> catalog v = catalog w \<and>
      set (objects v) \<subseteq> set (objects w) \<and>
      (\<forall>(i, bytes) \<in> set (objects w). oi_ref i \<noteq> object \<longrightarrow> (i, bytes) \<in> set (objects v))"
    and ip_refresh_eq: "ok w \<Longrightarrow> index_refresh b (catalog w) = Some (s, res) \<Longrightarrow>
      \<exists>v. ip_refresh (po_index P) b w = Some (v, res) \<and> catalog v = s \<and> ok v \<and> objects v = objects w"
    and ip_snapshot_eq: "ok w \<Longrightarrow> ip_snapshot (po_index P) w = Some (w, state_snapshot (catalog w))"
    and ip_mark_eq: "ok w \<Longrightarrow> \<exists>v. ip_mark_commit_attempted (po_index P) cs at w = Some (v, Ok ()) \<and>
      catalog v = mark_commit_attempted cs at (catalog w) \<and> ok v \<and> objects v = objects w"

section \<open>In memory\<close>

lemma info_name [simp]: "oi_name (info_of md5 x) = fst x"
  by (cases x) (simp add: info_of_def)

lemma set_bt_insert: "bt_inv m \<Longrightarrow> set (bt_insert k v m) = insert (k, v) {x \<in> set m. fst x \<noteq> k}"
  by (induction k v m rule: bt_insert.induct) auto

lemma set_bt_remove: "set (bt_remove k m) = {x \<in> set m. fst x \<noteq> k}"
  by (auto simp: bt_remove_def)

lemma mem_objects_set: "set (mem_objects md5 w) = (\<lambda>x. (info_of md5 x, snd x)) ` set (ms_live (mw_store w))"
  by (simp add: mem_objects_def)

interpretation mem_commit: commit_world "mem_ports md5 lib" mem_world_ok "mem_objects md5"
  "\<lambda>w t. map (info_of md5) (past_token t (mw_store w))"
  "\<lambda>w t. pages_for (ms_page_size (mw_store w)) (length (past_token t (mw_store w)))" mw_index
proof unfold_locales
  show "x \<in> set (mem_objects md5 w) \<Longrightarrow> y \<in> set (mem_objects md5 v) \<Longrightarrow> oi_ref (fst x) = oi_ref (fst y) \<Longrightarrow>
      oi_name (fst x) = oi_name (fst y)" for w v x y
    by (auto simp: mem_objects_set info_of_def)
  fix w :: mem_world and n :: nat and bytes :: "byte list" and d object asked name slot and s :: index_state and res b cs and t
  assume ok: "mem_world_ok w"
  then have st: "mem_ok (mw_store w)" and short: "\<forall>(name, bytes) \<in> set (ms_live (mw_store w)). length bytes < 2 ^ 64 - 1"
    by (simp_all add: mem_world_ok_def)
  note inv = mem_okD [OF st]
  show "left_alone mem_world_ok (mem_objects md5) mw_index w (fst (sys_fill (po_system (mem_ports md5 lib)) n w))"
    and "left_alone mem_world_ok (mem_objects md5) mw_index w (sys_sleep (po_system (mem_ports md5 lib)) d w)"
    using ok by (simp_all add: left_alone_def mem_ports_def mem_system_def mem_world_ok_def mem_objects_def)
  show "snd (sys_fill (po_system (mem_ports md5 lib)) n w) = Some bytes \<Longrightarrow> length bytes = n"
    by (auto simp: mem_ports_def mem_system_def split: if_splits)
  show "\<exists>v r. store_get (po_store (mem_ports md5 lib)) object asked w = Some (v, r) \<and>
      left_alone mem_world_ok (mem_objects md5) mw_index w v"
    using ok by (simp add: left_alone_def mem_ports_def mem_object_store_def on_store_def)
  show "\<exists>v r. store_reserve_create (po_store (mem_ports md5 lib)) name w = Some (v, r) \<and>
      left_alone mem_world_ok (mem_objects md5) mw_index w v \<and> (\<forall>slot. r = Inr slot \<longrightarrow> cs_name slot = name)"
    using ok by (simp add: left_alone_def mem_ports_def mem_object_store_def on_store_def mem_reserve_create_def slot_by_name_def)
  show "\<exists>v r. store_trash (po_store (mem_ports md5 lib)) object w = Some (v, r) \<and> mem_world_ok v \<and> mw_index v = mw_index w \<and>
      set (mem_objects md5 v) \<subseteq> set (mem_objects md5 w) \<and>
      (\<forall>(i, bytes) \<in> set (mem_objects md5 w). oi_ref i \<noteq> object \<longrightarrow> (i, bytes) \<in> set (mem_objects md5 v))"
  proof -
    let ?t = "mem_trash object (mw_store w)"
    have live: "set (ms_live ?t) = {x \<in> set (ms_live (mw_store w)). fst x \<noteq> ref_str object}"
    proof (cases "bt_get (ms_live (mw_store w)) (ref_str object)")
      case None
      then have "fst x \<noteq> ref_str object" if "x \<in> set (ms_live (mw_store w))" for x
        using that bt_get_iff [OF inv(1), of "fst x" "snd x"] by auto
      then show ?thesis using None by (auto simp: mem_trash_def)
    qed (simp add: mem_trash_def Let_def set_bt_remove)
    then have "mem_world_ok (w\<lparr>mw_store := ?t\<rparr>)" using mem_trash_ok [OF st] short by (auto simp: mem_world_ok_def)
    moreover have "oi_ref (info_of md5 x) = ObjectRef (fst x)" for x by (cases x) (simp add: info_of_def)
    then have "oi_ref (info_of md5 x) \<noteq> object \<longleftrightarrow> fst x \<noteq> ref_str object" for x by (cases object) simp
    then have "set (mem_objects md5 (w\<lparr>mw_store := ?t\<rparr>)) \<subseteq> set (mem_objects md5 w) \<and>
      (\<forall>(i, bytes) \<in> set (mem_objects md5 w). oi_ref i \<noteq> object \<longrightarrow> (i, bytes) \<in> set (mem_objects md5 (w\<lparr>mw_store := ?t\<rparr>)))"
      by (auto simp: mem_objects_set live)
    ultimately show ?thesis by (simp add: mem_ports_def mem_object_store_def on_store_def)
  qed
  show "ip_snapshot (po_index (mem_ports md5 lib)) w = Some (w, state_snapshot (mw_index w))"
    by (simp add: mem_ports_def mem_index_port_def on_index_def)
  show "\<exists>v. ip_mark_commit_attempted (po_index (mem_ports md5 lib)) cs t w = Some (v, Ok ()) \<and>
      mw_index v = mark_commit_attempted cs t (mw_index w) \<and> mem_world_ok v \<and> mem_objects md5 v = mem_objects md5 w"
    using ok by (simp add: mem_ports_def mem_index_port_def on_index_def mem_world_ok_def mem_objects_def)
  show "index_refresh b (mw_index w) = Some (s, res) \<Longrightarrow>
      \<exists>v. ip_refresh (po_index (mem_ports md5 lib)) b w = Some (v, res) \<and> mw_index v = s \<and> mem_world_ok v \<and>
        mem_objects md5 v = mem_objects md5 w"
    using ok by (simp add: mem_ports_def mem_index_port_def on_index_def mem_world_ok_def mem_objects_def)
  assume len: "length bytes < 2 ^ 64 - 1"
  show "\<exists>v r. store_put (po_store (mem_ports md5 lib)) name (stream_from bytes) w = Some (v, r) \<and>
      mem_world_ok v \<and> mw_index v = mw_index w \<and>
      named_otherwise name (mem_objects md5 v) = named_otherwise name (mem_objects md5 w)"
  proof -
    obtain u r where u: "mem_put md5 name (stream_from bytes) (mw_store w) = (u, r)" by fastforce
    have live: "set (ms_live u) = insert (name, bytes) {x \<in> set (ms_live (mw_store w)). fst x \<noteq> name}"
      using u len inv(1) by (auto simp: mem_put_def into_bytes_from set_bt_insert)
    then have "mem_world_ok (w\<lparr>mw_store := u\<rparr>)"
      using mem_put_ok [OF st, of md5 name "stream_from bytes"] short u len by (auto simp: mem_world_ok_def)
    moreover have "named_otherwise name (mem_objects md5 (w\<lparr>mw_store := u\<rparr>)) = named_otherwise name (mem_objects md5 w)"
      by (auto simp: named_otherwise_def mem_objects_set live)
    ultimately show ?thesis by (simp add: mem_ports_def mem_object_store_def on_store_def u)
  qed
  show "\<exists>v r. store_put_if_absent (po_store (mem_ports md5 lib)) slot (stream_from bytes) w = Some (v, r) \<and>
      mem_world_ok v \<and> mw_index v = mw_index w \<and>
      (case r of Inl e \<Rightarrow> mem_objects md5 v = mem_objects md5 w
       | Inr object \<Rightarrow> cs_name slot \<notin> (\<lambda>(i, _). oi_name i) ` set (mem_objects md5 w) \<and>
           (\<exists>i. oi_name i = cs_name slot \<and> set (mem_objects md5 v) = insert (i, bytes) (set (mem_objects md5 w))))"
  proof -
    obtain u r where u: "mem_put_if_absent slot (stream_from bytes) (mw_store w) = (u, r)" by fastforce
    have err: "r = Inl e \<Longrightarrow> u = mw_store w" for e
      using u by (auto simp: mem_put_if_absent_def split: sum.splits prod.splits if_splits)
    have landed: "\<not> bt_contains (ms_live (mw_store w)) (cs_name slot)"
      "ms_live u = bt_insert (cs_name slot) bytes (ms_live (mw_store w))" if "r = Inr ob" for ob
      using u that len
      by (auto simp: mem_put_if_absent_def require_name_def into_bytes_from split: sum.splits prod.splits if_splits option.splits)
    have fresh: "fst x \<noteq> cs_name slot" if "x \<in> set (ms_live (mw_store w))" "r = Inr ob" for x ob
      using landed(1) [OF that(2)] that(1) unfolding bt_contains_iff by (metis imageI)
    have live: "set (ms_live u) = insert (cs_name slot, bytes) (set (ms_live (mw_store w)))" if "r = Inr ob" for ob
      unfolding landed(2) [OF that] set_bt_insert [OF inv(1)] using fresh that by auto
    have "mem_world_ok (w\<lparr>mw_store := u\<rparr>)"
    proof (cases r)
      case (Inl e)
      then show ?thesis using err ok by simp
    next
      case (Inr ob)
      then show ?thesis using mem_put_if_absent_ok [OF st, of slot "stream_from bytes"] u live short len by (auto simp: mem_world_ok_def)
    qed
    moreover have "case r of Inl e \<Rightarrow> mem_objects md5 (w\<lparr>mw_store := u\<rparr>) = mem_objects md5 w
       | Inr object \<Rightarrow> cs_name slot \<notin> (\<lambda>(i, _). oi_name i) ` set (mem_objects md5 w) \<and>
           (\<exists>i. oi_name i = cs_name slot \<and> set (mem_objects md5 (w\<lparr>mw_store := u\<rparr>)) = insert (i, bytes) (set (mem_objects md5 w)))"
    proof (cases r)
      case (Inl e)
      then show ?thesis using err by (simp add: mem_objects_def)
    next
      case (Inr ob)
      have "cs_name slot \<notin> (\<lambda>(i, _). oi_name i) ` set (mem_objects md5 w)" using fresh [OF _ Inr] by (force simp: mem_objects_set)
      moreover have "set (mem_objects md5 (w\<lparr>mw_store := u\<rparr>)) =
          insert (info_of md5 (cs_name slot, bytes), bytes) (set (mem_objects md5 w))"
        using live [OF Inr] by (simp add: mem_objects_set)
      ultimately show ?thesis using Inr by (auto intro!: exI [of _ "info_of md5 (cs_name slot, bytes)"])
    qed
    ultimately show ?thesis by (simp add: mem_ports_def mem_object_store_def on_store_def u)
  qed
qed

end
