(* ===== verification/Commit_Steps.thy ===== *)
theory Commit_Steps
  imports Commit_World
begin

text \<open>
  What the steps of a commit leave alone, in a \<open>commit_world\<close>: reading, reserving and the Keyring's replicas leave the
  heads, the checkpoints and the catalog as they are (\<open>still\<close>), and none of them panics. The lemmas also say of the
  examination, the Keyring generation and the aim what the record is built on.
\<close>

section \<open>Steps that keep an invariant\<close>

abbreviation harmless :: "('w \<Rightarrow> bool) \<Rightarrow> ('w, 'e, 'a) action \<Rightarrow> bool" where
  "harmless I m \<equiv> keeps I m (\<lambda>_. True)"

lemma harmless_yields: "harmless I (yields r)"
  by (rule keeps_yields) simp

lemma harmless_act: "harmless I m \<Longrightarrow> (\<And>x. harmless I (f x)) \<Longrightarrow> harmless I (act m f)"
  by (rule keeps_act)

lemma harmless_matched: "harmless I m \<Longrightarrow> (\<And>r. harmless I (f r)) \<Longrightarrow> harmless I (matched m f)"
  by (rule keeps_matched)

lemma harmless_erring: "harmless I m \<Longrightarrow> harmless I (erring g m)"
  by (rule keeps_erring)

lemma harmless_act_fold: "(\<And>s x. x \<in> set xs \<Longrightarrow> harmless I (f s x)) \<Longrightarrow> harmless I (act_fold f s xs)"
  by (rule keeps_any, rule keeps_act_fold [where J = "\<lambda>_. True"]) (auto intro: keeps_weaken)

lemma harmless_join_each: "(\<And>x. x \<in> set xs \<Longrightarrow> harmless I (f x)) \<Longrightarrow> harmless I (join_each f xs)"
  by (rule keeps_any) (rule keeps_join_each)

lemmas harmless_rules = harmless_yields harmless_act harmless_matched harmless_erring harmless_act_fold harmless_join_each

section \<open>What is not a replica\<close>

definition plain_part :: "(object_info \<times> byte list) list \<Rightarrow> (object_info \<times> byte list) set" where
  "plain_part objs = {x \<in> set objs. \<not> starts_with keyring_prefix (oi_name (fst x))}"

lemma replica_plain: "starts_with keyring_prefix name \<Longrightarrow> named_otherwise name objs = named_otherwise name objs' \<Longrightarrow>
    plain_part objs = plain_part objs'"
proof -
  assume p: "starts_with keyring_prefix name" and eq: "named_otherwise name objs = named_otherwise name objs'"
  have "plain_part os = {x \<in> named_otherwise name os. \<not> starts_with keyring_prefix (oi_name (fst x))}" for os
    using p by (auto simp: plain_part_def named_otherwise_def)
  then show "plain_part objs = plain_part objs'" using eq by simp
qed

lemma show_name_prefix:
  "starts_with keyring_prefix (show_name (KeyringReplicaName g d p))"
  "\<not> starts_with keyring_prefix (show_name (HeadName g))" "\<not> starts_with keyring_prefix (show_name (IndexSnapshotName g))"
  by (simp_all add: starts_with_def keyring_prefix_def head_prefix_def index_snapshot_prefix_def)

lemma starts_with_keyring [simp]: "starts_with keyring_prefix (keyring_prefix @ s)"
  by (simp add: starts_with_def)

lemma replica_name_prefix: "replica_name k i = Inr name \<Longrightarrow> starts_with keyring_prefix (show_name name)"
  by (auto simp: replica_name_def lift_model_def res_simps keyring_replica_Ok_iff show_name_prefix)

lemma sealed_short:
  assumes L: "libraries_ok (po_lib P)" and drawn: "\<And>n. drawn = Inr n \<Longrightarrow> length n = nonce_len"
    and enc: "encode_control_object (lb_cbor (po_lib P)) (lb_aead (po_lib P)) drawn name k key p = Inr (bytes, written)"
  shows "length bytes < 2 ^ 64 - 1"
proof -
  obtain n pt where n: "drawn = Inr n"
    and pt: "check_control_object_len k (control_header_len + length pt + tag_length) = Inr ()"
    and obj: "seal (lb_aead (po_lib P)) (pk_bytes key) n (control_header_to_bytes \<lparr>ch_kind = k,
        ch_generation = name_generation name, ch_replica = name_replica name, ch_nonce = n\<rparr>) pt
        (control_header_to_bytes \<lparr>ch_kind = k, ch_generation = name_generation name,
        ch_replica = name_replica name, ch_nonce = n\<rparr>) = Inr bytes"
    using enc by (auto simp: encode_control_object_def Let_def res_simps split: if_splits)
  define h where "h = \<lparr>ch_kind = k, ch_generation = name_generation name, ch_replica = name_replica name, ch_nonce = n\<rparr>"
  have "length (control_header_to_bytes h) = control_header_len" using drawn [OF n] by (simp add: h_def)
  then have "length bytes = control_header_len + length pt + tag_length"
    using seal_length [OF _ obj] L by (auto simp: libraries_ok_def h_def)
  moreover have "control_header_len + length pt + tag_length \<le> max_control_object_len k"
    using pt by (auto simp: check_control_object_len_def Let_def split: if_splits)
  moreover have "max_control_object_len k < 2 ^ 64 - 1"
    by (cases k) (simp_all add: max_journal_record_len_def max_index_snapshot_len_def max_keyring_len_def)
  ultimately show ?thesis by simp
qed

context commit_world
begin

section \<open>A world left as it stands\<close>

definition still :: "(object_info \<times> byte list) set \<Rightarrow> index_state \<Rightarrow> 'w \<Rightarrow> bool" where
  "still U s w \<longleftrightarrow> ok w \<and> plain_part (objects w) = U \<and> catalog w = s"

lemma still_alone: "still U s w \<Longrightarrow> left_alone ok objects catalog w v \<Longrightarrow> still U s v"
  by (simp add: still_def left_alone_def)

lemma retry_still: "keeps (still U s) m Q \<Longrightarrow> keeps (still U s) (retry_run (po_system P) retry m) Q"
proof (erule keeps_retry)
  fix w n d assume w: "still U s w"
  then have "ok w" by (simp add: still_def)
  then show "still U s (fst (sys_fill (po_system P) n w))" and "still U s (sys_sleep (po_system P) d w)"
    using still_alone [OF w] fill_alone sleep_alone by blast+
qed

lemma get_still: "harmless (still U s) (store_get (po_store P) object asked)"
  by (rule keepsI) (metis get_total still_alone still_def)

lemma fetch_still: "harmless (still U s) (fetch_object P retry name object)"
  unfolding fetch_object_def by (intro harmless_rules retry_still get_still)

lemma read_object_still: "harmless (still U s) (read_object P retry keys name object)"
  unfolding read_object_def by (intro harmless_rules fetch_still)

lemma fetch_header_still: "harmless (still U s) (fetch_header P retry object)"
  unfolding fetch_header_def by (intro harmless_rules retry_still get_still)

definition sealed_as :: "control_keys \<Rightarrow> control_object_name \<Rightarrow> control_object_kind \<Rightarrow> control_payload \<Rightarrow> byte list \<Rightarrow> bool" where
  "sealed_as keys name k p bytes \<longleftrightarrow> (\<exists>drawn written. (\<forall>n. drawn = Inr n \<longrightarrow> length n = nonce_len) \<and>
     encode_control_object (lb_cbor (po_lib P)) (lb_aead (po_lib P)) drawn name k (of_kind keys k) p = Inr (bytes, written))"

lemma seal_still: "keeps (still U s) (seal_object P keys name k p) (\<lambda>r. \<forall>bytes. r = Inr bytes \<longrightarrow> sealed_as keys name k p bytes)"
  unfolding seal_object_def
proof (rule keeps_act)
  show "keeps (still U s) (drawn_nonce (po_system P)) (\<lambda>r. \<exists>drawn. r = Inr drawn \<and> (\<forall>n. drawn = Inr n \<longrightarrow> length n = nonce_len))"
  proof (rule keepsI)
    fix w assume w: "still U s w"
    obtain v b where v: "sys_fill (po_system P) nonce_len w = (v, b)" by fastforce
    have "still U s v" using still_alone [OF w fill_alone [of w nonce_len]] w v by (simp add: still_def)
    moreover have "\<forall>n. ok_or EntropyUnavailable b = Inr n \<longrightarrow> length n = nonce_len"
      using fill_length [of w nonce_len] w v by (auto simp: ok_or_Inr_iff still_def)
    ultimately show "\<exists>v r. drawn_nonce (po_system P) w = Some (v, r) \<and> still U s v \<and>
        (\<exists>drawn. r = Inr drawn \<and> (\<forall>n. drawn = Inr n \<longrightarrow> length n = nonce_len))"
      by (simp add: drawn_nonce_def v)
  qed
qed (auto intro!: keeps_yields simp: sealed_as_def res_simps map_sum_def split: sum.splits)

lemma sealed_as_short: "libraries_ok (po_lib P) \<Longrightarrow> sealed_as keys name k p bytes \<Longrightarrow> length bytes < 2 ^ 64 - 1"
  unfolding sealed_as_def using sealed_short by blast

section \<open>The Keyring's replicas\<close>

lemma put_replica_still:
  assumes "starts_with keyring_prefix name" and "length bytes < 2 ^ 64 - 1"
  shows "harmless (still U s) (store_put (po_store P) name (stream_from bytes))"
proof (rule keepsI)
  fix w assume w: "still U s w"
  then have "ok w" by (simp add: still_def)
  from put_total [OF this assms(2), of name] obtain v r where
    v: "store_put (po_store P) name (stream_from bytes) w = Some (v, r)" "ok v" "catalog v = catalog w"
      "named_otherwise name (objects v) = named_otherwise name (objects w)"
    by (elim exE conjE) (rule that)
  have "still U s v" using w v replica_plain [OF assms(1) v(4)] by (simp add: still_def)
  then show "\<exists>v r. store_put (po_store P) name (stream_from bytes) w = Some (v, r) \<and> still U s v \<and> True"
    using v(1) by (intro exI conjI TrueI)
qed

lemma write_replica_still:
  assumes L: "libraries_ok (po_lib P)" and "starts_with keyring_prefix (show_name name)"
  shows "harmless (still U s) (write_replica P keys retry name payload)"
  unfolding write_replica_def
proof (rule keeps_act [OF seal_still])
  fix bytes assume "\<forall>b. Inr bytes = Inr b \<longrightarrow> sealed_as keys name Keyring payload b"
  then have "length bytes < 2 ^ 64 - 1" using sealed_as_short [OF L] by blast
  then show "harmless (still U s) (act (erring Storage (retry_run (po_system P) retry
      (store_put (po_store P) (show_name name) (stream_from bytes)))) (\<lambda>uploaded. gives (up_ref uploaded)))"
    by (intro harmless_rules retry_still put_replica_still assms(2))
qed simp

lemma read_replica_still: "harmless (still U s) (read_replica P keys retry name object expected)"
  unfolding read_replica_def by (intro harmless_rules fetch_still)

lemma read_copies_still: "harmless (still U s) (read_copies P keys retry name expected os verdict)"
proof (induction os arbitrary: verdict)
  case (Cons object os)
  show ?case unfolding read_copies.simps
  proof (rule harmless_matched [OF read_replica_still])
    fix r :: "unusable_replica + key_table"
    show "harmless (still U s) (case r of Inr table \<Rightarrow> gives table
        | Inl cause \<Rightarrow> read_copies P keys retry name expected os (if is_unfetchable verdict then verdict else cause))"
      by (cases r) (simp_all add: Cons harmless_yields)
  qed
qed (simp add: harmless_yields)

lemma read_position_still: "harmless (still U s) (read_position P keys retry listing name expected)"
  unfolding read_position_def by (rule read_copies_still)

lemma rewrite_still:
  assumes "libraries_ok (po_lib P)" and "starts_with keyring_prefix (show_name name)"
  shows "harmless (still U s) (rewrite_replica P keys retry name expected payload)"
  unfolding rewrite_replica_def by (intro harmless_rules write_replica_still read_replica_still assms)

lemma repair_still:
  assumes "libraries_ok (po_lib P)" and "starts_with keyring_prefix (show_name (wk_name at))"
  shows "harmless (still U s) (repair_position P keys retry expected payload at)"
  unfolding repair_position_def
  by (auto split: found.split intro!: harmless_yields harmless_matched [OF rewrite_still] assms)

lemma examine_still:
  assumes L: "libraries_ok (po_lib P)"
  shows "keeps (still U s) (examine P keys policy listing k)
    (\<lambda>r. \<forall>x. r = Inr x \<longrightarrow> generation_next (kc_generation k) = Inr (ex_next x))"
  unfolding examine_def
proof (rule keeps_act [where R = "\<lambda>r. \<forall>names. r = Inr names \<longrightarrow> (\<forall>n \<in> set names. starts_with keyring_prefix (show_name n))"])
  have "starts_with keyring_prefix (show_name n)"
    if "collect_res (replica_name k) [0..<kc_replica_count k] = Inr names" "n \<in> set names" for names n
    using that replica_name_prefix by (fastforce simp: collect_res_Inr_iff list_all2_conv_all_nth in_set_conv_nth)
  then show "keeps (still U s) (yields (collect_res (replica_name k) [0..<kc_replica_count k]))
      (\<lambda>r. \<forall>names. r = Inr names \<longrightarrow> (\<forall>n \<in> set names. starts_with keyring_prefix (show_name n)))"
    by (auto intro: keeps_yields)
next
  fix names assume "\<forall>ns. Inr names = Inr ns \<longrightarrow> (\<forall>n \<in> set ns. starts_with keyring_prefix (show_name n))"
  then have walk: "starts_with keyring_prefix (show_name (wk_name at))" if "at \<in> set (walk_of names rs)" for at rs
    using that by (auto simp: walk_of_def in_set_enumerate_eq dest: set_zip_leftD)
  let ?post = "\<lambda>r. \<forall>x. r = Inr x \<longrightarrow> generation_next (kc_generation k) = Inr (ex_next x)"
  have last: "keeps (still U s) (yields (repaired k table os)) ?post" for table os
    by (rule keeps_yields) (auto simp: repaired_def Let_def lift_model_def res_simps split: list.splits)
  show "keeps (still U s) (act (join_each (\<lambda>name. read_position P keys (py_retry policy) listing name (kc_set_digest k)) names)
      (\<lambda>rs. case tables_read rs of
         [] \<Rightarrow> fails (none_readable k (walk_of names rs))
       | table # _ \<Rightarrow>
           act (yields (map_err FormatFailed (keyring_encode (lb_cbor (po_lib P)) table (ck_epoch keys)))) (\<lambda>payload.
           act (join_each (repair_position P keys (py_retry policy) (kc_set_digest k) payload) (walk_of names rs)) (\<lambda>repairs.
             yields (repaired k table (List.map_filter (\<lambda>r. case r of Inr outcome \<Rightarrow> outcome | Inl _ \<Rightarrow> None) repairs)))))) ?post"
  proof (rule keeps_act [OF harmless_join_each])
    show "harmless (still U s) (read_position P keys (py_retry policy) listing name (kc_set_digest k))" for name
      by (rule read_position_still)
    fix rs
    show "keeps (still U s) (case tables_read rs of
         [] \<Rightarrow> fails (none_readable k (walk_of names rs))
       | table # _ \<Rightarrow>
           act (yields (map_err FormatFailed (keyring_encode (lb_cbor (po_lib P)) table (ck_epoch keys)))) (\<lambda>payload.
           act (join_each (repair_position P keys (py_retry policy) (kc_set_digest k) payload) (walk_of names rs)) (\<lambda>repairs.
             yields (repaired k table (List.map_filter (\<lambda>r. case r of Inr outcome \<Rightarrow> outcome | Inl _ \<Rightarrow> None) repairs))))) ?post"
    proof (cases "tables_read rs")
      case (Cons table more)
      have "keeps (still U s) (act (join_each (repair_position P keys (py_retry policy) (kc_set_digest k) payload) (walk_of names rs))
          (\<lambda>repairs. yields (repaired k table (List.map_filter (\<lambda>r. case r of Inr outcome \<Rightarrow> outcome | Inl _ \<Rightarrow> None) repairs)))) ?post"
        for payload
        by (rule keeps_act [OF harmless_join_each]) (auto intro!: repair_still L walk intro: last)
      then show ?thesis unfolding Cons list.case by (rule keeps_act [OF harmless_yields]) simp
    qed (auto intro: keeps_yields)
  qed simp
qed simp

lemma containers_still: "harmless (still U s) (ip_containers_under (po_index P) prefix)"
  by (rule keepsI) (simp add: still_def ip_containers_under_eq)

lemma entries_still: "keeps (still U s) (ip_entries_under (po_index P) prefix) (\<lambda>r. r = Inr (entries_under s prefix))"
  by (rule keepsI) (simp add: still_def ip_entries_under_eq)

lemma next_generation_still: "harmless (still U s) (next_generation P carried b)"
  unfolding next_generation_def by (intro harmless_rules containers_still)

lemma write_generation_still:
  assumes L: "libraries_ok (po_lib P)" and g: "generation_ok g" and n: "py_replica_count policy < 2 ^ 16"
  shows "keeps (still U s) (write_generation P keys policy g table) (\<lambda>r. \<forall>k. r = Inr k \<longrightarrow> commitment_ok k)"
proof -
  let ?post = "\<lambda>r. \<forall>k. r = Inr k \<longrightarrow> commitment_ok k"
  define named where "named digest = collect_res (\<lambda>i. and_then (lift_model (replica_new i (py_replica_count policy))) (\<lambda>replica.
      lift_model (keyring_replica g digest replica))) [0..<py_replica_count policy]" for digest
  have names: "starts_with keyring_prefix (show_name x)" if "named digest = Inr names" "x \<in> set names" for digest names x
  proof -
    from that obtain i where "and_then (lift_model (replica_new i (py_replica_count policy))) (\<lambda>replica.
        lift_model (keyring_replica g digest replica)) = Inr x"
      by (force simp: named_def collect_res_Inr_iff list_all2_conv_all_nth in_set_conv_nth)
    then show ?thesis by (auto simp: lift_model_def res_simps)
  qed
  have final: "keeps (still U s) (yields (lift_model (keyring_commitment_new g (py_replica_count policy) digest))) ?post" for digest
  proof (rule keeps_yields, intro allI impI)
    fix k assume "lift_model (keyring_commitment_new g (py_replica_count policy) digest) = Inr k"
    then have k: "keyring_commitment_new g (py_replica_count policy) digest = Inr k" by (simp add: lift_model_def res_simps)
    then have "kc_generation k = g" "kc_replica_count k = py_replica_count policy" "kc_set_digest k = digest"
      by (auto simp: keyring_commitment_new_def split: if_splits)
    then show "commitment_ok k" using k g n by (simp add: commitment_ok_def)
  qed
  have core: "keeps (still U s) (act (yields (named digest)) (\<lambda>names.
     act (join_each (\<lambda>name. write_replica P keys (py_retry policy) name payload) names) (\<lambda>writes.
     act (yields (collect_res (\<lambda>r. r) writes)) (\<lambda>written.
     act (join_each (\<lambda>(name, object). read_replica P keys (py_retry policy) name object digest) (zip names written)) (\<lambda>reads.
     act (yields (collect_res (\<lambda>(i, r). map_err (IncompleteKeyring g i) r) (enumerate 0 reads))) (\<lambda>_.
       yields (lift_model (keyring_commitment_new g (py_replica_count policy) digest)))))))) ?post" for digest payload
  proof (rule keeps_act [where R = "\<lambda>r. r = named digest"])
    fix ns assume "Inr ns = named digest"
    then have ns: "x \<in> set ns \<Longrightarrow> starts_with keyring_prefix (show_name x)" for x using names [of digest ns] by simp
    have w: "harmless (still U s) (join_each (\<lambda>name. write_replica P keys (py_retry policy) name payload) ns)"
      by (intro harmless_join_each write_replica_still L ns)
    have r: "harmless (still U s) (join_each (\<lambda>(name, object). read_replica P keys (py_retry policy) name object digest) xs)" for xs
      by (intro harmless_join_each) (auto intro: read_replica_still)
    show "keeps (still U s) (act (join_each (\<lambda>name. write_replica P keys (py_retry policy) name payload) ns) (\<lambda>writes.
     act (yields (collect_res (\<lambda>r. r) writes)) (\<lambda>written.
     act (join_each (\<lambda>(name, object). read_replica P keys (py_retry policy) name object digest) (zip ns written)) (\<lambda>reads.
     act (yields (collect_res (\<lambda>(i, r). map_err (IncompleteKeyring g i) r) (enumerate 0 reads))) (\<lambda>_.
       yields (lift_model (keyring_commitment_new g (py_replica_count policy) digest))))))) ?post"
      by (rule keeps_act [OF w] keeps_act [OF r] keeps_act [OF harmless_yields] final | simp)+
  qed (simp_all add: keeps_yields)
  show ?thesis unfolding write_generation_def
    by (rule keeps_act [OF harmless_yields], rule keeps_act [OF harmless_yields], rule core [unfolded named_def]) simp_all
qed

lemma replicate_still:
  assumes "libraries_ok (po_lib P)" and "generation_ok (ex_next e)" and "py_replica_count policy < 2 ^ 16"
  shows "keeps (still U s) (replicate_keyring P keys policy e b) (\<lambda>r. \<forall>k. r = Inr k \<longrightarrow> commitment_ok k)"
  unfolding replicate_keyring_def
  by (rule keeps_act [OF next_generation_still], rule write_generation_still [OF assms]) simp

section \<open>The aim\<close>

lemma reserve_still: "keeps (still U s) (store_reserve_create (po_store P) name) (\<lambda>r. \<forall>slot. r = Inr slot \<longrightarrow> cs_name slot = name)"
proof (rule keepsI)
  fix w assume w: "still U s w"
  then have "ok w" by (simp add: still_def)
  from reserve_total [OF this, of name] show "\<exists>v r. store_reserve_create (po_store P) name w = Some (v, r) \<and> still U s v \<and>
      (\<forall>slot. r = Inr slot \<longrightarrow> cs_name slot = name)"
    using still_alone [OF w] by blast
qed

lemma reserve_slots_still:
  "harmless (still U s) (reserve_commit_slot (po_store P) h)" "harmless (still U s) (reserve_snapshot_slot (po_store P) h)"
  unfolding reserve_commit_slot_def reserve_snapshot_slot_def
  by (intro harmless_rules keeps_any [OF reserve_still])+

lemma require_head_still: "harmless (still U s) (require_head P policy listing head)"
  unfolding require_head_def Let_def
proof (intro harmless_act harmless_yields harmless_matched fetch_header_still)
  fix r :: "commit_error + control_header"
  show "harmless (still U s) (case r of
      Inl e \<Rightarrow> if is_storage_not_found e then fails (MissingHead (head_generation head)) else fails e
    | Inr header \<Rightarrow> if ch_generation header \<noteq> head_generation head
        then fails (CorruptControlObject (HeadName (head_generation head)) (GenerationMismatch (ch_generation header))) else gives ())"
    by (cases r) (auto intro: harmless_yields)
qed

definition aimed_past :: "control_head \<Rightarrow> aim \<Rightarrow> bool" where
  "aimed_past current a \<longleftrightarrow> generation_next (head_generation current) = Inr (am_generation a) \<and>
     am_prev a = Some (head_generation current) \<and> cs_name (am_commit_slot a) = show_name (HeadName (am_generation a))"

lemma carried_slot_name:
  "carried_slot current stood mints = Inr (Some slot) \<Longrightarrow> generation_next (head_generation current) = Inr g \<Longrightarrow>
     cs_name slot = show_name (HeadName g)"
  by (auto simp: carried_slot_def Let_def res_simps commit_slot_of_Ok split: option.splits if_splits bool.splits)

lemma take_aim_still:
  assumes "cu_head caught = Some current"
  shows "keeps (still U s) (take_aim P policy caught stood) (\<lambda>r. \<forall>a. r = Inr (Some a) \<longrightarrow> aimed_past current a)"
  unfolding take_aim_def assms option.case
proof (rule keeps_act [where R = "\<lambda>r. r = lift_model (generation_next (head_generation current))"])
  fix g assume "Inr g = lift_model (generation_next (head_generation current))"
  then have g: "generation_next (head_generation current) = Inr g" by (cases "generation_next (head_generation current)") (auto simp: lift_model_def)
  let ?post = "\<lambda>r. \<forall>a. r = Inr (Some a) \<longrightarrow> aimed_past current a"
  have last: "keeps (still U s) (act (yields (carried_slot current stood mints)) (\<lambda>carried.
            case carried of
              None \<Rightarrow> gives None
            | Some slot \<Rightarrow>
                act (require_head P policy (cu_listing caught) current) (\<lambda>_.
                  gives (Some \<lparr>am_generation = g, am_prev = Some (head_generation current), am_commit_slot = slot,
                               am_next_slot = next_slot, am_snapshot_slot = snapshot_slot\<rparr>)))) ?post" for mints next_slot snapshot_slot
  proof (rule keeps_act [where R = "\<lambda>r. r = carried_slot current stood mints"])
    fix carried assume c: "Inr carried = carried_slot current stood mints"
    show "keeps (still U s) (case carried of
              None \<Rightarrow> gives None
            | Some slot \<Rightarrow>
                act (require_head P policy (cu_listing caught) current) (\<lambda>_.
                  gives (Some \<lparr>am_generation = g, am_prev = Some (head_generation current), am_commit_slot = slot,
                               am_next_slot = next_slot, am_snapshot_slot = snapshot_slot\<rparr>))) ?post"
    proof (cases carried)
      case (Some slot)
      then have "cs_name slot = show_name (HeadName g)" using carried_slot_name [OF _ g] c by metis
      then show ?thesis unfolding Some option.case
        by (intro keeps_act [OF require_head_still] keeps_yields) (auto simp: aimed_past_def g)
    qed (simp add: keeps_yields)
  qed (simp_all add: keeps_yields)
  have "keeps (still U s) (act (erring Storage (reserve_snapshot_slot (po_store P) (ControlHead g))) (\<lambda>snapshot_slot.
          act (yields (carried_slot current stood mints)) (\<lambda>carried.
            case carried of
              None \<Rightarrow> gives None
            | Some slot \<Rightarrow>
                act (require_head P policy (cu_listing caught) current) (\<lambda>_.
                  gives (Some \<lparr>am_generation = g, am_prev = Some (head_generation current), am_commit_slot = slot,
                               am_next_slot = next_slot, am_snapshot_slot = snapshot_slot\<rparr>))))) ?post" for mints next_slot
    by (rule keeps_act [OF harmless_erring [OF reserve_slots_still(2)]], rule last) simp
  then show "keeps (still U s) (act (erring Storage (reserve_commit_slot (po_store P) (ControlHead g))) (\<lambda>next_slot.
          act (erring Storage (reserve_snapshot_slot (po_store P) (ControlHead g))) (\<lambda>snapshot_slot.
          act (yields (carried_slot current stood (cs_provider_id next_slot \<noteq> None))) (\<lambda>carried.
            case carried of
              None \<Rightarrow> gives None
            | Some slot \<Rightarrow>
                act (require_head P policy (cu_listing caught) current) (\<lambda>_.
                  gives (Some \<lparr>am_generation = g, am_prev = Some (head_generation current), am_commit_slot = slot,
                               am_next_slot = next_slot, am_snapshot_slot = snapshot_slot\<rparr>)))))) ?post"
    by (intro keeps_act [OF harmless_erring [OF reserve_slots_still(1)]]) simp_all
qed (simp_all add: keeps_yields)

end

end
