(* ===== verification/Commit_Rebase.thy ===== *)
theory Commit_Rebase
  imports Commit_Steps
begin

text \<open>
  What a rebase makes of a batch: the same Containers under the same ids, the same removals and the same name, renames
  that still name an Entry, and a batch whose record can be written wherever the prepared one's could
  (\<open>batch_writable\<close>). Its only input besides the records is the catalog, which it reads; it never panics.
\<close>

section \<open>A batch that can be written\<close>

definition batch_writable :: "(string \<Rightarrow> bool) \<Rightarrow> prepared_batch \<Rightarrow> bool" where
  "batch_writable is_nfc b \<longleftrightarrow>
     (\<forall>p \<in> set (pb_additions b). carried_ok is_nfc (pa_addition p)) \<and>
     (\<forall>r \<in> set (pb_renames b). container_id_ok (fst (pr_entry r)) \<and> entry_number_ok (snd (pr_entry r)) \<and>
        path_ok (pr_path r) \<and> is_nfc (path_str (pr_path r))) \<and>
     (\<forall>c \<in> set (pb_removals b). container_id_ok c) \<and> (\<forall>n. pb_library_name b = Some n \<longrightarrow> library_name_ok n)"

definition same_but_carried :: "prepared_batch \<Rightarrow> prepared_batch \<Rightarrow> bool" where
  "same_but_carried b c \<longleftrightarrow>
     map (\<lambda>p. add_container (pa_addition p)) (pb_additions c) = map (\<lambda>p. add_container (pa_addition p)) (pb_additions b) \<and>
     pb_removals c = pb_removals b \<and> map pr_path (pb_renames c) = map pr_path (pb_renames b) \<and>
     pb_library_name c = pb_library_name b \<and> pb_materialized c = pb_materialized b \<and> pb_released c = pb_released b"

lemma same_refl [simp]: "same_but_carried b b"
  by (simp add: same_but_carried_def)

lemma same_trans: "same_but_carried b c \<Longrightarrow> same_but_carried c d \<Longrightarrow> same_but_carried b d"
  by (simp add: same_but_carried_def)

lemma keeps_number_at: "i < 2 ^ 32 \<Longrightarrow> keeps I (f (EntryNumber i)) Q \<Longrightarrow> keeps I (number_at i f) Q"
proof -
  assume "i < 2 ^ 32" and k: "keeps I (f (EntryNumber i)) Q"
  then have "at_position i = Inr (EntryNumber i)" by (simp add: at_position_Ok_iff)
  then show ?thesis using k by (simp add: number_at_def)
qed

section \<open>Following replaced Entries\<close>

lemma find_map_Some: "find_map f xs = Some y \<Longrightarrow> \<exists>x \<in> set xs. f x = Some y"
  by (induction xs) (auto split: option.splits)

lemma position_Some: "position p xs = Some i \<Longrightarrow> i < length xs \<and> p (xs ! i)"
  by (induction xs arbitrary: i) (auto split: if_splits)

lemma added_at_keeps:
  assumes "journal_ok is_nfc r"
  shows "keeps I (added_at r p) (\<lambda>res. \<forall>e. res = Inr (Some e) \<longrightarrow> container_id_ok (fst e) \<and> entry_number_ok (snd e))"
proof (cases "find_map (\<lambda>a. map_option (\<lambda>i. (a, i)) (position (\<lambda>e. path e = p) (add_entries a))) (jr_additions r)")
  case (Some x)
  obtain a i where x: "x = (a, i)" by (cases x)
  have a: "a \<in> set (jr_additions r)" and i: "position (\<lambda>e. path e = p) (add_entries a) = Some i"
    using find_map_Some [OF Some] x by auto
  have "carried_ok is_nfc a" using assms a by (simp add: journal_ok_def)
  then have "container_id_ok (cid (add_container a))" and "length (add_entries a) \<le> 2 ^ 32"
    by (simp_all add: carried_ok_def summary_ok_def addition_ok_iff)
  moreover have "i < length (add_entries a)" using position_Some [OF i] ..
  ultimately show ?thesis unfolding added_at_def Some x
    by (auto intro!: keeps_number_at keeps_yields simp: entry_number_ok_def)
qed (simp add: added_at_def keeps_yields)

definition rename_writable :: "(string \<Rightarrow> bool) \<Rightarrow> pending_rename \<Rightarrow> bool" where
  "rename_writable is_nfc r \<longleftrightarrow> container_id_ok (fst (pr_entry r)) \<and> entry_number_ok (snd (pr_entry r)) \<and>
     path_ok (pr_path r) \<and> is_nfc (path_str (pr_path r))"

lemma follow_record_keeps:
  assumes r: "journal_ok is_nfc r" and n: "rename_writable is_nfc n" "pr_path n = p"
  shows "keeps I (follow_record n r) (\<lambda>res. \<forall>m. res = Inr m \<longrightarrow> rename_writable is_nfc m \<and> pr_path m = p)"
proof -
  have "keeps I (act (added_at r (pr_from n)) (\<lambda>successor. case successor of
                None \<Rightarrow> fails e
              | Some s \<Rightarrow> gives (n\<lparr>pr_entry := s\<rparr>))) (\<lambda>res. \<forall>m. res = Inr m \<longrightarrow> rename_writable is_nfc m \<and> pr_path m = p)" for e
    by (rule keeps_act [OF added_at_keeps [OF r]])
      (use n in \<open>auto intro!: keeps_yields simp: rename_writable_def split: option.split\<close>)
  then show ?thesis using n by (auto simp: follow_record_def Let_def intro: keeps_yields)
qed

lemma follow_replaced_keeps:
  assumes rs: "\<forall>r \<in> set rs. journal_ok is_nfc r" and b: "batch_writable is_nfc b"
  shows "keeps I (follow_replaced b rs) (\<lambda>res. \<forall>c. res = Inr c \<longrightarrow> batch_writable is_nfc c \<and> same_but_carried b c \<and>
    pb_additions c = pb_additions b)"
proof -
  let ?ok = "\<lambda>p m. rename_writable is_nfc m \<and> pr_path m = p"
  have one: "keeps I (act_fold follow_record n rs) (\<lambda>res. \<forall>m. res = Inr m \<longrightarrow> ?ok p m)" if "?ok p n" for n p
    by (rule keeps_act_fold [where J = "?ok p"]) (use that rs in \<open>auto intro: follow_record_keeps\<close>)
  have "keeps I (act_fold (\<lambda>done n. act (act_fold follow_record n rs) (\<lambda>n. gives (done @ [n]))) done ns)
      (\<lambda>res. \<forall>ms. res = Inr ms \<longrightarrow> list_all2 (\<lambda>n m. ?ok (pr_path n) m) (before @ ns) ms)"
    if "list_all2 (\<lambda>n m. ?ok (pr_path n) m) before done" "\<forall>n \<in> set ns. rename_writable is_nfc n" for before "done" ns
    using that
  proof (induction ns arbitrary: before "done")
    case (Cons n ns)
    have n: "keeps I (act_fold follow_record n rs) (\<lambda>res. \<forall>m. res = Inr m \<longrightarrow> ?ok (pr_path n) m)"
      using one [of n "pr_path n"] Cons.prems(2) by simp
    have step: "keeps I (act (act_fold follow_record n rs) (\<lambda>n. gives (done @ [n])))
        (\<lambda>res. \<forall>ms. res = Inr ms \<longrightarrow> list_all2 (\<lambda>n m. ?ok (pr_path n) m) (before @ [n]) ms)"
      by (rule keeps_act [OF n]) (use Cons.prems(1) in \<open>auto intro!: keeps_yields list_all2_appendI\<close>)
    show ?case unfolding act_fold.simps
      by (rule keeps_act [OF step]) (use Cons.IH [of "before @ [n]"] Cons.prems(2) in auto)
  qed (simp add: keeps_yields)
  from this [of "[]" "[]" "pb_renames b"] have all: "keeps I (act_fold (\<lambda>done n. act (act_fold follow_record n rs) (\<lambda>n. gives (done @ [n]))) [] (pb_renames b))
      (\<lambda>res. \<forall>ms. res = Inr ms \<longrightarrow> list_all2 (\<lambda>n m. ?ok (pr_path n) m) (pb_renames b) ms)"
    using b by (simp add: batch_writable_def rename_writable_def)
  show ?thesis unfolding follow_replaced_def
  proof (rule keeps_act [OF all])
    fix ms assume "\<forall>x. Inr ms = Inr x \<longrightarrow> list_all2 (\<lambda>n m. ?ok (pr_path n) m) (pb_renames b) x"
    then have ms: "list_all2 (\<lambda>n m. ?ok (pr_path n) m) (pb_renames b) ms" by simp
    then have "\<forall>m \<in> set ms. rename_writable is_nfc m" by (auto simp: list_all2_conv_all_nth in_set_conv_nth)
    moreover have "map pr_path ms = map pr_path (pb_renames b)"
      using ms by (auto simp: list_all2_conv_all_nth intro: nth_equalityI)
    ultimately show "keeps I (gives (b\<lparr>pb_renames := ms\<rparr>)) (\<lambda>res. \<forall>c. res = Inr c \<longrightarrow> batch_writable is_nfc c \<and>
        same_but_carried b c \<and> pb_additions c = pb_additions b)"
      using b by (auto intro!: keeps_yields simp: batch_writable_def rename_writable_def same_but_carried_def)
  qed simp
qed

section \<open>Taking over a renamed path\<close>

lemma bt_collect_values: "bt_get (bt_collect kvs) k = Some v \<Longrightarrow> (k, v) \<in> set kvs"
  by (auto simp: bt_get_collect dest: map_of_SomeD)

lemma final_paths_from: "bt_get (final_paths rs) k = Some p \<Longrightarrow> \<exists>r \<in> set rs. \<exists>n \<in> set (jr_renames r). p = ren_path n"
proof -
  assume "bt_get (final_paths rs) k = Some p"
  then have "(k, p) \<in> set (map (\<lambda>r. (renamed_by r, ren_path r)) (concat (map jr_renames rs)))"
    unfolding final_paths_def by (rule bt_collect_values)
  then obtain n where "n \<in> set (concat (map jr_renames rs))" "p = ren_path n" by auto
  then show "\<exists>r \<in> set rs. \<exists>n \<in> set (jr_renames r). p = ren_path n" by auto
qed

lemma take_over_addition_ok:
  assumes paths: "\<And>k q. bt_get renamed k = Some q \<Longrightarrow> path_ok q \<and> is_nfc (path_str q)"
    and p: "carried_ok is_nfc (pa_addition p)" and run: "take_over_addition renamed p = Inr p'"
  shows "carried_ok is_nfc (pa_addition p') \<and> add_container (pa_addition p') = add_container (pa_addition p)"
proof -
  let ?a = "pa_addition p"
  let ?move = "\<lambda>(i, to) es. if i < length es then es[i := (es ! i)\<lparr>path := to\<rparr>] else (es :: entry_metadata list)"
  define followed where "followed = List.map_filter (\<lambda>(n, superseded). map_option (\<lambda>to. (number n, to)) (bt_get renamed superseded))
      (pa_supersedes p)"
  have moved: "\<forall>e \<in> set (fold ?move fs es). catalog_entry_ok is_nfc e"
    if "\<forall>(i, to) \<in> set fs. path_ok to \<and> is_nfc (path_str to)" "\<forall>e \<in> set es. catalog_entry_ok is_nfc e" for fs es
    using that
  proof (induction fs arbitrary: es)
    case (Cons f fs)
    obtain i to where f: "f = (i, to)" by (cases f)
    have "catalog_entry_ok is_nfc ((es ! i)\<lparr>path := to\<rparr>)" if "i < length es"
      using Cons.prems f nth_mem [OF that] by (auto simp: catalog_entry_ok_def entry_ok_def)
    then have "\<forall>e \<in> set (?move f es). catalog_entry_ok is_nfc e"
      using Cons.prems(2) by (auto simp: f dest!: set_update_subset_insert [THEN subsetD])
    then show ?case using Cons by simp
  qed simp
  show ?thesis
  proof (cases "followed = []")
    case True
    then show ?thesis using run p by (simp add: take_over_addition_def followed_def)
  next
    case False
    then obtain a where a: "addition_new (add_container ?a) (fold ?move followed (add_entries ?a)) (add_deposits ?a) = Inr a"
      and p': "p' = p\<lparr>pa_addition := a\<rparr>"
      using run by (auto simp: take_over_addition_def Let_def followed_def res_simps)
    have fields: "a = \<lparr>add_container = add_container ?a, add_entries = fold ?move followed (add_entries ?a), add_deposits = add_deposits ?a\<rparr>"
      and "addition_ok a"
      using a by (auto simp: addition_new_Ok_iff addition_ok_def)
    moreover have "\<forall>(i, to) \<in> set followed. path_ok to \<and> is_nfc (path_str to)"
      using paths by (auto simp: followed_def List.map_filter_def)
    then have "\<forall>e \<in> set (fold ?move followed (add_entries ?a)). catalog_entry_ok is_nfc e"
      by (rule moved) (use p in \<open>simp add: carried_ok_def\<close>)
    ultimately show ?thesis using p by (simp add: p' carried_ok_def)
  qed
qed

lemma take_over_ok:
  assumes rs: "\<forall>r \<in> set rs. journal_ok is_nfc r" and b: "batch_writable is_nfc b"
    and run: "take_over b (final_paths rs) = Inr c"
  shows "batch_writable is_nfc c \<and> same_but_carried b c"
proof (cases "final_paths rs = []")
  case False
  then obtain as where as: "collect_res (take_over_addition (final_paths rs)) (pb_additions b) = Inr as"
    and c: "c = b\<lparr>pb_additions := as\<rparr>"
    using run by (auto simp: take_over_def res_simps)
  have paths: "path_ok q \<and> is_nfc (path_str q)" if "bt_get (final_paths rs) k = Some q" for k q
    using final_paths_from [OF that] rs by (auto simp: journal_ok_def renaming_ok_def)
  have "list_all2 (\<lambda>p p'. carried_ok is_nfc (pa_addition p') \<and> add_container (pa_addition p') = add_container (pa_addition p))
      (pb_additions b) as"
    using as unfolding collect_res_Inr_iff
  proof (rule list.rel_mono_strong)
    fix p p' assume "p \<in> set (pb_additions b)" and run: "take_over_addition (final_paths rs) p = Inr p'"
    then have p: "carried_ok is_nfc (pa_addition p)" using b by (simp add: batch_writable_def)
    show "carried_ok is_nfc (pa_addition p') \<and> add_container (pa_addition p') = add_container (pa_addition p)"
      by (rule take_over_addition_ok [OF paths p run])
  qed
  then have "\<forall>p \<in> set as. carried_ok is_nfc (pa_addition p)"
    and "map (\<lambda>p. add_container (pa_addition p)) as = map (\<lambda>p. add_container (pa_addition p)) (pb_additions b)"
    by (auto simp: list_all2_conv_all_nth in_set_conv_nth intro: nth_equalityI)
  then show ?thesis using b by (simp add: c batch_writable_def same_but_carried_def)
qed (use run b in \<open>simp add: take_over_def\<close>)

section \<open>The whole rebase\<close>

lemma contested_entry_keeps:
  assumes "i < 2 ^ 32"
  shows "harmless I (contested_entry renamed rs standing_now p (i, e))"
  unfolding contested_entry_def prod.case Let_def
  by (rule keeps_number_at [OF assms]) (auto intro: harmless_yields split: option.split prod.split placed_by.split)

lemma contested_rename_keeps: "harmless I (contested_rename away rs standing_now n)"
  unfolding contested_rename_def by (auto intro: harmless_yields split: option.split prod.split)

context commit_world
begin

lemma check_contested_still:
  assumes "batch_writable is_nfc b"
  shows "harmless (still U s) (check_contested P b renamed rs)"
proof -
  have small: "length (add_entries (pa_addition p)) \<le> 2 ^ 32" if "p \<in> set (pb_additions b)" for p
    using assms that by (simp add: batch_writable_def carried_ok_def addition_ok_iff)
  then have one: "harmless (still U s) (contested_entry renamed rs m p x)"
    if "p \<in> set (pb_additions b)" "x \<in> set (enumerate 0 (add_entries (pa_addition p)))" for m p x
    using that by (cases x) (fastforce simp: in_set_enumerate_eq intro: contested_entry_keeps)
  have "harmless (still U s) (act (act_fold (\<lambda>_ p. act_fold (\<lambda>_. contested_entry renamed rs m p) ()
          (enumerate 0 (add_entries (pa_addition p)))) () (pb_additions b)) (\<lambda>_.
        act_fold (\<lambda>_. contested_rename away rs m) () (pb_renames b)))" for m away
    by (intro harmless_act harmless_act_fold contested_rename_keeps one)
  then show ?thesis unfolding check_contested_def Let_def
    by (auto intro!: harmless_yields harmless_act [OF harmless_erring [OF keeps_any [OF entries_still]]])
qed

lemma rebase_still:
  assumes rs: "\<forall>r \<in> set rs. journal_ok is_nfc r" and b: "batch_writable is_nfc b"
  shows "keeps (still U s) (rebase P b rs) (\<lambda>r. \<forall>c. r = Inr c \<longrightarrow> batch_writable is_nfc c \<and> same_but_carried b c)"
proof (cases "rs = []")
  case True
  then show ?thesis using b by (simp add: rebase_def keeps_yields)
next
  case False
  let ?post = "\<lambda>r. \<forall>c. r = Inr c \<longrightarrow> batch_writable is_nfc c \<and> same_but_carried b c"
  have "keeps (still U s) (act (follow_replaced b rs) (\<lambda>b.
      act (check_contested P b (final_paths rs) rs) (\<lambda>_. yields (take_over b (final_paths rs))))) ?post"
  proof (rule keeps_act [OF follow_replaced_keeps [OF rs b]])
    fix c assume "\<forall>x. Inr c = Inr x \<longrightarrow> batch_writable is_nfc x \<and> same_but_carried b x \<and> pb_additions x = pb_additions b"
    then have c: "batch_writable is_nfc c" "same_but_carried b c" by simp_all
    show "keeps (still U s) (act (check_contested P c (final_paths rs) rs) (\<lambda>_. yields (take_over c (final_paths rs)))) ?post"
      by (rule keeps_act [OF check_contested_still [OF c(1)]])
        (auto intro!: keeps_yields dest: take_over_ok [OF rs c(1)] intro: same_trans [OF c(2)])
  qed simp
  then show ?thesis using False by (simp add: rebase_def Let_def)
qed

end

end
