(* ===== verification/Commit_Holding.thy ===== *)
theory Commit_Holding
  imports Commit_Rebase
begin

text \<open>
  What of the objects of Storage a history is held by (\<open>holds_in\<close>): all but the Keyring's replicas. It survives a record
  more under the next head, a true checkpoint more, and the loss of any object that is neither head nor checkpoint.
\<close>

section \<open>A history held by a set of objects\<close>

abbreviation name_in_store :: "object_info \<times> byte list \<Rightarrow> string" where
  "name_in_store x \<equiv> oi_name (fst x)"

definition singles :: "(object_info \<times> byte list) set \<Rightarrow> (object_info \<times> byte list) set" where
  "singles X = {x \<in> X. is_single_name (name_in_store x)}"

definition holds_in ::
  "'w ports \<Rightarrow> control_keys \<Rightarrow> (object_info \<times> byte list) set \<Rightarrow> journal_record list \<Rightarrow> nat \<Rightarrow> bool" where
  "holds_in P keys X rs base \<longleftrightarrow>
     inj_on name_in_store (singles X) \<and>
     (\<forall>x \<in> X. \<forall>g. name_ok (HeadName g) \<longrightarrow> name_in_store x = show_name (HeadName g) \<longrightarrow>
        gen g < length rs \<and> holds_record P keys g (rs ! gen g) (snd x)) \<and>
     (\<forall>x \<in> X. \<forall>g. name_ok (IndexSnapshotName g) \<longrightarrow> name_in_store x = show_name (IndexSnapshotName g) \<longrightarrow>
        gen g < length rs \<and> true_snapshot P keys g (library_after rs (Suc (gen g))) (snd x)) \<and>
     (\<forall>n < length rs. base \<le> n \<or> Suc n = length rs \<longrightarrow> show_name (HeadName (Generation n)) \<in> name_in_store ` X)"

lemma is_single_show:
  "name_ok (HeadName g) \<Longrightarrow> is_single_name (show_name (HeadName g))"
  "name_ok (IndexSnapshotName g) \<Longrightarrow> is_single_name (show_name (IndexSnapshotName g))"
  by (simp_all add: is_single_name_def control_name.dec_enc del: show_name.simps name_ok.simps)

lemma single_plain: "is_single_name n \<Longrightarrow> \<not> starts_with keyring_prefix n"
proof (cases "parse_name n")
  case (Inr x)
  assume "is_single_name n"
  then have "show_name x = n" "(\<exists>g. x = HeadName g) \<or> (\<exists>g. x = IndexSnapshotName g)"
    using Inr parse_name_shows [OF Inr] by (auto simp: is_single_name_def split: control_object_name.splits)
  then show ?thesis using show_name_prefix(2,3) by metis
qed (simp add: is_single_name_def)

lemma singles_plain [simp]: "singles (plain_part objs) = singles (set objs)"
  using single_plain by (auto simp: singles_def plain_part_def)

lemma not_single_twice: "distinct objs \<Longrightarrow> \<not> single_twice (map (\<lambda>(i, _). oi_name i) objs) \<longleftrightarrow> inj_on name_in_store (singles (set objs))"
proof -
  assume d: "distinct objs"
  have "filter is_single_name (map (\<lambda>(i, _). oi_name i) objs) = map name_in_store (filter (\<lambda>x. is_single_name (name_in_store x)) objs)"
    by (induction objs) (auto simp: case_prod_beta)
  moreover have "set (filter (\<lambda>x. is_single_name (name_in_store x)) objs) = singles (set objs)" by (auto simp: singles_def)
  ultimately show ?thesis using d by (simp add: single_twice_def distinct_map)
qed

lemma storage_holds_plain:
  assumes "distinct objs" and "length rs \<le> max_format_integer"
  shows "storage_holds P keys objs rs base \<longleftrightarrow> holds_in P keys (plain_part objs) rs base"
proof -
  have plain: "x \<in> plain_part objs" if "x \<in> set objs" "name_in_store x = show_name n" "n = HeadName g \<or> n = IndexSnapshotName g" for x n g
    using that show_name_prefix(2,3) by (auto simp: plain_part_def simp del: show_name.simps)
  have sub: "plain_part objs \<subseteq> set objs" by (auto simp: plain_part_def)
  let ?heads = "\<lambda>X. \<forall>x \<in> X. \<forall>g. name_ok (HeadName g) \<longrightarrow> name_in_store x = show_name (HeadName g) \<longrightarrow>
        gen g < length rs \<and> holds_record P keys g (rs ! gen g) (snd x)"
  let ?snaps = "\<lambda>X. \<forall>x \<in> X. \<forall>g. name_ok (IndexSnapshotName g) \<longrightarrow> name_in_store x = show_name (IndexSnapshotName g) \<longrightarrow>
        gen g < length rs \<and> true_snapshot P keys g (library_after rs (Suc (gen g))) (snd x)"
  have heads: "?heads (set objs) \<longleftrightarrow> ?heads (plain_part objs)" using plain sub by blast
  have snaps: "?snaps (set objs) \<longleftrightarrow> ?snaps (plain_part objs)" using plain sub by blast
  have listed: "show_name (HeadName g) \<in> name_in_store ` set objs \<longleftrightarrow> show_name (HeadName g) \<in> name_in_store ` plain_part objs" for g
  proof
    assume "show_name (HeadName g) \<in> name_in_store ` set objs"
    then obtain x where x: "x \<in> set objs" "name_in_store x = show_name (HeadName g)" by (elim imageE) (rule that, simp_all del: show_name.simps)
    then have "x \<in> plain_part objs" using plain by blast
    then show "show_name (HeadName g) \<in> name_in_store ` plain_part objs" using x(2) by (metis imageI)
  qed (use sub in blast)
  have "storage_holds P keys objs rs base \<longleftrightarrow> \<not> single_twice (map (\<lambda>(i, _). oi_name i) objs) \<and> ?heads (set objs) \<and> ?snaps (set objs) \<and>
      (\<forall>n < length rs. base \<le> n \<or> Suc n = length rs \<longrightarrow> show_name (HeadName (Generation n)) \<in> name_in_store ` set objs)"
    unfolding storage_holds_def case_prod_beta ..
  then show ?thesis unfolding not_single_twice [OF assms(1)] heads snaps listed holds_in_def singles_plain .
qed

text \<open>A record more, a checkpoint more, and objects less.\<close>

lemma inj_on_singles_insert:
  assumes "inj_on name_in_store (singles X)" and "name_in_store x \<notin> name_in_store ` X"
  shows "inj_on name_in_store (singles (insert x X))"
proof -
  have "singles (insert x X) \<subseteq> insert x (singles X)" by (auto simp: singles_def)
  moreover have "name_in_store x \<notin> name_in_store ` (singles X - {x})" using assms(2) by (auto simp: singles_def)
  then have "inj_on name_in_store (insert x (singles X))" using assms(1) by (simp only: inj_on_insert) simp
  ultimately show ?thesis by (rule inj_on_subset [rotated])
qed

lemma holds_in_record:
  assumes X: "holds_in P keys X rs base" and g: "g = Generation (length rs)" "name_ok (HeadName g)"
    and i: "oi_name i = show_name (HeadName g)" and r: "holds_record P keys g r bytes"
  shows "holds_in P keys (insert (i, bytes) X) (rs @ [r]) base"
proof -
  have fresh: "name_in_store x \<noteq> show_name (HeadName g)" if "x \<in> X" for x
    using X that g unfolding holds_in_def by fastforce
  have "inj_on name_in_store (singles (insert (i, bytes) X))"
  proof (rule inj_on_singles_insert)
    show "name_in_store (i, bytes) \<notin> name_in_store ` X" unfolding fst_conv i using fresh by (metis imageE)
  qed (use X in \<open>simp add: holds_in_def\<close>)
  moreover have "gen h < length (rs @ [r]) \<and> holds_record P keys h ((rs @ [r]) ! gen h) (snd x)"
    if x: "x \<in> insert (i, bytes) X" "name_ok (HeadName h)" "name_in_store x = show_name (HeadName h)" for x h
  proof (cases "x \<in> X")
    case True
    then show ?thesis using X x(2,3) unfolding holds_in_def by (fastforce simp: nth_append simp del: show_name.simps name_ok.simps)
  next
    case False
    then have "x = (i, bytes)" using x by simp
    then have "h = g" using name_ok_show [OF x(2) g(2)] x(3) i by simp
    then show ?thesis using r g \<open>x = (i, bytes)\<close> by simp
  qed
  moreover have "gen h < length (rs @ [r]) \<and> true_snapshot P keys h (library_after (rs @ [r]) (Suc (gen h))) (snd x)"
    if x: "x \<in> insert (i, bytes) X" "name_ok (IndexSnapshotName h)" "name_in_store x = show_name (IndexSnapshotName h)" for x h
  proof (cases "x \<in> X")
    case True
    then show ?thesis using X x(2,3) unfolding holds_in_def by (fastforce simp: library_after_append simp del: show_name.simps name_ok.simps)
  next
    case False
    then have "show_name (IndexSnapshotName h) = show_name (HeadName g)" using x i by auto
    then show ?thesis using name_ok_show [OF x(2) g(2)] by simp
  qed
  moreover have "show_name (HeadName (Generation n)) \<in> name_in_store ` insert (i, bytes) X"
    if "n < length (rs @ [r])" "base \<le> n \<or> Suc n = length (rs @ [r])" for n
    using that X i g unfolding holds_in_def by (cases "n = length rs") (auto simp del: show_name.simps)
  ultimately show ?thesis unfolding holds_in_def by blast
qed

lemma holds_in_snapshot:
  assumes X: "holds_in P keys X rs base" and g: "gen g < length rs" "name_ok (IndexSnapshotName g)"
    and i: "oi_name i = show_name (IndexSnapshotName g)" and fresh: "oi_name i \<notin> name_in_store ` X"
    and c: "true_snapshot P keys g (library_after rs (Suc (gen g))) bytes"
  shows "holds_in P keys (insert (i, bytes) X) rs base"
proof -
  have "inj_on name_in_store (singles (insert (i, bytes) X))"
    by (rule inj_on_singles_insert) (use X fresh in \<open>simp_all add: holds_in_def\<close>)
  moreover have "gen h < length rs \<and> holds_record P keys h (rs ! gen h) (snd x)"
    if x: "x \<in> insert (i, bytes) X" "name_ok (HeadName h)" "name_in_store x = show_name (HeadName h)" for x h
  proof (cases "x \<in> X")
    case False
    then have "show_name (IndexSnapshotName g) = show_name (HeadName h)" using x i by auto
    then show ?thesis using name_ok_show [OF g(2) x(2)] by simp
  qed (use X x in \<open>unfold holds_in_def, blast\<close>)
  moreover have "gen h < length rs \<and> true_snapshot P keys h (library_after rs (Suc (gen h))) (snd x)"
    if x: "x \<in> insert (i, bytes) X" "name_ok (IndexSnapshotName h)" "name_in_store x = show_name (IndexSnapshotName h)" for x h
  proof (cases "x \<in> X")
    case False
    then have "x = (i, bytes)" using x by simp
    then have "h = g" using name_ok_show [OF x(2) g(2)] x(3) i by simp
    then show ?thesis using g(1) c \<open>x = (i, bytes)\<close> by simp
  qed (use X x in \<open>unfold holds_in_def, blast\<close>)
  ultimately show ?thesis using X unfolding holds_in_def by blast
qed

lemma holds_in_less:
  assumes X: "holds_in P keys X rs base" and "Y \<subseteq> X" and "singles X \<subseteq> Y" and "length rs \<le> max_format_integer"
  shows "holds_in P keys Y rs base"
proof -
  have "inj_on name_in_store (singles Y)"
    using X assms(2) inj_on_subset [of name_in_store "singles X" "singles Y"] by (auto simp: holds_in_def singles_def)
  moreover have "show_name (HeadName (Generation n)) \<in> name_in_store ` Y" if "n < length rs" "base \<le> n \<or> Suc n = length rs" for n
  proof -
    have "name_ok (HeadName (Generation n))" using that(1) assms(4) by (simp add: generation_ok_def)
    then have "is_single_name (show_name (HeadName (Generation n)))" by (rule is_single_show)
    moreover have "show_name (HeadName (Generation n)) \<in> name_in_store ` X" using X that unfolding holds_in_def by blast
    ultimately show ?thesis using assms(3) by (auto simp: singles_def simp del: show_name.simps)
  qed
  ultimately show ?thesis using X assms(2) unfolding holds_in_def by blast
qed

end
