(* ===== verification/Commit_Landing.thy ===== *)
theory Commit_Landing
  imports Commit_Holding
begin

text \<open>
  The create of a commit and what follows it, in a \<open>commit_world\<close>: the create either leaves the history as it is or adds
  the record under the next head; then the Index takes the record, removed Containers are moved aside, and a checkpoint
  that is written is a true one.
\<close>

section \<open>After a step that keeps what holds\<close>

lemma ensures_keeps_act:
  assumes "keeps I m R" and "\<And>x. R (Inr x) \<Longrightarrow> ensures I (f x) Q" and "\<And>e w. R (Inl e) \<Longrightarrow> I w \<Longrightarrow> Q (Inl e) w"
  shows "ensures I (act m f) Q"
proof (rule ensures_act)
  show "ensures I m (\<lambda>r w. I w \<and> R r)" using assms(1) unfolding keeps_def .
  show "ensures (\<lambda>w. I w \<and> R (Inr x)) (f x) Q" for x using assms(2) [of x] by (cases "R (Inr x)") (simp_all add: ensures_def)
qed (use assms(3) in blast)

lemma ensures_act_yields:
  assumes "\<And>x. r = Inr x \<Longrightarrow> ensures I (f x) Q" and "\<And>e w. I w \<Longrightarrow> Q (Inl e) w"
  shows "ensures I (act (yields r) f) Q"
  by (rule ensures_keeps_act [OF keeps_yields [where Q = "\<lambda>s. s = r"]]) (use assms in auto)

lemma keeps_act_fold_gives:
  assumes "\<And>s x. x \<in> set xs \<Longrightarrow> keeps I (f s x) (\<lambda>r. \<exists>t. r = Inr t)"
  shows "keeps I (act_fold f s xs) (\<lambda>r. \<exists>t. r = Inr t)"
  using assms
proof (induction xs arbitrary: s)
  case (Cons x xs)
  have "keeps I (f s x) (\<lambda>r. \<exists>t. r = Inr t)" by (rule Cons.prems) simp
  moreover have "keeps I (act_fold f t xs) (\<lambda>r. \<exists>t. r = Inr t)" for t by (rule Cons.IH) (use Cons.prems in simp)
  ultimately show ?case by (auto intro: keeps_act)
qed (simp add: keeps_yields)

section \<open>The record of a batch that can be written\<close>

lemma batch_record_fields:
  assumes "batch_record g prev e k ns ss b = Inr r"
  shows "jr_generation r = g" and "jr_prev r = prev" and "jr_epoch r = e" and "jr_keyring r = k"
    and "jr_snapshot_slot r = ss" and "prev = predecessor_of g"
    and "jr_additions r = sort_key addition_id (map pa_addition (pb_additions b))" and "jr_removals r = sort (pb_removals b)"
    and "jr_renames r = sort_key order_key (map rename_of (pb_renames b))" and "jr_library_name r = pb_library_name b"
  using assms by (auto simp: batch_record_Ok_iff)

lemma batch_record_journal_ok:
  assumes rec: "batch_record g prev e k ns ss b = Inr r" and b: "batch_writable is_nfc b" and "generation_ok g" and "commitment_ok k"
  shows "journal_ok is_nfc r"
proof -
  have d: "distinct (map addition_id (map pa_addition (pb_additions b)))" "distinct (pb_removals b)"
      "\<forall>p \<in> set (pb_renames b). rename_ok (rename_of p)" "distinct (map order_key (map rename_of (pb_renames b)))"
    using rec by (auto simp: batch_record_Ok_iff comp_def rename_of_def order_key_def)
  note f = batch_record_fields [OF rec]
  have "sorted_wrt (<) (map addition_id (jr_additions r))" unfolding f strictly_sorted_sort using d(1) .
  moreover have "sorted_wrt (<) (jr_removals r)" unfolding f using d(2) by (simp add: strict_sorted_iff)
  moreover have "sorted_wrt (<) (map order_key (jr_renames r))" unfolding f strictly_sorted_sort using d(4) .
  moreover have "renaming_ok is_nfc (rename_of p)" if "p \<in> set (pb_renames b)" for p
    using b d(3) that by (simp add: batch_writable_def renaming_ok_def rename_of_def)
  then have "\<forall>n \<in> set (jr_renames r). renaming_ok is_nfc n" unfolding f by auto
  moreover have "\<forall>a \<in> set (jr_additions r). carried_ok is_nfc a" "\<forall>c \<in> set (jr_removals r). container_id_ok c"
      "\<forall>n. jr_library_name r = Some n \<longrightarrow> library_name_ok n"
    using b by (auto simp: f batch_writable_def)
  ultimately show ?thesis using assms(3,4) f by (simp add: journal_ok_def collections_ok_def)
qed

context commit_world
begin

section \<open>The create\<close>

lemma create_lands:
  assumes plain: "\<not> starts_with keyring_prefix (cs_name slot)" and len: "length bytes < 2 ^ 64 - 1"
  shows "ensures (still U s) (retry_run (po_system P) retry (store_put_if_absent (po_store P) slot (stream_from bytes)))
    (\<lambda>r w. case r of
       Inl e \<Rightarrow> still U s w
     | Inr object \<Rightarrow> \<exists>i. oi_name i = cs_name slot \<and> cs_name slot \<notin> name_in_store ` U \<and> still (insert (i, bytes) U) s w)"
proof (rule retry_ensures)
  let ?Q = "\<lambda>r w. case r of
       Inl e \<Rightarrow> still U s w
     | Inr object \<Rightarrow> \<exists>i. oi_name i = cs_name slot \<and> cs_name slot \<notin> name_in_store ` U \<and> still (insert (i, bytes) U) s w"
  show "ensures (still U s) (store_put_if_absent (po_store P) slot (stream_from bytes)) (\<lambda>r w. (\<forall>e. r = Inl e \<longrightarrow> still U s w) \<and> ?Q r w)"
  proof (rule ensuresI)
    fix w assume w: "still U s w"
    then have "ok w" by (simp add: still_def)
    from create_total [OF this len, of slot] obtain v r where
      v: "store_put_if_absent (po_store P) slot (stream_from bytes) w = Some (v, r)" "ok v" "catalog v = catalog w"
        "case r of
           Inl e \<Rightarrow> objects v = objects w
         | Inr object \<Rightarrow> cs_name slot \<notin> (\<lambda>(i, _). oi_name i) ` set (objects w) \<and>
             (\<exists>i. oi_name i = cs_name slot \<and> set (objects v) = insert (i, bytes) (set (objects w)))"
      by (elim exE conjE) (rule that)
    have "(\<forall>e. r = Inl e \<longrightarrow> still U s v) \<and> ?Q r v"
    proof (cases r)
      case (Inl e)
      then show ?thesis using v w by (simp add: still_def)
    next
      case (Inr object)
      then obtain i where i: "oi_name i = cs_name slot" "set (objects v) = insert (i, bytes) (set (objects w))"
          "cs_name slot \<notin> (\<lambda>(i, _). oi_name i) ` set (objects w)"
        using v(4) by auto
      have "plain_part (objects v) = insert (i, bytes) (plain_part (objects w))" using i(1,2) plain by (auto simp: plain_part_def)
      moreover have "cs_name slot \<notin> name_in_store ` plain_part (objects w)" using i(3) by (force simp: plain_part_def)
      ultimately show ?thesis using Inr v w i(1) by (auto simp: still_def)
    qed
    then show "\<exists>v r. store_put_if_absent (po_store P) slot (stream_from bytes) w = Some (v, r) \<and>
        (\<forall>e. r = Inl e \<longrightarrow> still U s v) \<and> ?Q r v"
      using v(1) by blast
  qed
  fix w n d assume w: "still U s w"
  then have "ok w" by (simp add: still_def)
  then show "still U s (fst (sys_fill (po_system P) n w))" and "still U s (sys_sleep (po_system P) d w)"
    using still_alone [OF w] fill_alone sleep_alone by blast+
qed

text \<open>A listing that is read files every object, and a head that is not there is not read back.\<close>

lemma listing_at:
  assumes "ok w"
  shows "\<exists>r. listing_read P retry w = Some (w, r) \<and>
    (\<forall>l. r = Inr l \<longrightarrow> pages w None \<le> max_pages \<and> files (walked (map fst (objects w))) l)"
proof (cases "pages w None \<le> max_pages")
  case True
  then show ?thesis using listing_read_eq [OF assms True] filing_Ok by blast
next
  case False
  then have "\<exists>e. read_pages P retry listing_default None 0 w = Some (w, Err e)"
    by (intro read_pages_past_cap [OF assms]) (simp_all add: max_pages_def)
  then show ?thesis by (auto simp: listing_read_def)
qed

lemma own_record_none:
  assumes w: "still U s w" and g: "name_ok (HeadName (at_generation slot))"
    and fresh: "show_name (HeadName (at_generation slot)) \<notin> name_in_store ` U"
  shows "own_record P retry keys slot additions w = Some (w, Ok None)"
proof -
  have "ok w" and U: "plain_part (objects w) = U" using w by (simp_all add: still_def)
  from listing_at [OF this(1)] obtain r where r: "listing_read P retry w = Some (w, r)"
      and l: "\<And>l. r = Inr l \<Longrightarrow> files (walked (map fst (objects w))) l" by blast
  show ?thesis
  proof (cases r)
    case (Inl e)
    then show ?thesis using r by (simp add: own_record_def matched_def act_def yields_runs)
  next
    case (Inr listing)
    let ?n = "show_name (HeadName (at_generation slot))"
    have "?n \<notin> fst ` set (walked (map fst (objects w)))"
    proof
      assume "?n \<in> fst ` set (walked (map fst (objects w)))"
      then obtain x where x: "x \<in> set (objects w)" "name_in_store x = ?n" by (auto simp del: show_name.simps)
      then have "x \<in> U" using show_name_prefix(2) by (simp add: U [symmetric] plain_part_def del: show_name.simps)
      then show False using fresh x(2) by (metis imageI)
    qed
    then have "listed_handle listing ?n = None"
      using files_handle [OF l [OF Inr]] by (simp add: map_of_eq_None_iff)
    then show ?thesis using r Inr
      by (cases "store_object_at (po_store P) (attempted_commit_slot slot)")
        (simp_all add: own_record_def slot_read_back_def attempted_name_def matched_def act_def yields_runs)
  qed
qed

definition recorded ::
  "control_keys \<Rightarrow> (object_info \<times> byte list) set \<Rightarrow> index_state \<Rightarrow> aim \<Rightarrow> keyring_commitment \<Rightarrow> prepared_batch \<Rightarrow>
   journal_record \<Rightarrow> 'w \<Rightarrow> bool" where
  "recorded keys U s a k b r w \<longleftrightarrow>
     (\<exists>ns ss. batch_record (am_generation a) (am_prev a) (ck_epoch keys) k ns ss b = Inr r) \<and> journal_ok (lb_nfc (po_lib P)) r \<and>
     (\<exists>i bytes. oi_name i = show_name (HeadName (am_generation a)) \<and> still (insert (i, bytes) U) s w \<and>
        holds_record P keys (am_generation a) r bytes)"

lemma journal_commit_lands:
  assumes L: "libraries_ok (po_lib P)" and e: "epoch_ok (ck_epoch keys)" and g: "generation_ok (am_generation a)"
    and slot: "cs_name (am_commit_slot a) = show_name (HeadName (am_generation a))" and k: "commitment_ok k"
    and b: "batch_writable (lb_nfc (po_lib P)) b" and fresh: "show_name (HeadName (am_generation a)) \<notin> name_in_store ` U"
  shows "ensures (still U s) (journal_commit P keys policy a k b)
    (\<lambda>r w. case r of Inr (Committed rec) \<Rightarrow> recorded keys U s a k b rec w | _ \<Rightarrow> still U s w)"
proof -
  let ?post = "\<lambda>r w. case r of Inr (Committed rec) \<Rightarrow> recorded keys U s a k b rec w | _ \<Rightarrow> still U s w"
  let ?n = "HeadName (am_generation a)"
  have send: "ensures (still U s) (matched (retry_run (po_system P) (py_retry policy)
        (store_put_if_absent (po_store P) (am_commit_slot a) (stream_from bytes)))
       (\<lambda>outcome.
        case outcome of
          Inr _ \<Rightarrow> gives (Committed rec)
        | Inl e \<Rightarrow>
            if \<not> is_already_exists e then fails (Storage e)
            else let additions = bs_collect (map (\<lambda>p. cid (add_container (pa_addition p))) (pb_additions b))
                 in if additions = [] then gives Conflict
                    else act (own_record P (py_retry policy) keys (slot_consuming (am_generation a) (am_commit_slot a)) additions)
                           (\<lambda>own. gives (case own of Some r \<Rightarrow> Committed r | None \<Rightarrow> Conflict)))) ?post"
    if rec: "batch_record (am_generation a) (am_prev a) (ck_epoch keys) k ns ss b = Inr rec"
      and pay: "journal_encode (lb_cbor (po_lib P)) rec = Inr payload" and sealed: "sealed_as keys ?n Journal payload bytes"
    for rec payload bytes ns ss
  proof (rule ensures_matched [OF create_lands])
    show "\<not> starts_with keyring_prefix (cs_name (am_commit_slot a))" unfolding slot by (rule show_name_prefix)
    show "length bytes < 2 ^ 64 - 1" by (rule sealed_as_short [OF L sealed])
    fix r
    have j: "journal_ok (lb_nfc (po_lib P)) rec" and rg: "jr_generation rec = am_generation a"
      and re: "jr_epoch rec = ck_epoch keys"
      using batch_record_journal_ok [OF rec b g k] batch_record_fields [OF rec] by simp_all
    have held: "holds_record P keys (am_generation a) rec bytes"
      using sealed sealed_record [OF L _ j _ pay, of _ keys bytes] re e unfolding sealed_as_def rg by auto
    show "ensures (\<lambda>w. case r of
         Inl e \<Rightarrow> still U s w
       | Inr object \<Rightarrow> \<exists>i. oi_name i = cs_name (am_commit_slot a) \<and> cs_name (am_commit_slot a) \<notin> name_in_store ` U \<and>
           still (insert (i, bytes) U) s w)
       (case r of
          Inr _ \<Rightarrow> gives (Committed rec)
        | Inl e \<Rightarrow>
            if \<not> is_already_exists e then fails (Storage e)
            else let additions = bs_collect (map (\<lambda>p. cid (add_container (pa_addition p))) (pb_additions b))
                 in if additions = [] then gives Conflict
                    else act (own_record P (py_retry policy) keys (slot_consuming (am_generation a) (am_commit_slot a)) additions)
                           (\<lambda>own. gives (case own of Some r \<Rightarrow> Committed r | None \<Rightarrow> Conflict))) ?post"
    proof (cases r)
      case (Inl err)
      have none: "own_record P (py_retry policy) keys (slot_consuming (am_generation a) (am_commit_slot a)) additions w = Some (w, Ok None)"
        if "still U s w" for additions w
        by (rule own_record_none [OF that]) (use g fresh in \<open>simp_all add: slot_consuming_def\<close>)
      show ?thesis unfolding Inl sum.case Let_def
        by (rule ensuresI) (simp add: act_def none yields_runs)
    next
      case (Inr object)
      have "recorded keys U s a k b rec w"
        if "oi_name i = cs_name (am_commit_slot a)" "still (insert (i, bytes) U) s w" for w i
        unfolding recorded_def using rec j that held slot by metis
      then show ?thesis using Inr by (auto intro!: ensures_yields)
    qed
  qed
  show ?thesis unfolding journal_commit_def
  proof (rule ensures_act_yields, rule ensures_act_yields)
    fix rec payload
    assume rec: "batch_record (am_generation a) (am_prev a) (ck_epoch keys) k (cs_provider_id (am_next_slot a))
        (cs_provider_id (am_snapshot_slot a)) b = Inr rec"
      and "map_err FormatFailed (journal_encode (lb_cbor (po_lib P)) rec) = Inr payload"
    then have "journal_encode (lb_cbor (po_lib P)) rec = Inr payload" by (simp add: map_err_eq_Ok)
    then show "ensures (still U s) (act (seal_object P keys ?n Journal payload) (\<lambda>bytes.
        matched (retry_run (po_system P) (py_retry policy) (store_put_if_absent (po_store P) (am_commit_slot a) (stream_from bytes)))
         (\<lambda>outcome.
          case outcome of
            Inr _ \<Rightarrow> gives (Committed rec)
          | Inl e \<Rightarrow>
              if \<not> is_already_exists e then fails (Storage e)
              else let additions = bs_collect (map (\<lambda>p. cid (add_container (pa_addition p))) (pb_additions b))
                   in if additions = [] then gives Conflict
                      else act (own_record P (py_retry policy) keys (slot_consuming (am_generation a) (am_commit_slot a)) additions)
                             (\<lambda>own. gives (case own of Some r \<Rightarrow> Committed r | None \<Rightarrow> Conflict))))) ?post"
      by (intro ensures_keeps_act [OF seal_still]) (auto intro: send [OF rec])
  qed simp_all
qed

section \<open>A history at rest, under one catalog\<close>

definition settled :: "control_keys \<Rightarrow> journal_record list \<Rightarrow> nat \<Rightarrow> index_state \<Rightarrow> 'w \<Rightarrow> bool" where
  "settled keys rs base s w \<longleftrightarrow> (\<exists>U. holds_in P keys U rs base \<and> still U s w)"

lemma settled_iff:
  assumes "length rs \<le> max_format_integer"
  shows "settled keys rs base s w \<longleftrightarrow> ok w \<and> catalog w = s \<and> storage_holds P keys (objects w) rs base"
proof (cases "ok w")
  case True
  then have "distinct (objects w)" using refs_distinct [OF True] by (auto simp: distinct_map)
  then show ?thesis using True storage_holds_plain [OF _ assms] by (auto simp: settled_def still_def)
qed (simp add: settled_def still_def)

lemma settled_still: "settled keys rs base s w \<Longrightarrow> (\<And>U. holds_in P keys U rs base \<Longrightarrow> still U s w \<Longrightarrow> thesis) \<Longrightarrow> thesis"
  by (auto simp: settled_def)

lemma settled_keeps:
  assumes "\<And>U. keeps (still U s) m Q"
  shows "keeps (settled keys rs base s) m Q"
proof (rule keepsI)
  fix w assume "settled keys rs base s w"
  then obtain U where U: "holds_in P keys U rs base" "still U s w" by (rule settled_still)
  then show "\<exists>v r. m w = Some (v, r) \<and> settled keys rs base s v \<and> Q r"
    using keepsD [OF assms U(2)] by (auto simp: settled_def)
qed

lemma settled_quiet:
  assumes w: "settled keys rs base s w"
  shows "settled keys rs base s (fst (sys_fill (po_system P) n w))" and "settled keys rs base s (sys_sleep (po_system P) d w)"
proof -
  obtain U where U: "holds_in P keys U rs base" "still U s w" by (rule settled_still [OF w])
  then have "ok w" by (simp add: still_def)
  then show "settled keys rs base s (fst (sys_fill (po_system P) n w))" and "settled keys rs base s (sys_sleep (po_system P) d w)"
    using still_alone [OF U(2)] fill_alone sleep_alone U(1) unfolding settled_def by blast+
qed

section \<open>The record applied\<close>

lemma view_of_same:
  "ix_checkpoint t = ix_checkpoint s \<Longrightarrow> ix_containers t = ix_containers s \<Longrightarrow> ix_entries t = ix_entries s \<Longrightarrow>
   ix_library_name t = ix_library_name s \<Longrightarrow> view_of t = view_of s"
  by (simp add: view_of_def)

lemma view_of_fold: "(\<And>x s. view_of (f x s) = view_of s) \<Longrightarrow> view_of (fold f xs s) = view_of s"
  by (induction xs arbitrary: s) simp_all

lemma view_of_own:
  "view_of (attempt_step slot c s) = view_of s" "view_of (clear_pending_row c s) = view_of s"
  "view_of (release_reservation i s) = view_of s" "view_of (mark_present ob s) = view_of s"
  by (auto intro!: view_of_same simp: attempt_step_def clear_pending_row_def release_reservation_def mark_present_def reconcile_def Let_def
      split: option.splits)

lemma view_of_marked: "view_of (mark_commit_attempted cs slot s) = view_of s"
  unfolding mark_commit_attempted_def by (rule view_of_fold) (rule view_of_own)

lemma view_of_completed: "view_of (complete_batch cs materialized released s) = view_of s"
  unfolding complete_batch_def by (simp add: view_of_fold view_of_own)

lemma refresh_lands:
  assumes w: "settled keys rs' base s w" and s: "index_ok s" "view_of s = library_after rs (length rs)"
    and hist: "history_ok (rs @ [r])"
  shows "\<exists>v t. refresh_index P r materialized released w = Some (v, Ok ()) \<and> settled keys rs' base t v \<and> index_ok t \<and>
    view_of t = library_after (rs @ [r]) (Suc (length rs))"
proof -
  obtain t where t: "index_apply r s = Some (t, Ok ())" "index_ok t" "view_of t = library_after (rs @ [r]) (Suc (length rs))"
    by (rule apply_next [OF s(1) _ hist, of "length rs"]) (use s(2) in \<open>simp_all add: library_after_append\<close>)
  let ?b = "\<lparr>cb_record = r, cb_materialized = materialized, cb_released = released\<rparr>"
  let ?t = "complete_batch (uploaded r) materialized released t"
  have "state_apply r s = Some (Inr t)"
  proof (cases "state_apply r s")
    case (Some res)
    then show ?thesis using t(1) by (cases res) (simp_all add: index_apply_def index_write_def)
  qed (use t(1) in \<open>simp add: index_apply_def\<close>)
  then have run: "index_refresh ?b s = Some (?t, Ok ())" by (simp add: index_refresh_def state_refresh_def index_write_def)
  obtain U where U: "holds_in P keys U rs' base" "still U s w" by (rule settled_still [OF w])
  then have "ok w" "catalog w = s" by (simp_all add: still_def)
  then obtain v where v: "ip_refresh (po_index P) ?b w = Some (v, Ok ())" "catalog v = ?t" "ok v" "objects v = objects w"
    using ip_refresh_eq [of w ?b ?t "Ok ()"] run by blast
  have "still U ?t v" using U(2) v by (simp add: still_def)
  then have "settled keys rs' base ?t v" using U(1) by (auto simp: settled_def)
  moreover have "refresh_index P r materialized released w = Some (v, Ok ())"
    using v(1) by (simp add: refresh_index_def Let_def matched_def yields_runs)
  ultimately show ?thesis using t complete_batch_ok [OF t(2)] view_of_completed by metis
qed

section \<open>Removed Containers moved aside\<close>

lemma trash_one:
  assumes v: "ok v" and l: "files (walked (map fst (objects v))) listing" and h: "listed_container listing c = Some object"
    and c: "container_id_ok c" and n: "length rs \<le> max_format_integer"
  shows "harmless (settled keys rs base s) (store_trash (po_store P) object)"
proof (rule keepsI)
  fix w assume "settled keys rs base s w"
  then obtain U where U: "holds_in P keys U rs base" "still U s w" by (rule settled_still)
  then have w: "ok w" and plain: "plain_part (objects w) = U" and s: "catalog w = s" by (simp_all add: still_def)
  obtain u r where u: "store_trash (po_store P) object w = Some (u, r)" "ok u" "catalog u = catalog w"
      "set (objects u) \<subseteq> set (objects w)" "\<forall>(i, bytes) \<in> set (objects w). oi_ref i \<noteq> object \<longrightarrow> (i, bytes) \<in> set (objects u)"
    using trash_total [OF w, of object] by (elim exE conjE) (rule that)
  have "map_of (rev (walked (map fst (objects v)))) (container_object_name c) = Some object"
    using h files_handle [OF l] by (auto simp: listed_container_def split: if_splits)
  then obtain y where y: "y \<in> set (objects v)" "name_in_store y = container_object_name c" "oi_ref (fst y) = object"
    by (auto dest!: map_of_SomeD)
  have kept: "x \<in> set (objects u)" if "x \<in> singles U" for x
  proof -
    have x: "x \<in> set (objects w)" "is_single_name (name_in_store x)" using that plain by (auto simp: singles_def plain_part_def)
    have "oi_ref (fst x) \<noteq> object"
    proof
      assume "oi_ref (fst x) = object"
      then have "name_in_store x = container_object_name c" using ref_names [OF w v x(1) y(1)] y(2,3) by simp
      then have "is_single_name (container_object_name c)" using x(2) by simp
      then obtain m where "parse_name (container_object_name c) = Inr m" by (auto simp: is_single_name_def split: sum.splits)
      then show False using container_object_name_not_control [OF c] by blast
    qed
    then show ?thesis using u(5) x(1) by (cases x) auto
  qed
  then have "singles U \<subseteq> plain_part (objects u)" using plain by (auto simp: singles_def plain_part_def)
  moreover have "plain_part (objects u) \<subseteq> U" using u(4) plain by (auto simp: plain_part_def)
  ultimately have "holds_in P keys (plain_part (objects u)) rs base" using holds_in_less [OF U(1)] n by blast
  then have "settled keys rs base s u" using u(2,3) s by (auto simp: settled_def still_def)
  then show "\<exists>u r. store_trash (po_store P) object w = Some (u, r) \<and> settled keys rs base s u \<and> True" using u(1) by blast
qed

lemma trash_lands:
  assumes "ok v" and "files (walked (map fst (objects v))) listing" and "\<forall>c \<in> set cs. container_id_ok c"
    and "length rs \<le> max_format_integer"
  shows "keeps (settled keys rs base s) (trash_removals P policy listing cs) (\<lambda>r. \<exists>xs. r = Inr xs)"
  unfolding trash_removals_def
proof (rule keeps_act_fold_gives)
  fix untrashed c assume c: "c \<in> set cs"
  show "keeps (settled keys rs base s) (case listed_container listing c of
         None \<Rightarrow> gives untrashed
       | Some object \<Rightarrow>
           matched (retry_run (po_system P) (py_retry policy) (store_trash (po_store P) object)) (\<lambda>r.
             case r of
               Inr _ \<Rightarrow> gives untrashed
             | Inl e \<Rightarrow> gives (untrashed @ [\<lparr>ut_container = c, ut_cause = e\<rparr>]))) (\<lambda>r. \<exists>t. r = Inr t)"
  proof (cases "listed_container listing c")
    case (Some object)
    have "harmless (settled keys rs base s) (retry_run (po_system P) (py_retry policy) (store_trash (po_store P) object))"
      by (intro keeps_retry settled_quiet trash_one [OF assms(1,2) Some _ assms(4)]) (use assms(3) c in simp)
    then show ?thesis unfolding Some option.case
      by (rule keeps_matched) (auto intro: keeps_yields split: sum.split)
  qed (simp add: keeps_yields)
qed

section \<open>The checkpoint\<close>

lemma existing_checkpoint_still: "harmless (still U s) (existing_checkpoint P keys policy r name object)"
  unfolding existing_checkpoint_def
proof (rule harmless_matched [OF read_object_still])
  fix answer :: "commit_error + decoded_control_object"
  show "harmless (still U s) (case answer of
         Inl e \<Rightarrow>
           if is_storage_not_found e then gives None
           else (case e of
                   FormatFailed f \<Rightarrow>
                     if is_unaddressable f then fails e else fails (CorruptControlObject name (Unopenable f))
                 | _ \<Rightarrow> fails e)
       | Inr decoded \<Rightarrow>
           act (yields (map_err (\<lambda>f. CorruptControlObject name (Unopenable f)) (decode_snapshot P decoded (jr_generation r))))
             (\<lambda>payload. gives (Some (sn_checkpoint (sp_content payload)))))"
  proof (cases answer)
    case (Inl e)
    then show ?thesis by (cases e) (auto intro: harmless_yields)
  qed (auto intro!: harmless_act harmless_yields)
qed

lemma snapshot_create:
  assumes g: "gen g < length rs" "name_ok (IndexSnapshotName g)" and slot: "cs_name slot = show_name (IndexSnapshotName g)"
    and len: "length bytes < 2 ^ 64 - 1" and c: "true_snapshot P keys g (library_after rs (Suc (gen g))) bytes"
  shows "harmless (settled keys rs base s) (retry_run (po_system P) retry (store_put_if_absent (po_store P) slot (stream_from bytes)))"
proof (rule keepsI)
  fix w assume "settled keys rs base s w"
  then obtain U where U: "holds_in P keys U rs base" "still U s w" by (rule settled_still)
  have "\<not> starts_with keyring_prefix (cs_name slot)" unfolding slot by (rule show_name_prefix)
  from ensuresD [OF create_lands [OF this len] U(2)] obtain v r where
    v: "retry_run (po_system P) retry (store_put_if_absent (po_store P) slot (stream_from bytes)) w = Some (v, r)"
      "case r of Inl e \<Rightarrow> still U s v
       | Inr object \<Rightarrow> \<exists>i. oi_name i = cs_name slot \<and> cs_name slot \<notin> name_in_store ` U \<and> still (insert (i, bytes) U) s v"
    by blast
  have "settled keys rs base s v"
  proof (cases r)
    case (Inr object)
    then obtain i where i: "oi_name i = show_name (IndexSnapshotName g)" "oi_name i \<notin> name_in_store ` U"
        "still (insert (i, bytes) U) s v"
      using v(2) slot by auto
    then show ?thesis using holds_in_snapshot [OF U(1) g i(1,2) c] by (auto simp: settled_def)
  qed (use v(2) U(1) in \<open>auto simp: settled_def\<close>)
  then show "\<exists>v r. retry_run (po_system P) retry (store_put_if_absent (po_store P) slot (stream_from bytes)) w = Some (v, r) \<and>
      settled keys rs base s v \<and> True"
    using v(1) by blast
qed

lemma put_checkpoint_lands:
  assumes g: "gen (jr_generation r) < length rs" "name_ok (IndexSnapshotName (jr_generation r))"
    and slot: "cs_name slot = show_name (IndexSnapshotName (jr_generation r))"
    and len: "length bytes < 2 ^ 64 - 1"
    and c: "true_snapshot P keys (jr_generation r) (library_after rs (Suc (gen (jr_generation r)))) bytes"
  shows "harmless (settled keys rs base s) (put_checkpoint P keys policy r slot bytes recorded_at n)"
proof (induction n)
  case (Suc n)
  show ?case unfolding put_checkpoint.simps
  proof (rule harmless_matched [OF snapshot_create [OF g slot len c]])
    fix answer :: "store_error + object_ref"
    have rest: "harmless (settled keys rs base s) (act (existing_checkpoint P keys policy r (IndexSnapshotName (jr_generation r)) object) (\<lambda>found.
                  case found of
                    Some c \<Rightarrow> gives \<lparr>ckd_object = IndexSnapshotName (jr_generation r), ckd_written = False, ckd_checkpoint = c\<rparr>
                  | None \<Rightarrow> put_checkpoint P keys policy r slot bytes recorded_at n))" for object
      by (rule harmless_act [OF settled_keeps [OF existing_checkpoint_still]]) (auto intro: Suc harmless_yields split: option.split)
    show "harmless (settled keys rs base s) (case answer of
         Inr _ \<Rightarrow> gives \<lparr>ckd_object = IndexSnapshotName (jr_generation r), ckd_written = True, ckd_checkpoint = recorded_at\<rparr>
       | Inl e \<Rightarrow>
           if \<not> is_already_exists e then fails (Storage e)
           else act (yields (map_err Storage (store_object_at (po_store P) slot))) (\<lambda>object.
                act (existing_checkpoint P keys policy r (IndexSnapshotName (jr_generation r)) object) (\<lambda>found.
                  case found of
                    Some c \<Rightarrow> gives \<lparr>ckd_object = IndexSnapshotName (jr_generation r), ckd_written = False, ckd_checkpoint = c\<rparr>
                  | None \<Rightarrow> put_checkpoint P keys policy r slot bytes recorded_at n)))"
    proof (cases answer)
      case (Inl e)
      then show ?thesis by (auto intro!: harmless_yields harmless_act [OF harmless_yields] rest)
    qed (simp add: harmless_yields)
  qed
qed (simp add: harmless_yields)

lemma write_checkpoint_lands:
  assumes L: "libraries_ok (po_lib P)" and e: "epoch_ok (jr_epoch r)" and s: "index_ok s"
    and rs: "\<forall>r \<in> set rs. journal_ok (lb_nfc (po_lib P)) r" and hist: "history_ok rs" and last: "rs \<noteq> []" "r = last rs"
    and view: "view_of s = library_after rs (length rs)" and few: "card (lb_containers (view_of s)) \<le> max_format_integer"
  shows "keeps (settled keys rs base s) (write_checkpoint P keys policy r newest_checkpoint) (\<lambda>res. \<exists>x. res = Inr x)"
proof -
  let ?g = "jr_generation r" and ?n = "length rs - 1"
  have n: "?n < length rs" "Suc ?n = length rs" and r: "r = rs ! ?n" using last by (simp_all add: last_conv_nth)
  have g: "?g = Generation ?n" using hist n by (simp add: history_ok_def r)
  have name: "name_ok (IndexSnapshotName ?g)" using hist n by (simp add: g history_ok_def generation_ok_def)
  have at: "lb_at (view_of s) = Some (record_checkpoint r)"
    using library_after_Suc [OF n(1)] n(2) view r by (simp add: advance_def)
  have snap: "keeps (settled keys rs base s) (ip_snapshot (po_index P)) (\<lambda>res. res = state_snapshot s)"
    by (rule settled_keeps, rule keepsI) (simp add: still_def ip_snapshot_eq)
  have "harmless (settled keys rs base s) (checkpoint_record P keys policy r)"
    unfolding checkpoint_record_def Let_def
  proof (rule keeps_act [OF keeps_erring [OF keeps_weaken [OF snap]]])
    show "res = state_snapshot s \<Longrightarrow> map_err IndexFailed res = map_err IndexFailed (state_snapshot s)" for res by simp
    fix c assume "Inr c = map_err IndexFailed (state_snapshot s)"
    then have c: "state_snapshot s = Inr c" by (simp add: map_err_eq_Ok)
    have c_view: "content_view c = library_after rs (Suc (gen ?g))" using snapshot_view [OF s c] view n g by simp
    have c_at: "sn_checkpoint c = record_checkpoint r" using arg_cong [OF snapshot_view(1) [OF s c], of lb_at] at by (simp add: content_view_def)
    have c_ok: "snapshot_payload_ok (lb_nfc (po_lib P)) (snapshot_ordinary c)"
      by (rule snapshot_writable [OF s _ c few]) (unfold view, rule library_after_writable [OF rs], simp)
    show "harmless (settled keys rs base s) (act (yields (map_err FormatFailed (snapshot_encode (lb_cbor (po_lib P)) (snapshot_ordinary c))))
      (\<lambda>payload. act (seal_object P keys (IndexSnapshotName ?g) IndexSnapshot payload) (\<lambda>bytes.
         put_checkpoint P keys policy r (snapshot_slot_of (ControlHead ?g) (jr_snapshot_slot r)) bytes (sn_checkpoint c) checkpoint_attempts)))"
    proof (rule keeps_act [OF keeps_yields [where Q = "\<lambda>x. x = map_err FormatFailed (snapshot_encode (lb_cbor (po_lib P)) (snapshot_ordinary c))"]])
      fix payload assume "Inr payload = map_err FormatFailed (snapshot_encode (lb_cbor (po_lib P)) (snapshot_ordinary c))"
      then have enc: "snapshot_encode (lb_cbor (po_lib P)) (snapshot_ordinary c) = Inr payload" by (simp add: map_err_eq_Ok)
      show "harmless (settled keys rs base s) (act (seal_object P keys (IndexSnapshotName ?g) IndexSnapshot payload) (\<lambda>bytes.
         put_checkpoint P keys policy r (snapshot_slot_of (ControlHead ?g) (jr_snapshot_slot r)) bytes (sn_checkpoint c) checkpoint_attempts))"
      proof (rule keeps_act [OF settled_keeps [OF seal_still]])
        fix bytes assume "\<forall>b. Inr bytes = Inr b \<longrightarrow> sealed_as keys (IndexSnapshotName ?g) IndexSnapshot payload b"
        then have sealed: "sealed_as keys (IndexSnapshotName ?g) IndexSnapshot payload bytes" by blast
        have "true_snapshot P keys ?g (content_view c) bytes"
          using sealed sealed_snapshot [OF L _ c_ok _ _ enc, of _ ?g keys bytes] e
          unfolding sealed_as_def by (auto simp: c_at record_checkpoint_def at_head_def)
        then show "harmless (settled keys rs base s) (put_checkpoint P keys policy r
            (snapshot_slot_of (ControlHead ?g) (jr_snapshot_slot r)) bytes (sn_checkpoint c) checkpoint_attempts)"
          by (intro put_checkpoint_lands name sealed_as_short [OF L sealed])
            (use n g c_view in \<open>simp_all add: snapshot_slot_of_def snapshot_name_def\<close>)
      qed simp
    qed simp_all
  qed simp
  then show ?thesis unfolding write_checkpoint_def
    by (auto intro: keeps_yields keeps_matched)
qed

end

end
