(* ===== verification/Commit_Atomic.thy ===== *)
theory Commit_Atomic
  imports Commit_Landing Commit_Rebase
begin

text \<open>
  That a commit is atomic. In a \<open>commit_world\<close> that holds a history and whose Index has its own place in it,
  \<open>commit_batch\<close> ends with Storage holding that history, or the history and one record more; it answers success exactly
  in the second case, and then the Index views the Library with the record, and the record carries the batch.
\<close>

section \<open>What a commit starts from and ends in\<close>

text \<open>The ids of a batch's Containers are fresh, and the Library with it is one a checkpoint can be written of.\<close>

definition committable ::
  "libraries \<Rightarrow> control_keys \<Rightarrow> commit_policy \<Rightarrow> journal_record list \<Rightarrow> prepared_batch \<Rightarrow> bool" where
  "committable lib keys policy rs b \<longleftrightarrow>
     libraries_ok lib \<and> epoch_ok (ck_epoch keys) \<and> py_replica_count policy < 2 ^ 16 \<and>
     history_ok rs \<and> rs \<noteq> [] \<and> length rs < max_format_integer \<and> (\<forall>r \<in> set rs. journal_ok (lb_nfc lib) r) \<and>
     batch_writable (lb_nfc lib) b \<and>
     (\<lambda>p. addition_id (pa_addition p)) ` set (pb_additions b) \<inter> cid ` lb_containers (library_after rs (length rs)) = {} \<and>
     card (lb_containers (library_after rs (length rs))) + length (pb_additions b) \<le> max_format_integer"

definition carries :: "prepared_batch \<Rightarrow> journal_record \<Rightarrow> bool" where
  "carries b r \<longleftrightarrow>
     mset (map add_container (jr_additions r)) = mset (map (\<lambda>p. add_container (pa_addition p)) (pb_additions b)) \<and>
     jr_removals r = sort (pb_removals b) \<and> mset (map ren_path (jr_renames r)) = mset (map pr_path (pb_renames b)) \<and>
     jr_library_name r = pb_library_name b"

text \<open>Whatever record the batch makes fits the Library.\<close>

definition fitting :: "prepared_batch \<Rightarrow> library \<Rightarrow> bool" where
  "fitting b M \<longleftrightarrow> (\<forall>g prev e k ns ss r. batch_record g prev e k ns ss b = Inr r \<longrightarrow> record_fits r M)"

lemma committable_same: "committable lib keys policy rs b \<Longrightarrow> same_but_carried b c \<Longrightarrow> batch_writable (lb_nfc lib) c \<Longrightarrow>
    committable lib keys policy rs c"
proof -
  assume b: "committable lib keys policy rs b" and c: "same_but_carried b c" "batch_writable (lb_nfc lib) c"
  have cs: "map (\<lambda>p. add_container (pa_addition p)) (pb_additions c) = map (\<lambda>p. add_container (pa_addition p)) (pb_additions b)"
    using c(1) by (simp add: same_but_carried_def)
  from arg_cong [OF this, of "map cid"] have "map (\<lambda>p. addition_id (pa_addition p)) (pb_additions c) = map (\<lambda>p. addition_id (pa_addition p)) (pb_additions b)"
    by (simp add: addition_id_def comp_def)
  then have "(\<lambda>p. addition_id (pa_addition p)) ` set (pb_additions c) = (\<lambda>p. addition_id (pa_addition p)) ` set (pb_additions b)"
    by (metis list.set_map)
  moreover have "length (pb_additions c) = length (pb_additions b)" using arg_cong [OF cs, of length] by simp
  ultimately show "committable lib keys policy rs c" using b c(2) by (simp add: committable_def)
qed

lemma carries_record:
  assumes "batch_record g prev e k ns ss c = Inr r" and "same_but_carried b c"
  shows "carries b r"
proof -
  note f = batch_record_fields [OF assms(1)] and c = assms(2) [unfolded same_but_carried_def]
  have "mset (map add_container (jr_additions r)) = mset (map add_container (map pa_addition (pb_additions c)))"
    unfolding f by (simp only: mset_map mset_sort)
  also have "\<dots> = mset (map (\<lambda>p. add_container (pa_addition p)) (pb_additions b))"
    using c by (metis (no_types, lifting) comp_apply map_eq_conv map_map)
  finally have adds: "mset (map add_container (jr_additions r)) = mset (map (\<lambda>p. add_container (pa_addition p)) (pb_additions b))" .
  have "mset (map ren_path (jr_renames r)) = mset (map ren_path (map rename_of (pb_renames c)))"
    unfolding f by (simp only: mset_map mset_sort)
  also have "map ren_path (map rename_of (pb_renames c)) = map pr_path (pb_renames b)"
    using c by (simp add: rename_of_def comp_def)
  finally show ?thesis using adds c f by (simp add: carries_def)
qed

lemma containers_few:
  assumes b: "committable lib keys policy rs b" and rec: "batch_record g prev e k ns ss b = Inr r"
  shows "card (lb_containers (advance r (library_after rs (length rs)))) \<le> max_format_integer"
proof -
  let ?C = "lb_containers (library_after rs (length rs))"
  have fin: "finite (lb_containers (library_after rs k))" if "k \<le> length rs" for k
    using that by (induction k) (simp_all add: library_empty_def library_after_Suc advance_def containers_after_def containers_kept_def)
  have "lb_containers (advance r (library_after rs (length rs))) \<subseteq> ?C \<union> add_container ` set (jr_additions r)"
    by (auto simp: advance_def containers_after_def containers_kept_def)
  then have "card (lb_containers (advance r (library_after rs (length rs)))) \<le> card (?C \<union> add_container ` set (jr_additions r))"
    using fin [of "length rs"] by (intro card_mono) simp_all
  also have "\<dots> \<le> card ?C + card (add_container ` set (jr_additions r))" by (rule card_Un_le)
  also have "card (add_container ` set (jr_additions r)) \<le> length (jr_additions r)"
    by (rule order_trans [OF card_image_le card_length]) simp
  also have "length (jr_additions r) = length (pb_additions b)" using batch_record_fields(7) [OF rec] by simp
  finally show ?thesis using b by (simp add: committable_def)
qed

lemma history_longer:
  assumes b: "committable lib keys policy rs b" and r: "jr_generation r = Generation (length rs)"
    and fits: "record_fits r (library_after rs (length rs))"
  shows "history_ok (rs @ [r])"
  unfolding history_ok_def
proof (intro conjI allI impI)
  have hist: "history_ok rs" "length rs < max_format_integer" using b by (simp_all add: committable_def)
  then show "length (rs @ [r]) \<le> max_format_integer" by simp
  fix i assume i: "i < length (rs @ [r])"
  show "jr_generation ((rs @ [r]) ! i) = Generation i" and "record_fits ((rs @ [r]) ! i) (library_after (rs @ [r]) i)"
    using i hist(1) r fits by (cases "i = length rs"; simp add: history_ok_def library_after_append nth_append)+
qed

context commit_world
begin

section \<open>The check of the candidate\<close>

lemma candidate_check_still: "harmless (still U s) (candidate_check P b)"
proof -
  have removals: "harmless (still U s) (check_removals P removed)" for removed
    by (auto simp: check_removals_def Let_def intro!: harmless_yields harmless_act [OF harmless_erring [OF containers_still]])
  have renames: "harmless (still U s) (candidate_renames P b removed current)" for removed current
    by (auto simp: candidate_renames_def
        intro!: harmless_yields harmless_act [OF harmless_yields] harmless_act [OF harmless_erring [OF containers_still]])
  show ?thesis unfolding candidate_check_def Let_def
    by (intro harmless_act removals renames harmless_erring harmless_yields keeps_any [OF entries_still])
qed

lemma candidate_fitting:
  assumes b: "committable (po_lib P) keys policy rs b" and s: "index_ok s" "view_of s = library_after rs (length rs)"
  shows "keeps (still U s) (candidate_check P b) (\<lambda>res. res = Inr () \<longrightarrow> fitting b (view_of s))"
proof (rule keepsI)
  fix w assume w: "still U s w"
  then have ok: "ok w" and cat: "catalog w = s" by (simp_all add: still_def)
  obtain v res where v: "candidate_check P b w = Some (v, res)" "still U s v" using keepsD [OF candidate_check_still w] by blast
  have aok: "\<forall>p \<in> set (pb_additions b). addition_ok (pa_addition p)"
    using b by (simp add: committable_def batch_writable_def carried_ok_def)
  have "lb_containers (library_after rs (length rs)) = stored (ix_containers s)" using arg_cong [OF s(2), of lb_containers] by (simp add: view_of_def)
  then have new: "(\<lambda>p. addition_id (pa_addition p)) ` set (pb_additions b) \<inter>
      cid ` {c \<in> stored (ix_containers (catalog w)). cid c \<notin> set (pb_removals b)} = {}"
    using b by (auto simp: committable_def cat)
  have "fitting b (view_of s)" if "res = Inr ()"
    unfolding fitting_def
  proof (intro allI impI)
    fix g prev e k ns ss r assume rec: "batch_record g prev e k ns ss b = Inr r"
    have "catalog_wf (catalog w)" using index_okD(1) [OF s(1)] by (simp add: cat)
    from candidate_exact [OF ok this rec aok new] v(1) that show "record_fits r (view_of s)" by (auto simp: cat)
  qed
  then show "\<exists>v res. candidate_check P b w = Some (v, res) \<and> still U s v \<and> (res = Inr () \<longrightarrow> fitting b (view_of s))"
    using v by blast
qed

section \<open>The records that intervened\<close>

lemma generations_collected: "\<forall>n \<in> set ns. n \<le> max_format_integer \<Longrightarrow> collect_res generation_new ns = Inr (map Generation ns)"
  by (induction ns) (simp_all add: generation_new_def)

lemma read_one_at_rest:
  assumes l: "files (walked (map fst objs)) l" and st: "storage_holds P keys objs rs base" and w: "rests objs w"
    and R: "R = \<lparr>rd_ports = P, rd_keys = keys, rd_retry = retry, rd_listing = l\<rparr>" and g: "generation_ok g" and acc: "set acc \<subseteq> set rs"
  shows "\<exists>r. read_one R acc g w = Some (w, r) \<and> (\<forall>more. r = Inr more \<longrightarrow> set more \<subseteq> set rs)"
proof (cases "has_head l g")
  case True
  obtain d where d: "reading_open R (HeadName g) w = Some (w, Ok (Some d))" "dc_kind d = Journal"
      "decode_record P d g = Inr (rs ! gen g)"
    by (rule open_head [OF l st w R True])
  have "show_name (HeadName g) \<in> fst ` set (walked (map fst objs))" using files_heads [OF l, of g] True by blast
  then obtain i bytes where "(i, bytes) \<in> set objs" "oi_name i = show_name (HeadName g)" by auto
  then have "gen g < length rs" using st g unfolding storage_holds_def by fastforce
  moreover have "read_one R acc g w = Some (w, Ok (acc @ [rs ! gen g]))"
    using d by (simp add: read_one_def act_def yields_runs R)
  ultimately show ?thesis using acc by auto
next
  case False
  then have "show_name (HeadName g) \<notin> fst ` set (walked (map fst objs))" using files_heads [OF l, of g] g by simp
  then have "listed_handle l (show_name (HeadName g)) = None" using files_handle [OF l] by (simp add: map_of_eq_None_iff)
  then show ?thesis by (simp add: read_one_def reading_open_def act_def yields_runs R)
qed

lemma read_records_at_rest:
  assumes l: "files (walked (map fst objs)) l" and st: "storage_holds P keys objs rs base" and w: "rests objs w"
    and R: "R = \<lparr>rd_ports = P, rd_keys = keys, rd_retry = retry, rd_listing = l\<rparr>"
    and "\<forall>g \<in> set gs. generation_ok g" and "set acc \<subseteq> set rs"
  shows "\<exists>r. act_fold (read_one R) acc gs w = Some (w, r) \<and> (\<forall>more. r = Inr more \<longrightarrow> set more \<subseteq> set rs)"
  using assms(5,6)
proof (induction gs arbitrary: acc)
  case (Cons g gs)
  have "generation_ok g" using Cons.prems by simp
  from read_one_at_rest [OF l st w R this Cons.prems(2)] obtain r where
    r: "read_one R acc g w = Some (w, r)" "\<And>more. r = Inr more \<Longrightarrow> set more \<subseteq> set rs" by blast
  show ?case
  proof (cases r)
    case (Inr more)
    then show ?thesis using r Cons.IH [of more] Cons.prems(1) by (simp add: act_def)
  qed (use r in \<open>simp add: act_def\<close>)
qed (simp add: yields_runs)

lemma read_intervening_at_rest:
  assumes l: "files (walked (map fst objs)) (cu_listing caught)" and st: "storage_holds P keys objs rs base" and w: "rests objs w"
    and head: "caught_head_generation caught = Some g" "generation_ok g" and seen: "set seen \<subseteq> set rs"
  shows "\<exists>r. read_intervening P keys policy caught b seen w = Some (w, r) \<and> (\<forall>more. r = Inr more \<longrightarrow> set more \<subseteq> set rs)"
proof (cases "generation_after (if seen = [] then b else Some (jr_generation (last seen)))")
  case (Inl e)
  then show ?thesis using head by (simp add: read_intervening_def act_def yields_runs)
next
  case (Inr first)
  have gens: "collect_res generation_new [first..<gen g + 1] = Inr (map Generation [first..<gen g + 1])"
    by (rule generations_collected) (use head(2) in \<open>auto simp: generation_ok_def\<close>)
  have "\<forall>h \<in> set (map Generation [first..<gen g + 1]). generation_ok h" using head(2) by (auto simp: generation_ok_def)
  from read_records_at_rest [OF l st w refl this, of "[]" "py_retry policy"] obtain r where
    r: "read_records \<lparr>rd_ports = P, rd_keys = keys, rd_retry = py_retry policy, rd_listing = cu_listing caught\<rparr>
        (map Generation [first..<gen g + 1]) w = Some (w, r)" "\<And>more. r = Inr more \<Longrightarrow> set more \<subseteq> set rs"
    by (auto simp: read_records_def)
  have run: "read_intervening P keys policy caught b seen w = act (read_records
      \<lparr>rd_ports = P, rd_keys = keys, rd_retry = py_retry policy, rd_listing = cu_listing caught\<rparr>
        (map Generation [first..<gen g + 1])) (\<lambda>more. gives (seen @ more)) w"
    using head(1) Inr gens by (simp add: read_intervening_def)
  show ?thesis unfolding run using r seen by (cases r) (auto simp: act_def yields_runs)
qed

section \<open>One attempt\<close>

definition waiting :: "control_keys \<Rightarrow> journal_record list \<Rightarrow> nat \<Rightarrow> 'w \<Rightarrow> bool" where
  "waiting keys rs base w \<longleftrightarrow> (\<exists>s. settled keys rs base s w \<and> index_ok s \<and> view_of s = library_after rs (length rs))"

definition landed :: "control_keys \<Rightarrow> journal_record list \<Rightarrow> nat \<Rightarrow> prepared_batch \<Rightarrow> journal_record \<Rightarrow> 'w \<Rightarrow> bool" where
  "landed keys rs base b r w \<longleftrightarrow> carries b r \<and> journal_ok (lb_nfc (po_lib P)) r \<and> history_ok (rs @ [r]) \<and>
     (\<exists>s. settled keys (rs @ [r]) base s w \<and> index_ok s \<and> view_of s = library_after (rs @ [r]) (Suc (length rs)))"

lemma committed_lands:
  assumes c: "committable (po_lib P) keys policy rs c" and s: "index_ok s" "view_of s = library_after rs (length rs)"
    and fits: "fitting c (library_after rs (length rs))" and same: "same_but_carried b c" and U: "holds_in P keys U rs base"
    and rec: "recorded keys U s a k c r w" and a: "am_generation a = Generation (length rs)"
    and v: "ok v" "files (walked (map fst (objects v))) (cu_listing caught)"
  shows "\<exists>u out. after_commit P keys policy caught c n r w = Some (u, Inr (Some out)) \<and> co_record out = r \<and> landed keys rs base b r u"
proof -
  have L: "libraries_ok (po_lib P)" and e: "epoch_ok (ck_epoch keys)" and rs: "\<forall>r \<in> set rs. journal_ok (lb_nfc (po_lib P)) r"
    and short: "length (rs @ [r]) \<le> max_format_integer"
    using c by (simp_all add: committable_def)
  obtain ns ss where br: "batch_record (Generation (length rs)) (am_prev a) (ck_epoch keys) k ns ss c = Inr r"
    and j: "journal_ok (lb_nfc (po_lib P)) r"
    and made: "\<exists>i bytes. oi_name i = show_name (HeadName (Generation (length rs))) \<and> still (insert (i, bytes) U) s w \<and>
      holds_record P keys (Generation (length rs)) r bytes"
    using rec unfolding recorded_def a by (elim exE conjE) (rule that, assumption+, intro exI conjI, assumption+)
  obtain i bytes where i: "oi_name i = show_name (HeadName (Generation (length rs)))" "still (insert (i, bytes) U) s w"
      "holds_record P keys (Generation (length rs)) r bytes"
    using made by (elim exE conjE) (rule that)
  have g: "jr_generation r = Generation (length rs)" and re: "jr_epoch r = ck_epoch keys" using batch_record_fields [OF br] by simp_all
  have fit: "record_fits r (library_after rs (length rs))" using fits br unfolding fitting_def by blast
  have hist: "history_ok (rs @ [r])" by (rule history_longer [OF c g fit])
  have "name_ok (HeadName (Generation (length rs)))" using j g by (simp add: journal_ok_def)
  then have "settled keys (rs @ [r]) base s w"
    using holds_in_record [OF U refl _ i(1,3)] i(2) by (auto simp: settled_def)
  from refresh_lands [OF this s hist] obtain w1 t where
    w1: "refresh_index P r (pb_materialized c) (pb_released c) w = Some (w1, Ok ())" "settled keys (rs @ [r]) base t w1"
    and t: "index_ok t" "view_of t = library_after (rs @ [r]) (Suc (length rs))" by blast
  have "\<forall>x \<in> set (jr_removals r). container_id_ok x" using j by (simp add: journal_ok_def)
  from keepsD [OF trash_lands [OF v this short] w1(2)] obtain w2 xs where
    w2: "trash_removals P policy (cu_listing caught) (jr_removals r) w1 = Some (w2, Inr xs)" "settled keys (rs @ [r]) base t w2" by blast
  have adv: "library_after (rs @ [r]) (Suc (length rs)) = advance r (library_after rs (length rs))"
    by (simp add: library_after_Suc library_after_append)
  have few: "card (lb_containers (view_of t)) \<le> max_format_integer" unfolding t(2) adv by (rule containers_few [OF c br])
  have "keeps (settled keys (rs @ [r]) base t) (write_checkpoint P keys policy r (cu_newest_checkpoint caught)) (\<lambda>res. \<exists>x. res = Inr x)"
    by (rule write_checkpoint_lands [OF L _ t(1) _ hist _ _ _ few]) (use e re rs j t(2) in simp_all)
  from keepsD [OF this w2(2)] obtain w3 x where
    w3: "write_checkpoint P keys policy r (cu_newest_checkpoint caught) w2 = Some (w3, Inr x)" "settled keys (rs @ [r]) base t w3" by blast
  have "landed keys rs base b r w3"
    using carries_record [OF br same] j hist w3(2) t by (auto simp: landed_def)
  then show ?thesis using w1(1) w2(1) w3(1) by (simp add: after_commit_def act_def yields_runs)
qed

lemma mark_lands:
  assumes "settled keys rs base s w"
  shows "\<exists>v. mark_attempt P b slot w = Some (v, Ok ()) \<and>
    settled keys rs base (mark_commit_attempted (map (\<lambda>p. cid (add_container (pa_addition p))) (pb_additions b)) slot s) v"
proof -
  obtain U where U: "holds_in P keys U rs base" "still U s w" by (rule settled_still [OF assms])
  then have "ok w" by (simp add: still_def)
  from ip_mark_eq [OF this, of "map (\<lambda>p. cid (add_container (pa_addition p))) (pb_additions b)" slot] U show ?thesis
    by (auto simp: mark_attempt_def erring_def matched_def yields_runs settled_def still_def)
qed

lemma commit_aimed_lands:
  assumes c: "committable (po_lib P) keys policy rs c" and s: "index_ok s" "view_of s = library_after rs (length rs)"
    and fits: "fitting c (library_after rs (length rs))" and same: "same_but_carried b c"
    and v: "ok v" "files (walked (map fst (objects v))) (cu_listing caught)"
    and k: "commitment_ok k" and a: "aimed_past (ControlHead (Generation (length rs - 1))) a"
  shows "ensures (settled keys rs base s) (commit_aimed P keys policy caught k c n a)
    (\<lambda>r w. case r of Inr (Some out) \<Rightarrow> landed keys rs base b (co_record out) w | _ \<Rightarrow> waiting keys rs base w)"
proof (rule ensuresI)
  let ?Q = "\<lambda>r w. case r of Inr (Some out) \<Rightarrow> landed keys rs base b (co_record out) w | _ \<Rightarrow> waiting keys rs base w"
  have L: "libraries_ok (po_lib P)" and ep: "epoch_ok (ck_epoch keys)" and ne: "rs \<noteq> []"
    and wr: "batch_writable (lb_nfc (po_lib P)) c" and short: "length rs < 2 ^ 64"
    using c by (simp_all add: committable_def max_format_integer_def)
  fix w assume "settled keys rs base s w"
  then obtain U where U: "holds_in P keys U rs base" "still U s w" by (rule settled_still)
  have succ: "generation_next (Generation (length rs - 1)) = Inr (am_generation a)"
    and slot: "cs_name (am_commit_slot a) = show_name (HeadName (am_generation a))"
    using a by (simp_all add: aimed_past_def)
  then have ag: "am_generation a = Generation (length rs)" and "length rs \<le> max_format_integer"
    using ne short by (auto simp: generation_next_def generation_new_def wadd64_def split: if_splits)
  then have g: "generation_ok (am_generation a)" by (simp add: generation_ok_def)
  have fresh: "show_name (HeadName (am_generation a)) \<notin> name_in_store ` U"
  proof
    assume "show_name (HeadName (am_generation a)) \<in> name_in_store ` U"
    then obtain x where "x \<in> U" "name_in_store x = show_name (HeadName (am_generation a))" by (metis imageE)
    then have "gen (am_generation a) < length rs" using U(1) g unfolding holds_in_def by (metis name_ok.simps(1))
    then show False by (simp add: ag)
  qed
  from ensuresD [OF journal_commit_lands [OF L ep g slot k wr fresh] U(2), of policy] obtain u r where
    u: "journal_commit P keys policy a k c w = Some (u, r)"
      "case r of Inr (Committed rec) \<Rightarrow> recorded keys U s a k c rec u | _ \<Rightarrow> still U s u" by blast
  show "\<exists>v r. commit_aimed P keys policy caught k c n a w = Some (v, r) \<and> ?Q r v"
  proof (cases "\<exists>rec. r = Inr (Committed rec)")
    case True
    then obtain rec where r: "r = Inr (Committed rec)" by blast
    then have "recorded keys U s a k c rec u" using u(2) by simp
    from committed_lands [OF c s fits same U(1) this ag v, of n] obtain u' out where
      "after_commit P keys policy caught c n rec u = Some (u', Inr (Some out))" "landed keys rs base b (co_record out) u'" by blast
    then show ?thesis using u(1) by (simp add: commit_aimed_def act_def r)
  next
    case False
    then have "still U s u" and r: "r = Inr Conflict \<or> (\<exists>e. r = Inl e)"
      using u(2) by (auto split: sum.splits attempted.splits)
    then have "waiting keys rs base u" using s U(1) unfolding waiting_def settled_def by blast
    then show ?thesis using u(1) r by (auto simp: commit_aimed_def act_def yields_runs)
  qed
qed

lemma land_lands:
  assumes c: "committable (po_lib P) keys policy rs c" and s: "index_ok s" "view_of s = library_after rs (length rs)"
    and fits: "fitting c (library_after rs (length rs))" and same: "same_but_carried b c"
    and head: "cu_head caught = Some (ControlHead (Generation (length rs - 1)))"
    and v: "ok v" "files (walked (map fst (objects v))) (cu_listing caught)" and e: "generation_ok (ex_next e)"
  shows "ensures (settled keys rs base s) (land P keys policy caught committed e c n)
    (\<lambda>r w. case r of Inr (Some out) \<Rightarrow> landed keys rs base b (co_record out) w | _ \<Rightarrow> waiting keys rs base w)"
proof -
  let ?Q = "\<lambda>r w. case r of Inr (Some out) \<Rightarrow> landed keys rs base b (co_record out) w | _ \<Rightarrow> waiting keys rs base w"
  have L: "libraries_ok (po_lib P)" and few: "py_replica_count policy < 2 ^ 16" using c by (simp_all add: committable_def)
  have wait: "waiting keys rs base w" if "settled keys rs base s w" for w using that s by (auto simp: waiting_def)
  have aimed_lands: "ensures (settled keys rs base s) (act (mark_attempt P c (aim_attempted a)) (\<lambda>_. commit_aimed P keys policy caught k c n a)) ?Q"
    if k: "commitment_ok k" and a: "aimed_past (ControlHead (Generation (length rs - 1))) a" for k a
  proof (rule ensures_act)
    let ?t = "mark_commit_attempted (map (\<lambda>p. cid (add_container (pa_addition p))) (pb_additions c)) (aim_attempted a) s"
    show "ensures (settled keys rs base s) (mark_attempt P c (aim_attempted a)) (\<lambda>r w. r = Ok () \<and> settled keys rs base ?t w)"
      by (rule ensuresI) (use mark_lands in blast)
    have t: "index_ok ?t" "view_of ?t = library_after rs (length rs)" using own_step_ok(4) [OF s(1)] s(2) by (simp_all add: view_of_marked)
    show "ensures (\<lambda>w. Inr x = Ok () \<and> settled keys rs base ?t w) (commit_aimed P keys policy caught k c n a) ?Q" for x
      by (rule ensures_weaken [OF commit_aimed_lands [OF c t fits same v k a]]) simp_all
  qed simp
  show ?thesis unfolding land_def
  proof (rule ensures_keeps_act [OF settled_keeps [OF replicate_still [OF L e few]]])
    fix k assume "\<forall>x. Inr k = Inr x \<longrightarrow> commitment_ok x"
    then have k: "commitment_ok k" by simp
    show "ensures (settled keys rs base s) (act (take_aim P policy caught committed) (\<lambda>aimed.
       case aimed of
         None \<Rightarrow> gives None
       | Some a \<Rightarrow> act (mark_attempt P c (aim_attempted a)) (\<lambda>_. commit_aimed P keys policy caught k c n a))) ?Q"
    proof (rule ensures_keeps_act [OF settled_keeps [OF take_aim_still [OF head]]])
      fix aimed assume "\<forall>a. Inr aimed = Inr (Some a) \<longrightarrow> aimed_past (ControlHead (Generation (length rs - 1))) a"
      then show "ensures (settled keys rs base s) (case aimed of
         None \<Rightarrow> gives None
       | Some a \<Rightarrow> act (mark_attempt P c (aim_attempted a)) (\<lambda>_. commit_aimed P keys policy caught k c n a)) ?Q"
        using aimed_lands [OF k] wait by (cases aimed) (auto intro: ensures_yields)
    qed (use wait in simp)
  qed (use wait in simp)
qed

section \<open>The attempts\<close>

lemma prepare_lands:
  assumes b: "committable (po_lib P) keys policy rs b" and s: "index_ok s" "view_of s = library_after rs (length rs)"
    and w: "settled keys rs base s w" and l: "files (walked (map fst (objects w))) (cu_listing caught)"
    and head: "caught_head_generation caught = Some (Generation (length rs - 1))" and seen: "set seen \<subseteq> set rs"
  shows "\<exists>v r. prepare P keys policy caught since b seen w = Some (v, r) \<and> settled keys rs base s v \<and>
    (\<forall>more c committed. r = Inr (more, c, committed) \<longrightarrow> set more \<subseteq> set rs \<and> same_but_carried b c \<and>
       committable (po_lib P) keys policy rs c \<and> fitting c (library_after rs (length rs)) \<and> committed \<noteq> None)"
proof -
  have short: "length rs \<le> max_format_integer" and ne: "rs \<noteq> []" and hist: "history_ok rs"
    and wr: "batch_writable (lb_nfc (po_lib P)) b" and js: "\<forall>r \<in> set rs. journal_ok (lb_nfc (po_lib P)) r"
    using b by (simp_all add: committable_def)
  have st: "storage_holds P keys (objects w) rs base" and "ok w" "catalog w = s" using w unfolding settled_iff [OF short] by simp_all
  then have "rests (objects w) w" using s by (simp add: rests_def)
  moreover have "generation_ok (Generation (length rs - 1))" using short by (simp add: generation_ok_def)
  ultimately obtain r where r: "read_intervening P keys policy caught since seen w = Some (w, r)"
      and more: "\<And>more. r = Inr more \<Longrightarrow> set more \<subseteq> set rs"
    using read_intervening_at_rest [OF l st _ head _ seen] by blast
  have at: "ix_checkpoint s \<noteq> None"
    using library_at [OF hist, of "length rs"] arg_cong [OF s(2), of lb_at] ne by (auto simp: view_of_def)
  have rest: "keeps (settled keys rs base s) (act (rebase P b more) (\<lambda>b.
     act (candidate_check P b) (\<lambda>_.
     act (erring IndexFailed (ip_checkpoint (po_index P))) (\<lambda>committed. gives (more, b, committed)))))
     (\<lambda>r. \<forall>more' c committed. r = Inr (more', c, committed) \<longrightarrow> more' = more \<and> same_but_carried b c \<and>
       committable (po_lib P) keys policy rs c \<and> fitting c (library_after rs (length rs)) \<and> committed \<noteq> None)" (is "keeps ?I _ ?post")
    if "set more \<subseteq> set rs" for more
  proof (rule keeps_act [OF settled_keeps [OF rebase_still]])
    show "\<forall>r \<in> set more. journal_ok (lb_nfc (po_lib P)) r" using that js by blast
    show "batch_writable (lb_nfc (po_lib P)) b" by (rule wr)
    fix c assume "\<forall>x. Inr c = Inr x \<longrightarrow> batch_writable (lb_nfc (po_lib P)) x \<and> same_but_carried b x"
    then have c: "same_but_carried b c" "committable (po_lib P) keys policy rs c" using committable_same [OF b] by simp_all
    have check: "keeps ?I (candidate_check P c) (\<lambda>res. res = Inr () \<longrightarrow> fitting c (view_of s))"
      by (rule settled_keeps [OF candidate_fitting [OF c(2) s]])
    have stand: "keeps ?I (erring IndexFailed (ip_checkpoint (po_index P))) (\<lambda>r. r = Ok (ix_checkpoint s))"
      by (rule keeps_erring, rule settled_keeps, rule keepsI) (simp add: still_def ip_checkpoint_eq)
    show "keeps ?I (act (candidate_check P c) (\<lambda>_.
        act (erring IndexFailed (ip_checkpoint (po_index P))) (\<lambda>committed. gives (more, c, committed)))) ?post"
    proof (rule keeps_act [OF check])
      fix x :: unit assume "Inr x = Inr () \<longrightarrow> fitting c (view_of s)"
      then have "fitting c (library_after rs (length rs))" using s(2) by simp
      then show "keeps ?I (act (erring IndexFailed (ip_checkpoint (po_index P))) (\<lambda>committed. gives (more, c, committed))) ?post"
        by (intro keeps_act [OF stand] keeps_yields) (use c at in auto)
    qed simp
  qed simp
  show ?thesis
  proof (cases r)
    case (Inl e)
    then show ?thesis using r w by (simp add: prepare_def act_def)
  next
    case (Inr xs)
    from keepsD [OF rest [OF more [OF Inr]] w] obtain v r' where
      v: "act (rebase P b xs) (\<lambda>b.
         act (candidate_check P b) (\<lambda>_.
         act (erring IndexFailed (ip_checkpoint (po_index P))) (\<lambda>committed. gives (xs, b, committed)))) w = Some (v, r')"
        "settled keys rs base s v"
        "\<And>more' c committed. r' = Inr (more', c, committed) \<Longrightarrow> more' = xs \<and> same_but_carried b c \<and>
           committable (po_lib P) keys policy rs c \<and> fitting c (library_after rs (length rs)) \<and> committed \<noteq> None" by blast
    have "prepare P keys policy caught since b seen w = Some (v, r')"
      unfolding prepare_def
      using v(1) by (simp only: act_run [where m = "read_intervening P keys policy caught since seen", OF r [unfolded Inr]])
    then show ?thesis using v(2,3) more [OF Inr] by blast
  qed
qed

text \<open>Where the Index does not stand at the newest record yet.\<close>

definition ready :: "control_keys \<Rightarrow> journal_record list \<Rightarrow> nat \<Rightarrow> 'w \<Rightarrow> bool" where
  "ready keys rs base w \<longleftrightarrow> (\<exists>k. settled keys rs base (catalog w) w \<and> index_ok (catalog w) \<and> k \<le> length rs \<and>
     view_of (catalog w) = library_after rs k \<and> within_reach P keys (objects w) base k)"

lemma reach_base:
  assumes "storage_holds P keys objs rs base" and "k \<le> length rs" and "within_reach P keys objs base k"
  shows "base \<le> length rs"
proof (cases "base \<le> k")
  case False
  then obtain g where g: "base \<le> Suc (gen g)" "snapshot_opens_at P keys objs g" using assms(3) by (auto simp: within_reach_def)
  then obtain i bytes where "(i, bytes) \<in> set objs" "name_ok (IndexSnapshotName g)" "oi_name i = show_name (IndexSnapshotName g)"
    by (auto simp: snapshot_opens_at_def)
  then have "gen g < length rs" using assms(1) unfolding storage_holds_def by fastforce
  then show ?thesis using g(1) by simp
qed (use assms(2) in simp)

lemma waiting_ready: "base \<le> length rs \<Longrightarrow> waiting keys rs base w \<Longrightarrow> ready keys rs base w"
proof -
  assume base: "base \<le> length rs" and "waiting keys rs base w"
  then obtain s where s: "settled keys rs base s w" "index_ok s" "view_of s = library_after rs (length rs)" by (auto simp: waiting_def)
  then have "catalog w = s" by (auto simp: settled_def still_def)
  then show "ready keys rs base w" using s base unfolding ready_def by (intro exI [of _ "length rs"]) (simp add: within_reach_def)
qed

lemma catch_up_lands:
  assumes hist: "history_ok rs" "rs \<noteq> []" and w: "ready keys rs base w"
  shows "\<exists>v r. catch_up P keys retry w = Some (v, r) \<and> (\<forall>e. r = Inl e \<longrightarrow> ready keys rs base v) \<and>
    (\<forall>caught. r = Inr caught \<longrightarrow> waiting keys rs base v \<and> caught_head_generation caught = Some (Generation (length rs - 1)) \<and>
       files (walked (map fst (objects v))) (cu_listing caught))"
proof -
  have short: "length rs \<le> max_format_integer" using hist by (simp add: history_ok_def)
  obtain k where s: "settled keys rs base (catalog w) w" and ix: "index_ok (catalog w)" and k: "k \<le> length rs"
      "view_of (catalog w) = library_after rs k" "within_reach P keys (objects w) base k"
    using w by (auto simp: ready_def)
  have st: "ok w" "storage_holds P keys (objects w) rs base" using s unfolding settled_iff [OF short] by simp_all
  show ?thesis
  proof (cases "pages w None \<le> max_pages")
    case True
    from catch_up_converges [OF st(1) ix True hist(1) st(2) k, of retry] obtain v caught where
      v: "catch_up P keys retry w = Some (v, Ok caught)" "view_of (catalog v) = library_after rs (length rs)" "index_ok (catalog v)"
        "ok v" "objects v = objects w" "caught_head_generation caught = Some (Generation (length rs - 1))"
        "files (walked (map fst (objects w))) (cu_listing caught)"
      using hist(2) by auto
    have "settled keys rs base (catalog v) v" unfolding settled_iff [OF short] using v st by simp
    then have "waiting keys rs base v" using v by (auto simp: waiting_def)
    then show ?thesis using v by auto
  next
    case False
    from listing_at [OF st(1), of retry] obtain r where r: "listing_read P retry w = Some (w, r)" "\<forall>l. r \<noteq> Inr l"
      using False by blast
    then obtain e where "r = Inl e" by (cases r) auto
    then have "catch_up P keys retry w = Some (w, Inl e)" using r(1) by (simp add: catch_up_def act_def)
    then show ?thesis using w by auto
  qed
qed

definition ended ::
  "control_keys \<Rightarrow> journal_record list \<Rightarrow> nat \<Rightarrow> prepared_batch \<Rightarrow> (commit_error \<times> run_notes) + (commit_outcome \<times> run_notes) \<Rightarrow>
   'w \<Rightarrow> bool" where
  "ended keys rs base b r w \<longleftrightarrow>
     (case r of Inl _ \<Rightarrow> ready keys rs base w | Inr (out, _) \<Rightarrow> landed keys rs base b (co_record out) w)"

lemma next_generation_ok: "generation_next g = Inr h \<Longrightarrow> generation_ok h"
  by (cases h) (auto simp: generation_next_def generation_new_def generation_ok_def split: if_splits)

lemma examine_lands:
  assumes "libraries_ok (po_lib P)"
  shows "keeps (settled keys rs base s) (examine_committed P keys policy caught (Some k) nts)
    (\<lambda>r. \<forall>x nts'. r = Inr (x, nts') \<longrightarrow> generation_ok (ex_next x))"
  unfolding examine_committed_def option.case
proof (rule keeps_matched [OF settled_keeps [OF examine_still [OF assms]]])
  fix answer :: "commit_error + examined"
  assume "\<forall>x. answer = Inr x \<longrightarrow> generation_next (kc_generation (cp_keyring k)) = Inr (ex_next x)"
  then have "\<forall>x. answer = Inr x \<longrightarrow> generation_ok (ex_next x)" using next_generation_ok by blast
  then show "keeps (settled keys rs base s) (let nts = if spoke answer then nts\<lparr>rn_short := map_option report_examined (rn_short nts)\<rparr> else nts
      in case answer of Inl e \<Rightarrow> fails (e, nts) | Inr x \<Rightarrow> gives (x, nts))
    (\<lambda>r. \<forall>x nts'. r = Inr (x, nts') \<longrightarrow> generation_ok (ex_next x))"
    by (cases answer) (auto simp: Let_def intro: keeps_yields)
qed

lemma attempts_land:
  assumes b: "committable (po_lib P) keys policy rs b" and base: "base \<le> length rs"
    and seen: "set seen \<subseteq> set rs" and w: "ready keys rs base w"
  shows "\<exists>v r. attempts_from P keys policy b since n wrote seen nts w = Some (v, r) \<and> ended keys rs base b r v"
  using b seen w
proof (induction "py_attempts policy - n" arbitrary: n seen nts w)
  case 0
  then show ?case by (simp add: attempts_from.simps yields_runs ended_def)
next
  case (Suc m)
  note b = Suc.prems(1)
  have more: "n < py_attempts policy" using Suc(2) by simp
  have hist: "history_ok rs" "rs \<noteq> []" and L: "libraries_ok (po_lib P)" using b by (simp_all add: committable_def)
  from catch_up_lands [OF hist Suc.prems(3), of "py_retry policy"] obtain v r where
    v: "catch_up P keys (py_retry policy) w = Some (v, r)" "\<And>e. r = Inl e \<Longrightarrow> ready keys rs base v"
      "\<And>caught. r = Inr caught \<Longrightarrow> waiting keys rs base v \<and> caught_head_generation caught = Some (Generation (length rs - 1)) \<and>
         files (walked (map fst (objects v))) (cu_listing caught)" by blast
  show ?case
  proof (cases r)
    case (Inl e)
    then show ?thesis using v more by (simp add: attempts_from.simps [of P keys policy b since n] act_def erring_def matched_def yields_runs ended_def)
  next
    case (Inr caught)
    obtain s where s: "settled keys rs base s v" "index_ok s" "view_of s = library_after rs (length rs)"
      using v(3) [OF Inr] by (auto simp: waiting_def)
    have head: "caught_head_generation caught = Some (Generation (length rs - 1))"
      and l: "files (walked (map fst (objects v))) (cu_listing caught)" and okv: "ok v"
      using v(3) [OF Inr] s(1) by (auto simp: settled_def still_def)
    then have cu: "cu_head caught = Some (ControlHead (Generation (length rs - 1)))"
      by (cases "cu_head caught") (auto simp: caught_head_generation_def control_head.expand)
    have wait: "ready keys rs base u" if "settled keys rs base s u" for u
      using that s(2,3) by (intro waiting_ready [OF base]) (auto simp: waiting_def)
    from prepare_lands [OF b s(2,3,1) l head Suc.prems(2), of since] obtain v1 r1 where
      v1: "prepare P keys policy caught since b seen v = Some (v1, r1)" "settled keys rs base s v1"
        "\<And>more c committed. r1 = Inr (more, c, committed) \<Longrightarrow> set more \<subseteq> set rs \<and> same_but_carried b c \<and>
          committable (po_lib P) keys policy rs c \<and> fitting c (library_after rs (length rs)) \<and> committed \<noteq> None" by blast
    let ?go = "\<lambda>prepared. act (examine_committed P keys policy caught (snd (snd prepared)) nts) (\<lambda>examined.
               let (repair, e) = take_repair (fst examined);
                   nts = (snd examined)\<lparr>rn_repairs := rn_repairs (snd examined) @ (case repair of Some r \<Rightarrow> [r] | None \<Rightarrow> [])\<rparr>
               in act (erring (\<lambda>e. (e, nts))
                        (land P keys policy caught (snd (snd prepared)) e (fst (snd prepared)) (n + 1))) (\<lambda>landed.
                    case landed of
                      Some outcome \<Rightarrow> gives (outcome, nts)
                    | None \<Rightarrow> attempts_from P keys policy b since (n + 1) wrote (fst prepared) nts))"
    have run: "attempts_from P keys policy b since n wrote seen nts w = act (erring (\<lambda>e. (e, nts)) (prepare P keys policy caught since b seen)) ?go v"
    proof -
      have "erring (\<lambda>e. (e, nts)) (catch_up P keys (py_retry policy)) w = Some (v, Ok caught)"
        using v(1) Inr by (simp add: erring_def matched_def yields_runs)
      note step = act_run [where m = "erring (\<lambda>e. (e, nts)) (catch_up P keys (py_retry policy))", OF this]
      show ?thesis using more by (simp add: attempts_from.simps [of P keys policy b since n] step cu)
    qed
    show ?thesis
    proof (cases r1)
      case (Inl e)
      then show ?thesis using v1(1) wait [OF v1(2)] by (simp add: run act_def erring_def matched_def yields_runs ended_def)
    next
      case (Inr prepared)
      obtain seen' c k where p: "prepared = (seen', c, Some k)" using v1(3) Inr by (cases prepared) auto
      have c: "set seen' \<subseteq> set rs" "same_but_carried b c" "committable (po_lib P) keys policy rs c" "fitting c (library_after rs (length rs))"
        using v1(3) [of seen' c "Some k"] Inr p by simp_all
      from keepsD [OF examine_lands [OF L] v1(2)] obtain v2 r2 where
        v2: "examine_committed P keys policy caught (Some k) nts v1 = Some (v2, r2)" "settled keys rs base s v2"
          "\<And>x nts'. r2 = Inr (x, nts') \<Longrightarrow> generation_ok (ex_next x)" by blast
      have run2: "attempts_from P keys policy b since n wrote seen nts w = ?go prepared v1"
        unfolding run
        by (rule act_run [where m = "erring (\<lambda>e. (e, nts)) (prepare P keys policy caught since b seen)"])
          (use v1(1) in \<open>simp add: erring_def matched_def yields_runs Inr\<close>)
      show ?thesis
      proof (cases r2)
        case (Inl e)
        then show ?thesis using v2(1) wait [OF v2(2)] unfolding run2 by (cases e) (simp add: act_def p ended_def)
      next
        case (Inr examined)
        obtain x nts2 where x: "examined = (x, nts2)" by fastforce
        obtain repair e where e: "take_repair x = (repair, e)" by fastforce
        then have eok: "generation_ok (ex_next e)" using v2(3) [of x nts2] Inr x by (auto simp: take_repair_def)
        let ?nts = "nts2\<lparr>rn_repairs := rn_repairs nts2 @ (case repair of Some r \<Rightarrow> [r] | None \<Rightarrow> [])\<rparr>"
        from ensuresD [OF land_lands [OF c(3) s(2,3) c(4,2) cu okv l eok] v2(2), of "Some k" "n + 1"] obtain v3 r3 where
          v3: "land P keys policy caught (Some k) e c (n + 1) v2 = Some (v3, r3)"
            "case r3 of Inr (Some out) \<Rightarrow> landed keys rs base b (co_record out) v3 | _ \<Rightarrow> waiting keys rs base v3" by blast
        have run3: "attempts_from P keys policy b since n wrote seen nts w =
            act (erring (\<lambda>e. (e, ?nts)) (land P keys policy caught (Some k) e c (n + 1))) (\<lambda>landed.
              case landed of Some outcome \<Rightarrow> gives (outcome, ?nts) | None \<Rightarrow> attempts_from P keys policy b since (n + 1) wrote seen' ?nts) v2"
          unfolding run2 p prod.sel act_run [where m = "examine_committed P keys policy caught (Some k) nts", OF v2(1) [unfolded Inr x]]
          by (simp only: e Let_def prod.case)
        show ?thesis
        proof (cases "r3 = Inr None")
          case True
          then have "ready keys rs base v3" using v3(2) waiting_ready [OF base] by simp
          moreover have "m = py_attempts policy - (n + 1)" using Suc(2) by simp
          ultimately show ?thesis using Suc(1) [of "n + 1" seen' v3 ?nts] b c(1) v3(1) True
            unfolding run3 by (simp add: act_def erring_def matched_def yields_runs)
        next
          case False
          then show ?thesis using v3 waiting_ready [OF base, of keys v3]
            unfolding run3 by (auto simp: act_def erring_def matched_def yields_runs ended_def split: sum.splits option.splits)
        qed
      qed
    qed
  qed
qed

text \<open>The whole commit.\<close>

lemma commit_batch_lands:
  assumes b: "committable (po_lib P) keys policy rs b" and w: "ready keys rs base w"
  shows "\<exists>v r. commit_batch P keys policy b short w = Some (v, r) \<and>
    (case r of Inl _ \<Rightarrow> ready keys rs base v | Inr (out, _) \<Rightarrow> landed keys rs base b (co_record out) v)"
proof -
  have hist: "length rs \<le> max_format_integer" using b by (simp add: committable_def)
  obtain k where k: "settled keys rs base (catalog w) w" "k \<le> length rs" "within_reach P keys (objects w) base k"
    using w by (auto simp: ready_def)
  have st: "ok w" "storage_holds P keys (objects w) rs base" using k(1) unfolding settled_iff [OF hist] by simp_all
  have base: "base \<le> length rs" by (rule reach_base [OF st(2) k(2,3)])
  let ?nts = "\<lparr>rn_repairs = [], rn_short = short\<rparr>"
  have "\<exists>since. attempt_until_committed P keys policy b short w = attempts_from P keys policy b since 0 False [] ?nts w"
  proof (cases "pb_base b")
    case None
    have "erring (\<lambda>e. (IndexFailed e, ?nts)) (ip_checkpoint (po_index P)) w = Some (w, Ok (ix_checkpoint (catalog w)))"
      by (rule erring_runs [of _ w w "Ok (ix_checkpoint (catalog w))", simplified]) (rule ip_checkpoint_eq [OF st(1)])
    then have "attempt_until_committed P keys policy b short w =
        attempts_from P keys policy b (map_option cp_head (ix_checkpoint (catalog w))) 0 False [] ?nts w"
      by (simp add: attempt_until_committed_def Let_def None act_def yields_runs)
    then show ?thesis ..
  qed (simp add: attempt_until_committed_def, blast)
  then obtain since where run: "attempt_until_committed P keys policy b short w = attempts_from P keys policy b since 0 False [] ?nts w" by blast
  from attempts_land [OF b base _ w, of "[]" since 0 False ?nts] obtain v r where
    v: "attempts_from P keys policy b since 0 False [] ?nts w = Some (v, r)" "ended keys rs base b r v" by auto
  then show ?thesis
    unfolding commit_batch_def matched_runs [where m = "attempt_until_committed P keys policy b short", OF run [THEN trans, OF v(1)]]
    by (cases r) (auto simp: ended_def yields_runs)
qed

end

end
