(* ===== verification/Chunk_Geometry.thy ===== *)
theory Chunk_Geometry
  imports Cipher
begin

text \<open>
  \<open>coffret-format/src/container_reader\<close> \<open>chunk_layout.rs\<close>, \<open>chunk_run.rs\<close>, \<open>parcels.rs\<close> and the
  geometry of \<open>container_outline.rs\<close>: where every chunk of a Container object stands, which chunks a
  range of its plaintext needs, and how the object is cut into parcels. Every sum and product the code
  leaves unchecked is one that wraps here; the lemmas show that none does once \<open>ChunkLayout::of\<close> has
  accepted a length, that the chunks tile the plaintext and the object, that a covering run covers and
  is the shortest that does, and that the parcels divide the chunks.
\<close>

record chunk_layout =
  cl_chunk_size :: nat
  cl_chunk_count :: nat
  cl_body_start :: nat
  cl_padded_len :: nat
  cl_object_len :: nat

definition chunk_layout_of :: "header \<Rightarrow> nat \<Rightarrow> format_error + chunk_layout" where
  "chunk_layout_of header padded_len =
     (let chunk_size = chunk_bytes (h_chunk_size header);
          chunk_count = max (div_ceil padded_len chunk_size) 1;
          body_start = wadd64 header_len (h_meta_len header)
      in and_then
           (ok_or StreamTooLong
              (Option.bind (checked_mul64 chunk_count tag_length) (\<lambda>tags.
               Option.bind (checked_add64 tags padded_len) (\<lambda>body.
                 checked_add64 body body_start))))
           (\<lambda>object_len.
              Ok \<lparr>cl_chunk_size = chunk_size, cl_chunk_count = chunk_count, cl_body_start = body_start,
                  cl_padded_len = padded_len, cl_object_len = object_len\<rparr>))"

definition final_index :: "chunk_layout \<Rightarrow> nat" where
  "final_index l = wsub64 (cl_chunk_count l) 1"

definition plaintext_start_of :: "chunk_layout \<Rightarrow> nat \<Rightarrow> nat" where
  "plaintext_start_of l i = wmul64 i (cl_chunk_size l)"

definition plaintext_len_of :: "chunk_layout \<Rightarrow> nat \<Rightarrow> nat" where
  "plaintext_len_of l i =
     (if i < final_index l then cl_chunk_size l
      else wsub64 (cl_padded_len l) (wmul64 (final_index l) (cl_chunk_size l)))"

definition message_len_of :: "chunk_layout \<Rightarrow> nat \<Rightarrow> nat" where
  "message_len_of l i = wadd64 (plaintext_len_of l i) tag_length"

definition message_start_of :: "chunk_layout \<Rightarrow> nat \<Rightarrow> nat" where
  "message_start_of l i = wadd64 (cl_body_start l) (wmul64 i (wadd64 (cl_chunk_size l) tag_length))"

record chunk_run =
  run_layout :: chunk_layout
  run_first :: nat
  run_count :: nat

definition chunk_run_new :: "chunk_layout \<Rightarrow> nat \<Rightarrow> nat \<Rightarrow> chunk_run" where
  "chunk_run_new l f c = \<lparr>run_layout = l, run_first = f, run_count = c\<rparr>"

definition run_plaintext_start :: "chunk_run \<Rightarrow> nat" where
  "run_plaintext_start r = plaintext_start_of (run_layout r) (run_first r)"

definition run_plaintext :: "chunk_run \<Rightarrow> nat \<times> nat" where
  "run_plaintext r =
     (let last = wsub64 (wadd64 (run_first r) (run_count r)) 1
      in (run_plaintext_start r,
          wadd64 (plaintext_start_of (run_layout r) last) (plaintext_len_of (run_layout r) last)))"

definition run_ciphertext :: "chunk_run \<Rightarrow> nat \<times> nat" where
  "run_ciphertext r =
     (let last = wsub64 (wadd64 (run_first r) (run_count r)) 1
      in (message_start_of (run_layout r) (run_first r),
          wadd64 (message_start_of (run_layout r) last) (message_len_of (run_layout r) last)))"

section \<open>An outline and its chunks\<close>

record container_outline =
  o_header :: header
  o_kind :: container_kind
  o_pad_len :: nat
  o_entries :: "entry_metadata list"
  o_layout :: chunk_layout

definition all_chunks :: "container_outline \<Rightarrow> chunk_run" where
  "all_chunks outline = chunk_run_new (o_layout outline) 0 (cl_chunk_count (o_layout outline))"

definition chunks_covering :: "container_outline \<Rightarrow> nat \<times> nat \<Rightarrow> format_error + chunk_run" where
  "chunks_covering outline rng =
     (let (start, stop) = rng; l = o_layout outline
      in if start > stop \<or> stop > cl_padded_len l
         then Err (PlaintextRangeOutOfBounds start stop (cl_padded_len l))
         else let chunk_size = chunk_bytes (h_chunk_size (o_header outline));
                  final = final_index l;
                  first = min (start div chunk_size) final;
                  last = (if stop > start then min (wsub64 stop 1 div chunk_size) final else first)
              in Ok (chunk_run_new l first (wadd64 (wsub64 last first) 1)))"

definition entry_numbered :: "container_outline \<Rightarrow> entry_number \<Rightarrow> entry_metadata option" where
  "entry_numbered outline n =
     Option.bind (to_usize (number n))
       (\<lambda>i. if i < length (o_entries outline) then Some (o_entries outline ! i) else None)"

section \<open>Parcels\<close>

definition parcel_len_default :: nat where
  "parcel_len_default = 32 * 1024 * 1024"

record parcels =
  pc_layout :: chunk_layout
  per_parcel :: nat

definition parcels_of :: "container_outline \<Rightarrow> nat \<Rightarrow> parcels" where
  "parcels_of outline len =
     (let chunk_size = chunk_bytes (h_chunk_size (o_header outline))
      in \<lparr>pc_layout = o_layout outline, per_parcel = max (len div chunk_size) 1\<rparr>)"

definition parcel_count :: "parcels \<Rightarrow> nat" where
  "parcel_count p = div_ceil (cl_chunk_count (pc_layout p)) (per_parcel p)"

definition parcel_run :: "parcels \<Rightarrow> nat \<Rightarrow> chunk_run option" where
  "parcel_run p i =
     (if i \<ge> parcel_count p then None
      else let first = wmul64 i (per_parcel p);
               count = min (per_parcel p) (wsub64 (cl_chunk_count (pc_layout p)) first)
           in Some (chunk_run_new (pc_layout p) first count))"

definition parcels_overlapping ::
  "parcels \<Rightarrow> container_outline \<Rightarrow> entry_extent \<Rightarrow> format_error + (nat \<times> nat)" where
  "parcels_overlapping p outline ext =
     and_then (chunks_covering outline (extent_range ext)) (\<lambda>chunks.
       let first = run_first chunks div per_parcel p;
           last = wsub64 (wadd64 (run_first chunks) (run_count chunks)) 1 div per_parcel p
       in Ok (first, wadd64 last 1))"

section \<open>No sum wraps\<close>

text \<open>What \<open>ChunkLayout::of\<close> has checked.\<close>

definition layout_ok :: "chunk_layout \<Rightarrow> bool" where
  "layout_ok l \<longleftrightarrow>
     0 < cl_chunk_size l \<and> cl_chunk_size l < 2 ^ 32 \<and>
     cl_chunk_count l = max (div_ceil (cl_padded_len l) (cl_chunk_size l)) 1 \<and>
     cl_object_len l = cl_body_start l + cl_padded_len l + cl_chunk_count l * tag_length \<and>
     cl_object_len l < 2 ^ 64"

lemma chunk_layout_of_Ok_iff:
  assumes "header_ok h"
  shows "chunk_layout_of h n = Inr l \<longleftrightarrow>
    (let c = max (div_ceil n (chunk_bytes (h_chunk_size h))) 1; b = header_len + h_meta_len h
     in b + n + c * tag_length < 2 ^ 64 \<and>
        l = \<lparr>cl_chunk_size = chunk_bytes (h_chunk_size h), cl_chunk_count = c, cl_body_start = b,
             cl_padded_len = n, cl_object_len = b + n + c * tag_length\<rparr>)"
proof -
  have "header_len + h_meta_len h < 2 ^ 64"
    using assms by (simp add: header_ok_def max_meta_len_def header_len_def)
  then have b: "wadd64 header_len (h_meta_len h) = header_len + h_meta_len h" by (rule wadd64_small)
  show ?thesis
    unfolding chunk_layout_of_def Let_def b
    by (auto simp: res_simps bind_eq_Some_conv u64_simps algebra_simps)
qed

lemma chunk_layout_of_ok:
  assumes "header_ok h" and "chunk_layout_of h n = Inr l"
  shows "layout_ok l" and "cl_chunk_size l = chunk_bytes (h_chunk_size h)" and "cl_padded_len l = n"
    and "cl_body_start l = header_len + h_meta_len h"
  using assms by (auto simp: chunk_layout_of_Ok_iff Let_def layout_ok_def header_ok_def chunk_size_ok_def)

lemma layout_bounds:
  assumes "layout_ok l"
  shows "0 < cl_chunk_count l"
    and "(cl_chunk_count l - 1) * cl_chunk_size l \<le> cl_padded_len l"
    and "cl_padded_len l \<le> cl_chunk_count l * cl_chunk_size l"
    and "0 < cl_padded_len l \<Longrightarrow> (cl_chunk_count l - 1) * cl_chunk_size l < cl_padded_len l"
    and "cl_body_start l + cl_padded_len l + cl_chunk_count l * 16 < 2 ^ 64"
proof -
  let ?n = "cl_padded_len l" and ?s = "cl_chunk_size l" and ?c = "cl_chunk_count l"
  have s: "0 < ?s" and c: "?c = max (div_ceil ?n ?s) 1" using assms by (auto simp: layout_ok_def)
  show pos: "0 < ?c" by (simp add: c)
  have b: "?n \<le> div_ceil ?n ?s * ?s" "div_ceil ?n ?s * ?s < ?n + ?s"
    using div_ceil_bounds [OF s] by auto
  have "div_ceil ?n ?s * ?s \<le> ?c * ?s" by (simp add: c)
  with b show "?n \<le> ?c * ?s" by linarith
  show lt: "(?c - 1) * ?s < ?n" if "0 < ?n"
  proof -
    have "div_ceil ?n ?s \<noteq> 0" using that s by simp
    then have "?c = div_ceil ?n ?s" by (simp add: c)
    with b have "?c * ?s < ?n + ?s" by simp
    with that have "?c * ?s - ?s < ?n" by linarith
    then show ?thesis by (simp add: diff_mult_distrib)
  qed
  show "(?c - 1) * ?s \<le> ?n"
    using lt by (cases "?n = 0") (simp_all add: c)
  show "cl_body_start l + ?n + ?c * 16 < 2 ^ 64"
    using assms by (simp add: layout_ok_def tag_length_def)
qed

lemma final_index_eq: "layout_ok l \<Longrightarrow> final_index l = cl_chunk_count l - 1"
  using layout_bounds(1,5) [of l] by (simp add: final_index_def wsub64_small)

lemma chunk_start_le:
  assumes "layout_ok l" and "i < cl_chunk_count l"
  shows "i * cl_chunk_size l \<le> cl_padded_len l"
proof -
  have "i * cl_chunk_size l \<le> (cl_chunk_count l - 1) * cl_chunk_size l"
    using assms(2) by (intro mult_le_mono1) simp
  then show ?thesis using layout_bounds(2) [OF assms(1)] by linarith
qed

lemma plaintext_start_eq:
  assumes "layout_ok l" and "i < cl_chunk_count l"
  shows "plaintext_start_of l i = i * cl_chunk_size l"
proof -
  have "i * cl_chunk_size l < 2 ^ 64"
    using chunk_start_le [OF assms] layout_bounds(5) [OF assms(1)] by linarith
  then show ?thesis by (simp add: plaintext_start_of_def wmul64_small)
qed

text \<open>A chunk's plaintext is a chunk size long, or what is left.\<close>

lemma plaintext_len_eq:
  assumes "layout_ok l" and "i < cl_chunk_count l"
  shows "plaintext_len_of l i = min (cl_chunk_size l) (cl_padded_len l - i * cl_chunk_size l)"
proof (cases "i < cl_chunk_count l - 1")
  case True
  then have "(i + 1) * cl_chunk_size l \<le> (cl_chunk_count l - 1) * cl_chunk_size l"
    by (intro mult_le_mono1) simp
  then have "i * cl_chunk_size l + cl_chunk_size l \<le> cl_padded_len l"
    using layout_bounds(2) [OF assms(1)] by simp
  with True show ?thesis
    using assms(1) by (simp add: plaintext_len_of_def final_index_eq)
next
  case False
  then have i: "i = cl_chunk_count l - 1" using assms(2) by simp
  have "i * cl_chunk_size l \<le> cl_padded_len l" by (rule chunk_start_le [OF assms])
  moreover have "cl_padded_len l - i * cl_chunk_size l \<le> cl_chunk_size l"
    using layout_bounds(1,3) [OF assms(1)] by (simp add: i diff_mult_distrib)
  moreover have "cl_padded_len l < 2 ^ 64" using layout_bounds(5) [OF assms(1)] by linarith
  ultimately show ?thesis
    using False assms(1) by (simp add: plaintext_len_of_def final_index_eq i wmul64_small wsub64_small)
qed

lemma plaintext_end_eq:
  assumes "layout_ok l" and "i < cl_chunk_count l"
  shows "plaintext_start_of l i + plaintext_len_of l i = min (cl_padded_len l) ((i + 1) * cl_chunk_size l)"
  using chunk_start_le [OF assms] unfolding plaintext_start_eq [OF assms] plaintext_len_eq [OF assms] min_def
  by (simp add: add_mult_distrib) linarith

lemma message_len_eq:
  assumes "layout_ok l" and "i < cl_chunk_count l"
  shows "message_len_of l i = plaintext_len_of l i + tag_length"
proof -
  have "plaintext_len_of l i \<le> cl_padded_len l" by (simp add: plaintext_len_eq [OF assms])
  moreover have "16 \<le> cl_chunk_count l * 16" using layout_bounds(1) [OF assms(1)] by simp
  ultimately have "plaintext_len_of l i + tag_length < 2 ^ 64"
    using layout_bounds(5) [OF assms(1)] unfolding tag_length_def by linarith
  then show ?thesis by (simp add: message_len_of_def wadd64_small)
qed

lemma message_start_eq:
  assumes "layout_ok l" and "i < cl_chunk_count l"
  shows "message_start_of l i = cl_body_start l + i * (cl_chunk_size l + tag_length)"
proof -
  have "i * 16 \<le> cl_chunk_count l * 16" using assms(2) by simp
  then have "cl_body_start l + (i * cl_chunk_size l + i * 16) < 2 ^ 64"
    using chunk_start_le [OF assms] layout_bounds(5) [OF assms(1)] by linarith
  then have sum: "cl_body_start l + i * (cl_chunk_size l + tag_length) < 2 ^ 64"
    by (simp add: tag_length_def algebra_simps)
  moreover have "cl_chunk_size l + tag_length < 2 ^ 64" using assms(1) by (simp add: layout_ok_def tag_length_def)
  moreover have "i * (cl_chunk_size l + tag_length) < 2 ^ 64" using sum by linarith
  ultimately show ?thesis by (simp add: message_start_of_def wmul64_small wadd64_small)
qed

text \<open>The messages stand one after another, from the end of the meta section to the end of the object.\<close>

lemma message_next:
  assumes "layout_ok l" and "Suc i < cl_chunk_count l"
  shows "message_start_of l (Suc i) = message_start_of l i + message_len_of l i"
proof -
  have i: "i < cl_chunk_count l" using assms(2) by simp
  have "Suc i * cl_chunk_size l \<le> cl_padded_len l" by (rule chunk_start_le [OF assms])
  then show ?thesis
    by (simp add: message_start_eq [OF assms] message_start_eq [OF assms(1) i] message_len_eq [OF assms(1) i]
        plaintext_len_eq [OF assms(1) i])
qed

lemma message_last:
  assumes "layout_ok l"
  shows "message_start_of l (final_index l) + message_len_of l (final_index l) = cl_object_len l"
proof -
  obtain c where c: "cl_chunk_count l = Suc c" using layout_bounds(1) [OF assms] by (cases "cl_chunk_count l") auto
  then have i: "c < cl_chunk_count l" "final_index l = c" using final_index_eq [OF assms] by simp_all
  have "c * cl_chunk_size l \<le> cl_padded_len l" "cl_padded_len l \<le> Suc c * cl_chunk_size l"
    using layout_bounds(2,3) [OF assms] c by simp_all
  then show ?thesis
    using assms by (simp add: i message_start_eq [OF assms i(1)] message_len_eq [OF assms i(1)]
        plaintext_len_eq [OF assms i(1)] layout_ok_def c algebra_simps)
qed

section \<open>Runs\<close>

definition run_ok :: "chunk_run \<Rightarrow> bool" where
  "run_ok r \<longleftrightarrow> layout_ok (run_layout r) \<and> 1 \<le> run_count r \<and>
     run_first r + run_count r \<le> cl_chunk_count (run_layout r)"

lemma run_last:
  assumes "run_ok r"
  shows "wsub64 (wadd64 (run_first r) (run_count r)) 1 = run_first r + run_count r - 1"
    and "run_first r + run_count r - 1 < cl_chunk_count (run_layout r)"
proof -
  have "cl_chunk_count (run_layout r) < 2 ^ 64"
    using assms layout_bounds(5) [of "run_layout r"] by (simp add: run_ok_def)
  with assms have "run_first r + run_count r < 2 ^ 64" "1 \<le> run_first r + run_count r"
    by (auto simp: run_ok_def)
  then show "wsub64 (wadd64 (run_first r) (run_count r)) 1 = run_first r + run_count r - 1"
    by (simp add: wadd64_small wsub64_small)
  show "run_first r + run_count r - 1 < cl_chunk_count (run_layout r)"
    using assms by (auto simp: run_ok_def)
qed

lemma run_plaintext_eq:
  assumes "run_ok r"
  shows "run_plaintext r = (run_first r * cl_chunk_size (run_layout r),
     min (cl_padded_len (run_layout r)) ((run_first r + run_count r) * cl_chunk_size (run_layout r)))"
proof -
  let ?l = "run_layout r" and ?last = "run_first r + run_count r - 1"
  have l: "layout_ok ?l" and f: "run_first r < cl_chunk_count ?l" and c: "1 \<le> run_count r"
    using assms by (auto simp: run_ok_def)
  have e: "plaintext_start_of ?l ?last + plaintext_len_of ?l ?last =
      min (cl_padded_len ?l) ((run_first r + run_count r) * cl_chunk_size ?l)"
    using plaintext_end_eq [OF l run_last(2) [OF assms]] c by simp
  moreover have "\<dots> < 2 ^ 64" using layout_bounds(5) [OF l] by linarith
  ultimately show ?thesis
    by (simp add: run_plaintext_def Let_def run_last(1) [OF assms] run_plaintext_start_def plaintext_start_eq [OF l f]
        wadd64_small del: One_nat_def)
qed

lemma run_ciphertext_eq:
  assumes "run_ok r"
  shows "run_ciphertext r = (message_start_of (run_layout r) (run_first r),
     cl_body_start (run_layout r) +
       min (cl_padded_len (run_layout r)) ((run_first r + run_count r) * cl_chunk_size (run_layout r)) +
       (run_first r + run_count r) * tag_length)"
proof -
  let ?l = "run_layout r" and ?last = "run_first r + run_count r - 1"
  have l: "layout_ok ?l" and c: "run_first r + run_count r = Suc ?last" using assms by (auto simp: run_ok_def)
  note last = run_last(2) [OF assms]
  have "plaintext_start_of ?l ?last + plaintext_len_of ?l ?last = min (cl_padded_len ?l) (Suc ?last * cl_chunk_size ?l)"
    using plaintext_end_eq [OF l last] by simp
  then have e: "message_start_of ?l ?last + message_len_of ?l ?last =
      cl_body_start ?l + min (cl_padded_len ?l) (Suc ?last * cl_chunk_size ?l) + Suc ?last * tag_length"
    unfolding message_start_eq [OF l last] message_len_eq [OF l last] plaintext_start_eq [OF l last]
    by (simp add: add_mult_distrib2)
  have "Suc ?last * tag_length \<le> cl_chunk_count ?l * 16" using last by (simp add: tag_length_def)
  then have "message_start_of ?l ?last + message_len_of ?l ?last < 2 ^ 64"
    using layout_bounds(5) [OF l] unfolding e by linarith
  with e show ?thesis
    unfolding run_ciphertext_def Let_def run_last(1) [OF assms] c [symmetric] by (simp only: wadd64_small)
qed

section \<open>Covering a range\<close>

definition outline_ok :: "container_outline \<Rightarrow> bool" where
  "outline_ok outline \<longleftrightarrow>
     layout_ok (o_layout outline) \<and> cl_chunk_size (o_layout outline) = chunk_bytes (h_chunk_size (o_header outline))"

lemma all_chunks_ok:
  assumes "outline_ok outline"
  shows "run_ok (all_chunks outline)" and "run_plaintext (all_chunks outline) = (0, cl_padded_len (o_layout outline))"
    and "run_ciphertext (all_chunks outline) = (cl_body_start (o_layout outline), cl_object_len (o_layout outline))"
proof -
  have l: "layout_ok (o_layout outline)" using assms by (simp add: outline_ok_def)
  show ok: "run_ok (all_chunks outline)"
    using l layout_bounds(1) [OF l] by (simp add: run_ok_def all_chunks_def chunk_run_new_def)
  show "run_plaintext (all_chunks outline) = (0, cl_padded_len (o_layout outline))"
    using layout_bounds(3) [OF l]
    by (simp add: run_plaintext_eq [OF ok]) (simp add: all_chunks_def chunk_run_new_def min_absorb1)
  show "run_ciphertext (all_chunks outline) = (cl_body_start (o_layout outline), cl_object_len (o_layout outline))"
    using layout_bounds(3) [OF l] message_start_eq [OF l layout_bounds(1) [OF l]] l
    by (simp add: run_ciphertext_eq [OF ok])
      (simp add: all_chunks_def chunk_run_new_def min_absorb1 layout_ok_def)
qed

lemma chunks_covering_Ok_iff:
  assumes "outline_ok outline"
  shows "(\<exists>r. chunks_covering outline (a, b) = Inr r) \<longleftrightarrow> a \<le> b \<and> b \<le> cl_padded_len (o_layout outline)"
  by (auto simp: chunks_covering_def Let_def)

lemma div_chunk_final:
  assumes "layout_ok l" and "p < cl_padded_len l"
  shows "p div cl_chunk_size l \<le> cl_chunk_count l - 1"
proof -
  have "p < cl_chunk_count l * cl_chunk_size l" using assms(2) layout_bounds(3) [OF assms(1)] by linarith
  then have "p div cl_chunk_size l < cl_chunk_count l"
    by (metis assms(1) div_less_iff_less_mult layout_ok_def)
  then show ?thesis by simp
qed

lemma chunks_covering_run:
  assumes "outline_ok outline" and "chunks_covering outline (a, b) = Inr r"
  shows "run_ok r" and "run_layout r = o_layout outline"
    and "a < b \<Longrightarrow> run_first r = a div cl_chunk_size (run_layout r) \<and>
           run_first r + run_count r - 1 = (b - 1) div cl_chunk_size (run_layout r)"
    and "a = b \<Longrightarrow> run_count r = 1"
proof -
  let ?l = "o_layout outline"
  define s f where "s = cl_chunk_size ?l" and "f = cl_chunk_count ?l - 1"
  have l: "layout_ok ?l" and s: "chunk_bytes (h_chunk_size (o_header outline)) = s"
    using assms(1) by (auto simp: outline_ok_def s_def)
  have ab: "a \<le> b" "b \<le> cl_padded_len ?l" using chunks_covering_Ok_iff [OF assms(1)] assms(2) by blast+
  have n: "cl_padded_len ?l + cl_chunk_count ?l * 16 < 2 ^ 64" using layout_bounds(5) [OF l] by linarith
  have f: "final_index ?l = f" using final_index_eq [OF l] by (simp add: f_def)
  define first last where "first = min (a div s) f"
    and "last = (if a < b then min ((b - 1) div s) f else first)"
  have "a < b \<Longrightarrow> wsub64 b 1 = b - 1" using ab n by (simp add: wsub64_small)
  then have r0: "r = chunk_run_new ?l first (wadd64 (wsub64 last first) 1)"
    using assms(2) ab by (auto simp: chunks_covering_def Let_def s f first_def last_def)
  have "a < b \<Longrightarrow> a div s \<le> (b - 1) div s" by (intro div_le_mono) linarith
  then have fl: "first \<le> last" "last \<le> f" by (auto simp: first_def last_def min_def)
  have "f < 2 ^ 64" using n by (simp add: f_def)
  with fl have "wadd64 (wsub64 last first) 1 = last - first + 1"
    using n layout_bounds(1) [OF l] by (simp add: wadd64_small wsub64_small f_def)
  then have r: "r = chunk_run_new ?l first (last - first + 1)" using r0 by simp
  then show "run_layout r = ?l" by (simp add: chunk_run_new_def)
  show "run_ok r"
    using r l fl layout_bounds(1) [OF l] by (auto simp: run_ok_def chunk_run_new_def f_def)
  show "a = b \<Longrightarrow> run_count r = 1" by (simp add: r chunk_run_new_def last_def)
  assume "a < b"
  moreover from this have "a div s \<le> f" "(b - 1) div s \<le> f"
    using div_chunk_final [OF l, of a] div_chunk_final [OF l, of "b - 1"] ab by (auto simp: s_def f_def)
  ultimately show "run_first r = a div cl_chunk_size (run_layout r) \<and>
      run_first r + run_count r - 1 = (b - 1) div cl_chunk_size (run_layout r)"
    using fl by (simp add: r chunk_run_new_def first_def last_def s_def [symmetric] min_absorb1)
qed

lemma chunks_covering_empty:
  assumes "outline_ok outline" and "chunks_covering outline (a, a) = Inr r"
  shows "run_first r = min (a div cl_chunk_size (o_layout outline)) (cl_chunk_count (o_layout outline) - 1)"
proof -
  have l: "layout_ok (o_layout outline)" and s: "chunk_bytes (h_chunk_size (o_header outline)) = cl_chunk_size (o_layout outline)"
    using assms(1) by (auto simp: outline_ok_def)
  show ?thesis using assms(2) final_index_eq [OF l] s by (auto simp: chunks_covering_def Let_def chunk_run_new_def split: if_splits)
qed

text \<open>The run covers the range, and a run that covers it has every chunk of this one.\<close>

lemma chunks_covering_covers:
  assumes "outline_ok outline" and "chunks_covering outline (a, b) = Inr r"
  shows "a < b \<Longrightarrow> fst (run_plaintext r) \<le> a \<and> b \<le> snd (run_plaintext r)"
    and "a < b \<Longrightarrow> run_ok q \<Longrightarrow> run_layout q = run_layout r \<Longrightarrow> fst (run_plaintext q) \<le> a \<Longrightarrow> b \<le> snd (run_plaintext q) \<Longrightarrow>
      run_first q \<le> run_first r \<and> run_first r + run_count r \<le> run_first q + run_count q"
proof -
  let ?l = "run_layout r" and ?s = "cl_chunk_size (run_layout r)"
  note r = chunks_covering_run [OF assms]
  have s: "0 < ?s" using r(1) by (simp add: run_ok_def layout_ok_def)
  have b: "b \<le> cl_padded_len ?l" using chunks_covering_Ok_iff [OF assms(1)] assms(2) r(2) by auto
  have c: "1 \<le> run_count r" using r(1) by (simp add: run_ok_def)
  {
    assume ab: "a < b"
    have "a div ?s * ?s \<le> a" by simp
    moreover have "b - 1 < ((b - 1) div ?s + 1) * ?s" using s by (simp add: dividend_less_div_times)
    moreover have "run_first r + run_count r = (b - 1) div ?s + 1" using r(3) [OF ab] c by linarith
    ultimately show "fst (run_plaintext r) \<le> a \<and> b \<le> snd (run_plaintext r)"
      using r(3) [OF ab] b ab by (simp add: run_plaintext_eq [OF r(1)])
    assume q: "run_ok q" "run_layout q = ?l" "fst (run_plaintext q) \<le> a" "b \<le> snd (run_plaintext q)"
    have "run_first q * ?s \<le> a" "b \<le> (run_first q + run_count q) * ?s"
      using q by (auto simp: run_plaintext_eq)
    then have "run_first q \<le> a div ?s" "(b - 1) div ?s < run_first q + run_count q"
      using s ab by (auto simp: less_eq_div_iff_mult_less_eq div_less_iff_less_mult)
    then show "run_first q \<le> run_first r \<and> run_first r + run_count r \<le> run_first q + run_count q"
      using r(3) [OF ab] c by linarith
  }
qed

section \<open>Parcels divide the chunks\<close>

definition parcels_ok :: "parcels \<Rightarrow> bool" where
  "parcels_ok p \<longleftrightarrow> layout_ok (pc_layout p) \<and> 1 \<le> per_parcel p \<and> per_parcel p < 2 ^ 64"

lemma parcels_of_ok: "outline_ok outline \<Longrightarrow> len < 2 ^ 64 \<Longrightarrow> parcels_ok (parcels_of outline len)"
  by (auto simp: parcels_ok_def parcels_of_def Let_def outline_ok_def intro: le_less_trans [OF div_le_dividend])

lemma parcel_run_eq:
  assumes "parcels_ok p"
  shows "parcel_run p i =
    (if i * per_parcel p < cl_chunk_count (pc_layout p)
     then Some (chunk_run_new (pc_layout p) (i * per_parcel p)
       (min (per_parcel p) (cl_chunk_count (pc_layout p) - i * per_parcel p)))
     else None)"
proof -
  let ?c = "cl_chunk_count (pc_layout p)" and ?k = "per_parcel p"
  have k: "0 < ?k" and c: "?c < 2 ^ 64" using assms layout_bounds(5) [of "pc_layout p"] by (auto simp: parcels_ok_def)
  have b: "?c \<le> div_ceil ?c ?k * ?k" "div_ceil ?c ?k * ?k < ?c + ?k" using div_ceil_bounds [OF k] by auto
  have iff: "i < div_ceil ?c ?k \<longleftrightarrow> i * ?k < ?c"
  proof
    assume "i < div_ceil ?c ?k"
    then have "(i + 1) * ?k \<le> div_ceil ?c ?k * ?k" by (intro mult_le_mono1) simp
    with b show "i * ?k < ?c" by simp
  next
    assume "i * ?k < ?c"
    with b have "i * ?k < div_ceil ?c ?k * ?k" by linarith
    then show "i < div_ceil ?c ?k" by simp
  qed
  show ?thesis
  proof (cases "i * ?k < ?c")
    case True
    with c have "wmul64 i ?k = i * ?k" by (intro wmul64_small) linarith
    with True iff c show ?thesis by (simp add: parcel_run_def parcel_count_def Let_def wsub64_small)
  next
    case False
    with iff show ?thesis by (simp add: parcel_run_def parcel_count_def)
  qed
qed

text \<open>A chunk belongs to exactly one parcel.\<close>

definition run_has :: "chunk_run \<Rightarrow> nat \<Rightarrow> bool" where
  "run_has r i \<longleftrightarrow> run_first r \<le> i \<and> i < run_first r + run_count r"

lemma parcel_of_chunk:
  assumes "parcels_ok p" and "c < cl_chunk_count (pc_layout p)"
  shows "(\<exists>r. parcel_run p i = Some r \<and> run_has r c) \<longleftrightarrow> i = c div per_parcel p"
proof -
  let ?k = "per_parcel p"
  have k: "0 < ?k" using assms by (simp add: parcels_ok_def)
  have "i = c div ?k \<longleftrightarrow> i * ?k \<le> c \<and> c < i * ?k + ?k"
    using k by (metis add.commute div_nat_eqI dividend_less_div_times div_times_less_eq_dividend mult.commute mult_Suc)
  then show ?thesis
    using assms by (auto simp: parcel_run_eq chunk_run_new_def run_has_def)
qed

lemma parcel_run_ok: "parcels_ok p \<Longrightarrow> parcel_run p i = Some r \<Longrightarrow> run_ok r \<and> run_layout r = pc_layout p"
  by (auto simp: parcel_run_eq run_ok_def chunk_run_new_def parcels_ok_def split: if_splits)

text \<open>The parcels an extent touches are the ones with a chunk of its covering run.\<close>

lemma parcels_overlapping_iff:
  assumes p: "parcels_ok p" "pc_layout p = o_layout outline" and o: "outline_ok outline"
    and ov: "parcels_overlapping p outline ext = Inr (lo, hi)"
  shows "\<exists>r. chunks_covering outline (extent_range ext) = Inr r \<and>
    (\<forall>i. lo \<le> i \<and> i < hi \<longleftrightarrow> (\<exists>q c. parcel_run p i = Some q \<and> run_has q c \<and> run_has r c))"
proof -
  let ?k = "per_parcel p"
  obtain r where r: "chunks_covering outline (extent_range ext) = Inr r" using ov
    by (auto simp: parcels_overlapping_def res_simps)
  obtain a b where ab: "extent_range ext = (a, b)" by (cases "extent_range ext")
  note run = chunks_covering_run [OF o r [unfolded ab]]
  define last where "last = run_first r + run_count r - 1"
  have last: "wsub64 (wadd64 (run_first r) (run_count r)) 1 = last" "last < cl_chunk_count (o_layout outline)"
    using run_last [OF run(1)] run(2) by (auto simp: last_def)
  have c: "1 \<le> run_count r" using run(1) by (simp add: run_ok_def)
  have fl: "run_first r \<le> last" using c by (simp add: last_def)
  have "last div ?k \<le> last" by simp
  also have "last < 2 ^ 64 - 1"
    using last(2) layout_bounds(5) [of "o_layout outline"] o by (simp add: outline_ok_def)
  finally have "wadd64 (last div ?k) 1 = last div ?k + 1" by (intro wadd64_small) simp
  then have lohi: "lo = run_first r div ?k" "hi = last div ?k + 1"
    using ov by (auto simp: parcels_overlapping_def r Let_def last(1) simp del: One_nat_def)
  have has: "run_has r c \<longleftrightarrow> run_first r \<le> c \<and> c \<le> last" for c
    using c by (auto simp: run_has_def last_def)
  have "lo \<le> i \<and> i < hi \<longleftrightarrow> (\<exists>c. run_has r c \<and> i = c div ?k)" for i
  proof
    assume i: "lo \<le> i \<and> i < hi"
    have k: "0 < ?k" using p by (simp add: parcels_ok_def)
    show "\<exists>c. run_has r c \<and> i = c div ?k"
    proof (cases "i = run_first r div ?k")
      case True
      then show ?thesis using has fl by blast
    next
      case False
      then have "run_first r < i * ?k" "i * ?k \<le> last"
        using i lohi k by (auto simp: div_less_iff_less_mult [symmetric] less_eq_div_iff_mult_less_eq [symmetric])
      then show ?thesis using has k by (intro exI [of _ "i * ?k"]) simp
    qed
  next
    assume "\<exists>c. run_has r c \<and> i = c div ?k"
    then show "lo \<le> i \<and> i < hi" using lohi has by (auto simp: div_le_mono less_Suc_eq_le)
  qed
  moreover have "(\<exists>q c. parcel_run p i = Some q \<and> run_has q c \<and> run_has r c) \<longleftrightarrow> (\<exists>c. run_has r c \<and> i = c div ?k)" for i
  proof -
    have "run_has r c \<Longrightarrow> c < cl_chunk_count (pc_layout p)" for c using has last(2) p(2) by auto
    then show ?thesis using parcel_of_chunk [OF p(1)] by metis
  qed
  ultimately show ?thesis using r by blast
qed

text \<open>The chunk messages of a laid out Container lie one after the other: each starts where the one before
  ends, the first where the body does, and the last ends at the object's length.\<close>

lemma messages_tile_the_object:
  assumes "layout_ok l"
  shows "message_start_of l 0 = cl_body_start l \<and>
    (\<forall>i. Suc i < cl_chunk_count l \<longrightarrow> message_start_of l (Suc i) = message_start_of l i + message_len_of l i) \<and>
    message_start_of l (final_index l) + message_len_of l (final_index l) = cl_object_len l"
  using message_next [OF assms] message_last [OF assms] layout_bounds [OF assms] message_start_eq [OF assms, of 0]
  by simp

end
