(* ===== verification/Container_Encoding.thy ===== *)
theory Container_Encoding
  imports Meta_Section Chunk_Geometry
begin

text \<open>
  \<open>coffret-format/src\<close> \<open>entry_plan.rs\<close>, \<open>layout.rs\<close>, \<open>encode.rs\<close> and \<open>stream/stream_reader.rs\<close>: laying
  a Container out and writing it in one go. What an object holds is stated once (\<open>container_body\<close>: the
  plaintext stream cut into chunks, each sealed under its own nonce), and the encoder, which reads the
  contents chunk by chunk into a buffer, is shown to write it.
\<close>

section \<open>The plan of an Entry\<close>

record entry_plan =
  ep_path :: entry_path
  ep_mtime :: mtime
  ep_btime :: "btime option"
  ep_size :: nat
  ep_hash :: content_hash
  ep_derived :: "derived_from option"
  ep_mime :: "string option"

definition to_metadata :: "entry_plan \<Rightarrow> entry_extent \<Rightarrow> entry_metadata" where
  "to_metadata p ext =
     \<lparr>path = ep_path p, captured_path = ep_path p, extent = ext, modified = ep_mtime p, born = ep_btime p,
      content = ep_hash p, derivation = ep_derived p, mime = ep_mime p\<rparr>"

definition plan_of_metadata :: "entry_metadata \<Rightarrow> entry_plan" where
  "plan_of_metadata e =
     \<lparr>ep_path = path e, ep_mtime = modified e, ep_btime = born e, ep_size = extent_size (extent e),
      ep_hash = content e, ep_derived = derivation e, ep_mime = mime e\<rparr>"

section \<open>The layout\<close>

record layout =
  ly_header_bytes :: "byte list"
  ly_meta_plaintext :: "byte list"
  ly_meta_len :: nat
  ly_padded_len :: nat
  ly_pad_len :: nat
  ly_chunk_count :: nat
  ly_entries :: "entry_metadata list"

definition place_step :: "entry_extent \<times> entry_metadata list \<Rightarrow> entry_plan \<Rightarrow> format_error + (entry_extent \<times> entry_metadata list)" where
  "place_step = (\<lambda>(placed, entries) plan.
     and_then (extent_after placed (ep_size plan)) (\<lambda>placed.
       Ok (placed, entries @ [to_metadata plan placed])))"

definition layout_plan ::
  "cbor_lib \<Rightarrow> container_id \<Rightarrow> chunk_size \<Rightarrow> container_kind \<Rightarrow> entry_plan list \<Rightarrow> format_error + layout" where
  "layout_plan L c cs k plans =
     (if plans = [] then Err EmptyEntryTable
      else and_then (stream_extent 0 0) (\<lambda>placed.
           and_then (try_fold place_step (placed, []) plans) (\<lambda>(placed, entries).
             let unpadded_len = extent_end placed;
                 padded_len = padded_len_u64 unpadded_len;
                 pad_len = wsub64 padded_len unpadded_len
             in and_then (meta_encode L \<lparr>m_kind = k, m_pad_len = pad_len, m_entries = entries\<rparr>) (\<lambda>meta_plaintext.
                let ceiling = max_meta_len;
                    padded = padded_len_u64 (length meta_plaintext);
                    declared = wadd64 padded tag_length
                in if declared > ceiling then Err (MetaSectionTooLong declared ceiling)
                   else let meta_len = padded + tag_length
                        in Ok \<lparr>ly_header_bytes = header_to_bytes
                                 \<lparr>h_container = c, h_chunk_size = cs, h_meta_len = meta_len\<rparr>,
                               ly_meta_plaintext = resize padded meta_plaintext,
                               ly_meta_len = meta_len,
                               ly_padded_len = padded_len,
                               ly_pad_len = pad_len,
                               ly_chunk_count = max (div_ceil padded_len (chunk_bytes cs)) 1,
                               ly_entries = entries\<rparr>))))"

definition object_len_hint :: "layout \<Rightarrow> nat" where
  "object_len_hint l =
     (let chunk_total = saturating_add64 (ly_padded_len l) (saturating_mul64 (ly_chunk_count l) tag_length)
      in header_len + ly_meta_len l + (case to_usize chunk_total of Some n \<Rightarrow> n | None \<Rightarrow> 0))"

section \<open>Reading the contents in chunks\<close>

record stream_reader =
  sr_contents :: "byte list list"
  sr_entry_index :: nat
  sr_entry_offset :: nat
  sr_padding_left :: nat

definition stream_reader_new :: "byte list list \<Rightarrow> nat \<Rightarrow> stream_reader" where
  "stream_reader_new contents pad_len =
     \<lparr>sr_contents = contents, sr_entry_index = 0, sr_entry_offset = 0, sr_padding_left = pad_len\<rparr>"

text \<open>\<open>read\<close>: \<open>n\<close> is the room left in the buffer, and the bytes are what goes into it.\<close>

function stream_read :: "stream_reader \<Rightarrow> nat \<Rightarrow> byte list \<times> stream_reader" where
  "stream_read r n =
     (if n = 0 then ([], r)
      else if sr_entry_index r < length (sr_contents r)
      then let remaining = drop (sr_entry_offset r) (sr_contents r ! sr_entry_index r)
           in if remaining = []
              then stream_read (r\<lparr>sr_entry_index := sr_entry_index r + 1, sr_entry_offset := 0\<rparr>) n
              else let k = min (length remaining) n;
                       (bytes, r') = stream_read (r\<lparr>sr_entry_offset := sr_entry_offset r + k\<rparr>) (n - k)
                   in (take k remaining @ bytes, r')
      else if sr_padding_left r = 0 then ([], r)
      else let k = min (sr_padding_left r) n;
               (bytes, r') = stream_read (r\<lparr>sr_padding_left := sr_padding_left r - k\<rparr>) (n - k)
           in (replicate k 0 @ bytes, r'))"
  by pat_completeness auto
termination
  by (relation "measures [\<lambda>(r, n). n, \<lambda>(r, n). length (sr_contents r) - sr_entry_index r]") auto

declare stream_read.simps [simp del]

section \<open>Encoding\<close>

record entry_source =
  es_path :: entry_path
  es_mtime :: mtime
  es_btime :: "btime option"
  es_content :: "byte list"
  es_derived :: "derived_from option"
  es_mime :: "string option"

record encode_request =
  er_container :: container_id
  er_kind :: container_kind
  er_key :: container_key
  er_chunk_size :: chunk_size
  er_entries :: "entry_source list"

record encoded_container =
  ec_bytes :: "byte list"
  ec_object_name :: string
  ec_entries :: "entry_metadata list"

definition plan_of_source :: "(byte list \<Rightarrow> byte list) \<Rightarrow> entry_source \<Rightarrow> entry_plan" where
  "plan_of_source blake3 s =
     \<lparr>ep_path = es_path s, ep_mtime = es_mtime s, ep_btime = es_btime s, ep_size = length (es_content s),
      ep_hash = ContentHash (blake3 (es_content s)), ep_derived = es_derived s, ep_mime = es_mime s\<rparr>"

definition encode_chunk ::
  "aead \<Rightarrow> byte list \<Rightarrow> byte list \<Rightarrow> nat \<Rightarrow> nat \<Rightarrow> stream_reader \<times> byte list \<Rightarrow> nat \<Rightarrow>
   format_error + (stream_reader \<times> byte list)" where
  "encode_chunk A key header_bytes buffer_len chunk_count = (\<lambda>(reader, object) i.
     let (filled, reader) = stream_read reader buffer_len;
         is_final = (i + 1 = chunk_count)
     in and_then (seal A key (nonce_chunk i is_final) header_bytes filled object) (\<lambda>object. Ok (reader, object)))"

definition encode ::
  "cbor_lib \<Rightarrow> aead \<Rightarrow> (byte list \<Rightarrow> byte list) \<Rightarrow> encode_request \<Rightarrow> format_error + encoded_container" where
  "encode L A blake3 req =
     and_then (layout_plan L (er_container req) (er_chunk_size req) (er_kind req)
                 (map (plan_of_source blake3) (er_entries req))) (\<lambda>ly.
     and_then (seal A (key_bytes (er_key req)) nonce_meta (ly_header_bytes ly) (ly_meta_plaintext ly)
                 (ly_header_bytes ly)) (\<lambda>object.
       let reader = stream_reader_new (map es_content (er_entries req)) (ly_pad_len ly);
           buffer_len = max (min (chunk_bytes (er_chunk_size req)) (ly_padded_len ly)) 1
       in and_then (try_fold (encode_chunk A (key_bytes (er_key req)) (ly_header_bytes ly) buffer_len (ly_chunk_count ly))
                      (reader, object) [0..<ly_chunk_count ly]) (\<lambda>(reader, object).
            Ok \<lparr>ec_bytes = object, ec_object_name = container_object_name (er_container req),
                ec_entries = ly_entries ly\<rparr>)))"

section \<open>What an object holds\<close>

text \<open>Chunk \<open>i\<close> of \<open>n\<close>: a chunk size of the stream, and for the last what is left of it.\<close>

definition chunk_at :: "nat \<Rightarrow> nat \<Rightarrow> byte list \<Rightarrow> nat \<Rightarrow> byte list" where
  "chunk_at cs n s i = (if i + 1 = n then drop (i * cs) s else take cs (drop (i * cs) s))"

definition sealed_chunk :: "aead \<Rightarrow> byte list \<Rightarrow> byte list \<Rightarrow> nat \<Rightarrow> nat \<Rightarrow> byte list \<Rightarrow> nat \<Rightarrow> format_error + byte list" where
  "sealed_chunk A key header_bytes cs n s i =
     seal A key (nonce_chunk i (i + 1 = n)) header_bytes (chunk_at cs n s i) []"

definition container_body :: "aead \<Rightarrow> byte list \<Rightarrow> byte list \<Rightarrow> nat \<Rightarrow> nat \<Rightarrow> byte list \<Rightarrow> format_error + byte list" where
  "container_body A key header_bytes cs n s =
     and_then (collect_res (sealed_chunk A key header_bytes cs n s) [0..<n]) (\<lambda>ms. Ok (concat ms))"

text \<open>The bytes a reader has still to give.\<close>

definition stream_of :: "stream_reader \<Rightarrow> byte list" where
  "stream_of r =
     (if sr_entry_index r < length (sr_contents r)
      then drop (sr_entry_offset r) (sr_contents r ! sr_entry_index r) @ concat (drop (Suc (sr_entry_index r)) (sr_contents r))
      else []) @ replicate (sr_padding_left r) 0"

lemma stream_of_new [simp]: "stream_of (stream_reader_new contents n) = concat contents @ replicate n 0"
  by (cases contents) (simp_all add: stream_of_def stream_reader_new_def)

lemma stream_of_next:
  assumes "sr_entry_index r < length (sr_contents r)" and "drop (sr_entry_offset r) (sr_contents r ! sr_entry_index r) = []"
  shows "stream_of (r\<lparr>sr_entry_index := sr_entry_index r + 1, sr_entry_offset := 0\<rparr>) = stream_of r"
proof (cases "Suc (sr_entry_index r) < length (sr_contents r)")
  case True
  then have "drop (Suc (sr_entry_index r)) (sr_contents r) =
      sr_contents r ! Suc (sr_entry_index r) # drop (Suc (Suc (sr_entry_index r))) (sr_contents r)"
    by (rule Cons_nth_drop_Suc [symmetric])
  with assms True show ?thesis by (simp add: stream_of_def)
qed (use assms in \<open>simp add: stream_of_def\<close>)

lemma stream_read_eq:
  "stream_read r n = (bs, r') \<Longrightarrow> bs = take n (stream_of r) \<and> stream_of r' = drop n (stream_of r)"
proof (induction r n arbitrary: bs r' rule: stream_read.induct)
  case (1 r n)
  show ?case
  proof (cases "n = 0")
    case True
    with 1(4) show ?thesis by (simp add: stream_read.simps [of r 0])
  next
    case n: False
    show ?thesis
    proof (cases "sr_entry_index r < length (sr_contents r)")
      case i: True
      let ?rem = "drop (sr_entry_offset r) (sr_contents r ! sr_entry_index r)"
      show ?thesis
      proof (cases "?rem = []")
        case True
        from 1(4) n i True have "stream_read (r\<lparr>sr_entry_index := sr_entry_index r + 1, sr_entry_offset := 0\<rparr>) n = (bs, r')"
          by (subst (asm) stream_read.simps) simp
        from 1(1) [OF n i refl True this] stream_of_next [OF i True] show ?thesis by simp
      next
        case False
        define k where "k = min (length ?rem) n"
        obtain b r2 where rec: "stream_read (r\<lparr>sr_entry_offset := sr_entry_offset r + k\<rparr>) (n - k) = (b, r2)"
          by (cases "stream_read (r\<lparr>sr_entry_offset := sr_entry_offset r + k\<rparr>) (n - k)")
        have "stream_read r n = (take k ?rem @ b, r2)"
          unfolding stream_read.simps [of r n] Let_def k_def [symmetric] rec prod.case
          by (simp only: n i False if_False if_True)
        with 1(4) have bs: "bs = take k ?rem @ b" "r' = r2" by simp_all
        have s: "stream_of (r\<lparr>sr_entry_offset := sr_entry_offset r + k\<rparr>) = drop k (stream_of r)"
          using i by (simp add: stream_of_def k_def add.commute)
        have "take n (stream_of r) = take k (stream_of r) @ take (n - k) (drop k (stream_of r))"
          using take_add [of k "n - k" "stream_of r"] by (simp add: k_def)
        moreover have "take k (stream_of r) = take k ?rem" using i by (simp add: stream_of_def k_def)
        ultimately show ?thesis
          using 1(2) [OF n i refl False k_def rec] s by (simp add: bs k_def)
      qed
    next
      case i: False
      show ?thesis
      proof (cases "sr_padding_left r = 0")
        case True
        with 1(4) n i show ?thesis by (simp add: stream_read.simps [of r n] stream_of_def)
      next
        case p: False
        define k where "k = min (sr_padding_left r) n"
        obtain b r2 where rec: "stream_read (r\<lparr>sr_padding_left := sr_padding_left r - k\<rparr>) (n - k) = (b, r2)"
          by (cases "stream_read (r\<lparr>sr_padding_left := sr_padding_left r - k\<rparr>) (n - k)")
        have "stream_read r n = (replicate k 0 @ b, r2)"
          unfolding stream_read.simps [of r n] Let_def k_def [symmetric] rec prod.case
          by (simp only: n i p if_False)
        with 1(4) have bs: "bs = replicate k 0 @ b" "r' = r2" by simp_all
        have s: "stream_of (r\<lparr>sr_padding_left := sr_padding_left r - k\<rparr>) = drop k (stream_of r)"
          using i by (simp add: stream_of_def)
        have "take n (stream_of r) = take k (stream_of r) @ take (n - k) (drop k (stream_of r))"
          using take_add [of k "n - k" "stream_of r"] by (simp add: k_def)
        moreover have "take k (stream_of r) = replicate k 0" using i by (simp add: stream_of_def k_def)
        ultimately show ?thesis
          using 1(3) [OF n i p k_def rec] s by (simp add: bs k_def)
      qed
    qed
  qed
qed

section \<open>The layout of a plan\<close>

fun placed_from :: "nat \<Rightarrow> entry_plan list \<Rightarrow> entry_metadata list" where
  "placed_from off [] = []"
| "placed_from off (p # ps) = to_metadata p \<lparr>offset = off, extent_size = ep_size p\<rparr> # placed_from (off + ep_size p) ps"

definition planned_size :: "entry_plan list \<Rightarrow> nat" where
  "planned_size ps = sum_list (map ep_size ps)"

lemma place_steps_Ok:
  assumes "extent_ok x" and "try_fold place_step (x, es) ps = Inr (y, es')"
  shows "extent_ok y \<and> extent_end y = extent_end x + planned_size ps \<and> es' = es @ placed_from (extent_end x) ps"
  using assms
proof (induction ps arbitrary: x es)
  case Nil
  then show ?case by (simp add: planned_size_def)
next
  case (Cons p ps)
  let ?x = "\<lparr>offset = offset x + extent_size x, extent_size = ep_size p\<rparr>"
  from Cons.prems have x: "extent_ok ?x"
    and rec: "try_fold place_step (?x, es @ [to_metadata p ?x]) ps = Inr (y, es')"
    by (auto simp: place_step_def res_simps)
  from Cons.IH [OF this] show ?case
    using extent_end_eq [OF Cons.prems(1)] extent_end_eq [OF x] by (simp add: planned_size_def)
qed

lemma placed_from_tiled:
  assumes "off + planned_size ps \<le> max_format_integer"
  shows "tiled_from off (placed_from off ps)" and "\<forall>e \<in> set (placed_from off ps). extent_ok (extent e)"
proof -
  have "tiled_from off (placed_from off ps) \<and> (\<forall>e \<in> set (placed_from off ps). extent_ok (extent e))"
    using assms
  proof (induction ps arbitrary: off)
    case (Cons p ps)
    let ?x = "\<lparr>offset = off, extent_size = ep_size p\<rparr>"
    have x: "extent_ok ?x" using Cons.prems by (simp add: extent_ok_def planned_size_def)
    then have "extent_end ?x = off + ep_size p" by (simp add: extent_end_eq)
    moreover have "(off + ep_size p) + planned_size ps \<le> max_format_integer"
      using Cons.prems by (simp add: planned_size_def add.assoc)
    note Cons.IH [OF this]
    ultimately show ?case using x by (simp add: to_metadata_def)
  qed simp
  then show "tiled_from off (placed_from off ps)" and "\<forall>e \<in> set (placed_from off ps). extent_ok (extent e)" by auto
qed

lemma length_placed_from [simp]: "length (placed_from off ps) = length ps"
  by (induction ps arbitrary: off) auto

lemma placed_from_sizes: "map (\<lambda>e. extent_size (extent e)) (placed_from off ps) = map ep_size ps"
  by (induction ps arbitrary: off) (auto simp: to_metadata_def)

text \<open>The facts of a layout: where its Entries stand, how long its sections are.\<close>

lemma layout_plan_Ok:
  assumes L: "cbor_laws L" and ly: "layout_plan L c cs k ps = Inr ly"
  obtains b where "ps \<noteq> []" and "planned_size ps \<le> max_format_integer"
    and "ly_entries ly = placed_from 0 ps"
    and "ly_padded_len ly = padded_len_u64 (planned_size ps)"
    and "planned_size ps + ly_pad_len ly = ly_padded_len ly" and "ly_padded_len ly \<le> 2 ^ 63"
    and "meta_encode L \<lparr>m_kind = k, m_pad_len = ly_pad_len ly, m_entries = placed_from 0 ps\<rparr> = Inr b"
    and "ly_meta_plaintext ly = resize (padded_len_u64 (length b)) b"
    and "ly_meta_len ly = padded_len_u64 (length b) + tag_length" and "ly_meta_len ly \<le> max_meta_len"
    and "ly_header_bytes ly = header_to_bytes \<lparr>h_container = c, h_chunk_size = cs, h_meta_len = ly_meta_len ly\<rparr>"
    and "ly_chunk_count ly = max (div_ceil (ly_padded_len ly) (chunk_bytes cs)) 1"
proof -
  have ne: "ps \<noteq> []" using ly by (auto simp: layout_plan_def)
  obtain x es where f: "try_fold place_step (\<lparr>offset = 0, extent_size = 0\<rparr>, []) ps = Inr (x, es)"
    using ly ne by (auto simp: layout_plan_def res_simps)
  have "extent_ok \<lparr>offset = 0, extent_size = 0\<rparr>" by (simp add: extent_ok_def)
  from place_steps_Ok [OF this f] have x: "extent_ok x" "extent_end x = planned_size ps" "es = placed_from 0 ps"
    using extent_end_eq [OF \<open>extent_ok \<lparr>offset = 0, extent_size = 0\<rparr>\<close>] by auto
  have max: "planned_size ps \<le> max_format_integer"
    using x extent_end_eq [OF x(1)] by (simp add: extent_ok_def)
  then have small: "planned_size ps < 2 ^ 63" by (simp add: max_format_integer_def)
  have le: "planned_size ps \<le> padded_len_u64 (planned_size ps)" by (rule padded_len_u64_ge [OF small])
  have top: "padded_len_u64 (planned_size ps) \<le> 2 ^ 63"
    using padme_spec_below_2_63 [OF small] by (simp add: padded_len_u64_eq [OF small])
  then have pad: "wsub64 (padded_len_u64 (planned_size ps)) (planned_size ps) = padded_len_u64 (planned_size ps) - planned_size ps"
    using le by (intro wsub64_small) auto
  have se: "stream_extent 0 0 = Inr \<lparr>offset = 0, extent_size = 0\<rparr>" by (simp add: res_simps extent_ok_def)
  have "and_then (meta_encode L \<lparr>m_kind = k, m_pad_len = padded_len_u64 (planned_size ps) - planned_size ps,
        m_entries = placed_from 0 ps\<rparr>) (\<lambda>b.
          if wadd64 (padded_len_u64 (length b)) tag_length > max_meta_len
          then Err (MetaSectionTooLong (wadd64 (padded_len_u64 (length b)) tag_length) max_meta_len)
          else Ok \<lparr>ly_header_bytes = header_to_bytes \<lparr>h_container = c, h_chunk_size = cs,
                      h_meta_len = padded_len_u64 (length b) + tag_length\<rparr>,
                  ly_meta_plaintext = resize (padded_len_u64 (length b)) b,
                  ly_meta_len = padded_len_u64 (length b) + tag_length,
                  ly_padded_len = padded_len_u64 (planned_size ps),
                  ly_pad_len = padded_len_u64 (planned_size ps) - planned_size ps,
                  ly_chunk_count = max (div_ceil (padded_len_u64 (planned_size ps)) (chunk_bytes cs)) 1,
                  ly_entries = placed_from 0 ps\<rparr>) = Inr ly"
    using ly by (simp add: layout_plan_def ne se f x(2,3) pad Let_def cong: if_cong)
  then obtain b where b: "meta_encode L \<lparr>m_kind = k, m_pad_len = padded_len_u64 (planned_size ps) - planned_size ps,
        m_entries = placed_from 0 ps\<rparr> = Inr b"
    and fits: "\<not> wadd64 (padded_len_u64 (length b)) tag_length > max_meta_len"
    and body: "ly = \<lparr>ly_header_bytes = header_to_bytes \<lparr>h_container = c, h_chunk_size = cs,
                      h_meta_len = padded_len_u64 (length b) + tag_length\<rparr>,
                  ly_meta_plaintext = resize (padded_len_u64 (length b)) b,
                  ly_meta_len = padded_len_u64 (length b) + tag_length,
                  ly_padded_len = padded_len_u64 (planned_size ps),
                  ly_pad_len = padded_len_u64 (planned_size ps) - planned_size ps,
                  ly_chunk_count = max (div_ceil (padded_len_u64 (planned_size ps)) (chunk_bytes cs)) 1,
                  ly_entries = placed_from 0 ps\<rparr>"
    by (auto simp: and_then_Inr_iff split: if_splits)
  have "padded_len_u64 (length b) + tag_length \<le> max_meta_len"
  proof -
    have "length b < 2 ^ 63"
      using b L unfolding cbor_laws_def meta_encode_def meta_write_def and_then_Inr_iff map_err_Inr_iff by blast
    then have "padded_len_u64 (length b) \<le> 2 ^ 63" using padme_spec_below_2_63 by (simp add: padded_len_u64_eq)
    then have "wadd64 (padded_len_u64 (length b)) tag_length = padded_len_u64 (length b) + tag_length"
      by (intro wadd64_small) (simp add: tag_length_def)
    with fits show ?thesis by simp
  qed
  then show thesis
    using that ne max le top b by (simp add: body)
qed

section \<open>The encoder writes the reference\<close>

definition chunks_fit :: "nat \<Rightarrow> nat \<Rightarrow> byte list \<Rightarrow> bool" where
  "chunks_fit cs n s \<longleftrightarrow> 0 < cs \<and> n = max (div_ceil (length s) cs) 1"

lemma chunks_fit_bounds:
  assumes "chunks_fit cs n s"
  shows "0 < n" and "(n - 1) * cs \<le> length s" and "length s \<le> n * cs" and "i < n - 1 \<Longrightarrow> (i + 1) * cs \<le> length s"
proof -
  have cs: "0 < cs" and n: "n = max (div_ceil (length s) cs) 1" using assms by (auto simp: chunks_fit_def)
  have b: "length s \<le> div_ceil (length s) cs * cs" "div_ceil (length s) cs * cs < length s + cs"
    using div_ceil_bounds [OF cs] by auto
  show "0 < n" by (simp add: n)
  have "div_ceil (length s) cs * cs \<le> n * cs" by (simp add: n)
  with b show "length s \<le> n * cs" by linarith
  show le: "(n - 1) * cs \<le> length s"
  proof (cases "length s = 0")
    case False
    then have "div_ceil (length s) cs \<noteq> 0" using cs by simp
    then have "n = div_ceil (length s) cs" by (simp add: n)
    with b have "n * cs < length s + cs" by simp
    moreover have "(n - 1) * cs = n * cs - cs" by (simp add: diff_mult_distrib)
    ultimately show ?thesis by linarith
  qed (simp add: n)
  show "(i + 1) * cs \<le> length s" if "i < n - 1"
  proof -
    have "(i + 1) * cs \<le> (n - 1) * cs" using that by (intro mult_le_mono1) simp
    with le show ?thesis by linarith
  qed
qed

lemma chunk_at_buffer:
  assumes fit: "chunks_fit cs n s" and i: "i < n"
  shows "take (max (min cs (length s)) 1) (drop (i * cs) s) = chunk_at cs n s i"
proof (cases "i + 1 = n")
  case True
  have "length (drop (i * cs) s) \<le> max (min cs (length s)) 1"
  proof -
    have "length s - (n - 1) * cs \<le> cs"
      using chunks_fit_bounds(1,3) [OF fit] by (simp add: diff_mult_distrib)
    moreover have "i = n - 1" using True by simp
    ultimately show ?thesis by (simp add: le_max_iff_disj)
  qed
  with True show ?thesis by (simp add: chunk_at_def)
next
  case False
  with i have "(i + 1) * cs \<le> length s" by (intro chunks_fit_bounds(4) [OF fit]) simp
  then have "cs \<le> length s" by simp
  moreover have "0 < cs" using fit by (simp add: chunks_fit_def)
  ultimately have "max (min cs (length s)) 1 = cs" by simp
  with False show ?thesis by (simp add: chunk_at_def)
qed

lemma encode_chunks_eq:
  assumes fit: "chunks_fit cs n s" and "i \<le> n" and r: "stream_of r = drop (i * cs) s"
    and bl: "bl = max (min cs (length s)) 1"
  shows "(\<exists>r'. try_fold (encode_chunk A key hb bl n) (r, out) [i..<n] = Inr (r', out')) \<longleftrightarrow>
    (\<exists>ms. collect_res (sealed_chunk A key hb cs n s) [i..<n] = Inr ms \<and> out' = out @ concat ms)"
  using assms(2) r
proof (induction "n - i" arbitrary: i r out)
  case 0
  then show ?case by auto
next
  case (Suc m)
  then have i: "i < n" by simp
  obtain bs r1 where rd: "stream_read r bl = (bs, r1)" by (cases "stream_read r bl")
  from stream_read_eq [OF rd] Suc.prems(2) have bs: "bs = chunk_at cs n s i" and r1: "stream_of r1 = drop (bl + i * cs) s"
    using chunk_at_buffer [OF fit i, folded bl] by simp_all
  have next_r: "i + 1 < n \<Longrightarrow> stream_of r1 = drop (Suc i * cs) s"
  proof -
    assume lt: "i + 1 < n"
    then have "(i + 1) * cs \<le> length s" by (intro chunks_fit_bounds(4) [OF fit]) simp
    then have "cs \<le> length s" by simp
    moreover have "0 < cs" using fit by (simp add: chunks_fit_def)
    ultimately have "bl = cs" by (simp add: bl)
    with r1 show ?thesis by simp
  qed
  have step: "encode_chunk A key hb bl n (r, out) i =
      and_then (sealed_chunk A key hb cs n s i) (\<lambda>m. Inr (r1, out @ m))"
    unfolding encode_chunk_def prod.case rd Let_def bs sealed_chunk_def
    by (cases "encrypt A key (nonce_chunk i (i + 1 = n)) hb (chunk_at cs n s i)") (auto simp: seal_def)
  have upt: "[i..<n] = i # [Suc i..<n]" using i by (rule upt_conv_Cons)
  show ?case
  proof (cases "i + 1 = n")
    case True
    then have "[Suc i..<n] = []" by simp
    then show ?thesis unfolding upt by (auto simp: step res_simps)
  next
    case False
    with i have "Suc i < n" by simp
    then have "stream_of r1 = drop (Suc i * cs) s" using next_r by simp
    from Suc.hyps(1) [of "Suc i" r1, OF _ _ this] Suc.hyps(2) i
    have IH: "(\<exists>r'. try_fold (encode_chunk A key hb bl n) (r1, out) [Suc i..<n] = Inr (r', out')) \<longleftrightarrow>
      (\<exists>ms. collect_res (sealed_chunk A key hb cs n s) [Suc i..<n] = Inr ms \<and> out' = out @ concat ms)" for out
      by simp
    have "(\<exists>r'. try_fold (encode_chunk A key hb bl n) (r, out) [i..<n] = Inr (r', out')) \<longleftrightarrow>
      (\<exists>m. sealed_chunk A key hb cs n s i = Inr m \<and>
        (\<exists>r'. try_fold (encode_chunk A key hb bl n) (r1, out @ m) [Suc i..<n] = Inr (r', out')))"
      unfolding upt by (auto simp: step res_simps)
    also have "\<dots> \<longleftrightarrow> (\<exists>ms. collect_res (sealed_chunk A key hb cs n s) [i..<n] = Inr ms \<and> out' = out @ concat ms)"
      unfolding IH upt by (auto simp: res_simps)
    finally show ?thesis .
  qed
qed

text \<open>The plaintext stream of a request, and the object it becomes.\<close>

definition request_stream :: "encode_request \<Rightarrow> nat \<Rightarrow> byte list" where
  "request_stream req pad_len = concat (map es_content (er_entries req)) @ replicate pad_len 0"

lemma encode_Ok_iff:
  assumes L: "cbor_laws L" and cs: "0 < chunk_bytes (er_chunk_size req)"
    and ly: "layout_plan L (er_container req) (er_chunk_size req) (er_kind req)
        (map (plan_of_source blake3) (er_entries req)) = Inr ly"
  shows "encode L A blake3 req = Inr ec \<longleftrightarrow>
    (\<exists>meta_section body.
       seal A (key_bytes (er_key req)) nonce_meta (ly_header_bytes ly) (ly_meta_plaintext ly) [] = Inr meta_section \<and>
       container_body A (key_bytes (er_key req)) (ly_header_bytes ly) (chunk_bytes (er_chunk_size req))
         (ly_chunk_count ly) (request_stream req (ly_pad_len ly)) = Inr body \<and>
       ec = \<lparr>ec_bytes = ly_header_bytes ly @ meta_section @ body,
             ec_object_name = container_object_name (er_container req), ec_entries = ly_entries ly\<rparr>)"
proof -
  let ?s = "request_stream req (ly_pad_len ly)" and ?cs = "chunk_bytes (er_chunk_size req)"
  have size: "planned_size (map (plan_of_source blake3) (er_entries req)) + ly_pad_len ly = ly_padded_len ly"
    and n: "ly_chunk_count ly = max (div_ceil (ly_padded_len ly) ?cs) 1"
    by (rule layout_plan_Ok [OF L ly]; assumption)+
  have "planned_size (map (plan_of_source blake3) (er_entries req)) = length (concat (map es_content (er_entries req)))"
    by (simp add: planned_size_def plan_of_source_def length_concat comp_def)
  with size have len: "length ?s = ly_padded_len ly" by (simp add: request_stream_def)
  have fit: "chunks_fit ?cs (ly_chunk_count ly) ?s" using cs n len by (simp add: chunks_fit_def)
  have r: "stream_of (stream_reader_new (map es_content (er_entries req)) (ly_pad_len ly)) = drop (0 * ?cs) ?s"
    by (simp add: request_stream_def)
  define bl where "bl = max (min ?cs (ly_padded_len ly)) 1"
  define hb key where "hb = ly_header_bytes ly" and "key = key_bytes (er_key req)"
  define r0 where "r0 = stream_reader_new (map es_content (er_entries req)) (ly_pad_len ly)"
  define N where "N = ly_chunk_count ly"
  note loop = encode_chunks_eq [OF fit le0 r, of bl A key hb, unfolded len, OF bl_def, folded r0_def N_def]
  have enc: "encode L A blake3 req = and_then (seal A key nonce_meta hb (ly_meta_plaintext ly) hb) (\<lambda>object.
      and_then (try_fold (encode_chunk A key hb bl N) (r0, object) [0..<N]) (\<lambda>(reader, object).
        Ok \<lparr>ec_bytes = object, ec_object_name = container_object_name (er_container req), ec_entries = ly_entries ly\<rparr>))"
    unfolding encode_def ly and_then.simps Let_def hb_def key_def r0_def bl_def N_def ..
  have body: "container_body A key hb ?cs N ?s = Inr body \<longleftrightarrow>
      (\<exists>ms. collect_res (sealed_chunk A key hb ?cs N ?s) [0..<N] = Inr ms \<and> body = concat ms)" for body
    by (auto simp: container_body_def and_then_Inr_iff)
  show ?thesis
    unfolding hb_def [symmetric] key_def [symmetric] N_def [symmetric]
  proof
    assume "encode L A blake3 req = Inr ec"
    then obtain object st where sl: "seal A key nonce_meta hb (ly_meta_plaintext ly) hb = Inr object"
      and lp0: "try_fold (encode_chunk A key hb bl N) (r0, object) [0..<N] = Inr st"
      and ec0: "(case st of (reader, object) \<Rightarrow> Inr \<lparr>ec_bytes = object,
          ec_object_name = container_object_name (er_container req), ec_entries = ly_entries ly\<rparr>) = (Inr ec :: format_error + encoded_container)"
      unfolding enc and_then_Inr_iff by (elim exE conjE) (rule that)
    obtain r' obj where st: "st = (r', obj)" by (cases st)
    note lp = lp0 [unfolded st]
    from ec0 have ec: "ec = \<lparr>ec_bytes = obj, ec_object_name = container_object_name (er_container req), ec_entries = ly_entries ly\<rparr>"
      by (simp add: st)
    from sl obtain mm where mm: "seal A key nonce_meta hb (ly_meta_plaintext ly) [] = Inr mm" "object = hb @ mm"
      using seal_out by blast
    from lp loop [of object obj] obtain ms where
      "collect_res (sealed_chunk A key hb ?cs N ?s) [0..<N] = Inr ms" "obj = object @ concat ms" by blast
    then show "\<exists>mm bd. seal A key nonce_meta hb (ly_meta_plaintext ly) [] = Inr mm \<and>
        container_body A key hb ?cs N ?s = Inr bd \<and>
        ec = \<lparr>ec_bytes = hb @ mm @ bd, ec_object_name = container_object_name (er_container req), ec_entries = ly_entries ly\<rparr>"
      using mm ec unfolding body by (intro exI [of _ mm] exI [of _ "concat ms"]) auto
  next
    assume "\<exists>mm bd. seal A key nonce_meta hb (ly_meta_plaintext ly) [] = Inr mm \<and>
        container_body A key hb ?cs N ?s = Inr bd \<and>
        ec = \<lparr>ec_bytes = hb @ mm @ bd, ec_object_name = container_object_name (er_container req), ec_entries = ly_entries ly\<rparr>"
    then obtain mm ms where mm: "seal A key nonce_meta hb (ly_meta_plaintext ly) [] = Inr mm"
      and ms: "collect_res (sealed_chunk A key hb ?cs N ?s) [0..<N] = Inr ms"
      and ec: "ec = \<lparr>ec_bytes = hb @ mm @ concat ms, ec_object_name = container_object_name (er_container req),
                     ec_entries = ly_entries ly\<rparr>"
      unfolding body by blast
    from mm have sl: "seal A key nonce_meta hb (ly_meta_plaintext ly) hb = Inr (hb @ mm)" using seal_out by blast
    from ms loop [of "hb @ mm" "(hb @ mm) @ concat ms"] obtain r' where
      "try_fold (encode_chunk A key hb bl N) (r0, hb @ mm) [0..<N] = Inr (r', (hb @ mm) @ concat ms)" by blast
    then show "encode L A blake3 req = Inr ec"
      unfolding enc by (simp add: sl ec)
  qed
qed

section \<open>The object, told without the plan\<close>

lemma place_steps_run:
  assumes "extent_ok x" and "extent_end x + planned_size ps \<le> max_format_integer"
  shows "\<exists>y. try_fold place_step (x, es) ps = Inr (y, es @ placed_from (extent_end x) ps)"
  using assms
proof (induction ps arbitrary: x es)
  case (Cons p ps)
  let ?x = "\<lparr>offset = offset x + extent_size x, extent_size = ep_size p\<rparr>"
  have x: "extent_ok ?x" using Cons.prems extent_end_eq [OF Cons.prems(1)] by (simp add: extent_ok_def planned_size_def)
  have "extent_end ?x + planned_size ps \<le> max_format_integer"
    using Cons.prems extent_end_eq [OF Cons.prems(1)] extent_end_eq [OF x] by (simp add: planned_size_def)
  from Cons.IH [OF x this, of "es @ [to_metadata p ?x]"] have "\<exists>y. try_fold place_step (?x, es @ [to_metadata p ?x]) ps = Inr (y, es @ placed_from (extent_end x) (p # ps))"
    using extent_end_eq [OF Cons.prems(1)] extent_end_eq [OF x] by simp
  moreover have "place_step (x, es) p = Inr (?x, es @ [to_metadata p ?x])"
    using x Cons.prems(1) by (simp add: place_step_def res_simps)
  ultimately show ?case by simp
qed simp

definition layout_of :: "container_id \<Rightarrow> chunk_size \<Rightarrow> entry_plan list \<Rightarrow> byte list \<Rightarrow> layout" where
  "layout_of c cs ps meta =
     (let padded = padme_spec (planned_size ps); meta_padded = padme_spec (length meta)
      in \<lparr>ly_header_bytes = header_to_bytes \<lparr>h_container = c, h_chunk_size = cs, h_meta_len = meta_padded + tag_length\<rparr>,
          ly_meta_plaintext = meta @ replicate (meta_padded - length meta) 0, ly_meta_len = meta_padded + tag_length,
          ly_padded_len = padded, ly_pad_len = padded - planned_size ps,
          ly_chunk_count = max (div_ceil padded (chunk_bytes cs)) 1, ly_entries = placed_from 0 ps\<rparr>)"

lemma meta_encode_short: "cbor_laws L \<Longrightarrow> meta_encode L m = Inr b \<Longrightarrow> length b < 2 ^ 63"
  unfolding cbor_laws_def meta_encode_def meta_write_def and_then_Inr_iff map_err_Inr_iff by blast

lemma layout_plan_iff:
  assumes L: "cbor_laws L"
  shows "layout_plan L c cs k ps = Inr ly \<longleftrightarrow>
    ps \<noteq> [] \<and> planned_size ps \<le> max_format_integer \<and>
    (\<exists>meta. meta_encode L \<lparr>m_kind = k, m_pad_len = padme_spec (planned_size ps) - planned_size ps,
        m_entries = placed_from 0 ps\<rparr> = Inr meta \<and>
      padme_spec (length meta) + tag_length \<le> max_meta_len \<and> ly = layout_of c cs ps meta)"
proof (cases "ps \<noteq> [] \<and> planned_size ps \<le> max_format_integer")
  case False
  then show ?thesis using layout_plan_Ok [OF L] by metis
next
  case True
  let ?size = "planned_size ps"
  let ?m = "\<lparr>m_kind = k, m_pad_len = padme_spec ?size - ?size, m_entries = placed_from 0 ps\<rparr>"
  have small: "?size < 2 ^ 63" using True by (simp add: max_format_integer_def)
  note top = padme_spec_below_2_63 [OF small] and p = padded_len_u64_eq [OF small]
  have pad: "wsub64 (padme_spec ?size) ?size = padme_spec ?size - ?size"
    using top padme_spec_bounds [of ?size] by (intro wsub64_small) auto
  have z: "extent_ok \<lparr>offset = 0, extent_size = 0\<rparr>" by (simp add: extent_ok_def)
  obtain y where y: "try_fold place_step (\<lparr>offset = 0, extent_size = 0\<rparr>, []) ps = Inr (y, placed_from 0 ps)"
    using place_steps_run [OF z, of ps "[]"] True extent_end_eq [OF z] by auto
  have whole: "extent_end y = ?size" using place_steps_Ok [OF z y] extent_end_eq [OF z] by simp
  have se: "stream_extent 0 0 = Inr \<lparr>offset = 0, extent_size = 0\<rparr>" by (simp add: res_simps extent_ok_def)
  have plan: "layout_plan L c cs k ps = and_then (meta_encode L ?m) (\<lambda>b.
          if wadd64 (padded_len_u64 (length b)) tag_length > max_meta_len
          then Err (MetaSectionTooLong (wadd64 (padded_len_u64 (length b)) tag_length) max_meta_len)
          else Ok \<lparr>ly_header_bytes = header_to_bytes \<lparr>h_container = c, h_chunk_size = cs,
                      h_meta_len = padded_len_u64 (length b) + tag_length\<rparr>,
                  ly_meta_plaintext = resize (padded_len_u64 (length b)) b,
                  ly_meta_len = padded_len_u64 (length b) + tag_length,
                  ly_padded_len = padme_spec ?size, ly_pad_len = padme_spec ?size - ?size,
                  ly_chunk_count = max (div_ceil (padme_spec ?size) (chunk_bytes cs)) 1,
                  ly_entries = placed_from 0 ps\<rparr>)"
    using True by (simp add: layout_plan_def se y whole pad p Let_def cong: if_cong)
  show ?thesis
  proof (cases "meta_encode L ?m")
    case (Inl e)
    then show ?thesis unfolding plan by simp
  next
    case (Inr b)
    have b: "length b < 2 ^ 63" by (rule meta_encode_short [OF L Inr])
    have pb: "padded_len_u64 (length b) = padme_spec (length b)" by (rule padded_len_u64_eq [OF b])
    have "wadd64 (padme_spec (length b)) tag_length = padme_spec (length b) + tag_length"
      using padme_spec_below_2_63 [OF b] by (intro wadd64_small) (simp add: tag_length_def)
    moreover have "resize (padme_spec (length b)) b = b @ replicate (padme_spec (length b) - length b) 0"
      using padme_spec_bounds [of "length b"] by (simp add: resize_def)
    ultimately show ?thesis using True unfolding plan Inr by (auto simp: pb layout_of_def Let_def)
  qed
qed

definition container_plaintext :: "encode_request \<Rightarrow> byte list" where
  "container_plaintext req = concat (map es_content (er_entries req))"

text \<open>What \<open>encode\<close> is to write, with nothing of how it plans it: the lengths are the padding rule's, the Entries stand one
  after another, and the chunks are as many as the padded stream fills, one at least.\<close>

definition container_written ::
  "cbor_lib \<Rightarrow> aead \<Rightarrow> (byte list \<Rightarrow> byte list) \<Rightarrow> encode_request \<Rightarrow> encoded_container \<Rightarrow> bool" where
  "container_written L A blake3 req ec \<longleftrightarrow>
     (let content = container_plaintext req;
          padding = padme_spec (length content) - length content;
          cs = chunk_bytes (er_chunk_size req);
          entries = placed_from 0 (map (plan_of_source blake3) (er_entries req))
      in er_entries req \<noteq> [] \<and> length content \<le> max_format_integer \<and>
         (\<exists>meta meta_section body.
            meta_encode L \<lparr>m_kind = er_kind req, m_pad_len = padding, m_entries = entries\<rparr> = Inr meta \<and>
            padme_spec (length meta) + tag_length \<le> max_meta_len \<and>
            (let header = header_to_bytes \<lparr>h_container = er_container req, h_chunk_size = er_chunk_size req,
                   h_meta_len = padme_spec (length meta) + tag_length\<rparr>
             in seal A (key_bytes (er_key req)) nonce_meta header (meta @ replicate (padme_spec (length meta) - length meta) 0) []
                  = Inr meta_section \<and>
                container_body A (key_bytes (er_key req)) header cs (max (div_ceil (length content + padding) cs) 1)
                  (content @ replicate padding 0) = Inr body \<and>
                ec = \<lparr>ec_bytes = header @ meta_section @ body, ec_object_name = container_object_name (er_container req),
                      ec_entries = entries\<rparr>)))"

lemma encode_written:
  assumes L: "cbor_laws L" and cs: "0 < chunk_bytes (er_chunk_size req)"
  shows "encode L A blake3 req = Inr ec \<longleftrightarrow> container_written L A blake3 req ec"
proof -
  let ?ps = "map (plan_of_source blake3) (er_entries req)"
  let ?plan = "layout_plan L (er_container req) (er_chunk_size req) (er_kind req) ?ps"
  have size: "planned_size ?ps = length (container_plaintext req)"
    by (simp add: planned_size_def plan_of_source_def container_plaintext_def length_concat comp_def)
  have pad: "length (container_plaintext req) + (padme_spec (length (container_plaintext req)) - length (container_plaintext req)) =
      padme_spec (length (container_plaintext req))"
    using padme_spec_bounds [of "length (container_plaintext req)"] by simp
  have "encode L A blake3 req = Inr ec \<longleftrightarrow> (\<exists>ly. ?plan = Inr ly \<and> encode L A blake3 req = Inr ec)"
    by (auto simp: encode_def and_then_Inr_iff)
  also have "\<dots> \<longleftrightarrow> (\<exists>ly. ?plan = Inr ly \<and> (\<exists>meta_section body.
       seal A (key_bytes (er_key req)) nonce_meta (ly_header_bytes ly) (ly_meta_plaintext ly) [] = Inr meta_section \<and>
       container_body A (key_bytes (er_key req)) (ly_header_bytes ly) (chunk_bytes (er_chunk_size req))
         (ly_chunk_count ly) (request_stream req (ly_pad_len ly)) = Inr body \<and>
       ec = \<lparr>ec_bytes = ly_header_bytes ly @ meta_section @ body,
             ec_object_name = container_object_name (er_container req), ec_entries = ly_entries ly\<rparr>))"
    using encode_Ok_iff [OF L cs] by blast
  also have "\<dots> \<longleftrightarrow> container_written L A blake3 req ec"
    unfolding layout_plan_iff [OF L] container_written_def Let_def size pad
    by (auto simp: layout_of_def Let_def size request_stream_def container_plaintext_def [symmetric])
  finally show ?thesis .
qed

end
