(* ===== verification/Container_Decoding.thy ===== *)
theory Container_Decoding
  imports Container_Encoding
begin

text \<open>
  \<open>coffret-format/src/decode\<close>, \<open>stream/stream_writer.rs\<close> and \<open>ContainerOutline::open\<close>: a Container's object
  opened, its chunks authenticated in order, and the stream cut back into the Entries' contents. The lemmas
  describe the stream writer by the bytes written so far, say what every decoded Container satisfies, and
  that a decoded object is exactly the one its contents encode to.
\<close>

section \<open>The stream writer\<close>

record stream_writer =
  sw_sizes :: "nat list"
  sw_contents :: "byte list list"
  sw_entry_index :: nat
  sw_padding_left :: nat
  sw_expected :: nat
  sw_written :: nat

definition stream_writer_new :: "nat list \<Rightarrow> nat \<Rightarrow> nat \<Rightarrow> stream_writer" where
  "stream_writer_new sizes pad_len expected =
     \<lparr>sw_sizes = sizes, sw_contents = map (\<lambda>_. []) sizes, sw_entry_index = 0, sw_padding_left = pad_len,
      sw_expected = expected, sw_written = 0\<rparr>"

text \<open>The body of the loop of \<open>write\<close>: what is left of the plaintext, and the writer. An Entry never holds
  more than its size (\<open>writes\<close> below), so the difference is the one the code takes.\<close>

definition stream_write_step :: "stream_writer \<Rightarrow> byte list \<Rightarrow> format_error + (stream_writer \<times> byte list)" where
  "stream_write_step w remaining =
     (if sw_entry_index w < length (sw_sizes w)
      then let i = sw_entry_index w;
               cont = sw_contents w ! i;
               left = sw_sizes w ! i - length cont
           in if left = 0 then Ok (w\<lparr>sw_entry_index := i + 1\<rparr>, remaining)
              else let n = min left (length remaining)
                   in Ok (w\<lparr>sw_contents := (sw_contents w)[i := cont @ take n remaining],
                            sw_written := sw_written w + n\<rparr>, drop n remaining)
      else let n = min (sw_padding_left w) (length remaining)
           in if n = 0 then Err (PlaintextLengthMismatch (sw_expected w) (sw_written w + length remaining))
              else if list_ex (\<lambda>b. b \<noteq> 0) (take n remaining) then Err NonZeroPadding
              else Ok (w\<lparr>sw_padding_left := sw_padding_left w - n, sw_written := sw_written w + n\<rparr>, drop n remaining))"

lemma stream_write_step_decreases:
  assumes "stream_write_step w rem = Inr (w', rem')" and "rem \<noteq> []"
  shows "length rem' < length rem \<or>
    (rem' = rem \<and> length (sw_sizes w') - sw_entry_index w' < length (sw_sizes w) - sw_entry_index w)"
  using assms by (auto simp: stream_write_step_def Let_def split: if_splits)

function stream_write :: "stream_writer \<Rightarrow> byte list \<Rightarrow> format_error + stream_writer" where
  "stream_write w remaining =
     (if remaining = [] then Ok w
      else and_then (stream_write_step w remaining) (\<lambda>(w, remaining). stream_write w remaining))"
  by pat_completeness auto
termination
  by (relation "measures [\<lambda>(w, rem). length rem, \<lambda>(w, rem). length (sw_sizes w) - sw_entry_index w]")
    (auto dest!: stream_write_step_decreases)

declare stream_write.simps [simp del]

section \<open>Opening a Container\<close>

definition outline_prefix_len :: "byte list \<Rightarrow> format_error + nat" where
  "outline_prefix_len front = and_then (header_parse front) (\<lambda>h. Ok (wadd64 header_len (h_meta_len h)))"

definition outline_open ::
  "cbor_lib \<Rightarrow> (cbor \<Rightarrow> cbor_failure + wire_meta) \<Rightarrow> (string \<Rightarrow> bool) \<Rightarrow> aead \<Rightarrow> byte list \<Rightarrow> container_key \<Rightarrow>
   format_error + container_outline" where
  "outline_open L de is_nfc A prefix key =
     and_then (header_parse prefix) (\<lambda>h.
       let associated_data = take header_len prefix
       in and_then (ok_or (UnaddressableOnThisBuild ''meta section'' (h_meta_len h)) (to_usize (h_meta_len h))) (\<lambda>meta_len.
          and_then (if header_len + meta_len \<le> length prefix then Ok (slice header_len (header_len + meta_len) prefix)
                    else Err Truncated) (\<lambda>meta_section.
          and_then (open_message A (key_bytes key) nonce_meta associated_data meta_section) (\<lambda>plaintext.
          and_then (meta_decode L de is_nfc plaintext) (\<lambda>m.
          and_then (plaintext_len m) (\<lambda>len.
          and_then (chunk_layout_of h len) (\<lambda>l.
          and_then (case checked_sub64 (length (m_entries m)) 1 of
                      Some n \<Rightarrow> and_then (map_err Model (at_position n)) (\<lambda>_. Ok ())
                    | None \<Rightarrow> Ok ()) (\<lambda>_.
            Ok \<lparr>o_header = h, o_kind = m_kind m, o_pad_len = m_pad_len m, o_entries = m_entries m, o_layout = l\<rparr>))))))))"

section \<open>Decoding\<close>

record decoded_entry =
  de_metadata :: entry_metadata
  de_content :: "byte list"

record decoded_container =
  dec_container :: container_id
  dec_chunk_size :: chunk_size
  dec_kind :: container_kind
  dec_entries :: "decoded_entry list"

text \<open>The loop over the chunk messages.\<close>

function open_chunks :: "aead \<Rightarrow> byte list \<Rightarrow> byte list \<Rightarrow> nat \<Rightarrow> stream_writer \<Rightarrow> nat \<Rightarrow> byte list \<Rightarrow> format_error + stream_writer" where
  "open_chunks A key associated_data cb w i chunks =
     (if chunks = [] then Ok w
      else let message_len = cb + tag_length;
               is_final = (length chunks \<le> message_len);
               n = (if is_final then length chunks else message_len)
           in and_then (open_message A key (nonce_chunk i is_final) associated_data (take n chunks)) (\<lambda>plaintext.
              and_then (stream_write w plaintext) (\<lambda>w.
                open_chunks A key associated_data cb w (i + 1) (drop n chunks))))"
  by pat_completeness auto
termination
  by (relation "measure (\<lambda>(A, key, ad, cb, w, i, chunks). length chunks)") (auto simp: tag_length_def)

declare open_chunks.simps [simp del]

text \<open>The hash each Entry is held to.\<close>

definition decode_entry ::
  "(byte list \<Rightarrow> byte list) \<Rightarrow> nat \<times> entry_metadata \<times> byte list \<Rightarrow> format_error + decoded_entry" where
  "decode_entry blake3 = (\<lambda>(i, m, c).
     let h = ContentHash (blake3 c)
     in if h \<noteq> content m then Err (ContentHashMismatch i) else Ok \<lparr>de_metadata = m, de_content = c\<rparr>)"

definition decode ::
  "cbor_lib \<Rightarrow> (cbor \<Rightarrow> cbor_failure + wire_meta) \<Rightarrow> (string \<Rightarrow> bool) \<Rightarrow> aead \<Rightarrow> (byte list \<Rightarrow> byte list) \<Rightarrow>
   byte list \<Rightarrow> container_key \<Rightarrow> format_error + decoded_container" where
  "decode L de is_nfc A blake3 object key =
     and_then (outline_open L de is_nfc A object key) (\<lambda>outline.
       let associated_data = take header_len object;
           expected_len = cl_padded_len (o_layout outline);
           cs = h_chunk_size (o_header outline)
       in and_then (ok_or (UnaddressableOnThisBuild ''chunk size'' (chunk_bytes cs)) (to_usize (chunk_bytes cs))) (\<lambda>cb.
          let writer = stream_writer_new (map (\<lambda>e. extent_size (extent e)) (o_entries outline)) (o_pad_len outline) expected_len
          in and_then (ok_or (UnaddressableOnThisBuild ''header and meta section'' (cl_body_start (o_layout outline)))
                         (to_usize (cl_body_start (o_layout outline)))) (\<lambda>body_start.
             and_then (if body_start \<le> length object then Ok (drop body_start object) else Err Truncated) (\<lambda>chunks.
               if chunks = [] then Err MissingChunks
               else and_then (open_chunks A (key_bytes key) associated_data cb writer 0 chunks) (\<lambda>writer.
                 if sw_written writer \<noteq> expected_len then Err (PlaintextLengthMismatch expected_len (sw_written writer))
                 else and_then (collect_res (decode_entry blake3) (enumerate 0 (zip (o_entries outline) (sw_contents writer)))) (\<lambda>entries.
                   Ok \<lparr>dec_container = h_container (o_header outline), dec_chunk_size = cs, dec_kind = o_kind outline,
                       dec_entries = entries\<rparr>))))))"

section \<open>What has been written\<close>

text \<open>\<open>writes sizes pad w s\<close>: the writer \<open>w\<close> of Entries of these sizes and this padding has taken in exactly
  the bytes \<open>s\<close>.\<close>

definition writes :: "nat list \<Rightarrow> nat \<Rightarrow> stream_writer \<Rightarrow> byte list \<Rightarrow> bool" where
  "writes sizes pad w s \<longleftrightarrow>
     sw_sizes w = sizes \<and> length (sw_contents w) = length sizes \<and> sw_entry_index w \<le> length sizes \<and>
     (\<forall>j < sw_entry_index w. length (sw_contents w ! j) = sizes ! j) \<and>
     (\<forall>j < length sizes. length (sw_contents w ! j) \<le> sizes ! j) \<and>
     (\<forall>j < length sizes. sw_entry_index w < j \<longrightarrow> sw_contents w ! j = []) \<and>
     (\<exists>z. s = concat (sw_contents w) @ replicate z 0 \<and> sw_padding_left w + z = pad \<and>
        (sw_entry_index w < length sizes \<longrightarrow> z = 0)) \<and>
     sw_written w = length s"

lemma writes_new: "writes sizes pad (stream_writer_new sizes pad n) []"
  by (auto simp: writes_def stream_writer_new_def concat_eq_Nil_conv)

lemma concat_update_last:
  assumes "i < length xss" and "\<forall>j < length xss. i < j \<longrightarrow> xss ! j = []"
  shows "concat (xss[i := xss ! i @ ys]) = concat xss @ ys"
proof -
  have "\<forall>x \<in> set (drop (Suc i) xss). x = []"
    using assms by (auto simp: in_set_conv_nth)
  then have e: "concat (drop (Suc i) xss) = []" by simp
  have "concat xss = concat (take i xss) @ xss ! i @ concat (drop (Suc i) xss)"
    using assms(1) by (metis concat.simps(2) concat_append id_take_nth_drop)
  then have 1: "concat xss = concat (take i xss) @ xss ! i" using e by simp
  have "concat (xss[i := xss ! i @ ys]) = concat (take i xss) @ (xss ! i @ ys) @ concat (drop (Suc i) xss)"
    using assms(1) by (simp add: upd_conv_take_nth_drop)
  then show ?thesis using 1 e by simp
qed

lemma writes_step:
  assumes w: "writes sizes pad w s" and st: "stream_write_step w rem = Inr (w', rem')"
  shows "\<exists>bs. rem = bs @ rem' \<and> writes sizes pad w' (s @ bs)"
proof -
  let ?i = "sw_entry_index w"
  have base: "sw_sizes w = sizes" "length (sw_contents w) = length sizes" "?i \<le> length sizes"
    and full: "\<forall>j < ?i. length (sw_contents w ! j) = sizes ! j"
    and le: "\<forall>j < length sizes. length (sw_contents w ! j) \<le> sizes ! j"
    and empty: "\<forall>j < length sizes. ?i < j \<longrightarrow> sw_contents w ! j = []"
    and wr: "sw_written w = length s"
    using w unfolding writes_def by blast+
  obtain z where z: "s = concat (sw_contents w) @ replicate z 0" "sw_padding_left w + z = pad"
    "?i < length sizes \<longrightarrow> z = 0"
    using w unfolding writes_def by blast
  show ?thesis
  proof (cases "?i < length sizes")
    case True
    let ?c = "sw_contents w ! ?i" and ?left = "sizes ! ?i - length (sw_contents w ! ?i)"
    let ?n = "min ?left (length rem)"
    show ?thesis
    proof (cases "?left = 0")
      case True
      with st base \<open>?i < length sizes\<close> have "w' = w\<lparr>sw_entry_index := ?i + 1\<rparr>" "rem' = rem"
        by (auto simp: stream_write_step_def)
      moreover have "length ?c = sizes ! ?i" using True le \<open>?i < length sizes\<close> by force
      ultimately show ?thesis
        using base full le empty wr z \<open>?i < length sizes\<close>
        by (intro exI [of _ "[]"]) (auto simp: writes_def less_Suc_eq)
    next
      case False
      with st base \<open>?i < length sizes\<close>
      have w': "w' = w\<lparr>sw_contents := (sw_contents w)[?i := ?c @ take ?n rem], sw_written := sw_written w + ?n\<rparr>"
        and r': "rem' = drop ?n rem"
        by (auto simp: stream_write_step_def Let_def)
      have "concat ((sw_contents w)[?i := ?c @ take ?n rem]) = concat (sw_contents w) @ take ?n rem"
        using True base empty by (intro concat_update_last) auto
      then have "writes sizes pad w' (s @ take ?n rem)"
        using base full le empty wr z True by (auto simp: writes_def w' nth_list_update)
      then show ?thesis using r' by (intro exI [of _ "take ?n rem"]) simp
    qed
  next
    case False
    let ?n = "min (sw_padding_left w) (length rem)"
    from False st base have n: "?n \<noteq> 0" "\<not> list_ex (\<lambda>b. b \<noteq> 0) (take ?n rem)"
      and w': "w' = w\<lparr>sw_padding_left := sw_padding_left w - ?n, sw_written := sw_written w + ?n\<rparr>"
      and r': "rem' = drop ?n rem"
      by (auto simp: stream_write_step_def Let_def split: if_splits)
    have "take ?n rem = replicate ?n 0"
      using n(2) by (intro replicate_eqI) (auto simp: list_ex_iff)
    then have "writes sizes pad w' (s @ take ?n rem)"
      using base full le empty wr z False
      by (auto simp: writes_def w' replicate_add intro!: exI [of _ "z + ?n"])
    then show ?thesis using r' by (intro exI [of _ "take ?n rem"]) simp
  qed
qed

lemma writes_write:
  "writes sizes pad w s \<Longrightarrow> stream_write w bs = Inr w' \<Longrightarrow> writes sizes pad w' (s @ bs)"
proof (induction w bs arbitrary: s rule: stream_write.induct)
  case (1 w remaining)
  show ?case
  proof (cases "remaining = []")
    case True
    with 1 show ?thesis by (simp add: stream_write.simps)
  next
    case False
    with 1(3) obtain w1 r1 where st: "stream_write_step w remaining = Inr (w1, r1)" and rest: "stream_write w1 r1 = Inr w'"
      by (subst (asm) stream_write.simps) (auto simp: and_then_Inr_iff)
    from writes_step [OF 1(2) st] obtain b1 where "remaining = b1 @ r1" "writes sizes pad w1 (s @ b1)" by blast
    then have w1: "writes sizes pad w1 (s @ b1)" and b1: "remaining = b1 @ r1" by blast+
    from 1(1) [OF False st refl w1 rest] show ?thesis by (simp add: b1)
  qed
qed

lemma sum_list_pointwise:
  assumes "list_all2 (\<le>) xs ys" and "sum_list ys \<le> sum_list xs"
  shows "xs = (ys :: nat list)"
  using assms
proof (induction xs ys rule: list_all2_induct)
  case (Cons x xs y ys)
  have "sum_list xs \<le> sum_list ys"
    using Cons.hyps(2) by (induction rule: list_all2_induct) auto
  with Cons show ?case by auto
qed simp

lemma writes_done:
  assumes w: "writes sizes pad w s" and len: "length s = sum_list sizes + pad"
  shows "map length (sw_contents w) = sizes" and "s = concat (sw_contents w) @ replicate pad 0"
proof -
  obtain z where z: "s = concat (sw_contents w) @ replicate z 0" "sw_padding_left w + z = pad"
    using w unfolding writes_def by blast
  have "length s = sum_list (map length (sw_contents w)) + z" using z(1) by (simp add: length_concat)
  then have ge: "sum_list sizes \<le> sum_list (map length (sw_contents w))" using len z(2) by simp
  have "list_all2 (\<le>) (map length (sw_contents w)) sizes"
    using w by (auto simp: writes_def list_all2_conv_all_nth)
  from sum_list_pointwise [OF this ge] show eq: "map length (sw_contents w) = sizes" .
  then have "z = pad" using len z(1) by (simp add: length_concat)
  with z(1) show "s = concat (sw_contents w) @ replicate pad 0" by simp
qed

lemma writes_length: "writes sizes pad w s \<Longrightarrow> length s \<le> sum_list sizes + pad"
proof -
  assume w: "writes sizes pad w s"
  then obtain z where z: "s = concat (sw_contents w) @ replicate z 0" "sw_padding_left w + z = pad"
    unfolding writes_def by blast
  have "list_all2 (\<le>) (map length (sw_contents w)) sizes"
    using w by (auto simp: writes_def list_all2_conv_all_nth)
  then have "sum_list (map length (sw_contents w)) \<le> sum_list sizes"
    by (induction rule: list_all2_induct) auto
  with z show ?thesis by (simp add: length_concat)
qed

lemma append_zeros_prefix:
  assumes "xs @ replicate z (0::byte) @ ys @ later = us @ replicate pad 0" and "length xs = length us"
  shows "z + length ys \<le> pad \<and> ys = replicate (length ys) 0"
proof -
  from assms have "replicate z 0 @ ys @ later = replicate pad 0" by simp
  then have "ys @ later = drop z (replicate pad 0)" and z: "z \<le> pad"
    by (metis append_eq_conv_conj length_replicate, metis length_append length_replicate le_add1)
  then have e: "ys @ later = replicate (pad - z) 0" by simp
  then have "ys = take (length ys) (replicate (pad - z) 0)" by (metis append_eq_conv_conj)
  moreover have "length ys \<le> pad - z" using arg_cong [OF e, of length] by simp
  ultimately show ?thesis using z by simp
qed

lemma writes_progress:
  assumes "writes (map length cs) pad w s" and "s @ bs @ later = concat cs @ replicate pad 0"
  shows "\<exists>w'. stream_write w bs = Inr w'"
  using assms
proof (induction w bs arbitrary: s rule: stream_write.induct)
  case (1 w remaining)
  show ?case
  proof (cases "remaining = []")
    case True
    then show ?thesis by (simp add: stream_write.simps)
  next
    case False
    have "\<exists>w1 r1. stream_write_step w remaining = Inr (w1, r1)"
    proof (cases "sw_entry_index w < length cs")
      case True
      then show ?thesis using 1(2) by (auto simp: stream_write_step_def writes_def Let_def)
    next
      case idx: False
      obtain z where z: "s = concat (sw_contents w) @ replicate z 0" "sw_padding_left w + z = pad"
        using 1(2) unfolding writes_def by blast
      have "map length (sw_contents w) = map length cs"
        using 1(2) idx by (intro nth_equalityI) (auto simp: writes_def)
      then have "length (concat (sw_contents w)) = length (concat cs)" by (simp add: length_concat)
      from append_zeros_prefix [OF _ this, of z remaining later pad] 1(3) z(1)
      have "z + length remaining \<le> pad" and zero: "remaining = replicate (length remaining) 0" by simp_all
      then have "min (sw_padding_left w) (length remaining) = length remaining" using z(2) by simp
      moreover have "\<not> list_ex (\<lambda>b. b \<noteq> 0) remaining" by (subst zero) (simp add: list_ex_iff)
      ultimately show ?thesis
        using idx False 1(2) by (simp add: stream_write_step_def writes_def Let_def)
    qed
    then obtain w1 r1 where st: "stream_write_step w remaining = Inr (w1, r1)" by blast
    from writes_step [OF 1(2) st] obtain b1 where b1: "remaining = b1 @ r1" and w1: "writes (map length cs) pad w1 (s @ b1)" by blast
    from 1(1) [OF False st refl w1] 1(3) b1 have "\<exists>w'. stream_write w1 r1 = Inr w'" by simp
    then show ?thesis using st False by (subst stream_write.simps) simp
  qed
qed

section \<open>The chunk messages\<close>

text \<open>The messages of a chain: each seals its plaintext under its index, and the last is marked final.\<close>

definition sealed_chain :: "aead \<Rightarrow> byte list \<Rightarrow> byte list \<Rightarrow> nat \<Rightarrow> byte list list \<Rightarrow> byte list list \<Rightarrow> bool" where
  "sealed_chain A key ad i ps ms \<longleftrightarrow>
     ps \<noteq> [] \<and> length ms = length ps \<and>
     (\<forall>j < length ps. seal A key (nonce_chunk (i + j) (j + 1 = length ps)) ad (ps ! j) [] = Inr (ms ! j))"

lemma sealed_chain_single: "seal A key (nonce_chunk i True) ad p [] = Inr m \<Longrightarrow> sealed_chain A key ad i [p] [m]"
  by (simp add: sealed_chain_def)

lemma sealed_chain_Cons:
  assumes "seal A key (nonce_chunk i False) ad p [] = Inr m" and "sealed_chain A key ad (i + 1) ps ms"
  shows "sealed_chain A key ad i (p # ps) (m # ms)"
  unfolding sealed_chain_def
proof (intro conjI allI impI)
  fix j assume j: "j < length (p # ps)"
  show "seal A key (nonce_chunk (i + j) (j + 1 = length (p # ps))) ad ((p # ps) ! j) [] = Inr ((m # ms) ! j)"
    using assms j by (cases j) (auto simp: sealed_chain_def)
qed (use assms in \<open>simp_all add: sealed_chain_def\<close>)

lemma open_chunks_sound:
  "aead_laws A \<Longrightarrow> writes sizes pad w s \<Longrightarrow> open_chunks A key ad cb w i chunks = Inr w' \<Longrightarrow> chunks \<noteq> [] \<Longrightarrow>
    \<exists>ps ms. sealed_chain A key ad i ps ms \<and> chunks = concat ms \<and> writes sizes pad w' (s @ concat ps)"
proof (induction A key ad cb w i chunks arbitrary: s rule: open_chunks.induct)
  case (1 A key ad cb w i chunks)
  define f where "f = (length chunks \<le> cb + tag_length)"
  define n where "n = (if f then length chunks else cb + tag_length)"
  from 1(4,5) obtain p w1 where op: "open_message A key (nonce_chunk i f) ad (take n chunks) = Inr p"
    and wr: "stream_write w p = Inr w1" and rest: "open_chunks A key ad cb w1 (i + 1) (drop n chunks) = Inr w'"
    by (subst (asm) open_chunks.simps) (auto simp: and_then_Inr_iff Let_def f_def n_def)
  have w1: "writes sizes pad w1 (s @ p)" by (rule writes_write [OF 1(3) wr])
  have sl: "seal A key (nonce_chunk i f) ad p [] = Inr (take n chunks)"
    using op open_message_iff [OF 1(2)] by blast
  show ?case
  proof (cases f)
    case True
    then have "take n chunks = chunks" "drop n chunks = []" by (simp_all add: n_def)
    moreover from this rest have "w' = w1" by (subst (asm) open_chunks.simps) simp
    ultimately show ?thesis
      using sl w1 True by (intro exI [of _ "[p]"] exI [of _ "[chunks]"]) (simp add: sealed_chain_single)
  next
    case False
    then have ne: "drop n chunks \<noteq> []" by (simp add: n_def f_def)
    from 1(1) [OF 1(5) refl f_def n_def op wr 1(2) w1 rest ne]
    obtain ps ms where "sealed_chain A key ad (i + 1) ps ms" "drop n chunks = concat ms" "writes sizes pad w' ((s @ p) @ concat ps)"
      by auto
    moreover have "chunks = take n chunks @ drop n chunks" by simp
    ultimately show ?thesis
      using sl False by (intro exI [of _ "p # ps"] exI [of _ "take n chunks # ms"]) (simp add: sealed_chain_Cons)
  qed
qed

lemma chunk_prefix:
  assumes fit: "chunks_fit cs n s" and i: "i < n"
  shows "take (i * cs) s @ chunk_at cs n s i = take ((i + 1) * cs) s"
    and "length (chunk_at cs n s i) \<le> cs" and "i + 1 < n \<Longrightarrow> length (chunk_at cs n s i) = cs"
    and "i + 1 = n \<Longrightarrow> take ((i + 1) * cs) s = s"
proof -
  have last: "length s \<le> (i + 1) * cs" if "i + 1 = n" using chunks_fit_bounds(3) [OF fit] that by simp
  show "take (i * cs) s @ chunk_at cs n s i = take ((i + 1) * cs) s"
  proof (cases "i + 1 = n")
    case True
    then show ?thesis using last by (simp add: chunk_at_def)
  next
    case False
    have "take ((i + 1) * cs) s = take (i * cs + cs) s" by (simp add: add.commute)
    then show ?thesis using False by (simp add: chunk_at_def take_add)
  qed
  show "i + 1 < n \<Longrightarrow> length (chunk_at cs n s i) = cs"
  proof -
    assume lt: "i + 1 < n"
    then have "(i + 1) * cs \<le> length s" by (intro chunks_fit_bounds(4) [OF fit]) simp
    then have "cs \<le> length s - i * cs" by simp
    with lt show ?thesis by (simp add: chunk_at_def)
  qed
  then show "length (chunk_at cs n s i) \<le> cs"
    using i last by (cases "i + 1 = n") (simp_all add: chunk_at_def)
  show "i + 1 = n \<Longrightarrow> take ((i + 1) * cs) s = s" using last by simp
qed

lemma sealed_chunk_length:
  assumes "aead_laws A" and "sealed_chunk A key hb cs n s i = Inr m"
  shows "length m = length (chunk_at cs n s i) + tag_length"
  using seal_length [OF assms(1)] assms(2) by (fastforce simp: sealed_chunk_def)

lemma sealed_chunks_nonempty:
  assumes A: "aead_laws A" and "collect_res (sealed_chunk A key hb cs n s) [i..<n] = Inr ms" and "i < n"
  shows "tag_length \<le> length (concat ms)"
proof -
  have "[i..<n] = i # [Suc i..<n]" using assms(3) by (rule upt_conv_Cons)
  with assms(2) obtain m ms' where "ms = m # ms'" "sealed_chunk A key hb cs n s i = Inr m"
    by (auto simp: and_then_Inr_iff)
  then show ?thesis using sealed_chunk_length [OF A] by fastforce
qed

lemma open_chunks_complete:
  assumes A: "aead_laws A" and fit: "chunks_fit cs n (concat us @ replicate pad 0)"
  shows "i < n \<Longrightarrow> collect_res (sealed_chunk A key hb cs n (concat us @ replicate pad 0)) [i..<n] = Inr ms \<Longrightarrow>
    writes (map length us) pad w (take (i * cs) (concat us @ replicate pad 0)) \<Longrightarrow>
    \<exists>w'. open_chunks A key hb cs w i (concat ms) = Inr w' \<and> writes (map length us) pad w' (concat us @ replicate pad 0)"
proof (induction "n - i" arbitrary: i w ms)
  case (Suc k)
  let ?s = "concat us @ replicate pad 0"
  have upt: "[i..<n] = i # [i + 1..<n]" using Suc.prems(1) by (simp add: upt_conv_Cons)
  from Suc.prems(2) obtain m ms' where ms: "ms = m # ms'" and m: "sealed_chunk A key hb cs n ?s i = Inr m"
    and ms': "collect_res (sealed_chunk A key hb cs n ?s) [i + 1..<n] = Inr ms'"
    unfolding upt by (auto simp: and_then_Inr_iff)
  have lm: "length m = length (chunk_at cs n ?s i) + tag_length" by (rule sealed_chunk_length [OF A m])
  have op: "open_message A key (nonce_chunk i (i + 1 = n)) hb m = Inr (chunk_at cs n ?s i)"
    using m open_message_iff [OF A] by (simp add: sealed_chunk_def)
  have split: "take (i * cs) ?s @ chunk_at cs n ?s i @ drop ((i + 1) * cs) ?s = ?s"
    using chunk_prefix(1) [OF fit Suc.prems(1)] by (metis append_assoc append_take_drop_id)
  from writes_progress [OF Suc.prems(3) split] obtain w1 where w1: "stream_write w (chunk_at cs n ?s i) = Inr w1" by blast
  have ww: "writes (map length us) pad w1 (take ((i + 1) * cs) ?s)"
    using writes_write [OF Suc.prems(3) w1] chunk_prefix(1) [OF fit Suc.prems(1)] by simp
  have ne: "concat ms \<noteq> []" using lm by (auto simp: ms tag_length_def)
  show ?case
  proof (cases "i + 1 = n")
    case True
    then have "ms' = []" using ms' by simp
    then have cm: "concat ms = m" by (simp add: ms)
    have final: "length m \<le> cs + tag_length" using lm chunk_prefix(2) [OF fit Suc.prems(1)] by simp
    have "open_chunks A key hb cs w i (concat ms) = Inr w1"
      using ne op True by (subst open_chunks.simps) (simp add: cm final w1 open_chunks.simps)
    then show ?thesis using ww chunk_prefix(4) [OF fit Suc.prems(1) True] by simp
  next
    case False
    then have i1: "i + 1 < n" using Suc.prems(1) by simp
    have len: "length m = cs + tag_length" using lm chunk_prefix(3) [OF fit Suc.prems(1) i1] by simp
    have "tag_length \<le> length (concat ms')" by (rule sealed_chunks_nonempty [OF A ms' i1])
    moreover have "length (concat ms) = cs + tag_length + length (concat ms')" by (simp add: ms len)
    moreover have "0 < tag_length" by (simp add: tag_length_def)
    ultimately have notfinal: "\<not> length (concat ms) \<le> cs + tag_length" by linarith
    have "open_chunks A key hb cs w i (concat ms) = open_chunks A key hb cs w1 (i + 1) (concat ms')"
    proof -
      have "take (cs + tag_length) (concat ms) = m" "drop (cs + tag_length) (concat ms) = concat ms'"
        by (simp_all add: ms len)
      moreover have "(length (concat ms) \<le> cs + tag_length) = False" using notfinal by blast
      ultimately show ?thesis
        using op False
        by (subst open_chunks.simps) (simp only: ne Let_def if_False w1 and_then.simps simp_thms)
    qed
    moreover have "\<exists>w'. open_chunks A key hb cs w1 (i + 1) (concat ms') = Inr w' \<and> writes (map length us) pad w' ?s"
      using Suc.hyps(2) by (intro Suc.hyps(1) i1 ms' ww) simp
    ultimately show ?thesis by simp
  qed
qed simp

section \<open>What an opened Container satisfies\<close>

lemma entry_of_wire_extent: "entry_of_wire is_nfc w = Inr e \<Longrightarrow> extent_ok (extent e)"
  by (auto simp: entry_of_wire_def and_then_Inr_iff stream_extent_Ok_iff extent_ok_def)

lemma meta_decode_ok:
  assumes "meta_decode L de is_nfc bytes = Inr m"
  shows "m_entries m \<noteq> []" and "tiled_from 0 (m_entries m)" and "extents_ok (m_entries m)"
proof -
  obtain wire es t where ne: "wm_entries (wire :: wire_meta) \<noteq> []"
    and es0: "collect_res (entry_of_wire is_nfc) (wm_entries wire) = Inr es" and m: "m_entries m = es"
    and tl0: "try_fold contiguous_step 0 (enumerate 0 es) = Inr t"
    using assms by (auto simp: meta_decode_def and_then_Inr_iff Let_def split: if_splits prod.splits)
  note es = es0 [folded m]
  have tl: "\<exists>t. try_fold contiguous_step 0 (enumerate 0 (m_entries m)) = Inr t" using tl0 m by blast
  show "m_entries m \<noteq> []" using ne collect_res_length [OF es] by auto
  show "tiled_from 0 (m_entries m)" using tl contiguous_Ok_iff by blast
  show "extents_ok (m_entries m)"
    using collect_res_mem [OF es] entry_of_wire_extent by (fastforce simp: extents_ok_def)
qed

lemma tiled_sum:
  assumes "tiled_from k es" and "extents_ok es" and "es \<noteq> []"
  shows "extent_end (extent (last es)) = k + sum_list (map (\<lambda>e. extent_size (extent e)) es)"
  using assms
proof (induction es arbitrary: k)
  case (Cons e es)
  then have "extent_end (extent e) = k + extent_size (extent e)"
    by (simp add: extents_ok_def extent_end_eq)
  with Cons show ?case
    using Cons.IH [of "k + extent_size (extent e)"]
    by (cases "es = []") (simp_all add: extents_ok_def add.assoc)
qed simp

lemma outline_open_ok:
  assumes "outline_open L de is_nfc A prefix key = Inr outline"
  shows "outline_ok outline" and "header_ok (o_header outline)"
    and "\<exists>rest. prefix = header_to_bytes (o_header outline) @ rest"
    and "o_entries outline \<noteq> []" and "tiled_from 0 (o_entries outline)" and "extents_ok (o_entries outline)"
    and "length (o_entries outline) \<le> 2 ^ 32"
    and "cl_padded_len (o_layout outline) = sum_list (map (\<lambda>e. extent_size (extent e)) (o_entries outline)) + o_pad_len outline"
    and "cl_body_start (o_layout outline) = header_len + h_meta_len (o_header outline)"
proof -
  obtain h m plaintext len l where hp: "header_parse prefix = Inr h" and md: "meta_decode L de is_nfc plaintext = Inr m"
    and pl: "plaintext_len m = Inr len" and cl: "chunk_layout_of h len = Inr l"
    and num: "\<forall>n. checked_sub64 (length (m_entries m)) 1 = Some n \<longrightarrow> (\<exists>x. at_position n = Inr x)"
    and o: "outline = \<lparr>o_header = h, o_kind = m_kind m, o_pad_len = m_pad_len m, o_entries = m_entries m, o_layout = l\<rparr>"
    using assms
    by (auto simp: outline_open_def Let_def and_then_Inr_iff map_err_Inr_iff split: option.splits if_splits)
  have hok: "header_ok h" and pre: "\<exists>rest. prefix = header_to_bytes h @ rest"
    using hp unfolding header_parse_iff by blast+
  show "outline_ok outline" using chunk_layout_of_ok [OF hok cl] by (simp add: outline_ok_def o)
  show "header_ok (o_header outline)" "\<exists>rest. prefix = header_to_bytes (o_header outline) @ rest"
    using hok pre by (simp_all add: o)
  show ne: "o_entries outline \<noteq> []" and tl: "tiled_from 0 (o_entries outline)" and ex: "extents_ok (o_entries outline)"
    using meta_decode_ok [OF md] by (simp_all add: o)
  have "1 \<le> length (m_entries m)" using ne by (cases "m_entries m") (simp_all add: o)
  then show "length (o_entries outline) \<le> 2 ^ 32"
    using num by (auto simp: o checked_sub64_def at_position_Ok_iff)
  have "len = extent_end (extent (last (m_entries m))) + m_pad_len m"
    using pl ne by (auto simp: plaintext_len_def o checked_add64_def Let_def split: if_splits)
  moreover have "extent_end (extent (last (m_entries m))) = sum_list (map (\<lambda>e. extent_size (extent e)) (m_entries m))"
    using tiled_sum [OF tl ex ne] by (simp add: o)
  moreover have "cl_padded_len l = len" "cl_body_start l = header_len + h_meta_len h"
    using cl chunk_layout_of_Ok_iff [OF hok] by (auto simp: Let_def)
  ultimately show "cl_padded_len (o_layout outline) = sum_list (map (\<lambda>e. extent_size (extent e)) (o_entries outline)) + o_pad_len outline"
    and "cl_body_start (o_layout outline) = header_len + h_meta_len (o_header outline)"
    by (simp_all add: o)
qed

section \<open>A decoded Container\<close>

lemma decode_entries_iff:
  assumes "length cs = length es"
  shows "collect_res (decode_entry blake3) (enumerate k (zip es cs)) = Inr ds \<longleftrightarrow>
    map de_metadata ds = es \<and> map de_content ds = cs \<and> (\<forall>d \<in> set ds. content (de_metadata d) = ContentHash (blake3 (de_content d)))"
  using assms
proof (induction es cs arbitrary: k ds rule: list_induct2')
  case (4 e es c cs)
  show ?case
  proof (cases ds)
    case Nil
    then show ?thesis by (auto simp: and_then_Inr_iff)
  next
    case (Cons d ds')
    have "decode_entry blake3 (k, e, c) = Inr d \<longleftrightarrow>
        de_metadata d = e \<and> de_content d = c \<and> content e = ContentHash (blake3 c)"
      by (cases d) (auto simp: decode_entry_def Let_def)
    then show ?thesis using 4 Cons by (auto simp: and_then_Inr_iff)
  qed
qed auto

lemma decode_sound:
  assumes A: "aead_laws A" and dec: "decode L de is_nfc A blake3 object key = Inr dc"
  obtains outline ps ms where "outline_open L de is_nfc A object key = Inr outline"
    and "map de_metadata (dec_entries dc) = o_entries outline"
    and "\<forall>d \<in> set (dec_entries dc). content (de_metadata d) = ContentHash (blake3 (de_content d))"
    and "sealed_chain A (key_bytes key) (take header_len object) 0 ps ms"
    and "drop (cl_body_start (o_layout outline)) object = concat ms"
    and "length (concat ps) = cl_padded_len (o_layout outline)"
    and "map (\<lambda>d. length (de_content d)) (dec_entries dc) = map (\<lambda>e. extent_size (extent e)) (o_entries outline)"
    and "concat ps = concat (map de_content (dec_entries dc)) @ replicate (o_pad_len outline) 0"
proof -
  obtain outline where o: "outline_open L de is_nfc A object key = Inr outline"
    using dec by (auto simp: decode_def and_then_Inr_iff)
  let ?sizes = "map (\<lambda>e. extent_size (extent e)) (o_entries outline)" and ?pad = "o_pad_len outline"
  let ?exp = "cl_padded_len (o_layout outline)"
  obtain w' where oc: "open_chunks A (key_bytes key) (take header_len object) (chunk_bytes (h_chunk_size (o_header outline)))
      (stream_writer_new ?sizes ?pad ?exp) 0 (drop (cl_body_start (o_layout outline)) object) = Inr w'"
    and ne: "drop (cl_body_start (o_layout outline)) object \<noteq> []"
    and wr: "sw_written w' = ?exp"
    and es: "collect_res (decode_entry blake3) (enumerate 0 (zip (o_entries outline) (sw_contents w'))) = Inr (dec_entries dc)"
    using dec o by (auto simp: decode_def and_then_Inr_iff ok_or_Inr_iff to_usize_Some_iff Let_def split: if_splits)
  from open_chunks_sound [OF A writes_new oc ne] obtain ps ms
    where ch: "sealed_chain A (key_bytes key) (take header_len object) 0 ps ms"
      "drop (cl_body_start (o_layout outline)) object = concat ms" and w: "writes ?sizes ?pad w' (concat ps)"
    by auto
  have lc: "length (sw_contents w') = length (o_entries outline)" using w by (simp add: writes_def)
  have lp: "length (concat ps) = ?exp" using w wr by (simp add: writes_def)
  from es decode_entries_iff [OF lc] have ds: "map de_metadata (dec_entries dc) = o_entries outline"
    "map de_content (dec_entries dc) = sw_contents w'"
    "\<forall>d \<in> set (dec_entries dc). content (de_metadata d) = ContentHash (blake3 (de_content d))" by blast+
  have "length (concat ps) = sum_list ?sizes + ?pad" using lp outline_open_ok(8) [OF o] by simp
  note fin = writes_done [OF w this]
  have "map (\<lambda>d. length (de_content d)) (dec_entries dc) = map length (map de_content (dec_entries dc))" by simp
  then have "map (\<lambda>d. length (de_content d)) (dec_entries dc) = ?sizes" using fin(1) ds(2) by simp
  moreover have "concat ps = concat (map de_content (dec_entries dc)) @ replicate ?pad 0" using fin(2) ds(2) by simp
  ultimately show thesis by (rule that [OF o ds(1,3) ch lp])
qed

section \<open>Decoding what was encoded\<close>

lemma concat_lengths_inject: "concat xss = concat yss \<Longrightarrow> map length xss = map length yss \<Longrightarrow> xss = yss"
proof (induction xss arbitrary: yss)
  case (Cons x xss)
  then obtain y ys where "yss = y # ys" "length x = length y" by (cases yss) auto
  with Cons show ?case by simp
qed simp

lemma container_body_length:
  assumes A: "aead_laws A" and fit: "chunks_fit cs n s" and body: "container_body A key hb cs n s = Inr body"
  shows "length body = length s + n * tag_length"
proof -
  have len: "i \<le> n \<Longrightarrow> i < n \<or> i = n \<and> length s \<le> i * cs \<Longrightarrow> collect_res (sealed_chunk A key hb cs n s) [i..<n] = Inr ms \<Longrightarrow>
      length (concat ms) = (length s - i * cs) + (n - i) * tag_length" for i ms
  proof (induction "n - i" arbitrary: i ms)
    case (Suc k)
    have i: "i < n" using Suc.hyps(2) by simp
    then have upt: "[i..<n] = i # [i + 1..<n]" by (simp add: upt_conv_Cons)
    from Suc.prems(3) obtain m ms' where ms: "ms = m # ms'" and m: "sealed_chunk A key hb cs n s i = Inr m"
      and ms': "collect_res (sealed_chunk A key hb cs n s) [i + 1..<n] = Inr ms'"
      unfolding upt by (auto simp: and_then_Inr_iff)
    have lm: "length m = length (chunk_at cs n s i) + tag_length" by (rule sealed_chunk_length [OF A m])
    have "length (concat ms') = (length s - (i + 1) * cs) + (n - (i + 1)) * tag_length"
    proof (rule Suc.hyps(1) [OF _ _ _ ms'])
      show "k = n - (i + 1)" and "i + 1 \<le> n" using i Suc.hyps(2) by simp_all
      show "i + 1 < n \<or> i + 1 = n \<and> length s \<le> (i + 1) * cs"
        using i chunks_fit_bounds(3) [OF fit] by (cases "i + 1 = n") simp_all
    qed
    moreover have "length (chunk_at cs n s i) + (length s - (i + 1) * cs) = length s - i * cs"
    proof (cases "i + 1 = n")
      case True
      then show ?thesis using chunks_fit_bounds(3) [OF fit] by (simp add: chunk_at_def)
    next
      case False
      then have "length (chunk_at cs n s i) = cs" "(i + 1) * cs \<le> length s"
        using chunk_prefix(3) [OF fit i] chunks_fit_bounds(4) [OF fit, of i] i by auto
      then show ?thesis by simp
    qed
    moreover have "n - i = Suc (n - (i + 1))" using i by simp
    ultimately show ?case using lm by (simp add: ms)
  qed auto
  show ?thesis
    using len [of 0] chunks_fit_bounds(1) [OF fit] body by (auto simp: container_body_def and_then_Inr_iff)
qed

lemma last_placed:
  assumes "ps \<noteq> []" and "off + planned_size ps \<le> max_format_integer"
  shows "extent_end (extent (last (placed_from off ps))) = off + planned_size ps"
  using assms
proof (induction ps arbitrary: off)
  case (Cons p ps)
  show ?case
  proof (cases "ps = []")
    case True
    then show ?thesis using Cons.prems
      by (simp add: planned_size_def to_metadata_def extent_end_eq extent_ok_def)
  next
    case False
    then have "placed_from (off + ep_size p) ps \<noteq> []" by (cases ps) auto
    then show ?thesis using Cons False by (simp add: planned_size_def add.assoc)
  qed
qed simp

definition source_ok :: "(string \<Rightarrow> bool) \<Rightarrow> entry_source \<Rightarrow> bool" where
  "source_ok is_nfc s \<longleftrightarrow>
     path_ok (es_path s) \<and> is_nfc (path_str (es_path s)) \<and> i64 (mtime_secs (es_mtime s)) \<and>
     (\<forall>b. es_btime s = Some b \<longrightarrow> i64 (btime_secs b)) \<and>
     (\<forall>d. es_derived s = Some d \<longrightarrow> container_id_ok (from_container d) \<and> path_ok (from_path d) \<and> is_nfc (path_str (from_path d)))"

lemma placed_entries_ok:
  assumes "\<forall>x. length (blake3 x) = 32" and "\<forall>s \<in> set ss. source_ok is_nfc s"
    and "off + planned_size (map (plan_of_source blake3) ss) \<le> max_format_integer"
  shows "\<forall>e \<in> set (placed_from off (map (plan_of_source blake3) ss)). entry_ok is_nfc e"
proof
  fix e assume e: "e \<in> set (placed_from off (map (plan_of_source blake3) ss))"
  have "\<exists>s x. s \<in> set ss \<and> e = to_metadata (plan_of_source blake3 s) x"
    using e by (induction ss arbitrary: off) (simp, force)
  then obtain s x where s: "s \<in> set ss" "e = to_metadata (plan_of_source blake3 s) x" by blast
  moreover have "extent_ok (extent e)" using placed_from_tiled(2) [OF assms(3)] e by blast
  ultimately show "entry_ok is_nfc e"
    using assms(1,2) by (auto simp: entry_ok_def to_metadata_def plan_of_source_def source_ok_def)
qed

text \<open>The outline of a request that was laid out as \<open>ly\<close>.\<close>

definition outline_of :: "encode_request \<Rightarrow> layout \<Rightarrow> container_outline" where
  "outline_of req ly =
     \<lparr>o_header = \<lparr>h_container = er_container req, h_chunk_size = er_chunk_size req, h_meta_len = ly_meta_len ly\<rparr>,
      o_kind = er_kind req, o_pad_len = ly_pad_len ly, o_entries = ly_entries ly,
      o_layout = \<lparr>cl_chunk_size = chunk_bytes (er_chunk_size req), cl_chunk_count = ly_chunk_count ly,
        cl_body_start = header_len + ly_meta_len ly, cl_padded_len = ly_padded_len ly,
        cl_object_len = header_len + ly_meta_len ly + ly_padded_len ly + ly_chunk_count ly * tag_length\<rparr>\<rparr>"

lemma outline_open_encode:
  assumes A: "aead_laws A" and L: "cbor_laws L" and de: "serde_laws de"
    and blake3: "\<forall>x. length (blake3 x) = 32"
    and c: "container_id_ok (er_container req)" and cs: "chunk_size_ok (er_chunk_size req)"
    and src: "\<forall>s \<in> set (er_entries req). source_ok is_nfc s" and num: "length (er_entries req) \<le> 2 ^ 32"
    and enc: "encode L A blake3 req = Inr ec" and small: "length (ec_bytes ec) < 2 ^ 63"
  obtains ly body where
    "layout_plan L (er_container req) (er_chunk_size req) (er_kind req) (map (plan_of_source blake3) (er_entries req)) = Inr ly"
    and "outline_open L de is_nfc A (ec_bytes ec) (er_key req) = Inr (outline_of req ly)"
    and "take header_len (ec_bytes ec) = ly_header_bytes ly" and "drop (header_len + ly_meta_len ly) (ec_bytes ec) = body"
    and "header_len + ly_meta_len ly \<le> length (ec_bytes ec)"
    and "container_body A (key_bytes (er_key req)) (ly_header_bytes ly) (chunk_bytes (er_chunk_size req))
       (ly_chunk_count ly) (request_stream req (ly_pad_len ly)) = Inr body"
    and "chunks_fit (chunk_bytes (er_chunk_size req)) (ly_chunk_count ly) (request_stream req (ly_pad_len ly))"
    and "length body = ly_padded_len ly + ly_chunk_count ly * tag_length"
    and "ly_entries ly = placed_from 0 (map (plan_of_source blake3) (er_entries req))"
    and "length (request_stream req (ly_pad_len ly)) = ly_padded_len ly" and "ec_entries ec = ly_entries ly"
proof -
  let ?ps = "map (plan_of_source blake3) (er_entries req)" and ?key = "key_bytes (er_key req)"
  let ?us = "map es_content (er_entries req)"
  obtain ly where ly: "layout_plan L (er_container req) (er_chunk_size req) (er_kind req) ?ps = Inr ly"
    using enc by (auto simp: encode_def and_then_Inr_iff)
  have cs0: "0 < chunk_bytes (er_chunk_size req)" using cs by (simp add: chunk_size_ok_def)
  obtain ms body where meta: "seal A ?key nonce_meta (ly_header_bytes ly) (ly_meta_plaintext ly) [] = Inr ms"
    and body: "container_body A ?key (ly_header_bytes ly) (chunk_bytes (er_chunk_size req)) (ly_chunk_count ly)
       (request_stream req (ly_pad_len ly)) = Inr body"
    and ec: "ec = \<lparr>ec_bytes = ly_header_bytes ly @ ms @ body,
             ec_object_name = container_object_name (er_container req), ec_entries = ly_entries ly\<rparr>"
    using enc unfolding encode_Ok_iff [OF L cs0 ly] by blast
  obtain b where ne: "?ps \<noteq> []" and size: "planned_size ?ps \<le> max_format_integer"
    and es: "ly_entries ly = placed_from 0 ?ps"
    and pad: "planned_size ?ps + ly_pad_len ly = ly_padded_len ly" and pl: "ly_padded_len ly \<le> 2 ^ 63"
    and menc: "meta_encode L \<lparr>m_kind = er_kind req, m_pad_len = ly_pad_len ly, m_entries = placed_from 0 ?ps\<rparr> = Inr b"
    and mp: "ly_meta_plaintext ly = resize (padded_len_u64 (length b)) b"
    and ml: "ly_meta_len ly = padded_len_u64 (length b) + tag_length" "ly_meta_len ly \<le> max_meta_len"
    and hb: "ly_header_bytes ly = header_to_bytes \<lparr>h_container = er_container req, h_chunk_size = er_chunk_size req, h_meta_len = ly_meta_len ly\<rparr>"
    and n: "ly_chunk_count ly = max (div_ceil (ly_padded_len ly) (chunk_bytes (er_chunk_size req))) 1"
    by (rule layout_plan_Ok [OF L ly])
  define h where "h = \<lparr>h_container = er_container req, h_chunk_size = er_chunk_size req, h_meta_len = ly_meta_len ly\<rparr>"
  have hok: "header_ok h" using c cs ml(2) by (simp add: h_def header_ok_def)
  have hp: "header_parse (ec_bytes ec) = Inr h"
    unfolding header_parse_iff using hok by (auto simp: ec hb h_def)
  have hl: "length (ly_header_bytes ly) = header_len" using c by (simp add: hb)
  have th: "take header_len (ec_bytes ec) = ly_header_bytes ly" using hl by (simp add: ec)
  have mo: "open_message A ?key nonce_meta (ly_header_bytes ly) ms = Inr (ly_meta_plaintext ly)"
    using meta open_message_iff [OF A] by blast
  let ?m = "\<lparr>m_kind = er_kind req, m_pad_len = ly_pad_len ly, m_entries = placed_from 0 ?ps\<rparr>"
  have fit: "chunks_fit (chunk_bytes (er_chunk_size req)) (ly_chunk_count ly) (request_stream req (ly_pad_len ly))"
  proof -
    have "planned_size ?ps = length (concat ?us)"
      by (simp add: planned_size_def plan_of_source_def length_concat comp_def)
    then show ?thesis using cs0 n pad by (simp add: chunks_fit_def request_stream_def)
  qed
  have sl: "length (request_stream req (ly_pad_len ly)) = ly_padded_len ly"
    using pad by (simp add: request_stream_def planned_size_def plan_of_source_def length_concat comp_def)
  have bl: "length body = ly_padded_len ly + ly_chunk_count ly * tag_length"
    using container_body_length [OF A fit body] sl by simp
  have pmax: "ly_padded_len ly \<le> max_format_integer" using small bl by (simp add: ec max_format_integer_def)
  have bigger: "length b \<le> padded_len_u64 (length b)" and msl: "length ms = ly_meta_len ly"
  proof -
    have p: "meta_ok is_nfc ?m"
      using ne size pad pmax placed_from_tiled [of 0 ?ps] placed_entries_ok [OF blake3 src, of 0]
      by (cases "er_entries req") (auto simp: meta_ok_def)
    from meta_decode_encode [OF L de p menc] show big: "length b \<le> padded_len_u64 (length b)" by blast
    obtain q where "ms = [] @ q" "length q = length (ly_meta_plaintext ly) + tag_length"
      using seal_length [OF A meta] by blast
    then show "length ms = ly_meta_len ly" using big ml by (simp add: mp resize_grow)
  qed
  have md: "meta_decode L de is_nfc (ly_meta_plaintext ly) = Inr ?m"
  proof -
    have p: "meta_ok is_nfc ?m"
      using ne size pad pmax placed_from_tiled [of 0 ?ps] placed_entries_ok [OF blake3 src, of 0]
      by (cases "er_entries req") (auto simp: meta_ok_def)
    show ?thesis using meta_decode_encode(1) [OF L de p menc] bigger by (simp add: mp resize_grow)
  qed
  have pne: "placed_from 0 ?ps \<noteq> []" using ne by (cases "er_entries req") auto
  have plen: "plaintext_len ?m = Inr (ly_padded_len ly)"
    using last_placed [OF ne, of 0] size pad pmax pne
    by (simp add: plaintext_len_def checked_add64_def max_format_integer_def)
  define l where "l = \<lparr>cl_chunk_size = chunk_bytes (er_chunk_size req), cl_chunk_count = ly_chunk_count ly,
    cl_body_start = header_len + ly_meta_len ly, cl_padded_len = ly_padded_len ly,
    cl_object_len = header_len + ly_meta_len ly + ly_padded_len ly + ly_chunk_count ly * tag_length\<rparr>"
  have total: "length (ec_bytes ec) = header_len + ly_meta_len ly + ly_padded_len ly + ly_chunk_count ly * tag_length"
    using hl msl bl by (simp add: ec)
  have lay: "chunk_layout_of h (ly_padded_len ly) = Inr l"
    unfolding chunk_layout_of_Ok_iff [OF hok] using small total n by (simp add: h_def l_def)
  have mlen: "ly_meta_len ly < 2 ^ 64" using ml(2) by (simp add: max_meta_len_def)
  have sli: "slice header_len (header_len + ly_meta_len ly) (ec_bytes ec) = ms"
    using hl msl by (simp add: slice_def ec)
  have pos: "\<exists>k. checked_sub64 (length (er_entries req)) 1 = Some k \<and> (\<exists>x. at_position k = Inr x)"
  proof -
    have "1 \<le> length (er_entries req)" using ne by (cases "er_entries req") auto
    then show ?thesis using num by (auto simp: checked_sub64_def at_position_Ok_iff)
  qed
  have open_o: "outline_open L de is_nfc A (ec_bytes ec) (er_key req) = Inr (outline_of req ly)"
    using pos hp total mlen mo md plen lay
    by (auto simp: outline_open_def Let_def th to_usize_def usize_bits_def sli h_def outline_of_def l_def es)
  show thesis
  proof (rule that [OF ly open_o th])
    show "drop (header_len + ly_meta_len ly) (ec_bytes ec) = body" using hl msl by (simp add: ec)
  qed (use total body fit bl es sl in \<open>simp_all add: ec\<close>)
qed

lemma decode_encode:
  assumes A: "aead_laws A" and L: "cbor_laws L" and de: "serde_laws de"
    and blake3: "\<forall>x. length (blake3 x) = 32"
    and c: "container_id_ok (er_container req)" and cs: "chunk_size_ok (er_chunk_size req)"
    and src: "\<forall>s \<in> set (er_entries req). source_ok is_nfc s" and num: "length (er_entries req) \<le> 2 ^ 32"
    and enc: "encode L A blake3 req = Inr ec" and small: "length (ec_bytes ec) < 2 ^ 63"
  shows "\<exists>ds. decode L de is_nfc A blake3 (ec_bytes ec) (er_key req) =
      Inr \<lparr>dec_container = er_container req, dec_chunk_size = er_chunk_size req, dec_kind = er_kind req, dec_entries = ds\<rparr> \<and>
    map de_content ds = map es_content (er_entries req) \<and> map de_metadata ds = ec_entries ec"
proof -
  let ?ps = "map (plan_of_source blake3) (er_entries req)" and ?key = "key_bytes (er_key req)"
  let ?us = "map es_content (er_entries req)"
  obtain ly body where open_o: "outline_open L de is_nfc A (ec_bytes ec) (er_key req) = Inr (outline_of req ly)"
    and th: "take header_len (ec_bytes ec) = ly_header_bytes ly"
    and dr: "drop (header_len + ly_meta_len ly) (ec_bytes ec) = body" "header_len + ly_meta_len ly \<le> length (ec_bytes ec)"
    and body: "container_body A ?key (ly_header_bytes ly) (chunk_bytes (er_chunk_size req)) (ly_chunk_count ly)
       (request_stream req (ly_pad_len ly)) = Inr body"
    and fit: "chunks_fit (chunk_bytes (er_chunk_size req)) (ly_chunk_count ly) (request_stream req (ly_pad_len ly))"
    and bl: "length body = ly_padded_len ly + ly_chunk_count ly * tag_length"
    and es: "ly_entries ly = placed_from 0 ?ps" and sl: "length (request_stream req (ly_pad_len ly)) = ly_padded_len ly"
    and ee: "ec_entries ec = ly_entries ly"
    by (rule outline_open_encode [OF assms])
  have ex: "writes (map length ?us) (ly_pad_len ly) (stream_writer_new (map length ?us) (ly_pad_len ly) (ly_padded_len ly))
      (take (0 * chunk_bytes (er_chunk_size req)) (concat ?us @ replicate (ly_pad_len ly) 0))"
    using writes_new by simp
  obtain mss where mss: "collect_res (sealed_chunk A ?key (ly_header_bytes ly) (chunk_bytes (er_chunk_size req)) (ly_chunk_count ly)
      (concat ?us @ replicate (ly_pad_len ly) 0)) [0..<ly_chunk_count ly] = Inr mss" "body = concat mss"
    using body by (auto simp: container_body_def and_then_Inr_iff request_stream_def)
  have n0: "0 < ly_chunk_count ly" by (rule chunks_fit_bounds(1) [OF fit])
  from open_chunks_complete [OF A fit [unfolded request_stream_def] n0 mss(1) ex] obtain w'
    where w': "open_chunks A ?key (ly_header_bytes ly) (chunk_bytes (er_chunk_size req))
        (stream_writer_new (map length ?us) (ly_pad_len ly) (ly_padded_len ly)) 0 body = Inr w'"
      and ww: "writes (map length ?us) (ly_pad_len ly) w' (concat ?us @ replicate (ly_pad_len ly) 0)"
    using mss(2) by blast
  have cont: "sw_contents w' = ?us"
  proof -
    have "map length (sw_contents w') = map length ?us"
      and "concat ?us @ replicate (ly_pad_len ly) 0 = concat (sw_contents w') @ replicate (ly_pad_len ly) (0::byte)"
      using writes_done [OF ww] by (simp_all add: length_concat)
    then show ?thesis by (intro concat_lengths_inject) simp_all
  qed
  have wl: "sw_written w' = ly_padded_len ly" using ww sl by (simp add: writes_def request_stream_def)
  have sizes: "map (\<lambda>e. extent_size (extent e)) (placed_from 0 ?ps) = map length ?us"
    by (simp add: placed_from_sizes plan_of_source_def comp_def)
  define ds where "ds = map (\<lambda>(m, c). \<lparr>de_metadata = m, de_content = c\<rparr>) (zip (placed_from 0 ?ps) ?us)"
  have dsl: "map de_metadata ds = placed_from 0 ?ps" "map de_content ds = ?us"
    by (rule nth_equalityI; simp add: ds_def split_beta)+
  have hash: "content (placed_from off (map (plan_of_source blake3) ss) ! i) = ContentHash (blake3 (es_content (ss ! i)))"
    if "i < length ss" for ss off i
    using that by (induction ss arbitrary: off i) (auto simp: nth_Cons to_metadata_def plan_of_source_def split: nat.split)
  have dse: "collect_res (decode_entry blake3) (enumerate 0 (zip (placed_from 0 ?ps) ?us)) = Inr ds"
  proof -
    have "content (de_metadata d) = ContentHash (blake3 (de_content d))" if "d \<in> set ds" for d
    proof -
      from that obtain i where "i < length (er_entries req)" "d = \<lparr>de_metadata = placed_from 0 ?ps ! i, de_content = ?us ! i\<rparr>"
        by (auto simp: ds_def in_set_conv_nth)
      then show ?thesis using hash [of i "er_entries req" 0] by simp
    qed
    then show ?thesis by (subst decode_entries_iff) (simp_all add: dsl)
  qed
  have "decode L de is_nfc A blake3 (ec_bytes ec) (er_key req) =
      Inr \<lparr>dec_container = er_container req, dec_chunk_size = er_chunk_size req, dec_kind = er_kind req, dec_entries = ds\<rparr>"
  proof -
    have cb: "to_usize (chunk_bytes (er_chunk_size req)) = Some (chunk_bytes (er_chunk_size req))"
      using cs by (simp add: chunk_size_ok_def to_usize_def usize_bits_def)
    have bs: "to_usize (header_len + ly_meta_len ly) = Some (header_len + ly_meta_len ly)"
      using small dr(2) by (simp add: to_usize_def usize_bits_def)
    have bne: "body \<noteq> []" using bl n0 by (auto simp: tag_length_def)
    show ?thesis
      unfolding decode_def open_o and_then.simps
      using w' dse
      by (simp add: outline_of_def es Let_def cb bs dr bne th sizes wl cont)
  qed
  then show ?thesis using dsl by (intro exI [of _ ds]) (simp add: ee es)
qed

end
