(* ===== verification/Chunk_Reading.thy ===== *)
theory Chunk_Reading
  imports Container_Decoding Chunk_Geometry
begin

text \<open>
  \<open>coffret-format/src/container_reader/chunk_run_reader.rs\<close>: the plaintext of a run of chunks out of ciphertext
  that arrives in pieces. The lemmas say that the pieces do not matter: a run is read exactly when the bytes
  are its messages, whole, in order and authentic, and what is read of a Container's body is the range of the
  stream the run covers.
\<close>

section \<open>The reader\<close>

record run_reader =
  rr_key :: "byte list"
  rr_header_bytes :: "byte list"
  rr_layout :: chunk_layout
  rr_index :: nat
  rr_end :: nat
  rr_message :: "byte list"
  rr_expected :: nat
  rr_delivered :: nat

definition rr_begin :: "container_outline \<Rightarrow> container_key \<Rightarrow> chunk_run \<Rightarrow> run_reader" where
  "rr_begin outline key run =
     (let (start, stop) = run_ciphertext run
      in \<lparr>rr_key = key_bytes key, rr_header_bytes = header_to_bytes (o_header outline), rr_layout = run_layout run,
          rr_index = run_first run, rr_end = wadd64 (run_first run) (run_count run), rr_message = [],
          rr_expected = wsub64 stop start, rr_delivered = 0\<rparr>)"

definition rr_open :: "aead \<Rightarrow> run_reader \<Rightarrow> byte list \<Rightarrow> byte list \<Rightarrow> format_error + (run_reader \<times> byte list)" where
  "rr_open A r message out =
     (let is_final = (rr_index r = final_index (rr_layout r))
      in and_then (open_message A (rr_key r) (nonce_chunk (rr_index r) is_final) (rr_header_bytes r) message) (\<lambda>plaintext.
           Ok (r\<lparr>rr_index := rr_index r + 1\<rparr>, out @ plaintext)))"

text \<open>The loop of \<open>read\<close>; \<open>given\<close> is the length of the ciphertext it was called with. A difference below zero
  would wrap to more than is left, and then all of it is taken; \<open>reader_ok\<close> excludes it.\<close>

definition rr_take :: "nat \<Rightarrow> run_reader \<Rightarrow> byte list \<Rightarrow> nat" where
  "rr_take message_len r remaining =
     (if length (rr_message r) \<le> message_len then min (message_len - length (rr_message r)) (length remaining)
      else length remaining)"

lemma rr_open_nonempty: "rr_open A r message out = Inr (r', out') \<Longrightarrow> message \<noteq> []"
  by (auto simp: rr_open_def open_message_def checked_sub64_def tag_length_def and_then_Inr_iff)

function rr_loop :: "aead \<Rightarrow> nat \<Rightarrow> run_reader \<Rightarrow> byte list \<Rightarrow> byte list \<Rightarrow> format_error + (run_reader \<times> byte list)" where
  "rr_loop A given r remaining out =
     (if remaining = [] then Ok (r, out)
      else if rr_index r = rr_end r then Err (ChunkRunOverrun (rr_expected r) (wadd64 (rr_delivered r) given))
      else let declared = message_len_of (rr_layout r) (rr_index r)
           in and_then (ok_or (UnaddressableOnThisBuild ''chunk message'' declared) (to_usize declared)) (\<lambda>message_len.
              if rr_message r = [] \<and> message_len \<le> length remaining
              then and_then (rr_open A r (take message_len remaining) out) (\<lambda>(r, out).
                     rr_loop A given r (drop message_len remaining) out)
              else let n = rr_take message_len r remaining;
                       message = rr_message r @ take n remaining
                   in if length message = message_len
                      then and_then (rr_open A (r\<lparr>rr_message := []\<rparr>) message out) (\<lambda>(r, out).
                             rr_loop A given r (drop n remaining) out)
                      else rr_loop A given (r\<lparr>rr_message := message\<rparr>) (drop n remaining) out))"
  by pat_completeness auto
termination
proof (relation "measures [\<lambda>(A, given, r, remaining, out). length remaining, \<lambda>(A, given, r, remaining, out). length (rr_message r)]", goal_cases)
  case (2 A given r remaining out declared message_len x r' out')
  then have "take message_len remaining \<noteq> []" using rr_open_nonempty by blast
  with 2(1) show ?case by auto
next
  case (3 A given r remaining out declared message_len n message x r' out')
  have r': "rr_message r' = []" using 3 by (auto simp: rr_open_def and_then_Inr_iff)
  show ?case
  proof (cases "n = 0")
    case True
    then have "rr_message r \<noteq> []" using 3 by (auto simp: rr_take_def split: if_splits)
    then show ?thesis using True r' by simp
  next
    case False
    then show ?thesis using 3(1) by simp
  qed
next
  case (4 A given r remaining out declared message_len n message)
  then have "n \<noteq> 0" by (auto simp: rr_take_def split: if_splits)
  with 4(1) show ?case by simp
qed simp

declare rr_loop.simps [simp del]

definition rr_read :: "aead \<Rightarrow> run_reader \<Rightarrow> byte list \<Rightarrow> byte list \<Rightarrow> format_error + (run_reader \<times> byte list)" where
  "rr_read A r ciphertext out =
     and_then (rr_loop A (length ciphertext) r ciphertext out) (\<lambda>(r, out).
       Ok (r\<lparr>rr_delivered := wadd64 (rr_delivered r) (length ciphertext)\<rparr>, out))"

definition rr_finish :: "run_reader \<Rightarrow> format_error + unit" where
  "rr_finish r =
     (if rr_index r \<noteq> rr_end r \<or> rr_message r \<noteq> [] then Err (ChunkRunTruncated (rr_expected r) (rr_delivered r)) else Ok ())"

fun rr_read_all :: "aead \<Rightarrow> run_reader \<Rightarrow> byte list list \<Rightarrow> byte list \<Rightarrow> format_error + (run_reader \<times> byte list)" where
  "rr_read_all A r [] out = Ok (r, out)"
| "rr_read_all A r (piece # pieces) out = and_then (rr_read A r piece out) (\<lambda>(r, out). rr_read_all A r pieces out)"

definition rr_run :: "aead \<Rightarrow> container_outline \<Rightarrow> container_key \<Rightarrow> chunk_run \<Rightarrow> byte list list \<Rightarrow> format_error + byte list" where
  "rr_run A outline key run pieces =
     and_then (rr_read_all A (rr_begin outline key run) pieces []) (\<lambda>(r, out). and_then (rr_finish r) (\<lambda>_. Ok out))"

section \<open>The messages of a run\<close>

fun opened :: "aead \<Rightarrow> byte list \<Rightarrow> byte list \<Rightarrow> chunk_layout \<Rightarrow> nat \<Rightarrow> nat \<Rightarrow> byte list \<Rightarrow> byte list option" where
  "opened A key hb l i 0 s = (if s = [] then Some [] else None)"
| "opened A key hb l i (Suc n) s =
     (if length s < message_len_of l i then None
      else case open_message A key (nonce_chunk i (i = final_index l)) hb (take (message_len_of l i) s) of
             Inl _ \<Rightarrow> None
           | Inr p \<Rightarrow> map_option ((@) p) (opened A key hb l (i + 1) n (drop (message_len_of l i) s)))"

definition rest_opened :: "aead \<Rightarrow> run_reader \<Rightarrow> byte list \<Rightarrow> byte list option" where
  "rest_opened A r s =
     opened A (rr_key r) (rr_header_bytes r) (rr_layout r) (rr_index r) (rr_end r - rr_index r) (rr_message r @ s)"

text \<open>A reader between two calls: inside its run, and short of a whole message.\<close>

definition reader_ok :: "run_reader \<Rightarrow> bool" where
  "reader_ok r \<longleftrightarrow> rr_index r \<le> rr_end r \<and> (rr_index r = rr_end r \<longrightarrow> rr_message r = []) \<and>
     (\<forall>i. rr_index r \<le> i \<and> i < rr_end r \<longrightarrow> 0 < message_len_of (rr_layout r) i) \<and>
     (rr_index r < rr_end r \<longrightarrow> length (rr_message r) < message_len_of (rr_layout r) (rr_index r))"

lemma message_len_of_usize: "to_usize (message_len_of l i) = Some (message_len_of l i)"
  using wadd64_bound by (simp add: message_len_of_def to_usize_def usize_bits_def)

lemma rest_opened_message:
  assumes "reader_ok r" and "rr_index r < rr_end r" and "rr_message r @ s = m @ later"
    and "length m = message_len_of (rr_layout r) (rr_index r)"
  shows "rest_opened A r s =
    (case rr_open A (r\<lparr>rr_message := []\<rparr>) m out of Inl _ \<Rightarrow> None
     | Inr (r', out') \<Rightarrow> map_option (\<lambda>x. drop (length out) out' @ x) (rest_opened A r' later))"
proof -
  obtain n where n: "rr_end r - rr_index r = Suc n" "n = rr_end r - (rr_index r + 1)"
    using assms(2) by (metis Suc_diff_Suc Suc_eq_plus1)
  let ?o = "open_message A (rr_key r) (nonce_chunk (rr_index r) (rr_index r = final_index (rr_layout r))) (rr_header_bytes r) m"
  have "rest_opened A r s = (case ?o of Inl _ \<Rightarrow> None
      | Inr p \<Rightarrow> map_option ((@) p) (opened A (rr_key r) (rr_header_bytes r) (rr_layout r) (rr_index r + 1) n later))"
    unfolding rest_opened_def n(1) assms(3) using assms(4) by (simp cong: sum.case_cong)
  then show ?thesis
    using n(2) by (cases ?o) (simp_all add: rr_open_def rest_opened_def)
qed

lemma rest_opened_moved:
  "rr_message r @ s = m @ s' \<Longrightarrow> rest_opened A r s = rest_opened A (r\<lparr>rr_message := m\<rparr>) s'"
  by (simp add: rest_opened_def)

lemma rr_open_ok:
  assumes "reader_ok r" and "rr_index r < rr_end r" and "rr_open A (r\<lparr>rr_message := []\<rparr>) m out = Inr (r', out')"
  shows "reader_ok r'" and "rr_end r' = rr_end r" and "\<exists>p. out' = out @ p" and "rr_message r' = []"
    and "rr_index r' = rr_index r + 1"
  using assms by (auto simp: rr_open_def reader_ok_def and_then_Inr_iff)

text \<open>What a step of the loop has to do with the messages that are left.\<close>

definition accounts :: "aead \<Rightarrow> run_reader \<Rightarrow> byte list \<Rightarrow> byte list \<Rightarrow> format_error + (run_reader \<times> byte list) \<Rightarrow> bool" where
  "accounts A r rem out result \<longleftrightarrow>
     (case result of
        Inl e \<Rightarrow> \<forall>later. rest_opened A r (rem @ later) = None
      | Inr (r', out') \<Rightarrow> reader_ok r' \<and> (\<exists>p. out' = out @ p \<and>
          (\<forall>later. rest_opened A r (rem @ later) = map_option ((@) p) (rest_opened A r' later))))"

lemma accounts_moved:
  "accounts A r' rem' out res \<Longrightarrow> (\<And>later. rest_opened A r (rem @ later) = rest_opened A r' (rem' @ later)) \<Longrightarrow>
    accounts A r rem out res"
  by (cases res) (simp_all add: accounts_def split_beta)

lemma append_twice [simp]: "(\<lambda>x. a @ b @ x) = (@) (a @ b)"
  by (rule ext) simp

lemma accounts_open:
  assumes ok: "reader_ok r" and lt: "rr_index r < rr_end r" and m: "rr_message r @ rem = m @ rem'"
    and len: "length m = message_len_of (rr_layout r) (rr_index r)"
    and nxt: "\<And>r1 out1. rr_open A (r\<lparr>rr_message := []\<rparr>) m out = Inr (r1, out1) \<Longrightarrow> reader_ok r1 \<Longrightarrow> accounts A r1 rem' out1 (f r1 out1)"
  shows "accounts A r rem out (and_then (rr_open A (r\<lparr>rr_message := []\<rparr>) m out) (\<lambda>(r, out). f r out))"
proof -
  have eq: "rest_opened A r (rem @ later) = (case rr_open A (r\<lparr>rr_message := []\<rparr>) m out of Inl _ \<Rightarrow> None
     | Inr (r', out') \<Rightarrow> map_option (\<lambda>x. drop (length out) out' @ x) (rest_opened A r' (rem' @ later)))" for later
    by (rule rest_opened_message [OF ok lt _ len]) (use m in \<open>simp flip: append_assoc\<close>)
  show ?thesis
  proof (cases "rr_open A (r\<lparr>rr_message := []\<rparr>) m out")
    case (Inl e)
    then show ?thesis using eq by (simp add: accounts_def)
  next
    case (Inr q)
    obtain r1 out1 where q: "q = (r1, out1)" by (cases q)
    from rr_open_ok [OF ok lt Inr [unfolded q]] obtain p where ok1: "reader_ok r1" and p: "out1 = out @ p" by blast
    from nxt [OF Inr [unfolded q] ok1] have "accounts A r1 rem' out1 (f r1 out1)" .
    then show ?thesis
      using eq Inr q p by (auto simp: accounts_def option.map_comp comp_def split: sum.splits)
  qed
qed

lemma rr_loop_accounts: "reader_ok r \<Longrightarrow> accounts A r rem out (rr_loop A given r rem out)"
proof (induction A given r rem out rule: rr_loop.induct)
  case (1 A given r remaining out)
  let ?ml = "message_len_of (rr_layout r) (rr_index r)"
  show ?case
  proof (cases "remaining = [] \<or> rr_index r = rr_end r")
    case True
    have id: "map_option ((@) []) x = x" for x :: "byte list option" by (cases x) simp_all
    show ?thesis
    proof (cases "remaining = []")
      case True
      then show ?thesis using 1(4) id by (subst rr_loop.simps) (simp add: accounts_def)
    next
      case False
      then have "rr_index r = rr_end r" using True by simp
      then show ?thesis using False 1(4)
        by (subst rr_loop.simps) (simp add: accounts_def rest_opened_def reader_ok_def)
    qed
  next
    case False
    then have ne: "remaining \<noteq> []" and lt: "rr_index r < rr_end r" using 1(4) by (auto simp: reader_ok_def)
    have neq: "rr_index r \<noteq> rr_end r" using lt by simp
    have small: "length (rr_message r) < ?ml" using 1(4) lt by (simp add: reader_ok_def)
    have us: "ok_or (UnaddressableOnThisBuild ''chunk message'' ?ml) (to_usize ?ml) = Inr ?ml" by (simp add: message_len_of_usize)
    let ?whole = "rr_message r = [] \<and> ?ml \<le> length remaining"
    let ?n = "rr_take ?ml r remaining"
    let ?m = "rr_message r @ take ?n remaining"
    have n: "?n = min (?ml - length (rr_message r)) (length remaining)" using small by (simp add: rr_take_def)
    show ?thesis
    proof (cases ?whole)
      case True
      have r: "r\<lparr>rr_message := []\<rparr> = r" using True by simp
      have "accounts A r remaining out (and_then (rr_open A (r\<lparr>rr_message := []\<rparr>) (take ?ml remaining) out)
          (\<lambda>(r, out). rr_loop A given r (drop ?ml remaining) out))"
      proof (rule accounts_open [OF 1(4) lt])
        show "rr_message r @ remaining = take ?ml remaining @ drop ?ml remaining" using True by simp
        show "length (take ?ml remaining) = ?ml" using True by simp
        fix r1 out1 assume "rr_open A (r\<lparr>rr_message := []\<rparr>) (take ?ml remaining) out = Inr (r1, out1)" and "reader_ok r1"
        then show "accounts A r1 (drop ?ml remaining) out1 (rr_loop A given r1 (drop ?ml remaining) out1)"
          using 1(1) [OF ne neq refl us True, of "(r1, out1)" r1 out1] r by simp
      qed
      moreover have "rr_loop A given r remaining out = and_then (rr_open A (r\<lparr>rr_message := []\<rparr>) (take ?ml remaining) out)
          (\<lambda>(r, out). rr_loop A given r (drop ?ml remaining) out)"
        unfolding r using ne neq us True by (subst rr_loop.simps) (simp add: Let_def)
      ultimately show ?thesis by simp
    next
      case notwhole: False
      show ?thesis
      proof (cases "length ?m = ?ml")
        case True
        have "accounts A r remaining out (and_then (rr_open A (r\<lparr>rr_message := []\<rparr>) ?m out)
            (\<lambda>(r, out). rr_loop A given r (drop ?n remaining) out))"
        proof (rule accounts_open [OF 1(4) lt _ True])
          show "rr_message r @ remaining = ?m @ drop ?n remaining" by simp
          fix r1 out1 assume "rr_open A (r\<lparr>rr_message := []\<rparr>) ?m out = Inr (r1, out1)" and "reader_ok r1"
          then show "accounts A r1 (drop ?n remaining) out1 (rr_loop A given r1 (drop ?n remaining) out1)"
            using 1(2) [OF ne neq refl us notwhole refl refl True, of "(r1, out1)" r1 out1] by simp
        qed
        moreover have "rr_loop A given r remaining out = and_then (rr_open A (r\<lparr>rr_message := []\<rparr>) ?m out)
            (\<lambda>(r, out). rr_loop A given r (drop ?n remaining) out)"
          using ne neq us notwhole True by (subst rr_loop.simps) (auto simp: Let_def)
        ultimately show ?thesis by simp
      next
        case short: False
        then have lm: "length ?m < ?ml" using n small by auto
        let ?r = "r\<lparr>rr_message := ?m\<rparr>"
        have ok1: "reader_ok ?r" using 1(4) lm lt by (simp add: reader_ok_def)
        have "accounts A ?r (drop ?n remaining) out (rr_loop A given ?r (drop ?n remaining) out)"
          by (rule 1(3) [OF ne neq refl us notwhole refl refl short ok1])
        moreover have "rr_loop A given r remaining out = rr_loop A given ?r (drop ?n remaining) out"
          using ne neq us notwhole short by (subst rr_loop.simps) (auto simp: Let_def)
        moreover have "rest_opened A r (remaining @ later) = rest_opened A ?r (drop ?n remaining @ later)" for later
        proof -
          have "rr_message r @ remaining @ later = ?m @ drop ?n remaining @ later"
            by (metis append_assoc append_take_drop_id)
          then show ?thesis by (rule rest_opened_moved)
        qed
        ultimately show ?thesis using accounts_moved by simp
      qed
    qed
  qed
qed

lemma rr_read_all_accounts: "reader_ok r \<Longrightarrow> accounts A r (concat pieces) out (rr_read_all A r pieces out)"
proof (induction pieces arbitrary: r out)
  case Nil
  have "map_option ((@) []) x = x" for x :: "byte list option" by (cases x) simp_all
  then show ?case using Nil by (simp add: accounts_def)
next
  case (Cons p ps)
  from rr_loop_accounts [OF Cons.prems, of A p out "length p"]
  have acc: "accounts A r p out (rr_loop A (length p) r p out)" .
  show ?case
  proof (cases "rr_loop A (length p) r p out")
    case (Inl e)
    then show ?thesis using acc by (simp add: accounts_def rr_read_def)
  next
    case (Inr q)
    obtain r1 out1 where q: "q = (r1, out1)" by (cases q)
    let ?r1 = "r1\<lparr>rr_delivered := wadd64 (rr_delivered r1) (length p)\<rparr>"
    have same: "rest_opened A ?r1 later = rest_opened A r1 later" "reader_ok ?r1 = reader_ok r1" for later
      by (simp_all add: rest_opened_def reader_ok_def)
    obtain d where ok1: "reader_ok r1" and d: "out1 = out @ d"
      "\<And>later. rest_opened A r (p @ later) = map_option ((@) d) (rest_opened A r1 later)"
      using acc Inr q by (auto simp: accounts_def)
    have "accounts A ?r1 (concat ps) out1 (rr_read_all A ?r1 ps out1)" using ok1 same(2) by (intro Cons.IH) simp
    then show ?thesis
      using Inr q d same(1)
      by (auto simp: accounts_def rr_read_def option.map_comp comp_def split: sum.splits)
  qed
qed

lemma rr_run_eq:
  assumes "run_ok run"
  shows "rr_run A outline key run pieces = Inr out \<longleftrightarrow>
    opened A (key_bytes key) (header_to_bytes (o_header outline)) (run_layout run) (run_first run) (run_count run) (concat pieces) = Some out"
proof -
  let ?r = "rr_begin outline key run"
  have fc: "wadd64 (run_first run) (run_count run) = run_first run + run_count run"
  proof -
    have "cl_chunk_count (run_layout run) < 2 ^ 64" using assms layout_bounds(5) [of "run_layout run"] by (simp add: run_ok_def)
    then show ?thesis using assms by (intro wadd64_small) (simp add: run_ok_def)
  qed
  have f: "rr_index ?r = run_first run" "rr_end ?r = run_first run + run_count run" "rr_message ?r = []"
    "rr_layout ?r = run_layout run" "rr_key ?r = key_bytes key" "rr_header_bytes ?r = header_to_bytes (o_header outline)"
    by (simp_all add: rr_begin_def fc split_beta)
  have pos: "0 < message_len_of (run_layout run) i" if "i < run_first run + run_count run" for i
    using that assms by (subst message_len_eq) (auto simp: run_ok_def tag_length_def)
  have ok: "reader_ok ?r" using assms pos by (simp add: reader_ok_def f run_ok_def)
  have start: "rest_opened A ?r s = opened A (key_bytes key) (header_to_bytes (o_header outline)) (run_layout run) (run_first run) (run_count run) s" for s
    by (simp add: rest_opened_def f)
  from rr_read_all_accounts [OF ok, of A pieces "[]"]
  have acc: "accounts A ?r (concat pieces) [] (rr_read_all A ?r pieces [])" .
  show ?thesis
  proof (cases "rr_read_all A ?r pieces []")
    case (Inl e)
    then have "rest_opened A ?r (concat pieces) = None" using acc by (auto simp: accounts_def dest: spec [of _ "[]"])
    then show ?thesis using Inl start by (simp add: rr_run_def)
  next
    case (Inr q)
    obtain r1 out1 where q: "q = (r1, out1)" by (cases q)
    have ok1: "reader_ok r1" and eq: "rest_opened A ?r (concat pieces) = map_option ((@) out1) (rest_opened A r1 [])"
      using acc Inr q by (auto simp: accounts_def dest: spec [of _ "[]"])
    have fin: "rest_opened A r1 [] = (if rr_index r1 = rr_end r1 then Some [] else None)"
    proof (cases "rr_index r1 = rr_end r1")
      case True
      then show ?thesis using ok1 by (simp add: rest_opened_def reader_ok_def)
    next
      case False
      then have lt: "rr_index r1 < rr_end r1" using ok1 by (simp add: reader_ok_def)
      then obtain n where "rr_end r1 - rr_index r1 = Suc n" by (metis Suc_diff_Suc)
      then show ?thesis using lt ok1 by (simp add: rest_opened_def reader_ok_def)
    qed
    have "rr_run A outline key run pieces = (if rr_index r1 = rr_end r1 then Inr out1 else Inl (ChunkRunTruncated (rr_expected r1) (rr_delivered r1)))"
      using Inr q ok1 by (simp add: rr_run_def rr_finish_def reader_ok_def)
    then show ?thesis using eq fin start by simp
  qed
qed

end
