(* ===== verification/Chunk_Fetching.thy ===== *)
theory Chunk_Fetching
  imports Chunk_Reading
begin

text \<open>
  A ranged read of an encoded Container, end to end: the bytes \<open>ChunkRun::ciphertext\<close> names of an object that
  \<open>encode\<close> wrote, fed to \<open>ChunkRunReader\<close> in whatever pieces they arrive, are the plaintext
  \<open>ChunkRun::plaintext\<close> names, so that an entry is read out of the chunks that cover it and nothing else.
\<close>

lemma message_of_chunk:
  assumes l: "layout_ok l" and fit: "chunks_fit (cl_chunk_size l) (cl_chunk_count l) s" and s: "length s = cl_padded_len l"
    and A: "aead_laws A" and i: "i < cl_chunk_count l"
    and m: "sealed_chunk A key hb (cl_chunk_size l) (cl_chunk_count l) s i = Inr m"
  shows "length m = message_len_of l i"
    and "open_message A key (nonce_chunk i (i = final_index l)) hb m = Inr (chunk_at (cl_chunk_size l) (cl_chunk_count l) s i)"
proof -
  have "length (chunk_at (cl_chunk_size l) (cl_chunk_count l) s i) = plaintext_len_of l i"
  proof (cases "i + 1 = cl_chunk_count l")
    case True
    then show ?thesis
      using chunks_fit_bounds(3) [OF fit] s by (simp add: chunk_at_def plaintext_len_eq [OF l i] flip: True)
  next
    case False
    then have "i + 1 < cl_chunk_count l" using i by simp
    moreover from this have "(i + 1) * cl_chunk_size l \<le> length s" by (intro chunks_fit_bounds(4) [OF fit]) simp
    ultimately show ?thesis
      using chunk_prefix(3) [OF fit i] s by (simp add: plaintext_len_eq [OF l i] min_def)
  qed
  then show "length m = message_len_of l i"
    using sealed_chunk_length [OF A m] by (simp add: message_len_eq [OF l i])
  have "(i + 1 = cl_chunk_count l) = (i = final_index l)" using i by (auto simp: final_index_eq [OF l])
  with m show "open_message A key (nonce_chunk i (i = final_index l)) hb m = Inr (chunk_at (cl_chunk_size l) (cl_chunk_count l) s i)"
    using open_message_iff [OF A] by (simp add: sealed_chunk_def)
qed

lemma opened_sealed:
  assumes l: "layout_ok l" and fit: "chunks_fit (cl_chunk_size l) (cl_chunk_count l) s" and s: "length s = cl_padded_len l"
    and A: "aead_laws A"
  shows "i + k \<le> cl_chunk_count l \<Longrightarrow>
    collect_res (sealed_chunk A key hb (cl_chunk_size l) (cl_chunk_count l) s) [i..<i + k] = Inr ms \<Longrightarrow>
    opened A key hb l i k (concat ms) = Some (concat (map (chunk_at (cl_chunk_size l) (cl_chunk_count l) s) [i..<i + k]))"
proof (induction k arbitrary: i ms)
  case (Suc k)
  have upt: "[i..<i + Suc k] = i # [i + 1..<(i + 1) + k]" by (simp add: upt_conv_Cons del: upt_Suc)
  from Suc.prems(2) obtain m ms' where ms: "ms = m # ms'"
    and m: "sealed_chunk A key hb (cl_chunk_size l) (cl_chunk_count l) s i = Inr m"
    and ms': "collect_res (sealed_chunk A key hb (cl_chunk_size l) (cl_chunk_count l) s) [i + 1..<(i + 1) + k] = Inr ms'"
    unfolding upt by (auto simp: and_then_Inr_iff)
  have "i < cl_chunk_count l" using Suc.prems(1) by simp
  note msg = message_of_chunk [OF l fit s A this m]
  have "opened A key hb l (i + 1) k (concat ms') =
      Some (concat (map (chunk_at (cl_chunk_size l) (cl_chunk_count l) s) [i + 1..<(i + 1) + k]))"
    by (rule Suc.IH [OF _ ms']) (use Suc.prems(1) in simp)
  then show ?case unfolding upt by (simp add: ms msg flip: msg(1))
qed simp

lemma chunks_concat:
  assumes fit: "chunks_fit cs n s"
  shows "i + k \<le> n \<Longrightarrow> take (i * cs) s @ concat (map (chunk_at cs n s) [i..<i + k]) = take ((i + k) * cs) s"
proof (induction k)
  case (Suc k)
  then have "take (i * cs) s @ concat (map (chunk_at cs n s) [i..<i + k]) @ chunk_at cs n s (i + k) =
      take ((i + k) * cs) s @ chunk_at cs n s (i + k)" by simp
  also have "\<dots> = take ((i + Suc k) * cs) s" using chunk_prefix(1) [OF fit, of "i + k"] Suc.prems by simp
  finally show ?case by simp
qed simp

text \<open>The messages before a run, in the run and after it.\<close>

lemma collect_res_split:
  "collect_res f (xs @ ys) = Inr zs \<Longrightarrow> \<exists>us vs. zs = us @ vs \<and> collect_res f xs = Inr us \<and> collect_res f ys = Inr vs"
  by (auto simp: collect_res_append and_then_Inr_iff)

lemma messages_length:
  assumes A: "aead_laws A" and fit: "chunks_fit cs n s"
  shows "k \<le> n \<Longrightarrow> collect_res (sealed_chunk A key hb cs n s) [0..<k] = Inr ms \<Longrightarrow>
    length (concat ms) = min (length s) (k * cs) + k * tag_length"
proof (induction k arbitrary: ms)
  case (Suc k)
  have upt: "[0..<Suc k] = [0..<k] @ [k]" by simp
  from Suc.prems(2) [unfolded upt, THEN collect_res_split] obtain us m where
    ms: "ms = us @ [m]" "collect_res (sealed_chunk A key hb cs n s) [0..<k] = Inr us" and m: "sealed_chunk A key hb cs n s k = Inr m"
    by (auto simp: and_then_Inr_iff)
  have k: "k < n" using Suc.prems(1) by simp
  have "length (take (k * cs) s) + length (chunk_at cs n s k) = length (take ((k + 1) * cs) s)"
    using chunk_prefix(1) [OF fit k] by (metis length_append)
  then have "min (length s) (k * cs) + length (chunk_at cs n s k) = min (length s) (Suc k * cs)" by simp
  then show ?case using Suc.IH [OF _ ms(2)] k sealed_chunk_length [OF A m] ms(1) by simp
qed simp

lemma run_of_body:
  assumes l: "layout_ok l" and fit: "chunks_fit (cl_chunk_size l) (cl_chunk_count l) s" and s: "length s = cl_padded_len l"
    and A: "aead_laws A" and body: "container_body A key hb (cl_chunk_size l) (cl_chunk_count l) s = Inr body"
    and le: "f + c \<le> cl_chunk_count l"
  shows "opened A key hb l f c
      (slice (min (length s) (f * cl_chunk_size l) + f * tag_length)
             (min (length s) ((f + c) * cl_chunk_size l) + (f + c) * tag_length) body) =
    Some (slice (f * cl_chunk_size l) ((f + c) * cl_chunk_size l) s)"
proof -
  let ?cs = "cl_chunk_size l" and ?n = "cl_chunk_count l"
  let ?f = "sealed_chunk A key hb ?cs ?n s"
  obtain ms where ms: "collect_res ?f [0..<?n] = Inr ms" and b: "body = concat ms"
    using body by (auto simp: container_body_def and_then_Inr_iff)
  have "[0..<?n] = [0..<f + c] @ [f + c..<?n]" using le by (metis le0 upt_add_eq_append le_add_diff_inverse)
  from ms [unfolded this, THEN collect_res_split] obtain us vs where
    uv: "ms = us @ vs" "collect_res ?f [0..<f + c] = Inr us" by blast
  have "[0..<f + c] = [0..<f] @ [f..<f + c]" by (metis le0 upt_add_eq_append)
  from uv(2) [unfolded this, THEN collect_res_split] obtain xs ys where
    xy: "us = xs @ ys" "collect_res ?f [0..<f] = Inr xs" "collect_res ?f [f..<f + c] = Inr ys" by blast
  have lx: "length (concat xs) = min (length s) (f * ?cs) + f * tag_length"
    by (rule messages_length [OF A fit _ xy(2)]) (use le in simp)
  have lu: "length (concat us) = min (length s) ((f + c) * ?cs) + (f + c) * tag_length"
    by (rule messages_length [OF A fit le uv(2)])
  have "body = concat xs @ concat ys @ concat vs" by (simp add: b uv(1) xy(1))
  moreover have "length (concat ys) = length (concat us) - length (concat xs)" by (simp add: xy(1))
  ultimately have "slice (length (concat xs)) (length (concat us)) body = concat ys" by (simp add: slice_def)
  moreover have "concat (map (chunk_at ?cs ?n s) [f..<f + c]) = slice (f * ?cs) ((f + c) * ?cs) s"
  proof -
    have "drop (f * ?cs) (take ((f + c) * ?cs) s) = slice (f * ?cs) ((f + c) * ?cs) s"
      by (simp add: slice_def drop_take)
    moreover have "length (take (f * ?cs) s) = f * ?cs \<or> take (f * ?cs) s = s" by (cases "f * ?cs \<le> length s") auto
    moreover note chunks_concat [OF fit le]
    ultimately show ?thesis
      by (metis append_eq_conv_conj append_take_drop_id append_self_conv drop_all length_drop length_take take_all_iff nat_le_linear)
  qed
  ultimately show ?thesis
    using opened_sealed [OF l fit s A le xy(3)] by (simp only: lx lu)
qed

section \<open>Reading an entry of an encoded object\<close>

lemma placed_from_nth:
  "i < length ps \<Longrightarrow> placed_from off ps ! i =
    to_metadata (ps ! i) \<lparr>offset = off + planned_size (take i ps), extent_size = ep_size (ps ! i)\<rparr>"
proof (induction ps arbitrary: off i)
  case (Cons p ps)
  then show ?case by (cases i) (simp_all add: planned_size_def add.assoc)
qed simp

lemma slice_of_concat:
  assumes "i < length us"
  shows "take (length (us ! i)) (drop (sum_list (map length (take i us))) (concat us @ pad)) = us ! i"
proof -
  have "concat us = concat (take i us) @ us ! i @ concat (drop (Suc i) us)"
    by (metis assms concat.simps(2) concat_append id_take_nth_drop)
  then show ?thesis by (simp add: length_concat [symmetric])
qed

lemma sum_list_split: "i < length xs \<Longrightarrow> sum_list xs = sum_list (take i xs) + xs ! i + sum_list (drop (Suc i) xs)" for xs :: "nat list"
  by (subst id_take_nth_drop [of i xs], assumption) simp

lemma take_drop_slice:
  "a \<le> x \<Longrightarrow> x + k \<le> b \<Longrightarrow> take k (drop (x - a) (slice a b s)) = take k (drop x s)"
  by (simp add: slice_def drop_take min_def)

lemma run_of_object:
  assumes A: "aead_laws A" and fit: "chunks_fit (cl_chunk_size (run_layout run)) (cl_chunk_count (run_layout run)) s"
    and s: "length s = cl_padded_len (run_layout run)"
    and body: "container_body A (key_bytes key) (header_to_bytes (o_header outline)) (cl_chunk_size (run_layout run))
       (cl_chunk_count (run_layout run)) s = Inr (drop (cl_body_start (run_layout run)) object)"
    and run: "run_ok run"
    and pieces: "concat pieces = slice (fst (run_ciphertext run)) (snd (run_ciphertext run)) object"
  shows "rr_run A outline key run pieces = Inr (slice (fst (run_plaintext run)) (snd (run_plaintext run)) s)"
proof -
  let ?l = "run_layout run" and ?f = "run_first run" and ?c = "run_count run"
  have l: "layout_ok ?l" and le: "?f + ?c \<le> cl_chunk_count ?l" and f: "?f < cl_chunk_count ?l"
    using run by (auto simp: run_ok_def)
  have sl: "slice (cl_body_start ?l + a) (cl_body_start ?l + b) object = slice a b (drop (cl_body_start ?l) object)" for a b
    by (simp add: slice_def add.commute)
  have "?f * cl_chunk_size ?l \<le> length s" using chunk_start_le [OF l f] s by simp
  then have lo: "min (length s) (?f * cl_chunk_size ?l) = ?f * cl_chunk_size ?l" by simp
  have "fst (run_ciphertext run) = cl_body_start ?l + (min (length s) (?f * cl_chunk_size ?l) + ?f * tag_length)"
    using message_start_eq [OF l f] by (simp add: run_ciphertext_eq [OF run] lo add_mult_distrib2)
  moreover have "snd (run_ciphertext run) =
      cl_body_start ?l + (min (length s) ((?f + ?c) * cl_chunk_size ?l) + (?f + ?c) * tag_length)"
    using s by (simp add: run_ciphertext_eq [OF run])
  ultimately have "opened A (key_bytes key) (header_to_bytes (o_header outline)) ?l ?f ?c (concat pieces) =
      Some (slice (?f * cl_chunk_size ?l) ((?f + ?c) * cl_chunk_size ?l) s)"
    using run_of_body [OF l fit s A body le] by (simp only: pieces sl)
  moreover have "slice (?f * cl_chunk_size ?l) ((?f + ?c) * cl_chunk_size ?l) s =
      slice (fst (run_plaintext run)) (snd (run_plaintext run)) s"
    by (simp add: run_plaintext_eq [OF run] slice_def min_def flip: s)
  ultimately show ?thesis using rr_run_eq [OF run, of A outline key pieces] by simp
qed

lemma covering_bounds:
  assumes o: "outline_ok outline" and cov: "chunks_covering outline (x, x + k) = Inr run"
  shows "run_plaintext_start run = fst (run_plaintext run)"
    and "0 < k \<Longrightarrow> fst (run_plaintext run) \<le> x \<and> x + k \<le> snd (run_plaintext run)"
  using chunks_covering_covers(1) [OF o cov] by (auto simp: run_plaintext_def Let_def)

lemma fetch_entry:
  assumes A: "aead_laws A" and L: "cbor_laws L" and de: "serde_laws de"
    and blake3: "\<forall>x. length (blake3 x) = 32"
    and c: "container_id_ok (er_container req)" and cs: "chunk_size_ok (er_chunk_size req)"
    and src: "\<forall>s \<in> set (er_entries req). source_ok is_nfc s" and num: "length (er_entries req) \<le> 2 ^ 32"
    and enc: "encode L A blake3 req = Inr ec" and small: "length (ec_bytes ec) < 2 ^ 63"
    and n: "n < length (er_entries req)"
  shows "\<exists>outline run. outline_open L de is_nfc A (ec_bytes ec) (er_key req) = Inr outline \<and>
    entry_numbered outline (EntryNumber n) = Some (ec_entries ec ! n) \<and>
    chunks_covering outline (extent_range (extent (ec_entries ec ! n))) = Inr run \<and>
    (\<forall>pieces. concat pieces = slice (fst (run_ciphertext run)) (snd (run_ciphertext run)) (ec_bytes ec) \<longrightarrow>
      (\<exists>plain. rr_run A outline (er_key req) run pieces = Inr plain \<and>
        take (extent_size (extent (ec_entries ec ! n)))
          (drop (offset (extent (ec_entries ec ! n)) - run_plaintext_start run) plain) = es_content (er_entries req ! n)))"
proof -
  let ?ps = "map (plan_of_source blake3) (er_entries req)" and ?us = "map es_content (er_entries req)"
  obtain ly body where ly: "layout_plan L (er_container req) (er_chunk_size req) (er_kind req) ?ps = Inr ly"
    and open_o: "outline_open L de is_nfc A (ec_bytes ec) (er_key req) = Inr (outline_of req ly)"
    and body: "drop (header_len + ly_meta_len ly) (ec_bytes ec) = body"
      "container_body A (key_bytes (er_key req)) (ly_header_bytes ly) (chunk_bytes (er_chunk_size req))
       (ly_chunk_count ly) (request_stream req (ly_pad_len ly)) = Inr body"
    and fit: "chunks_fit (chunk_bytes (er_chunk_size req)) (ly_chunk_count ly) (request_stream req (ly_pad_len ly))"
    and es: "ly_entries ly = placed_from 0 ?ps" "ec_entries ec = ly_entries ly"
    and sl: "length (request_stream req (ly_pad_len ly)) = ly_padded_len ly"
    using outline_open_encode [OF A L de blake3 c cs src num enc small] by metis
  let ?o = "outline_of req ly" and ?s = "request_stream req (ly_pad_len ly)"
  have hb: "ly_header_bytes ly = header_to_bytes (o_header ?o)"
    and size: "planned_size ?ps + ly_pad_len ly = ly_padded_len ly" and max: "planned_size ?ps \<le> max_format_integer"
    using layout_plan_Ok [OF L ly] by (metis container_outline.select_convs(1) outline_of_def)+
  have ok: "outline_ok ?o" by (rule outline_open_ok(1) [OF open_o])
  define e where "e = extent (ec_entries ec ! n)"
  have e: "offset e = sum_list (map length (take n ?us))" "extent_size e = length (?us ! n)"
    using placed_from_nth [of n ?ps 0] n
    by (simp_all add: e_def es to_metadata_def planned_size_def plan_of_source_def take_map comp_def)
  have "ec_entries ec ! n \<in> set (placed_from 0 ?ps)" using n by (simp add: es)
  then have "extent_ok e" using placed_from_tiled(2) [of 0 ?ps] max by (simp add: e_def)
  then have range: "extent_range e = (offset e, offset e + extent_size e)" by (simp add: extent_range_def extent_end_eq)
  have content: "take (extent_size e) (drop (offset e) ?s) = es_content (er_entries req ! n)"
    using slice_of_concat [of n ?us "replicate (ly_pad_len ly) 0"] n unfolding e request_stream_def by simp
  have inside: "offset e + extent_size e \<le> ly_padded_len ly"
  proof -
    have "sum_list (map length (take n ?us)) + length (?us ! n) \<le> sum_list (map length ?us)"
      using sum_list_split [of n "map length ?us"] n by (simp add: take_map)
    then show ?thesis
      using e size by (simp add: planned_size_def plan_of_source_def comp_def)
  qed
  have padded: "cl_padded_len (o_layout ?o) = ly_padded_len ly" by (simp add: outline_of_def)
  obtain run where run: "chunks_covering ?o (extent_range e) = Inr run"
    using chunks_covering_Ok_iff [OF ok, of "offset e" "offset e + extent_size e"] inside by (auto simp: range padded)
  note cov = run [unfolded range]
  have rok: "run_ok run" "run_layout run = o_layout ?o" by (rule chunks_covering_run [OF ok cov])+
  have lay: "cl_chunk_size (o_layout ?o) = chunk_bytes (er_chunk_size req)" "cl_chunk_count (o_layout ?o) = ly_chunk_count ly"
    "cl_body_start (o_layout ?o) = header_len + ly_meta_len ly" by (simp_all add: outline_of_def)
  have reads: "rr_run A ?o (er_key req) run pieces = Inr (slice (fst (run_plaintext run)) (snd (run_plaintext run)) ?s)"
    if "concat pieces = slice (fst (run_ciphertext run)) (snd (run_ciphertext run)) (ec_bytes ec)" for pieces
    by (rule run_of_object [OF A _ _ _ rok(1) that])
      (use fit sl body in \<open>simp_all add: rok(2) lay padded hb [symmetric]\<close>)
  have here: "take (extent_size e) (drop (offset e - run_plaintext_start run)
      (slice (fst (run_plaintext run)) (snd (run_plaintext run)) ?s)) = es_content (er_entries req ! n)"
  proof (cases "0 < extent_size e")
    case True
    then show ?thesis
      using covering_bounds [OF ok cov] content by (simp add: take_drop_slice)
  qed (use content in simp)
  have "entry_numbered ?o (EntryNumber n) = Some (ec_entries ec ! n)"
    using n num by (simp add: entry_numbered_def to_usize_def usize_bits_def es outline_of_def)
  then show ?thesis
    using open_o run reads here unfolding e_def by blast
qed

end
