(* ===== verification/Container_Writer.thy ===== *)
theory Container_Writer
  imports Container_Encoding
begin

text \<open>
  \<open>coffret-format/src/container_writer.rs\<close>: a Container written without the whole of it held at once. The
  incremental hasher is the bytes it was fed since its last reset. \<open>None\<close> stands for a loop that never ends:
  \<open>push\<close> goes round for ever when the buffer of the last chunk is full and bytes are left. The lemmas say
  that this is never reached, and that however the contents are cut into writes the object is the one
  \<open>encode\<close> produces.
\<close>

section \<open>The writer\<close>

record container_writer =
  cw_key :: "byte list"
  cw_header_bytes :: "byte list"
  cw_sizes :: "nat list"
  cw_hashes :: "content_hash list"
  cw_entry_index :: nat
  cw_entry_written :: nat
  cw_hashed :: "byte list"
  cw_buffer :: "byte list"
  cw_chunk_size :: nat
  cw_chunk_count :: nat
  cw_entries :: "entry_metadata list"
  cw_emitted :: nat
  cw_pad_len :: nat
  cw_planned :: nat

record encode_plan =
  ek_container :: container_id
  ek_kind :: container_kind
  ek_key :: container_key
  ek_chunk_size :: chunk_size
  ek_entries :: "entry_plan list"

definition cw_begin ::
  "cbor_lib \<Rightarrow> aead \<Rightarrow> encode_plan \<Rightarrow> byte list \<Rightarrow> format_error + (container_writer \<times> byte list)" where
  "cw_begin L A plan out =
     and_then (layout_plan L (ek_container plan) (ek_chunk_size plan) (ek_kind plan) (ek_entries plan)) (\<lambda>ly.
     and_then (seal A (key_bytes (ek_key plan)) nonce_meta (ly_header_bytes ly) (ly_meta_plaintext ly)
                 (out @ ly_header_bytes ly)) (\<lambda>out.
     and_then (ok_or (UnaddressableOnThisBuild ''chunk size'' (chunk_bytes (ek_chunk_size plan)))
                 (to_usize (chunk_bytes (ek_chunk_size plan)))) (\<lambda>cs.
     and_then (try_fold (\<lambda>total p. ok_or StreamTooLong (checked_add64 total (ep_size p))) 0 (ek_entries plan)) (\<lambda>planned.
       Ok (\<lparr>cw_key = key_bytes (ek_key plan), cw_header_bytes = ly_header_bytes ly, cw_sizes = map ep_size (ek_entries plan),
            cw_hashes = map ep_hash (ek_entries plan), cw_entry_index = 0, cw_entry_written = 0, cw_hashed = [],
            cw_buffer = [], cw_chunk_size = cs, cw_chunk_count = ly_chunk_count ly, cw_entries = ly_entries ly,
            cw_emitted = 0, cw_pad_len = ly_pad_len ly, cw_planned = planned\<rparr>, out)))))"

definition cw_seal :: "aead \<Rightarrow> container_writer \<Rightarrow> bool \<Rightarrow> byte list \<Rightarrow> format_error + (container_writer \<times> byte list)" where
  "cw_seal A w is_final out =
     and_then (seal A (cw_key w) (nonce_chunk (cw_emitted w) is_final) (cw_header_bytes w) (cw_buffer w) out) (\<lambda>out.
       Ok (w\<lparr>cw_buffer := [], cw_emitted := cw_emitted w + 1\<rparr>, out))"

function cw_push :: "aead \<Rightarrow> container_writer \<Rightarrow> byte list \<Rightarrow> byte list \<Rightarrow>
    (format_error + (container_writer \<times> byte list)) option" where
  "cw_push A w bytes out =
     (if bytes = [] then Some (Ok (w, out))
      else let room = cw_chunk_size w - length (cw_buffer w);
               n = min room (length bytes);
               w' = w\<lparr>cw_buffer := cw_buffer w @ take n bytes\<rparr>
           in if length (cw_buffer w') = cw_chunk_size w' \<and> cw_emitted w' + 1 < cw_chunk_count w'
              then (case cw_seal A w' False out of
                      Inl e \<Rightarrow> Some (Err e)
                    | Inr (w', out) \<Rightarrow> cw_push A w' (drop n bytes) out)
              else if room = 0 then None
              else cw_push A w' (drop n bytes) out)"
  by pat_completeness auto
termination
  by (relation "measures [\<lambda>(A, w, bytes, out). length bytes, \<lambda>(A, w, bytes, out). cw_chunk_count w - cw_emitted w]")
    (auto simp: cw_seal_def and_then_Inr_iff)

declare cw_push.simps [simp del]

function cw_close_filled_entries :: "(byte list \<Rightarrow> byte list) \<Rightarrow> container_writer \<Rightarrow> format_error + container_writer" where
  "cw_close_filled_entries blake3 w =
     (if cw_entry_index w < length (cw_sizes w)
      then if cw_entry_written w \<noteq> cw_sizes w ! cw_entry_index w then Ok w
           else let h = ContentHash (blake3 (cw_hashed w))
                in if h \<noteq> cw_hashes w ! cw_entry_index w then Err (EntryHashMismatch (cw_entry_index w))
                   else cw_close_filled_entries blake3
                          (w\<lparr>cw_hashed := [], cw_entry_index := cw_entry_index w + 1, cw_entry_written := 0\<rparr>)
      else Ok w)"
  by pat_completeness auto
termination
  by (relation "measure (\<lambda>(h, w). length (cw_sizes w) - cw_entry_index w)") auto

declare cw_close_filled_entries.simps [simp del]

function cw_write :: "aead \<Rightarrow> (byte list \<Rightarrow> byte list) \<Rightarrow> container_writer \<Rightarrow> byte list \<Rightarrow> byte list \<Rightarrow>
    (format_error + (container_writer \<times> byte list)) option" where
  "cw_write A blake3 w remaining out =
     (if remaining = [] then Some (Ok (w, out))
      else case cw_close_filled_entries blake3 w of
             Inl e \<Rightarrow> Some (Err e)
           | Inr w \<Rightarrow>
               if \<not> cw_entry_index w < length (cw_sizes w) then Some (Err (StreamOverrun (cw_planned w)))
               else let left = cw_sizes w ! cw_entry_index w - cw_entry_written w;
                        n = min left (length remaining);
                        w = w\<lparr>cw_hashed := cw_hashed w @ take n remaining, cw_entry_written := cw_entry_written w + n\<rparr>
                    in if n = 0 then None
                       else case cw_push A w (take n remaining) out of
                              None \<Rightarrow> None
                            | Some (Inl e) \<Rightarrow> Some (Err e)
                            | Some (Inr (w, out)) \<Rightarrow> cw_write A blake3 w (drop n remaining) out)"
  by pat_completeness auto
termination
  by (relation "measure (\<lambda>(A, h, w, rem, out). length rem)") auto

declare cw_write.simps [simp del]

definition zero_slab :: nat where
  "zero_slab = 64 * 1024"

text \<open>The loop of \<open>finish\<close> over the padding.\<close>

function cw_pad :: "aead \<Rightarrow> container_writer \<Rightarrow> nat \<Rightarrow> byte list \<Rightarrow>
    (format_error + (container_writer \<times> byte list)) option" where
  "cw_pad A w padding_left out =
     (if padding_left = 0 then Some (Ok (w, out))
      else let n = min padding_left zero_slab
           in case cw_push A w (replicate n 0) out of
                None \<Rightarrow> None
              | Some (Inl e) \<Rightarrow> Some (Err e)
              | Some (Inr (w, out)) \<Rightarrow> cw_pad A w (padding_left - n) out)"
  by pat_completeness auto
termination
  by (relation "measure (\<lambda>(A, w, n, out). n)") (auto simp: zero_slab_def)

declare cw_pad.simps [simp del]

definition cw_finish :: "aead \<Rightarrow> (byte list \<Rightarrow> byte list) \<Rightarrow> container_writer \<Rightarrow> byte list \<Rightarrow>
    (format_error + (entry_metadata list \<times> byte list)) option" where
  "cw_finish A blake3 w out =
     (case cw_close_filled_entries blake3 w of
        Inl e \<Rightarrow> Some (Err e)
      | Inr w \<Rightarrow>
          if cw_entry_index w < length (cw_sizes w)
          then Some (Err (EntryLengthMismatch (cw_entry_index w) (cw_sizes w ! cw_entry_index w) (cw_entry_written w)))
          else case cw_pad A w (cw_pad_len w) out of
                 None \<Rightarrow> None
               | Some (Inl e) \<Rightarrow> Some (Err e)
               | Some (Inr (w, out)) \<Rightarrow>
                   Some (and_then (cw_seal A w True out) (\<lambda>(w, out). Ok (cw_entries w, out))))"

text \<open>A caller that feeds the contents in pieces.\<close>

fun cw_write_all :: "aead \<Rightarrow> (byte list \<Rightarrow> byte list) \<Rightarrow> container_writer \<Rightarrow> byte list list \<Rightarrow> byte list \<Rightarrow>
    (format_error + (container_writer \<times> byte list)) option" where
  "cw_write_all A blake3 w [] out = Some (Ok (w, out))"
| "cw_write_all A blake3 w (piece # pieces) out =
     (case cw_write A blake3 w piece out of
        None \<Rightarrow> None
      | Some (Inl e) \<Rightarrow> Some (Err e)
      | Some (Inr (w, out)) \<Rightarrow> cw_write_all A blake3 w pieces out)"

definition cw_run :: "cbor_lib \<Rightarrow> aead \<Rightarrow> (byte list \<Rightarrow> byte list) \<Rightarrow> encode_plan \<Rightarrow> byte list list \<Rightarrow>
    (format_error + (entry_metadata list \<times> byte list)) option" where
  "cw_run L A blake3 plan pieces =
     (case cw_begin L A plan [] of
        Inl e \<Rightarrow> Some (Err e)
      | Inr (w, out) \<Rightarrow>
          (case cw_write_all A blake3 w pieces out of
             None \<Rightarrow> None
           | Some (Inl e) \<Rightarrow> Some (Err e)
           | Some (Inr (w, out)) \<Rightarrow> cw_finish A blake3 w out))"

section \<open>Pushing bytes into chunks\<close>

text \<open>The number of chunks sealed once \<open>len\<close> bytes have been pushed, and the \<open>j\<close>-th of them.\<close>

definition emitted_at :: "nat \<Rightarrow> nat \<Rightarrow> nat \<Rightarrow> nat" where
  "emitted_at cs n len = min (len div cs) (n - 1)"

definition early_chunk :: "aead \<Rightarrow> container_writer \<Rightarrow> byte list \<Rightarrow> nat \<Rightarrow> format_error + byte list" where
  "early_chunk A w s j =
     seal A (cw_key w) (nonce_chunk j False) (cw_header_bytes w) (take (cw_chunk_size w) (drop (j * cw_chunk_size w) s)) []"

text \<open>\<open>pushed w s\<close>: exactly the bytes \<open>s\<close> have been pushed.\<close>

definition pushed :: "container_writer \<Rightarrow> byte list \<Rightarrow> bool" where
  "pushed w s \<longleftrightarrow>
     0 < cw_chunk_size w \<and> 0 < cw_chunk_count w \<and> length s \<le> cw_chunk_count w * cw_chunk_size w \<and>
     cw_emitted w = emitted_at (cw_chunk_size w) (cw_chunk_count w) (length s) \<and>
     cw_buffer w = drop (cw_emitted w * cw_chunk_size w) s"

definition after_push :: "container_writer \<Rightarrow> byte list \<Rightarrow> container_writer" where
  "after_push w s =
     (let e = emitted_at (cw_chunk_size w) (cw_chunk_count w) (length s)
      in w\<lparr>cw_buffer := drop (e * cw_chunk_size w) s, cw_emitted := e\<rparr>)"

lemma emitted_at_le: "emitted_at cs n len * cs \<le> len"
  unfolding emitted_at_def by (metis div_times_less_eq_dividend min.cobounded1 mult_le_mono1 order_trans)

lemma emitted_at_mono: "a \<le> b \<Longrightarrow> emitted_at cs n a \<le> emitted_at cs n b"
  unfolding emitted_at_def by (simp add: div_le_mono min.coboundedI1 min_le_iff_disj)

lemma emitted_at_less: "0 < cs \<Longrightarrow> emitted_at cs n len + 1 < n \<Longrightarrow> len < (emitted_at cs n len + 1) * cs"
  using dividend_less_times_div [of cs len] by (auto simp: emitted_at_def min_def mult.commute split: if_splits)

lemma emitted_at_unique:
  assumes "0 < cs" and "e * cs \<le> len" and "e + 1 \<le> n" and "e + 1 < n \<Longrightarrow> len < (e + 1) * cs"
  shows "emitted_at cs n len = e"
proof (cases "e + 1 < n")
  case True
  then have "len div cs = e" using assms by (intro div_nat_eqI) (simp_all add: algebra_simps)
  then show ?thesis using True by (simp add: emitted_at_def)
next
  case False
  then have "e = n - 1" using assms(3) by simp
  moreover have "e \<le> len div cs" using assms(1,2) by (simp add: less_eq_div_iff_mult_less_eq)
  ultimately show ?thesis by (simp add: emitted_at_def)
qed

lemma early_chunk_stable:
  assumes "(j + 1) * cw_chunk_size w \<le> length s"
  shows "early_chunk A w (s @ t) j = early_chunk A w s j"
proof -
  have "j * cw_chunk_size w + cw_chunk_size w \<le> length s" using assms by (simp add: algebra_simps)
  then show ?thesis by (simp add: early_chunk_def)
qed

text \<open>What pushing amounts to: the chunks that are now complete are sealed, and the rest is buffered.\<close>

definition push_result :: "aead \<Rightarrow> container_writer \<Rightarrow> byte list \<Rightarrow> byte list \<Rightarrow> container_writer \<Rightarrow> byte list \<Rightarrow> bool" where
  "push_result A w s out w' out' \<longleftrightarrow>
     (let e' = emitted_at (cw_chunk_size w) (cw_chunk_count w) (length s)
      in \<exists>ms. collect_res (early_chunk A w s) [cw_emitted w..<e'] = Inr ms \<and> out' = out @ concat ms \<and> w' = after_push w s)"

lemma pushed_after: "pushed w s \<Longrightarrow> length s' \<le> cw_chunk_count w * cw_chunk_size w \<Longrightarrow> pushed (after_push w s') s'"
  by (simp add: pushed_def after_push_def Let_def)

lemma push_result_trans:
  assumes w: "pushed w s" and r1: "push_result A w (s @ b) out w1 out1"
  shows "push_result A w1 (s @ b @ c) out1 w2 out2 \<longleftrightarrow>
    push_result A w (s @ b @ c) out w2 out2"
proof -
  let ?cs = "cw_chunk_size w" and ?n = "cw_chunk_count w"
  let ?e1 = "emitted_at ?cs ?n (length (s @ b))" and ?e2 = "emitted_at ?cs ?n (length (s @ b @ c))"
  obtain ms1 where ms1: "collect_res (early_chunk A w (s @ b)) [cw_emitted w..<?e1] = Inr ms1"
    and o1: "out1 = out @ concat ms1" and w1: "w1 = after_push w (s @ b)"
    using r1 by (auto simp: push_result_def Let_def)
  have le: "cw_emitted w \<le> ?e1" "?e1 \<le> ?e2"
    using w emitted_at_mono by (simp_all add: pushed_def)
  have stable: "early_chunk A w (s @ b @ c) j = early_chunk A w (s @ b) j" if "j < ?e1" for j
  proof -
    have "(j + 1) * ?cs \<le> ?e1 * ?cs" using that by (intro mult_le_mono1) simp
    also have "\<dots> \<le> length (s @ b)" by (rule emitted_at_le)
    finally show ?thesis using early_chunk_stable [of j w "s @ b" A c] by simp
  qed
  have same: "early_chunk A w1 = early_chunk A w" "cw_emitted w1 = ?e1" "cw_chunk_size w1 = ?cs" "cw_chunk_count w1 = ?n"
    "after_push w1 (s @ b @ c) = after_push w (s @ b @ c)"
    by (auto simp: w1 after_push_def early_chunk_def Let_def intro!: ext)
  have "collect_res (early_chunk A w (s @ b @ c)) [cw_emitted w..<?e1] = collect_res (early_chunk A w (s @ b)) [cw_emitted w..<?e1]"
    by (rule collect_res_cong) (use stable in simp_all)
  then have "collect_res (early_chunk A w (s @ b @ c)) [cw_emitted w..<?e1] = Inr ms1" using ms1 by simp
  moreover have "[cw_emitted w..<?e2] = [cw_emitted w..<?e1] @ [?e1..<?e2]"
    using le by (metis le_Suc_ex upt_add_eq_append)
  ultimately have "collect_res (early_chunk A w (s @ b @ c)) [cw_emitted w..<?e2] =
      and_then (collect_res (early_chunk A w (s @ b @ c)) [?e1..<?e2]) (\<lambda>ms. Ok (ms1 @ ms))"
    by (simp add: collect_res_append)
  then show ?thesis
    unfolding push_result_def Let_def same o1 by (auto simp: and_then_Inr_iff)
qed

lemma cw_push_eq:
  assumes "pushed w s" and "length s + length bytes \<le> cw_chunk_count w * cw_chunk_size w"
  shows "\<exists>r. cw_push A w bytes out = Some r \<and> (\<forall>w' out'. r = Inr (w', out') \<longleftrightarrow> push_result A w (s @ bytes) out w' out')"
  using assms
proof (induction A w bytes out arbitrary: s rule: cw_push.induct)
  case (1 A w bytes out)
  let ?cs = "cw_chunk_size w" and ?n = "cw_chunk_count w" and ?e = "cw_emitted w"
  have cs: "0 < ?cs" "0 < ?n" and e: "?e = emitted_at ?cs ?n (length s)" and bf: "cw_buffer w = drop (?e * ?cs) s"
    using 1(3) by (simp_all add: pushed_def)
  show ?case
  proof (cases "bytes = []")
    case True
    have "after_push w s = w" using e bf by (simp add: after_push_def Let_def)
    then show ?thesis using True e by (subst cw_push.simps) (auto simp: push_result_def Let_def)
  next
    case False
    define k where "k = min (?cs - length (cw_buffer w)) (length bytes)"
    define w1 where "w1 = w\<lparr>cw_buffer := cw_buffer w @ take k bytes\<rparr>"
    define s1 where "s1 = s @ take k bytes"
    have s1: "s1 @ drop k bytes = s @ bytes" "length s1 \<le> length s + length bytes" by (simp_all add: s1_def)
    have el: "?e * ?cs \<le> length s" unfolding e by (rule emitted_at_le)
    have en: "?e + 1 \<le> ?n" using cs e by (simp add: emitted_at_def)
    have b1: "cw_buffer w1 = drop (?e * ?cs) s1" using bf el by (simp add: w1_def s1_def)
    have lb1: "length (cw_buffer w1) = length (cw_buffer w) + k" by (simp add: w1_def k_def)
    have lb: "length (cw_buffer w) = length s - ?e * ?cs" using bf by simp
    have room: "?e + 1 < ?n \<or> length (cw_buffer w) < ?cs"
    proof (rule disjCI)
      assume "\<not> length (cw_buffer w) < ?cs"
      then have "?e * ?cs + ?cs \<le> length s" using lb el cs by simp
      then have "(?e + 1) * ?cs < ?n * ?cs" using False 1(4) by (cases bytes) auto
      then show "?e + 1 < ?n" by (rule mult_right_less_imp_less) simp
    qed
    show ?thesis
    proof (cases "length (cw_buffer w1) = ?cs \<and> ?e + 1 < ?n")
      case full: True
      have "length (cw_buffer w1) = length s1 - ?e * ?cs" by (simp only: b1 length_drop)
      then have "length s1 = ?cs + ?e * ?cs" using full cs by linarith
      then have l1: "length s1 = (?e + 1) * ?cs" by simp
      have e1: "emitted_at ?cs ?n (length s1) = ?e + 1"
        using l1 cs full by (intro emitted_at_unique) simp_all
      have piece: "early_chunk A w s1 ?e = seal A (cw_key w) (nonce_chunk ?e False) (cw_header_bytes w) (cw_buffer w1) []"
        using b1 l1 by (simp add: early_chunk_def)
      have sl: "cw_seal A w1 False out = and_then (early_chunk A w s1 ?e) (\<lambda>m. Ok (after_push w s1, out @ m))"
      proof -
        have a: "after_push w s1 = w1\<lparr>cw_buffer := [], cw_emitted := ?e + 1\<rparr>"
          unfolding after_push_def Let_def e1 using l1 by (simp add: w1_def)
        show ?thesis
          unfolding piece cw_seal_def a
          by (cases "encrypt A (cw_key w) (nonce_chunk ?e False) (cw_header_bytes w) (cw_buffer w1)")
            (auto simp: seal_def w1_def)
      qed
      have r1: "push_result A w s1 out w' out' \<longleftrightarrow> (\<exists>m. early_chunk A w s1 ?e = Inr m \<and> w' = after_push w s1 \<and> out' = out @ m)" for w' out'
        using e1 by (auto simp: push_result_def Let_def and_then_Inr_iff)
      have step: "cw_push A w bytes out = (case cw_seal A w1 False out of Inl e \<Rightarrow> Some (Inl e)
          | Inr (w', out) \<Rightarrow> cw_push A w' (drop k bytes) out)"
        using False full by (subst cw_push.simps) (simp add: Let_def k_def w1_def cong: sum.case_cong)
      show ?thesis
      proof (cases "early_chunk A w s1 ?e")
        case (Inl err)
        have "early_chunk A w (s @ bytes) ?e = Inl err"
          using early_chunk_stable [of ?e w s1 A "drop k bytes"] l1 Inl by (simp add: s1(1))
        moreover have "?e + 1 \<le> emitted_at ?cs ?n (length (s @ bytes))"
          using e1 emitted_at_mono [of "length s1" "length (s @ bytes)" ?cs ?n] s1(2) by simp
        then have "[?e..<emitted_at ?cs ?n (length (s @ bytes))] = ?e # [Suc ?e..<emitted_at ?cs ?n (length (s @ bytes))]"
          by (simp add: upt_conv_Cons)
        ultimately have "\<not> push_result A w (s @ bytes) out w' out'" for w' out'
          unfolding push_result_def Let_def by simp
        then show ?thesis using step sl Inl by simp
      next
        case (Inr m)
        have w2: "pushed (after_push w s1) s1" using 1(3,4) s1(2) by (intro pushed_after) simp_all
        have sl2: "cw_seal A w1 False out = Inr (after_push w s1, out @ m)" using sl Inr by simp
        have "\<exists>r. cw_push A (after_push w s1) (drop k bytes) (out @ m) = Some r \<and>
            (\<forall>w' out'. r = Inr (w', out') \<longleftrightarrow> push_result A (after_push w s1) (s1 @ drop k bytes) (out @ m) w' out')"
          using 1(4) full by (intro 1(1) [OF False refl k_def w1_def _ sl2 refl w2])
            (simp_all add: w1_def after_push_def Let_def s1_def)
        moreover have "push_result A w s1 out (after_push w s1) (out @ m)" using r1 Inr by simp
        then have "push_result A (after_push w s1) (s1 @ drop k bytes) (out @ m) w' out' \<longleftrightarrow>
            push_result A w (s @ bytes) out w' out'" for w' out'
          using push_result_trans [OF 1(3), of A "take k bytes" out _ _ "drop k bytes"] by (simp add: s1_def)
        ultimately show ?thesis using step sl2 by simp
      qed
    next
      case notfull: False
      have small: "length (cw_buffer w) \<le> ?cs"
      proof (cases "?e + 1 < ?n")
        case True
        then have "length s < (?e + 1) * ?cs" using emitted_at_less [OF cs(1)] unfolding e by blast
        then show ?thesis using lb by simp
      next
        case False
        then show ?thesis using room by simp
      qed
      have ls: "length s1 = ?e * ?cs + length (cw_buffer w1)" using lb el lb1 by (simp add: k_def s1_def)
      have "length (cw_buffer w1) \<le> ?cs" using small lb1 by (simp add: k_def)
      then have e1: "emitted_at ?cs ?n (length s1) = ?e"
        unfolding ls using cs notfull en by (intro emitted_at_unique) auto
      have w1: "pushed w1 s1"
        using e1 b1 cs 1(4) s1(2) by (simp add: pushed_def w1_def)
      have aft: "after_push w s1 = w1" using b1 by (simp add: after_push_def e1 Let_def w1_def)
      have r1: "push_result A w s1 out w1 out" using aft by (simp add: push_result_def e1 Let_def)
      have room0: "?cs - length (cw_buffer w) \<noteq> 0" using room notfull lb1 small by (auto simp: k_def)
      have step: "cw_push A w bytes out = cw_push A w1 (drop k bytes) out"
        using False notfull room0 by (subst cw_push.simps) (auto simp: Let_def k_def w1_def)
      have "\<exists>r. cw_push A w1 (drop k bytes) out = Some r \<and>
            (\<forall>w' out'. r = Inr (w', out') \<longleftrightarrow> push_result A w1 (s1 @ drop k bytes) out w' out')"
        using 1(4) notfull by (intro 1(2) [OF False refl k_def w1_def _ room0 w1]) (auto simp: w1_def s1_def)
      moreover have "push_result A w1 (s1 @ drop k bytes) out w' out' \<longleftrightarrow>
            push_result A w (s @ bytes) out w' out'" for w' out'
        using push_result_trans [OF 1(3) r1 [unfolded s1_def], of "drop k bytes"] by (simp add: s1_def)
      ultimately show ?thesis using step by simp
    qed
  qed
qed

section \<open>Feeding the contents\<close>

text \<open>What no step changes, and where the next byte goes.\<close>

definition frame :: "container_writer \<Rightarrow> byte list \<times> byte list \<times> nat \<times> nat \<times> nat list \<times> content_hash list \<times> entry_metadata list \<times> nat" where
  "frame w = (cw_key w, cw_header_bytes w, cw_chunk_size w, cw_chunk_count w, cw_sizes w, cw_hashes w, cw_entries w, cw_pad_len w)"

definition cursor :: "container_writer \<Rightarrow> nat \<times> nat \<times> byte list" where
  "cursor w = (cw_entry_index w, cw_entry_written w, cw_hashed w)"

text \<open>\<open>stage A w0 base s t w out\<close>: of the stream \<open>s\<close> the prefix \<open>t\<close> has been pushed into a writer that began as
  \<open>w0\<close>, and its complete chunks are sealed behind \<open>base\<close>.\<close>

definition stage :: "aead \<Rightarrow> container_writer \<Rightarrow> byte list \<Rightarrow> byte list \<Rightarrow> byte list \<Rightarrow> container_writer \<Rightarrow> byte list \<Rightarrow> bool" where
  "stage A w0 base s t w out \<longleftrightarrow>
     frame w = frame w0 \<and> pushed w t \<and> (\<exists>rest. t @ rest = s) \<and> length s \<le> cw_chunk_count w0 * cw_chunk_size w0 \<and>
     (\<exists>ms. collect_res (early_chunk A w0 s) [0..<cw_emitted w] = Inr ms \<and> out = base @ concat ms)"

definition blocked :: "aead \<Rightarrow> container_writer \<Rightarrow> byte list \<Rightarrow> bool" where
  "blocked A w0 s \<longleftrightarrow> (\<forall>ms. collect_res (early_chunk A w0 s) [0..<cw_chunk_count w0 - 1] \<noteq> Inr ms)"

lemma frame_fields:
  assumes "frame w = frame w0"
  shows "cw_key w = cw_key w0" "cw_header_bytes w = cw_header_bytes w0" "cw_chunk_size w = cw_chunk_size w0"
    "cw_chunk_count w = cw_chunk_count w0" "cw_sizes w = cw_sizes w0" "cw_hashes w = cw_hashes w0"
    "cw_entries w = cw_entries w0" "cw_pad_len w = cw_pad_len w0"
  using assms by (simp_all add: frame_def)

lemma early_chunk_frame: "frame w = frame w0 \<Longrightarrow> early_chunk A w = early_chunk A w0"
  by (rule ext, rule ext) (simp add: early_chunk_def frame_def)

lemma early_chunks_prefix:
  assumes "t @ rest = s" and "e = emitted_at (cw_chunk_size w) n (length t)"
  shows "collect_res (early_chunk A w s) [k..<e] = collect_res (early_chunk A w t) [k..<e]"
proof (rule collect_res_cong)
  fix j assume "j \<in> set [k..<e]"
  then have "(j + 1) * cw_chunk_size w \<le> e * cw_chunk_size w" by (intro mult_le_mono1) simp
  also have "\<dots> \<le> length t" unfolding assms(2) by (rule emitted_at_le)
  finally show "early_chunk A w s j = early_chunk A w t j"
    using early_chunk_stable assms(1) by blast
qed simp

lemma push_stage:
  assumes st: "stage A w0 base s t w out" and pre: "t @ bytes @ rest = s"
  shows "\<exists>r. cw_push A w bytes out = Some r \<and>
    (\<forall>w' out'. r = Inr (w', out') \<longrightarrow> stage A w0 base s (t @ bytes) w' out' \<and> cursor w' = cursor w) \<and>
    (\<forall>e. r = Inl e \<longrightarrow> blocked A w0 s)"
proof -
  have fr: "frame w = frame w0" and pu: "pushed w t" and len: "length s \<le> cw_chunk_count w0 * cw_chunk_size w0"
    using st by (simp_all add: stage_def)
  obtain ms where ms: "collect_res (early_chunk A w0 s) [0..<cw_emitted w] = Inr ms" "out = base @ concat ms"
    using st by (auto simp: stage_def)
  note ff = frame_fields [OF fr]
  let ?e' = "emitted_at (cw_chunk_size w) (cw_chunk_count w) (length (t @ bytes))"
  have fits: "length t + length bytes \<le> cw_chunk_count w * cw_chunk_size w"
    using len pre by (auto simp: ff)
  from cw_push_eq [OF pu this] obtain r where r: "cw_push A w bytes out = Some r"
    and iff: "\<And>w' out'. r = Inr (w', out') \<longleftrightarrow> push_result A w (t @ bytes) out w' out'" by blast
  have same: "collect_res (early_chunk A w (t @ bytes)) [cw_emitted w..<?e'] = collect_res (early_chunk A w0 s) [cw_emitted w..<?e']"
    using early_chunks_prefix [of "t @ bytes" rest s ?e' w "cw_chunk_count w" A "cw_emitted w"] pre
    by (simp add: early_chunk_frame [OF fr])
  have le: "cw_emitted w \<le> ?e'" using pu emitted_at_mono by (simp add: pushed_def)
  have en: "?e' \<le> cw_chunk_count w0 - 1" by (simp add: emitted_at_def ff)
  have upt: "[0..<?e'] = [0..<cw_emitted w] @ [cw_emitted w..<?e']" using le by (metis le_add_diff_inverse upt_add_eq_append zero_le)
  have split: "collect_res (early_chunk A w0 s) [0..<?e'] =
      and_then (collect_res (early_chunk A w0 s) [cw_emitted w..<?e']) (\<lambda>ms'. Ok (ms @ ms'))"
    unfolding upt by (simp add: collect_res_append ms(1))
  have good: "stage A w0 base s (t @ bytes) w' out' \<and> cursor w' = cursor w" if rr: "r = Inr (w', out')" for w' out'
  proof -
    have "push_result A w (t @ bytes) out w' out'" using rr iff by blast
    then obtain ms' where ms': "collect_res (early_chunk A w0 s) [cw_emitted w..<?e'] = Inr ms'"
      and o: "out' = out @ concat ms'" and w': "w' = after_push w (t @ bytes)"
      unfolding push_result_def Let_def same by blast
    have "pushed w' (t @ bytes)" unfolding w' using fits by (intro pushed_after [OF pu]) simp
    moreover have "frame w' = frame w0" "cursor w' = cursor w" "cw_emitted w' = ?e'"
      using fr by (simp_all add: w' after_push_def Let_def frame_def cursor_def)
    moreover have "collect_res (early_chunk A w0 s) [0..<?e'] = Inr (ms @ ms')" by (simp only: split ms' and_then.simps)
    ultimately show ?thesis using pre len o ms(2) by (auto simp: stage_def)
  qed
  have bad: "blocked A w0 s" if rr: "r = Inl e" for e
  proof -
    have "collect_res (early_chunk A w0 s) [cw_emitted w..<?e'] \<noteq> Inr ms'" for ms'
      using iff [of "after_push w (t @ bytes)" "out @ concat ms'"] rr unfolding push_result_def Let_def same by blast
    then have none: "collect_res (early_chunk A w0 s) [0..<?e'] \<noteq> Inr ms'" for ms'
      unfolding split and_then_Inr_iff by blast
    have "[0..<cw_chunk_count w0 - 1] = [0..<?e'] @ [?e'..<cw_chunk_count w0 - 1]"
      using en by (metis le_add_diff_inverse upt_add_eq_append zero_le)
    then show ?thesis using none by (auto simp: blocked_def collect_res_append and_then_Inr_iff)
  qed
  from r good bad show ?thesis by blast
qed

lemma stage_cursor:
  "stage A w0 base s t (w\<lparr>cw_hashed := a, cw_entry_index := b, cw_entry_written := c\<rparr>) out \<longleftrightarrow> stage A w0 base s t w out"
  "stage A w0 base s t (w\<lparr>cw_hashed := a, cw_entry_written := c\<rparr>) out \<longleftrightarrow> stage A w0 base s t w out"
  by (simp_all add: stage_def frame_def pushed_def)

text \<open>\<open>feeding blake3 us w t\<close>: of the contents \<open>us\<close> the bytes \<open>t\<close> have been fed.\<close>

definition feeding :: "(byte list \<Rightarrow> byte list) \<Rightarrow> byte list list \<Rightarrow> container_writer \<Rightarrow> byte list \<Rightarrow> bool" where
  "feeding blake3 us w t \<longleftrightarrow>
     cw_sizes w = map length us \<and> cw_hashes w = map (\<lambda>u. ContentHash (blake3 u)) us \<and> cw_entry_index w \<le> length us \<and>
     cw_entry_written w = length (cw_hashed w) \<and>
     (cw_entry_index w < length us \<longrightarrow> (\<exists>later. us ! cw_entry_index w = cw_hashed w @ later)) \<and>
     (cw_entry_index w = length us \<longrightarrow> cw_hashed w = []) \<and>
     t = concat (take (cw_entry_index w) us) @ cw_hashed w"

lemma close_filled:
  assumes "feeding blake3 us w t" and "stage A w0 base s t' w out"
  shows "\<exists>w'. cw_close_filled_entries blake3 w = Inr w' \<and> feeding blake3 us w' t \<and> stage A w0 base s t' w' out \<and>
    (cw_entry_index w' < length us \<longrightarrow> cw_entry_written w' < length (us ! cw_entry_index w'))"
  using assms
proof (induction "length us - cw_entry_index w" arbitrary: w)
  case 0
  then show ?case by (subst cw_close_filled_entries.simps) (auto simp: feeding_def)
next
  case (Suc k)
  let ?i = "cw_entry_index w"
  have i: "?i < length us" using Suc.hyps(2) by simp
  then obtain later where later: "us ! ?i = cw_hashed w @ later" using Suc.prems(1) by (auto simp: feeding_def)
  show ?case
  proof (cases "cw_entry_written w = length (us ! ?i)")
    case False
    then have "cw_entry_written w < length (us ! ?i)" using later Suc.prems(1) by (simp add: feeding_def)
    then show ?thesis using Suc.prems i False by (subst cw_close_filled_entries.simps) (auto simp: feeding_def)
  next
    case True
    then have u: "us ! ?i = cw_hashed w" using later Suc.prems(1) by (simp add: feeding_def)
    let ?w = "w\<lparr>cw_hashed := [], cw_entry_index := ?i + 1, cw_entry_written := 0\<rparr>"
    have "cw_close_filled_entries blake3 w = cw_close_filled_entries blake3 ?w"
      using Suc.prems(1) i True by (subst cw_close_filled_entries.simps) (simp add: feeding_def u Let_def)
    moreover have "feeding blake3 us ?w t"
      using Suc.prems(1) i u by (auto simp: feeding_def take_Suc_conv_app_nth)
    moreover have "stage A w0 base s t' ?w out"
      using Suc.prems(2) by (simp add: stage_cursor)
    ultimately show ?thesis using Suc.hyps(1) [of ?w] Suc.hyps(2) by simp
  qed
qed

lemma write_stage:
  assumes "feeding blake3 us w t" and "stage A w0 base s t w out" and "t @ remaining @ rest = concat us"
    and "\<exists>pad. s = concat us @ pad"
  shows "\<exists>r. cw_write A blake3 w remaining out = Some r \<and>
    (\<forall>w' out'. r = Inr (w', out') \<longrightarrow> feeding blake3 us w' (t @ remaining) \<and> stage A w0 base s (t @ remaining) w' out') \<and>
    (\<forall>e. r = Inl e \<longrightarrow> blocked A w0 s)"
  using assms
proof (induction A blake3 w remaining out arbitrary: t rule: cw_write.induct)
  case (1 A blake3 w remaining out)
  show ?case
  proof (cases "remaining = []")
    case True
    then show ?thesis using 1(2,3) by (subst cw_write.simps) simp
  next
    case False
    obtain w1 where cl: "cw_close_filled_entries blake3 w = Inr w1" and f1: "feeding blake3 us w1 t"
      and s1: "stage A w0 base s t w1 out"
      and lt: "cw_entry_index w1 < length us \<longrightarrow> cw_entry_written w1 < length (us ! cw_entry_index w1)"
      using close_filled [OF 1(2,3)] by blast
    let ?i = "cw_entry_index w1"
    have i: "?i < length us"
    proof (rule ccontr)
      assume "\<not> ?i < length us"
      then have "t = concat us" using f1 by (simp add: feeding_def)
      then show False using 1(4) False by simp
    qed
    define k where "k = min (cw_sizes w1 ! ?i - cw_entry_written w1) (length remaining)"
    define w2 where "w2 = w1\<lparr>cw_hashed := cw_hashed w1 @ take k remaining, cw_entry_written := cw_entry_written w1 + k\<rparr>"
    obtain later where u: "us ! ?i = cw_hashed w1 @ later" using f1 i by (auto simp: feeding_def)
    have sz: "cw_sizes w1 ! ?i - cw_entry_written w1 = length later" using f1 i u by (simp add: feeding_def)
    have k0: "k \<noteq> 0" using lt i False f1 by (auto simp: k_def feeding_def)
    have us: "concat us = concat (take ?i us) @ us ! ?i @ concat (drop (Suc ?i) us)"
      using i by (metis concat.simps(2) concat_append id_take_nth_drop)
    have "remaining @ rest = later @ concat (drop (Suc ?i) us)"
      using 1(4) us f1 u by (simp add: feeding_def)
    then have "take k (remaining @ rest) = take k (later @ concat (drop (Suc ?i) us))" by simp
    then have tk: "take k remaining = take k later" by (simp add: k_def sz)
    have f2: "feeding blake3 us w2 (t @ take k remaining)"
    proof -
      have "later = take k remaining @ drop k later" by (simp add: tk)
      then have "us ! ?i = (cw_hashed w1 @ take k remaining) @ drop k later" using u by simp
      moreover have "length (take k remaining) = k" by (simp add: k_def)
      ultimately show ?thesis using f1 i unfolding feeding_def w2_def by auto
    qed
    have st2: "stage A w0 base s t w2 out"
      using s1 by (simp add: w2_def stage_cursor)
    obtain pad where pad: "s = concat us @ pad" using 1(5) by blast
    have "t @ (take k remaining @ drop k remaining) @ rest = concat us" using 1(4) by simp
    then have cut: "t @ take k remaining @ drop k remaining @ rest = concat us" by (simp only: append_assoc)
    then have pre: "t @ take k remaining @ (drop k remaining @ rest @ pad) = s"
      by (simp only: pad append_assoc [symmetric])
    from push_stage [OF st2 pre] obtain r where r: "cw_push A w2 (take k remaining) out = Some r"
      and ok: "\<And>w' out'. r = Inr (w', out') \<Longrightarrow> stage A w0 base s (t @ take k remaining) w' out' \<and> cursor w' = cursor w2"
      and bad: "\<And>e. r = Inl e \<Longrightarrow> blocked A w0 s" by blast
    have step: "cw_write A blake3 w remaining out = (case r of Inl e \<Rightarrow> Some (Inl e)
        | Inr (w, out) \<Rightarrow> cw_write A blake3 w (drop k remaining) out)"
    proof -
      have "?i < length (cw_sizes w1)" using i f1 by (simp add: feeding_def)
      then show ?thesis
        using False cl k0 r by (subst cw_write.simps) (simp add: Let_def k_def [symmetric] w2_def [symmetric] cong: sum.case_cong)
    qed
    show ?thesis
    proof (cases r)
      case (Inl e)
      then show ?thesis using step bad by simp
    next
      case (Inr p)
      obtain w3 out3 where p: "p = (w3, out3)" by (cases p)
      have st3: "stage A w0 base s (t @ take k remaining) w3 out3" and cu: "cursor w3 = cursor w2"
        using ok Inr p by simp_all
      have "frame w3 = frame w0" "frame w2 = frame w0" using st3 st2 by (simp_all add: stage_def)
      then have fr: "frame w3 = frame w2" by simp
      have "cw_sizes w3 = cw_sizes w2" "cw_hashes w3 = cw_hashes w2" using frame_fields [OF fr] by blast+
      then have f3: "feeding blake3 us w3 (t @ take k remaining)" using f2 cu by (simp add: feeding_def cursor_def)
      have i': "\<not> \<not> ?i < length (cw_sizes w1)" using i f1 by (simp add: feeding_def)
      have rest3: "(t @ take k remaining) @ drop k remaining @ rest = concat us" using cut by simp
      from 1(1) [OF False cl i' refl k_def w2_def k0 r Inr p [symmetric] f3 st3 rest3 1(5)]
      show ?thesis using step Inr p by simp
    qed
  qed
qed

lemma write_all_stage:
  assumes "feeding blake3 us w t" and "stage A w0 base s t w out" and "t @ concat pieces @ rest = concat us"
    and "\<exists>pad. s = concat us @ pad"
  shows "\<exists>r. cw_write_all A blake3 w pieces out = Some r \<and>
    (\<forall>w' out'. r = Inr (w', out') \<longrightarrow> feeding blake3 us w' (t @ concat pieces) \<and> stage A w0 base s (t @ concat pieces) w' out') \<and>
    (\<forall>e. r = Inl e \<longrightarrow> blocked A w0 s)"
  using assms(1-3)
proof (induction pieces arbitrary: w t out)
  case (Cons p ps)
  have pre: "t @ p @ (concat ps @ rest) = concat us" using Cons.prems(3) by simp
  from write_stage [OF Cons.prems(1,2) pre assms(4)] obtain r where r: "cw_write A blake3 w p out = Some r"
    and ok: "\<And>w' out'. r = Inr (w', out') \<Longrightarrow> feeding blake3 us w' (t @ p) \<and> stage A w0 base s (t @ p) w' out'"
    and bad: "\<And>e. r = Inl e \<Longrightarrow> blocked A w0 s" by blast
  show ?case
  proof (cases r)
    case (Inl e)
    then show ?thesis using r bad by simp
  next
    case (Inr q)
    obtain w1 out1 where q: "q = (w1, out1)" by (cases q)
    from ok Inr q have f1: "feeding blake3 us w1 (t @ p)" and s1: "stage A w0 base s (t @ p) w1 out1" by blast+
    show ?thesis using Cons.IH [OF f1 s1] Cons.prems(3) r Inr q by simp
  qed
qed simp

lemma pad_stage:
  assumes "stage A w0 base s t w out" and "t @ replicate n 0 = s"
  shows "\<exists>r. cw_pad A w n out = Some r \<and>
    (\<forall>w' out'. r = Inr (w', out') \<longrightarrow> stage A w0 base s s w' out') \<and> (\<forall>e. r = Inl e \<longrightarrow> blocked A w0 s)"
  using assms
proof (induction A w n out arbitrary: t rule: cw_pad.induct)
  case (1 A w n out)
  show ?case
  proof (cases "n = 0")
    case True
    then show ?thesis using 1(2,3) by (subst cw_pad.simps) simp
  next
    case False
    define k where "k = min n zero_slab"
    have kn: "k \<le> n" by (simp add: k_def)
    have pre: "t @ replicate k 0 @ replicate (n - k) 0 = s" using 1(3) kn by (simp flip: replicate_add)
    from push_stage [OF 1(2) pre] obtain r where r: "cw_push A w (replicate k 0) out = Some r"
      and ok: "\<And>w' out'. r = Inr (w', out') \<Longrightarrow> stage A w0 base s (t @ replicate k 0) w' out'"
      and bad: "\<And>e. r = Inl e \<Longrightarrow> blocked A w0 s" by blast
    have step: "cw_pad A w n out = (case r of Inl e \<Rightarrow> Some (Inl e) | Inr (w, out) \<Rightarrow> cw_pad A w (n - k) out)"
      using False r by (subst cw_pad.simps) (simp add: Let_def k_def cong: sum.case_cong)
    show ?thesis
    proof (cases r)
      case (Inl e)
      then show ?thesis using step bad by simp
    next
      case (Inr q)
      obtain w1 out1 where q: "q = (w1, out1)" by (cases q)
      from ok Inr q have s1: "stage A w0 base s (t @ replicate k 0) w1 out1" by blast
      have pre1: "(t @ replicate k 0) @ replicate (n - k) 0 = s" using pre by simp
      from 1(1) [OF False k_def r Inr q [symmetric] s1 pre1] show ?thesis using step Inr q by simp
    qed
  qed
qed

section \<open>The writer is the encoder\<close>

lemma finish_stage:
  assumes f: "feeding blake3 us w (concat us)" and st: "stage A w0 base s (concat us) w out"
    and s: "s = concat us @ replicate (cw_pad_len w0) 0"
    and e: "emitted_at (cw_chunk_size w0) (cw_chunk_count w0) (length s) = cw_chunk_count w0 - 1"
  shows "\<exists>r. cw_finish A blake3 w out = Some r \<and>
    (\<forall>es out'. r = Inr (es, out') \<longleftrightarrow>
       (\<exists>ms m. collect_res (early_chunk A w0 s) [0..<cw_chunk_count w0 - 1] = Inr ms \<and>
          seal A (cw_key w0) (nonce_chunk (cw_chunk_count w0 - 1) True) (cw_header_bytes w0)
            (drop ((cw_chunk_count w0 - 1) * cw_chunk_size w0) s) [] = Inr m \<and>
          es = cw_entries w0 \<and> out' = base @ concat ms @ m))"
proof -
  obtain w1 where cl: "cw_close_filled_entries blake3 w = Inr w1" and f1: "feeding blake3 us w1 (concat us)"
    and s1: "stage A w0 base s (concat us) w1 out"
    and lt: "cw_entry_index w1 < length us \<longrightarrow> cw_entry_written w1 < length (us ! cw_entry_index w1)"
    using close_filled [OF f st] by blast
  have idx: "\<not> cw_entry_index w1 < length (cw_sizes w1)"
  proof
    let ?i = "cw_entry_index w1"
    assume "?i < length (cw_sizes w1)"
    then have i: "?i < length us" using f1 by (simp add: feeding_def)
    then have "concat us = concat (take ?i us) @ us ! ?i @ concat (drop (Suc ?i) us)"
      by (metis concat.simps(2) concat_append id_take_nth_drop)
    moreover have "concat us = concat (take ?i us) @ cw_hashed w1" using f1 by (simp add: feeding_def)
    ultimately have "cw_hashed w1 = us ! ?i @ concat (drop (Suc ?i) us)" by simp
    then have "length (us ! ?i) \<le> length (cw_hashed w1)" by simp
    then show False using lt i f1 by (simp add: feeding_def)
  qed
  have fr1: "frame w1 = frame w0" using s1 by (simp add: stage_def)
  have pad: "cw_pad_len w1 = cw_pad_len w0" by (rule frame_fields(8) [OF fr1])
  have pre: "concat us @ replicate (cw_pad_len w1) 0 = s" by (simp add: pad s)
  from pad_stage [OF s1 pre] obtain r where r: "cw_pad A w1 (cw_pad_len w1) out = Some r"
    and ok: "\<And>w' out'. r = Inr (w', out') \<Longrightarrow> stage A w0 base s s w' out'"
    and bad: "\<And>e. r = Inl e \<Longrightarrow> blocked A w0 s" by blast
  have fin: "cw_finish A blake3 w out = (case r of Inl e \<Rightarrow> Some (Inl e)
      | Inr (w, out) \<Rightarrow> Some (and_then (cw_seal A w True out) (\<lambda>(w, out). Inr (cw_entries w, out))))"
    using cl idx r by (simp add: cw_finish_def)
  show ?thesis
  proof (cases r)
    case (Inl err)
    then have "blocked A w0 s" using bad by blast
    then show ?thesis using fin Inl by (auto simp: blocked_def)
  next
    case (Inr q)
    obtain w2 out2 where q: "q = (w2, out2)" by (cases q)
    have s2: "stage A w0 base s s w2 out2" using ok Inr q by blast
    have fr2: "frame w2 = frame w0" using s2 by (simp add: stage_def)
    note ff = frame_fields [OF fr2]
    have em: "cw_emitted w2 = cw_chunk_count w0 - 1" using s2 e unfolding stage_def pushed_def ff by simp
    have bf: "cw_buffer w2 = drop ((cw_chunk_count w0 - 1) * cw_chunk_size w0) s"
      using s2 unfolding stage_def pushed_def ff em by simp
    obtain ms where ms: "collect_res (early_chunk A w0 s) [0..<cw_chunk_count w0 - 1] = Inr ms" "out2 = base @ concat ms"
      using s2 unfolding stage_def em by blast
    let ?seal = "seal A (cw_key w0) (nonce_chunk (cw_chunk_count w0 - 1) True) (cw_header_bytes w0)
            (drop ((cw_chunk_count w0 - 1) * cw_chunk_size w0) s)"
    have "and_then (cw_seal A w2 True out2) (\<lambda>(w, out). Inr (cw_entries w, out)) =
        and_then (?seal []) (\<lambda>m. Inr (cw_entries w0, out2 @ m))"
      unfolding cw_seal_def ff em bf
      by (cases "encrypt A (cw_key w0) (nonce_chunk (cw_chunk_count w0 - 1) True) (cw_header_bytes w0)
            (drop ((cw_chunk_count w0 - 1) * cw_chunk_size w0) s)") (auto simp: seal_def ff(7))
    then show ?thesis using fin Inr q ms by (auto simp: and_then_Inr_iff)
  qed
qed

lemma early_is_sealed:
  assumes "j < cw_chunk_count w - 1"
  shows "early_chunk A w s j = sealed_chunk A (cw_key w) (cw_header_bytes w) (cw_chunk_size w) (cw_chunk_count w) s j"
  using assms by (auto simp: early_chunk_def sealed_chunk_def chunk_at_def)

lemma container_body_split:
  assumes "0 < cw_chunk_count w"
  shows "container_body A (cw_key w) (cw_header_bytes w) (cw_chunk_size w) (cw_chunk_count w) s = Inr body \<longleftrightarrow>
    (\<exists>ms m. collect_res (early_chunk A w s) [0..<cw_chunk_count w - 1] = Inr ms \<and>
       seal A (cw_key w) (nonce_chunk (cw_chunk_count w - 1) True) (cw_header_bytes w)
         (drop ((cw_chunk_count w - 1) * cw_chunk_size w) s) [] = Inr m \<and> body = concat ms @ m)"
proof -
  let ?n = "cw_chunk_count w"
  let ?sc = "sealed_chunk A (cw_key w) (cw_header_bytes w) (cw_chunk_size w) ?n s"
  have "[0..<?n] = [0..<?n - 1] @ [?n - 1]" using assms by (cases ?n) simp_all
  moreover have "collect_res ?sc [0..<?n - 1] = collect_res (early_chunk A w s) [0..<?n - 1]"
    by (rule collect_res_cong) (simp_all add: early_is_sealed)
  moreover have "?sc (?n - 1) = seal A (cw_key w) (nonce_chunk (?n - 1) True) (cw_header_bytes w)
         (drop ((?n - 1) * cw_chunk_size w) s) []"
    using assms by (simp add: sealed_chunk_def chunk_at_def)
  ultimately show ?thesis
    by (auto simp: container_body_def and_then_Inr_iff collect_res_append)
qed

lemma planned_total:
  assumes "k + planned_size ps < 2 ^ 64"
  shows "try_fold (\<lambda>total p. ok_or StreamTooLong (checked_add64 total (ep_size p))) k ps = Inr (k + planned_size ps)"
  using assms by (induction ps arbitrary: k) (simp_all add: planned_size_def checked_add64_def add.assoc)

definition plan_of_request :: "(byte list \<Rightarrow> byte list) \<Rightarrow> encode_request \<Rightarrow> encode_plan" where
  "plan_of_request blake3 req =
     \<lparr>ek_container = er_container req, ek_kind = er_kind req, ek_key = er_key req, ek_chunk_size = er_chunk_size req,
      ek_entries = map (plan_of_source blake3) (er_entries req)\<rparr>"

text \<open>The writer just after \<open>begin\<close>.\<close>

definition begun :: "(byte list \<Rightarrow> byte list) \<Rightarrow> encode_request \<Rightarrow> layout \<Rightarrow> container_writer" where
  "begun blake3 req ly =
     \<lparr>cw_key = key_bytes (er_key req), cw_header_bytes = ly_header_bytes ly,
      cw_sizes = map (\<lambda>e. length (es_content e)) (er_entries req),
      cw_hashes = map (\<lambda>e. ContentHash (blake3 (es_content e))) (er_entries req), cw_entry_index = 0, cw_entry_written = 0,
      cw_hashed = [], cw_buffer = [], cw_chunk_size = chunk_bytes (er_chunk_size req), cw_chunk_count = ly_chunk_count ly,
      cw_entries = ly_entries ly, cw_emitted = 0, cw_pad_len = ly_pad_len ly,
      cw_planned = planned_size (map (plan_of_source blake3) (er_entries req))\<rparr>"

lemma cw_begin_eq:
  assumes "planned_size (map (plan_of_source blake3) (er_entries req)) \<le> max_format_integer"
    and "chunk_size_ok (er_chunk_size req)"
    and "layout_plan L (er_container req) (er_chunk_size req) (er_kind req) (map (plan_of_source blake3) (er_entries req)) = Inr ly"
  shows "cw_begin L A (plan_of_request blake3 req) [] =
    and_then (seal A (key_bytes (er_key req)) nonce_meta (ly_header_bytes ly) (ly_meta_plaintext ly) (ly_header_bytes ly))
      (\<lambda>out. Inr (begun blake3 req ly, out))"
proof -
  have "try_fold (\<lambda>total p. ok_or StreamTooLong (checked_add64 total (ep_size p))) 0 (map (plan_of_source blake3) (er_entries req))
      = Inr (planned_size (map (plan_of_source blake3) (er_entries req)))"
    using planned_total [of 0] assms(1) by (simp add: max_format_integer_def)
  moreover have "to_usize (chunk_bytes (er_chunk_size req)) = Some (chunk_bytes (er_chunk_size req))"
    using assms(2) by (simp add: chunk_size_ok_def to_usize_def usize_bits_def)
  ultimately show ?thesis
    by (simp add: cw_begin_def plan_of_request_def assms(3) begun_def plan_of_source_def comp_def)
qed

lemma cw_run_encode:
  assumes L: "cbor_laws L" and cs: "chunk_size_ok (er_chunk_size req)"
    and pieces: "concat pieces = concat (map es_content (er_entries req))"
  shows "\<exists>r. cw_run L A blake3 (plan_of_request blake3 req) pieces = Some r \<and>
    (\<forall>es out. r = Inr (es, out) \<longleftrightarrow>
       (\<exists>ec. encode L A blake3 req = Inr ec \<and> ec_bytes ec = out \<and> ec_entries ec = es))"
proof (cases "layout_plan L (er_container req) (er_chunk_size req) (er_kind req) (map (plan_of_source blake3) (er_entries req))")
  case (Inl e)
  then show ?thesis by (simp add: cw_run_def cw_begin_def plan_of_request_def encode_def)
next
  case ly: (Inr ly)
  let ?ps = "map (plan_of_source blake3) (er_entries req)" and ?us = "map es_content (er_entries req)"
  let ?s = "request_stream req (ly_pad_len ly)" and ?w0 = "begun blake3 req ly"
  have size: "planned_size ?ps \<le> max_format_integer"
    and pad: "planned_size ?ps + ly_pad_len ly = ly_padded_len ly"
    and n: "ly_chunk_count ly = max (div_ceil (ly_padded_len ly) (chunk_bytes (er_chunk_size req))) 1"
    by (rule layout_plan_Ok [OF L ly]; assumption)+
  have cs0: "0 < chunk_bytes (er_chunk_size req)" using cs by (simp add: chunk_size_ok_def)
  note enc = encode_Ok_iff [OF L cs0 ly, of A]
  note beg = cw_begin_eq [OF size cs ly, of A]
  show ?thesis
  proof (cases "seal A (key_bytes (er_key req)) nonce_meta (ly_header_bytes ly) (ly_meta_plaintext ly) []")
    case (Inl e)
    then have "\<And>m. seal A (key_bytes (er_key req)) nonce_meta (ly_header_bytes ly) (ly_meta_plaintext ly) (ly_header_bytes ly) \<noteq> Inr m"
      using seal_out by (metis sum.distinct(1))
    then obtain e' where "seal A (key_bytes (er_key req)) nonce_meta (ly_header_bytes ly) (ly_meta_plaintext ly) (ly_header_bytes ly) = Inl e'"
      by (metis sum.exhaust)
    then show ?thesis using enc Inl beg by (simp add: cw_run_def)
  next
    case m: (Inr m)
    have len: "length ?s = ly_padded_len ly"
      using pad by (simp add: request_stream_def planned_size_def plan_of_source_def length_concat comp_def)
    have fit: "chunks_fit (chunk_bytes (er_chunk_size req)) (ly_chunk_count ly) ?s"
      using cs0 n len by (simp add: chunks_fit_def)
    have beg: "cw_begin L A (plan_of_request blake3 req) [] = Inr (?w0, ly_header_bytes ly @ m)"
    proof -
      have "seal A (key_bytes (er_key req)) nonce_meta (ly_header_bytes ly) (ly_meta_plaintext ly) (ly_header_bytes ly)
          = Inr (ly_header_bytes ly @ m)"
        using m seal_out by blast
      then show ?thesis using beg by simp
    qed
    have f0: "feeding blake3 ?us ?w0 []" by (auto simp: feeding_def begun_def comp_def)
    have st0: "stage A ?w0 (ly_header_bytes ly @ m) ?s [] ?w0 (ly_header_bytes ly @ m)"
      using chunks_fit_bounds [OF fit] cs0 by (simp add: stage_def pushed_def begun_def emitted_at_def)
    have pre: "[] @ concat pieces @ [] = concat ?us" and sp: "\<exists>p. ?s = concat ?us @ p"
      using pieces by (simp_all add: request_stream_def)
    from write_all_stage [OF f0 st0 pre sp] obtain r where r: "cw_write_all A blake3 ?w0 pieces (ly_header_bytes ly @ m) = Some r"
      and ok: "\<And>w' out'. r = Inr (w', out') \<Longrightarrow> feeding blake3 ?us w' (concat ?us) \<and>
         stage A ?w0 (ly_header_bytes ly @ m) ?s (concat ?us) w' out'"
      and bad: "\<And>e. r = Inl e \<Longrightarrow> blocked A ?w0 ?s"
      using pieces by auto
    have n0: "0 < cw_chunk_count ?w0" using n by (simp add: begun_def)
    have body: "container_body A (key_bytes (er_key req)) (ly_header_bytes ly) (chunk_bytes (er_chunk_size req)) (ly_chunk_count ly) ?s = Inr body \<longleftrightarrow>
      (\<exists>ms k. collect_res (early_chunk A ?w0 ?s) [0..<cw_chunk_count ?w0 - 1] = Inr ms \<and>
       seal A (cw_key ?w0) (nonce_chunk (cw_chunk_count ?w0 - 1) True) (cw_header_bytes ?w0)
         (drop ((cw_chunk_count ?w0 - 1) * cw_chunk_size ?w0) ?s) [] = Inr k \<and> body = concat ms @ k)" for body
      using container_body_split [OF n0, of A ?s] by (simp add: begun_def)
    show ?thesis
    proof (cases r)
      case (Inl e)
      then have "blocked A ?w0 ?s" using bad by blast
      then have "\<And>body. container_body A (key_bytes (er_key req)) (ly_header_bytes ly) (chunk_bytes (er_chunk_size req)) (ly_chunk_count ly) ?s \<noteq> Inr body"
        unfolding body blocked_def by blast
      then show ?thesis using beg r Inl enc by (simp add: cw_run_def)
    next
      case (Inr q)
      obtain w out where q: "q = (w, out)" by (cases q)
      from ok Inr q have f: "feeding blake3 ?us w (concat ?us)"
        and st: "stage A ?w0 (ly_header_bytes ly @ m) ?s (concat ?us) w out" by blast+
      have s: "?s = concat ?us @ replicate (cw_pad_len ?w0) 0" by (simp add: request_stream_def begun_def)
      have e: "emitted_at (cw_chunk_size ?w0) (cw_chunk_count ?w0) (length ?s) = cw_chunk_count ?w0 - 1"
        using chunks_fit_bounds(1,2) [OF fit] cs0 by (intro emitted_at_unique) (simp_all add: begun_def)
      from finish_stage [OF f st s e] obtain rr where rr: "cw_finish A blake3 w out = Some rr"
        and iff: "\<And>es out'. rr = Inr (es, out') \<longleftrightarrow>
         (\<exists>ms k. collect_res (early_chunk A ?w0 ?s) [0..<cw_chunk_count ?w0 - 1] = Inr ms \<and>
          seal A (cw_key ?w0) (nonce_chunk (cw_chunk_count ?w0 - 1) True) (cw_header_bytes ?w0)
            (drop ((cw_chunk_count ?w0 - 1) * cw_chunk_size ?w0) ?s) [] = Inr k \<and>
          es = cw_entries ?w0 \<and> out' = (ly_header_bytes ly @ m) @ concat ms @ k)" by blast
      have "cw_run L A blake3 (plan_of_request blake3 req) pieces = Some rr"
        using beg r Inr q rr by (simp add: cw_run_def)
      moreover have "cw_entries ?w0 = ly_entries ly" by (simp add: begun_def)
      then have "rr = Inr (es, out') \<longleftrightarrow> (\<exists>ec. encode L A blake3 req = Inr ec \<and> ec_bytes ec = out' \<and> ec_entries ec = es)" for es out'
        unfolding iff enc body using m by auto
      ultimately show ?thesis by blast
    qed
  qed
qed

end
