(* ===== verification/Samples.thy ===== *)
theory Samples
  imports Chunk_Fetching Container_Writer Control_Objects Snapshot_Payload
begin

text \<open>
  Concrete inputs for the witnesses of the root theory. The libraries the model takes as parameters are
  instantiated here: an AEAD whose ciphertext is the plaintext and whose tag is sixteen zero bytes, a CBOR
  library that spells each of the items of a table as one byte, and a reader of the wire structures of the meta section.
  Each is shown to satisfy the laws the theorems assume of the library.
\<close>

section \<open>Libraries\<close>

definition plain_aead :: aead where
  "plain_aead = \<lparr>encrypt = (\<lambda>k n ad p. Some (p, replicate 16 0)),
     decrypt = (\<lambda>k n ad c t. if t = replicate 16 0 then Some c else None)\<rparr>"

lemma plain_aead_laws: "aead_laws plain_aead"
  by (auto simp: aead_laws_def plain_aead_def tag_length_def)

definition table_cbor :: "(cbor \<times> byte) list \<Rightarrow> cbor_lib" where
  "table_cbor t = \<lparr>into_writer = (\<lambda>w. case map_of t w of Some b \<Rightarrow> Inr [b] | None \<Rightarrow> Inl (CborFailure [])),
     from_reader = (\<lambda>bs. case bs of [] \<Rightarrow> Inl (CborFailure [])
        | b # rest \<Rightarrow> (case map_of (map prod.swap t) b of Some v \<Rightarrow> Inr (v, rest) | None \<Rightarrow> Inl (CborFailure [])))\<rparr>"

lemma table_cbor_laws:
  assumes "distinct (map snd t)"
  shows "cbor_laws (table_cbor t)"
proof -
  have sw: "map_of (map prod.swap t) b = Some v" if "map_of t v = Some b" for v b
  proof (rule map_of_is_SomeI)
    show "distinct (map fst (map prod.swap t))" using assms by (simp add: comp_def)
    show "(b, v) \<in> set (map prod.swap t)" using map_of_SomeD [OF that] by force
  qed
  show ?thesis
    unfolding cbor_laws_def table_cbor_def
    by (auto simp: sw split: option.splits list.splits)
qed

definition value_at :: "(cbor \<times> cbor) list \<Rightarrow> string \<Rightarrow> cbor" where
  "value_at kvs name = (case map_of kvs (Txt name) of Some v \<Rightarrow> v | None \<Rightarrow> Null)"

fun map_pairs :: "cbor \<Rightarrow> (cbor \<times> cbor) list" where
  "map_pairs (Map kvs) = kvs" | "map_pairs _ = []"

fun items_in :: "cbor \<Rightarrow> cbor list" where
  "items_in (Array vs) = vs" | "items_in _ = []"

fun text_in :: "cbor \<Rightarrow> string" where
  "text_in (Txt s) = s" | "text_in _ = []"

fun bytes_in :: "cbor \<Rightarrow> byte list" where
  "bytes_in (Bytes b) = b" | "bytes_in _ = []"

fun int_in :: "cbor \<Rightarrow> int" where
  "int_in (Integer n) = n" | "int_in _ = 0"

definition read_entry :: "cbor \<Rightarrow> wire_meta_entry" where
  "read_entry v = (let kvs = map_pairs v in
     \<lparr>wm_captured_path = text_in (value_at kvs ''captured_path''), wm_offset = nat (int_in (value_at kvs ''offset'')),
      wm_size = nat (int_in (value_at kvs ''size'')), wm_captured_mtime = int_in (value_at kvs ''captured_mtime''),
      wm_captured_btime = map_option int_in (map_of kvs (Txt ''captured_btime'')),
      wm_hash = bytes_in (value_at kvs ''hash''),
      wm_derived_from = map_option (\<lambda>d. \<lparr>wd_container = bytes_in (value_at (map_pairs d) ''container_id''),
         wd_captured_path = text_in (value_at (map_pairs d) ''captured_path'')\<rparr>) (map_of kvs (Txt ''derived_from'')),
      wm_mime = map_option text_in (map_of kvs (Txt ''mime''))\<rparr>)"

definition read_meta :: "cbor \<Rightarrow> cbor_failure + wire_meta" where
  "read_meta v = (let kvs = map_pairs v in Inr
     \<lparr>wm_schema = nat (int_in (value_at kvs ''schema'')),
      wm_kind = (case kind_parse (text_in (value_at kvs ''kind'')) of Some k \<Rightarrow> k | None \<Rightarrow> WirePack),
      wm_pad_len = nat (int_in (value_at kvs ''pad_len'')),
      wm_entries = map read_entry (items_in (value_at kvs ''entries''))\<rparr>)"

lemma read_ser_entry: "read_entry (ser_meta_entry e) = e"
proof -
  obtain p n s mt bt h d mi where e: "e = \<lparr>wm_captured_path = p, wm_offset = n, wm_size = s, wm_captured_mtime = mt,
      wm_captured_btime = bt, wm_hash = h, wm_derived_from = d, wm_mime = mi\<rparr>"
    by (cases e)
  show ?thesis
    by (cases bt; cases d; cases mi)
      (simp_all add: e read_entry_def ser_meta_entry_def opt_field_def ser_derived_from_def value_at_def)
qed

lemma read_meta_laws: "serde_laws read_meta"
  by (simp add: serde_laws_def read_meta_def ser_meta_def value_at_def comp_def read_ser_entry)

section \<open>A Container of one Entry\<close>

definition sample_id :: container_id where
  "sample_id = ContainerId (replicate 16 7)"

definition sample_source :: entry_source where
  "sample_source = \<lparr>es_path = EntryPath ''a'', es_mtime = Mtime 0, es_btime = None, es_content = [1, 2, 3],
     es_derived = None, es_mime = None\<rparr>"

definition sample_hash :: "byte list \<Rightarrow> byte list" where
  "sample_hash bs = replicate 32 0"

definition sample_request :: encode_request where
  "sample_request = \<lparr>er_container = sample_id, er_kind = OneFile,
     er_key = ContainerKey (replicate 32 0), er_chunk_size = ChunkSize 2, er_entries = [sample_source]\<rparr>"

definition sample_entry :: entry_metadata where
  "sample_entry = to_metadata (plan_of_source sample_hash sample_source) \<lparr>offset = 0, extent_size = 3\<rparr>"

definition sample_meta :: meta where
  "sample_meta = \<lparr>m_kind = OneFile, m_pad_len = 0, m_entries = [sample_entry]\<rparr>"

definition sample_wire :: cbor where
  "sample_wire = (case to_wire (ser_meta \<lparr>wm_schema = meta_schema, wm_kind = WireOneFile, wm_pad_len = 0,
     wm_entries = [wire_of_entry sample_entry]\<rparr>) META of Inr w \<Rightarrow> w | Inl _ \<Rightarrow> Null)"

definition sample_cbor :: cbor_lib where
  "sample_cbor = table_cbor [(sample_wire, 1)]"

lemma sample_cbor_laws: "cbor_laws sample_cbor"
  unfolding sample_cbor_def by (rule table_cbor_laws) simp

lemma sample_padded: "padded_len_u64 3 = 3" "padded_len_u64 1 = 1"
  by code_simp+

definition sample_wire_meta :: wire_meta where
  "sample_wire_meta = \<lparr>wm_schema = meta_schema, wm_kind = WireOneFile, wm_pad_len = 0, wm_entries = [wire_of_entry sample_entry]\<rparr>"

lemma sample_to_wire: "to_wire (ser_meta sample_wire_meta) META = Inr sample_wire"
proof -
  have "\<exists>w. to_wire (ser_meta sample_wire_meta) META = Inr w" by (rule ser_meta_to_wire)
  then show ?thesis by (auto simp: sample_wire_def sample_wire_meta_def)
qed

lemma sample_meta_encoded: "meta_encode sample_cbor sample_meta = Inr [1]"
  using sample_to_wire
  by (simp add: meta_encode_def sample_meta_def bounded_uint_def max_format_integer_def meta_write_def sample_wire_meta_def
    sample_cbor_def table_cbor_def)


lemma sample_entry_ok: "entry_ok (\<lambda>_. True) sample_entry"
proof -
  have e: "sample_entry = \<lparr>path = EntryPath ''a'', captured_path = EntryPath ''a'', extent = \<lparr>offset = 0, extent_size = 3\<rparr>,
      modified = Mtime 0, born = None, content = ContentHash (replicate 32 0), derivation = None, mime = None\<rparr>"
    by (simp add: sample_entry_def to_metadata_def plan_of_source_def sample_source_def sample_hash_def)
  have "path_ok (EntryPath ''a'')" by (simp add: path_ok_def path_shape_def)
  moreover have "extent_ok \<lparr>offset = 0, extent_size = 3\<rparr>" by (simp add: extent_ok_def max_format_integer_def)
  ultimately show ?thesis
    unfolding entry_ok_def e by (simp add: i64_def)
qed

lemma sample_meta_ok: "meta_ok (\<lambda>_. True) sample_meta"
  by (simp add: meta_ok_def sample_meta_def sample_entry_ok max_format_integer_def)
    (simp add: sample_entry_def to_metadata_def)

definition sample_layout :: layout where
  "sample_layout = \<lparr>ly_header_bytes = header_to_bytes \<lparr>h_container = sample_id, h_chunk_size = ChunkSize 2, h_meta_len = 17\<rparr>,
     ly_meta_plaintext = [1], ly_meta_len = 17, ly_padded_len = 3, ly_pad_len = 0, ly_chunk_count = 2,
     ly_entries = [sample_entry]\<rparr>"

lemma sample_planned:
  "layout_plan sample_cbor (er_container sample_request) (er_chunk_size sample_request) (er_kind sample_request)
     (map (plan_of_source sample_hash) (er_entries sample_request)) = Inr sample_layout"
proof -
  have size: "ep_size (plan_of_source sample_hash sample_source) = 3"
    by (simp add: plan_of_source_def sample_source_def)
  have st: "stream_extent 0 0 = Inr \<lparr>offset = 0, extent_size = 0\<rparr>"
    by (simp add: stream_extent_Ok_iff max_format_integer_def extent_ok_def)
  have af: "extent_after \<lparr>offset = 0, extent_size = 0\<rparr> 3 = Inr \<lparr>offset = 0, extent_size = 3\<rparr>"
    by (simp add: extent_after_Ok_iff max_format_integer_def extent_ok_def)
  have fold: "try_fold place_step (\<lparr>offset = 0, extent_size = 0\<rparr>, []) [plan_of_source sample_hash sample_source]
      = Inr (\<lparr>offset = 0, extent_size = 3\<rparr>, [sample_entry])"
    by (simp add: place_step_def size af sample_entry_def)
  have enc: "meta_encode sample_cbor \<lparr>m_kind = OneFile, m_pad_len = 0, m_entries = [sample_entry]\<rparr> = Inr [1]"
    using sample_meta_encoded by (simp only: sample_meta_def)
  have x: "extent_end \<lparr>offset = 0, extent_size = 3\<rparr> = 3" "wsub64 3 3 = 0" "wadd64 1 tag_length = 17"
    "1 + tag_length = 17" "(17 > max_meta_len) = False"
    by (simp_all add: extent_end_def wadd64_def wsub64_def u64_bound_def tag_length_def max_meta_len_def)
  have m: "resize 1 [1 :: byte] = [1]" "length [1 :: byte] = 1" "max (div_ceil 3 2) 1 = 2"
    by (simp_all add: resize_def div_ceil_def)
  show ?thesis
    unfolding layout_plan_def sample_request_def encode_request.simps list.map st and_then.simps fold prod.case Let_def x
      sample_padded enc m chunk_size.sel sample_layout_def if_False
    by simp
qed

lemma sample_body:
  "seal plain_aead (key_bytes (er_key sample_request)) nonce_meta hb [1] [] = Inr (1 # replicate 16 0)"
  "container_body plain_aead (key_bytes (er_key sample_request)) hb 2 2 [1, 2, 3]
     = Inr (([1, 2] @ replicate 16 0) @ ([3] @ replicate 16 0))"
proof -
  show "seal plain_aead (key_bytes (er_key sample_request)) nonce_meta hb [1] [] = Inr (1 # replicate 16 0)"
    by (simp add: seal_def plain_aead_def)
  have "[0..<2] = [0, Suc 0]" by (simp add: upt_rec)
  then show "container_body plain_aead (key_bytes (er_key sample_request)) hb 2 2 [1, 2, 3]
     = Inr (([1, 2] @ replicate 16 0) @ ([3] @ replicate 16 0))"
    by (simp add: container_body_def sealed_chunk_def chunk_at_def seal_def plain_aead_def)
qed

definition sample_container :: encoded_container where
  "sample_container = \<lparr>ec_bytes = ly_header_bytes sample_layout @ (1 # replicate 16 0) @ (([1, 2] @ replicate 16 0) @ ([3] @ replicate 16 0)),
     ec_object_name = container_object_name sample_id, ec_entries = [sample_entry]\<rparr>"

lemma sample_encoded: "encode sample_cbor plain_aead sample_hash sample_request = Inr sample_container"
proof -
  have cs: "0 < chunk_bytes (er_chunk_size sample_request)" by (simp add: sample_request_def)
  have st: "request_stream sample_request (ly_pad_len sample_layout) = [1, 2, 3]"
    by (simp add: request_stream_def sample_request_def sample_source_def sample_layout_def)
  show ?thesis
    unfolding encode_Ok_iff [OF sample_cbor_laws cs sample_planned] st
  proof (intro exI conjI)
    show "seal plain_aead (key_bytes (er_key sample_request)) nonce_meta (ly_header_bytes sample_layout)
        (ly_meta_plaintext sample_layout) [] = Inr (1 # replicate 16 0)"
      unfolding sample_layout_def layout.simps by (rule sample_body)
    show "container_body plain_aead (key_bytes (er_key sample_request)) (ly_header_bytes sample_layout)
        (chunk_bytes (er_chunk_size sample_request)) (ly_chunk_count sample_layout) [1, 2, 3]
        = Inr (([1, 2] @ replicate 16 0) @ ([3] @ replicate 16 0))"
      unfolding sample_layout_def layout.simps sample_request_def encode_request.simps chunk_size.sel
      by (rule sample_body [unfolded sample_request_def encode_request.simps])
  qed (simp add: sample_layout_def sample_request_def sample_container_def)
qed

lemma sample_request_ok:
  "container_id_ok (er_container sample_request)" "chunk_size_ok (er_chunk_size sample_request)"
  "\<forall>s \<in> set (er_entries sample_request). source_ok (\<lambda>_. True) s" "length (er_entries sample_request) \<le> 2 ^ 32"
  "length (ec_bytes sample_container) < 2 ^ 63" "\<forall>x. length (sample_hash x) = 32"
  by (simp_all add: sample_request_def sample_id_def container_id_ok_def container_id_byte_len_def chunk_size_ok_def
      source_ok_def sample_source_def path_ok_def path_shape_def i64_def sample_container_def sample_layout_def header_len_def
      sample_hash_def)

definition sample_outline :: container_outline where
  "sample_outline = \<lparr>o_header = \<lparr>h_container = sample_id, h_chunk_size = ChunkSize 2, h_meta_len = 17\<rparr>, o_kind = OneFile,
     o_pad_len = 0, o_entries = [sample_entry],
     o_layout = \<lparr>cl_chunk_size = 2, cl_chunk_count = 2, cl_body_start = 49, cl_padded_len = 3, cl_object_len = 84\<rparr>\<rparr>"

lemma sample_outline_ok: "outline_ok sample_outline"
  by (simp add: outline_ok_def sample_outline_def layout_ok_def div_ceil_def tag_length_def)

section \<open>A keyring of one Container\<close>

definition sample_table :: key_table where
  "sample_table = KeyTable [\<lparr>el_container = sample_id, el_key = KeyLost\<rparr>]"

definition sample_keyring_map :: cbor where
  "sample_keyring_map =
     (case to_wire (mb_build (mb_value ''mapping'' (mapping_value sample_table) (mb_uint ''schema'' keyring_schema []))) KEYRING
      of Inr w \<Rightarrow> w | Inl _ \<Rightarrow> Null)"

definition sample_epoch_map :: cbor where
  "sample_epoch_map = Map ((Integer 0, Integer 1) # map_pairs sample_keyring_map)"

definition keyring_cbor :: cbor_lib where
  "keyring_cbor = table_cbor [(sample_keyring_map, 1), (sample_epoch_map, 2)]"

lemma keyring_cbor_laws: "cbor_laws keyring_cbor"
  unfolding keyring_cbor_def by (rule table_cbor_laws) simp

lemma sample_keyring_entries:
  "sample_keyring_map = Map (map_pairs sample_keyring_map) \<and> plain sample_keyring_map \<and>
   \<not> list_ex is_epoch_key (map_pairs sample_keyring_map) \<and>
   to_wire (mb_build (mb_value ''mapping'' (mapping_value sample_table) (mb_uint ''schema'' keyring_schema []))) KEYRING
     = Inr sample_keyring_map"
  by code_simp

definition sample_payload :: control_payload where
  "sample_payload = \<lparr>pl_epoch = MasterKeyEpoch 1, pl_body = [1]\<rparr>"

lemma sample_keyring_encoded: "keyring_encode keyring_cbor sample_table (MasterKeyEpoch 1) = Inr sample_payload"
  using sample_keyring_entries by (simp add: keyring_encode_def write_body_def keyring_cbor_def table_cbor_def sample_payload_def)

lemma sample_table_ok: "key_table_ok sample_table"
  by (simp add: key_table_ok_def sample_table_def element_ok_def container_id_ok_def sample_id_def container_id_byte_len_def)

lemma sample_payload_body: "body_of keyring_cbor (pl_body sample_payload) (map_pairs sample_keyring_map)"
  using sample_keyring_entries by (simp add: body_of_def sample_payload_def keyring_cbor_def table_cbor_def)

definition sample_name :: control_object_name where
  "sample_name = KeyringReplicaName (Generation 1) ''ab'' \<lparr>rp_index = 0, rp_count = 3\<rparr>"

definition sample_object :: "byte list" where
  "sample_object = control_header_to_bytes
     \<lparr>ch_kind = Keyring, ch_generation = Generation 1, ch_replica = \<lparr>rp_index = 0, rp_count = 3\<rparr>, ch_nonce = replicate 24 0\<rparr>
     @ 2 # replicate 16 0"

lemma sample_name_ok: "name_ok sample_name"
  by (simp add: sample_name_def generation_ok_def max_format_integer_def is_nonempty_lowercase_hex_def is_hex_char_def
      replica_ok_def)

lemma sample_object_encoded:
  "encode_control_object keyring_cbor plain_aead (Inr (replicate 24 0)) sample_name Keyring
     \<lparr>pk_purpose = ControlKeyring, pk_bytes = []\<rparr> sample_payload = Inr (sample_object, show_name sample_name)"
proof -
  have "as_map sample_keyring_map = Inr (map_pairs sample_keyring_map)"
    using sample_keyring_entries as_map.simps(1) by metis
  then have read: "read_map keyring_cbor [1] = Inr (map_pairs sample_keyring_map)"
    by (simp add: read_map_def keyring_cbor_def table_cbor_def)
  have "length (map_pairs sample_epoch_map) \<noteq> length (map_pairs sample_keyring_map)"
    by (simp add: sample_epoch_map_def)
  then have ne: "sample_epoch_map \<noteq> sample_keyring_map" by metis
  have pad: "pad_to_bucket [2] = Inr [2]"
    using sample_padded(2)
    by (simp add: pad_to_bucket_def to_usize_def usize_bits_def resize_def)
  have "payload_encode keyring_cbor sample_payload = Inr [2]"
    using sample_keyring_entries ne
    by (simp add: payload_encode_def sample_payload_def read payload_to_bytes_def master_key_epoch_field_def
        sample_epoch_map_def [symmetric])
      (simp add: keyring_cbor_def table_cbor_def pad)
  moreover have "(control_header_len + 1 + tag_length > max_control_object_len Keyring) = False"
    by (simp add: control_header_len_def tag_length_def max_keyring_len_def)
  ultimately show ?thesis
    by (simp add: encode_control_object_def sample_name_def require_purpose_def check_control_object_len_def seal_def
        plain_aead_def sample_object_def)
qed

lemma sample_object_decoded:
  "decode_control_object keyring_cbor plain_aead sample_object (show_name sample_name)
     \<lparr>pk_purpose = ControlKeyring, pk_bytes = []\<rparr> =
   Inr \<lparr>dc_kind = Keyring, dc_generation = name_generation sample_name, dc_replica = name_replica sample_name,
        dc_payload = sample_payload\<rparr>"
  by (rule decode_encode_control_object [OF plain_aead_laws keyring_cbor_laws _ sample_name_ok sample_payload_body _
        sample_object_encoded])
    (simp_all add: nonce_len_def epoch_ok_def sample_payload_def max_format_integer_def)

section \<open>An addition\<close>

definition sample_summary :: container_summary where
  "sample_summary = \<lparr>cid = sample_id, kind = OneFile, ciphertext_hash = ContentHash (replicate 32 0),
     ciphertext_len = CiphertextLenClaim 84, object_ref = None\<rparr>"

lemma sample_addition:
  "addition_new sample_summary [sample_entry] [DepositedAt 0] =
     Inr \<lparr>add_container = sample_summary, add_entries = [sample_entry], add_deposits = [DepositedAt 0]\<rparr>"
  by (simp add: addition_new_Ok_iff sample_entry_def to_metadata_def)

lemma sample_entry_extent [simp]: "extent sample_entry = \<lparr>offset = 0, extent_size = 3\<rparr>"
  by (simp add: sample_entry_def to_metadata_def)

section \<open>A Journal record and an Index Snapshot\<close>

definition read_catalog :: "cbor \<Rightarrow> cbor_failure + wire_catalog_entry" where
  "read_catalog v = (let kvs = map_pairs v in Inr
     \<lparr>wc_path = text_in (value_at kvs ''path''), wc_captured_path = map_option text_in (map_of kvs (Txt ''captured_path'')),
      wc_offset = nat (int_in (value_at kvs ''offset'')), wc_size = nat (int_in (value_at kvs ''size'')),
      wc_mtime = int_in (value_at kvs ''mtime''), wc_btime = map_option int_in (map_of kvs (Txt ''btime'')),
      wc_hash = bytes_in (value_at kvs ''hash''),
      wc_derived_from = map_option (\<lambda>d. \<lparr>wd_container = bytes_in (value_at (map_pairs d) ''container_id''),
         wd_captured_path = text_in (value_at (map_pairs d) ''captured_path'')\<rparr>) (map_of kvs (Txt ''derived_from'')),
      wc_mime = map_option text_in (map_of kvs (Txt ''mime'')), wc_deposited_at = int_in (value_at kvs ''deposited_at'')\<rparr>)"

lemma read_catalog_laws: "catalog_serde_laws read_catalog"
  unfolding catalog_serde_laws_def
proof (intro allI impI)
  fix e :: wire_catalog_entry and others :: "(cbor \<times> cbor) list"
  assume "\<forall>(k, v) \<in> set others. \<exists>name. k = Txt name \<and> name \<notin> set catalog_field_names"
  then have none: "map_of others (Txt n) = None" if "n \<in> set catalog_field_names" for n
    using that by (fastforce simp: map_of_eq_None_iff)
  have none: "map_of others (Txt ''captured_path'') = None" "map_of others (Txt ''btime'') = None"
    "map_of others (Txt ''derived_from'') = None" "map_of others (Txt ''mime'') = None"
    by (rule none, simp add: catalog_field_names_def)+
  obtain p c n s mt bt h d mi dep where e: "e = \<lparr>wc_path = p, wc_captured_path = c, wc_offset = n, wc_size = s, wc_mtime = mt,
      wc_btime = bt, wc_hash = h, wc_derived_from = d, wc_mime = mi, wc_deposited_at = dep\<rparr>"
    by (cases e)
  show "read_catalog (Map (catalog_fields e @ others)) = Inr e"
    by (cases c; cases bt; cases d; cases mi)
      (simp_all add: e read_catalog_def catalog_fields_def opt_field_def ser_derived_from_def value_at_def none)
qed

definition sample_commitment :: keyring_commitment where
  "sample_commitment = \<lparr>kc_generation = Generation 0, kc_replica_count = 3, kc_set_digest = ''ab''\<rparr>"

definition sample_record :: journal_record where
  "sample_record = \<lparr>jr_generation = Generation 0, jr_prev = None, jr_epoch = MasterKeyEpoch 1, jr_keyring = sample_commitment,
     jr_next_slot = Some ''s'', jr_snapshot_slot = None,
     jr_additions = [\<lparr>add_container = sample_summary, add_entries = [sample_entry], add_deposits = [DepositedAt 5]\<rparr>],
     jr_removals = [], jr_renames = [], jr_library_name = None\<rparr>"

definition sample_snapshot :: snapshot_payload where
  "sample_snapshot = snapshot_activating
     \<lparr>sn_checkpoint = at_head (MasterKeyEpoch 1) (Generation 1) None sample_commitment, sn_adopted = None,
      sn_containers = [sample_summary],
      sn_entries = [\<lparr>loc_container = sample_id, loc_number = EntryNumber 0, loc_entry = sample_entry, loc_deposited = DepositedAt 5\<rparr>],
      sn_library_name = None\<rparr>
     \<lparr>sa_base_head = Generation 0, sa_slot = None\<rparr>"

lemma sample_commitment_ok: "commitment_ok sample_commitment"
  by (simp add: commitment_ok_def sample_commitment_def generation_ok_def keyring_commitment_new_def
      is_nonempty_lowercase_hex_def is_hex_char_def)

lemma sample_catalog_entry_ok: "catalog_entry_ok (\<lambda>_. True) sample_entry"
proof -
  have "sample_entry\<lparr>path := captured_path sample_entry\<rparr> = sample_entry"
    by (simp add: sample_entry_def to_metadata_def plan_of_source_def)
  then show ?thesis using sample_entry_ok by (simp add: catalog_entry_ok_def entry_ok_def)
qed

lemma sample_summary_ok: "summary_ok sample_summary"
  by (simp add: summary_ok_def sample_summary_def sample_id_def container_id_ok_def container_id_byte_len_def max_format_integer_def)

definition sample_deposit :: container_addition where
  "sample_deposit = \<lparr>add_container = sample_summary, add_entries = [sample_entry], add_deposits = [DepositedAt 5]\<rparr>"

lemma sample_deposit_ok: "carried_ok (\<lambda>_. True) sample_deposit"
  by (simp add: carried_ok_def sample_deposit_def sample_summary_ok sample_catalog_entry_ok addition_ok_iff i64_def)

lemma sample_record_ok: "journal_ok (\<lambda>_. True) sample_record"
  using sample_deposit_ok sample_commitment_ok
  by (simp add: journal_ok_def sample_record_def sample_deposit_def predecessor_of_eq generation_ok_def collections_ok_def)

definition record_cbor :: cbor_lib where
  "record_cbor = table_cbor [(case to_wire (mb_build (journal_map sample_record)) JOURNAL_RECORD of Inr w \<Rightarrow> w | Inl _ \<Rightarrow> Null, 3)]"

lemma record_cbor_laws: "cbor_laws record_cbor"
  unfolding record_cbor_def by (rule table_cbor_laws) simp

lemma sample_record_encoded: "journal_encode record_cbor sample_record = Inr \<lparr>pl_epoch = MasterKeyEpoch 1, pl_body = [3]\<rparr>"
proof -
  obtain w where w: "to_wire (mb_build (journal_map sample_record)) JOURNAL_RECORD = Inr w"
    using registered_to_wire [OF journal_registered] by blast
  then show ?thesis
    by (simp add: journal_encode_def write_body_def record_cbor_def table_cbor_def) (simp add: sample_record_def)
qed

lemma sample_snapshot_ok: "snapshot_payload_ok (\<lambda>_. True) sample_snapshot"
  using sample_commitment_ok sample_summary_ok sample_catalog_entry_ok
  by (simp add: snapshot_payload_ok_def sample_snapshot_def snapshot_activating_def snapshot_ok_def snapshot_parts_ok_def
      at_head_def checkpoint_ok_def generation_ok_def max_format_integer_def location_ok_def entry_number_ok_def i64_def
      sample_summary_def less_generation_def)

definition snapshot_cbor :: cbor_lib where
  "snapshot_cbor = table_cbor [(case and_then (collect_res (snapshot_entry_value (container_positions
       (sn_containers (sp_content sample_snapshot)))) (enumerate 0 (sn_entries (sp_content sample_snapshot))))
     (\<lambda>entries. to_wire (mb_build (snapshot_map sample_snapshot entries)) INDEX_SNAPSHOT) of Inr w \<Rightarrow> w | Inl _ \<Rightarrow> Null, 4)]"

lemma snapshot_cbor_laws: "cbor_laws snapshot_cbor"
  unfolding snapshot_cbor_def by (rule table_cbor_laws) simp

lemma sample_snapshot_encoded: "snapshot_encode snapshot_cbor sample_snapshot = Inr \<lparr>pl_epoch = MasterKeyEpoch 1, pl_body = [4]\<rparr>"
proof -
  have "snapshot_ok (sp_content sample_snapshot)" using sample_snapshot_ok by (simp add: snapshot_payload_ok_def Let_def)
  from snapshot_registered [OF this] obtain entries where
    entries: "collect_res (snapshot_entry_value (container_positions (sn_containers (sp_content sample_snapshot))))
      (enumerate 0 (sn_entries (sp_content sample_snapshot))) = Inr entries"
    and "registered INDEX_SNAPSHOT (snapshot_map sample_snapshot entries)" .
  from registered_to_wire [OF this(2)] obtain w where
    w: "to_wire (mb_build (snapshot_map sample_snapshot entries)) INDEX_SNAPSHOT = Inr w" by blast
  have epoch: "cp_epoch (sn_checkpoint (sp_content sample_snapshot)) = MasterKeyEpoch 1"
    by (simp add: sample_snapshot_def snapshot_activating_def at_head_def)
  show ?thesis
    unfolding snapshot_encode_def Let_def entries and_then.simps write_body_def w epoch
    by (simp add: snapshot_cbor_def table_cbor_def entries w)
qed

end
