(* ===== verification/Index_Samples.thy ===== *)
theory Index_Samples
  imports Index_Steps Samples
begin

text \<open>Concrete Indexes for the witnesses: one that has taken a record, has a row for its Entry, and takes a rename.\<close>

definition sample_path :: entry_path where
  "sample_path = EntryPath ''a''"

definition sample_location :: entry_location where
  "sample_location = \<lparr>loc_container = sample_id, loc_number = EntryNumber 0, loc_entry = sample_entry, loc_deposited = DepositedAt 5\<rparr>"

definition sample_index :: index_state where
  "sample_index = index_default\<lparr>ix_containers := [(sample_id, sample_summary)], ix_entries := [(sample_path, sample_location)],
     ix_checkpoint := Some (record_checkpoint sample_record)\<rparr>"

definition sample_observation :: local_observation where
  "sample_observation = \<lparr>ob_path = sample_path, ob_size = 3, ob_mtime = Mtime 0, ob_at = DeviceTime 7,
     ob_entry = (sample_id, EntryNumber 0), ob_hash = None\<rparr>"

definition sample_row :: local_entry where
  "sample_row = \<lparr>le_observation = sample_observation, le_state = Present, le_relocate_to = None\<rparr>"

definition sample_device :: index_state where
  "sample_device = mark_present sample_observation sample_index"

definition sample_move :: journal_record where
  "sample_move = \<lparr>jr_generation = Generation 1, jr_prev = Some (Generation 0), jr_epoch = MasterKeyEpoch 1,
     jr_keyring = sample_commitment, jr_next_slot = None, jr_snapshot_slot = None, jr_additions = [], jr_removals = [],
     jr_renames = [\<lparr>ren_container = sample_id, ren_number = EntryNumber 0, ren_path = EntryPath ''moved''\<rparr>],
     jr_library_name = None\<rparr>"

lemma sample_entry_fields: "path sample_entry = sample_path" "derivation sample_entry = None"
  by (simp_all add: sample_entry_def to_metadata_def plan_of_source_def sample_source_def sample_path_def)

lemma sample_location_fields: "loc_path sample_location = sample_path" "loc_key sample_location = (sample_id, EntryNumber 0)"
  "loc_container sample_location = sample_id" "loc_entry sample_location = sample_entry" "cid sample_summary = sample_id"
  by (simp_all add: sample_location_def loc_path_def loc_key_def sample_entry_fields sample_summary_def)

lemma sample_located: "into_locations sample_deposit = Some (sample_summary, [sample_location])"
  by (simp add: into_locations_eq sample_deposit_def sample_location_def sample_summary_def)

lemma sample_applied: "index_apply sample_record index_default = Some (sample_index, Ok ())"
  using sample_located [unfolded sample_deposit_def]
  by (simp add: bt_get_def index_apply_def state_apply_def already_applied_def index_default_def sample_record_def
      standing_of_def standing_def state_check_renames_def apply_renames_def insert_container_def insert_entry_def bt_contains_def
      sample_location_fields carry_over_def reconcile_all_def reconcile_def index_write_def sample_index_def
      Let_def bt_keys_def bt_values_def List.map_filter_simps)

lemma sample_record_well: "record_ok sample_record" "record_ok sample_move"
  using sample_record_ok by (simp_all add: record_ok_def journal_ok_def carried_ok_def sample_move_def collections_ok_def)

lemma sample_index_reachable: "index_reachable sample_index"
  using index_step.applying [OF sample_record_well(1) sample_applied] by simp

lemma sample_device_reachable: "index_reachable sample_device"
  using sample_index_reachable index_step.marking_present [of sample_index sample_observation]
  unfolding sample_device_def by (rule rtranclp.rtrancl_into_rtrancl)

lemma sample_device_eq: "sample_device = sample_index\<lparr>ix_local := [(sample_path, sample_row)]\<rparr>"
  by (simp add: sample_device_def mark_present_def sample_observation_def sample_index_def index_default_def reconcile_def
      reconcile_step_def bt_get_def standing_def bt_collect_def bt_values_def sample_location_fields sample_row_def bt_update_def)

lemma sample_device_row: "bt_get (ix_local sample_device) sample_path = Some sample_row"
  by (simp add: sample_device_eq bt_get_def)

lemma sample_device_entry: "entry_at sample_device sample_path = Some sample_location"
  by (simp add: sample_device_eq sample_index_def entry_at_def bt_get_def)

lemma sample_move_fits: "index_fits sample_move sample_device"
proof -
  have st: "stored (ix_entries sample_device) = {sample_location}"
    by (simp add: sample_device_eq sample_index_def stored_def bt_values_def)
  have "\<not> path_is_derived sample_path" by code_simp
  then have "may_move {sample_location} \<lparr>ren_container = sample_id, ren_number = EntryNumber 0, ren_path = EntryPath ''moved''\<rparr>"
    using sample_entry_fields by (simp add: may_move_def sample_location_fields order_key_def sample_path_def)
  moreover have "stored [(sample_path, sample_location)] = {sample_location}" by (simp add: stored_def bt_values_def)
  ultimately show ?thesis
    by (simp add: index_fits_def fits_def st entries_kept_def entries_after_def sample_move_def already_applied_def
        sample_device_eq sample_index_def record_checkpoint_def at_head_def sample_record_def less_eq_generation_def)
qed

end
