(* ===== verification/Library_Samples.thy ===== *)
theory Library_Samples
  imports Commit_Atomic Index_Samples
begin

text \<open>A concrete Library for the witnesses: its first head in an in-memory store, and a device that has read nothing of it.\<close>

section \<open>Its record, sealed\<close>

definition first_record :: journal_record where
  "first_record = \<lparr>jr_generation = Generation 0, jr_prev = None, jr_epoch = MasterKeyEpoch 1, jr_keyring = sample_commitment,
     jr_next_slot = None, jr_snapshot_slot = None, jr_additions = [], jr_removals = [], jr_renames = [], jr_library_name = None\<rparr>"

definition first_map :: cbor where
  "first_map = (case to_wire (mb_build (journal_map first_record)) JOURNAL_RECORD of Inr w \<Rightarrow> w | Inl _ \<Rightarrow> Null)"

definition first_epoch_map :: cbor where
  "first_epoch_map = Map ((Integer 0, Integer 1) # map_pairs first_map)"

definition first_cbor :: cbor_lib where
  "first_cbor = table_cbor [(first_map, 1), (first_epoch_map, 2)]"

definition first_libraries :: libraries where
  "first_libraries = \<lparr>lb_cbor = first_cbor, lb_serde = read_catalog, lb_nfc = (\<lambda>_. True), lb_aead = plain_aead,
     lb_blake3 = (\<lambda>_. [])\<rparr>"

definition sample_keys :: control_keys where
  "sample_keys = control_keys_derive (\<lambda>_ _. []) [] (MasterKeyEpoch 1)"

definition first_object :: "byte list" where
  "first_object = control_header_to_bytes
     \<lparr>ch_kind = Journal, ch_generation = Generation 0, ch_replica = name_replica (HeadName (Generation 0)), ch_nonce = replicate 24 0\<rparr> @ 2 # replicate 16 0"

lemma first_libraries_ok: "libraries_ok first_libraries"
proof -
  have "cbor_laws first_cbor" unfolding first_cbor_def by (rule table_cbor_laws) simp
  then show ?thesis using plain_aead_laws read_catalog_laws by (simp add: libraries_ok_def first_libraries_def)
qed

lemma first_map_entries:
  "first_map = Map (map_pairs first_map) \<and> to_wire (mb_build (journal_map first_record)) JOURNAL_RECORD = Inr first_map \<and>
   plain first_map \<and> \<not> list_ex is_epoch_key (map_pairs first_map)"
  by code_simp

lemma first_record_ok: "journal_ok is_nfc first_record"
  using sample_commitment_ok
  by (simp add: journal_ok_def first_record_def predecessor_of_eq generation_ok_def collections_ok_def)

lemma first_encoded: "journal_encode first_cbor first_record = Inr \<lparr>pl_epoch = MasterKeyEpoch 1, pl_body = [1]\<rparr>"
proof -
  have "to_wire (mb_build (journal_map first_record)) JOURNAL_RECORD = Inr first_map" using first_map_entries by blast
  then show ?thesis
    by (simp add: journal_encode_def write_body_def first_cbor_def table_cbor_def) (simp add: first_record_def)
qed

lemma first_sealed:
  "encode_control_object first_cbor plain_aead (Inr (replicate 24 0)) (HeadName (Generation 0)) Journal
     (of_kind sample_keys Journal) \<lparr>pl_epoch = MasterKeyEpoch 1, pl_body = [1]\<rparr> =
   Inr (first_object, show_name (HeadName (Generation 0)))"
proof -
  have "as_map first_map = Inr (map_pairs first_map)" using first_map_entries as_map.simps(1) by metis
  then have read: "read_map first_cbor [1] = Inr (map_pairs first_map)"
    by (simp add: read_map_def first_cbor_def table_cbor_def)
  have "length (map_pairs first_epoch_map) \<noteq> length (map_pairs first_map)" by (simp add: first_epoch_map_def)
  then have ne: "first_epoch_map \<noteq> first_map" by metis
  have pad: "pad_to_bucket [2] = Inr [2]"
    using sample_padded(2) by (simp add: pad_to_bucket_def to_usize_def usize_bits_def resize_def)
  have "payload_encode first_cbor \<lparr>pl_epoch = MasterKeyEpoch 1, pl_body = [1]\<rparr> = Inr [2]"
    using first_map_entries ne
    by (simp add: payload_encode_def read payload_to_bytes_def master_key_epoch_field_def first_epoch_map_def [symmetric])
      (simp add: first_cbor_def table_cbor_def pad)
  moreover have "(control_header_len + 1 + tag_length > max_control_object_len Journal) = False"
    by (simp add: control_header_len_def tag_length_def max_journal_record_len_def)
  ultimately show ?thesis
    by (simp add: encode_control_object_def require_purpose_def check_control_object_len_def seal_def
        plain_aead_def first_object_def sample_keys_def control_keys_derive_def derive_def)
qed

lemma first_held: "po_lib P = first_libraries \<Longrightarrow> holds_record P sample_keys (Generation 0) first_record first_object"
proof -
  assume P: "po_lib P = first_libraries"
  have nonce: "length n = nonce_len" if "Inr (replicate 24 0) = (Inr n :: format_error + byte list)" for n
    using that by (auto simp: nonce_len_def)
  have g: "jr_generation first_record = Generation 0" and e: "epoch_ok (jr_epoch first_record)"
    by (simp_all add: first_record_def epoch_ok_def max_format_integer_def)
  have enc: "journal_encode (lb_cbor (po_lib P)) first_record = Inr \<lparr>pl_epoch = MasterKeyEpoch 1, pl_body = [1]\<rparr>"
    by (simp only: P first_libraries_def libraries.simps first_encoded)
  have sealed: "encode_control_object (lb_cbor (po_lib P)) (lb_aead (po_lib P)) (Inr (replicate 24 0))
      (HeadName (jr_generation first_record)) Journal (of_kind sample_keys Journal) \<lparr>pl_epoch = MasterKeyEpoch 1, pl_body = [1]\<rparr> =
      Inr (first_object, show_name (HeadName (Generation 0)))"
    unfolding g by (simp only: P first_libraries_def libraries.simps first_sealed)
  show ?thesis using sealed_record [OF first_libraries_ok [folded P] nonce first_record_ok e enc sealed] unfolding g .
qed

section \<open>Its Storage\<close>

definition first_world :: mem_world where
  "first_world = \<lparr>mw_store = \<lparr>ms_live = [(show_name (HeadName (Generation 0)), first_object)], ms_trashed = [], ms_puts = [],
      ms_page_size = 100\<rparr>, mw_index = index_default, mw_entropy = replicate 96 0\<rparr>"

lemma first_world_ok: "mem_world_ok first_world"
proof -
  have "length first_object = control_header_len + 17"
    unfolding first_object_def by (simp add: nonce_len_def)
  then show ?thesis
    by (simp add: mem_world_ok_def mem_ok_def first_world_def bt_inv_def control_header_len_def)
qed

lemma first_history_ok: "history_ok [first_record]"
proof -
  have "record_ok first_record" using first_record_ok [of "\<lambda>_. True"] by (simp add: record_ok_def journal_ok_def first_record_def)
  moreover have "fits first_record {} {}"
    by (simp add: fits_def first_record_def entries_kept_def entries_after_def)
  ultimately show ?thesis
    by (simp add: history_ok_def record_fits_def library_empty_def max_format_integer_def)
      (simp add: first_record_def)
qed

lemma first_storage: "storage_holds (mem_ports md5 first_libraries) sample_keys (mem_objects md5 first_world) [first_record] 0"
proof -
  let ?n = "HeadName (Generation 0)"
  have objs: "mem_objects md5 first_world = [(info_of md5 (show_name ?n, first_object), first_object)]"
    by (simp add: mem_objects_def first_world_def)
  have held: "holds_record (mem_ports md5 first_libraries) sample_keys (Generation 0) first_record first_object"
    by (rule first_held) (simp add: mem_ports_def)
  have "name_ok ?n" by (simp add: generation_ok_def)
  then have only: "n = ?n" if "name_ok n" "show_name ?n = show_name n" for n using name_ok_show that by metis
  have heads: "gen g = 0 \<and> holds_record (mem_ports md5 first_libraries) sample_keys g first_record first_object"
    if "name_ok (HeadName g)" "show_name ?n = show_name (HeadName g)" for g
    using only [OF that] held by simp
  have snaps: False if "name_ok (IndexSnapshotName g)" "show_name ?n = show_name (IndexSnapshotName g)" for g
    using only [OF that] by simp
  show ?thesis
    unfolding storage_holds_def objs
  proof (intro conjI ballI allI impI)
    show "\<not> single_twice (map (\<lambda>(i, _). oi_name i) [(info_of md5 (show_name ?n, first_object), first_object)])"
      by (simp add: single_twice_def)
    show "case x of (i, bytes) \<Rightarrow> \<forall>g. name_ok (HeadName g) \<longrightarrow> oi_name i = show_name (HeadName g) \<longrightarrow>
        gen g < length [first_record] \<and> holds_record (mem_ports md5 first_libraries) sample_keys g ([first_record] ! gen g) bytes"
      if "x \<in> set [(info_of md5 (show_name ?n, first_object), first_object)]" for x
      using that heads by (auto simp del: show_name.simps name_ok.simps)
    show "case x of (i, bytes) \<Rightarrow> \<forall>g. name_ok (IndexSnapshotName g) \<longrightarrow> oi_name i = show_name (IndexSnapshotName g) \<longrightarrow>
        gen g < length [first_record] \<and>
        true_snapshot (mem_ports md5 first_libraries) sample_keys g (library_after [first_record] (Suc (gen g))) bytes"
      if "x \<in> set [(info_of md5 (show_name ?n, first_object), first_object)]" for x
      using that snaps by (auto simp del: show_name.simps name_ok.simps)
  qed simp
qed

lemma first_pages: "pages_for (ms_page_size (mw_store first_world)) (length (past_token None (mw_store first_world))) \<le> max_pages"
  by (simp add: first_world_def past_token_def pages_for_def max_pages_def)

section \<open>A batch to commit\<close>

definition sample_batch :: prepared_batch where
  "sample_batch = batch_adding [prepared_addition_new sample_deposit (KeyEnvelope (replicate 72 0))]"

lemma sample_committable: "committable first_libraries sample_keys policy_default [first_record] sample_batch"
proof -
  have "pb_additions sample_batch = [prepared_addition_new sample_deposit (KeyEnvelope (replicate 72 0))]" "pb_renames sample_batch = []"
      "pb_removals sample_batch = []" "pb_library_name sample_batch = None"
      "pa_addition (prepared_addition_new sample_deposit (KeyEnvelope (replicate 72 0))) = sample_deposit"
    by (simp_all add: sample_batch_def batch_adding_def batch_default_def prepared_addition_new_def)
  moreover have "lb_containers (library_after [first_record] 1) = {}"
    using library_after_Suc [of 0 "[first_record]"]
    by (simp add: advance_def library_empty_def containers_after_def containers_kept_def first_record_def)
  ultimately show ?thesis
    using first_libraries_ok first_history_ok first_record_ok sample_deposit_ok
    by (simp add: committable_def batch_writable_def first_libraries_def sample_keys_def control_keys_derive_def epoch_ok_def
        policy_default_def max_format_integer_def)
qed

text \<open>The record it would be committed as.\<close>

definition sample_second :: journal_record where
  "sample_second = \<lparr>jr_generation = Generation 1, jr_prev = Some (Generation 0), jr_epoch = MasterKeyEpoch 1,
     jr_keyring = sample_commitment, jr_next_slot = None, jr_snapshot_slot = None, jr_additions = [sample_deposit],
     jr_removals = [], jr_renames = [], jr_library_name = None\<rparr>"

lemma sample_batch_fields:
  "pb_additions sample_batch = [prepared_addition_new sample_deposit (KeyEnvelope (replicate 72 0))]" "pb_removals sample_batch = []"
  "pa_addition (prepared_addition_new sample_deposit (KeyEnvelope (replicate 72 0))) = sample_deposit"
  by (simp_all add: sample_batch_def batch_adding_def batch_default_def prepared_addition_new_def)

lemma sample_batch_record:
  "batch_record (Generation 1) (Some (Generation 0)) (MasterKeyEpoch 1) sample_commitment None None sample_batch = Inr sample_second"
  unfolding batch_record_Ok_iff
  by (simp add: sample_batch_def batch_adding_def batch_default_def prepared_addition_new_def sample_second_def
      predecessor_of_eq generation_ok_def max_format_integer_def)

definition md5_of :: "byte list \<Rightarrow> byte list" where
  "md5_of bytes = replicate 16 0"

section \<open>A listing with a head twice\<close>

definition twin_objects :: "(object_info \<times> byte list) list" where
  "twin_objects =
     [(\<lparr>oi_ref = ObjectRef ''x'', oi_name = show_name (HeadName (Generation 0)), oi_hash = None\<rparr>, [7]),
      (\<lparr>oi_ref = ObjectRef ''y'', oi_name = show_name (HeadName (Generation 0)), oi_hash = None\<rparr>, [8])]"

text \<open>A provider whose names are not unique: two objects under the name of one head.\<close>

definition twin_ports :: "mem_world ports" where
  "twin_ports = (mem_ports md5_of first_libraries)
     \<lparr>po_store := (mem_object_store md5_of)
        \<lparr>store_get := \<lambda>object asked. case find (\<lambda>(i, _). oi_ref i = object) twin_objects of
             Some (_, bytes) \<Rightarrow> gives (stream_from (case asked of None \<Rightarrow> bytes | Some (a, n) \<Rightarrow> take n (drop a bytes)))
           | None \<Rightarrow> fails Unsupported,
         store_list := \<lambda>_. gives (page_last (map fst twin_objects))\<rparr>\<rparr>"

lemma twin_steady: "steady_storage twin_ports (\<lambda>_. True) (\<lambda>_. twin_objects) (\<lambda>_ _. map fst twin_objects) (\<lambda>_ _. 1)"
  by unfold_locales (auto simp: twin_objects_def twin_ports_def yields_runs page_last_def)

end
