(* ===== verification/Commit_Samples.thy ===== *)
theory Commit_Samples
  imports Library_Samples "HOL-Library.Code_Target_Nat"
begin

text \<open>
  A Library a commit lands in: the in-memory store holds its first head and that head's Keyring replica, both sealed by the
  code's own routines, and a device that has read nothing of it commits a batch of one Container. Every step of the commit
  is evaluated in the kernel.
\<close>

section \<open>What is written and read\<close>

definition trial_commitment :: "nat \<Rightarrow> keyring_commitment" where
  "trial_commitment n = \<lparr>kc_generation = Generation n, kc_replica_count = 1, kc_set_digest = concat (replicate 32 ''ab'')\<rparr>"

definition trial_first :: journal_record where
  "trial_first = \<lparr>jr_generation = Generation 0, jr_prev = None, jr_epoch = MasterKeyEpoch 1, jr_keyring = trial_commitment 0,
     jr_next_slot = None, jr_snapshot_slot = None, jr_additions = [], jr_removals = [], jr_renames = [], jr_library_name = None\<rparr>"

definition trial_second :: journal_record where
  "trial_second = \<lparr>jr_generation = Generation 1, jr_prev = Some (Generation 0), jr_epoch = MasterKeyEpoch 1,
     jr_keyring = trial_commitment 1, jr_next_slot = None, jr_snapshot_slot = None, jr_additions = [sample_deposit],
     jr_removals = [], jr_renames = [], jr_library_name = None\<rparr>"

definition trial_keys_first :: key_table where
  "trial_keys_first = KeyTable []"

definition trial_keys_second :: key_table where
  "trial_keys_second =
     KeyTable [\<lparr>el_container = cid (add_container sample_deposit), el_key = Envelope (KeyEnvelope (replicate 72 0))\<rparr>]"

text \<open>The maps those are written as, with the epoch and without, each a byte of the trial's CBOR.\<close>

definition wire_or_null :: "'e + cbor \<Rightarrow> cbor" where
  "wire_or_null r = (case r of Inr w \<Rightarrow> w | Inl _ \<Rightarrow> Null)"

definition trial_journal_map :: "journal_record \<Rightarrow> cbor" where
  "trial_journal_map r = wire_or_null (to_wire (mb_build (journal_map r)) JOURNAL_RECORD)"

definition trial_keyring_map :: "key_table \<Rightarrow> cbor" where
  "trial_keyring_map t =
     wire_or_null (to_wire (mb_build (mb_value ''mapping'' (mapping_value t) (mb_uint ''schema'' keyring_schema []))) KEYRING)"

definition trial_mapping :: "key_table \<Rightarrow> cbor" where
  "trial_mapping t = wire_or_null (to_wire (mapping_value t) KEYRING_ELEMENT)"

definition with_epoch :: "cbor \<Rightarrow> cbor" where
  "with_epoch m = Map ((Integer 0, Integer 1) # map_pairs m)"

definition trial_table :: "(cbor \<times> byte) list" where
  "trial_table =
     [(trial_journal_map trial_first, 1), (with_epoch (trial_journal_map trial_first), 2),
      (trial_journal_map trial_second, 3), (with_epoch (trial_journal_map trial_second), 4),
      (trial_keyring_map trial_keys_first, 5), (with_epoch (trial_keyring_map trial_keys_first), 6),
      (trial_keyring_map trial_keys_second, 7), (with_epoch (trial_keyring_map trial_keys_second), 8),
      (trial_mapping trial_keys_first, 9), (trial_mapping trial_keys_second, 10)]"

definition trial_libraries :: libraries where
  "trial_libraries = \<lparr>lb_cbor = table_cbor trial_table, lb_serde = read_catalog, lb_nfc = (\<lambda>_. True), lb_aead = plain_aead,
     lb_blake3 = (\<lambda>_. replicate 32 171)\<rparr>"

section \<open>Its Storage\<close>

definition trial_policy :: commit_policy where
  "trial_policy = policy_with_replica_count 1 policy_default"

definition trial_sealed :: "control_object_name \<Rightarrow> control_object_kind \<Rightarrow> control_payload \<Rightarrow> byte list" where
  "trial_sealed name k p =
     (case encode_control_object (lb_cbor trial_libraries) (lb_aead trial_libraries) (Inr (replicate 24 0)) name k
        (of_kind sample_keys k) p of Inr (bytes, _) \<Rightarrow> bytes | Inl _ \<Rightarrow> [])"

definition trial_replica_name :: control_object_name where
  "trial_replica_name = (case replica_name (trial_commitment 0) 0 of Inr n \<Rightarrow> n | Inl _ \<Rightarrow> HeadName (Generation 0))"

definition trial_record_object :: "byte list" where
  "trial_record_object = trial_sealed (HeadName (Generation 0)) Journal \<lparr>pl_epoch = MasterKeyEpoch 1, pl_body = [1]\<rparr>"

definition trial_keyring_object :: "byte list" where
  "trial_keyring_object = trial_sealed trial_replica_name Keyring \<lparr>pl_epoch = MasterKeyEpoch 1, pl_body = [5]\<rparr>"

definition trial_world :: mem_world where
  "trial_world =
     \<lparr>mw_store = \<lparr>ms_live = [(show_name (HeadName (Generation 0)), trial_record_object),
                             (show_name trial_replica_name, trial_keyring_object)],
                  ms_trashed = [], ms_puts = [], ms_page_size = 100\<rparr>,
      mw_index = index_default, mw_entropy = replicate 96 0\<rparr>"

lemma trial_libraries_ok: "libraries_ok trial_libraries"
proof -
  have "cbor_laws (table_cbor trial_table)" by (rule table_cbor_laws) (simp add: trial_table_def)
  then show ?thesis using plain_aead_laws read_catalog_laws by (simp add: libraries_ok_def trial_libraries_def)
qed

lemma trial_digest_hex: "is_nonempty_lowercase_hex (concat (replicate 32 ''ab''))"
  by code_simp

lemma trial_commitment_ok: "n \<le> max_format_integer \<Longrightarrow> commitment_ok (trial_commitment n)"
  using trial_digest_hex by (simp add: commitment_ok_def trial_commitment_def generation_ok_def keyring_commitment_new_def)

lemma trial_first_ok: "journal_ok is_nfc trial_first"
  using trial_commitment_ok [of 0]
  by (simp add: journal_ok_def trial_first_def predecessor_of_eq generation_ok_def collections_ok_def)

lemma trial_encoded: "journal_encode (lb_cbor trial_libraries) trial_first = Inr \<lparr>pl_epoch = MasterKeyEpoch 1, pl_body = [1]\<rparr>"
  by code_simp

lemma trial_sealed:
  "encode_control_object (lb_cbor trial_libraries) (lb_aead trial_libraries) (Inr (replicate 24 0)) (HeadName (jr_generation trial_first))
     Journal (of_kind sample_keys Journal) \<lparr>pl_epoch = MasterKeyEpoch 1, pl_body = [1]\<rparr> =
   Inr (trial_record_object, show_name (HeadName (Generation 0)))"
  by code_simp

lemma trial_held:
  assumes P: "po_lib P = trial_libraries"
  shows "holds_record P sample_keys (Generation 0) trial_first trial_record_object"
proof -
  have nonce: "length n = nonce_len" if "Inr (replicate 24 0) = (Inr n :: format_error + byte list)" for n
    using that by (auto simp: nonce_len_def)
  have g: "jr_generation trial_first = Generation 0" and e: "epoch_ok (jr_epoch trial_first)"
    by (simp_all add: trial_first_def epoch_ok_def max_format_integer_def)
  show ?thesis
    using sealed_record [OF trial_libraries_ok [folded P] nonce trial_first_ok e trial_encoded [folded P] trial_sealed [folded P]]
    unfolding g .
qed

lemma trial_replica:
  "case trial_replica_name of KeyringReplicaName g d r \<Rightarrow> name_ok (KeyringReplicaName g d r) | _ \<Rightarrow> False"
  by code_simp

lemma trial_objects:
  "mem_ok (mw_store trial_world) \<and> (\<forall>(name, bytes) \<in> set (ms_live (mw_store trial_world)). length bytes < 2 ^ 64 - 1)"
  by code_simp

lemma trial_world_ok: "mem_world_ok trial_world"
  using trial_objects by (simp add: mem_world_ok_def)

lemma trial_history_ok: "history_ok [trial_first]"
proof -
  have "record_ok trial_first" using trial_first_ok [of "\<lambda>_. True"] by (simp add: record_ok_def journal_ok_def trial_first_def)
  moreover have "fits trial_first {} {}"
    by (simp add: fits_def trial_first_def entries_kept_def entries_after_def)
  ultimately show ?thesis
    by (simp add: history_ok_def record_fits_def library_empty_def max_format_integer_def)
      (simp add: trial_first_def)
qed

lemma trial_storage: "storage_holds (mem_ports md5 trial_libraries) sample_keys (mem_objects md5 trial_world) [trial_first] 0"
proof -
  let ?n = "HeadName (Generation 0)" and ?k = trial_replica_name and ?P = "mem_ports md5 trial_libraries"
  have objs: "mem_objects md5 trial_world =
      [(info_of md5 (show_name ?n, trial_record_object), trial_record_object),
       (info_of md5 (show_name ?k, trial_keyring_object), trial_keyring_object)]"
    by (simp add: mem_objects_def trial_world_def)
  obtain g d r where k: "?k = KeyringReplicaName g d r" "name_ok ?k"
    using trial_replica by (simp split: control_object_name.splits)
  have n: "name_ok ?n" by (simp add: generation_ok_def)
  have held: "holds_record ?P sample_keys (Generation 0) trial_first trial_record_object"
    by (rule trial_held) (simp add: mem_ports_def)
  have only: "m = ?n \<and> bytes = trial_record_object"
    if x: "(i, bytes) \<in> set (mem_objects md5 trial_world)" and m: "name_ok m" "oi_name i = show_name m"
      and other: "\<And>g d r. m \<noteq> KeyringReplicaName g d r" for i bytes m
  proof -
    consider "oi_name i = show_name ?n" "bytes = trial_record_object" | "oi_name i = show_name ?k"
      using x unfolding objs info_of_def by auto
    then show ?thesis
    proof cases
      case 1
      then show ?thesis using name_ok_show [OF n m(1)] m(2) by simp
    next
      case 2
      then have "?k = m" using name_ok_show [OF k(2) m(1)] m(2) by simp
      then show ?thesis using k(1) other by blast
    qed
  qed
  have heads: "gen g < length [trial_first] \<and> holds_record ?P sample_keys g ([trial_first] ! gen g) bytes"
    if "(i, bytes) \<in> set (mem_objects md5 trial_world)" "name_ok (HeadName g)" "oi_name i = show_name (HeadName g)" for i bytes g
  proof -
    have "HeadName g = ?n \<and> bytes = trial_record_object" by (rule only [OF that]) simp
    then show ?thesis using held by simp
  qed
  have snaps: False
    if "(i, bytes) \<in> set (mem_objects md5 trial_world)" "name_ok (IndexSnapshotName g)" "oi_name i = show_name (IndexSnapshotName g)"
    for i bytes g
  proof -
    have "IndexSnapshotName g = ?n \<and> bytes = trial_record_object" by (rule only [OF that]) simp
    then show False by simp
  qed
  have apart: "show_name ?n \<noteq> show_name ?k"
    using name_ok_show [OF n k(2)] k(1) by (metis control_object_name.distinct(3))
  show ?thesis
    unfolding storage_holds_def
  proof (intro conjI ballI allI impI)
    show "\<not> single_twice (map (\<lambda>(i, _). oi_name i) (mem_objects md5 trial_world))"
      using apart unfolding objs info_of_def single_twice_def by simp
    show "case x of (i, bytes) \<Rightarrow> \<forall>g. name_ok (HeadName g) \<longrightarrow> oi_name i = show_name (HeadName g) \<longrightarrow>
        gen g < length [trial_first] \<and> holds_record ?P sample_keys g ([trial_first] ! gen g) bytes"
      if "x \<in> set (mem_objects md5 trial_world)" for x
      using that heads by (auto simp del: show_name.simps name_ok.simps)
    show "case x of (i, bytes) \<Rightarrow> \<forall>g. name_ok (IndexSnapshotName g) \<longrightarrow> oi_name i = show_name (IndexSnapshotName g) \<longrightarrow>
        gen g < length [trial_first] \<and> true_snapshot ?P sample_keys g (library_after [trial_first] (Suc (gen g))) bytes"
      if "x \<in> set (mem_objects md5 trial_world)" for x
      using that snaps by (auto simp del: show_name.simps name_ok.simps)
    show "show_name (HeadName (Generation n)) \<in> (\<lambda>(i, _). oi_name i) ` set (mem_objects md5 trial_world)"
      if "n < length [trial_first]" for n
      using that by (simp add: objs info_of_def)
  qed
qed

lemma trial_committable: "committable trial_libraries sample_keys trial_policy [trial_first] sample_batch"
proof -
  have "pb_renames sample_batch = []" "pb_library_name sample_batch = None"
    by (simp_all add: sample_batch_def batch_adding_def batch_default_def)
  moreover have "lb_containers (library_after [trial_first] 1) = {}"
    using library_after_Suc [of 0 "[trial_first]"]
    by (simp add: advance_def library_empty_def containers_after_def containers_kept_def trial_first_def)
  moreover have "py_replica_count trial_policy < 2 ^ 16" by code_simp
  ultimately show ?thesis
    using trial_libraries_ok trial_history_ok trial_first_ok sample_deposit_ok sample_batch_fields
    by (simp add: committable_def batch_writable_def trial_libraries_def sample_keys_def control_keys_derive_def epoch_ok_def
        max_format_integer_def)
qed

section \<open>The commit\<close>

lemma trial_lands:
  "case commit_batch (mem_ports md5_of trial_libraries) sample_keys trial_policy sample_batch None trial_world of
     Some (v, Inr (out, short)) \<Rightarrow> co_record out = trial_second | _ \<Rightarrow> False"
  by code_simp

end
