(* ===== verification/Recovery_Code.thy ===== *)
theory Recovery_Code
  imports Container_Header
begin

text \<open>
  \<open>coffret-format/src/recovery_code\<close>: the Master Key and its epoch as the string its owner writes
  down. The crate \<open>bech32\<close> is the parameter \<open>B\<close>: its encoder, the checked string it reads, the value of
  a character and the residue of its checksum. \<open>bech32_laws\<close> is what BIP-173 and BIP-350 say of them:
  the data part is the payload in five-bit groups with zero bits after it, lowercase or uppercase, and
  a string that verifies is the encoding of what it carries. The lemmas end in \<open>parse_Ok_iff\<close>: what
  \<open>parse\<close> accepts is exactly the code of a key, in either case and with any spacing.
\<close>

section \<open>Characters\<close>

text \<open>\<open>chars()\<close>: each character is the byte that starts it with those that continue it.\<close>

definition continues :: "char \<Rightarrow> bool" where
  "continues c \<longleftrightarrow> 128 \<le> (of_char c :: nat) \<and> (of_char c :: nat) < 192"

function text_chars :: "string \<Rightarrow> string list" where
  "text_chars [] = []"
| "text_chars (c # cs) = (c # takeWhile continues cs) # text_chars (dropWhile continues cs)"
  by pat_completeness auto
termination by (relation "measure length") (auto simp: less_Suc_eq_le length_dropWhile_le)

definition is_ascii_whitespace :: "char \<Rightarrow> bool" where
  "is_ascii_whitespace c \<longleftrightarrow> (of_char c :: nat) \<in> {9, 10, 12, 13, 32}"

definition is_ascii_uppercase :: "char \<Rightarrow> bool" where
  "is_ascii_uppercase c \<longleftrightarrow> 65 \<le> (of_char c :: nat) \<and> (of_char c :: nat) \<le> 90"

definition is_ascii_lowercase :: "char \<Rightarrow> bool" where
  "is_ascii_lowercase c \<longleftrightarrow> 97 \<le> (of_char c :: nat) \<and> (of_char c :: nat) \<le> 122"

definition char_lower :: "char \<Rightarrow> char" where
  "char_lower c = (if is_ascii_uppercase c then char_of ((of_char c :: nat) + 32) else c)"

definition char_upper :: "char \<Rightarrow> char" where
  "char_upper c = (if is_ascii_lowercase c then char_of ((of_char c :: nat) - 32) else c)"

abbreviation text_lower :: "string \<Rightarrow> string" where
  "text_lower \<equiv> map char_lower"

abbreviation text_upper :: "string \<Rightarrow> string" where
  "text_upper \<equiv> map char_upper"

section \<open>The crate\<close>

type_synonym unit5 = "5 word"

text \<open>What \<open>CheckedHrpstring::new\<close> refuses, as \<open>rejected\<close> tells its refusals apart.\<close>

datatype code_refusal = InvalidUnit string | OtherRefusal

record checked_code =
  ch_prefix :: string
  ch_units :: "unit5 list"
  ch_bytes :: "byte list"

record bech32 =
  code_encode :: "string \<Rightarrow> byte list \<Rightarrow> string option"
  code_check :: "string \<Rightarrow> code_refusal + checked_code"
  code_unit :: "string \<Rightarrow> unit5 option"
  code_residue :: "unit5 list \<Rightarrow> nat"
  code_target :: nat

definition checksum_length :: nat where
  "checksum_length = 6"

section \<open>The code\<close>

record recovery_code =
  rc_master_key :: "byte list"
  rc_epoch :: master_key_epoch
  rc_text :: string

definition human_readable_part :: string where
  "human_readable_part = ''coffret''"

definition recovery_version :: byte where
  "recovery_version = 0x01"

definition master_key_byte_len :: nat where
  "master_key_byte_len = 32"

definition recovery_payload_len :: nat where
  "recovery_payload_len = 1 + 8 + master_key_byte_len"

definition recovery_data_len :: nat where
  "recovery_data_len = 66"

definition recovery_text_len :: nat where
  "recovery_text_len = length human_readable_part + 1 + recovery_data_len + 6"

definition recovery_group_len :: nat where
  "recovery_group_len = 4"

text \<open>The payload \<open>encode\<close> fills in: the version, the epoch and the key at their offsets.\<close>

definition recovery_payload :: "byte list \<Rightarrow> master_key_epoch \<Rightarrow> byte list" where
  "recovery_payload master_key e =
     (let payload = replicate recovery_payload_len 0;
          payload = payload[0 := recovery_version];
          payload = blit 1 (be_bytes 8 (epoch e)) payload;
          payload = blit 9 master_key payload
      in payload)"

text \<open>\<open>None\<close> is the panic of its \<open>expect\<close>.\<close>

definition recovery_encode :: "bech32 \<Rightarrow> byte list \<Rightarrow> master_key_epoch \<Rightarrow> recovery_code option" where
  "recovery_encode B master_key e =
     map_option (\<lambda>text. \<lparr>rc_master_key = master_key, rc_epoch = e, rc_text = text\<rparr>)
       (code_encode B human_readable_part (recovery_payload master_key e))"

definition to_grouped_string :: "recovery_code \<Rightarrow> string" where
  "to_grouped_string c =
     (let separator = length human_readable_part + 1;
          prefix = take separator (rc_text c);
          data = drop separator (rc_text c)
      in prefix @ concat (map (\<lambda>(index, character).
           if index mod recovery_group_len = 0 then [CHR '' '', character] else [character]) (enumerate 0 data)))"

section \<open>Reading one\<close>

text \<open>Whitespace and the hyphen are ASCII, so dropping the characters is dropping their bytes.\<close>

definition normalize :: "string \<Rightarrow> string" where
  "normalize text = filter (\<lambda>c. \<not> is_ascii_whitespace c \<and> c \<noteq> CHR ''-'') text"

definition recovery_epoch_refusal :: "model_error \<Rightarrow> format_error" where
  "recovery_epoch_refusal err =
     (case err of EpochOutOfRange n \<Rightarrow> Recovery (RecoveryCodeEpochOutOfRange n) | other \<Rightarrow> Model other)"

definition prefix_character :: "string \<Rightarrow> bool" where
  "prefix_character c = (case c of [b] \<Rightarrow> 33 \<le> (of_char b :: nat) \<and> (of_char b :: nat) \<le> 126 | _ \<Rightarrow> False)"

definition max_prefix_len :: nat where
  "max_prefix_len = 83"

text \<open>The prefix as Bech32 feeds it to its checksum, and the answer to a prefix that is too long.\<close>

definition expanded_prefix :: "string \<Rightarrow> unit5 list" where
  "expanded_prefix prefix =
     map (\<lambda>b. word_of_nat (of_char b div 32)) (text_lower prefix) @ [0] @
     map (\<lambda>b. word_of_nat (of_char b mod 32)) (text_lower prefix)"

definition overlong :: "bech32 \<Rightarrow> string \<Rightarrow> string \<Rightarrow> format_error" where
  "overlong B prefix data =
     (case find (\<lambda>c. code_unit B c = None) (text_chars data) of
        Some actual \<Rightarrow> Recovery (RecoveryCodeInvalidCharacter actual)
      | None \<Rightarrow>
          if length data < checksum_length then Recovery RecoveryCodeChecksumFailed
          else let elements = map (\<lambda>c. the (code_unit B c)) (text_chars data)
               in if code_residue B (expanded_prefix prefix @ elements) \<noteq> code_target B
                  then Recovery RecoveryCodeChecksumFailed
                  else Recovery (UnknownRecoveryCodePrefix (text_lower prefix)))"

definition divide :: "bech32 \<Rightarrow> string \<Rightarrow> format_error + unit" where
  "divide B text =
     (let upper = (\<exists>c \<in> set text. is_ascii_uppercase c); lower = (\<exists>c \<in> set text. is_ascii_lowercase c)
      in if upper \<and> lower then Err (Recovery RecoveryCodeMixedCase)
         else case rsplit_once CHR ''1'' text of
             None \<Rightarrow> Err (Recovery RecoveryCodeMissingSeparator)
           | Some (prefix, data) \<Rightarrow>
               if prefix = [] then Err (Recovery RecoveryCodeEmptyPrefix)
               else case find (\<lambda>c. \<not> prefix_character c) (text_chars prefix) of
                   Some actual \<Rightarrow> Err (Recovery (RecoveryCodeInvalidPrefixCharacter actual))
                 | None \<Rightarrow> if length prefix > max_prefix_len then Err (overlong B prefix data) else Ok ())"

definition rejected_code :: "code_refusal \<Rightarrow> format_error" where
  "rejected_code refusal =
     (case refusal of InvalidUnit actual \<Rightarrow> Recovery (RecoveryCodeInvalidCharacter actual)
      | OtherRefusal \<Rightarrow> Recovery RecoveryCodeChecksumFailed)"

definition padding_bits :: byte where
  "padding_bits = 0b11"

text \<open>An answer \<open>Ok None\<close> is the panic of \<open>encode\<close>.\<close>

definition recovery_parse :: "bech32 \<Rightarrow> string \<Rightarrow> format_error + recovery_code option" where
  "recovery_parse B text =
     (let normalized = normalize text
      in and_then (divide B normalized) (\<lambda>_.
         and_then (map_err rejected_code (code_check B normalized)) (\<lambda>checked.
           if text_lower (ch_prefix checked) \<noteq> human_readable_part
           then Err (Recovery (UnknownRecoveryCodePrefix (text_lower (ch_prefix checked))))
           else if length (ch_units checked) \<noteq> recovery_data_len
           then Err (Recovery (RecoveryCodeLengthMismatch (length (ch_units checked))))
           else if and (ucast (last (ch_units checked)) :: byte) padding_bits \<noteq> 0
           then Err (Recovery NonZeroRecoveryCodePadding)
           else let payload = ch_bytes checked; version = payload ! 0
                in if version \<noteq> recovery_version
                   then Err (Recovery (UnsupportedRecoveryCodeVersion version))
                   else and_then (map_err recovery_epoch_refusal (epoch_new (from_be (slice 1 9 payload)))) (\<lambda>e.
                        Ok (recovery_encode B (drop 9 payload) e)))))"

section \<open>What the crate promises\<close>

definition units_value :: "unit5 list \<Rightarrow> nat" where
  "units_value us = foldl (\<lambda>n u. n * 32 + unat u) 0 us"

fun units_of :: "nat \<Rightarrow> nat \<Rightarrow> unit5 list" where
  "units_of 0 n = []"
| "units_of (Suc k) n = units_of k (n div 32) @ [word_of_nat n]"

text \<open>The payload in groups of five bits with zero bits after it, and the bytes groups hold.\<close>

definition regrouped :: "byte list \<Rightarrow> unit5 list" where
  "regrouped p =
     (let k = div_ceil (8 * length p) 5 in units_of k (from_be p * 2 ^ (5 * k - 8 * length p)))"

definition ungrouped :: "unit5 list \<Rightarrow> byte list" where
  "ungrouped us = be_bytes (5 * length us div 8) (units_value us div 2 ^ (5 * length us mod 8))"

definition bech32_alphabet :: string where
  "bech32_alphabet = ''qpzry9x8gf2tvdw0s3jn54khce6mua7l''"

definition lowercase_prefix :: "string \<Rightarrow> bool" where
  "lowercase_prefix p \<longleftrightarrow> p \<noteq> [] \<and> (\<forall>c \<in> set p. prefix_character [c] \<and> \<not> is_ascii_uppercase c)"

definition bech32_laws :: "bech32 \<Rightarrow> bool" where
  "bech32_laws B \<longleftrightarrow>
     (\<forall>prefix p. lowercase_prefix prefix \<and> length prefix + 7 + div_ceil (8 * length p) 5 \<le> 90 \<longrightarrow>
        code_encode B prefix p \<noteq> None) \<and>
     (\<forall>prefix p t. lowercase_prefix prefix \<and> code_encode B prefix p = Some t \<longrightarrow>
        (\<exists>data. t = prefix @ CHR ''1'' # data \<and> length data = div_ceil (8 * length p) 5 + checksum_length \<and>
           set data \<subseteq> set bech32_alphabet) \<and>
        code_check B t = Ok \<lparr>ch_prefix = prefix, ch_units = regrouped p, ch_bytes = p\<rparr> \<and>
        code_check B (text_upper t) = Ok \<lparr>ch_prefix = text_upper prefix, ch_units = regrouped p, ch_bytes = p\<rparr>) \<and>
     (\<forall>t c. code_check B t = Ok c \<longrightarrow>
        ch_bytes c = ungrouped (ch_units c) \<and>
        length t = length (ch_prefix c) + 1 + length (ch_units c) + checksum_length \<and>
        (ch_units c = regrouped (ch_bytes c) \<and> length t \<le> 90 \<longrightarrow>
           code_encode B (text_lower (ch_prefix c)) (ch_bytes c) = Some (text_lower t)))"

section \<open>Five-bit groups\<close>

lemma units_value_snoc [simp]: "units_value (us @ [u]) = units_value us * 32 + unat u"
  by (simp add: units_value_def)

lemma units_value_Nil [simp]: "units_value [] = 0"
  by (simp add: units_value_def)

lemma unat_unit_less [simp]: "unat (u :: unit5) < 32"
  using unsigned_less [of u] by simp

lemma length_units_of [simp]: "length (units_of k n) = k"
  by (induction k arbitrary: n) auto

lemma units_value_units_of: "units_value (units_of k n) = n mod 32 ^ k"
proof (induction k arbitrary: n)
  case 0
  then show ?case by simp
next
  case (Suc k)
  have "unat (word_of_nat n :: unit5) = n mod 32" by (simp add: unat_of_nat)
  then have "units_value (units_of (Suc k) n) = (n div 32) mod 32 ^ k * 32 + n mod 32"
    by (simp add: Suc.IH)
  also have "\<dots> = n mod (32 * 32 ^ k)" by (simp add: mod_mult2_eq)
  finally show ?case by simp
qed

lemma units_of_units_value: "units_of (length us) (units_value us) = us"
proof (induction us rule: rev_induct)
  case Nil
  then show ?case by simp
next
  case (snoc u us)
  have "unat u < 32" by simp
  then have "(units_value us * 32 + unat u) div 32 = units_value us" by simp
  moreover have "(word_of_nat (units_value us * 32 + unat u) :: unit5) = u"
  proof -
    have "unat (word_of_nat (units_value us * 32 + unat u) :: unit5) = (units_value us * 32 + unat u) mod 32"
      by (simp only: unat_of_nat) simp
    then show ?thesis by (simp only: word_unat_eq_iff) simp
  qed
  ultimately show ?case using snoc by simp
qed

lemma units_value_bound: "units_value us < 32 ^ length us"
  using units_value_units_of [of "length us" "units_value us"]
  by (metis mod_less_divisor units_of_units_value zero_less_numeral zero_less_power)

lemma padding_mask: "and (ucast (u :: unit5) :: byte) padding_bits = 0 \<longleftrightarrow> unat u mod 4 = 0"
proof -
  have "unat (and (ucast u :: byte) padding_bits) = and (unat u) 3"
    by (simp add: padding_bits_def unsigned_and_eq unsigned_ucast_eq take_bit_nat_eq_self less_trans [OF unat_unit_less])
  also have "\<dots> = unat u mod 4"
    using take_bit_eq_mask [of 2 "unat u"] by (simp add: take_bit_eq_mod mask_eq_exp_minus_1)
  finally show ?thesis by (metis unsigned_0 unsigned_word_eqI)
qed

text \<open>Forty-one bytes are sixty-six groups whose last two bits are zero, and back.\<close>

lemma regrouped_41:
  assumes "length p = 41"
  shows "length (regrouped p) = 66" and "and (ucast (last (regrouped p)) :: byte) padding_bits = 0"
proof -
  have r: "regrouped p = units_of 66 (from_be p * 4)"
    using assms by (simp add: regrouped_def div_ceil_def)
  then show "length (regrouped p) = 66" by simp
  have "regrouped p = units_of 65 (from_be p * 4 div 32) @ [word_of_nat (from_be p * 4)]"
    using r units_of.simps(2) [of 65 "from_be p * 4"] by simp
  then have "last (regrouped p) = word_of_nat (from_be p * 4)" by simp
  moreover have "unat (word_of_nat (from_be p * 4) :: unit5) = (from_be p * 4) mod 32"
    by (simp only: unat_of_nat) simp
  moreover have "(from_be p * 4) mod 32 mod 4 = 0" by presburger
  ultimately show "and (ucast (last (regrouped p)) :: byte) padding_bits = 0" by (simp add: padding_mask)
qed

lemma regrouped_ungrouped:
  assumes "length us = 66" and "and (ucast (last us) :: byte) padding_bits = 0"
  shows "length (ungrouped us) = 41" and "regrouped (ungrouped us) = us"
proof -
  obtain vs u where us: "us = vs @ [u]" using assms(1) by (cases us rule: rev_cases) auto
  have "unat u mod 4 = 0" using assms(2) by (simp add: us padding_mask)
  then have four: "units_value us div 4 * 4 = units_value us" by (auto simp: us)
  have less: "units_value us div 4 < 256 ^ 41"
    using units_value_bound [of us] assms(1) by simp
  have un: "ungrouped us = be_bytes 41 (units_value us div 4)" using assms(1) by (simp add: ungrouped_def)
  then show l: "length (ungrouped us) = 41" by simp
  have "regrouped (ungrouped us) = units_of 66 (from_be (ungrouped us) * 4)"
    using l by (simp add: regrouped_def div_ceil_def)
  also have "\<dots> = units_of 66 (units_value us)" using less four by (simp only: un from_be_be_bytes_small)
  also have "\<dots> = us" using units_of_units_value [of us] assms(1) by simp
  finally show "regrouped (ungrouped us) = us" .
qed

section \<open>Case and spacing\<close>

lemma of_char_lower:
  "(of_char (char_lower c) :: nat) = (if is_ascii_uppercase c then of_char c + 32 else of_char c)"
  by (simp add: char_lower_def is_ascii_uppercase_def)

lemma of_char_upper:
  "(of_char (char_upper c) :: nat) = (if is_ascii_lowercase c then of_char c - 32 else of_char c)"
  by (auto simp: char_upper_def is_ascii_lowercase_def)

lemmas case_defs = of_char_lower of_char_upper is_ascii_uppercase_def is_ascii_lowercase_def

lemma char_lower_idle [simp]: "\<not> is_ascii_uppercase c \<Longrightarrow> char_lower c = c"
  by (simp add: char_lower_def)

lemma char_upper_idle [simp]: "\<not> is_ascii_lowercase c \<Longrightarrow> char_upper c = c"
  by (simp add: char_upper_def)

lemma lower_upper: "char_lower (char_upper c) = char_lower c"
  by (rule injD [OF inj_of_char [where ?'a = nat]]) (auto simp: case_defs)

lemma upper_lower: "char_upper (char_lower c) = char_upper c"
  by (rule injD [OF inj_of_char [where ?'a = nat]]) (auto simp: case_defs)

lemma upper_not_lowercase [simp]: "\<not> is_ascii_lowercase (char_upper c)"
  by (auto simp: case_defs)

lemma text_lower_idle: "\<forall>c \<in> set s. \<not> is_ascii_uppercase c \<Longrightarrow> text_lower s = s"
  by (simp add: map_idI)

lemma text_lower_upper: "\<forall>c \<in> set s. \<not> is_ascii_uppercase c \<Longrightarrow> text_lower (text_upper s) = s"
  by (simp add: lower_upper map_idI)

lemma text_upper_idle: "\<forall>c \<in> set s. \<not> is_ascii_lowercase c \<Longrightarrow> text_upper s = s"
  by (simp add: map_idI)

text \<open>A text without a mixture of cases is its lowercase spelling or that in uppercase.\<close>

lemma one_case:
  assumes "\<not> ((\<exists>c \<in> set s. is_ascii_uppercase c) \<and> (\<exists>c \<in> set s. is_ascii_lowercase c))"
  shows "s = text_lower s \<or> s = text_upper (text_lower s)"
  using assms by (auto simp: map_idI upper_lower)

lemma text_chars_ascii: "\<forall>c \<in> set s. \<not> continues c \<Longrightarrow> text_chars s = map (\<lambda>c. [c]) s"
proof (induction s)
  case (Cons c s)
  then have "takeWhile continues s = []" and "dropWhile continues s = s" by (cases s; simp)+
  with Cons show ?case by simp
qed simp

lemma prefix_character_ascii: "prefix_character [c] \<Longrightarrow> \<not> continues c"
  by (auto simp: prefix_character_def continues_def)

text \<open>What the letters of the alphabet are: lowercase, neither the separator nor spacing.\<close>

definition code_letter :: "char \<Rightarrow> bool" where
  "code_letter c \<longleftrightarrow> \<not> is_ascii_uppercase c \<and> \<not> is_ascii_whitespace c \<and> c \<noteq> CHR ''-'' \<and> c \<noteq> CHR ''1'' \<and>
     \<not> is_ascii_whitespace (char_upper c) \<and> char_upper c \<noteq> CHR ''-'' \<and> char_upper c \<noteq> CHR ''1''"

lemma alphabet_letters: "\<forall>c \<in> set bech32_alphabet. code_letter c"
  by code_simp

lemma prefix_letters: "\<forall>c \<in> set human_readable_part. code_letter c"
  by code_simp

lemma hrp_lowercase: "lowercase_prefix human_readable_part"
  by code_simp

lemma hrp_length [simp]: "length human_readable_part = 7"
  by (simp add: human_readable_part_def)

lemma letters_normalize: "\<forall>c \<in> set s. code_letter c \<Longrightarrow> normalize s = s"
  by (simp add: normalize_def code_letter_def filter_id_conv)

section \<open>The payload\<close>

lemma recovery_payload_eq:
  assumes "length k = master_key_byte_len"
  shows "recovery_payload k e = [recovery_version] @ be_bytes 8 (epoch e) @ k"
proof -
  have z: "replicate recovery_payload_len 0 = filled [] 41"
    by (simp add: recovery_payload_len_def master_key_byte_len_def filled_def)
  show ?thesis
    using assms unfolding recovery_payload_def Let_def z
    by (simp add: update_filled blit_filled master_key_byte_len_def filled_0)
qed

lemma recovery_payload_length: "length k = master_key_byte_len \<Longrightarrow> length (recovery_payload k e) = 41"
  by (simp add: recovery_payload_eq master_key_byte_len_def)

lemma recovery_payload_fields:
  assumes "length k = master_key_byte_len" and "epoch_ok e"
  shows "recovery_payload k e ! 0 = recovery_version" and "from_be (slice 1 9 (recovery_payload k e)) = epoch e"
    and "drop 9 (recovery_payload k e) = k"
  using assms by (simp_all add: recovery_payload_eq slice_def epoch_ok_def max_format_integer_def)

text \<open>A payload that starts with the version is the one its epoch and key make.\<close>

lemma recovery_payload_exact:
  assumes "length p = 41" and "p ! 0 = recovery_version"
  shows "recovery_payload (drop 9 p) (MasterKeyEpoch (from_be (slice 1 9 p))) = p"
proof -
  have "p = take 1 p @ slice 1 9 p @ drop 9 p"
    using append_take_drop_id [of 1 p] append_take_drop_id [of 8 "drop 1 p"] by (simp add: slice_def)
  moreover have "take 1 p = [recovery_version]" using assms by (cases p) auto
  moreover have "be_bytes 8 (from_be (slice 1 9 p)) = slice 1 9 p"
    using be_bytes_from_be [of "slice 1 9 p"] assms(1) by simp
  ultimately show ?thesis using assms(1) by (simp add: recovery_payload_eq master_key_byte_len_def)
qed

section \<open>Encoding\<close>

lemma recovery_encodes:
  assumes "bech32_laws B" and "length k = master_key_byte_len"
  shows "\<exists>c. recovery_encode B k e = Some c"
proof -
  have "length human_readable_part + 7 + div_ceil (8 * length (recovery_payload k e)) 5 \<le> 90"
    using recovery_payload_length [OF assms(2)] by (simp add: div_ceil_def)
  then have "code_encode B human_readable_part (recovery_payload k e) \<noteq> None"
    using assms(1) hrp_lowercase unfolding bech32_laws_def by blast
  then show ?thesis by (auto simp: recovery_encode_def)
qed

lemma recovery_encode_text:
  assumes "bech32_laws B" and "length k = master_key_byte_len" and "recovery_encode B k e = Some c"
  shows "\<exists>data. rc_text c = human_readable_part @ CHR ''1'' # data \<and> length data = 72 \<and> (\<forall>c \<in> set data. code_letter c)"
    and "code_check B (rc_text c) = Ok \<lparr>ch_prefix = human_readable_part, ch_units = regrouped (recovery_payload k e),
      ch_bytes = recovery_payload k e\<rparr>"
    and "code_check B (text_upper (rc_text c)) = Ok \<lparr>ch_prefix = text_upper human_readable_part,
      ch_units = regrouped (recovery_payload k e), ch_bytes = recovery_payload k e\<rparr>"
proof -
  have e: "code_encode B human_readable_part (recovery_payload k e) = Some (rc_text c)"
    using assms(3) by (auto simp: recovery_encode_def)
  with assms(1) hrp_lowercase have
    d: "\<exists>data. rc_text c = human_readable_part @ CHR ''1'' # data \<and>
      length data = div_ceil (8 * length (recovery_payload k e)) 5 + checksum_length \<and> set data \<subseteq> set bech32_alphabet"
    and checks: "code_check B (rc_text c) = Ok \<lparr>ch_prefix = human_readable_part,
        ch_units = regrouped (recovery_payload k e), ch_bytes = recovery_payload k e\<rparr> \<and>
      code_check B (text_upper (rc_text c)) = Ok \<lparr>ch_prefix = text_upper human_readable_part,
        ch_units = regrouped (recovery_payload k e), ch_bytes = recovery_payload k e\<rparr>"
    unfolding bech32_laws_def by blast+
  have "div_ceil (8 * length (recovery_payload k e)) 5 + checksum_length = 72"
    using recovery_payload_length [OF assms(2)] by (simp add: div_ceil_def checksum_length_def)
  with d alphabet_letters show
    "\<exists>data. rc_text c = human_readable_part @ CHR ''1'' # data \<and> length data = 72 \<and> (\<forall>c \<in> set data. code_letter c)"
    by (metis subsetD)
  show "code_check B (rc_text c) = Ok \<lparr>ch_prefix = human_readable_part, ch_units = regrouped (recovery_payload k e),
      ch_bytes = recovery_payload k e\<rparr>"
    and "code_check B (text_upper (rc_text c)) = Ok \<lparr>ch_prefix = text_upper human_readable_part,
      ch_units = regrouped (recovery_payload k e), ch_bytes = recovery_payload k e\<rparr>"
    using checks by simp_all
qed

section \<open>Reading a code back\<close>

lemma separator_case [simp]: "\<not> is_ascii_uppercase CHR ''1''" "\<not> is_ascii_lowercase CHR ''1''"
  by code_simp+

lemma divide_accepts:
  assumes "\<not> ((\<exists>c \<in> set t. is_ascii_uppercase c) \<and> (\<exists>c \<in> set t. is_ascii_lowercase c))"
    and "rsplit_once CHR ''1'' t = Some (p, d)" and "p \<noteq> []"
    and "find (\<lambda>c. \<not> prefix_character c) (text_chars p) = None" and "length p \<le> max_prefix_len"
  shows "divide B t = Ok ()"
  using assms by (simp add: divide_def Let_def)

lemma divide_lower:
  assumes "\<forall>c \<in> set data. code_letter c"
  shows "divide B (human_readable_part @ CHR ''1'' # data) = Ok ()"
proof -
  have up: "\<not> (\<exists>c \<in> set (human_readable_part @ CHR ''1'' # data). is_ascii_uppercase c)"
    using assms prefix_letters by (auto simp: code_letter_def)
  have "rsplit_once CHR ''1'' (human_readable_part @ CHR ''1'' # data) = Some (human_readable_part, data)"
    using assms by (auto simp: rsplit_once_Some_iff code_letter_def)
  moreover have "find (\<lambda>c. \<not> prefix_character c) (text_chars human_readable_part) = None" by code_simp
  moreover have "human_readable_part \<noteq> []" "length human_readable_part \<le> max_prefix_len" by code_simp+
  ultimately show ?thesis using up divide_accepts by blast
qed

lemma divide_upper:
  assumes "\<forall>c \<in> set data. code_letter c"
  shows "divide B (text_upper (human_readable_part @ CHR ''1'' # data)) = Ok ()"
proof -
  have low: "\<not> (\<exists>c \<in> set (text_upper (human_readable_part @ CHR ''1'' # data)). is_ascii_lowercase c)"
    by auto
  have "CHR ''1'' \<notin> set (text_upper data)"
    using assms unfolding code_letter_def set_map image_iff by metis
  moreover have "text_upper (human_readable_part @ CHR ''1'' # data) =
      text_upper human_readable_part @ CHR ''1'' # text_upper data" by simp
  ultimately have "rsplit_once CHR ''1'' (text_upper (human_readable_part @ CHR ''1'' # data)) =
      Some (text_upper human_readable_part, text_upper data)"
    unfolding rsplit_once_Some_iff by blast
  moreover have "find (\<lambda>c. \<not> prefix_character c) (text_chars (text_upper human_readable_part)) = None" by code_simp
  moreover have "text_upper human_readable_part \<noteq> []" "length (text_upper human_readable_part) \<le> max_prefix_len"
    by code_simp+
  ultimately show ?thesis using low divide_accepts by blast
qed

text \<open>What a checked string with the payload of a key is answered.\<close>

lemma recovery_parse_checked:
  assumes "length k = master_key_byte_len" and "epoch_ok e"
    and "divide B (normalize s) = Ok ()"
    and "code_check B (normalize s) = Ok \<lparr>ch_prefix = p, ch_units = regrouped (recovery_payload k e),
      ch_bytes = recovery_payload k e\<rparr>"
    and "text_lower p = human_readable_part"
  shows "recovery_parse B s = Ok (recovery_encode B k e)"
proof -
  note r = regrouped_41 [OF recovery_payload_length [OF assms(1)], of e]
  have "epoch_new (epoch e) = Ok e" using assms(2) by (cases e) (simp add: epoch_new_def epoch_ok_def)
  with assms r recovery_payload_fields [OF assms(1,2)] show ?thesis
    by (simp add: recovery_parse_def Let_def recovery_data_len_def)
qed

lemma recovery_reads_back:
  assumes "bech32_laws B" and "length k = master_key_byte_len" and "epoch_ok e"
    and "recovery_encode B k e = Some c"
    and "normalize s = rc_text c \<or> normalize s = text_upper (rc_text c)"
  shows "recovery_parse B s = Ok (Some c)"
proof -
  obtain data where t: "rc_text c = human_readable_part @ CHR ''1'' # data" "\<forall>c \<in> set data. code_letter c"
    using recovery_encode_text(1) [OF assms(1,2,4)] by blast
  have low: "text_lower human_readable_part = human_readable_part"
    "text_lower (text_upper human_readable_part) = human_readable_part" by code_simp+
  have "divide B (normalize s) = Ok ()"
    using assms(5) divide_lower [OF t(2)] divide_upper [OF t(2)] by (auto simp: t(1))
  with recovery_encode_text(2,3) [OF assms(1,2,4)] assms low show ?thesis
    by (metis recovery_parse_checked)
qed

text \<open>What is read is the code of its key: the text it arrived as is that code's, in one of the two cases.\<close>

lemma recovery_parse_exact:
  assumes laws: "bech32_laws B" and ok: "recovery_parse B s = Ok r"
  shows "\<exists>k e c. length k = master_key_byte_len \<and> epoch_ok e \<and> recovery_encode B k e = Some c \<and> r = Some c \<and>
    (normalize s = rc_text c \<or> normalize s = text_upper (rc_text c))"
proof -
  obtain h e where d: "divide B (normalize s) = Ok ()" and h: "code_check B (normalize s) = Ok h"
    and p: "text_lower (ch_prefix h) = human_readable_part" and u: "length (ch_units h) = 66"
    and pad: "and (ucast (last (ch_units h)) :: byte) padding_bits = 0" and v: "ch_bytes h ! 0 = recovery_version"
    and e: "epoch_new (from_be (slice 1 9 (ch_bytes h))) = Ok e" and r: "r = recovery_encode B (drop 9 (ch_bytes h)) e"
    using ok by (auto simp: recovery_parse_def Let_def res_simps recovery_data_len_def split: if_splits)
  from laws h have b: "ch_bytes h = ungrouped (ch_units h)"
    and l: "length (normalize s) = length (ch_prefix h) + 1 + length (ch_units h) + checksum_length"
    and re: "ch_units h = regrouped (ch_bytes h) \<and> length (normalize s) \<le> 90 \<Longrightarrow>
      code_encode B (text_lower (ch_prefix h)) (ch_bytes h) = Some (text_lower (normalize s))"
    unfolding bech32_laws_def by blast+
  have "length (ch_prefix h) = 7" using p hrp_length by (metis length_map)
  then have "length (normalize s) \<le> 90" using l u by (simp add: checksum_length_def)
  with re b regrouped_ungrouped [OF u pad] p have
    enc: "code_encode B human_readable_part (ch_bytes h) = Some (text_lower (normalize s))" and len: "length (ch_bytes h) = 41"
    by auto
  let ?k = "drop 9 (ch_bytes h)"
  have e': "e = MasterKeyEpoch (from_be (slice 1 9 (ch_bytes h)))" and eok: "epoch_ok e"
    using e by (auto simp: epoch_new_def epoch_ok_def split: if_splits)
  have "recovery_payload ?k e = ch_bytes h" unfolding e' by (rule recovery_payload_exact [OF len v])
  with enc have c: "recovery_encode B ?k e =
      Some \<lparr>rc_master_key = ?k, rc_epoch = e, rc_text = text_lower (normalize s)\<rparr>"
    by (simp add: recovery_encode_def)
  have "\<not> ((\<exists>c \<in> set (normalize s). is_ascii_uppercase c) \<and> (\<exists>c \<in> set (normalize s). is_ascii_lowercase c))"
    using d unfolding divide_def Let_def by (metis (mono_tags, lifting) Inl_Inr_False)
  from one_case [OF this] have
    "normalize s = text_lower (normalize s) \<or> normalize s = text_upper (text_lower (normalize s))" .
  moreover have "length ?k = master_key_byte_len" using len by (simp add: master_key_byte_len_def)
  ultimately show ?thesis
    using c r eok by (intro exI [of _ ?k] exI [of _ e] exI [of _ "\<lparr>rc_master_key = ?k, rc_epoch = e, rc_text = text_lower (normalize s)\<rparr>"]) simp
qed

lemma recovery_encode_fields:
  "recovery_encode B k e = Some c \<Longrightarrow> rc_master_key c = k \<and> rc_epoch c = e"
  by (auto simp: recovery_encode_def)

section \<open>The printed form\<close>

lemma normalize_append: "normalize (a @ b) = normalize a @ normalize b"
  by (simp add: normalize_def)

lemma normalize_space: "normalize (CHR '' '' # s) = normalize s"
proof -
  have "is_ascii_whitespace CHR '' ''" by code_simp
  then show ?thesis by (simp only: normalize_def filter.simps simp_thms if_False)
qed

lemma normalize_Cons: "normalize (c # s) = normalize [c] @ normalize s"
  using normalize_append [of "[c]" s] by simp

lemma normalize_groups:
  "normalize (concat (map (\<lambda>(i, c). if i mod recovery_group_len = 0 then [CHR '' '', c] else [c]) (enumerate n s))) =
   normalize s"
proof (induction s arbitrary: n)
  case (Cons c s)
  then show ?case by (simp add: normalize_append normalize_space normalize_Cons [of c s])
qed simp

text \<open>Printed in groups of four, a code normalizes to itself.\<close>

lemma normalize_grouped: "normalize (to_grouped_string c) = normalize (rc_text c)"
proof -
  let ?n = "length human_readable_part + 1"
  have "normalize (to_grouped_string c) = normalize (take ?n (rc_text c)) @ normalize (drop ?n (rc_text c))"
    by (simp only: to_grouped_string_def Let_def normalize_append normalize_groups)
  then show ?thesis by (simp only: append_take_drop_id flip: normalize_append)
qed

lemma code_normalizes:
  assumes "bech32_laws B" and "length k = master_key_byte_len" and "recovery_encode B k e = Some c"
  shows "normalize (rc_text c) = rc_text c"
proof -
  obtain data where t: "rc_text c = human_readable_part @ CHR ''1'' # data" "\<forall>c \<in> set data. code_letter c"
    using recovery_encode_text(1) [OF assms] by blast
  have "normalize ''1'' = ''1''" by code_simp
  then have "normalize (CHR ''1'' # data) = CHR ''1'' # normalize data"
    using normalize_append [of "''1''" data] by simp
  then show ?thesis using t prefix_letters by (simp add: normalize_append letters_normalize)
qed

end
