(* ===== verification/Device_Keys.thy ===== *)
theory Device_Keys
  imports Cipher Recovery_Code
begin

text \<open>
  \<open>coffret-format/src\<close> \<open>stored_master_key\<close>, \<open>token_cache\<close> and \<open>account_cache_key_envelope\<close>: what a device
  keeps on its own disk under a Passphrase or a key. Argon2id is the parameter \<open>G\<close>, of which nothing is
  assumed; the cipher keeps \<open>aead_laws\<close>. Each of the three forms opens to exactly what sealing would have
  put there: the lemmas \<open>unlock_iff\<close>, \<open>token_cache_open_iff\<close> and \<open>account_envelope_iff\<close>.
\<close>

section \<open>The cost of a derivation\<close>

record argon2_params =
  memory_kib :: "32 word"
  iterations :: "32 word"
  parallelism :: "32 word"

text \<open>\<open>Params::new\<close>, which may refuse, and \<open>hash_password_into\<close> a key.\<close>

record argon2 =
  argon_refuses :: "argon2_params \<Rightarrow> nat \<Rightarrow> argon2_error option"
  argon_hash :: "argon2_params \<Rightarrow> byte list \<Rightarrow> byte list \<Rightarrow> argon2_error + byte list"

definition argon2_initial :: argon2_params where
  "argon2_initial = \<lparr>memory_kib = 19456, iterations = 2, parallelism = 1\<rparr>"

definition argon2_ceiling :: argon2_params where
  "argon2_ceiling = \<lparr>memory_kib = 262144, iterations = 8, parallelism = 4\<rparr>"

definition accepted_by_argon2 :: "argon2_params \<Rightarrow> format_error + argon2_params" where
  "accepted_by_argon2 p =
     (let per_lane = wmul64 8 (unat (parallelism p));
          refused = (if unat (memory_kib p) < max per_lane 8 then Some MemoryTooLittle
                     else if iterations p < 1 then Some TimeTooSmall
                     else if parallelism p < 1 then Some ThreadsTooFew
                     else None)
      in case refused of Some cause \<Rightarrow> Err (Device (InvalidArgon2Params cause)) | None \<Rightarrow> Ok p)"

definition within_ceiling :: "argon2_params \<Rightarrow> format_error + argon2_params" where
  "within_ceiling p =
     (let checks = [(''memory cost in KiB'', memory_kib p, memory_kib argon2_ceiling),
                    (''iterations'', iterations p, iterations argon2_ceiling),
                    (''parallelism'', parallelism p, parallelism argon2_ceiling)]
      in case find (\<lambda>(_, value, ceiling). value > ceiling) checks of
           Some (parameter, value, ceiling) \<Rightarrow>
             Err (Device (Argon2CostAboveCeiling parameter (unat value) (unat ceiling)))
         | None \<Rightarrow> Ok p)"

definition argon2_derive :: "argon2 \<Rightarrow> argon2_params \<Rightarrow> byte list \<Rightarrow> byte list \<Rightarrow> format_error + byte list" where
  "argon2_derive G p passphrase salt =
     (case argon_refuses G p key_length of
        Some cause \<Rightarrow> Err (Device (InvalidArgon2Params cause))
      | None \<Rightarrow> map_err (\<lambda>cause. Device (PassphraseDerivationFailed cause)) (argon_hash G p passphrase salt))"

section \<open>The stored Master Key\<close>

type_synonym range_of = "nat \<times> nat"

record smk_layout =
  sl_params :: argon2_params
  sl_salt :: range_of
  sl_nonce :: range_of
  sl_message :: range_of

record stored_master_key =
  smk_bytes :: "byte list"
  smk_layout :: smk_layout

record unlocked_master_key =
  um_master_key :: "byte list"
  um_epoch :: master_key_epoch

definition smk_plaintext_len :: nat where
  "smk_plaintext_len = master_key_byte_len + 8"

definition smk_magic :: "byte list" where
  "smk_magic = [0x43, 0x46, 0x4D, 0x4B, 0x31]"

definition smk_version :: byte where
  "smk_version = 0x01"

definition smk_salt_len :: nat where
  "smk_salt_len = 16"

definition smk_max_len :: nat where
  "smk_max_len = 20 + 255 + nonce_len + smk_plaintext_len + tag_length"

definition smk_layout_parse :: "byte list \<Rightarrow> format_error + smk_layout" where
  "smk_layout_parse bytes =
     (if length bytes < 20 then Err (Device StoredMasterKeyLengthMismatch)
      else let fixed = take 20 bytes; magic = take 5 fixed; version = fixed ! 5
           in if magic \<noteq> smk_magic then Err (Device (UnknownStoredMasterKeyMagic magic))
              else if version \<noteq> smk_version then Err (Device (UnsupportedStoredMasterKeyVersion version))
              else if fixed ! 6 \<noteq> 0 then Err ReservedNotZero
              else let salt = (20, 20 + unat (fixed ! 7));
                       nonce = (snd salt, snd salt + nonce_len);
                       message = (snd nonce, snd nonce + smk_plaintext_len + tag_length)
                   in if length bytes \<noteq> snd message then Err (Device StoredMasterKeyLengthMismatch)
                      else let recorded = \<lparr>memory_kib = word_of_nat (from_be (slice 8 12 fixed)),
                                           iterations = word_of_nat (from_be (slice 12 16 fixed)),
                                           parallelism = word_of_nat (from_be (slice 16 20 fixed))\<rparr>
                           in and_then (and_then (accepted_by_argon2 recorded) within_ceiling) (\<lambda>params.
                                Ok \<lparr>sl_params = params, sl_salt = salt, sl_nonce = nonce, sl_message = message\<rparr>))"

definition smk_from_bytes :: "byte list \<Rightarrow> format_error + stored_master_key" where
  "smk_from_bytes bytes =
     and_then (smk_layout_parse bytes) (\<lambda>layout. Ok \<lparr>smk_bytes = bytes, smk_layout = layout\<rparr>)"

text \<open>The fixed part, the salt and the nonce, which are the associated data.\<close>

definition smk_front :: "argon2_params \<Rightarrow> byte list \<Rightarrow> byte list \<Rightarrow> byte list" where
  "smk_front params salt nonce =
     smk_magic @ [smk_version] @ [0] @ [word_of_nat (length salt)] @ be_bytes 4 (unat (memory_kib params)) @
     be_bytes 4 (unat (iterations params)) @ be_bytes 4 (unat (parallelism params)) @ salt @ nonce"

text \<open>\<open>drawn_salt\<close> and \<open>drawn_nonce\<close> are what the entropy source answers.\<close>

definition smk_create_with ::
  "argon2 \<Rightarrow> aead \<Rightarrow> format_error + byte list \<Rightarrow> format_error + byte list \<Rightarrow> argon2_params \<Rightarrow> byte list \<Rightarrow>
   byte list \<Rightarrow> master_key_epoch \<Rightarrow> format_error + stored_master_key" where
  "smk_create_with G A drawn_salt drawn_nonce params passphrase master_key e =
     and_then (and_then (accepted_by_argon2 params) within_ceiling) (\<lambda>params.
     and_then drawn_salt (\<lambda>salt.
     and_then drawn_nonce (\<lambda>nonce.
       let bytes = smk_front params salt nonce; plaintext = master_key @ be_bytes 8 (epoch e)
       in and_then (argon2_derive G params passphrase salt) (\<lambda>protection_key.
          and_then (seal A protection_key nonce bytes plaintext bytes) smk_from_bytes))))"

definition smk_create ::
  "argon2 \<Rightarrow> aead \<Rightarrow> format_error + byte list \<Rightarrow> format_error + byte list \<Rightarrow> byte list \<Rightarrow> byte list \<Rightarrow>
   master_key_epoch \<Rightarrow> format_error + stored_master_key" where
  "smk_create G A drawn_salt drawn_nonce passphrase master_key e =
     smk_create_with G A drawn_salt drawn_nonce argon2_initial passphrase master_key e"

definition smk_epoch_refusal :: "model_error \<Rightarrow> format_error" where
  "smk_epoch_refusal err =
     (case err of EpochOutOfRange n \<Rightarrow> Device (StoredMasterKeyEpochOutOfRange n) | other \<Rightarrow> Model other)"

abbreviation in_range :: "range_of \<Rightarrow> byte list \<Rightarrow> byte list" where
  "in_range r bytes \<equiv> slice (fst r) (snd r) bytes"

definition smk_unlock :: "argon2 \<Rightarrow> aead \<Rightarrow> stored_master_key \<Rightarrow> byte list \<Rightarrow> format_error + unlocked_master_key" where
  "smk_unlock G A f passphrase =
     (let layout = smk_layout f; bytes = smk_bytes f
      in and_then (argon2_derive G (sl_params layout) passphrase (in_range (sl_salt layout) bytes)) (\<lambda>protection_key.
         and_then (open_message A protection_key (in_range (sl_nonce layout) bytes)
             (take (fst (sl_message layout)) bytes) (in_range (sl_message layout) bytes)) (\<lambda>plaintext.
           let master_key = take master_key_byte_len plaintext; number = from_be (drop master_key_byte_len plaintext)
           in and_then (map_err smk_epoch_refusal (epoch_new number)) (\<lambda>e.
                Ok \<lparr>um_master_key = master_key, um_epoch = e\<rparr>))))"

section \<open>The token cache\<close>

definition tc_magic :: "byte list" where
  "tc_magic = [0x43, 0x46, 0x54, 0x43, 0x31]"

definition tc_version :: byte where
  "tc_version = 0x01"

definition tc_header_len :: nat where
  "tc_header_len = 7 + nonce_len"

definition token_cache_key :: "purpose_key \<Rightarrow> format_error + byte list" where
  "token_cache_key key = require_purpose key TokenCache"

definition tc_layout_parse :: "byte list \<Rightarrow> format_error + (byte list \<times> range_of)" where
  "tc_layout_parse bytes =
     (let too_short = Device (TokenCacheTooShort (length bytes))
      in if length bytes < tc_header_len then Err too_short
         else let header = take tc_header_len bytes; magic = take 5 header; version = header ! 5
              in if magic \<noteq> tc_magic then Err (Device (UnknownTokenCacheMagic magic))
                 else if version \<noteq> tc_version then Err (Device (UnsupportedTokenCacheVersion version))
                 else if header ! 6 \<noteq> 0 then Err ReservedNotZero
                 else if length bytes < tc_header_len + tag_length then Err too_short
                 else Ok (drop 7 header, (tc_header_len, length bytes)))"

definition token_cache_seal :: "aead \<Rightarrow> format_error + byte list \<Rightarrow> byte list \<Rightarrow> byte list \<Rightarrow> format_error + byte list" where
  "token_cache_seal A drawn plaintext key =
     and_then drawn (\<lambda>nonce.
       let bytes = tc_magic @ [tc_version] @ [0] @ nonce in seal A key nonce bytes plaintext bytes)"

definition token_cache_open :: "aead \<Rightarrow> byte list \<Rightarrow> byte list \<Rightarrow> format_error + byte list" where
  "token_cache_open A bytes key =
     and_then (tc_layout_parse bytes) (\<lambda>(nonce, message).
       open_message A key nonce (take (fst message) bytes) (in_range message bytes))"

definition encode_token_cache ::
  "aead \<Rightarrow> format_error + byte list \<Rightarrow> byte list \<Rightarrow> purpose_key \<Rightarrow> format_error + byte list" where
  "encode_token_cache A drawn plaintext key =
     and_then (token_cache_key key) (\<lambda>k. token_cache_seal A drawn plaintext k)"

definition decode_token_cache :: "aead \<Rightarrow> byte list \<Rightarrow> purpose_key \<Rightarrow> format_error + byte list" where
  "decode_token_cache A bytes key = and_then (token_cache_key key) (\<lambda>k. token_cache_open A bytes k)"

datatype account_cache_key = AccountCacheKey (account_key_bytes: "byte list")

definition encode_account_token_cache ::
  "aead \<Rightarrow> format_error + byte list \<Rightarrow> byte list \<Rightarrow> account_cache_key \<Rightarrow> format_error + byte list" where
  "encode_account_token_cache A drawn plaintext key = token_cache_seal A drawn plaintext (account_key_bytes key)"

definition decode_account_token_cache :: "aead \<Rightarrow> byte list \<Rightarrow> account_cache_key \<Rightarrow> format_error + byte list" where
  "decode_account_token_cache A bytes key = token_cache_open A bytes (account_key_bytes key)"

section \<open>The envelope of an account's key\<close>

definition ak_magic :: "byte list" where
  "ak_magic = [0x43, 0x46, 0x41, 0x4B, 0x31]"

definition ak_version :: byte where
  "ak_version = 0x01"

definition ak_header_len :: nat where
  "ak_header_len = 7 + nonce_len"

definition account_cache_key_envelope_len :: nat where
  "account_cache_key_envelope_len = ak_header_len + key_length + tag_length"

definition account_wrap_key :: "purpose_key \<Rightarrow> format_error + byte list" where
  "account_wrap_key key = require_purpose key AccountCacheWrap"

definition utf8_bytes :: "string \<Rightarrow> byte list" where
  "utf8_bytes s = map (\<lambda>c. word_of_nat (of_char c)) s"

definition account_associated_data :: "byte list \<Rightarrow> string \<Rightarrow> byte list" where
  "account_associated_data header account_name = header @ utf8_bytes account_name"

definition encode_account_cache_key_envelope ::
  "aead \<Rightarrow> format_error + byte list \<Rightarrow> account_cache_key \<Rightarrow> purpose_key \<Rightarrow> string \<Rightarrow> format_error + byte list" where
  "encode_account_cache_key_envelope A drawn account_key key account_name =
     and_then (account_wrap_key key) (\<lambda>k.
     and_then drawn (\<lambda>nonce.
       let envelope = ak_magic @ [ak_version] @ [0] @ nonce
       in seal A k nonce (account_associated_data envelope account_name) (account_key_bytes account_key) envelope))"

definition decode_account_cache_key_envelope ::
  "aead \<Rightarrow> byte list \<Rightarrow> purpose_key \<Rightarrow> string \<Rightarrow> format_error + account_cache_key" where
  "decode_account_cache_key_envelope A bytes key account_name =
     and_then (account_wrap_key key) (\<lambda>k.
       if length bytes \<noteq> account_cache_key_envelope_len
       then Err (Device (AccountCacheKeyEnvelopeLength (length bytes)))
       else let magic = take 5 bytes; version = bytes ! 5
            in if magic \<noteq> ak_magic then Err (Device (UnknownAccountCacheKeyEnvelopeMagic magic))
               else if version \<noteq> ak_version then Err (Device (UnsupportedAccountCacheKeyEnvelopeVersion version))
               else if bytes ! 6 \<noteq> 0 then Err ReservedNotZero
               else let nonce = slice 7 ak_header_len bytes
                    in and_then (open_message A k nonce (account_associated_data (take ak_header_len bytes) account_name)
                           (drop ak_header_len bytes)) (\<lambda>plaintext. Ok (AccountCacheKey plaintext)))"

section \<open>What a cost may be\<close>

definition cost_ok :: "argon2_params \<Rightarrow> bool" where
  "cost_ok p \<longleftrightarrow> 8 * unat (parallelism p) \<le> unat (memory_kib p) \<and> 1 \<le> unat (iterations p) \<and> 1 \<le> unat (parallelism p) \<and>
     unat (memory_kib p) \<le> 262144 \<and> unat (iterations p) \<le> 8 \<and> unat (parallelism p) \<le> 4"

lemma unat32_less: "unat (w :: 32 word) < 2 ^ 32"
  using unsigned_less [of w] by simp

lemma within_ceiling_Ok_iff:
  "within_ceiling p = Ok q \<longleftrightarrow> q = p \<and> unat (memory_kib p) \<le> 262144 \<and> unat (iterations p) \<le> 8 \<and> unat (parallelism p) \<le> 4"
  by (auto simp: within_ceiling_def argon2_ceiling_def word_less_nat_alt split: option.splits)

lemma accepted_by_argon2_Ok_iff:
  "accepted_by_argon2 p = Ok q \<longleftrightarrow>
     q = p \<and> 8 * unat (parallelism p) \<le> unat (memory_kib p) \<and> 1 \<le> unat (iterations p) \<and> 1 \<le> unat (parallelism p)"
proof -
  have "8 * unat (parallelism p) < 2 ^ 64" using unat32_less [of "parallelism p"] by simp
  then have "wmul64 8 (unat (parallelism p)) = 8 * unat (parallelism p)" by (rule wmul64_small)
  then show ?thesis
    by (auto simp: accepted_by_argon2_def Let_def word_less_nat_alt split: option.splits if_splits)
qed

lemma cost_accepted:
  "and_then (accepted_by_argon2 p) within_ceiling = Ok q \<longleftrightarrow> q = p \<and> cost_ok p"
  by (auto simp: res_simps within_ceiling_Ok_iff accepted_by_argon2_Ok_iff cost_ok_def)

lemma cost_accepted_then:
  "and_then (and_then (accepted_by_argon2 p) within_ceiling) f = Ok y \<longleftrightarrow> cost_ok p \<and> f p = Ok y"
  by (subst and_then_Inr_iff) (auto simp only: cost_accepted)

section \<open>The stored form\<close>

lemma smk_front_length: "length (smk_front p salt nonce) = 20 + length salt + length nonce"
  by (simp add: smk_front_def smk_magic_def)

definition smk_layout_of :: "argon2_params \<Rightarrow> byte list \<Rightarrow> smk_layout" where
  "smk_layout_of p salt =
     \<lparr>sl_params = p, sl_salt = (20, 20 + length salt), sl_nonce = (20 + length salt, 20 + length salt + nonce_len),
      sl_message = (20 + length salt + nonce_len, 20 + length salt + nonce_len + smk_plaintext_len + tag_length)\<rparr>"

text \<open>A form that parses is a front and a message, and the layout says where.\<close>

lemma smk_layout_parse_front:
  assumes "length salt < 256" and "length nonce = nonce_len" and "length m = smk_plaintext_len + tag_length"
    and "cost_ok p"
  shows "smk_layout_parse (smk_front p salt nonce @ m) = Ok (smk_layout_of p salt)"
proof -
  let ?b = "smk_front p salt nonce @ m"
  let ?f = "smk_magic @ [smk_version] @ [0] @ [word_of_nat (length salt)] @ be_bytes 4 (unat (memory_kib p)) @
    be_bytes 4 (unat (iterations p)) @ be_bytes 4 (unat (parallelism p))"
  have f: "take 20 ?b = ?f" by (simp add: smk_front_def smk_magic_def)
  have n: "unat (word_of_nat (length salt) :: byte) = length salt" using assms(1) by (simp add: unat_of_nat)
  have l: "length ?b = 20 + length salt + nonce_len + smk_plaintext_len + tag_length"
    using assms(2,3) by (simp add: smk_front_length)
  have w: "from_be (be_bytes 4 (unat w)) = unat w" for w :: "32 word"
    using unat32_less [of w] by simp
  have s: "slice 8 12 ?f = be_bytes 4 (unat (memory_kib p))" "slice 12 16 ?f = be_bytes 4 (unat (iterations p))"
    "slice 16 20 ?f = be_bytes 4 (unat (parallelism p))" "take 5 ?f = smk_magic" "?f ! 5 = smk_version" "?f ! 6 = 0"
    "?f ! 7 = word_of_nat (length salt)"
    by (simp_all add: slice_def smk_magic_def)
  have a: "and_then (accepted_by_argon2 \<lparr>memory_kib = memory_kib p, iterations = iterations p,
      parallelism = parallelism p\<rparr>) within_ceiling = Ok p"
    using cost_accepted assms(4) by (cases p) simp
  show ?thesis
    unfolding smk_layout_parse_def f Let_def s n l
    by (simp add: w a smk_layout_of_def)
qed

lemma smk_layout_parse_exact:
  assumes "smk_layout_parse b = Ok l"
  shows "\<exists>p salt nonce m. b = smk_front p salt nonce @ m \<and> length salt < 256 \<and> length nonce = nonce_len \<and>
    length m = smk_plaintext_len + tag_length \<and> cost_ok p \<and> l = smk_layout_of p salt"
proof -
  let ?f = "take 20 b"
  let ?p = "\<lparr>memory_kib = word_of_nat (from_be (slice 8 12 ?f)), iterations = word_of_nat (from_be (slice 12 16 ?f)),
    parallelism = word_of_nat (from_be (slice 16 20 ?f))\<rparr>"
  let ?n = "unat (?f ! 7)"
  have l20: "20 \<le> length b" and mg: "take 5 ?f = smk_magic" and v: "?f ! 5 = smk_version" and z: "?f ! 6 = 0"
    and len: "length b = 20 + ?n + nonce_len + smk_plaintext_len + tag_length"
    and c: "cost_ok ?p"
    and l: "l = \<lparr>sl_params = ?p, sl_salt = (20, 20 + ?n), sl_nonce = (20 + ?n, 20 + ?n + nonce_len),
      sl_message = (20 + ?n + nonce_len, 20 + ?n + nonce_len + smk_plaintext_len + tag_length)\<rparr>"
    using assms unfolding smk_layout_parse_def Let_def
    by (auto simp only: not_less not_not cost_accepted_then sum.inject sum.distinct fst_conv snd_conv split: if_splits)
  let ?salt = "slice 20 (20 + ?n) b" and ?nonce = "slice (20 + ?n) (20 + ?n + nonce_len) b"
    and ?m = "drop (20 + ?n + nonce_len) b"
  have lf: "length ?f = 20" using l20 by simp
  have be: "be_bytes 4 (unat (word_of_nat (from_be s) :: 32 word)) = s" if "length s = 4" for s
  proof -
    have "from_be s < 2 ^ 32" using from_be_bound [of s] that by simp
    then have "unat (word_of_nat (from_be s) :: 32 word) = from_be s" by (simp add: unat_of_nat)
    then show ?thesis using be_bytes_from_be [of s] that by simp
  qed
  have "slice 0 20 ?f = slice 0 5 ?f @ slice 5 6 ?f @ slice 6 7 ?f @ slice 7 8 ?f @ slice 8 12 ?f @ slice 12 16 ?f @
      slice 16 20 ?f"
    by (simp flip: slice_split)
  then have "?f = slice 0 5 ?f @ slice 5 6 ?f @ slice 6 7 ?f @ slice 7 8 ?f @ slice 8 12 ?f @ slice 12 16 ?f @ slice 16 20 ?f"
    using lf by (simp only: slice_take [of 20]) simp
  moreover have "slice 5 6 ?f = [smk_version]" "slice 6 7 ?f = [0]" "slice 7 8 ?f = [?f ! 7]"
    using lf v z slice_single [of 5 ?f] slice_single [of 6 ?f] slice_single [of 7 ?f] by simp_all
  moreover have "word_of_nat ?n = ?f ! 7" by simp
  moreover have ls: "length ?salt = ?n" "length ?nonce = nonce_len" using len by simp_all
  ultimately have front: "?f @ ?salt @ ?nonce = smk_front ?p ?salt ?nonce"
    using mg lf by (simp add: smk_front_def slice_take be)
  have "b = slice 0 (20 + ?n + nonce_len) b @ ?m" by (simp add: slice_take)
  also have "slice 0 (20 + ?n + nonce_len) b = smk_front ?p ?salt ?nonce"
    unfolding front [symmetric] using slice_split [of 0 20 "20 + ?n + nonce_len" b] slice_split [of 20 "20 + ?n" "20 + ?n + nonce_len" b]
    by (simp add: slice_take)
  finally have "b = smk_front ?p ?salt ?nonce @ ?m" .
  moreover have "length ?salt < 256" unfolding ls(1) by simp
  moreover have "length ?m = smk_plaintext_len + tag_length" using len by simp
  moreover have "l = smk_layout_of ?p ?salt" using l ls by (simp add: smk_layout_of_def)
  ultimately show ?thesis using c ls(2)
    by (intro exI [of _ ?p] exI [of _ ?salt] exI [of _ ?nonce] exI [of _ ?m]) (intro conjI)
qed

lemma smk_layout_of_params [simp]: "sl_params (smk_layout_of p salt) = p"
  by (simp add: smk_layout_of_def)

lemma smk_ranges:
  assumes "length nonce = nonce_len" and "length m = smk_plaintext_len + tag_length"
  shows "in_range (sl_salt (smk_layout_of p salt)) (smk_front p salt nonce @ m) = salt"
    and "in_range (sl_nonce (smk_layout_of p salt)) (smk_front p salt nonce @ m) = nonce"
    and "take (fst (sl_message (smk_layout_of p salt))) (smk_front p salt nonce @ m) = smk_front p salt nonce"
    and "in_range (sl_message (smk_layout_of p salt)) (smk_front p salt nonce @ m) = m"
proof -
  define front where "front = smk_magic @ [smk_version] @ [0] @ [word_of_nat (length salt)] @ be_bytes 4 (unat (memory_kib p)) @
    be_bytes 4 (unat (iterations p)) @ be_bytes 4 (unat (parallelism p))"
  have f: "smk_front p salt nonce = front @ salt @ nonce" by (simp add: smk_front_def front_def)
  have l: "length front = 20" by (simp add: front_def smk_magic_def)
  show "in_range (sl_salt (smk_layout_of p salt)) (smk_front p salt nonce @ m) = salt"
    and "in_range (sl_nonce (smk_layout_of p salt)) (smk_front p salt nonce @ m) = nonce"
    and "take (fst (sl_message (smk_layout_of p salt))) (smk_front p salt nonce @ m) = smk_front p salt nonce"
    and "in_range (sl_message (smk_layout_of p salt)) (smk_front p salt nonce @ m) = m"
    using assms l by (simp_all add: smk_layout_of_def f slice_def)
qed

text \<open>What creating writes: the front, then the key and its epoch sealed under the derived key.\<close>

lemma smk_create_with_iff:
  assumes "aead_laws A" and "length salt < 256" and "length nonce = nonce_len" and "length k = master_key_byte_len"
  shows "smk_create_with G A (Ok salt) (Ok nonce) p passphrase k e = Ok f \<longleftrightarrow>
    cost_ok p \<and> (\<exists>pk m. argon2_derive G p passphrase salt = Ok pk \<and>
      seal A pk nonce (smk_front p salt nonce) (k @ be_bytes 8 (epoch e)) [] = Ok m \<and>
      f = \<lparr>smk_bytes = smk_front p salt nonce @ m, smk_layout = smk_layout_of p salt\<rparr>)"
proof -
  have "smk_from_bytes (smk_front p salt nonce @ m) =
      Ok \<lparr>smk_bytes = smk_front p salt nonce @ m, smk_layout = smk_layout_of p salt\<rparr>"
    if "seal A pk nonce (smk_front p salt nonce) (k @ be_bytes 8 (epoch e)) [] = Ok m" and "cost_ok p" for pk m
  proof -
    have "length m = smk_plaintext_len + tag_length"
      using seal_length [OF assms(1) that(1)] assms(4) by (auto simp: smk_plaintext_len_def)
    from smk_layout_parse_front [OF assms(2,3) this that(2)] show ?thesis by (simp add: smk_from_bytes_def)
  qed
  then show ?thesis
    unfolding smk_create_with_def cost_accepted_then and_then.simps Let_def
    by (auto simp: res_simps) (auto simp: seal_out [of A _ _ _ _ "smk_front p salt nonce"])
qed

text \<open>Unlocking gives back a key exactly when creating would have stored it in this form.\<close>

lemma smk_unlock_sealed:
  assumes "length nonce = nonce_len" and "length m = smk_plaintext_len + tag_length"
  shows "smk_unlock G A \<lparr>smk_bytes = smk_front p salt nonce @ m, smk_layout = smk_layout_of p salt\<rparr> passphrase = Ok u \<longleftrightarrow>
    (\<exists>pk t. argon2_derive G p passphrase salt = Ok pk \<and> open_message A pk nonce (smk_front p salt nonce) m = Ok t \<and>
      epoch_new (from_be (drop master_key_byte_len t)) = Ok (um_epoch u) \<and> um_master_key u = take master_key_byte_len t)"
  unfolding smk_unlock_def Let_def stored_master_key.select_convs smk_ranges [OF assms] smk_layout_of_params
  by (cases u) (auto simp: res_simps)

lemma unlock_iff:
  assumes laws: "aead_laws A" and f: "smk_from_bytes b = Ok f"
  shows "smk_unlock G A f passphrase = Ok u \<longleftrightarrow>
    length (um_master_key u) = master_key_byte_len \<and> epoch_ok (um_epoch u) \<and>
    (\<exists>salt nonce. length salt < 256 \<and> length nonce = nonce_len \<and>
      smk_create_with G A (Ok salt) (Ok nonce) (sl_params (smk_layout f)) passphrase (um_master_key u) (um_epoch u) = Ok f)"
    (is "?L \<longleftrightarrow> ?R")
proof -
  obtain p salt nonce m where b: "b = smk_front p salt nonce @ m" and ls: "length salt < 256" and ln: "length nonce = nonce_len"
    and lm: "length m = smk_plaintext_len + tag_length" and c: "cost_ok p"
    and f': "f = \<lparr>smk_bytes = b, smk_layout = smk_layout_of p salt\<rparr>"
    using f smk_layout_parse_exact [of b] by (auto simp: smk_from_bytes_def res_simps)
  note un = smk_unlock_sealed [OF ln lm, of G A p salt passphrase u, folded b, folded f']
  show ?thesis
  proof
    assume ?L
    then obtain pk t where d: "argon2_derive G p passphrase salt = Ok pk"
      and o: "open_message A pk nonce (smk_front p salt nonce) m = Ok t"
      and e: "epoch_new (from_be (drop master_key_byte_len t)) = Ok (um_epoch u)"
      and k: "um_master_key u = take master_key_byte_len t" using un by blast
    have lt: "length t = master_key_byte_len + 8"
      using open_message_length [OF laws o] lm by (simp add: smk_plaintext_len_def)
    have "be_bytes 8 (epoch (um_epoch u)) = drop master_key_byte_len t"
      using e be_bytes_from_be [of "drop master_key_byte_len t"] lt
      by (cases "um_epoch u") (auto simp: epoch_new_def split: if_splits)
    then have t: "t = um_master_key u @ be_bytes 8 (epoch (um_epoch u))" using k by simp
    have lk: "length (um_master_key u) = master_key_byte_len" using k lt by simp
    moreover have "epoch_ok (um_epoch u)"
      using e by (cases "um_epoch u") (auto simp: epoch_new_def epoch_ok_def split: if_splits)
    moreover have "seal A pk nonce (smk_front p salt nonce) (um_master_key u @ be_bytes 8 (epoch (um_epoch u))) [] = Ok m"
      using o t open_message_iff [OF laws] by simp
    then have "smk_create_with G A (Ok salt) (Ok nonce) p passphrase (um_master_key u) (um_epoch u) = Ok f"
      using smk_create_with_iff [OF laws ls ln lk] c d f' b by blast
    ultimately show ?R using ls ln f' by auto
  next
    assume ?R
    then obtain salt' nonce' where lk: "length (um_master_key u) = master_key_byte_len" and e: "epoch_ok (um_epoch u)"
      and ls': "length salt' < 256" and ln': "length nonce' = nonce_len"
      and cr: "smk_create_with G A (Ok salt') (Ok nonce') p passphrase (um_master_key u) (um_epoch u) = Ok f"
      using f' by auto
    from cr obtain pk m' where d: "argon2_derive G p passphrase salt' = Ok pk"
      and s: "seal A pk nonce' (smk_front p salt' nonce') (um_master_key u @ be_bytes 8 (epoch (um_epoch u))) [] = Ok m'"
      and ff: "f = \<lparr>smk_bytes = smk_front p salt' nonce' @ m', smk_layout = smk_layout_of p salt'\<rparr>"
      using smk_create_with_iff [OF laws ls' ln' lk] by blast
    have lm': "length m' = smk_plaintext_len + tag_length"
      using seal_length [OF laws s] lk by (auto simp: smk_plaintext_len_def)
    have en: "epoch_new (from_be (be_bytes 8 (epoch (um_epoch u)))) = Ok (um_epoch u)"
      using e by (cases "um_epoch u") (simp add: epoch_new_def epoch_ok_def max_format_integer_def)
    have "open_message A pk nonce' (smk_front p salt' nonce') m' =
        Ok (um_master_key u @ be_bytes 8 (epoch (um_epoch u)))"
      using s open_message_iff [OF laws] by simp
    then show ?L
      unfolding ff smk_unlock_sealed [OF ln' lm']
      by (intro exI [of _ pk] exI [of _ "um_master_key u @ be_bytes 8 (epoch (um_epoch u))"]) (simp add: d lk en)
  qed
qed

text \<open>A form is created for every cost a reader accepts, when its salt, nonce and key are there.\<close>

lemma create_unlocks:
  assumes "aead_laws A" and "length salt = smk_salt_len" and "length nonce = nonce_len"
    and "length k = master_key_byte_len" and "epoch_ok e"
    and "smk_create_with G A (Ok salt) (Ok nonce) p passphrase k e = Ok f"
  shows "smk_from_bytes (smk_bytes f) = Ok f" and "sl_params (smk_layout f) = p"
    and "smk_unlock G A f passphrase = Ok \<lparr>um_master_key = k, um_epoch = e\<rparr>"
proof -
  have ls: "length salt < 256" using assms(2) by (simp add: smk_salt_len_def)
  from assms(6) obtain pk m where c: "cost_ok p"
    and s: "seal A pk nonce (smk_front p salt nonce) (k @ be_bytes 8 (epoch e)) [] = Ok m"
    and f: "f = \<lparr>smk_bytes = smk_front p salt nonce @ m, smk_layout = smk_layout_of p salt\<rparr>"
    using smk_create_with_iff [OF assms(1) ls assms(3,4)] by blast
  have "length m = smk_plaintext_len + tag_length"
    using seal_length [OF assms(1) s] assms(4) by (auto simp: smk_plaintext_len_def)
  from smk_layout_parse_front [OF ls assms(3) this c] show b: "smk_from_bytes (smk_bytes f) = Ok f"
    by (simp add: f smk_from_bytes_def)
  show p: "sl_params (smk_layout f) = p" by (simp add: f)
  show "smk_unlock G A f passphrase = Ok \<lparr>um_master_key = k, um_epoch = e\<rparr>"
    unfolding unlock_iff [OF assms(1) b] p unlocked_master_key.select_convs using assms ls by blast
qed

lemma smk_from_bytes_bounds:
  assumes "smk_from_bytes b = Ok f"
  shows "cost_ok (sl_params (smk_layout f))" and "length b \<le> smk_max_len" and "smk_bytes f = b"
proof -
  obtain p salt nonce m where b: "b = smk_front p salt nonce @ m" and ls: "length salt < 256" and ln: "length nonce = nonce_len"
    and lm: "length m = smk_plaintext_len + tag_length" and c: "cost_ok p"
    and f: "f = \<lparr>smk_bytes = b, smk_layout = smk_layout_of p salt\<rparr>"
    using assms smk_layout_parse_exact [of b] by (auto simp: smk_from_bytes_def res_simps)
  show "cost_ok (sl_params (smk_layout f))" using c by (simp add: f)
  show "length b \<le> smk_max_len" using ls ln lm by (simp add: b smk_front_length smk_max_len_def)
  show "smk_bytes f = b" by (simp add: f)
qed

section \<open>The token cache and the envelope\<close>

lemma header_seven:
  assumes "7 \<le> length b" and "take 5 b = mg" and "b ! 5 = v" and "b ! 6 = 0"
  shows "take 7 b = mg @ [v] @ [0 :: byte]"
proof -
  have "slice 0 7 b = slice 0 5 b @ slice 5 6 b @ slice 6 7 b" by (simp flip: slice_split)
  moreover have "slice 5 6 b = [v]" "slice 6 7 b = [0]"
    using assms slice_single [of 5 b] slice_single [of 6 b] by simp_all
  ultimately show ?thesis using assms(2) by (simp add: slice_take)
qed

text \<open>The cache opens to a plaintext exactly when sealing it with the nonce at its front gives the file.\<close>

lemma token_cache_open_iff:
  assumes "aead_laws A"
  shows "token_cache_open A b k = Ok t \<longleftrightarrow>
    (\<exists>nonce. length nonce = nonce_len \<and> token_cache_seal A (Ok nonce) t k = Ok b)"
proof
  assume "token_cache_open A b k = Ok t"
  then obtain mg: "take 5 b = tc_magic" and v: "b ! 5 = tc_version" and z: "b ! 6 = 0"
    and l: "tc_header_len + tag_length \<le> length b"
    and o: "open_message A k (drop 7 (take tc_header_len b)) (take tc_header_len b) (drop tc_header_len b) = Ok t"
    by (auto simp: token_cache_open_def tc_layout_parse_def Let_def res_simps slice_def tc_header_len_def
        split: if_splits)
  let ?nonce = "drop 7 (take tc_header_len b)"
  have l7: "7 \<le> length b" using l by (simp add: tc_header_len_def)
  have "take 7 (take tc_header_len b) @ ?nonce = take tc_header_len b" by (rule append_take_drop_id)
  then have front: "tc_magic @ [tc_version] @ [0] @ ?nonce = take tc_header_len b"
    using header_seven [OF l7 mg v z] by (simp add: tc_header_len_def)
  have "length ?nonce = nonce_len" using l by (simp add: tc_header_len_def)
  moreover have "seal A k ?nonce (take tc_header_len b) t (take tc_header_len b) = Ok b"
    using o open_message_iff [OF assms] seal_out [of A k ?nonce "take tc_header_len b" t "take tc_header_len b" b] by simp
  ultimately show "\<exists>nonce. length nonce = nonce_len \<and> token_cache_seal A (Ok nonce) t k = Ok b"
    unfolding token_cache_seal_def and_then.simps Let_def using front by metis
next
  assume "\<exists>nonce. length nonce = nonce_len \<and> token_cache_seal A (Ok nonce) t k = Ok b"
  then obtain nonce where l: "length nonce = nonce_len"
    and s: "seal A k nonce (tc_magic @ [tc_version] @ [0] @ nonce) t (tc_magic @ [tc_version] @ [0] @ nonce) = Ok b"
    by (auto simp: token_cache_seal_def Let_def)
  from seal_length [OF assms s] obtain m where m: "b = (tc_magic @ [tc_version] @ [0] @ nonce) @ m"
    "length m = length t + tag_length" "open_message A k nonce (tc_magic @ [tc_version] @ [0] @ nonce) m = Ok t" by blast
  then show "token_cache_open A b k = Ok t"
    using l by (simp add: token_cache_open_def tc_layout_parse_def Let_def tc_header_len_def nonce_len_def slice_def tc_magic_def)
qed

text \<open>The envelope opens for a name to a key exactly when wrapping that key for that name gives it.\<close>

lemma account_envelope_iff:
  assumes "aead_laws A"
  shows "decode_account_cache_key_envelope A b key name = Ok ck \<longleftrightarrow>
    length (account_key_bytes ck) = key_length \<and>
    (\<exists>nonce. length nonce = nonce_len \<and> encode_account_cache_key_envelope A (Ok nonce) ck key name = Ok b)"
proof
  assume "decode_account_cache_key_envelope A b key name = Ok ck"
  then obtain k where p: "account_wrap_key key = Ok k" and mg: "take 5 b = ak_magic" and v: "b ! 5 = ak_version" and z: "b ! 6 = 0"
    and l: "length b = account_cache_key_envelope_len"
    and o: "open_message A k (slice 7 ak_header_len b) (account_associated_data (take ak_header_len b) name)
      (drop ak_header_len b) = Ok (account_key_bytes ck)"
    by (auto simp: decode_account_cache_key_envelope_def Let_def res_simps split: if_splits)
  let ?nonce = "slice 7 ak_header_len b"
  have l7: "7 \<le> length b" using l by (simp add: account_cache_key_envelope_len_def ak_header_len_def)
  have "take ak_header_len b = take 7 b @ ?nonce"
    using slice_split [of 0 7 ak_header_len b] by (simp add: slice_take ak_header_len_def)
  then have front: "ak_magic @ [ak_version] @ [0] @ ?nonce = take ak_header_len b"
    using header_seven [OF l7 mg v z] by simp
  have "length ?nonce = nonce_len" using l by (simp add: account_cache_key_envelope_len_def ak_header_len_def)
  moreover have "seal A k ?nonce (account_associated_data (take ak_header_len b) name) (account_key_bytes ck)
      (take ak_header_len b) = Ok b"
    using o open_message_iff [OF assms] seal_out [of A k ?nonce _ _ "take ak_header_len b" b] by simp
  then have "encode_account_cache_key_envelope A (Ok ?nonce) ck key name = Ok b"
    unfolding encode_account_cache_key_envelope_def p and_then.simps Let_def front .
  moreover have "length (account_key_bytes ck) = key_length"
    using open_message_length [OF assms o] l by (simp add: account_cache_key_envelope_len_def)
  ultimately show "length (account_key_bytes ck) = key_length \<and>
    (\<exists>nonce. length nonce = nonce_len \<and> encode_account_cache_key_envelope A (Ok nonce) ck key name = Ok b)" by blast
next
  assume "length (account_key_bytes ck) = key_length \<and>
    (\<exists>nonce. length nonce = nonce_len \<and> encode_account_cache_key_envelope A (Ok nonce) ck key name = Ok b)"
  then obtain nonce k where lk: "length (account_key_bytes ck) = key_length" and l: "length nonce = nonce_len"
    and p: "account_wrap_key key = Ok k"
    and s: "seal A k nonce (account_associated_data (ak_magic @ [ak_version] @ [0] @ nonce) name) (account_key_bytes ck)
      (ak_magic @ [ak_version] @ [0] @ nonce) = Ok b"
    by (auto simp: encode_account_cache_key_envelope_def res_simps Let_def)
  from seal_length [OF assms s] obtain m where m: "b = (ak_magic @ [ak_version] @ [0] @ nonce) @ m"
    "length m = length (account_key_bytes ck) + tag_length"
    "open_message A k nonce (account_associated_data (ak_magic @ [ak_version] @ [0] @ nonce) name) m = Ok (account_key_bytes ck)"
    by blast
  have parts: "length b = account_cache_key_envelope_len" "take 5 b = ak_magic" "b ! 5 = ak_version" "b ! 6 = 0"
    "slice 7 ak_header_len b = nonce" "take ak_header_len b = ak_magic @ [ak_version] @ [0] @ nonce"
    "drop ak_header_len b = m"
    using l lk m(2) by (simp_all add: m(1) nonce_len_def ak_header_len_def slice_def ak_magic_def account_cache_key_envelope_len_def)
  show "decode_account_cache_key_envelope A b key name = Ok ck"
    unfolding decode_account_cache_key_envelope_def p and_then.simps Let_def parts m(3) by simp
qed

text \<open>The envelope spelled out: the name is authenticated with the front and is not in the bytes.\<close>

lemma account_envelope_bytes:
  "encode_account_cache_key_envelope A (Ok nonce) ck key name = Ok b \<longleftrightarrow>
    pk_purpose key = AccountCacheWrap \<and>
    (\<exists>m. b = ak_magic @ [ak_version, 0] @ nonce @ m \<and>
       seal A (pk_bytes key) nonce (ak_magic @ [ak_version, 0] @ nonce @ utf8_bytes name) (account_key_bytes ck) [] = Ok m)"
proof -
  let ?front = "ak_magic @ [ak_version] @ [0] @ nonce"
  have "encode_account_cache_key_envelope A (Ok nonce) ck key name = Ok b \<longleftrightarrow>
      pk_purpose key = AccountCacheWrap \<and>
      seal A (pk_bytes key) nonce (?front @ utf8_bytes name) (account_key_bytes ck) ?front = Ok b"
    by (auto simp: encode_account_cache_key_envelope_def account_wrap_key_def account_associated_data_def res_simps Let_def)
  then show ?thesis
    unfolding seal_out [of A _ _ _ _ ?front] by auto
qed

lemma argon2_initial_ok: "cost_ok argon2_initial"
  by (simp add: cost_ok_def argon2_initial_def)

end
