(* ===== verification/Rebase_Outcome.thy ===== *)
theory Rebase_Outcome
  imports Commit_Rebase
begin

text \<open>
  What \<open>commit/rebase\<close> makes of a batch, told on the Library instead of the Index. \<open>rebased\<close> is the specification: the
  renames follow what stands at the name they were prepared against, an addition's Entry takes over the path the renames
  of the Entry it supersedes lead to, and the batch is turned down exactly where one of its changes and a record since
  write one Entry or one path. \<open>rebase\<close> is shown to be that and nothing else.
\<close>

section \<open>An action that only answers\<close>

definition settles :: "('w, 'e, 'a) action \<Rightarrow> 'w \<Rightarrow> ('a \<Rightarrow> bool) \<Rightarrow> bool" where
  "settles m w Q \<longleftrightarrow> (\<exists>r. m w = Some (w, r) \<and> (\<forall>x. r = Inr x \<longleftrightarrow> Q x))"

lemma settles_iff: "settles m w Q \<Longrightarrow> (\<And>x. Q x \<longleftrightarrow> R x) \<Longrightarrow> settles m w R"
  by (simp add: settles_def)

lemma settles_gives: "settles (gives x) w (\<lambda>y. y = x)"
  by (auto simp: settles_def yields_runs)

lemma settles_fails: "settles (fails e) w (\<lambda>_. False)"
  by (auto simp: settles_def yields_runs)

lemma settles_yields: "settles (yields r) w (\<lambda>x. r = Inr x)"
  by (auto simp: settles_def yields_runs)

lemma settles_act:
  assumes "settles m w Q" and "\<And>x. Q x \<Longrightarrow> settles (f x) w (R x)"
  shows "settles (act m f) w (\<lambda>y. \<exists>x. Q x \<and> R x y)"
proof -
  obtain r where m: "m w = Some (w, r)" "\<And>x. r = Inr x \<longleftrightarrow> Q x" using assms(1) by (auto simp: settles_def)
  show ?thesis
  proof (cases r)
    case (Inl e)
    then show ?thesis using m by (auto simp: settles_def act_run_Err)
  next
    case (Inr x)
    have q: "Q x" using m(2) [of x] Inr by simp
    have one: "y = x" if "Q y" for y using m(2) [of y] that Inr by simp
    obtain s where s: "f x w = Some (w, s)" "\<And>y. s = Inr y \<longleftrightarrow> R x y"
      using assms(2) [OF q] by (auto simp: settles_def)
    have "act m f w = Some (w, s)" using m(1) Inr s(1) by (simp add: act_run)
    moreover have "s = Inr y \<longleftrightarrow> (\<exists>x. Q x \<and> R x y)" for y using s(2) one q by blast
    ultimately show ?thesis unfolding settles_def by blast
  qed
qed

lemma settles_number_at: "i < 2 ^ 32 \<Longrightarrow> settles (f (EntryNumber i)) w Q \<Longrightarrow> settles (number_at i f) w Q"
proof -
  assume "i < 2 ^ 32"
  then have "at_position i = Inr (EntryNumber i)" by (simp add: at_position_Ok_iff)
  then show "settles (f (EntryNumber i)) w Q \<Longrightarrow> settles (number_at i f) w Q" by (simp add: number_at_def)
qed

lemma settles_unit: "settles (gives ()) w (\<lambda>_. b) \<longleftrightarrow> b" "settles (fails e :: ('w, 'e, unit) action) w (\<lambda>_. b) \<longleftrightarrow> \<not> b"
  by (auto simp: settles_def yields_runs)

text \<open>A loop that checks, and one that collects.\<close>

lemma settles_checks:
  assumes "\<And>x. x \<in> set xs \<Longrightarrow> settles (h x) w (\<lambda>_. Q x)"
  shows "settles (act_fold (\<lambda>_. h) () xs) w (\<lambda>_. \<forall>x \<in> set xs. Q x)"
  using assms
proof (induction xs)
  case Nil
  then show ?case using settles_gives [of "()" w] by (simp add: settles_def)
next
  case (Cons x xs)
  have "settles (act_fold (\<lambda>_. h) () (x # xs)) w (\<lambda>_. \<exists>u :: unit. Q x \<and> (\<forall>y \<in> set xs. Q y))"
    unfolding act_fold.simps by (rule settles_act) (use Cons in simp_all)
  then show ?case by (rule settles_iff) simp
qed

lemma settles_collects:
  assumes "\<And>x. x \<in> set xs \<Longrightarrow> settles (h x) w (Q x)"
  shows "settles (act_fold (\<lambda>done x. act (h x) (\<lambda>y. gives (done @ [y]))) done xs) w
    (\<lambda>zs. \<exists>ys. zs = done @ ys \<and> list_all2 Q xs ys)"
  using assms
proof (induction xs arbitrary: "done")
  case Nil
  show ?case using settles_gives [of "done" w] by (simp add: settles_def)
next
  case (Cons x xs)
  have "settles (act (h x) (\<lambda>y. gives (done @ [y]))) w (\<lambda>d. \<exists>y. Q x y \<and> d = done @ [y])"
    by (rule settles_act) (use Cons.prems in \<open>simp_all add: settles_gives\<close>)
  then have "settles (act_fold (\<lambda>done x. act (h x) (\<lambda>y. gives (done @ [y]))) done (x # xs)) w
      (\<lambda>zs. \<exists>d. (\<exists>y. Q x y \<and> d = done @ [y]) \<and> (\<exists>ys. zs = d @ ys \<and> list_all2 Q xs ys))"
    unfolding act_fold.simps by (rule settles_act) (use Cons in simp)
  then show ?case by (rule settles_iff) (fastforce simp: list_all2_Cons1)
qed

section \<open>The records since, on the Library\<close>

text \<open>A Library in which a path or a reference names one Entry at most.\<close>

definition library_wf :: "library \<Rightarrow> bool" where
  "library_wf L \<longleftrightarrow> inj_on loc_path (lb_entries L) \<and> inj_on entry_ref_of (lb_entries L)"

fun advanced :: "library \<Rightarrow> journal_record list \<Rightarrow> library" where
  "advanced L [] = L"
| "advanced L (r # rs) = advanced (advance r L) rs"

fun fits_all :: "library \<Rightarrow> journal_record list \<Rightarrow> bool" where
  "fits_all L [] \<longleftrightarrow> library_wf L"
| "fits_all L (r # rs) \<longleftrightarrow> library_wf L \<and> record_fits r L \<and> fits_all (advance r L) rs"

text \<open>The Entry of \<open>L\<close> that stands at a path, and the record that leaves one standing there.\<close>

definition stands :: "library \<Rightarrow> entry_path \<Rightarrow> entry_ref \<Rightarrow> bool" where
  "stands L p x \<longleftrightarrow> (\<exists>l \<in> lb_entries L. loc_path l = p \<and> entry_ref_of l = x)"

definition removes :: "journal_record \<Rightarrow> entry_ref \<Rightarrow> bool" where
  "removes r x \<longleftrightarrow> fst x \<in> set (jr_removals r)"

definition renames :: "journal_record \<Rightarrow> entry_ref \<Rightarrow> bool" where
  "renames r x \<longleftrightarrow> (\<exists>n \<in> set (jr_renames r). renamed_by n = x)"

definition adds_at :: "journal_record \<Rightarrow> entry_path \<Rightarrow> bool" where
  "adds_at r p \<longleftrightarrow> (\<exists>a \<in> set (jr_additions r). \<exists>e \<in> set (add_entries a). path e = p)"

text \<open>Through every record of \<open>rs\<close> the Entry at \<open>p\<close> is not renamed, and one removed is replaced at \<open>p\<close>.\<close>

fun held_at :: "library \<Rightarrow> journal_record list \<Rightarrow> entry_path \<Rightarrow> bool" where
  "held_at L [] p \<longleftrightarrow> True"
| "held_at L (r # rs) p \<longleftrightarrow>
     (\<exists>x. stands L p x \<and> \<not> renames r x \<and> (removes r x \<longrightarrow> adds_at r p)) \<and> held_at (advance r L) rs p"

section \<open>Following\<close>

lemma stands_unique: "library_wf L \<Longrightarrow> stands L p x \<Longrightarrow> stands L p y \<Longrightarrow> x = y"
  unfolding library_wf_def stands_def inj_on_def by metis

lemma added_at_settles:
  assumes "record_ok r"
  shows "settles (added_at r p) w (\<lambda>res. res = (case find_map (\<lambda>a. map_option (\<lambda>i. (a, i)) (position (\<lambda>e. path e = p) (add_entries a)))
      (jr_additions r) of None \<Rightarrow> None | Some (a, i) \<Rightarrow> Some (cid (add_container a), EntryNumber i)))"
proof (cases "find_map (\<lambda>a. map_option (\<lambda>i. (a, i)) (position (\<lambda>e. path e = p) (add_entries a))) (jr_additions r)")
  case (Some x)
  obtain a i where x: "x = (a, i)" by (cases x)
  have a: "a \<in> set (jr_additions r)" and i: "position (\<lambda>e. path e = p) (add_entries a) = Some i"
    using find_map_Some [OF Some] x by auto
  have "length (add_entries a) \<le> 2 ^ 32" using assms a by (simp add: record_ok_def addition_ok_iff)
  then have "i < 2 ^ 32" using position_Some [OF i] by simp
  then show ?thesis unfolding added_at_def Some x by (simp add: settles_number_at settles_gives)
qed (simp add: added_at_def settles_gives)

lemma position_None: "position q xs = None \<longleftrightarrow> (\<forall>x \<in> set xs. \<not> q x)"
  by (induction xs) auto

lemma find_map_None: "find_map f xs = None \<longleftrightarrow> (\<forall>x \<in> set xs. f x = None)"
  by (induction xs) (auto split: option.splits)

lemma located_nth:
  assumes "addition_ok a" and "i < length (add_entries a)"
  shows "\<exists>l \<in> set (located a). loc_path l = path (add_entries a ! i) \<and> entry_ref_of l = (cid (add_container a), EntryNumber i)"
proof -
  obtain ls where ls: "into_locations a = Some (add_container a, ls)" "map loc_entry ls = add_entries a"
      "\<forall>i < length ls. loc_number (ls ! i) = EntryNumber i \<and> loc_container (ls ! i) = cid (add_container a)"
    using into_locations_total [OF assms(1)] by metis
  then have n: "i < length ls" using assms(2) by (metis length_map)
  then have "loc_path (ls ! i) = path (add_entries a ! i)" using ls(2) by (simp add: loc_path_def flip: ls(2))
  moreover have "located a = ls" using ls(1) by (simp add: located_def)
  ultimately show ?thesis using ls(3) n nth_mem [OF n] by (auto simp: loc_key_def)
qed

lemma advance_stays:
  assumes "stands L p x" and "\<not> renames r x" and "\<not> removes r x"
  shows "stands (advance r L) p x"
proof -
  obtain l where l: "l \<in> lb_entries L" "loc_path l = p" "loc_key l = x" using assms(1) by (auto simp: stands_def)
  then have "l \<in> entries_kept r (lb_entries L)" using assms(3) by (auto simp: entries_kept_def removes_def loc_key_def)
  moreover have "moved_by (jr_renames r) l = l" using assms(2) l(3) by (intro moved_by_none) (auto simp: renames_def)
  ultimately have "l \<in> entries_after r (lb_entries L)" unfolding entries_after_def by (metis UnI1 imageI)
  then show ?thesis using l by (auto simp: stands_def advance_def)
qed

lemma advance_adds:
  assumes "record_ok r" and "a \<in> set (jr_additions r)" and "i < length (add_entries a)"
  shows "stands (advance r L) (path (add_entries a ! i)) (cid (add_container a), EntryNumber i)"
proof -
  have "addition_ok a" using assms by (simp add: record_ok_def)
  from located_nth [OF this assms(3)] assms(2) show ?thesis
    by (auto simp: stands_def advance_def entries_after_def)
qed

lemma follow_record_settles:
  assumes fit: "record_fits r L" and wf: "library_wf L" "library_wf (advance r L)"
    and n: "stands L (pr_from n) (pr_entry n)"
  shows "settles (follow_record n r) w (\<lambda>m.
    (\<exists>x. stands L (pr_from n) x \<and> \<not> renames r x \<and> (removes r x \<longrightarrow> adds_at r (pr_from n))) \<and>
    (\<exists>y. stands (advance r L) (pr_from n) y \<and> m = n\<lparr>pr_entry := y\<rparr>))" (is "settles _ _ ?Q")
proof -
  let ?p = "pr_from n" and ?x = "pr_entry n"
  have ok: "record_ok r" using fit by (simp add: record_fits_def)
  have here: "x = ?x" if "stands L ?p x" for x using stands_unique [OF wf(1) that n] .
  have there: "?Q m \<longleftrightarrow> m = n\<lparr>pr_entry := y\<rparr>"
    if "stands (advance r L) ?p y" "\<not> renames r ?x" "removes r ?x \<longrightarrow> adds_at r ?p" for y m
    using stands_unique [OF wf(2)] that n by blast
  have rn: "list_ex (\<lambda>other. renamed_by other = ?x) (jr_renames r) \<longleftrightarrow> renames r ?x"
    by (auto simp: list_ex_iff renames_def)
  have "sorted_wrt (\<lambda>x y. x < y) (jr_removals r)" using ok by (simp add: record_ok_def collections_ok_def)
  from binary_search_by_key_None_iff [OF this] have rm: "binary_search_by_key (\<lambda>c. c) (jr_removals r) (fst ?x) \<noteq> None \<longleftrightarrow> removes r ?x"
    by (auto simp: removes_def)
  note step = follow_record_def [of n r, unfolded Let_def rn rm]
  show ?thesis
  proof (cases "renames r ?x")
    case True
    then have "\<not> ?Q m" for m using here by blast
    then show ?thesis unfolding step if_P [OF True] by (intro settles_iff [OF settles_fails]) blast
  next
    case kept: False
    show ?thesis
    proof (cases "removes r ?x")
      case False
      then show ?thesis unfolding step using kept there [OF advance_stays [OF n kept False] kept]
        by (simp, intro settles_iff [OF settles_gives]) auto
    next
      case True
      let ?find = "find_map (\<lambda>a. map_option (\<lambda>i. (a, i)) (position (\<lambda>e. path e = ?p) (add_entries a))) (jr_additions r)"
      let ?Q' = "\<lambda>m. \<exists>s. s = (case ?find of None \<Rightarrow> None | Some (a, i) \<Rightarrow> Some (cid (add_container a), EntryNumber i)) \<and>
          (case s of None \<Rightarrow> False | Some y \<Rightarrow> m = n\<lparr>pr_entry := y\<rparr>)"
      have run: "settles (follow_record n r) w ?Q'"
        unfolding step if_not_P [OF kept] if_P [OF True]
        by (rule settles_act [OF added_at_settles [OF ok],
              where R = "\<lambda>s m. case s of None \<Rightarrow> False | Some y \<Rightarrow> m = n\<lparr>pr_entry := y\<rparr>"])
          (auto intro: settles_fails settles_gives split: option.split)
      show ?thesis
      proof (rule settles_iff [OF run])
        fix m show "?Q' m \<longleftrightarrow> ?Q m"
        proof (cases ?find)
          case None
          then have "\<not> adds_at r ?p" by (auto simp: find_map_None position_None adds_at_def)
          then show ?thesis using None True here by auto
        next
          case (Some f)
          obtain a i where f: "f = (a, i)" by (cases f)
          have a: "a \<in> set (jr_additions r)" and i: "position (\<lambda>e. path e = ?p) (add_entries a) = Some i"
            using find_map_Some [OF Some] f by auto
          note i = position_Some [OF i]
          have "adds_at r ?p" using a i nth_mem unfolding adds_at_def by blast
          moreover have "stands (advance r L) ?p (cid (add_container a), EntryNumber i)"
            using advance_adds [OF ok a, of i L] i by simp
          ultimately show ?thesis using there [OF _ kept] Some f by simp
        qed
      qed
    qed
  qed
qed

lemma fits_all_wf: "fits_all L rs \<Longrightarrow> library_wf L"
  by (cases rs) auto

lemma follow_settles:
  assumes "fits_all L rs" and "stands L (pr_from n) (pr_entry n)"
  shows "settles (act_fold follow_record n rs) w (\<lambda>m. held_at L rs (pr_from n) \<and>
    (\<exists>y. stands (advanced L rs) (pr_from n) y \<and> m = n\<lparr>pr_entry := y\<rparr>))"
  using assms
proof (induction rs arbitrary: L n)
  case Nil
  have "stands L (pr_from n) y \<longleftrightarrow> y = pr_entry n" for y
    using stands_unique [of L "pr_from n" y "pr_entry n"] Nil by auto
  then show ?case using settles_gives [of n w] by simp
next
  case (Cons r rs)
  have fit: "record_fits r L" "library_wf L" "library_wf (advance r L)" "fits_all (advance r L) rs"
    using Cons.prems(1) fits_all_wf by auto
  let ?Q = "\<lambda>m. (\<exists>x. stands L (pr_from n) x \<and> \<not> renames r x \<and> (removes r x \<longrightarrow> adds_at r (pr_from n))) \<and>
    (\<exists>y. stands (advance r L) (pr_from n) y \<and> m = n\<lparr>pr_entry := y\<rparr>)"
  have "settles (act_fold follow_record n (r # rs)) w (\<lambda>m. \<exists>k. ?Q k \<and> held_at (advance r L) rs (pr_from k) \<and>
      (\<exists>y. stands (advanced (advance r L) rs) (pr_from k) y \<and> m = k\<lparr>pr_entry := y\<rparr>))"
    unfolding act_fold.simps
  proof (rule settles_act [OF follow_record_settles [OF fit(1,2,3) Cons.prems(2)]])
    fix k assume "?Q k"
    then have "stands (advance r L) (pr_from k) (pr_entry k)" by auto
    then show "settles (act_fold follow_record k rs) w (\<lambda>m. held_at (advance r L) rs (pr_from k) \<and>
        (\<exists>y. stands (advanced (advance r L) rs) (pr_from k) y \<and> m = k\<lparr>pr_entry := y\<rparr>))"
      by (rule Cons.IH [OF fit(4)])
  qed
  then show ?case
  proof (rule settles_iff)
    have stays: "\<exists>y. stands (advance r L) (pr_from n) y"
      if "stands L (pr_from n) x" "\<not> renames r x" "removes r x \<longrightarrow> adds_at r (pr_from n)" for x
    proof (cases "removes r x")
      case True
      then have "adds_at r (pr_from n)" using that(3) by blast
      then obtain a e where "a \<in> set (jr_additions r)" "e \<in> set (add_entries a)" "path e = pr_from n"
        unfolding adds_at_def by blast
      then show ?thesis using advance_adds [of r a _ L] fit(1) unfolding in_set_conv_nth record_fits_def by metis
    qed (use advance_stays that in blast)
    fix m
    show "(\<exists>k. ?Q k \<and> held_at (advance r L) rs (pr_from k) \<and>
        (\<exists>y. stands (advanced (advance r L) rs) (pr_from k) y \<and> m = k\<lparr>pr_entry := y\<rparr>)) \<longleftrightarrow>
      held_at L (r # rs) (pr_from n) \<and> (\<exists>y. stands (advanced L (r # rs)) (pr_from n) y \<and> m = n\<lparr>pr_entry := y\<rparr>)"
      using stays by fastforce
  qed
qed

section \<open>Taking over\<close>

text \<open>Where the renames of \<open>rs\<close> leave the Entry \<open>x\<close> that stood at \<open>p\<close>.\<close>

definition path_after :: "journal_record list \<Rightarrow> entry_ref \<Rightarrow> entry_path \<Rightarrow> entry_path" where
  "path_after rs x p = fold (\<lambda>n p. if renamed_by n = x then ren_path n else p) (concat (map jr_renames rs)) p"

definition carried_entry :: "journal_record list \<Rightarrow> prepared_addition \<Rightarrow> nat \<Rightarrow> entry_metadata \<Rightarrow> entry_metadata" where
  "carried_entry rs p i e =
     (case bt_get (pa_supersedes p) (EntryNumber i) of None \<Rightarrow> e | Some x \<Rightarrow> e\<lparr>path := path_after rs x (path e)\<rparr>)"

definition carried_entries :: "journal_record list \<Rightarrow> prepared_addition \<Rightarrow> entry_metadata list" where
  "carried_entries rs p = map (\<lambda>(i, e). carried_entry rs p i e) (enumerate 0 (add_entries (pa_addition p)))"

definition carried_addition :: "journal_record list \<Rightarrow> prepared_addition \<Rightarrow> prepared_addition" where
  "carried_addition rs p = p\<lparr>pa_addition := (pa_addition p)\<lparr>add_entries := carried_entries rs p\<rparr>\<rparr>"

lemma final_paths_eq: "(case bt_get (final_paths rs) x of Some q \<Rightarrow> q | None \<Rightarrow> p) = path_after rs x p"
proof -
  have "(case map_of (rev (map (\<lambda>r. (renamed_by r, ren_path r)) ns)) x of Some q \<Rightarrow> q | None \<Rightarrow> p) =
      fold (\<lambda>n p. if renamed_by n = x then ren_path n else p) ns p" for ns
    by (induction ns rule: rev_induct) auto
  then show ?thesis unfolding path_after_def final_paths_def bt_get_collect .
qed

lemma final_paths_None: "bt_get (final_paths rs) x = None \<Longrightarrow> path_after rs x p = p"
  using final_paths_eq [where rs = rs and x = x and p = p] by simp

lemma final_paths_Some: "bt_get (final_paths rs) x = Some q \<Longrightarrow> path_after rs x p = q"
  using final_paths_eq [where rs = rs and x = x and p = p] by simp

lemma carried_path:
  "(case Option.bind (bt_get (pa_supersedes p) (EntryNumber i)) (bt_get (final_paths rs)) of Some q \<Rightarrow> q | None \<Rightarrow> path e) =
   path (carried_entry rs p i e)"
  by (cases "bt_get (pa_supersedes p) (EntryNumber i)") (simp_all add: carried_entry_def final_paths_eq)

text \<open>The loop of \<open>take_over\<close> updates each superseding Entry once.\<close>

lemma updates_nth:
  assumes "distinct (map fst fs)"
  shows "length (fold (\<lambda>(i, to) es. if i < length es then es[i := f (es ! i) to] else es) fs es) = length es"
    and "k < length es \<Longrightarrow> fold (\<lambda>(i, to) es. if i < length es then es[i := f (es ! i) to] else es) fs es ! k =
      (case map_of fs k of None \<Rightarrow> es ! k | Some to \<Rightarrow> f (es ! k) to)"
proof -
  have "length (fold (\<lambda>(i, to) es. if i < length es then es[i := f (es ! i) to] else es) fs es) = length es \<and>
    (k < length es \<longrightarrow> fold (\<lambda>(i, to) es. if i < length es then es[i := f (es ! i) to] else es) fs es ! k =
      (case map_of fs k of None \<Rightarrow> es ! k | Some to \<Rightarrow> f (es ! k) to))"
    using assms
  proof (induction fs arbitrary: es)
    case (Cons x fs)
    obtain i to where x: "x = (i, to)" by (cases x)
    have "map_of fs i = None" using Cons.prems by (simp add: x map_of_eq_None_iff)
    then show ?case using Cons.IH Cons.prems by (auto simp: x nth_list_update split: option.split)
  qed simp
  then show "length (fold (\<lambda>(i, to) es. if i < length es then es[i := f (es ! i) to] else es) fs es) = length es"
    and "k < length es \<Longrightarrow> fold (\<lambda>(i, to) es. if i < length es then es[i := f (es ! i) to] else es) fs es ! k =
      (case map_of fs k of None \<Rightarrow> es ! k | Some to \<Rightarrow> f (es ! k) to)" by blast+
qed

abbreviation followed_paths :: "journal_record list \<Rightarrow> prepared_addition \<Rightarrow> (nat \<times> entry_path) list" where
  "followed_paths rs p \<equiv>
     List.map_filter (\<lambda>(n, x). map_option (\<lambda>to. (number n, to)) (bt_get (final_paths rs) x)) (pa_supersedes p)"

lemma followed_paths_get:
  assumes "bt_inv (pa_supersedes p)"
  shows "distinct (map fst (followed_paths rs p))"
    and "map_of (followed_paths rs p) i = Option.bind (bt_get (pa_supersedes p) (EntryNumber i)) (bt_get (final_paths rs))"
proof -
  have d: "distinct (map fst (pa_supersedes p))" using assms by (simp add: bt_inv_def strict_sorted_iff)
  have all: "distinct (map fst (List.map_filter (\<lambda>(n, x). map_option (\<lambda>to. (number n, to)) (g x)) kvs)) \<and>
      map_of (List.map_filter (\<lambda>(n, x). map_option (\<lambda>to. (number n, to)) (g x)) kvs) i =
        Option.bind (map_of kvs (EntryNumber i)) g"
    if "distinct (map fst kvs)" for kvs :: "(entry_number \<times> entry_ref) list" and g :: "entry_ref \<Rightarrow> entry_path option"
    using that
  proof (induction kvs)
    case (Cons kv kvs)
    obtain n x where kv: "kv = (n, x)" by (cases kv)
    have n: "n \<notin> fst ` set kvs" using Cons.prems by (simp add: kv)
    have "number n \<notin> fst ` set (List.map_filter (\<lambda>(n, x). map_option (\<lambda>to. (number n, to)) (g x)) kvs)"
      using n by (force simp: set_map_filter entry_number.expand)
    moreover have "map_of kvs n = None" using n by (simp add: map_of_eq_None_iff)
    ultimately show ?case using Cons by (cases n) (auto simp: kv List.map_filter_simps split: option.splits)
  qed (simp add: List.map_filter_simps)
  show "distinct (map fst (followed_paths rs p))" using all [OF d] by blast
  show "map_of (followed_paths rs p) i = Option.bind (bt_get (pa_supersedes p) (EntryNumber i)) (bt_get (final_paths rs))"
    using all [OF d, of "bt_get (final_paths rs)"] unfolding bt_get_def by blast
qed

lemma take_over_addition_iff:
  assumes inv: "bt_inv (pa_supersedes p)" and ok: "addition_ok (pa_addition p)"
  shows "take_over_addition (final_paths rs) p = Inr q \<longleftrightarrow>
    q = carried_addition rs p \<and> distinct (map path (carried_entries rs p))"
proof -
  let ?a = "pa_addition p" and ?fs = "followed_paths rs p"
  let ?es = "fold (\<lambda>(i, to) es. if i < length es then es[i := (es ! i)\<lparr>path := to\<rparr>] else es) ?fs (add_entries ?a)"
  note up = updates_nth [OF followed_paths_get(1) [OF inv, of rs], where f = "\<lambda>e to. e\<lparr>path := to\<rparr>"]
  have same: "?es = carried_entries rs p"
  proof (rule nth_equalityI)
    show "length ?es = length (carried_entries rs p)" unfolding up(1) by (simp add: carried_entries_def)
    fix k assume "k < length ?es"
    then have k: "k < length (add_entries ?a)" unfolding up(1) .
    show "?es ! k = carried_entries rs p ! k"
      using k up(2) [OF k] followed_paths_get(2) [OF inv, of rs k]
      by (auto simp: carried_entries_def carried_entry_def nth_enumerate_eq final_paths_None final_paths_Some
          split: option.splits dest: final_paths_None final_paths_Some)
  qed
  have tiles: "tiled_from m (map (\<lambda>(i, e). carried_entry rs p i e) (enumerate j es)) \<longleftrightarrow> tiled_from m es" for m j es
    by (induction es arbitrary: m j) (auto simp: carried_entry_def split: option.split)
  have es: "length (carried_entries rs p) = length (add_entries ?a)" by (simp add: carried_entries_def)
  then have "carried_entries rs p = [] \<longleftrightarrow> add_entries ?a = []" by (metis length_0_conv)
  note es = es this
  have new: "addition_new (add_container ?a) (carried_entries rs p) (add_deposits ?a) = Inr a \<longleftrightarrow>
      a = ?a\<lparr>add_entries := carried_entries rs p\<rparr> \<and> distinct (map path (carried_entries rs p))" for a
    using ok tiles [of 0 0 "add_entries ?a"]
    by (auto simp: addition_new_Ok_iff addition_ok_iff es carried_entries_def [symmetric])
  show ?thesis
  proof (cases "?fs = []")
    case True
    then have e: "carried_entries rs p = add_entries ?a" using same by simp
    then have "carried_addition rs p = p" by (simp add: carried_addition_def)
    moreover have "distinct (map path (carried_entries rs p))" using ok by (simp add: e addition_ok_iff)
    ultimately show ?thesis using True by (auto simp: take_over_addition_def)
  next
    case False
    then have "take_over_addition (final_paths rs) p = map_err UnwritableControlValue
        (and_then (addition_new (add_container ?a) (carried_entries rs p) (add_deposits ?a)) (\<lambda>a. Ok (p\<lparr>pa_addition := a\<rparr>)))"
      unfolding take_over_addition_def Let_def same by simp
    then show ?thesis by (auto simp: map_err_Inr_iff and_then_Inr_iff new carried_addition_def)
  qed
qed

section \<open>Contested paths\<close>

text \<open>A record that puts the Entry \<open>h\<close> where it stands, and whether the last one to do so renamed it there.\<close>

definition put_by_rename :: "journal_record \<Rightarrow> entry_location \<Rightarrow> bool" where
  "put_by_rename r h \<longleftrightarrow> (\<exists>n \<in> set (jr_renames r). renamed_by n = entry_ref_of h \<and> ren_path n = loc_path h)"

definition put_by_addition :: "journal_record \<Rightarrow> entry_location \<Rightarrow> bool" where
  "put_by_addition r h \<longleftrightarrow> (\<exists>a \<in> set (jr_additions r). cid (add_container a) = loc_container h)"

definition came_since :: "journal_record list \<Rightarrow> entry_location \<Rightarrow> bool" where
  "came_since rs h \<longleftrightarrow> (\<exists>r \<in> set rs. put_by_rename r h \<or> put_by_addition r h)"

definition came_by_rename :: "journal_record list \<Rightarrow> entry_location \<Rightarrow> bool" where
  "came_by_rename rs h \<longleftrightarrow>
     (\<exists>i < length rs. put_by_rename (rs ! i) h \<and> (\<forall>j. i < j \<and> j < length rs \<longrightarrow> \<not> put_by_addition (rs ! j) h))"

lemma came_by_rename_snoc:
  "came_by_rename (rs @ [r]) h \<longleftrightarrow> put_by_rename r h \<or> (\<not> put_by_addition r h \<and> came_by_rename rs h)"
proof
  assume "came_by_rename (rs @ [r]) h"
  then obtain i where i: "i < Suc (length rs)" "put_by_rename ((rs @ [r]) ! i) h"
      "\<forall>j. i < j \<and> j < Suc (length rs) \<longrightarrow> \<not> put_by_addition ((rs @ [r]) ! j) h" by (auto simp: came_by_rename_def)
  show "put_by_rename r h \<or> (\<not> put_by_addition r h \<and> came_by_rename rs h)"
  proof (cases "i = length rs")
    case False
    then have "i < length rs" using i(1) by simp
    moreover have "\<not> put_by_addition r h" using i(3) [rule_format, of "length rs"] \<open>i < length rs\<close> by simp
    moreover have "\<not> put_by_addition (rs ! j) h" if "i < j" "j < length rs" for j
      using i(3) [rule_format, of j] that by (simp add: nth_append)
    ultimately show ?thesis using i(2) by (auto simp: came_by_rename_def nth_append)
  qed (use i(2) in simp)
next
  assume "put_by_rename r h \<or> (\<not> put_by_addition r h \<and> came_by_rename rs h)"
  then show "came_by_rename (rs @ [r]) h"
  proof
    assume "put_by_rename r h"
    then show ?thesis unfolding came_by_rename_def by (intro exI [of _ "length rs"]) auto
  next
    assume a: "\<not> put_by_addition r h \<and> came_by_rename rs h"
    then obtain i where i: "i < length rs" "put_by_rename (rs ! i) h"
      "\<forall>j. i < j \<and> j < length rs \<longrightarrow> \<not> put_by_addition (rs ! j) h" by (auto simp: came_by_rename_def)
    have "\<not> put_by_addition ((rs @ [r]) ! j) h" if "i < j" "j < Suc (length rs)" for j
      using i(3) a that by (cases "j = length rs") (auto simp: nth_append)
    then show ?thesis using i(1,2) unfolding came_by_rename_def by (intro exI [of _ i]) (simp add: nth_append)
  qed
qed

lemma placed_snoc: "placed (rs @ [r]) h =
    (if put_by_rename r h then Some (jr_generation r, ByRename)
     else if put_by_addition r h then Some (jr_generation r, ByAddition) else placed rs h)"
proof -
  have "list_ex (\<lambda>n. renamed_by n = entry_ref_of h \<and> ren_path n = loc_path h) (jr_renames r) \<longleftrightarrow> put_by_rename r h"
    "list_ex (\<lambda>a. cid (add_container a) = loc_container h) (jr_additions r) \<longleftrightarrow> put_by_addition r h"
    unfolding put_by_rename_def put_by_addition_def list_ex_iff by blast+
  then show ?thesis unfolding placed_def by simp
qed

lemma placed_eq: "(\<exists>g. placed rs h = Some (g, ByRename)) \<longleftrightarrow> came_by_rename rs h" "placed rs h = None \<longleftrightarrow> \<not> came_since rs h"
proof (induction rs rule: rev_induct)
  case Nil
  show "(\<exists>g. placed [] h = Some (g, ByRename)) \<longleftrightarrow> came_by_rename [] h" "placed [] h = None \<longleftrightarrow> \<not> came_since [] h"
    by (simp_all add: placed_def came_by_rename_def came_since_def)
next
  case (snoc r rs)
  then show "(\<exists>g. placed (rs @ [r]) h = Some (g, ByRename)) \<longleftrightarrow> came_by_rename (rs @ [r]) h"
    and "placed (rs @ [r]) h = None \<longleftrightarrow> \<not> came_since (rs @ [r]) h"
    unfolding placed_snoc came_by_rename_snoc by (auto simp: came_since_def)
qed

definition uncontested_addition :: "library \<Rightarrow> journal_record list \<Rightarrow> prepared_addition \<Rightarrow> bool" where
  "uncontested_addition L rs p \<longleftrightarrow>
     (\<forall>i < length (add_entries (pa_addition p)). \<forall>h \<in> lb_entries L. loc_path h = path (carried_entries rs p ! i) \<longrightarrow>
        came_by_rename rs h \<longrightarrow> bt_get (pa_supersedes p) (EntryNumber i) = Some (entry_ref_of h))"

definition uncontested_rename :: "library \<Rightarrow> journal_record list \<Rightarrow> pending_rename list \<Rightarrow> pending_rename \<Rightarrow> bool" where
  "uncontested_rename L rs ns n \<longleftrightarrow>
     (\<forall>h \<in> lb_entries L. loc_path h = pr_path n \<longrightarrow> came_since rs h \<longrightarrow> entry_ref_of h \<in> pr_entry ` set ns)"

lemma contested_entry_settles:
  assumes get: "\<And>q h. bt_get now q = Some h \<longleftrightarrow> h \<in> E \<and> loc_path h = q" and i: "i < 2 ^ 32"
  shows "settles (contested_entry (final_paths rs) rs now p (i, e)) w (\<lambda>_. \<forall>h \<in> E. loc_path h = path (carried_entry rs p i e) \<longrightarrow>
    came_by_rename rs h \<longrightarrow> bt_get (pa_supersedes p) (EntryNumber i) = Some (entry_ref_of h))"
  unfolding contested_entry_def prod.case
proof (rule settles_number_at [OF i], unfold Let_def carried_path)
  let ?at = "path (carried_entry rs p i e)"
  show "settles (case bt_get now ?at of
        None \<Rightarrow> gives ()
      | Some holder \<Rightarrow>
          if Some (entry_ref_of holder) = bt_get (pa_supersedes p) (EntryNumber i) then gives ()
          else case placed rs holder of
              Some (g, ByRename) \<Rightarrow>
                fails (RebaseConflict (PendingAddition (cid (add_container (pa_addition p)), EntryNumber i)) g RenamedOntoAddedPath ?at)
            | _ \<Rightarrow> gives ()) w
      (\<lambda>_. \<forall>h \<in> E. loc_path h = ?at \<longrightarrow> came_by_rename rs h \<longrightarrow> bt_get (pa_supersedes p) (EntryNumber i) = Some (entry_ref_of h))"
  proof (cases "bt_get now ?at")
    case None
    then have "\<forall>h \<in> E. loc_path h \<noteq> ?at" using get by (metis option.distinct(1))
    then show ?thesis using None by (auto simp: settles_unit)
  next
    case (Some h)
    have h: "h \<in> E \<and> loc_path h = ?at" using get [of ?at h] Some by simp
    have one: "h' = h" if "h' \<in> E" "loc_path h' = ?at" for h' using get [of ?at h'] Some that by simp
    have all: "(\<forall>h \<in> E. loc_path h = ?at \<longrightarrow> came_by_rename rs h \<longrightarrow>
          bt_get (pa_supersedes p) (EntryNumber i) = Some (entry_ref_of h)) \<longleftrightarrow>
        (came_by_rename rs h \<longrightarrow> bt_get (pa_supersedes p) (EntryNumber i) = Some (entry_ref_of h))"
      using h one by blast
    show ?thesis
      unfolding all using Some placed_eq(1) [of rs h]
      by (auto simp: settles_unit split: option.split prod.split placed_by.split)
  qed
qed

lemma contested_rename_settles:
  assumes get: "\<And>q h. bt_get now q = Some h \<longleftrightarrow> h \<in> lb_entries L \<and> loc_path h = q"
  shows "settles (contested_rename (bs_collect (map pr_entry ns)) rs now n) w (\<lambda>_. uncontested_rename L rs ns n)"
  unfolding contested_rename_def
proof (cases "bt_get now (pr_path n)")
  case None
  then have "\<forall>h \<in> lb_entries L. loc_path h \<noteq> pr_path n" using get by (metis option.distinct(1))
  then show "settles (case bt_get now (pr_path n) of None \<Rightarrow> gives () | Some holder \<Rightarrow>
          if bt_contains (bs_collect (map pr_entry ns)) (entry_ref_of holder) then gives ()
          else case placed rs holder of
              Some (g, _) \<Rightarrow> fails (RebaseConflict (PendingRename (pr_entry n)) g DestinationTaken (pr_path n))
            | None \<Rightarrow> gives ()) w (\<lambda>_. uncontested_rename L rs ns n)"
    using None by (auto simp: settles_unit uncontested_rename_def)
next
  case (Some h)
  have h: "h \<in> lb_entries L \<and> loc_path h = pr_path n" using get [of "pr_path n" h] Some by simp
  have "h' = h" if "h' \<in> lb_entries L" "loc_path h' = pr_path n" for h' using get [of "pr_path n" h'] Some that by simp
  then have "uncontested_rename L rs ns n \<longleftrightarrow> (came_since rs h \<longrightarrow> entry_ref_of h \<in> pr_entry ` set ns)"
    unfolding uncontested_rename_def using h by blast
  then show "settles (case bt_get now (pr_path n) of None \<Rightarrow> gives () | Some holder \<Rightarrow>
          if bt_contains (bs_collect (map pr_entry ns)) (entry_ref_of holder) then gives ()
          else case placed rs holder of
              Some (g, _) \<Rightarrow> fails (RebaseConflict (PendingRename (pr_entry n)) g DestinationTaken (pr_path n))
            | None \<Rightarrow> gives ()) w (\<lambda>_. uncontested_rename L rs ns n)"
    using Some placed_eq(2) [of rs h]
    by (auto simp: settles_unit split: option.split prod.split)
qed

section \<open>The whole rebase\<close>

text \<open>A batch prepared against \<open>L\<close>: each of its renames names the Entry that stands where the rename is from.\<close>

definition prepared_on :: "library \<Rightarrow> prepared_batch \<Rightarrow> bool" where
  "prepared_on L b \<longleftrightarrow> (\<forall>n \<in> set (pb_renames b). stands L (pr_from n) (pr_entry n)) \<and>
     (\<forall>p \<in> set (pb_additions b). bt_inv (pa_supersedes p))"

definition rebased :: "library \<Rightarrow> journal_record list \<Rightarrow> prepared_batch \<Rightarrow> prepared_batch \<Rightarrow> bool" where
  "rebased L rs b c \<longleftrightarrow>
     (\<forall>n \<in> set (pb_renames b). held_at L rs (pr_from n)) \<and>
     list_all2 (\<lambda>n m. \<exists>x. stands (advanced L rs) (pr_from n) x \<and> m = n\<lparr>pr_entry := x\<rparr>) (pb_renames b) (pb_renames c) \<and>
     (\<forall>m \<in> set (pb_renames c). uncontested_rename (advanced L rs) rs (pb_renames c) m) \<and>
     (\<forall>p \<in> set (pb_additions b). uncontested_addition (advanced L rs) rs p \<and> distinct (map path (carried_entries rs p))) \<and>
     c = b\<lparr>pb_renames := pb_renames c, pb_additions := map (carried_addition rs) (pb_additions b)\<rparr>"

lemma fits_all_advanced: "fits_all L rs \<Longrightarrow> library_wf (advanced L rs)"
  by (induction rs arbitrary: L) auto

lemma no_rename_came: "final_paths rs = [] \<Longrightarrow> \<not> came_by_rename rs h"
proof
  assume none: "final_paths rs = []" and "came_by_rename rs h"
  then obtain i n where n: "i < length rs" "n \<in> set (jr_renames (rs ! i))" by (auto simp: came_by_rename_def put_by_rename_def)
  have "bt_contains (final_paths rs) (renamed_by n)"
    using n nth_mem [OF n(1)] unfolding final_paths_def bt_contains_collect by force
  then show False using none by (simp add: bt_contains_def bt_get_def)
qed

lemma all_enumerate: "(\<forall>x \<in> set (enumerate 0 xs). F x) \<longleftrightarrow> (\<forall>i < length xs. F (i, xs ! i))"
  by (force simp: in_set_enumerate_eq)

lemma check_contested_settles:
  assumes read: "ip_entries_under (po_index P) None w = Some (w, Ok current)" and E: "set current = lb_entries M"
    and wf: "library_wf M" and small: "\<forall>p \<in> set (pb_additions b). length (add_entries (pa_addition p)) \<le> 2 ^ 32"
  shows "settles (check_contested P b (final_paths rs) rs) w (\<lambda>_. (\<forall>p \<in> set (pb_additions b). uncontested_addition M rs p) \<and>
    (\<forall>m \<in> set (pb_renames b). uncontested_rename M rs (pb_renames b) m))"
proof (cases "(final_paths rs = [] \<or> pb_additions b = []) \<and>
    (pb_renames b = [] \<or> \<not> list_ex (\<lambda>r. jr_renames r \<noteq> [] \<or> jr_additions r \<noteq> []) rs)")
  case True
  have "\<forall>p \<in> set (pb_additions b). uncontested_addition M rs p"
    using True no_rename_came by (auto simp: uncontested_addition_def)
  moreover have "\<not> came_since rs h" if "\<not> list_ex (\<lambda>r. jr_renames r \<noteq> [] \<or> jr_additions r \<noteq> []) rs" for h
    using that by (auto simp: came_since_def list_ex_iff put_by_rename_def put_by_addition_def)
  then have "\<forall>m \<in> set (pb_renames b). uncontested_rename M rs (pb_renames b) m"
    using True by (auto simp: uncontested_rename_def)
  moreover have "check_contested P b (final_paths rs) rs = gives ()" using True by (auto simp: check_contested_def)
  ultimately show ?thesis by (simp add: settles_unit)
next
  case False
  let ?now = "bt_collect (map (\<lambda>l. (loc_path l, l)) current)"
  have "inj_on loc_path (set current)" using wf by (simp add: E library_wf_def)
  from bt_get_collect_inj [OF this, of "\<lambda>l. l"] have get: "bt_get ?now q = Some h \<longleftrightarrow> h \<in> lb_entries M \<and> loc_path h = q" for q h
    by (auto simp: E)
  have one: "settles (act_fold (\<lambda>_. contested_entry (final_paths rs) rs ?now p) () (enumerate 0 (add_entries (pa_addition p)))) w
      (\<lambda>_. uncontested_addition M rs p)" if p: "p \<in> set (pb_additions b)" for p
  proof (rule settles_iff [OF settles_checks])
    fix x assume x: "x \<in> set (enumerate 0 (add_entries (pa_addition p)))"
    obtain i e where i: "x = (i, e)" by (cases x)
    then have "i < length (add_entries (pa_addition p))" using x by (simp add: in_set_enumerate_eq)
    then have "i < 2 ^ 32" using small p by fastforce
    then show "settles (contested_entry (final_paths rs) rs ?now p x) w (\<lambda>_. case x of (i, e) \<Rightarrow>
        \<forall>h \<in> lb_entries M. loc_path h = path (carried_entry rs p i e) \<longrightarrow> came_by_rename rs h \<longrightarrow>
          bt_get (pa_supersedes p) (EntryNumber i) = Some (entry_ref_of h))"
      unfolding i prod.case by (rule contested_entry_settles [OF get])
  qed (simp add: all_enumerate uncontested_addition_def carried_entries_def nth_enumerate_eq)
  have "check_contested P b (final_paths rs) rs = act (erring IndexFailed (ip_entries_under (po_index P) None)) (\<lambda>current.
      act (act_fold (\<lambda>_ p. act_fold (\<lambda>_. contested_entry (final_paths rs) rs (bt_collect (map (\<lambda>l. (loc_path l, l)) current)) p) ()
             (enumerate 0 (add_entries (pa_addition p)))) () (pb_additions b)) (\<lambda>_.
        act_fold (\<lambda>_. contested_rename (bs_collect (map pr_entry (pb_renames b))) rs
          (bt_collect (map (\<lambda>l. (loc_path l, l)) current))) () (pb_renames b)))"
    unfolding check_contested_def Let_def using False by auto
  then have run: "check_contested P b (final_paths rs) rs w =
      act (act_fold (\<lambda>_ p. act_fold (\<lambda>_. contested_entry (final_paths rs) rs ?now p) ()
             (enumerate 0 (add_entries (pa_addition p)))) () (pb_additions b)) (\<lambda>_.
        act_fold (\<lambda>_. contested_rename (bs_collect (map pr_entry (pb_renames b))) rs ?now) () (pb_renames b)) w"
    using read by (simp add: act_run erring_runs)
  have "settles (act (act_fold (\<lambda>_ p. act_fold (\<lambda>_. contested_entry (final_paths rs) rs ?now p) ()
             (enumerate 0 (add_entries (pa_addition p)))) () (pb_additions b)) (\<lambda>_.
        act_fold (\<lambda>_. contested_rename (bs_collect (map pr_entry (pb_renames b))) rs ?now) () (pb_renames b))) w
      (\<lambda>_. \<exists>u :: unit. (\<forall>p \<in> set (pb_additions b). uncontested_addition M rs p) \<and>
        (\<forall>m \<in> set (pb_renames b). uncontested_rename M rs (pb_renames b) m))"
    by (intro settles_act settles_checks one contested_rename_settles get)
  then show ?thesis unfolding settles_def run by simp
qed

lemma take_over_iff:
  assumes "\<forall>p \<in> set (pb_additions b). bt_inv (pa_supersedes p) \<and> addition_ok (pa_addition p)"
  shows "take_over b (final_paths rs) = Inr c \<longleftrightarrow>
    (\<forall>p \<in> set (pb_additions b). distinct (map path (carried_entries rs p))) \<and>
    c = b\<lparr>pb_additions := map (carried_addition rs) (pb_additions b)\<rparr>"
proof -
  have "list_all2 (\<lambda>p q. take_over_addition (final_paths rs) p = Inr q) ps qs \<longleftrightarrow>
      (\<forall>p \<in> set ps. distinct (map path (carried_entries rs p))) \<and> qs = map (carried_addition rs) ps"
    if "set ps \<subseteq> set (pb_additions b)" for ps qs
    using that
  proof (induction ps arbitrary: qs)
    case (Cons p ps)
    then show ?case using take_over_addition_iff [of p rs] assms by (cases qs) auto
  qed auto
  from this [OF order_refl] have all: "collect_res (take_over_addition (final_paths rs)) (pb_additions b) = Inr qs \<longleftrightarrow>
      (\<forall>p \<in> set (pb_additions b). distinct (map path (carried_entries rs p))) \<and> qs = map (carried_addition rs) (pb_additions b)" for qs
    unfolding collect_res_Inr_iff .
  show ?thesis
  proof (cases "final_paths rs = []")
    case True
    then have "take_over_addition (final_paths rs) p = Inr p" for p
      by (simp add: take_over_addition_def bt_get_def List.map_filter_def)
    then have "collect_res (take_over_addition (final_paths rs)) ps = Inr ps" for ps
      by (induction ps) simp_all
    then have "(\<forall>p \<in> set (pb_additions b). distinct (map path (carried_entries rs p))) \<and>
        pb_additions b = map (carried_addition rs) (pb_additions b)" using all by blast
    then show ?thesis using True by (auto simp: take_over_def)
  next
    case False
    then show ?thesis by (auto simp: take_over_def and_then_Inr_iff all)
  qed
qed

lemma rebased_Nil: "library_wf L \<Longrightarrow> prepared_on L b \<Longrightarrow> \<forall>p \<in> set (pb_additions b). addition_ok (pa_addition p) \<Longrightarrow>
    rebased L [] b c \<longleftrightarrow> c = b"
proof -
  assume wf: "library_wf L" and b: "prepared_on L b" and ok: "\<forall>p \<in> set (pb_additions b). addition_ok (pa_addition p)"
  have "list_all2 (\<lambda>n m. \<exists>x. stands L (pr_from n) x \<and> m = n\<lparr>pr_entry := x\<rparr>) ns ms \<longleftrightarrow> ms = ns"
    if "set ns \<subseteq> set (pb_renames b)" for ns ms
    using that
  proof (induction ns arbitrary: ms)
    case (Cons n ns)
    then have "stands L (pr_from n) x \<longleftrightarrow> x = pr_entry n" for x
      using stands_unique [OF wf, of "pr_from n" x "pr_entry n"] b by (auto simp: prepared_on_def)
    then have "(\<exists>x. stands L (pr_from n) x \<and> m = n\<lparr>pr_entry := x\<rparr>) \<longleftrightarrow> m = n" for m by simp
    then show ?case using Cons by (cases ms) auto
  qed auto
  then have renames: "list_all2 (\<lambda>n m. \<exists>x. stands L (pr_from n) x \<and> m = n\<lparr>pr_entry := x\<rparr>) (pb_renames b) ms \<longleftrightarrow>
      ms = pb_renames b" for ms by blast
  have entries: "carried_entries [] p = add_entries (pa_addition p)" for p
    by (rule nth_equalityI) (auto simp: carried_entries_def carried_entry_def path_after_def nth_enumerate_eq split: option.split)
  then have "carried_addition [] p = p" for p by (simp add: carried_addition_def)
  then have additions: "map (carried_addition []) ps = ps" for ps by (simp add: map_idI)
  show "rebased L [] b c \<longleftrightarrow> c = b"
    unfolding rebased_def
    using renames ok
    by (auto simp: additions entries uncontested_rename_def uncontested_addition_def came_since_def came_by_rename_def
        addition_ok_iff)
qed

lemma rebase_settles:
  assumes fits: "fits_all L rs" and b: "prepared_on L b" "\<forall>p \<in> set (pb_additions b). addition_ok (pa_addition p)"
    and read: "ip_entries_under (po_index P) None w = Some (w, Ok current)" and E: "set current = lb_entries (advanced L rs)"
  shows "settles (rebase P b rs) w (rebased L rs b)"
proof (cases "rs = []")
  case True
  then show ?thesis
    using rebased_Nil [OF fits_all_wf [OF fits] b] settles_gives [of b w] by (auto simp: rebase_def intro: settles_iff)
next
  case False
  let ?M = "advanced L rs"
  let ?follow = "\<lambda>n m. held_at L rs (pr_from n) \<and> (\<exists>y. stands ?M (pr_from n) y \<and> m = n\<lparr>pr_entry := y\<rparr>)"
  have follow: "settles (follow_replaced b rs) w (\<lambda>b'. \<exists>zs. (\<exists>ms. zs = [] @ ms \<and> list_all2 ?follow (pb_renames b) ms) \<and>
      b' = b\<lparr>pb_renames := zs\<rparr>)"
    unfolding follow_replaced_def
    by (intro settles_act settles_collects follow_settles [OF fits] settles_gives) (use b(1) in \<open>simp add: prepared_on_def\<close>)
  have "settles (rebase P b rs) w (\<lambda>c. \<exists>b'. (\<exists>zs. (\<exists>ms. zs = [] @ ms \<and> list_all2 ?follow (pb_renames b) ms) \<and>
        b' = b\<lparr>pb_renames := zs\<rparr>) \<and>
      (\<exists>u :: unit. ((\<forall>p \<in> set (pb_additions b'). uncontested_addition ?M rs p) \<and>
          (\<forall>m \<in> set (pb_renames b'). uncontested_rename ?M rs (pb_renames b') m)) \<and>
        take_over b' (final_paths rs) = Inr c))"
    unfolding rebase_def Let_def if_not_P [OF False]
  proof (rule settles_act [OF follow])
    fix b' assume "\<exists>zs. (\<exists>ms. zs = [] @ ms \<and> list_all2 ?follow (pb_renames b) ms) \<and> b' = b\<lparr>pb_renames := zs\<rparr>"
    then have "pb_additions b' = pb_additions b" by auto
    then have "\<forall>p \<in> set (pb_additions b'). length (add_entries (pa_addition p)) \<le> 2 ^ 32"
      using b(2) by (simp add: addition_ok_iff)
    then show "settles (act (check_contested P b' (final_paths rs) rs) (\<lambda>_. yields (take_over b' (final_paths rs)))) w
        (\<lambda>c. \<exists>u :: unit. ((\<forall>p \<in> set (pb_additions b'). uncontested_addition ?M rs p) \<and>
          (\<forall>m \<in> set (pb_renames b'). uncontested_rename ?M rs (pb_renames b') m)) \<and> take_over b' (final_paths rs) = Inr c)"
      by (intro settles_act check_contested_settles [OF read E fits_all_advanced [OF fits]] settles_yields)
  qed
  then show ?thesis
  proof (rule settles_iff)
    fix c
    have take: "take_over (b\<lparr>pb_renames := ms\<rparr>) (final_paths rs) = Inr c \<longleftrightarrow>
        (\<forall>p \<in> set (pb_additions b). distinct (map path (carried_entries rs p))) \<and>
        c = b\<lparr>pb_renames := ms, pb_additions := map (carried_addition rs) (pb_additions b)\<rparr>" for ms
      using take_over_iff [of "b\<lparr>pb_renames := ms\<rparr>" rs c] b by (simp add: prepared_on_def)
    have split: "list_all2 ?follow ns ms \<longleftrightarrow> (\<forall>n \<in> set ns. held_at L rs (pr_from n)) \<and>
        list_all2 (\<lambda>n m. \<exists>x. stands ?M (pr_from n) x \<and> m = n\<lparr>pr_entry := x\<rparr>) ns ms" for ns ms
      by (induction ns arbitrary: ms) (auto simp: list_all2_Cons1)
    show "(\<exists>b'. (\<exists>zs. (\<exists>ms. zs = [] @ ms \<and> list_all2 ?follow (pb_renames b) ms) \<and> b' = b\<lparr>pb_renames := zs\<rparr>) \<and>
        (\<exists>u :: unit. ((\<forall>p \<in> set (pb_additions b'). uncontested_addition ?M rs p) \<and>
          (\<forall>m \<in> set (pb_renames b'). uncontested_rename ?M rs (pb_renames b') m)) \<and>
        take_over b' (final_paths rs) = Inr c)) \<longleftrightarrow> rebased L rs b c" (is "?lhs \<longleftrightarrow> _")
    proof
      assume ?lhs
      then obtain ms where ms: "list_all2 ?follow (pb_renames b) ms" "\<forall>p \<in> set (pb_additions b). uncontested_addition ?M rs p"
          "\<forall>m \<in> set ms. uncontested_rename ?M rs ms m" "take_over (b\<lparr>pb_renames := ms\<rparr>) (final_paths rs) = Inr c"
        by auto
      then have "pb_renames c = ms" by (simp add: take)
      then show "rebased L rs b c" unfolding rebased_def using ms unfolding take split by auto
    next
      assume "rebased L rs b c"
      then have "list_all2 ?follow (pb_renames b) (pb_renames c)" "take_over (b\<lparr>pb_renames := pb_renames c\<rparr>) (final_paths rs) = Inr c"
          "\<forall>p \<in> set (pb_additions b). uncontested_addition ?M rs p"
          "\<forall>m \<in> set (pb_renames c). uncontested_rename ?M rs (pb_renames c) m"
        unfolding rebased_def take split by auto
      then show ?lhs by auto
    qed
  qed
qed

section \<open>Along a history\<close>

lemma history_index:
  assumes "history_ok rs"
  shows "k \<le> length rs \<Longrightarrow> \<exists>s. index_ok s \<and> view_of s = library_after rs k"
proof (induction k)
  case 0
  show ?case using index_default_ok view_default by auto
next
  case (Suc k)
  then obtain s where "index_ok s" "view_of s = library_after rs k" by auto
  then show ?case using apply_next [OF _ _ assms, of s k] Suc.prems by (metis Suc_le_eq)
qed

lemma library_after_wf: "history_ok rs \<Longrightarrow> k \<le> length rs \<Longrightarrow> library_wf (library_after rs k)"
proof -
  assume "history_ok rs" and "k \<le> length rs"
  then obtain s where s: "index_ok s" "view_of s = library_after rs k" using history_index by blast
  note wf = catalog_wfD(2,3) [OF index_okD(1) [OF s(1)]]
  have "lb_entries (library_after rs k) = stored (ix_entries s)" using s(2) by (metis library.select_convs(3) view_of_def)
  then show "library_wf (library_after rs k)"
    using wf(2) keyed_inj [OF wf(1)] by (simp add: library_wf_def inj_on_def)
qed

lemma history_since:
  assumes "history_ok rs" and "k \<le> length rs"
  shows "fits_all (library_after rs k) (drop k rs)" and "advanced (library_after rs k) (drop k rs) = library_after rs (length rs)"
proof -
  have "fits_all (library_after rs k) (drop k rs) \<and> advanced (library_after rs k) (drop k rs) = library_after rs (length rs)"
    using assms(2)
  proof (induction "length rs - k" arbitrary: k)
    case 0
    then show ?case using library_after_wf [OF assms(1), of k] by simp
  next
    case (Suc n)
    then have k: "k < length rs" by simp
    then have "drop k rs = rs ! k # drop (Suc k) rs" by (simp add: Cons_nth_drop_Suc)
    moreover have "record_fits (rs ! k) (library_after rs k)" using assms(1) k by (simp add: history_ok_def)
    moreover have "fits_all (library_after rs (Suc k)) (drop (Suc k) rs) \<and>
        advanced (library_after rs (Suc k)) (drop (Suc k) rs) = library_after rs (length rs)"
      by (rule Suc.hyps(1)) (use Suc.hyps(2) k in simp_all)
    moreover have "library_wf (library_after rs k)" using library_after_wf [OF assms(1), of k] k by simp
    ultimately show ?case using library_after_Suc [OF k] by simp
  qed
  then show "fits_all (library_after rs k) (drop k rs)" and "advanced (library_after rs k) (drop k rs) = library_after rs (length rs)"
    by blast+
qed

text \<open>A superseded Entry that is still there stands at the path its superseder is carried to.\<close>

lemma path_after_moved:
  assumes "distinct (map order_key ns)"
  shows "fold (\<lambda>n p. if renamed_by n = loc_key l then ren_path n else p) ns (loc_path l) = loc_path (moved_by ns l)"
proof -
  have none: "fold (\<lambda>n p. if renamed_by n = x then ren_path n else p) ns p = p" if "x \<notin> order_key ` set ns" for x p ns
    using that by (induction ns) auto
  show ?thesis
    using assms
  proof (induction ns)
    case (Cons n ns)
    show ?case
    proof (cases "order_key n = loc_key l")
      case True
      then have "loc_key l \<notin> order_key ` set ns" using Cons.prems by (auto simp flip: True)
      from none [OF this] show ?thesis using True by (simp add: moved_by_def loc_path_def)
    qed (use Cons in \<open>simp add: moved_by_def\<close>)
  qed simp
qed

lemma path_after_append: "path_after (r # rs) x p = path_after rs x (path_after [r] x p)"
  by (simp add: path_after_def)

definition added_since :: "journal_record list \<Rightarrow> entry_ref \<Rightarrow> bool" where
  "added_since rs x \<longleftrightarrow> (\<exists>r \<in> set rs. \<exists>a \<in> set (jr_additions r). cid (add_container a) = fst x)"

lemma stands_before:
  assumes "fits_all L rs" and "stands (advanced L rs) q x" and "\<not> added_since rs x"
  shows "\<exists>p. stands L p x \<and> q = path_after rs x p"
  using assms
proof (induction rs arbitrary: L)
  case Nil
  then show ?case by (auto simp: path_after_def)
next
  case (Cons r rs)
  then obtain p where p: "stands (advance r L) p x" "q = path_after rs x p" by (auto simp: added_since_def)
  have r: "record_ok r" using Cons.prems(1) by (simp add: record_fits_def)
  obtain l where l: "l \<in> entries_after r (lb_entries L)" "loc_path l = p" "loc_key l = x"
    using p(1) by (auto simp: stands_def advance_def)
  have "l \<notin> set (located a)" if "a \<in> set (jr_additions r)" for a
  proof
    assume "l \<in> set (located a)"
    then have "loc_container l = cid (add_container a)"
      using located_ok(3) [of a] r that by (simp add: record_ok_def addition_id_def)
    then show False using Cons.prems(3) l(3) that by (auto simp: added_since_def loc_key_def)
  qed
  then obtain k where k: "k \<in> lb_entries L" "l = moved_by (jr_renames r) k"
    using l(1) by (auto simp: entries_after_def entries_kept_def)
  have "distinct (map order_key (jr_renames r))" using r by (simp add: record_ok_def strict_sorted_iff)
  from path_after_moved [OF this, of k] have "path_after [r] x (loc_path k) = p"
    using l(2,3) k(2) by (simp add: path_after_def)
  moreover have "stands L (loc_path k) x" using k l(3) by (auto simp: stands_def)
  ultimately show ?case using p(2) path_after_append by metis
qed

lemma path_after_stands:
  assumes "fits_all L rs" and "stands L p x" and "stands (advanced L rs) q x" and "\<not> added_since rs x"
  shows "path_after rs x p = q"
proof -
  obtain p' where p': "stands L p' x" "q = path_after rs x p'" using stands_before [OF assms(1,3,4)] by blast
  have "inj_on entry_ref_of (lb_entries L)" using fits_all_wf [OF assms(1)] by (simp add: library_wf_def)
  then have "p' = p" using p'(1) assms(2) unfolding stands_def inj_on_def by metis
  then show ?thesis using p'(2) by simp
qed

end
