(* ===== verification/Rebase_Samples.thy ===== *)
theory Rebase_Samples
  imports Rebase_Outcome Library_Samples "HOL-Library.Code_Target_Nat"
begin

text \<open>
  A batch that a rebase changes: while it was being prepared, another device's record renamed the Entry its addition
  supersedes, and replaced the Container of the Entry its rename is of.
\<close>

definition sheet_id :: "nat \<Rightarrow> container_id" where
  "sheet_id n = ContainerId (replicate 16 (of_nat n))"

definition sheet :: "nat \<Rightarrow> string \<Rightarrow> container_addition" where
  "sheet n p = \<lparr>add_container = sample_summary\<lparr>cid := sheet_id n\<rparr>,
     add_entries = [sample_entry\<lparr>path := EntryPath p, captured_path := EntryPath p\<rparr>], add_deposits = [DepositedAt 5]\<rparr>"

definition seed_record :: journal_record where
  "seed_record = first_record\<lparr>jr_additions := [sheet 1 ''a'', sheet 2 ''b'']\<rparr>"

definition turn_record :: journal_record where
  "turn_record = \<lparr>jr_generation = Generation 1, jr_prev = Some (Generation 0), jr_epoch = MasterKeyEpoch 1,
     jr_keyring = sample_commitment, jr_next_slot = None, jr_snapshot_slot = None, jr_additions = [sheet 3 ''b''],
     jr_removals = [sheet_id 2],
     jr_renames = [\<lparr>ren_container = sheet_id 1, ren_number = EntryNumber 0, ren_path = EntryPath ''moved''\<rparr>],
     jr_library_name = None\<rparr>"

definition turned_index :: index_state where
  "turned_index = (case index_apply seed_record index_default of
       Some (s, _) \<Rightarrow> (case index_apply turn_record s of Some (t, _) \<Rightarrow> t | None \<Rightarrow> index_default)
     | None \<Rightarrow> index_default)"

definition turned_world :: mem_world where
  "turned_world = first_world\<lparr>mw_index := turned_index\<rparr>"

text \<open>Prepared against \<open>seed_record\<close>: an update of the Entry at \<open>a\<close>, and a rename of the one at \<open>b\<close> to \<open>c\<close>.\<close>

definition turned_batch :: prepared_batch where
  "turned_batch = batch_renaming [\<lparr>pr_entry = (sheet_id 2, EntryNumber 0), pr_from = EntryPath ''b'', pr_path = EntryPath ''c''\<rparr>]
     (batch_adding [superseding [(EntryNumber 0, (sheet_id 1, EntryNumber 0))]
        (prepared_addition_new (sheet 4 ''a'') (KeyEnvelope (replicate 72 0)))])"

text \<open>Carried over \<open>turn_record\<close>: the update stands where the other device moved the Entry, and the rename is of the Entry that
  replaced the one it was prepared for.\<close>

definition carried_batch :: prepared_batch where
  "carried_batch = turned_batch
     \<lparr>pb_renames := [\<lparr>pr_entry = (sheet_id 3, EntryNumber 0), pr_from = EntryPath ''b'', pr_path = EntryPath ''c''\<rparr>],
      pb_additions := map (\<lambda>p. p\<lparr>pa_addition := (pa_addition p)
        \<lparr>add_entries := map (\<lambda>e. e\<lparr>path := EntryPath ''moved''\<rparr>) (add_entries (pa_addition p))\<rparr>\<rparr>) (pb_additions turned_batch)\<rparr>"

lemma turned_rebase:
  "case rebase (mem_ports md5_of first_libraries) turned_batch [turn_record] turned_world of
     Some (v, Inr c) \<Rightarrow> c = carried_batch \<and> c \<noteq> turned_batch | _ \<Rightarrow> False"
  by code_simp

lemma turned_applied:
  "case index_apply seed_record index_default of
     Some (s, x) \<Rightarrow> x = Inr () \<and> (case index_apply turn_record s of Some (t, y) \<Rightarrow> y = Inr () | None \<Rightarrow> False)
   | None \<Rightarrow> False"
  by code_simp

lemma sheet_ok: "n < 256 \<Longrightarrow> path_ok (EntryPath p) \<Longrightarrow> carried_ok (\<lambda>_. True) (sheet n p)"
  using sample_deposit_ok
  by (auto simp: carried_ok_def sheet_def sample_deposit_def summary_ok_def sheet_id_def container_id_ok_def container_id_byte_len_def
      addition_ok_iff catalog_entry_ok_def entry_ok_def)

lemma sheet_paths: "path_ok (EntryPath ''a'')" "path_ok (EntryPath ''b'')" "path_ok (EntryPath ''c'')" "path_ok (EntryPath ''moved'')"
  by code_simp+

lemma turned_records_ok: "\<forall>r \<in> set [seed_record, turn_record]. journal_ok (\<lambda>_. True) r"
proof -
  have "sorted_wrt (<) (map addition_id (jr_additions seed_record)) \<and> rename_ok (hd (jr_renames turn_record))" by code_simp
  then show ?thesis
    using first_record_ok [of "\<lambda>_. True"] sheet_ok sheet_paths sample_commitment_ok
    by (simp add: journal_ok_def seed_record_def turn_record_def collections_ok_def predecessor_of_eq generation_ok_def
        max_format_integer_def renaming_ok_def sheet_id_def container_id_ok_def container_id_byte_len_def entry_number_ok_def
        first_record_def)
qed

lemma records_well: "record_ok seed_record" "record_ok turn_record"
  using turned_records_ok by (simp_all add: record_ok_def journal_ok_def carried_ok_def)

lemma turned_index_ok:
  "index_ok turned_index" "view_of turned_index = library_after [seed_record, turn_record] 2" "history_ok [seed_record, turn_record]"
proof -
  let ?rs = "[seed_record, turn_record]"
  obtain s t where s: "index_apply seed_record index_default = Some (s, Inr ())"
      and t: "index_apply turn_record s = Some (t, Inr ())"
    using turned_applied by (auto split: option.splits)
  have seed: "index_fits seed_record index_default" "applied seed_record index_default s"
    using index_apply_exact [OF index_default_ok records_well(1)] s by (metis Inl_Inr_False Pair_inject option.inject)+
  have sok: "index_ok s" by (rule applied_ok [OF index_default_ok seed(2)])
  have turn: "index_fits turn_record s" "applied turn_record s t"
    using index_apply_exact [OF sok records_well(2)] t by (metis Inl_Inr_False Pair_inject option.inject)+
  have one: "view_of s = library_after ?rs 1" and two: "view_of t = library_after ?rs 2"
    using view_applied [OF seed(2)] view_applied [OF turn(2)] view_default by (simp_all add: library_after_def numeral_2_eq_2)
  have index: "turned_index = t" using s t by (simp add: turned_index_def)
  then show "index_ok turned_index" "view_of turned_index = library_after ?rs 2" using applied_ok [OF sok turn(2)] two by simp_all
  have "fits seed_record (lb_containers library_empty) (lb_entries library_empty)"
    using seed(1) view_default by (simp add: index_fits_def view_of_def library_empty_def)
  moreover have "fits turn_record (lb_containers (library_after ?rs 1)) (lb_entries (library_after ?rs 1))"
    unfolding one [symmetric] using turn(1) by (simp add: index_fits_def view_of_def)
  moreover have "jr_generation seed_record = Generation 0" "jr_generation turn_record = Generation 1"
    by (simp_all add: seed_record_def first_record_def turn_record_def)
  ultimately show "history_ok ?rs"
    using records_well by (simp add: history_ok_def record_fits_def max_format_integer_def less_Suc_eq)
qed

lemma turned_world_ok: "mem_world_ok turned_world" "mw_index turned_world = turned_index"
  using first_world_ok by (simp_all add: turned_world_def mem_world_ok_def)

lemma turned_batch_fields:
  "pb_renames turned_batch = [\<lparr>pr_entry = (sheet_id 2, EntryNumber 0), pr_from = EntryPath ''b'', pr_path = EntryPath ''c''\<rparr>]"
  "pb_additions turned_batch = [superseding [(EntryNumber 0, (sheet_id 1, EntryNumber 0))]
        (prepared_addition_new (sheet 4 ''a'') (KeyEnvelope (replicate 72 0)))]"
  "pb_removals turned_batch = []" "pb_library_name turned_batch = None"
  by (simp_all add: turned_batch_def batch_renaming_def batch_adding_def batch_default_def)

lemma turned_batch_writable: "batch_writable (\<lambda>_. True) turned_batch"
  using sheet_ok [of 4 "''a''"] sheet_paths
  by (simp add: batch_writable_def turned_batch_fields superseding_def prepared_addition_new_def sheet_id_def container_id_ok_def
      container_id_byte_len_def entry_number_ok_def)

lemma turned_prepared: "prepared_on (library_after [seed_record, turn_record] 1) turned_batch"
proof -
  have "sheet 2 ''b'' \<in> set (jr_additions seed_record)" by (simp add: seed_record_def)
  from advance_adds [OF records_well(1) this, of 0 library_empty]
  have "stands (library_after [seed_record, turn_record] 1) (EntryPath ''b'') (sheet_id 2, EntryNumber 0)"
    by (simp add: sheet_def library_after_def)
  then show ?thesis
    by (simp add: prepared_on_def turned_batch_fields superseding_def prepared_addition_new_def bt_inv_def)
qed

end
