(* ===== verification/Recovery_Samples.thy ===== *)
theory Recovery_Samples
  imports Recovery_Code
begin

text \<open>
  Bech32m as BIP-350 defines it, for the witnesses: its generator, its constant, and a check that
  recomputes the checksum. It keeps \<open>bech32_laws\<close>.
\<close>

section \<open>The checksum\<close>

definition generator_terms :: "(nat \<times> 32 word) list" where
  "generator_terms = [(0, 0x3b6a57b2), (1, 0x26508e6d), (2, 0x1ea119fa), (3, 0x3d4233dd), (4, 0x2a1462b3)]"

definition polymod_step :: "32 word \<Rightarrow> unit5 \<Rightarrow> 32 word" where
  "polymod_step residue u =
     (let top = drop_bit 25 residue;
          shifted = xor (push_bit 5 (and residue 0x1ffffff)) (ucast u)
      in foldl (\<lambda>r (i, g). if bit top i then xor r g else r) shifted generator_terms)"

definition polymod :: "unit5 list \<Rightarrow> 32 word" where
  "polymod us = foldl polymod_step 1 us"

definition bech32m_target :: "32 word" where
  "bech32m_target = 0x2bc830a3"

definition checksum_of :: "string \<Rightarrow> unit5 list \<Rightarrow> unit5 list" where
  "checksum_of prefix us =
     (let r = xor (polymod (expanded_prefix prefix @ us @ replicate 6 0)) bech32m_target
      in map (\<lambda>i. ucast (drop_bit (5 * (5 - i)) r)) [0..<6])"

section \<open>Letters\<close>

definition letter_of :: "unit5 \<Rightarrow> char" where
  "letter_of u = bech32_alphabet ! unat u"

fun position_in :: "char \<Rightarrow> string \<Rightarrow> nat" where
  "position_in c [] = 0"
| "position_in c (x # xs) = (if x = c then 0 else Suc (position_in c xs))"

definition unit_of_letter :: "char \<Rightarrow> unit5" where
  "unit_of_letter c = word_of_nat (position_in c bech32_alphabet)"

definition bip_encode :: "string \<Rightarrow> byte list \<Rightarrow> string option" where
  "bip_encode prefix p =
     (let us = regrouped p in Some (prefix @ CHR ''1'' # map letter_of (us @ checksum_of prefix us)))"

definition bip_check :: "string \<Rightarrow> code_refusal + checked_code" where
  "bip_check t =
     (if (\<exists>c \<in> set t. is_ascii_uppercase c) \<and> (\<exists>c \<in> set t. is_ascii_lowercase c) then Err OtherRefusal
      else case rsplit_once CHR ''1'' (text_lower t) of
          None \<Rightarrow> Err OtherRefusal
        | Some (prefix, data) \<Rightarrow>
            (case find (\<lambda>c. c \<notin> set bech32_alphabet) data of
               Some c \<Rightarrow> Err (InvalidUnit [c])
             | None \<Rightarrow>
                 let n = length data - checksum_length; us = map unit_of_letter (take n data)
                 in if length data < checksum_length \<or> map unit_of_letter (drop n data) \<noteq> checksum_of prefix us
                    then Err OtherRefusal
                    else Ok \<lparr>ch_prefix = take (length prefix) t, ch_units = us, ch_bytes = ungrouped us\<rparr>))"

definition bip_unit :: "string \<Rightarrow> unit5 option" where
  "bip_unit c =
     (case c of [b] \<Rightarrow> if char_lower b \<in> set bech32_alphabet then Some (unit_of_letter (char_lower b)) else None
      | _ \<Rightarrow> None)"

definition sample_bech32 :: bech32 where
  "sample_bech32 = \<lparr>code_encode = bip_encode, code_check = bip_check, code_unit = bip_unit,
     code_residue = (\<lambda>us. unat (polymod us)), code_target = unat bech32m_target\<rparr>"

section \<open>It keeps the laws\<close>

lemma alphabet_positions: "\<forall>n \<in> set [0..<32]. position_in (bech32_alphabet ! n) bech32_alphabet = n"
  by code_simp

lemma alphabet_letters_back: "\<forall>c \<in> set bech32_alphabet. letter_of (unit_of_letter c) = c"
  by code_simp

lemma unit_of_letter_of [simp]: "unit_of_letter (letter_of u) = u"
proof -
  have "unat u \<in> set [0..<32]" by simp
  with alphabet_positions have "position_in (bech32_alphabet ! unat u) bech32_alphabet = unat u" by blast
  then show ?thesis by (simp add: unit_of_letter_def letter_of_def)
qed

lemma letter_of_alphabet [simp]: "letter_of u \<in> set bech32_alphabet"
proof -
  have "length bech32_alphabet = 32" by (simp add: bech32_alphabet_def)
  then show ?thesis using unat_unit_less [of u] unfolding letter_of_def by (metis nth_mem)
qed

lemma length_checksum_of [simp]: "length (checksum_of p us) = 6"
  by (simp add: checksum_of_def Let_def)

lemma groups_of_bytes:
  fixes n :: nat
  defines "k \<equiv> div_ceil (8 * n) 5"
  shows "8 * n \<le> 5 * k" and "5 * k div 8 = n" and "5 * k mod 8 = 5 * k - 8 * n"
proof -
  have "8 * n \<le> k * 5" and "k * 5 < 8 * n + 5"
    using div_ceil_bounds [of 5 "8 * n"] by (simp_all add: k_def)
  then have "\<exists>r < 5. 5 * k = 8 * n + r" by (intro exI [of _ "k * 5 - 8 * n"]) auto
  then obtain r where r: "r < 5" "5 * k = 8 * n + r" by blast
  then show "8 * n \<le> 5 * k" and "5 * k div 8 = n" and "5 * k mod 8 = 5 * k - 8 * n" by simp_all
qed

lemma ungrouped_regrouped: "ungrouped (regrouped p) = p"
proof -
  let ?n = "length p" and ?k = "div_ceil (8 * length p) 5"
  note g = groups_of_bytes [of ?n]
  have "from_be p < 2 ^ (8 * ?n)" using from_be_bound [of p] by (simp add: power_mult)
  then have "from_be p * 2 ^ (5 * ?k - 8 * ?n) < 2 ^ (8 * ?n) * 2 ^ (5 * ?k - 8 * ?n)" by simp
  also have "\<dots> = 2 ^ (5 * ?k)" using g(1) by (simp flip: power_add)
  also have "\<dots> = 32 ^ ?k" by (simp add: power_mult)
  finally have "units_value (regrouped p) = from_be p * 2 ^ (5 * ?k - 8 * ?n)"
    by (simp add: regrouped_def Let_def units_value_units_of)
  then show ?thesis
    using g be_bytes_from_be [of p] by (simp add: ungrouped_def) (simp add: regrouped_def Let_def)
qed

lemma alphabet_lower: "c \<in> set bech32_alphabet \<Longrightarrow> \<not> is_ascii_uppercase c \<and> c \<noteq> CHR ''1''"
  using alphabet_letters by (auto simp: code_letter_def)

text \<open>What \<open>bip_encode\<close> writes, and \<open>bip_check\<close> on it in either case.\<close>

lemma bip_encode_shape:
  assumes "bip_encode prefix p = Some t"
  shows "\<exists>data. t = prefix @ CHR ''1'' # data \<and> length data = div_ceil (8 * length p) 5 + checksum_length \<and>
    set data \<subseteq> set bech32_alphabet"
  using assms by (auto simp: bip_encode_def Let_def regrouped_def checksum_length_def)

lemma bip_check_text:
  assumes "\<not> ((\<exists>c \<in> set t. is_ascii_uppercase c) \<and> (\<exists>c \<in> set t. is_ascii_lowercase c))"
    and "text_lower t = prefix @ CHR ''1'' # map letter_of (us @ checksum_of prefix us)"
  shows "bip_check t = Ok \<lparr>ch_prefix = take (length prefix) t, ch_units = us, ch_bytes = ungrouped us\<rparr>"
proof -
  have "CHR ''1'' \<notin> set (map letter_of (us @ checksum_of prefix us))"
    using alphabet_lower letter_of_alphabet unfolding set_map image_iff by metis
  then have r: "rsplit_once CHR ''1'' (text_lower t) = Some (prefix, map letter_of (us @ checksum_of prefix us))"
    unfolding rsplit_once_Some_iff assms(2) by simp
  have f: "find (\<lambda>c. c \<notin> set bech32_alphabet) (map letter_of (us @ checksum_of prefix us)) = None"
    by (auto simp: find_None_iff)
  have u: "map unit_of_letter (map letter_of vs) = vs" for vs by (simp add: map_idI)
  show ?thesis
    unfolding bip_check_def r using assms(1) f u [of us] u [of "checksum_of prefix us"]
    by (simp add: Let_def checksum_length_def)
qed

lemma bip_check_encoded:
  assumes "lowercase_prefix prefix" and "bip_encode prefix p = Some t"
  shows "bip_check t = Ok \<lparr>ch_prefix = prefix, ch_units = regrouped p, ch_bytes = p\<rparr>"
    and "bip_check (text_upper t) = Ok \<lparr>ch_prefix = text_upper prefix, ch_units = regrouped p, ch_bytes = p\<rparr>"
proof -
  have t: "t = prefix @ CHR ''1'' # map letter_of (regrouped p @ checksum_of prefix (regrouped p))"
    using assms(2) by (simp add: bip_encode_def Let_def)
  have low: "\<forall>c \<in> set t. \<not> is_ascii_uppercase c"
    using assms(1) alphabet_lower letter_of_alphabet unfolding t by (auto simp: lowercase_prefix_def)
  have "text_lower t = t" by (rule text_lower_idle [OF low])
  from bip_check_text [of t prefix "regrouped p"] this low t
  show "bip_check t = Ok \<lparr>ch_prefix = prefix, ch_units = regrouped p, ch_bytes = p\<rparr>"
    by (simp add: ungrouped_regrouped)
  have "text_lower (text_upper t) = t" by (rule text_lower_upper [OF low])
  then have "text_lower (text_upper t) = prefix @ CHR ''1'' # map letter_of (regrouped p @ checksum_of prefix (regrouped p))"
    using t by simp
  moreover have "\<not> (\<exists>c \<in> set (text_upper t). is_ascii_lowercase c)" by auto
  ultimately have "bip_check (text_upper t) =
      Ok \<lparr>ch_prefix = take (length prefix) (text_upper t), ch_units = regrouped p, ch_bytes = ungrouped (regrouped p)\<rparr>"
    by (intro bip_check_text) blast+
  moreover have "take (length prefix) (text_upper t) = text_upper prefix"
    unfolding t map_append by simp
  ultimately show "bip_check (text_upper t) =
      Ok \<lparr>ch_prefix = text_upper prefix, ch_units = regrouped p, ch_bytes = p\<rparr>"
    by (simp add: ungrouped_regrouped)
qed

lemma bip_check_exact:
  assumes "bip_check t = Ok c"
  shows "ch_bytes c = ungrouped (ch_units c)"
    and "length t = length (ch_prefix c) + 1 + length (ch_units c) + checksum_length"
    and "ch_units c = regrouped (ch_bytes c) \<Longrightarrow>
      bip_encode (text_lower (ch_prefix c)) (ch_bytes c) = Some (text_lower t)"
proof -
  obtain prefix data where r: "rsplit_once CHR ''1'' (text_lower t) = Some (prefix, data)"
    and f: "find (\<lambda>c. c \<notin> set bech32_alphabet) data = None"
    and l: "checksum_length \<le> length data"
    and s: "map unit_of_letter (drop (length data - checksum_length) data) =
      checksum_of prefix (map unit_of_letter (take (length data - checksum_length) data))"
    and c: "c = \<lparr>ch_prefix = take (length prefix) t,
      ch_units = map unit_of_letter (take (length data - checksum_length) data),
      ch_bytes = ungrouped (map unit_of_letter (take (length data - checksum_length) data))\<rparr>"
    using assms by (auto simp: bip_check_def Let_def split: if_splits option.splits)
  have t: "text_lower t = prefix @ CHR ''1'' # data" using r by (simp add: rsplit_once_Some_iff)
  have len: "length t = length prefix + 1 + length data" using t by (metis add.assoc length_append length_Cons length_map plus_1_eq_Suc)
  have p: "text_lower (take (length prefix) t) = prefix" using t by (simp add: take_map [symmetric])
  have undone: "map letter_of (map unit_of_letter data) = data"
    using f alphabet_letters_back by (auto simp: find_None_iff intro!: map_idI)
  show "ch_bytes c = ungrouped (ch_units c)" by (simp add: c)
  show "length t = length (ch_prefix c) + 1 + length (ch_units c) + checksum_length"
    using l len by (simp add: c)
  assume u: "ch_units c = regrouped (ch_bytes c)"
  let ?us = "map unit_of_letter (take (length data - checksum_length) data)"
  have "map letter_of (?us @ checksum_of prefix ?us) = data"
    unfolding s [symmetric] map_append [symmetric] append_take_drop_id by (rule undone)
  then show "bip_encode (text_lower (ch_prefix c)) (ch_bytes c) = Some (text_lower t)"
    using u p t by (simp add: bip_encode_def Let_def c)
qed

lemma sample_bech32_laws: "bech32_laws sample_bech32"
  unfolding bech32_laws_def
proof (intro conjI allI impI)
  fix prefix p
  show "code_encode sample_bech32 prefix p \<noteq> None" by (simp add: sample_bech32_def bip_encode_def Let_def)
next
  fix prefix p t
  assume a: "lowercase_prefix prefix \<and> code_encode sample_bech32 prefix p = Some t"
  then have e: "bip_encode prefix p = Some t" by (simp add: sample_bech32_def)
  show "\<exists>data. t = prefix @ CHR ''1'' # data \<and> length data = div_ceil (8 * length p) 5 + checksum_length \<and>
      set data \<subseteq> set bech32_alphabet" by (rule bip_encode_shape [OF e])
  show "code_check sample_bech32 t = Ok \<lparr>ch_prefix = prefix, ch_units = regrouped p, ch_bytes = p\<rparr>"
    and "code_check sample_bech32 (text_upper t) = Ok \<lparr>ch_prefix = text_upper prefix, ch_units = regrouped p, ch_bytes = p\<rparr>"
    using bip_check_encoded [of prefix p t] a e by (simp_all add: sample_bech32_def)
next
  fix t c
  assume "code_check sample_bech32 t = Ok c"
  then have c: "bip_check t = Ok c" by (simp add: sample_bech32_def)
  show "ch_bytes c = ungrouped (ch_units c)"
    and "length t = length (ch_prefix c) + 1 + length (ch_units c) + checksum_length"
    by (rule bip_check_exact [OF c])+
  assume "ch_units c = regrouped (ch_bytes c) \<and> length t \<le> 90"
  with bip_check_exact(3) [OF c] show
    "code_encode sample_bech32 (text_lower (ch_prefix c)) (ch_bytes c) = Some (text_lower t)"
    by (simp add: sample_bech32_def)
qed

end
