(* ===== verification/Spec2Isabelle.thy ===== *)
theory Spec2Isabelle
  imports Commit_Samples Device_Keys Rebase_Samples Recovery_Samples
begin

text \<open>
  coffret keeps a library of files as encrypted objects in a store that is trusted with nothing. Its Rust
  workspace has a domain (\<open>src/backend/crates/domain\<close>): \<open>coffret-model\<close>, the values everything agrees on;
  \<open>coffret-format\<close>, the bytes of every object; \<open>coffret-usecase\<close>, the flows over a store, an Index and the
  local files. This development models the first two and the parts of the third listed below; gateways and
  applications are adapters around them.

  The theories, in the order they build on each other, with the files under \<open>src/\<close> they model:

  \<^item> \<open>Prelude\<close>, \<open>Ordered_Map\<close>, \<open>Text\<close>: results as sums, \<open>u64\<close> and \<open>usize\<close> arithmetic with its wrap-around,
    big-endian fields, the locales \<open>codec\<close> and \<open>canonical_codec\<close>, \<open>BTreeMap\<close> as the locale \<open>ordered_map\<close>
    with its interpretation, and the operations on text the standard library gives.
  \<^item> \<open>Identifiers\<close>, \<open>Entry_Paths\<close>, \<open>Object_Names\<close>, \<open>Canonical_Order\<close>, \<open>Catalog_Values\<close>, \<open>Aggregates\<close>:
    \<open>coffret-model\<close>. Each constructor is a function to \<open>model_error + value\<close> with the source's refusals in the
    source's order, and a lemma says exactly what it accepts.
  \<^item> \<open>Padme\<close>: \<open>padme.rs\<close>, its word arithmetic, and its specification over the naturals.
  \<^item> \<open>Format_Errors\<close>, \<open>Container_Header\<close>, \<open>Cipher\<close>: \<open>error\<close>, \<open>header.rs\<close>, \<open>nonce.rs\<close>, \<open>purpose.rs\<close>,
    \<open>aead.rs\<close>, \<open>key_envelope.rs\<close>, \<open>purpose_key.rs\<close>.
  \<^item> \<open>Recovery_Code\<close>: \<open>recovery_code\<close>, the Master Key on paper. The crate \<open>bech32\<close> is a parameter; what is read is
    exactly what is written. \<open>Recovery_Samples\<close> shows BIP-350's own checksum to keep the laws assumed of it.
  \<^item> \<open>Device_Keys\<close>: \<open>stored_master_key\<close>, \<open>token_cache\<close> and \<open>account_cache_key_envelope\<close>. Each form opens to exactly
    what sealing would have put there, and no form above the ceiling of costs is taken.
  \<^item> \<open>Cbor\<close>, \<open>Cbor_Fields\<close>, \<open>Keyring_Payload\<close>, \<open>Control_Objects\<close>: \<open>field_numbers\<close>, \<open>control\<close>.
  \<^item> \<open>Field_Laws\<close>, \<open>Wire_Catalog\<close>, \<open>Journal_Payload\<close>, \<open>Snapshot_Payload\<close>: \<open>control/journal_record\<close>,
    \<open>control/index_snapshot\<close> and the maps they share. What is written is read back, what is read satisfies the
    aggregates' rules, and writing meets no refusal of the registry.
  \<^item> \<open>Meta_Section\<close>, \<open>Chunk_Geometry\<close>, \<open>Container_Encoding\<close>: \<open>meta\<close>, \<open>layout.rs\<close>, \<open>encode.rs\<close>, \<open>stream\<close>,
    \<open>container_reader\<close> (the geometry). \<open>Container_Encoding\<close> has the reference of the format
    (\<open>container_written\<close>: the header, the sealed meta section and the sealed pieces of the stream, told without a layout)
    that the encoder is shown to write.
  \<^item> \<open>Container_Decoding\<close>, \<open>Container_Writer\<close>, \<open>Chunk_Reading\<close>, \<open>Chunk_Fetching\<close>: \<open>decode\<close>,
    \<open>container_writer.rs\<close>, \<open>container_reader/chunk_run_reader.rs\<close>. Decoding inverts encoding and accepts nothing
    but whole Containers, the writer streams what the encoder yields, and a ranged read gives the range. The writer's
    loop over its chunk buffer would not end on a buffer of no size; that is \<open>None\<close> there, shown not to happen.
  \<^item> \<open>Keyed_Map\<close>, \<open>Device_State\<close>, \<open>Catalog_Renames\<close>, \<open>Index_State\<close>: of \<open>coffret-usecase\<close>, \<open>device_state\<close>,
    \<open>entry_ref.rs\<close>, \<open>index_error\<close>, \<open>catalog_renames\<close>, \<open>committed_batch.rs\<close> and \<open>in_memory_index\<close>, the Index the
    flows are specified by. \<open>Index_Catalog\<close> takes its tables for the sets they hold (\<open>stored\<close>) and shows \<open>apply\<close> to be
    an operation on those sets, accepted exactly when \<open>fits\<close> says so; \<open>Index_Rows\<close> says what becomes of each row;
    \<open>Index_Steps\<close> is the state machine over all operations with its invariant \<open>index_ok\<close>.
  \<^item> \<open>Effects\<close>, \<open>Object_Store\<close>, \<open>Retry\<close>, \<open>In_Memory_Store\<close>, \<open>Commit_Ports\<close>: what the flows of \<open>coffret-usecase\<close>
    stand on. A call that reaches a port is an action on the world \<open>'w\<close>, everything outside the process: it answers with
    the world it leaves and a \<open>Result\<close>, or with \<open>None\<close> where the code would panic. \<open>object_store\<close> and its errors, slots
    and streams; \<open>retry\<close>, whose clock and entropy are the world's; \<open>in_memory_store\<close>, the store the flows are specified
    against; the errors, keys and policy of a commit and the reading and sealing of one control object.
  \<^item> \<open>Control_Listing\<close>, \<open>Catch_Up\<close>: \<open>commit/control_listing\<close>, \<open>catch_up\<close>. The walk over the listing and what is filed
    of it, the walk down to a Snapshot that opens, the replay of the records from there, and the budgets of the records
    held on the way.
  \<^item> \<open>Commit_Batch\<close>, \<open>Commit_Keyring\<close>, \<open>Commit_Journal\<close>, \<open>Commit_Run\<close>: \<open>commit\<close>. The batch and its rebase over the
    records it did not see, the check of the candidate, the examination, repair and writing of a Keyring generation, the
    aim, the conditional create and the reading back of a refused one, the removals moved aside, the checkpoint, and the
    attempts of \<open>commit_batch\<close>.
  \<^item> \<open>Library_History\<close> says what a history of records makes of a Library, apart from any device; an Index refines it.
    \<open>Library_World\<close> has the contracts the flows rely on while nobody else writes: \<open>steady_storage\<close>, a store that lists
    and reads what it holds, and \<open>library_world\<close>, with the Index. \<open>Convergence\<close> shows that a catch-up ends at the
    Library the whole history makes. \<open>Commit_Candidate\<close> shows the check exact. \<open>Commit_Sealing\<close>: what a commit seals is
    what a catch-up opens. \<open>Commit_World\<close> extends the contract to writing (\<open>commit_world\<close>: a create that is refused
    leaves the objects as they were, one that succeeds adds one object under a fresh name), and \<open>keeps\<close> says of a step
    what it leaves alone. \<open>Commit_Steps\<close>, \<open>Commit_Rebase\<close>, \<open>Commit_Holding\<close>, \<open>Commit_Landing\<close> and \<open>Commit_Atomic\<close>
    follow a commit through it. Each of the locales is interpreted on the in-memory store and Index.
  \<^item> \<open>Rebase_Outcome\<close> specifies on the Library what a rebase makes of a batch and where it turns one down (\<open>rebased\<close>), and
    shows \<open>rebase\<close> to be that.
  \<^item> \<open>Samples\<close>, \<open>Index_Samples\<close>, \<open>Library_Samples\<close>, \<open>Rebase_Samples\<close>, \<open>Commit_Samples\<close>: concrete inputs for the
    witnesses; the last two run a rebase that changes its batch and a whole commit that lands, in the kernel.

  In the flows, \<open>join_all\<close> runs its futures in order, a nonce is drawn before the bytes it seals are laid out, logs and
  progress are left out, and the guard over a finding of the caller's (\<open>short_report.rs\<close>) is carried as a value
  (\<open>run_notes\<close>). The worlds of the contracts have no other writer; the model of the code has no such limit, since every
  port call may answer anything and leave any world. That a commit which answers an error has landed nothing is shown for the
  in-memory Index, which never fails of itself; with an Index that can, \<open>after_commit\<close> answers the failed refresh as an
  error after the record has landed, as \<open>commit/run.rs\<close> documents.

  Conventions. A \<open>String\<close> is its UTF-8 bytes, as a HOL string. \<open>usize\<close> has 64 bits. A \<open>u64\<close> that the code
  computes with is a natural with the wrap-around written out (\<open>wadd64\<close>, \<open>wmul64\<close>, \<open>wsub64\<close>), or a \<open>64 word\<close>
  where the code works bitwise (\<open>Padme\<close>). Randomness is the argument \<open>drawn\<close>. Third-party libraries are
  parameters with their documented behaviour as named laws: the AEAD (\<open>aead_laws\<close>), \<open>ciborium\<close>
  (\<open>cbor_laws\<close>), the derived \<open>Deserialize\<close> (\<open>serde_laws\<close>), \<open>bech32\<close> (\<open>bech32_laws\<close>), Unicode normalisation (\<open>nfc_laws\<close>), BLAKE3, HKDF and Argon2id.
  An \<open>expect\<close> or \<open>unwrap\<close> of the code is a result without a value, shown never to be reached.

  Every recursion is structural or has a termination proof (the attempts of a commit and of a retry, the pages of a
  listing by the cap the code has), so no fuel is needed.

  Not modelled: the gateways and the applications, which are adapters around the ports; of the use cases, those that
  prepare a batch or act on local files (freeze, sync, fetch, repack, local scans and spools); zeroisation of secrets, and the texts of errors.

  The properties follow, most important group first.
\<close>

section \<open>Commits and catch-ups\<close>

text \<open>C1: \<open>commit_batch\<close> is all or nothing, over the in-memory store and the in-memory Index while nobody else writes. It
  starts from a Storage that holds a history of one record at least (so the first head is there), of which the Index has taken the first \<open>k\<close> and from
  which the rest can be reached, with a batch that can be written and whose Containers have fresh ids, by libraries that
  keep their laws (\<open>committable\<close>). Then it never panics. If it answers an error, Storage holds that very history; that Index
  does not fail of itself, so the one error the code documents for after a record has landed, an Index that cannot be
  refreshed, does not arise. If it answers success, Storage holds the history and one record more: the record it answers
  with, which applies to the Library as it stood and carries the batch (the same Containers under the same ids, the same
  removals, new paths and name); the Index then views exactly the Library that history makes.\<close>

theorem commit_is_atomic:
  assumes "committable lib keys policy rs b" and "mem_world_ok w" and "index_ok (mw_index w)"
    and "storage_holds (mem_ports md5 lib) keys (mem_objects md5 w) rs base"
    and "k \<le> length rs" and "view_of (mw_index w) = library_after rs k"
    and "within_reach (mem_ports md5 lib) keys (mem_objects md5 w) base k"
  shows "\<exists>v r. commit_batch (mem_ports md5 lib) keys policy b short w = Some (v, r) \<and> mem_world_ok v \<and> index_ok (mw_index v) \<and>
    (case r of
       Inl _ \<Rightarrow> storage_holds (mem_ports md5 lib) keys (mem_objects md5 v) rs base
     | Inr (out, _) \<Rightarrow>
         storage_holds (mem_ports md5 lib) keys (mem_objects md5 v) (rs @ [co_record out]) base \<and>
         history_ok (rs @ [co_record out]) \<and> carries b (co_record out) \<and>
         view_of (mw_index v) = library_after (rs @ [co_record out]) (Suc (length rs)))"
proof -
  have n: "length (rs @ [r]) \<le> max_format_integer" "length rs \<le> max_format_integer" for r
    using assms(1) by (simp_all add: committable_def)
  have "mem_commit.ready md5 lib keys rs base w"
    using assms by (auto simp: mem_commit.ready_def mem_commit.settled_iff [OF n(2)])
  from mem_commit.commit_batch_lands [OF _ this, of policy b short] assms(1) obtain v r where
    v: "commit_batch (mem_ports md5 lib) keys policy b short w = Some (v, r)"
      "case r of Inl _ \<Rightarrow> mem_commit.ready md5 lib keys rs base v
       | Inr (out, _) \<Rightarrow> mem_commit.landed md5 lib keys rs base b (co_record out) v"
    by (auto simp: mem_ports_def)
  then show ?thesis
    by (cases r) (auto simp: mem_commit.ready_def mem_commit.landed_def mem_commit.settled_iff [OF n(1)]
        mem_commit.settled_iff [OF n(2)])
qed

theorem commit_is_atomic_witness:
  "\<exists>v out short. commit_batch (mem_ports md5_of trial_libraries) sample_keys trial_policy sample_batch None trial_world =
      Some (v, Ok (out, short)) \<and> co_record out = trial_second \<and> carries sample_batch trial_second \<and>
    storage_holds (mem_ports md5_of trial_libraries) sample_keys (mem_objects md5_of v) [trial_first, trial_second] 0 \<and>
    view_of (mw_index v) = library_after [trial_first, trial_second] 2"
proof -
  have reach: "within_reach (mem_ports md5_of trial_libraries) sample_keys (mem_objects md5_of trial_world) 0 0" by (simp add: within_reach_def)
  have view: "view_of (mw_index trial_world) = library_after [trial_first] 0" and ix: "index_ok (mw_index trial_world)"
    using view_default index_default_ok by (simp_all add: trial_world_def)
  obtain v r where v:
    "commit_batch (mem_ports md5_of trial_libraries) sample_keys trial_policy sample_batch None trial_world = Some (v, r)"
    "case r of
       Inl _ \<Rightarrow> storage_holds (mem_ports md5_of trial_libraries) sample_keys (mem_objects md5_of v) [trial_first] 0
     | Inr (out, _) \<Rightarrow>
         storage_holds (mem_ports md5_of trial_libraries) sample_keys (mem_objects md5_of v) ([trial_first] @ [co_record out]) 0 \<and>
         history_ok ([trial_first] @ [co_record out]) \<and> carries sample_batch (co_record out) \<and>
         view_of (mw_index v) = library_after ([trial_first] @ [co_record out]) (Suc (length [trial_first]))"
    using commit_is_atomic [OF trial_committable trial_world_ok ix trial_storage le0 view reach, of None]
    by (elim exE conjE) (rule that)
  obtain out short where r: "r = Ok (out, short)" and out: "co_record out = trial_second"
    using trial_lands unfolding v(1) by (auto split: sum.splits)
  show ?thesis using v out unfolding r by (auto simp: numeral_2_eq_2)
qed

text \<open>C2: a catch-up converges. From a Storage that holds a history of records, and an Index that has taken any number of
  them, \<open>catch_up\<close> succeeds as long as the listing is within its cap and the records the Index misses are there, or a
  Snapshot past the gap opens; the Index it leaves views the Library all the records make, whatever mix of Snapshots and
  records it read, and the head it answers is the newest record's.\<close>

theorem catch_up_reaches_the_head:
  assumes "mem_world_ok w" and "index_ok (mw_index w)"
    and "pages_for (ms_page_size (mw_store w)) (length (ms_live (mw_store w))) \<le> max_pages"
    and "history_ok rs" and "storage_holds (mem_ports md5 lib) keys (mem_objects md5 w) rs base"
    and "k \<le> length rs" and "view_of (mw_index w) = library_after rs k"
    and "within_reach (mem_ports md5 lib) keys (mem_objects md5 w) base k"
  shows "\<exists>v caught. catch_up (mem_ports md5 lib) keys retry w = Some (v, Ok caught) \<and>
    view_of (mw_index v) = library_after rs (length rs) \<and> index_ok (mw_index v) \<and>
    mem_objects md5 v = mem_objects md5 w \<and>
    caught_head_generation caught = (if rs = [] then None else Some (Generation (length rs - 1)))"
proof -
  have "pages_for (ms_page_size (mw_store w)) (length (past_token None (mw_store w))) \<le> max_pages" using assms(3) by simp
  from mem_library.catch_up_converges [OF assms(1,2) this assms(4-8), of retry] show ?thesis by blast
qed

theorem catch_up_reaches_the_head_witness:
  "\<exists>v caught. catch_up (mem_ports md5_of first_libraries) sample_keys retry_default first_world = Some (v, Ok caught) \<and>
    view_of (mw_index v) = library_after [first_record] 1 \<and> caught_head_generation caught = Some (Generation 0)"
proof -
  have "within_reach (mem_ports md5_of first_libraries) sample_keys (mem_objects md5_of first_world) 0 0" by (simp add: within_reach_def)
  moreover have "view_of (mw_index first_world) = library_after [first_record] 0" "index_ok (mw_index first_world)"
    using view_default index_default_ok by (simp_all add: first_world_def)
  moreover have "pages_for (ms_page_size (mw_store first_world)) (length (ms_live (mw_store first_world))) \<le> max_pages"
    using first_pages by simp
  ultimately show ?thesis
    using catch_up_reaches_the_head [OF first_world_ok _ _ first_history_ok first_storage, of 0 md5_of retry_default] by auto
qed

text \<open>C3: the check a batch passes before anything is written is exact: it accepts a batch of well-formed additions under
  new ids precisely when every Container it removes is current and the record it makes applies to the Library the Index
  views; it reads the Index and changes nothing.\<close>

theorem candidate_check_is_exact:
  assumes "mem_world_ok w" and "catalog_wf (mw_index w)" and "batch_record g prev e keyring next_slot snapshot_slot b = Inr r"
    and "\<forall>p \<in> set (pb_additions b). addition_ok (pa_addition p)"
    and "(\<lambda>p. addition_id (pa_addition p)) ` set (pb_additions b) \<inter>
      cid ` {c \<in> stored (ix_containers (mw_index w)). cid c \<notin> set (pb_removals b)} = {}"
  shows "\<exists>res. candidate_check (mem_ports md5 lib) b w = Some (w, res) \<and>
    (res = Ok () \<longleftrightarrow> set (pb_removals b) \<subseteq> loc_container ` stored (ix_entries (mw_index w)) \<and> record_fits r (view_of (mw_index w)))"
  by (rule mem_reads.candidate_exact [OF assms])

theorem candidate_check_is_exact_witness:
  "\<exists>res. candidate_check (mem_ports md5_of first_libraries) sample_batch first_world = Some (first_world, res) \<and>
    (res = Ok () \<longleftrightarrow> record_fits sample_second (view_of index_default))"
proof -
  have "\<forall>p \<in> set (pb_additions sample_batch). addition_ok (pa_addition p)"
    using sample_deposit_ok by (simp add: sample_batch_fields carried_ok_def)
  moreover have "catalog_wf (mw_index first_world)" "mw_index first_world = index_default"
    using index_okD(1) [OF index_default_ok] by (simp_all add: first_world_def)
  ultimately show ?thesis
    using candidate_check_is_exact [OF first_world_ok _ sample_batch_record, of md5_of first_libraries]
    by (simp add: sample_batch_fields index_default_def stored_def bt_values_def)
qed



text \<open>C5: of any number of writers that consume the same free slot of the in-memory store, the first lands and every other
  one is told the name is taken; the name then holds what the first wrote, and no other name is touched.\<close>

theorem one_writer_takes_the_slot:
  assumes "mem_ok s" and "live_at s (cs_name slot) = None" and "cs_provider_id slot = None"
    and "\<forall>body \<in> set (b # bs). length body < 2 ^ 64 - 1"
  shows "\<exists>t. race slot (b # bs) s =
      (Ok (ObjectRef (cs_name slot)) # replicate (length bs) (Err (AlreadyExists (cs_name slot))), t) \<and>
    live_at t = (live_at s)(cs_name slot \<mapsto> b) \<and> mem_ok t"
  by (rule race_free [OF assms])

theorem one_writer_takes_the_slot_witness:
  "\<exists>t. race (slot_by_name ''head-1.cfrt'') [[1], [2], [3]] (mw_store first_world) =
      ([Ok (ObjectRef ''head-1.cfrt''), Err (AlreadyExists ''head-1.cfrt''), Err (AlreadyExists ''head-1.cfrt'')], t) \<and>
    live_at t ''head-1.cfrt'' = Some [1]"
proof -
  have "mem_ok (mw_store first_world)" using first_world_ok by (simp add: mem_world_ok_def)
  moreover have "live_at (mw_store first_world) ''head-1.cfrt'' = None" by code_simp
  ultimately show ?thesis
    using one_writer_takes_the_slot [of "mw_store first_world" "slot_by_name ''head-1.cfrt''" "[1]" "[[2], [3]]"]
    by (auto simp: slot_by_name_def)
qed

text \<open>C6: the walk over the listing ends and changes nothing, on any Storage that keeps the listing's contract while nobody
  writes (\<open>steady_storage\<close>), whatever its page size and whether or not its names are unique. Within the cap on pages it is
  refused exactly where two objects stand under the name of one head or one checkpoint, and names two such objects;
  otherwise it files every object listed. Past the cap it is refused.\<close>

theorem listing_walk_ends:
  assumes "steady_storage P ok objects ahead pages" and "ok w"
  shows "\<exists>r. listing_read P retry w = Some (w, r) \<and>
    (if pages w None \<le> max_pages
     then (if single_twice (map (\<lambda>(i, _). oi_name i) (objects w))
           then \<exists>name first second. r = Err (DuplicateControlObject name first second) \<and> first \<noteq> second \<and>
                  {(show_name name, first), (show_name name, second)} \<subseteq> set (map (\<lambda>(i, _). (oi_name i, oi_ref i)) (objects w))
           else \<exists>l. r = Ok l \<and> files (map (\<lambda>(i, _). (oi_name i, oi_ref i)) (objects w)) l)
     else \<exists>e. r = Err e)"
proof (cases "pages w None \<le> max_pages")
  case True
  let ?infos = "map fst (objects w)"
  have walked: "walked ?infos = map (\<lambda>(i, _). (oi_name i, oi_ref i)) (objects w)"
    and names: "map oi_name ?infos = map (\<lambda>(i, _). oi_name i) (objects w)"
    and refs: "map oi_ref ?infos = map (\<lambda>(i, _). oi_ref i) (objects w)"
    by (simp_all add: case_prod_beta)
  have run: "listing_read P retry w = Some (w, filing listing_default ?infos)"
    by (rule steady_storage.listing_read_eq [OF assms True])
  have "distinct (map snd [] @ map oi_ref ?infos)"
    unfolding refs using steady_storage.refs_distinct [OF assms] by simp
  note err = filing_Err [OF files_default this]
  show ?thesis
  proof (cases "filing listing_default ?infos")
    case (Inl e)
    then have "single_twice (map (\<lambda>(i, _). oi_name i) (objects w))" using filing_Ok_iff [of ?infos] unfolding names by auto
    then show ?thesis using True run err [OF Inl] unfolding walked Inl by auto
  next
    case (Inr l)
    then have "\<not> single_twice (map (\<lambda>(i, _). oi_name i) (objects w))" using filing_Ok_iff [of ?infos] unfolding names by blast
    then show ?thesis using True run filing_Ok [OF Inr] unfolding walked Inr by auto
  qed
next
  case False
  have "\<exists>e. read_pages P retry listing_default None 0 w = Some (w, Err e)"
    by (rule steady_storage.read_pages_past_cap [OF assms]) (use False in \<open>simp_all add: max_pages_def\<close>)
  then show ?thesis using False by (auto simp: listing_read_def)
qed

theorem listing_walk_ends_witness:
  "(\<exists>l. listing_read (mem_ports md5_of first_libraries) retry_default first_world = Some (first_world, Ok l) \<and>
     has_head l (Generation 0)) \<and>
   (\<exists>name first second. listing_read twin_ports retry_default first_world =
      Some (first_world, Err (DuplicateControlObject name first second)) \<and> {first, second} = {ObjectRef ''x'', ObjectRef ''y''})"
proof -
  let ?P = "mem_ports md5_of first_libraries"
  have names: "map (\<lambda>(i, _). oi_name i) (mem_objects md5_of first_world) = [show_name (HeadName (Generation 0))]"
    by (simp add: mem_objects_def first_world_def info_of_def)
  have "\<not> single_twice [show_name (HeadName (Generation 0))]" by (simp add: single_twice_def)
  then obtain l where l: "listing_read ?P retry_default first_world = Some (first_world, Ok l)"
      "files (map (\<lambda>(i, _). (oi_name i, oi_ref i)) (mem_objects md5_of first_world)) l"
    using listing_walk_ends [OF mem_steady.steady_storage_axioms first_world_ok, of md5_of first_libraries retry_default] first_pages
    unfolding names by auto
  have "has_head l (Generation 0)"
  proof -
    have "fst ` set (map (\<lambda>(i, _). (oi_name i, oi_ref i)) (mem_objects md5_of first_world)) =
        set (map (\<lambda>(i, _). oi_name i) (mem_objects md5_of first_world))" unfolding set_map image_image case_prod_beta by simp
    moreover have "name_ok (HeadName (Generation 0))" by (simp add: generation_ok_def)
    ultimately show ?thesis unfolding files_heads [OF l(2)] names by (simp del: show_name.simps)
  qed
  moreover have "parse_name (show_name (HeadName (Generation 0))) = Inr (HeadName (Generation 0))"
    by (simp add: control_name.dec_Inr_iff generation_ok_def del: show_name.simps)
  then have "single_twice (map (\<lambda>(i, _). oi_name i) twin_objects)"
    by (simp add: twin_objects_def single_twice_def is_single_name_def del: show_name.simps)
  then have "\<exists>name first second. listing_read twin_ports retry_default first_world =
      Some (first_world, Err (DuplicateControlObject name first second)) \<and> {first, second} = {ObjectRef ''x'', ObjectRef ''y''}"
    using listing_walk_ends [OF twin_steady TrueI, of retry_default first_world]
    by (auto simp: max_pages_def twin_objects_def simp del: show_name.simps)
  ultimately show ?thesis using l(1) by blast
qed

text \<open>C7: a retried call ends, within both of its policy's bounds: for any count of the calls made and of the time slept, at
  most the policy's attempts (one at least) are made and at most its total wait is slept through, whatever the provider
  answers and whatever wait it asks for.\<close>

theorem retries_are_bounded:
  fixes calls slept :: "'w \<Rightarrow> nat"
  assumes "\<And>w. \<exists>v r. attempt w = Some (v, r) \<and> calls v \<le> calls w + 1 \<and> slept v \<le> slept w"
    and "\<And>n w. calls (fst (sys_fill Y n w)) \<le> calls w \<and> slept (fst (sys_fill Y n w)) \<le> slept w"
    and "\<And>d w. calls (sys_sleep Y d w) \<le> calls w \<and> slept (sys_sleep Y d w) \<le> slept w + d"
  shows "\<exists>v r. retry_run Y p attempt w = Some (v, r) \<and> calls v \<le> calls w + max 1 (ry_attempts p) \<and>
    slept v \<le> slept w + ry_total_wait p"
proof -
  have "ensures (\<lambda>_. True) (retry_run Y p attempt) (\<lambda>_ _. True)"
  proof (rule retry_ensures)
    have "\<exists>v r. attempt w = Some (v, r)" for w using assms(1) [of w] by blast
    then show "ensures (\<lambda>_. True) attempt (\<lambda>r w. (\<forall>e. r = Inl e \<longrightarrow> True) \<and> True)" by (simp add: ensures_def)
  qed simp_all
  from ensuresD [OF this TrueI, of w] obtain v r where run: "retry_run Y p attempt w = Some (v, r)" by auto
  have "calls v \<le> calls w + max 1 (ry_attempts p - 0) \<and> slept v + 0 \<le> slept w + ry_total_wait p"
  proof (rule retry_loop_bounds [where Y = Y and attempt = attempt and r = r])
    show "attempt w = Some (v, r) \<Longrightarrow> calls v \<le> calls w + 1 \<and> slept v \<le> slept w" for w v r using assms(1) [of w] by auto
    show "retry_loop Y p attempt 0 0 w = Some (v, r)" using run by (simp add: retry_run_def)
  qed (use assms(2,3) in simp_all)
  then show ?thesis using run by auto
qed

theorem retries_are_bounded_witness:
  "\<exists>v r. retry_run \<lparr>sys_fill = \<lambda>n w. (w, None), sys_sleep = \<lambda>d (calls, slept). (calls, slept + d)\<rparr> retry_default
      (\<lambda>(calls, slept). Some ((calls + 1, slept), Err (RateLimited None :: store_error) :: store_error + nat)) (0, 0) = Some (v, r) \<and>
    fst v \<le> max 1 (ry_attempts retry_default) \<and> snd v \<le> ry_total_wait retry_default"
  using retries_are_bounded [where calls = fst and slept = snd and w = "(0 :: nat, 0 :: nat)" and p = retry_default
      and Y = "\<lparr>sys_fill = \<lambda>n w. (w, None), sys_sleep = \<lambda>d (calls, slept). (calls, slept + d)\<rparr>"
      and attempt = "\<lambda>(calls, slept). Some ((calls + 1, slept), Err (RateLimited None :: store_error) :: store_error + nat)"]
  by auto

text \<open>C8: what a catch-up keeps of the records it met on the way stays within both of its budgets, the number of records and
  the bytes of their bodies, however many it walks: keeping one more keeps the account exact and both budgets.\<close>

theorem held_records_are_bounded:
  assumes "distinct gs" and "length gs = length ds"
  shows "held_ok (fold (\<lambda>(g, d). held_keep g d) (zip gs ds) held_default)"
proof -
  have "held_ok (fold (\<lambda>(g, d). held_keep g d) (zip gs ds) h)"
    if "held_ok h" "\<forall>g \<in> set gs. bt_get (hd_records h) g = None" for h
    using that assms
  proof (induction gs arbitrary: ds h)
    case (Cons g gs)
    then obtain d es where ds: "ds = d # es" by (cases ds) auto
    have "held_ok (held_keep g d h)" by (rule held_keep_ok) (use Cons.prems in simp_all)
    moreover have "\<forall>g' \<in> set gs. bt_get (hd_records (held_keep g d h)) g' = None"
      using Cons.prems by (auto simp: held_keep_def Let_def bt_get_insert held_ok_def)
    ultimately show ?case using Cons by (simp add: ds)
  qed simp
  then show ?thesis using held_default_ok by (simp add: held_default_def bt_get_def)
qed

theorem held_records_are_bounded_witness:
  "held_ok (fold (\<lambda>(g, d). held_keep g d) (zip [Generation 0, Generation 1]
     [\<lparr>dc_kind = Journal, dc_generation = Generation 0, dc_replica = replica_single, dc_payload = sample_payload\<rparr>,
      \<lparr>dc_kind = Journal, dc_generation = Generation 1, dc_replica = replica_single, dc_payload = sample_payload\<rparr>]) held_default)"
  by (rule held_records_are_bounded) simp_all

section \<open>Containers\<close>

text \<open>C9: \<open>encode\<close>, which plans a layout and copies the Entries through one chunk buffer, yields exactly the object the
  format specifies and nothing else (\<open>container_written\<close>, which mentions no layout): the header with the padded length of
  the meta section; the meta section, of the Entries placed one after another and the length of the padding, filled up to
  the padding rule's length and sealed under its own nonce; then the contents and the padding, cut at multiples of the
  chunk size into as many pieces as they fill and one at least, each sealed under its own chunk nonce with the last one
  marked final. It fails exactly where there is no such object: no Entries, contents past the format's integers, a meta
  section that cannot be written or is past its ceiling, or a seal that fails.\<close>

theorem encode_seals_the_stream:
  assumes "cbor_laws L" and "0 < chunk_bytes (er_chunk_size req)"
  shows "encode L A blake3 req = Inr ec \<longleftrightarrow> container_written L A blake3 req ec"
  by (rule encode_written [OF assms])

theorem encode_seals_the_stream_witness:
  "container_written sample_cbor plain_aead sample_hash sample_request sample_container \<and>
     ec_object_name sample_container = container_object_name sample_id \<and> ec_entries sample_container = [sample_entry] \<and>
     drop header_len (ec_bytes sample_container) = (1 # replicate 16 0) @ ([1, 2] @ replicate 16 0) @ ([3] @ replicate 16 0)"
proof -
  have cs: "0 < chunk_bytes (er_chunk_size sample_request)" by (simp add: sample_request_def)
  have len: "length (ly_header_bytes sample_layout) = header_len"
    by (simp add: sample_layout_def sample_id_def container_id_ok_def container_id_byte_len_def)
  have "container_written sample_cbor plain_aead sample_hash sample_request sample_container"
    using encode_seals_the_stream [OF sample_cbor_laws cs] sample_encoded by blast
  then show ?thesis using len by (simp add: sample_container_def)
qed

text \<open>C10: an object \<open>encode\<close> wrote opens under its key to the Container that was encoded: its id, kind and chunk
  size, the content of every Entry byte for byte, and the Entries' metadata, for every list of Entries, every chunk
  size and every padding, as long as the object is shorter than the format's integers reach.\<close>

theorem container_roundtrip:
  assumes "aead_laws A" and "cbor_laws L" and "serde_laws de" and "\<forall>x. length (blake3 x) = 32"
    and "container_id_ok (er_container req)" and "chunk_size_ok (er_chunk_size req)"
    and "\<forall>s \<in> set (er_entries req). source_ok is_nfc s" and "length (er_entries req) \<le> 2 ^ 32"
    and "encode L A blake3 req = Inr ec" and "length (ec_bytes ec) < 2 ^ 63"
  shows "\<exists>ds. decode L de is_nfc A blake3 (ec_bytes ec) (er_key req) =
      Inr \<lparr>dec_container = er_container req, dec_chunk_size = er_chunk_size req, dec_kind = er_kind req, dec_entries = ds\<rparr> \<and>
    map de_content ds = map es_content (er_entries req) \<and> map de_metadata ds = ec_entries ec"
  by (rule decode_encode [OF assms])

theorem container_roundtrip_witness:
  "decode sample_cbor read_meta (\<lambda>_. True) plain_aead sample_hash (ec_bytes sample_container) (ContainerKey (replicate 32 0)) =
    Inr \<lparr>dec_container = sample_id, dec_chunk_size = ChunkSize 2, dec_kind = OneFile,
         dec_entries = [\<lparr>de_metadata = sample_entry, de_content = [1, 2, 3]\<rparr>]\<rparr>"
proof -
  from container_roundtrip [OF plain_aead_laws sample_cbor_laws read_meta_laws sample_request_ok(6,1,2,3,4) sample_encoded
      sample_request_ok(5)]
  obtain ds where ds: "decode sample_cbor read_meta (\<lambda>_. True) plain_aead sample_hash (ec_bytes sample_container)
      (ContainerKey (replicate 32 0)) = Inr \<lparr>dec_container = sample_id, dec_chunk_size = ChunkSize 2, dec_kind = OneFile,
         dec_entries = ds\<rparr>" and "map de_content ds = [[1, 2, 3]]" and "map de_metadata ds = [sample_entry]"
    by (auto simp: sample_request_def sample_source_def sample_container_def)
  then have "ds = [\<lparr>de_metadata = sample_entry, de_content = [1, 2, 3]\<rparr>]" by (cases ds) auto
  with ds show ?thesis by simp
qed

text \<open>C11: an Entry is read without the rest of its Container: the outline of an encoded object opens, the chunks that
  cover the Entry's extent are found, and the bytes of the object in their ciphertext range, fed to the run reader in
  whatever pieces they arrive, give a plaintext in which the Entry's content lies at its offset from the run's start.\<close>

theorem fetch_reads_the_entry:
  assumes "aead_laws A" and "cbor_laws L" and "serde_laws de" and "\<forall>x. length (blake3 x) = 32"
    and "container_id_ok (er_container req)" and "chunk_size_ok (er_chunk_size req)"
    and "\<forall>s \<in> set (er_entries req). source_ok is_nfc s" and "length (er_entries req) \<le> 2 ^ 32"
    and "encode L A blake3 req = Inr ec" and "length (ec_bytes ec) < 2 ^ 63" and "n < length (er_entries req)"
  shows "\<exists>outline run. outline_open L de is_nfc A (ec_bytes ec) (er_key req) = Inr outline \<and>
    entry_numbered outline (EntryNumber n) = Some (ec_entries ec ! n) \<and>
    chunks_covering outline (extent_range (extent (ec_entries ec ! n))) = Inr run \<and>
    (\<forall>pieces. concat pieces = slice (fst (run_ciphertext run)) (snd (run_ciphertext run)) (ec_bytes ec) \<longrightarrow>
      (\<exists>plain. rr_run A outline (er_key req) run pieces = Inr plain \<and>
        take (extent_size (extent (ec_entries ec ! n)))
          (drop (offset (extent (ec_entries ec ! n)) - run_plaintext_start run) plain) = es_content (er_entries req ! n)))"
  by (rule fetch_entry [OF assms])

theorem fetch_reads_the_entry_witness:
  "\<exists>outline run plain. outline_open sample_cbor read_meta (\<lambda>_. True) plain_aead (ec_bytes sample_container)
      (er_key sample_request) = Inr outline \<and> chunks_covering outline (0, 3) = Inr run \<and>
    rr_run plain_aead outline (er_key sample_request) run
      [slice (fst (run_ciphertext run)) (snd (run_ciphertext run)) (ec_bytes sample_container)] = Inr plain \<and>
    take 3 (drop (0 - run_plaintext_start run) plain) = [1, 2, 3]"
proof -
  have e: "ec_entries sample_container ! 0 = sample_entry" "es_content (er_entries sample_request ! 0) = [1, 2, 3]"
    "0 < length (er_entries sample_request)"
    by (simp_all add: sample_container_def sample_request_def sample_source_def)
  have r: "extent_range (extent sample_entry) = (0, 3)"
    by (simp add: extent_range_def extent_end_eq extent_ok_def max_format_integer_def)
  from fetch_reads_the_entry [OF plain_aead_laws sample_cbor_laws read_meta_laws sample_request_ok(6,1,2,3,4) sample_encoded
      sample_request_ok(5) e(3), unfolded e r]
  obtain outline run where o: "outline_open sample_cbor read_meta (\<lambda>_. True) plain_aead (ec_bytes sample_container)
      (er_key sample_request) = Inr outline" "chunks_covering outline (0, 3) = Inr run"
    and pieces: "\<forall>pieces. concat pieces = slice (fst (run_ciphertext run)) (snd (run_ciphertext run)) (ec_bytes sample_container) \<longrightarrow>
      (\<exists>plain. rr_run plain_aead outline (er_key sample_request) run pieces = Inr plain \<and>
        take (extent_size (extent sample_entry)) (drop (offset (extent sample_entry) - run_plaintext_start run) plain) = [1, 2, 3])"
    by blast
  from pieces have "\<exists>plain. rr_run plain_aead outline (er_key sample_request) run
      [slice (fst (run_ciphertext run)) (snd (run_ciphertext run)) (ec_bytes sample_container)] = Inr plain \<and>
      take 3 (drop (0 - run_plaintext_start run) plain) = [1, 2, 3]"
    by (elim allE [of _ "[slice (fst (run_ciphertext run)) (snd (run_ciphertext run)) (ec_bytes sample_container)]"]) simp
  with o show ?thesis by blast
qed

text \<open>C12: the incremental writer, fed the Entries' contents in pieces of any size, cut anywhere, ends (none of its
  loops runs forever) and yields the object and the Entries that \<open>encode\<close> yields for them in memory, and fails
  exactly when \<open>encode\<close> does.\<close>

theorem writer_streams_the_encoding:
  assumes "cbor_laws L" and "chunk_size_ok (er_chunk_size req)"
    and "concat pieces = concat (map es_content (er_entries req))"
  shows "\<exists>r. cw_run L A blake3 (plan_of_request blake3 req) pieces = Some r \<and>
    (\<forall>es out. r = Inr (es, out) \<longleftrightarrow>
       (\<exists>ec. encode L A blake3 req = Inr ec \<and> ec_bytes ec = out \<and> ec_entries ec = es))"
  by (rule cw_run_encode [OF assms])

theorem writer_streams_the_encoding_witness:
  "cw_run sample_cbor plain_aead sample_hash (plan_of_request sample_hash sample_request) [[1], [], [2, 3]] =
    Some (Inr ([sample_entry], ec_bytes sample_container))"
proof -
  have "concat [[1], [], [2, 3]] = concat (map es_content (er_entries sample_request))"
    by (simp add: sample_request_def sample_source_def)
  from writer_streams_the_encoding [OF sample_cbor_laws sample_request_ok(2) this] obtain r where
    r: "cw_run sample_cbor plain_aead sample_hash (plan_of_request sample_hash sample_request) [[1], [], [2, 3]] = Some r"
    and "\<forall>es out. r = Inr (es, out) \<longleftrightarrow> (\<exists>ec. encode sample_cbor plain_aead sample_hash sample_request = Inr ec \<and>
      ec_bytes ec = out \<and> ec_entries ec = es)" by blast
  then have "r = Inr ([sample_entry], ec_bytes sample_container)"
    using sample_encoded by (simp add: sample_container_def)
  with r show ?thesis by simp
qed

text \<open>C13: whatever \<open>decode\<close> accepts is a whole Container: its body is one message per chunk, each sealed under the
  nonce of its place with the last one marked final, so no message is missing, moved or added; the plaintexts are
  the Entries' contents in order and zeros of exactly the padding's length; and every content has the hash its
  metadata records.\<close>

theorem decoded_container_is_authentic:
  assumes "aead_laws A" and "decode L de is_nfc A blake3 object key = Inr dc"
  shows "\<exists>outline ps ms. outline_open L de is_nfc A object key = Inr outline \<and>
    map de_metadata (dec_entries dc) = o_entries outline \<and>
    sealed_chain A (key_bytes key) (take header_len object) 0 ps ms \<and>
    drop (cl_body_start (o_layout outline)) object = concat ms \<and>
    concat ps = concat (map de_content (dec_entries dc)) @ replicate (o_pad_len outline) 0 \<and>
    (\<forall>d \<in> set (dec_entries dc). content (de_metadata d) = ContentHash (blake3 (de_content d)) \<and>
      length (de_content d) = extent_size (extent (de_metadata d)))"
proof -
  obtain outline ps ms where o: "outline_open L de is_nfc A object key = Inr outline"
    "map de_metadata (dec_entries dc) = o_entries outline"
    "\<forall>d \<in> set (dec_entries dc). content (de_metadata d) = ContentHash (blake3 (de_content d))"
    "sealed_chain A (key_bytes key) (take header_len object) 0 ps ms"
    "drop (cl_body_start (o_layout outline)) object = concat ms"
    "map (\<lambda>d. length (de_content d)) (dec_entries dc) = map (\<lambda>e. extent_size (extent e)) (o_entries outline)"
    "concat ps = concat (map de_content (dec_entries dc)) @ replicate (o_pad_len outline) 0"
    using decode_sound [OF assms] by metis
  from o(6) have "\<forall>d \<in> set (dec_entries dc). length (de_content d) = extent_size (extent (de_metadata d))"
    unfolding o(2) [symmetric] by simp
  with o show ?thesis by blast
qed

theorem decoded_container_is_authentic_witness:
  "\<exists>outline ps ms. outline_open sample_cbor read_meta (\<lambda>_. True) plain_aead (ec_bytes sample_container)
      (ContainerKey (replicate 32 0)) = Inr outline \<and>
    sealed_chain plain_aead (replicate 32 0) (take header_len (ec_bytes sample_container)) 0 ps ms \<and>
    concat ps = [1, 2, 3] @ replicate (o_pad_len outline) 0"
proof -
  from decode_encode [OF plain_aead_laws sample_cbor_laws read_meta_laws sample_request_ok(6,1,2,3,4) sample_encoded
      sample_request_ok(5)]
  obtain ds where ds: "decode sample_cbor read_meta (\<lambda>_. True) plain_aead sample_hash (ec_bytes sample_container)
      (ContainerKey (replicate 32 0)) = Inr \<lparr>dec_container = sample_id, dec_chunk_size = ChunkSize 2, dec_kind = OneFile,
         dec_entries = ds\<rparr>" and "map de_content ds = [[1, 2, 3]]"
    by (auto simp: sample_request_def sample_source_def)
  then show ?thesis using decoded_container_is_authentic [OF plain_aead_laws ds] by auto
qed

text \<open>C14: the run reader accepts a run's ciphertext exactly when it is the run's messages, whole, in order and
  authentic, each under the nonce of its index; the pieces it arrives in change neither that nor the plaintext.\<close>

theorem pieces_do_not_matter:
  assumes "run_ok run"
  shows "rr_run A outline key run pieces = Inr out \<longleftrightarrow>
    opened A (key_bytes key) (header_to_bytes (o_header outline)) (run_layout run) (run_first run) (run_count run)
      (concat pieces) = Some out"
  by (rule rr_run_eq [OF assms])

theorem pieces_do_not_matter_witness:
  "rr_run plain_aead sample_outline (ContainerKey (replicate 32 0)) (all_chunks sample_outline)
     [[1, 2] @ replicate 16 0 @ [3], replicate 15 0, [0]] = Inr [1, 2, 3]"
proof -
  note ok = all_chunks_ok(1) [OF sample_outline_ok]
  have l: "run_layout (all_chunks sample_outline) = o_layout sample_outline" "run_first (all_chunks sample_outline) = 0"
    "run_count (all_chunks sample_outline) = 2"
    by (simp_all add: all_chunks_def chunk_run_new_def sample_outline_def)
  have m: "message_len_of (o_layout sample_outline) 0 = 18" "message_len_of (o_layout sample_outline) 1 = 17"
    "final_index (o_layout sample_outline) = 1"
    by (simp_all add: message_len_of_def plaintext_len_of_def final_index_def sample_outline_def tag_length_def
        wadd64_def wsub64_def wmul64_def u64_bound_def)
  have "opened plain_aead k hb (o_layout sample_outline) 0 2 (([1, 2] @ replicate 16 0) @ ([3] @ replicate 16 0)) = Some [1, 2, 3]"
    for k hb
    by (simp add: numeral_2_eq_2 m [simplified] open_message_def checked_sub64_def tag_length_def plain_aead_def)
  moreover have "concat [[1, 2] @ replicate 16 0 @ [3], replicate 15 0, [0]] =
      ([1, 2] @ replicate 16 0) @ ([3] @ replicate 16 (0 :: byte))" by (simp add: numeral_eq_Suc)
  ultimately show ?thesis unfolding pieces_do_not_matter [OF ok] l by metis
qed

text \<open>C15: \<open>Header::parse\<close> accepts exactly the objects that begin with the bytes \<open>to_bytes\<close> writes of a
  well-formed header, and returns that header: no second spelling is accepted, and every written header is read.\<close>

theorem header_parse_exact:
  "header_parse object = Inr h \<longleftrightarrow> header_ok h \<and> (\<exists>rest. object = header_to_bytes h @ rest)"
  by (rule header_parse_iff)

text \<open>C16: the word computation of \<open>padme::padded_len\<close> (shifts and masks on \<open>u64\<close>) computes the Padme bucket,
  the least multiple of the granule that is not below the length, wherever adding the granule does not wrap.\<close>

theorem padding_word_matches_spec:
  assumes "unat v + granule (unat v) \<le> 2 ^ 64"
  shows "unat (padded_len v) = padme_spec (unat v)"
  by (rule padded_len_eq_spec [OF assms])

theorem padding_word_matches_spec_witness: "unat (padded_len 1000) = padme_spec 1000"
proof -
  have n: "nlog2 1000 = 9" by (rule nlog2_unique) simp_all
  have "nlog2 9 = 3" by (rule nlog2_unique) simp_all
  with n have "granule 1000 = 32" by (simp add: granule_def)
  then show ?thesis using padding_word_matches_spec [of 1000] by simp
qed

text \<open>C17: within one Container no two messages are sealed under the same nonce: the nonces of two chunks are equal
  only for the same index and the same final mark, and none is the nonce of the meta section.\<close>

theorem nonces_never_repeat:
  assumes "i < 2 ^ 64" and "j < 2 ^ 64"
  shows "(nonce_chunk i f = nonce_chunk j g \<longleftrightarrow> i = j \<and> f = g) \<and> nonce_meta \<noteq> nonce_chunk i f"
  by (intro conjI nonce_chunk_inject [OF assms] nonce_meta_not_chunk [OF assms(1)])

theorem nonces_never_repeat_witness: "nonce_chunk 3 True \<noteq> nonce_chunk 3 False \<and> nonce_meta \<noteq> nonce_chunk 3 True"
  using nonces_never_repeat [of 3 3 True False] by simp

text \<open>C18: \<open>chunks_covering\<close> refuses a plaintext range exactly when it is reversed or reaches past the padded stream. The
  chunks it names for a range that is not empty hold the whole range, and no run of the same Container that holds the range
  lacks one of them; for an empty range it names the one chunk its position is in, the last one at the end.\<close>

theorem covering_is_the_least_run:
  assumes "outline_ok outline"
  shows "((\<exists>r. chunks_covering outline (a, b) = Inr r) \<longleftrightarrow> a \<le> b \<and> b \<le> cl_padded_len (o_layout outline)) \<and>
    (\<forall>r. chunks_covering outline (a, b) = Inr r \<longrightarrow>
       (a = b \<longrightarrow> run_count r = 1 \<and>
          run_first r = min (a div cl_chunk_size (o_layout outline)) (cl_chunk_count (o_layout outline) - 1)) \<and>
       (a < b \<longrightarrow> fst (run_plaintext r) \<le> a \<and> b \<le> snd (run_plaintext r) \<and>
          (\<forall>q. run_ok q \<and> run_layout q = run_layout r \<and> fst (run_plaintext q) \<le> a \<and> b \<le> snd (run_plaintext q) \<longrightarrow>
             run_first q \<le> run_first r \<and> run_first r + run_count r \<le> run_first q + run_count q)))"
proof -
  have "run_count r = 1 \<and> run_first r = min (a div cl_chunk_size (o_layout outline)) (cl_chunk_count (o_layout outline) - 1)"
    if "chunks_covering outline (a, b) = Inr r" "a = b" for r
    using that chunks_covering_run(4) [OF assms that] chunks_covering_empty [OF assms, of a r] by simp
  then show ?thesis
    using chunks_covering_Ok_iff [OF assms, of a b] chunks_covering_covers [OF assms, of a b] by blast
qed

theorem covering_is_the_least_run_witness:
  "(\<exists>r. chunks_covering sample_outline (1, 3) = Inr r \<and> fst (run_plaintext r) \<le> 1 \<and> 3 \<le> snd (run_plaintext r)) \<and>
   (\<exists>r. chunks_covering sample_outline (2, 2) = Inr r \<and> run_count r = 1) \<and>
   (\<nexists>r. chunks_covering sample_outline (1, 4) = Inr r) \<and> (\<nexists>r. chunks_covering sample_outline (3, 1) = Inr r)"
  using covering_is_the_least_run [OF sample_outline_ok, of 1 3] covering_is_the_least_run [OF sample_outline_ok, of 2 2]
    covering_is_the_least_run [OF sample_outline_ok, of 1 4] covering_is_the_least_run [OF sample_outline_ok, of 3 1]
  by (auto simp: sample_outline_def)

text \<open>C19: the parcels \<open>overlapping\<close> names for an Entry are exactly those that share a chunk with the chunks that
  cover the Entry.\<close>

theorem overlapping_parcels_exact:
  assumes "parcels_ok p" and "pc_layout p = o_layout outline" and "outline_ok outline"
    and "parcels_overlapping p outline ext = Inr (lo, hi)"
  shows "\<exists>r. chunks_covering outline (extent_range ext) = Inr r \<and>
    (\<forall>i. lo \<le> i \<and> i < hi \<longleftrightarrow> (\<exists>q c. parcel_run p i = Some q \<and> run_has q c \<and> run_has r c))"
  by (rule parcels_overlapping_iff [OF assms])

theorem overlapping_parcels_exact_witness:
  "\<exists>r. chunks_covering sample_outline (extent_range (extent sample_entry)) = Inr r \<and>
     (\<forall>i. i < 2 \<longleftrightarrow> (\<exists>q c. parcel_run (parcels_of sample_outline 2) i = Some q \<and> run_has q c \<and> run_has r c))"
proof -
  have "parcels_overlapping (parcels_of sample_outline 2) sample_outline (extent sample_entry) = Inr (0, 2)"
    by (simp add: parcels_overlapping_def chunks_covering_def sample_outline_def parcels_of_def extent_range_def
        extent_end_def wadd64_def wsub64_def u64_bound_def chunk_run_new_def final_index_def Let_def)
  from overlapping_parcels_exact [OF parcels_of_ok [OF sample_outline_ok] _ sample_outline_ok this]
  show ?thesis by (simp add: parcels_of_def)
qed

section \<open>Catalog values\<close>

text \<open>C20: in an addition the constructor accepts, the Entries tile the stream: every position below the end of
  the last Entry lies in exactly one Entry.\<close>

theorem every_byte_in_one_entry:
  assumes "addition_new c es ds = Inr a" and "\<forall>e \<in> set es. extent_ok (extent e)"
    and "pos < tiled_end 0 (add_entries a)"
  shows "\<exists>!i. i < length (add_entries a) \<and> extent_contains (extent (add_entries a ! i)) pos"
  using assms tiled_position [of 0 es pos] by (auto simp: addition_new_Ok_iff extents_ok_def)

theorem every_byte_in_one_entry_witness: "\<exists>!i. i < 1 \<and> extent_contains (extent ([sample_entry] ! i)) 2"
  using every_byte_in_one_entry [OF sample_addition, of 2] by (simp add: extent_ok_def max_format_integer_def)

text \<open>C21: two writers that gather the same additions, removals, Containers and Entries in different orders write
  the same record and the same snapshot content.\<close>

theorem canonical_forgets_order:
  assumes "mset as = mset as'" and "mset rs = mset rs'" and "mset cs = mset cs'" and "mset ls = mset ls'"
    and "journal_record_canonical g prev e k ns ss as rs = Inr r" and "snapshot_canonical cp ad cs ls = Inr s"
  shows "journal_record_canonical g prev e k ns ss as' rs' = Inr r \<and> snapshot_canonical cp ad cs' ls' = Inr s"
  using journal_record_canonical_forgets_order [OF assms(1,2,5)] snapshot_canonical_forgets_order [OF assms(3,4,6)]
  by blast

theorem canonical_forgets_order_witness:
  "journal_record_canonical (Generation 1) (Some (Generation 0)) (MasterKeyEpoch 1) \<lparr>kc_generation = Generation 1,
     kc_replica_count = 1, kc_set_digest = ''a''\<rparr> None None [] [sample_id, ContainerId (replicate 16 3)] =
   journal_record_canonical (Generation 1) (Some (Generation 0)) (MasterKeyEpoch 1) \<lparr>kc_generation = Generation 1,
     kc_replica_count = 1, kc_set_digest = ''a''\<rparr> None None [] [ContainerId (replicate 16 3), sample_id]"
proof -
  let ?k = "\<lparr>kc_generation = Generation 1, kc_replica_count = 1, kc_set_digest = ''a''\<rparr>"
  let ?rs = "[sample_id, ContainerId (replicate 16 3)]"
  let ?cp = "at_head (MasterKeyEpoch 1) (Generation 1) None ?k"
  have "Some (Generation 0) = predecessor_of (Generation 1)"
    by (simp add: predecessor_of_def checked_sub64_def generation_new_def max_format_integer_def)
  moreover have "distinct ?rs" by (simp add: sample_id_def)
  ultimately obtain r where r: "journal_record_canonical (Generation 1) (Some (Generation 0)) (MasterKeyEpoch 1) ?k None None [] ?rs = Inr r"
    using journal_record_canonical_Ok_iff [of "Generation 1" "Some (Generation 0)" "MasterKeyEpoch 1" ?k None None "[]" ?rs] by auto
  obtain s where s: "snapshot_canonical ?cp None [sample_summary] [] = Inr s"
    by (simp add: snapshot_canonical_Ok_iff snapshot_parts_ok_def)
  from canonical_forgets_order [OF refl _ refl refl r s, of "rev ?rs"] r show ?thesis by simp
qed

text \<open>C22: \<open>SnapshotContent::new\<close> accepts exactly Containers in id order and Entries in path order, without a
  repetition of an id, a path or an entry number, every Entry in a listed Container.\<close>

theorem snapshot_accepts_exactly:
  "snapshot_new cp ad cs ls = Inr s \<longleftrightarrow>
     sorted (map cid cs) \<and> sorted (map loc_path_str ls) \<and> snapshot_parts_ok cs ls \<and>
     s = \<lparr>sn_checkpoint = cp, sn_adopted = ad, sn_containers = cs, sn_entries = ls, sn_library_name = None\<rparr>"
  by (rule snapshot_new_Ok_iff)

section \<open>Control objects\<close>

text \<open>C23: a Journal record written as a payload is read back as it was, with every addition, Entry, removal, rename
  and optional field, under the generation of its object's name.\<close>

theorem journal_record_roundtrip:
  assumes "cbor_laws L" and "catalog_serde_laws de" and "journal_ok is_nfc r" and "journal_encode L r = Inr p"
  shows "journal_decode L de is_nfc p (jr_generation r) = Inr r"
  by (rule journal_decode_encode [OF assms])

theorem journal_record_roundtrip_witness:
  "journal_decode record_cbor read_catalog (\<lambda>_. True) \<lparr>pl_epoch = MasterKeyEpoch 1, pl_body = [3]\<rparr> (Generation 0) =
    Inr sample_record"
  using journal_record_roundtrip [OF record_cbor_laws read_catalog_laws sample_record_ok sample_record_encoded]
  by (simp add: sample_record_def)

text \<open>C24: whatever payload is read as a Journal record gives a record of the generation it was read under, with that
  generation's predecessor and the payload's epoch, additions, removals and renames in their canonical order, every
  addition tiling its Container with no path twice, and no rename into the derived namespace.\<close>

theorem decoded_journal_is_valid:
  assumes "journal_decode L de is_nfc p g = Inr r"
  shows "jr_generation r = g \<and> jr_prev r = predecessor_of g \<and> jr_epoch r = pl_epoch p \<and>
    sorted_wrt (<) (map addition_id (jr_additions r)) \<and> sorted_wrt (<) (jr_removals r) \<and>
    sorted_wrt (<) (map order_key (jr_renames r)) \<and>
    (\<forall>a \<in> set (jr_additions r). tiled_from 0 (add_entries a) \<and> distinct (map path (add_entries a))) \<and>
    (\<forall>n \<in> set (jr_renames r). \<not> path_is_derived (ren_path n))"
  using journal_decode_ok [OF assms] by (auto simp: collections_ok_def addition_ok_iff rename_ok_def)

theorem decoded_journal_is_valid_witness: "tiled_from 0 (add_entries sample_deposit)"
proof -
  have "journal_decode record_cbor read_catalog (\<lambda>_. True) \<lparr>pl_epoch = MasterKeyEpoch 1, pl_body = [3]\<rparr> (Generation 0) =
      Inr sample_record"
    using journal_decode_encode [OF record_cbor_laws read_catalog_laws sample_record_ok sample_record_encoded]
    by (simp add: sample_record_def)
  from decoded_journal_is_valid [OF this] show ?thesis by (simp add: sample_record_def sample_deposit_def)
qed

text \<open>C25: an Index Snapshot written as a payload, ordinary or activating, is read back under its own kind and head
  as it was, less the provenance of the Index that wrote it: every Entry finds its Container again by position.\<close>

theorem index_snapshot_roundtrip:
  assumes "cbor_laws L" and "catalog_serde_laws de" and "snapshot_payload_ok is_nfc p" and "snapshot_encode L p = Inr b"
  shows "snapshot_decode L de is_nfc b (snapshot_object_kind p) (cp_head (sn_checkpoint (sp_content p))) =
    Inr (p\<lparr>sp_content := (sp_content p)\<lparr>sn_adopted := None\<rparr>\<rparr>)"
  by (rule snapshot_decode_encode [OF assms])

theorem index_snapshot_roundtrip_witness:
  "snapshot_decode snapshot_cbor read_catalog (\<lambda>_. True) \<lparr>pl_epoch = MasterKeyEpoch 1, pl_body = [4]\<rparr> ActivationSnapshot
     (Generation 1) = Inr sample_snapshot"
  using index_snapshot_roundtrip [OF snapshot_cbor_laws read_catalog_laws sample_snapshot_ok sample_snapshot_encoded]
  by (simp add: sample_snapshot_def snapshot_activating_def snapshot_object_kind_def at_head_def)

text \<open>C26: whatever payload is read as an Index Snapshot of a kind at a generation is of that kind, checkpoints that
  head under the payload's epoch with a Journal not ahead of it, has its Containers and Entries in canonical order
  with no Entry named twice and none without its Container, and activates over an earlier head if it activates.\<close>

theorem decoded_snapshot_is_valid:
  assumes "snapshot_decode L de is_nfc b k g = Inr p"
  shows "snapshot_object_kind p = k \<and> cp_head (sn_checkpoint (sp_content p)) = g \<and>
    cp_epoch (sn_checkpoint (sp_content p)) = pl_epoch b \<and>
    cp_journal (sn_checkpoint (sp_content p)) \<le> g \<and> snapshot_ok (sp_content p) \<and>
    (\<forall>a. sp_activation p = Some a \<longrightarrow> sa_base_head a < g)"
  using snapshot_decode_ok [OF assms] by (simp add: checkpoint_ok_def)

theorem decoded_snapshot_is_valid_witness: "snapshot_object_kind sample_snapshot = ActivationSnapshot \<and> Generation 0 < Generation 1"
proof -
  have "snapshot_decode snapshot_cbor read_catalog (\<lambda>_. True) \<lparr>pl_epoch = MasterKeyEpoch 1, pl_body = [4]\<rparr> ActivationSnapshot
     (Generation 1) = Inr sample_snapshot"
    using snapshot_decode_encode [OF snapshot_cbor_laws read_catalog_laws sample_snapshot_ok sample_snapshot_encoded]
    by (simp add: sample_snapshot_def snapshot_activating_def snapshot_object_kind_def at_head_def)
  from decoded_snapshot_is_valid [OF this] show ?thesis by (simp add: sample_snapshot_def snapshot_activating_def)
qed

text \<open>C27: writing a Journal record, or a Snapshot whose content is canonical, is refused by the CBOR library or not at
  all: every field a payload can carry is in the registry, and every Entry of a Snapshot finds its Container.\<close>

theorem payload_writes_are_registered:
  assumes "snapshot_ok (sp_content p)"
  shows "((\<exists>b. journal_encode L r = Inr b) \<or> (\<exists>c. journal_encode L r = Inl (ControlPayloadEncodeFailed c))) \<and>
    ((\<exists>b. snapshot_encode L p = Inr b) \<or> (\<exists>c. snapshot_encode L p = Inl (ControlPayloadEncodeFailed c)))"
  using journal_encode_refused [of L r] snapshot_encode_refused [OF assms, of L]
  by (cases "journal_encode L r"; cases "snapshot_encode L p") auto

theorem payload_writes_are_registered_witness:
  "\<exists>c. snapshot_encode record_cbor sample_snapshot = Inl (ControlPayloadEncodeFailed c) \<or>
     (\<exists>b. snapshot_encode record_cbor sample_snapshot = Inr b)"
proof -
  have "snapshot_ok (sp_content sample_snapshot)" using sample_snapshot_ok by (simp add: snapshot_payload_ok_def Let_def)
  from payload_writes_are_registered [OF this] show ?thesis by blast
qed



text \<open>C29: what \<open>decode_control_object\<close> returns belongs to the name it was read under: the name is canonical, admits
  the kind, and states the generation and replica position of the header; the key is the kind's own and the object
  is within the kind's ceiling.\<close>

theorem decoded_object_is_named:
  assumes "decode_control_object L A object object_name key = Inr d"
  shows "\<exists>name h. object_name = show_name name \<and> name_ok name \<and> control_header_parse object = Inr h \<and>
    admits name (dc_kind d) \<and> name_generation name = dc_generation d \<and> name_replica name = dc_replica d \<and>
    dc_kind d = ch_kind h \<and> dc_generation d = ch_generation h \<and> dc_replica d = ch_replica h \<and>
    pk_purpose key = of_control_object (dc_kind d) \<and> length object \<le> max_control_object_len (dc_kind d)"
  by (rule decode_control_object_name [OF assms]) blast

theorem decoded_object_is_named_witness:
  "\<exists>name h. show_name sample_name = show_name name \<and> name_ok name \<and> control_header_parse sample_object = Inr h \<and>
     admits name Keyring \<and> name_generation name = ch_generation h"
  using decoded_object_is_named [OF sample_object_decoded] by auto

text \<open>C30: every key table \<open>keyring::decode\<close> returns, whatever the payload, is strictly increasing by Container id
  and its envelopes and ids have their lengths.\<close>

theorem decoded_key_table_ok:
  assumes "keyring_decode L p = Inr t"
  shows "key_table_ok t"
  by (rule keyring_decode_ok [OF assms])

theorem decoded_key_table_ok_witness: "key_table_ok sample_table"
  by (rule decoded_key_table_ok [OF keyring_decode_encode [OF keyring_cbor_laws sample_table_ok sample_keyring_encoded]])

section \<open>The Index\<close>

text \<open>C31: applying a record to an Index that was reached by its operations never panics. It is accepted exactly when
  the record is newer than the checkpoint, its renames name current Entries that may move and do, its additions are
  new Containers and no two Entries of the outcome share a path; then the catalog is the old one less the removed
  Containers, with the renames carried out and the additions located, and otherwise nothing has changed.\<close>

theorem apply_is_exact:
  assumes "index_reachable s" and "record_ok r"
  shows "\<exists>t outcome. index_apply r s = Some (t, outcome) \<and>
    (outcome = Ok () \<longleftrightarrow> index_fits r s) \<and> (outcome = Ok () \<longrightarrow> applied r s t) \<and> (outcome \<noteq> Ok () \<longrightarrow> t = s)"
  by (rule index_apply_exact [OF index_reachable_ok [OF assms(1)] assms(2)]) auto

theorem apply_is_exact_witness:
  "\<exists>t. index_apply sample_move sample_device = Some (t, Ok ()) \<and> applied sample_move sample_device t"
  using apply_is_exact [OF sample_device_reachable sample_record_well(2)] sample_move_fits by auto

text \<open>C32: a device's row follows the Entry it copies through a record. Where the Entry stays, the row keeps what it
  observed and says to move exactly when the Entry has left the row's path. Where the Entry's Container is replaced
  and an added Container has the path the Entry stood at, the row becomes a copy of the successor.\<close>

theorem rows_follow_entries:
  assumes "index_reachable s" and "record_ok r" and "index_apply r s = Some (t, Ok ())"
    and "bt_get (ix_local s) p = Some l" and "entry_at s q = Some e" and "entry_ref_of e = ob_entry (le_observation l)"
  shows "(loc_container e \<notin> set (jr_removals r) \<longrightarrow>
      (let at = loc_path (moved_by (jr_renames r) e)
       in bt_get (ix_local t) p = Some (l\<lparr>le_relocate_to := (if at \<noteq> p then Some at else None)\<rparr>))) \<and>
    (\<forall>f. loc_container e \<in> set (jr_removals r) \<and> entry_at t q = Some f \<and> added_by r f \<longrightarrow>
       bt_get (ix_local t) p = Some (l\<lparr>le_observation := (le_observation l)\<lparr>ob_entry := entry_ref_of f\<rparr>,
                                        le_relocate_to := (if q \<noteq> p then Some q else None)\<rparr>))"
proof -
  note ok = index_reachable_ok [OF assms(1)]
  have "applied r s t" by (rule index_apply_exact [OF ok assms(2)]) (use assms(3) in auto)
  then show ?thesis
    using row_follows_entry [OF ok _ assms(4-6)] row_follows_successor [OF ok _ assms(4-6)] by (simp add: Let_def)
qed

theorem rows_follow_entries_witness:
  "\<exists>t. index_apply sample_move sample_device = Some (t, Ok ()) \<and>
     bt_get (ix_local t) sample_path = Some (sample_row\<lparr>le_relocate_to := Some (EntryPath ''moved'')\<rparr>)"
proof -
  obtain t where t: "index_apply sample_move sample_device = Some (t, Ok ())"
    by (rule index_apply_exact [OF index_reachable_ok [OF sample_device_reachable] sample_record_well(2)])
      (use sample_move_fits in auto)
  have "entry_ref_of sample_location = ob_entry (le_observation sample_row)"
    by (simp add: sample_location_fields sample_row_def sample_observation_def)
  note r = rows_follow_entries [OF sample_device_reachable sample_record_well(2) t sample_device_row sample_device_entry this]
  have "loc_path (moved_by (jr_renames sample_move) sample_location) = EntryPath ''moved''"
    by (rule moved_by_path [of _ "\<lparr>ren_container = sample_id, ren_number = EntryNumber 0, ren_path = EntryPath ''moved''\<rparr>", THEN trans])
      (simp_all add: sample_move_def order_key_def sample_location_fields)
  then show ?thesis using t r by (simp add: sample_move_def Let_def sample_path_def)
qed

text \<open>C33: in every Index its operations reach, a row says to move to a path exactly when its Entry is current there
  and not at the row's own path, and a row at the path of a current Entry is a copy of that Entry or waits to move.\<close>

theorem present_rows_are_copies:
  assumes "index_reachable s" and "local_entry_at s p = Some l"
  shows "(le_relocate_to l = Some q \<longleftrightarrow>
      q \<noteq> p \<and> (\<exists>e. entry_at s q = Some e \<and> entry_ref_of e = ob_entry (le_observation l))) \<and>
    (\<forall>e. entry_at s p = Some e \<longrightarrow> is_copy_of l e \<or> awaits_relocation l)"
  using row_relocates_iff row_copy_iff index_reachable_ok [OF assms(1)] assms(2) by (simp add: local_entry_at_def)

theorem present_rows_are_copies_witness:
  "local_entry_at sample_device sample_path = Some sample_row \<and> is_copy_of sample_row sample_location"
proof -
  have r: "local_entry_at sample_device sample_path = Some sample_row" using sample_device_row by (simp add: local_entry_at_def)
  moreover have "\<not> awaits_relocation sample_row" by (simp add: awaits_relocation_def sample_row_def)
  ultimately show ?thesis
    using present_rows_are_copies [OF sample_device_reachable r] sample_device_entry by blast
qed

text \<open>C34: an Index that has a checkpoint can always be read as a Snapshot, and any Index that restores it holds that
  Snapshot: same checkpoint, provenance, name, Containers and Entries.\<close>

theorem snapshot_travels:
  assumes "index_reachable s" and "ix_checkpoint s = Some at" and "index_reachable other"
  shows "\<exists>c t. state_snapshot s = Ok c \<and> index_restore c other = (t, Ok ()) \<and> state_snapshot t = Ok c"
proof -
  note ok = index_reachable_ok [OF assms(1)] index_reachable_ok [OF assms(3)]
  note c = state_snapshot_iff [OF index_okD(1) [OF ok(1)] assms(2)]
  obtain t where "state_restore (snapshot_of at s) other = Inr t" "restored (snapshot_of at s) other t"
    using state_restore_restored [OF index_okD(4) [OF ok(2)] c(2)] by blast
  with restored_snapshot c(1) show ?thesis by (auto simp: index_restore_def index_write_def)
qed

theorem snapshot_travels_witness:
  "\<exists>c t. state_snapshot sample_device = Ok c \<and> index_restore c index_default = (t, Ok ()) \<and> state_snapshot t = Ok c"
  by (rule snapshot_travels [OF sample_device_reachable]) (simp_all add: sample_device_eq sample_index_def)

text \<open>C35: a reservation is made under an id no other has. A sweep spares an id exactly when it was live when the sweep
  began, is live now, or was held in this process for the first time since; so one that had been held and let go before
  the sweep began is spared only while it is live, and there are runs in which it was live again in between and is not
  spared.\<close>

theorem reservations_are_kept_apart:
  assumes "index_reachable s" and "ix_next_reservation s + 1 < 2 ^ 64" and "live_step\<^sup>*\<^sup>* live_new before" and "live_step\<^sup>*\<^sup>* before now"
  shows "bt_get (ix_reservations s) (snd (reserve folder s)) = None \<and>
    (live_spares (live_since_now before) now i \<longleftrightarrow>
       live_is_live i before \<or> live_is_live i now \<or> (bt_contains (lv_ever now) i \<and> \<not> bt_contains (lv_ever before) i)) \<and>
    (\<exists>began held. live_step\<^sup>*\<^sup>* live_new began \<and> live_step\<^sup>*\<^sup>* began held \<and> live_is_live i held \<and>
       \<not> live_spares (live_since_now began) (live_end i held) i)"
proof -
  have "own_ok s" using index_okD(3) [OF index_reachable_ok [OF assms(1)]] .
  then have "bt_get (ix_reservations s) (snd (reserve folder s)) = None"
    using reserve_fresh(1) [of s folder "fst (reserve folder s)" "snd (reserve folder s)"] assms(2) by simp
  moreover have "live_ok before" using live_steps_ok [OF assms(3) live_new_ok] by blast
  ultimately show ?thesis using live_spares_iff [OF _ assms(4)] spares_misses_a_second_hold [of i] by (simp add: live_is_live_def disj_commute disj_left_commute)
qed

theorem reservations_are_kept_apart_witness:
  "bt_get (ix_reservations index_default) (snd (reserve None index_default)) = None \<and>
   live_spares (live_since_now live_new) (live_hold (ReservationId 1) live_new) (ReservationId 1)"
proof -
  have "live_step\<^sup>*\<^sup>* live_new (live_hold (ReservationId 1) live_new)" using live_step.held by blast
  note r = reservations_are_kept_apart [OF rtranclp.rtrancl_refl _ rtranclp.rtrancl_refl this, of None "ReservationId 1"]
  have "live_is_live (ReservationId 1) (live_hold (ReservationId 1) live_new)" by code_simp
  with r show ?thesis by (simp add: index_default_def)
qed

section \<open>Keys on paper and on a device\<close>

text \<open>C36: a Recovery Code is read exactly when, without its spacing and hyphens, it is the code \<open>encode\<close> writes for a
  32-byte key and an epoch, all in lowercase or all in uppercase; what is read is then that code. \<open>encode\<close> does not
  panic on what is read.\<close>

theorem recovery_code_is_exact:
  assumes "bech32_laws B"
  shows "recovery_parse B s = Ok r \<longleftrightarrow>
    (\<exists>k e c. length k = master_key_byte_len \<and> epoch_ok e \<and> recovery_encode B k e = Some c \<and> r = Some c \<and>
       (normalize s = rc_text c \<or> normalize s = text_upper (rc_text c)))"
  using recovery_parse_exact [OF assms] recovery_reads_back [OF assms] by blast

theorem recovery_code_is_exact_witness:
  "\<exists>c. recovery_encode sample_bech32 (replicate 32 7) (MasterKeyEpoch 3) = Some c \<and>
     recovery_parse sample_bech32 (rc_text c) = Ok (Some c)"
proof -
  have k: "length (replicate 32 (7 :: byte)) = master_key_byte_len" by (simp add: master_key_byte_len_def)
  from recovery_encodes [OF sample_bech32_laws this] obtain c where
    c: "recovery_encode sample_bech32 (replicate 32 7) (MasterKeyEpoch 3) = Some c" by blast
  moreover have "epoch_ok (MasterKeyEpoch 3)" by (simp add: epoch_ok_def max_format_integer_def)
  ultimately show ?thesis
    using k code_normalizes [OF sample_bech32_laws k c] recovery_code_is_exact [OF sample_bech32_laws, of "rc_text c" "Some c"]
    by blast
qed

text \<open>C37: \<open>encode\<close> answers for every 32-byte key and epoch with a text of 80 characters, and the code printed in
  groups of four reads back as the code with that key and epoch.\<close>

theorem printed_code_reads_back:
  assumes "bech32_laws B" and "length k = master_key_byte_len" and "epoch_ok e"
  shows "\<exists>c. recovery_encode B k e = Some c \<and> rc_master_key c = k \<and> rc_epoch c = e \<and>
    length (rc_text c) = recovery_text_len \<and> recovery_parse B (to_grouped_string c) = Ok (Some c)"
proof -
  obtain c where c: "recovery_encode B k e = Some c" using recovery_encodes [OF assms(1,2)] by blast
  obtain data where "rc_text c = human_readable_part @ CHR ''1'' # data" and "length data = 72"
    using recovery_encode_text(1) [OF assms(1,2) c] by blast
  then have "length (rc_text c) = recovery_text_len" by (simp add: recovery_text_len_def recovery_data_len_def)
  moreover have "normalize (to_grouped_string c) = rc_text c"
    using normalize_grouped code_normalizes [OF assms(1,2) c] by simp
  ultimately show ?thesis
    using c recovery_encode_fields [OF c] recovery_reads_back [OF assms c] by blast
qed

theorem printed_code_reads_back_witness:
  "\<exists>c. recovery_encode sample_bech32 (replicate 32 9) epoch_first = Some c \<and>
     recovery_parse sample_bech32 (to_grouped_string c) = Ok (Some c)"
proof -
  have "length (replicate 32 (9 :: byte)) = master_key_byte_len" by (simp add: master_key_byte_len_def)
  moreover have "epoch_ok epoch_first" by (simp add: epoch_ok_def epoch_first_def max_format_integer_def)
  ultimately show ?thesis using printed_code_reads_back [OF sample_bech32_laws] by blast
qed

text \<open>C38: what is taken for a stored Master Key is no longer than \<open>MAX_LEN\<close> and records a cost between Argon2id's lower
  bounds and the ceiling, so that no derivation above it is ever run; a Passphrase unlocks it to a key and an epoch
  exactly when creating a form at that cost, for that Passphrase, key and epoch, gives these bytes.\<close>

theorem stored_key_is_exact:
  assumes "aead_laws A" and "smk_from_bytes b = Ok f"
  shows "smk_bytes f = b \<and> length b \<le> smk_max_len \<and> cost_ok (sl_params (smk_layout f)) \<and>
    (smk_unlock G A f passphrase = Ok u \<longleftrightarrow>
      length (um_master_key u) = master_key_byte_len \<and> epoch_ok (um_epoch u) \<and>
      (\<exists>salt nonce. length salt < 256 \<and> length nonce = nonce_len \<and>
        smk_create_with G A (Ok salt) (Ok nonce) (sl_params (smk_layout f)) passphrase (um_master_key u) (um_epoch u) = Ok f))"
  using unlock_iff [OF assms] smk_from_bytes_bounds [OF assms(2)] by blast

theorem stored_key_is_exact_witness:
  "\<exists>f. smk_create \<lparr>argon_refuses = (\<lambda>_ _. None), argon_hash = (\<lambda>_ pw _. Ok pw)\<rparr> plain_aead (Ok (replicate 16 1))
       (Ok (replicate 24 2)) [1, 2, 3] (replicate 32 7) epoch_first = Ok f \<and>
     smk_unlock \<lparr>argon_refuses = (\<lambda>_ _. None), argon_hash = (\<lambda>_ pw _. Ok pw)\<rparr> plain_aead f [1, 2, 3] =
       Ok \<lparr>um_master_key = replicate 32 7, um_epoch = epoch_first\<rparr>"
proof -
  let ?G = "\<lparr>argon_refuses = (\<lambda>_ _. None), argon_hash = (\<lambda>_ pw _. Ok pw)\<rparr>"
  let ?salt = "replicate 16 (1 :: byte)" and ?nonce = "replicate 24 (2 :: byte)" and ?k = "replicate 32 (7 :: byte)"
  have l: "length ?salt < 256" "length ?nonce = nonce_len" "length ?k = master_key_byte_len" "length ?salt = smk_salt_len"
    by (simp_all add: nonce_len_def master_key_byte_len_def smk_salt_len_def)
  have e: "epoch_ok epoch_first" by (simp add: epoch_ok_def epoch_first_def max_format_integer_def)
  have "argon2_derive ?G argon2_initial [1, 2, 3] ?salt = Ok [1, 2, 3]" by (simp add: argon2_derive_def)
  moreover have "seal plain_aead [1, 2, 3] ?nonce (smk_front argon2_initial ?salt ?nonce) (?k @ be_bytes 8 (epoch epoch_first)) [] =
      Ok (?k @ be_bytes 8 (epoch epoch_first) @ replicate 16 0)" by (simp add: seal_def plain_aead_def)
  ultimately obtain f where
    f: "smk_create_with ?G plain_aead (Ok ?salt) (Ok ?nonce) argon2_initial [1, 2, 3] ?k epoch_first = Ok f"
    using smk_create_with_iff [OF plain_aead_laws l(1-3)] argon2_initial_ok by blast
  note c = create_unlocks [OF plain_aead_laws l(4,2,3) e f]
  have "smk_unlock ?G plain_aead f [1, 2, 3] = Ok \<lparr>um_master_key = ?k, um_epoch = epoch_first\<rparr>"
    using stored_key_is_exact [OF plain_aead_laws c(1), of ?G "[1, 2, 3]" "\<lparr>um_master_key = ?k, um_epoch = epoch_first\<rparr>"]
      l e f c(2) unlocked_master_key.select_convs by metis
  with f show ?thesis by (auto simp: smk_create_def)
qed

text \<open>C39: an envelope opens under a wrap key and an account name to exactly the account-cache key sealed in it under
  that key with the front and that name authenticated; and an account's token cache opens under that key to exactly
  the plaintext whose sealing, with the nonce at its front, is the file.\<close>

theorem account_files_are_bound:
  assumes "aead_laws A"
  shows "(decode_account_cache_key_envelope A b key name = Ok ck \<longleftrightarrow>
      pk_purpose key = AccountCacheWrap \<and> length (account_key_bytes ck) = key_length \<and>
      (\<exists>nonce m. length nonce = nonce_len \<and> b = ak_magic @ [ak_version, 0] @ nonce @ m \<and>
        seal A (pk_bytes key) nonce (ak_magic @ [ak_version, 0] @ nonce @ utf8_bytes name) (account_key_bytes ck) [] = Ok m)) \<and>
    (decode_account_token_cache A file ck = Ok t \<longleftrightarrow>
      (\<exists>nonce. length nonce = nonce_len \<and> encode_account_token_cache A (Ok nonce) t ck = Ok file))"
  unfolding account_envelope_iff [OF assms] account_envelope_bytes decode_account_token_cache_def
    encode_account_token_cache_def token_cache_open_iff [OF assms] by blast

theorem account_files_are_bound_witness:
  "decode_account_cache_key_envelope plain_aead
     (ak_magic @ [ak_version, 0] @ replicate 24 2 @ replicate 32 7 @ replicate 16 0)
     \<lparr>pk_purpose = AccountCacheWrap, pk_bytes = []\<rparr> ''main'' = Ok (AccountCacheKey (replicate 32 7))"
proof -
  have "seal plain_aead [] n ad (replicate 32 7) [] = Ok (replicate 32 7 @ replicate 16 0)" for n ad
    by (simp add: seal_def plain_aead_def)
  moreover have "length (replicate 24 (2 :: byte)) = nonce_len" "length (replicate 32 (7 :: byte)) = key_length"
    by (simp_all add: nonce_len_def key_length_def)
  ultimately show ?thesis
    using account_files_are_bound [OF plain_aead_laws, of _ "\<lparr>pk_purpose = AccountCacheWrap, pk_bytes = []\<rparr>" "''main''"
      "AccountCacheKey (replicate 32 7)"] purpose_key.select_convs account_cache_key.sel by metis
qed

section \<open>Names and paths\<close>

text \<open>C40: \<open>ControlObjectName::parse\<close> accepts exactly the spellings \<open>Display\<close> writes of well-formed names, so that
  each name has one spelling.\<close>

theorem control_names_exact: "parse_name w = Inr n \<longleftrightarrow> name_ok n \<and> show_name n = w"
  using parse_name_shows parse_show_name by blast

end
